(* ===== verification/Prelude.thy ===== *)
theory Prelude
  imports Main "HOL-Library.Word"
begin

text \<open>
  Shared vocabulary of the development: machine integers, the result type of fallible code,
  the page arithmetic of \<^verbatim>\<open>include/mm.h\<close>, and the generic lemmas on words and lists that the
  component theories use.  A C function that may call \<^verbatim>\<open>panic()\<close> or fail an
  \<^verbatim>\<open>assert\<close> returns \<^verbatim>\<open>error + 'a\<close>: \<^verbatim>\<open>Inl\<close> is the
  path that never comes back (the hypervisor stops the machine), \<^verbatim>\<open>Inr\<close> the normal return.
\<close>

unbundle bit_operations_syntax

section \<open>Types\<close>

type_synonym u8 = "8 word"
type_synonym u16 = "16 word"
type_synonym u32 = "32 word"
type_synonym u64 = "64 word"
type_synonym physaddr = u64
type_synonym ipa = u64

text \<open>
  \<open>Panic\<close> is a call of \<^verbatim>\<open>panic()\<close> or a failed \<^verbatim>\<open>assert\<close>; \<open>Undefined\<close> marks an
  execution whose behaviour C does not define (a null dereference, an index past the end of an
  array); \<open>Hang\<close> is a wait that nothing ends.
\<close>

datatype error = Panic string | Undefined string | Hang string

type_synonym 'a res = "error + 'a"

fun bind_res :: "'a res \<Rightarrow> ('a \<Rightarrow> 'b res) \<Rightarrow> 'b res" where
  "bind_res (Inl e) f = Inl e"
| "bind_res (Inr x) f = f x"

definition assert_res :: "bool \<Rightarrow> string \<Rightarrow> 'a res \<Rightarrow> 'a res" where
  "assert_res c msg k = (if c then k else Inl (Panic msg))"

text \<open>A loop over \<open>xs\<close> whose body may fail.\<close>

fun fold_res :: "('i \<Rightarrow> 'a \<Rightarrow> 'a res) \<Rightarrow> 'i list \<Rightarrow> 'a \<Rightarrow> 'a res" where
  "fold_res f [] s = Inr s"
| "fold_res f (i # is) s = bind_res (f i s) (fold_res f is)"

text \<open>Conversion of a 64-bit value to \<^verbatim>\<open>int\<close>.\<close>

definition to_int :: "u64 \<Rightarrow> int" where
  "to_int a = sint (ucast a :: u32)"

named_theorems mem_simps \<open>loads from updated memory\<close>
named_theorems pte_simps \<open>bit-level facts about page table entries\<close>
named_theorems vsm_simps \<open>evaluation of the shared-memory handlers\<close>
named_theorems gic_simps \<open>evaluation of the interrupt controller model\<close>

section \<open>Pages\<close>

definition PAGESIZE :: nat where
  "PAGESIZE = 4096"

definition PAGE_ADDRESS :: "u64 \<Rightarrow> u64" where
  "PAGE_ADDRESS p = p AND NOT (of_nat PAGESIZE - 1)"

definition PAGE_OFFSET :: "u64 \<Rightarrow> u64" where
  "PAGE_OFFSET p = p AND (of_nat PAGESIZE - 1)"

definition PAGE_ALIGNED :: "u64 \<Rightarrow> bool" where
  "PAGE_ALIGNED p \<longleftrightarrow> p mod of_nat PAGESIZE = 0"

definition PAGE_ALIGN :: "u64 \<Rightarrow> u64" where
  "PAGE_ALIGN p = (p + of_nat PAGESIZE - 1) AND NOT (of_nat PAGESIZE - 1)"

definition ALIGN_DOWN :: "u64 \<Rightarrow> u64 \<Rightarrow> u64" where
  "ALIGN_DOWN p al = p AND NOT (al - 1)"

definition ALIGN_UP :: "u64 \<Rightarrow> u64 \<Rightarrow> u64" where
  "ALIGN_UP p al = (p + al - 1) AND NOT (al - 1)"

section \<open>Results\<close>

lemma bind_res_eq_Inr: "bind_res r f = Inr y \<longleftrightarrow> (\<exists>x. r = Inr x \<and> f x = Inr y)"
  by (cases r) auto

lemma bind_res_eq_Inl: "bind_res r f = Inl e \<longleftrightarrow> r = Inl e \<or> (\<exists>x. r = Inr x \<and> f x = Inl e)"
  by (cases r) auto

lemma bind_res_assoc: "bind_res (bind_res r f) g = bind_res r (\<lambda>x. bind_res (f x) g)"
  by (cases r) auto

lemma assert_res_eq_Inr [simp]: "assert_res c m k = Inr y \<longleftrightarrow> c \<and> k = Inr y"
  by (simp add: assert_res_def)

lemma assert_res_True [simp]: "assert_res True m k = k"
  by (simp add: assert_res_def)

lemmas bind_res_split = bind_res_eq_Inr bind_res_eq_Inl

section \<open>Words\<close>

lemma unat_less_64: "unat (a :: u64) < 2 ^ 64"
  using unsigned_less [of a] by simp

lemma unat_add_no_wrap: "unat (a :: u64) + unat b < 2 ^ 64 \<Longrightarrow> unat (a + b) = unat a + unat b"
  by (simp add: unat_word_ariths)

lemma unat_rebase:
  assumes "unat (d :: u64) \<le> unat a" and "unat (s :: u64) + (unat a - unat d) < 2 ^ 64"
  shows "unat (s + (a - d)) = unat s + (unat a - unat d)"
proof -
  have "unat (a - d) = unat a - unat d"
    using assms(1) by (simp add: unat_sub word_le_nat_alt)
  then show ?thesis
    using assms(2) unat_add_no_wrap [of s "a - d"] by simp
qed

lemma unat_of_nat64: "n < 2 ^ 64 \<Longrightarrow> unat (of_nat n :: u64) = n"
  by (simp add: unat_of_nat take_bit_nat_eq_self)

lemma unat_exp64: "k < 64 \<Longrightarrow> unat (2 ^ k :: u64) = 2 ^ k"
proof -
  assume "k < 64"
  then have "(2 :: nat) ^ k < 2 ^ 64" by (rule power_strict_increasing) simp
  from unat_of_nat64 [OF this] show ?thesis by simp
qed

lemma unat_add_of_nat: "unat (a :: u64) + n < 2 ^ 64 \<Longrightarrow> unat (a + of_nat n) = unat a + n"
  by (simp add: unat_word_ariths unat_of_nat take_bit_nat_eq_self)

lemma add_of_nat_eq_iff:
  assumes "unat (a :: u64) + m < 2 ^ 64" and "unat b + n < 2 ^ 64"
  shows "a + of_nat m = b + of_nat n \<longleftrightarrow> unat a + m = unat b + n"
  using assms by (metis unat_add_of_nat word_unat_eq_iff)

lemma page_offset_mod: "PAGE_OFFSET p = p mod 4096"
proof -
  have "p AND mask 12 = take_bit 12 p"
    by (simp add: take_bit_eq_mask)
  then show ?thesis
    by (simp add: PAGE_OFFSET_def PAGESIZE_def take_bit_eq_mod mask_eq_exp_minus_1)
qed

lemma page_address_offset: "PAGE_ADDRESS p + PAGE_OFFSET p = p"
proof -
  have "PAGE_ADDRESS p + PAGE_OFFSET p = PAGE_ADDRESS p OR PAGE_OFFSET p"
    by (rule disjunctive_add_eq_or)
      (simp add: PAGE_ADDRESS_def PAGE_OFFSET_def bit_eq_iff bit_simps)
  also have "\<dots> = p"
    by (simp add: PAGE_ADDRESS_def PAGE_OFFSET_def bit_eq_iff bit_simps, blast)
  finally show ?thesis .
qed

lemma page_aligned_iff: "PAGE_ALIGNED p \<longleftrightarrow> PAGE_OFFSET p = 0"
  by (simp add: PAGE_ALIGNED_def page_offset_mod PAGESIZE_def)

lemma page_address_aligned: "PAGE_ALIGNED p \<longleftrightarrow> PAGE_ADDRESS p = p"
  by (metis add.right_neutral add_left_cancel page_address_offset page_aligned_iff)

lemma page_address_idem [simp]: "PAGE_ADDRESS (PAGE_ADDRESS p) = PAGE_ADDRESS p"
  by (simp add: PAGE_ADDRESS_def bit_eq_iff bit_simps)

lemma page_aligned_page_address [simp]: "PAGE_ALIGNED (PAGE_ADDRESS p)"
  by (simp add: page_address_aligned)

lemma page_aligned_unat: "PAGE_ALIGNED p \<longleftrightarrow> 4096 dvd unat p"
  by (simp add: PAGE_ALIGNED_def PAGESIZE_def word_unat_eq_iff unat_mod dvd_eq_mod_eq_0)

lemma nat_bit_less: "(v :: nat) < 2 ^ k \<Longrightarrow> bit v n \<Longrightarrow> n < k"
  by (metis bit_take_bit_iff take_bit_nat_eq_self)

lemma and_mask_take: "(x :: 'a :: len word) AND (2 ^ k - 1) = take_bit k x"
  by (simp add: take_bit_eq_mask mask_eq_exp_minus_1)

lemma and_masks:
  "(a :: u32) AND 0x3ff = take_bit 10 a" "(b :: u64) AND 0x3ff = take_bit 10 b" "(d :: u8) AND 0xf = take_bit 4 d"
  "(b :: u64) AND 3 = take_bit 2 b" "(a :: u32) AND 0xff = take_bit 8 a" "(b :: u64) AND 0xff = take_bit 8 b"
  "(a :: u32) AND 7 = take_bit 3 a"
  using and_mask_take [of a 10] and_mask_take [of b 10] and_mask_take [of d 4] and_mask_take [of b 2]
    and_mask_take [of a 8] and_mask_take [of b 8] and_mask_take [of a 3]
  by simp_all

lemma bit_push_one: "bit (push_bit k (1 :: 'a :: len word)) n \<longleftrightarrow> n = k \<and> k < LENGTH('a)"
  by (auto simp: push_bit_of_1 bit_exp_iff)

lemma bit_push_word: "bit (push_bit k (w :: 'a :: len word)) n \<longleftrightarrow> k \<le> n \<and> n < LENGTH('a) \<and> bit w (n - k)"
  by (auto simp: bit_push_bit_iff)

lemma bit_nonzero: "bit (w :: 'a :: len word) n \<Longrightarrow> w \<noteq> 0"
  by auto

lemma word_bit_bound: "bit (w :: 'a :: len word) n \<Longrightarrow> n < LENGTH('a)"
  by (rule bit_imp_le_length)

text \<open>Rewriting a bit of a word built from fields, without evaluating shifted constants.\<close>

lemmas field_bits = bit_or_iff bit_and_iff bit_push_one bit_push_word bit_take_bit_iff bit_unsigned_iff

lemma round_up_above:
  assumes "0 < (d :: nat)" and "\<not> d dvd n"
  shows "n < (n + d - 1) div d * d"
proof -
  obtain q r where n: "n = q * d + r" "r < d"
    using assms(1) by (metis div_mult_mod_eq mod_less_divisor)
  have r: "0 < r" using assms(2) n(1) by (cases r) auto
  have "n + d - 1 = (r - 1) + d * (q + 1)" using r n(1) by (simp add: algebra_simps)
  moreover have "((r - 1) + d * (q + 1)) div d = q + 1"
    using n(2) assms(1) by (simp only: div_mult_self2) simp
  ultimately have "(n + d - 1) div d = q + 1" by simp
  then show ?thesis using n by simp
qed

end
