(* ===== verification/Memory_Model.thy ===== *)
theory Memory_Model
  imports Prelude
begin

text \<open>
  The memory the hypervisor reads and writes, and the routines of \<^verbatim>\<open>core/lib.c\<close> that move
  bytes in it.  A heap maps the hypervisor's virtual addresses to 8-byte cells; page table entries,
  free-list links and page contents live in the same cells, so that clearing or copying a page is
  visible to every other reader of those addresses.  A byte access selects a lane of the cell that
  holds it (little endian, as the target is).  The address translations of
  \<^verbatim>\<open>include/memlayout.h\<close> are here too.
\<close>

type_synonym heap = "u64 \<Rightarrow> u64"

section \<open>Cells and bytes\<close>

definition byte_at :: "u64 \<Rightarrow> nat \<Rightarrow> u8" where
  "byte_at w i = ucast (drop_bit (8 * i) w)"

definition set_byte :: "u64 \<Rightarrow> nat \<Rightarrow> u8 \<Rightarrow> u64" where
  "set_byte w i v = (w AND NOT (push_bit (8 * i) 0xff)) OR push_bit (8 * i) (ucast v)"

definition cell :: "u64 \<Rightarrow> u64" where
  "cell a = a AND NOT 7"

definition lane :: "u64 \<Rightarrow> nat" where
  "lane a = unat (a AND 7)"

definition load8 :: "heap \<Rightarrow> u64 \<Rightarrow> u8" where
  "load8 h a = byte_at (h (cell a)) (lane a)"

definition store8 :: "heap \<Rightarrow> u64 \<Rightarrow> u8 \<Rightarrow> heap" where
  "store8 h a v = h(cell a := set_byte (h (cell a)) (lane a) v)"

text \<open>A 4-byte store at an 8-byte aligned address, as for \<^verbatim>\<open>struct header.order\<close>.\<close>

definition store32 :: "heap \<Rightarrow> u64 \<Rightarrow> u32 \<Rightarrow> heap" where
  "store32 h a v = h(a := (h a AND NOT (mask 32)) OR ucast v)"

section \<open>lib.c\<close>

primrec memset :: "u64 \<Rightarrow> u8 \<Rightarrow> nat \<Rightarrow> heap \<Rightarrow> heap" where
  "memset d c 0 h = h"
| "memset d c (Suc n) h = memset (d + 1) c n (store8 h d c)"

primrec copy_forward :: "nat \<Rightarrow> u64 \<Rightarrow> u64 \<Rightarrow> heap \<Rightarrow> heap" where
  "copy_forward 0 d s h = h"
| "copy_forward (Suc n) d s h = copy_forward n (d + 1) (s + 1) (store8 h d (load8 h s))"

primrec copy_backward :: "nat \<Rightarrow> u64 \<Rightarrow> u64 \<Rightarrow> heap \<Rightarrow> heap" where
  "copy_backward 0 d s h = h"
| "copy_backward (Suc n) d s h = copy_backward n (d - 1) (s - 1) (store8 h (d - 1) (load8 h (s - 1)))"

definition memmove :: "u64 \<Rightarrow> u64 \<Rightarrow> nat \<Rightarrow> heap \<Rightarrow> heap" where
  "memmove dst src n h =
     (if src > dst then copy_forward n dst src h
      else copy_backward n (dst + of_nat n) (src + of_nat n) h)"

definition memcpy :: "u64 \<Rightarrow> u64 \<Rightarrow> nat \<Rightarrow> heap \<Rightarrow> heap" where
  "memcpy dst src n h = memmove dst src n h"

primrec memcmp :: "heap \<Rightarrow> u64 \<Rightarrow> u64 \<Rightarrow> nat \<Rightarrow> int" where
  "memcmp h p1 p2 0 = 0"
| "memcmp h p1 p2 (Suc n) =
     (if load8 h p1 \<noteq> load8 h p2 then uint (load8 h p1) - uint (load8 h p2)
      else memcmp h (p1 + 1) (p2 + 1) n)"

section \<open>memlayout.h\<close>

definition VMM_SECTION_BASE :: u64 where
  "VMM_SECTION_BASE = 0x80000000"

definition VIRT_BASE :: u64 where
  "VIRT_BASE = 0xc0000000"

definition is_linear_addr :: "u64 \<Rightarrow> bool" where
  "is_linear_addr va \<longleftrightarrow> va \<ge> VIRT_BASE"

text \<open>\<^verbatim>\<open>pvoffset\<close> is fixed at boot; it is an argument here.\<close>

definition virt2phys :: "u64 \<Rightarrow> u64 \<Rightarrow> u64" where
  "virt2phys pvoffset va = (if is_linear_addr va then va - VIRT_BASE else va - pvoffset)"

definition phys2virt :: "u64 \<Rightarrow> u64" where
  "phys2virt pa = pa + VIRT_BASE"

definition phys2kern :: "u64 \<Rightarrow> u64 \<Rightarrow> u64" where
  "phys2kern pvoffset pa = pa + pvoffset"

section \<open>Lemmas on cells\<close>

lemma bit_ff: "bit (0xff :: u64) n \<longleftrightarrow> n < 8"
proof -
  have "(0xff :: u64) = mask 8"
    by (simp add: mask_eq_exp_minus_1)
  then show ?thesis
    by (simp only: bit_mask_iff) auto
qed

lemma byte_at_set_byte:
  assumes "i < 8" and "j < 8"
  shows "byte_at (set_byte w i v) j = (if i = j then v else byte_at w j)"
proof (rule bit_word_eqI)
  fix n :: nat
  assume "n < LENGTH(8)"
  then have n: "n < 8" by simp
  have lane: "8 * i \<le> 8 * j + n \<and> 8 * j + n - 8 * i < 8 \<longleftrightarrow> i = j"
    using n by auto
  have lt: "8 * j + n < 64" using assms n by simp
  show "bit (byte_at (set_byte w i v) j) n = bit (if i = j then v else byte_at w j) n"
    using n lane lt
    by (auto simp: byte_at_def set_byte_def bit_simps bit_ff [simplified] dest: bit_imp_le_length)
qed

lemma lane_less [simp]: "lane a < 8"
proof -
  have "a AND 7 \<le> 7" by (rule word_and_le1)
  then have "unat (a AND 7) \<le> unat (7 :: u64)" by (simp add: word_le_nat_alt)
  then show ?thesis by (simp add: lane_def)
qed

lemma cell_plus_lane: "cell a + of_nat (lane a) = a"
proof -
  have "cell a + (a AND 7) = cell a OR (a AND 7)"
    by (rule disjunctive_add_eq_or) (simp add: cell_def bit_eq_iff bit_simps)
  also have "\<dots> = a"
    by (simp add: cell_def bit_eq_iff bit_simps, blast)
  finally show ?thesis by (simp add: lane_def)
qed

lemma cell_lane_eq_iff: "cell a = cell b \<and> lane a = lane b \<longleftrightarrow> a = b"
  by (metis cell_plus_lane)

lemma load8_store8 [mem_simps]: "load8 (store8 h a v) b = (if a = b then v else load8 h b)"
proof (cases "cell a = cell b")
  case True
  have "lane a = lane b \<longleftrightarrow> a = b"
    using True cell_lane_eq_iff by blast
  then show ?thesis
    using True by (auto simp: load8_def store8_def byte_at_set_byte)
next
  case False
  then have "a \<noteq> b" by auto
  with False show ?thesis by (simp add: load8_def store8_def)
qed

text \<open>A cell is determined by its eight bytes.\<close>

lemma word_eq_bytes:
  assumes "\<And>i. i < 8 \<Longrightarrow> byte_at w i = byte_at v i"
  shows "w = v"
proof (rule bit_word_eqI)
  fix n :: nat
  assume "n < LENGTH(64)"
  then have n: "n < 64" by simp
  have "bit (byte_at w (n div 8)) (n mod 8) = bit (byte_at v (n div 8)) (n mod 8)"
    using assms n by simp
  then show "bit w n = bit v n"
    by (simp add: byte_at_def bit_simps)
qed

definition aligned8 :: "u64 \<Rightarrow> bool" where
  "aligned8 a \<longleftrightarrow> a AND 7 = 0"

lemma cell_id: "aligned8 a \<Longrightarrow> cell a = a"
  using cell_plus_lane [of a] by (simp add: aligned8_def lane_def)

lemma cell_aligned [simp]: "aligned8 (cell a)"
  by (simp add: aligned8_def cell_def bit_eq_iff bit_simps)

lemma cell_lane_add:
  assumes "aligned8 a" and "i < 8"
  shows "cell (a + of_nat i) = a \<and> lane (a + of_nat i) = i"
proof -
  have small: "(of_nat i :: u64) AND 7 = of_nat i"
  proof -
    have "(of_nat i :: u64) AND mask 3 = take_bit 3 (of_nat i)"
      by (simp add: take_bit_eq_mask)
    also have "\<dots> = of_nat i"
      using assms(2) by (simp add: take_bit_of_nat take_bit_nat_eq_self)
    finally show ?thesis by (simp add: mask_eq_exp_minus_1)
  qed
  have or: "a + of_nat i = a OR of_nat i"
  proof (rule disjunctive_add_eq_or)
    have "a AND (of_nat i AND 7) = (a AND 7) AND of_nat i"
      by (simp add: ac_simps)
    also have "\<dots> = 0"
      using assms(1) by (simp add: aligned8_def)
    finally have "a AND (of_nat i AND 7) = 0" .
    then show "a AND of_nat i = 0" by (simp add: small)
  qed
  have l: "(a + of_nat i) AND 7 = of_nat i"
    using assms(1) small by (simp add: or bit.conj_disj_distrib2 aligned8_def)
  then have "lane (a + of_nat i) = i"
    using assms(2) by (simp add: lane_def unat_of_nat take_bit_nat_eq_self)
  moreover have "cell (a + of_nat i) = a"
    using cell_plus_lane [of "a + of_nat i"] l by (simp add: lane_def)
  ultimately show ?thesis by simp
qed

lemma heap_eq_bytes:
  assumes "aligned8 a" and "\<And>i. i < 8 \<Longrightarrow> load8 h (a + of_nat i) = load8 h' (a + of_nat i)"
  shows "h a = h' a"
proof (rule word_eq_bytes)
  fix i :: nat
  assume "i < 8"
  with assms cell_lane_add [OF assms(1) this] show "byte_at (h a) i = byte_at (h' a) i"
    by (metis load8_def)
qed

section \<open>memset and memmove\<close>

definition in_range :: "u64 \<Rightarrow> nat \<Rightarrow> u64 \<Rightarrow> bool" where
  "in_range d n a \<longleftrightarrow> unat d \<le> unat a \<and> unat a < unat d + n"

lemma in_range_0 [simp]: "\<not> in_range d 0 a"
  by (simp add: in_range_def)

lemma in_range_Suc:
  assumes "unat d + Suc n \<le> 2 ^ 64"
  shows "in_range d (Suc n) a \<longleftrightarrow> a = d \<or> in_range (d + 1) n a"
proof (cases n)
  case 0
  then show ?thesis
    by (auto simp: in_range_def word_unat_eq_iff)
next
  case (Suc m)
  then have "unat (d + 1) = unat d + 1"
    using assms unat_add_of_nat [of d 1] by simp
  then show ?thesis
    by (auto simp: in_range_def word_unat_eq_iff)
qed

lemma succ_bound: "unat (d :: u64) + Suc n \<le> 2 ^ 64 \<Longrightarrow> n = 0 \<or> unat (d + 1) + n \<le> 2 ^ 64"
  using unat_add_of_nat [of d 1] by (cases n) auto

lemma load8_memset [mem_simps]:
  "unat d + n \<le> 2 ^ 64 \<Longrightarrow> load8 (memset d c n h) a = (if in_range d n a then c else load8 h a)"
proof (induction n arbitrary: d h)
  case 0
  then show ?case by simp
next
  case (Suc n)
  show ?case
  proof (cases "n = 0")
    case True
    then show ?thesis
      using Suc.prems by (auto simp: in_range_Suc mem_simps)
  next
    case False
    then have "unat (d + 1) + n \<le> 2 ^ 64"
      using succ_bound [OF Suc.prems] by blast
    then show ?thesis
      using Suc.IH Suc.prems by (auto simp: in_range_Suc mem_simps)
  qed
qed

lemma load8_copy_forward:
  "unat d < unat s \<Longrightarrow> unat s + n \<le> 2 ^ 64 \<Longrightarrow>
   load8 (copy_forward n d s h) a = (if in_range d n a then load8 h (s + (a - d)) else load8 h a)"
proof (induction n arbitrary: d s h)
  case 0
  then show ?case by simp
next
  case (Suc n)
  have dn: "unat d + Suc n \<le> 2 ^ 64"
    using Suc.prems by linarith
  show ?case
  proof (cases "n = 0")
    case True
    then show ?thesis
      using Suc.prems dn by (auto simp: in_range_Suc mem_simps)
  next
    case False
    have s1: "unat (s + 1) = unat s + 1" and d1: "unat (d + 1) = unat d + 1"
      using Suc.prems dn False unat_add_of_nat [of s 1] unat_add_of_nat [of d 1] by auto
    have "unat (d + 1) < unat (s + 1)" and "unat (s + 1) + n \<le> 2 ^ 64"
      using Suc.prems s1 d1 by auto
    note IH = Suc.IH [OF this, of "store8 h d (load8 h s)"]
    have ne: "in_range (d + 1) n a \<Longrightarrow> d \<noteq> s + (a - d)"
    proof
      assume r: "in_range (d + 1) n a" and "d = s + (a - d)"
      have "unat (s + (a - d)) = unat s + (unat a - unat d)"
        using r d1 Suc.prems by (intro unat_rebase) (auto simp: in_range_def)
      then show False
        using \<open>d = s + (a - d)\<close> Suc.prems(1) by simp
    qed
    have "s + 1 + (a - (d + 1)) = s + (a - d)" and "\<not> in_range (d + 1) n d"
      using d1 by (simp_all add: in_range_def)
    then show ?thesis
      using IH ne dn by (auto simp: in_range_Suc mem_simps)
  qed
qed

lemma load8_copy_backward:
  "unat s \<le> unat d \<Longrightarrow> unat d + n \<le> 2 ^ 64 \<Longrightarrow>
   load8 (copy_backward n (d + of_nat n) (s + of_nat n) h) a =
     (if in_range d n a then load8 h (s + (a - d)) else load8 h a)"
proof (induction n arbitrary: h)
  case 0
  then show ?case by simp
next
  case (Suc n)
  have dn: "unat (d + of_nat n) = unat d + n" and sn: "unat (s + of_nat n) = unat s + n"
    using Suc.prems unat_add_of_nat [of d n] unat_add_of_nat [of s n] by auto
  have r: "in_range d (Suc n) a \<longleftrightarrow> a = d + of_nat n \<or> in_range d n a"
    using dn by (auto simp: in_range_def word_unat_eq_iff)
  have ne: "in_range d n a \<Longrightarrow> d + of_nat n \<noteq> s + (a - d)"
  proof
    assume ra: "in_range d n a" and eq: "d + of_nat n = s + (a - d)"
    have "unat (s + (a - d)) = unat s + (unat a - unat d)"
      using ra Suc.prems by (intro unat_rebase) (auto simp: in_range_def)
    then have "unat d + n = unat s + (unat a - unat d)"
      using eq dn by metis
    then show False
      using Suc.prems(1) ra by (auto simp: in_range_def)
  qed
  have "\<not> in_range d n (d + of_nat n)"
    using dn by (simp add: in_range_def)
  then show ?case
    using Suc.IH [of "store8 h (d + of_nat n) (load8 h (s + of_nat n))"] Suc.prems ne
    by (auto simp: r mem_simps algebra_simps)
qed

lemma memmove_bytes:
  assumes "unat d + n \<le> 2 ^ 64" and "unat s + n \<le> 2 ^ 64"
  shows "load8 (memmove d s n h) a = (if in_range d n a then load8 h (s + (a - d)) else load8 h a)"
  using assms load8_copy_forward [of d s n h a] load8_copy_backward [of s d n h a]
  by (auto simp: memmove_def word_less_nat_alt not_less)

lemma memcmp_zero_iff:
  "memcmp h p q n = 0 \<longleftrightarrow> (\<forall>i < n. load8 h (p + of_nat i) = load8 h (q + of_nat i))"
proof (induction n arbitrary: p q)
  case 0
  then show ?case by simp
next
  case (Suc n)
  have "(\<forall>i < Suc n. load8 h (p + of_nat i) = load8 h (q + of_nat i)) \<longleftrightarrow>
        load8 h p = load8 h q \<and> (\<forall>i < n. load8 h (p + 1 + of_nat i) = load8 h (q + 1 + of_nat i))"
    by (auto simp: less_Suc_eq_0_disj algebra_simps)
  then show ?case
    using Suc.IH [of "p + 1" "q + 1"] by (simp add: word_uint_eq_iff)
qed

text \<open>Cells outside, and inside, a cleared page.\<close>

lemma unaligned_memset: "\<not> aligned8 a \<Longrightarrow> memset d c n h a = h a"
  by (induction n arbitrary: d h) (auto simp: store8_def)

lemma aligned8_unat: "aligned8 a \<longleftrightarrow> 8 dvd unat a"
proof -
  have "a AND mask 3 = take_bit 3 a"
    by (simp add: take_bit_eq_mask)
  then have "a AND 7 = a mod 8"
    by (simp add: take_bit_eq_mod mask_eq_exp_minus_1)
  then show ?thesis
    by (simp add: aligned8_def word_unat_eq_iff unat_mod dvd_eq_mod_eq_0)
qed

lemma aligned8_no_wrap:
  assumes "aligned8 a" and "i < 8"
  shows "unat (a + of_nat i) = unat a + i"
proof -
  obtain k where k: "unat a = 8 * k"
    using assms(1) by (auto simp: aligned8_unat)
  have "8 * k < 2 ^ 64"
    using k unat_less_64 [of a] by simp
  then have "8 * k + i < 2 ^ 64"
    using assms(2) by simp
  then show ?thesis
    using k by (simp add: unat_add_of_nat)
qed

lemma memset_cell:
  assumes "aligned8 a" and "unat d + n \<le> 2 ^ 64" and "8 dvd unat d" and "8 dvd n"
  shows "memset d 0 n h a = (if in_range d n a then 0 else h a)"
proof -
  have da: "8 dvd unat a" using assms(1) by (simp add: aligned8_unat)
  have r: "in_range d n (a + of_nat i) \<longleftrightarrow> in_range d n a" if "i < 8" for i
  proof -
    obtain x y z where "unat a = 8 * x" "unat d = 8 * y" "n = 8 * z"
      using da assms(3,4) by (auto simp: dvd_def)
    moreover have "8 * y \<le> 8 * x + i \<longleftrightarrow> y \<le> x" and "8 * x + i < 8 * y + 8 * z \<longleftrightarrow> x < y + z"
      and "8 * x < 8 * y + 8 * z \<longleftrightarrow> x < y + z"
      using that by linarith+
    ultimately show ?thesis
      using aligned8_no_wrap [OF assms(1) that] by (simp add: in_range_def)
  qed
  show ?thesis
  proof (cases "in_range d n a")
    case True
    have "memset d 0 n h a = (\<lambda>_. 0) a"
      by (rule heap_eq_bytes [OF assms(1)])
        (use True r assms(2) in \<open>simp add: mem_simps, simp add: load8_def byte_at_def\<close>)
    then show ?thesis using True by simp
  next
    case False
    have "memset d 0 n h a = h a"
      by (rule heap_eq_bytes [OF assms(1)]) (use False r assms(2) in \<open>simp add: mem_simps\<close>)
    then show ?thesis using False by simp
  qed
qed

text \<open>The linear map of physical memory is a bijection wherever it does not wrap.\<close>

lemma virt2phys_phys2virt:
  "unat pa + unat VIRT_BASE < 2 ^ 64 \<Longrightarrow> virt2phys pvoffset (phys2virt pa) = pa"
proof -
  assume a: "unat pa + unat VIRT_BASE < 2 ^ 64"
  then have "unat (pa + VIRT_BASE) = unat pa + unat VIRT_BASE"
    by (simp add: unat_word_ariths)
  then have "is_linear_addr (phys2virt pa)"
    by (simp add: is_linear_addr_def phys2virt_def word_le_nat_alt)
  then show ?thesis
    by (simp add: virt2phys_def phys2virt_def)
qed

lemma phys2virt_virt2phys:
  "is_linear_addr va \<Longrightarrow> phys2virt (virt2phys pvoffset va) = va"
  by (simp add: phys2virt_def virt2phys_def)

section \<open>Properties\<close>

text \<open>
  C24.  \<^verbatim>\<open>memmove\<close>, and \<^verbatim>\<open>memcpy\<close> which calls it, copy correctly also when source and destination
  overlap: afterwards every byte of the destination range is the byte the source range held before,
  and every byte outside the destination range is unchanged.
\<close>

theorem memmove_correct:
  assumes "unat d + n \<le> 2 ^ 64" and "unat s + n \<le> 2 ^ 64"
  shows "(\<forall>i < n. load8 (memmove d s n h) (d + of_nat i) = load8 h (s + of_nat i)) \<and>
     (\<forall>a. \<not> in_range d n a \<longrightarrow> load8 (memmove d s n h) a = load8 h a) \<and> memcpy d s n h = memmove d s n h"
proof -
  have "in_range d n (d + of_nat i)" if "i < n" for i
    using that assms(1) unat_add_of_nat [of d i] by (simp add: in_range_def)
  then show ?thesis using memmove_bytes [OF assms] by (simp add: memcpy_def)
qed

theorem memmove_correct_witness:
  "load8 (memmove 0x1010 0x1000 100 (\<lambda>a. a)) (0x1010 + of_nat 40) = load8 (\<lambda>a. a) (0x1000 + of_nat 40)"
proof -
  have "unat (0x1010 :: u64) + 100 \<le> 2 ^ 64" "unat (0x1000 :: u64) + 100 \<le> 2 ^ 64" by simp_all
  from memmove_correct [OF this, of "\<lambda>a. a"] show ?thesis
    by (elim conjE allE [of _ 40]) (simp del: of_nat_numeral)
qed

end
