(* ===== verification/Alloc_Page.thy ===== *)
theory Alloc_Page
  imports Memory_Model System_Memory
begin

text \<open>
  The page allocator of \<^verbatim>\<open>core/allocpage.c\<close>.  A zone keeps one free list per order; the links
  of a free list are stored in the first cell of the free blocks themselves, so the state is the
  heap together with the array of list heads.  The spin lock around each operation makes it one
  step of this model.  \<open>zone_inv\<close> describes a well-formed zone by the list of blocks of every
  order, and the lemmas show that allocation, splitting and release keep it, that a block handed
  out leaves the free area and is cleared, and that nothing outside the free area is written.
\<close>

section \<open>State and operations\<close>

definition MAX_ORDER :: nat where
  "MAX_ORDER = 9"

record free_chunk =
  freelist :: u64
  nfree :: int

record mstate =
  mem :: heap
  chunks :: "free_chunk list"

definition block_size :: "nat \<Rightarrow> nat" where
  "block_size order = PAGESIZE * 2 ^ order"

definition freelist_add :: "mstate \<Rightarrow> nat \<Rightarrow> u64 \<Rightarrow> mstate" where
  "freelist_add s i page =
     (let f = chunks s ! i in
      s\<lparr>mem := (mem s)(page := freelist f),
        chunks := (chunks s)[i := f\<lparr>freelist := page, nfree := nfree f + 1\<rparr>]\<rparr>)"

definition set_header_order :: "mstate \<Rightarrow> u64 \<Rightarrow> nat \<Rightarrow> mstate" where
  "set_header_order s page order = s\<lparr>mem := store32 (mem s) (page + 16) (of_nat order)\<rparr>"

fun expand :: "mstate \<Rightarrow> u64 \<Rightarrow> nat \<Rightarrow> nat \<Rightarrow> mstate" where
  "expand s page order 0 = s"
| "expand s page order (Suc k) =
     (if Suc k > order then
        let p = page + of_nat (block_size k);
            s1 = freelist_add s k p;
            s2 = set_header_order s1 p k
        in expand s2 page order k
      else s)"

fun alloc_scan :: "mstate \<Rightarrow> nat \<Rightarrow> nat list \<Rightarrow> u64 \<times> mstate" where
  "alloc_scan s order [] = (0, s)"
| "alloc_scan s order (i # is) =
     (let f = chunks s ! i in
      if freelist f = 0 then alloc_scan s order is
      else
        let p = freelist f;
            s1 = s\<lparr>chunks := (chunks s)[i := f\<lparr>freelist := mem s p, nfree := nfree f - 1\<rparr>]\<rparr>
        in (p, expand s1 p order i))"

definition alloc_pages_core :: "mstate \<Rightarrow> nat \<Rightarrow> u64 \<times> mstate" where
  "alloc_pages_core s order = alloc_scan s order [order..<Suc MAX_ORDER]"

text \<open>
  The order is an \<^verbatim>\<open>int\<close> that is compared with the largest order only.  A negative one passes the
  check: \<^verbatim>\<open>z->chunks[i]\<close> in front of the array and a shift by a negative number are not defined.
\<close>

definition alloc_pages :: "mstate \<Rightarrow> int \<Rightarrow> (u64 \<times> mstate) res" where
  "alloc_pages s order =
     (if order > int MAX_ORDER then Inl (Panic ''invalid order'')
      else if order < 0 then Inl (Undefined ''z->chunks[i]'')
      else
        let (p, s1) = alloc_pages_core s (nat order) in
        Inr (p, if p \<noteq> 0 then s1\<lparr>mem := memset p 0 (block_size (nat order)) (mem s1)\<rparr> else s1))"

definition alloc_page :: "mstate \<Rightarrow> (u64 \<times> mstate) res" where
  "alloc_page s = alloc_pages s 0"

definition free_pages_core :: "mstate \<Rightarrow> u64 \<Rightarrow> nat \<Rightarrow> mstate" where
  "free_pages_core s pages order =
     (let s1 = s\<lparr>mem := memset pages 0 (block_size order) (mem s)\<rparr>
      in set_header_order (freelist_add s1 order pages) pages order)"

definition free_pages :: "mstate \<Rightarrow> u64 \<Rightarrow> int \<Rightarrow> mstate res" where
  "free_pages s pages order =
     (if pages = 0 then Inl (Panic ''null free_page'')
      else if order > int MAX_ORDER then Inl (Panic ''invalid order'')
      else if order < 0 then Inl (Undefined ''PAGESIZE << order'')
      else if pages AND (of_nat (block_size (nat order)) - 1) \<noteq> 0 then Inl (Panic ''alignment'')
      else Inr (free_pages_core s pages (nat order)))"

definition free_page :: "mstate \<Rightarrow> u64 \<Rightarrow> mstate res" where
  "free_page s p = free_pages s p 0"

definition init_free_pages :: "mstate \<Rightarrow> u64 \<Rightarrow> nat \<Rightarrow> mstate" where
  "init_free_pages s pages order = set_header_order (freelist_add s order pages) pages order"

text \<open>
  \<^verbatim>\<open>early_allocator_init\<close> hands the pages of the early memory to the allocator one at a time,
  \<^verbatim>\<open>pageallocator_init\<close> the 2 MiB blocks of every memory slot that are not reserved.
\<close>

fun early_free_range :: "mstate \<Rightarrow> u64 \<Rightarrow> nat \<Rightarrow> mstate" where
  "early_free_range s vstart 0 = s"
| "early_free_range s vstart (Suc n) =
     early_free_range (free_pages_core s vstart 0) (vstart + of_nat PAGESIZE) n"

definition early_allocator_init :: "mstate \<Rightarrow> u64 \<Rightarrow> mstate" where
  "early_allocator_init s pend =
     (let start_phys = ALIGN_UP pend SZ_2MiB
      in early_free_range s (start_phys + VIRT_BASE) (unat (SZ_2MiB * 4) div PAGESIZE))"

fun init_slot :: "mstate \<Rightarrow> memblock list \<Rightarrow> u64 \<Rightarrow> nat \<Rightarrow> mstate" where
  "init_slot s reserved p 0 = s"
| "init_slot s reserved p (Suc n) =
     init_slot (if is_reserved reserved p then s else init_free_pages s (phys2virt p) MAX_ORDER)
       reserved (p + of_nat (block_size MAX_ORDER)) n"

definition slot_blocks :: "u64 \<Rightarrow> nat" where
  "slot_blocks sz = (unat sz + block_size MAX_ORDER - 1) div block_size MAX_ORDER"

definition pageallocator_init :: "mstate \<Rightarrow> memblock list \<Rightarrow> system_memory \<Rightarrow> mstate" where
  "pageallocator_init s reserved sm =
     foldl (\<lambda>t m. init_slot t reserved (phys_start m) (slot_blocks (bsize m))) s (slots sm)"

section \<open>Well-formed zones\<close>

primrec chain :: "heap \<Rightarrow> u64 \<Rightarrow> u64 list \<Rightarrow> bool" where
  "chain h p [] \<longleftrightarrow> p = 0"
| "chain h p (b # bs) \<longleftrightarrow> p = b \<and> b \<noteq> 0 \<and> chain h (h b) bs"

definition block :: "u64 \<Rightarrow> nat \<Rightarrow> nat set" where
  "block p order = {unat p ..< unat p + block_size order}"

definition block_ok :: "u64 \<Rightarrow> nat \<Rightarrow> bool" where
  "block_ok p order \<longleftrightarrow> p \<noteq> 0 \<and> block_size order dvd unat p \<and> unat p + block_size order \<le> 2 ^ 64"

definition free_area :: "(nat \<Rightarrow> u64 list) \<Rightarrow> nat set" where
  "free_area B = (\<Union>i \<in> {..MAX_ORDER}. \<Union>p \<in> set (B i). block p i)"

definition lists_ok :: "mstate \<Rightarrow> (nat \<Rightarrow> u64 list) \<Rightarrow> bool" where
  "lists_ok s B \<longleftrightarrow>
     (\<forall>i \<le> MAX_ORDER. chain (mem s) (freelist (chunks s ! i)) (B i) \<and>
        nfree (chunks s ! i) = int (length (B i)))"

definition blocks_ok :: "(nat \<Rightarrow> u64 list) \<Rightarrow> bool" where
  "blocks_ok B \<longleftrightarrow>
     (\<forall>i \<le> MAX_ORDER. distinct (B i) \<and> (\<forall>p \<in> set (B i). block_ok p i)) \<and>
     (\<forall>i \<le> MAX_ORDER. \<forall>j \<le> MAX_ORDER. \<forall>p \<in> set (B i). \<forall>q \<in> set (B j).
        (p, i) \<noteq> (q, j) \<longrightarrow> block p i \<inter> block q j = {})"

definition zone_inv :: "mstate \<Rightarrow> (nat \<Rightarrow> u64 list) \<Rightarrow> bool" where
  "zone_inv s B \<longleftrightarrow> length (chunks s) = Suc MAX_ORDER \<and> lists_ok s B \<and> blocks_ok B"

section \<open>Blocks\<close>

lemma block_size_pos [simp]: "0 < block_size k"
  by (simp add: block_size_def PAGESIZE_def)

lemma block_size_ge: "4096 \<le> block_size k"
  by (simp add: block_size_def PAGESIZE_def)

lemma block_size_Suc: "block_size (Suc k) = 2 * block_size k"
  by (simp add: block_size_def)

lemma block_size_8 [simp]: "8 dvd block_size k"
  by (simp add: block_size_def PAGESIZE_def)

lemma block_head [simp]: "unat p \<in> block p k"
  by (simp add: block_def)

lemma block_ok_8: "block_ok p k \<Longrightarrow> 8 dvd unat p"
  unfolding block_ok_def using block_size_8 dvd_trans by blast

lemma block_in_range: "unat a \<in> block p k \<longleftrightarrow> in_range p (block_size k) a"
  by (simp add: block_def in_range_def)

lemma block_ok_lower: "block_ok p (Suc k) \<Longrightarrow> block_ok p k"
  unfolding block_ok_def block_size_Suc by (auto dest: dvd_mult_right)

lemma buddy_unat:
  assumes "block_ok p (Suc k)"
  shows "unat (p + of_nat (block_size k)) = unat p + block_size k"
proof -
  have "unat p + 2 * block_size k \<le> 2 ^ 64"
    using assms by (simp add: block_ok_def block_size_Suc)
  then have "unat p + block_size k < 2 ^ 64"
    using block_size_pos [of k] by linarith
  then show ?thesis by (rule unat_add_of_nat)
qed

lemma buddy_block_ok:
  assumes "block_ok p (Suc k)"
  shows "block_ok (p + of_nat (block_size k)) k"
proof -
  have u: "unat (p + of_nat (block_size k)) = unat p + block_size k"
    by (rule buddy_unat [OF assms])
  have "block_size k dvd unat p"
    using block_ok_lower [OF assms] unfolding block_ok_def by blast
  moreover have "p + of_nat (block_size k) \<noteq> 0"
    using u block_size_pos [of k] by (metis add_is_0 not_less0 unsigned_0)
  ultimately show ?thesis
    using assms u by (simp add: block_ok_def block_size_Suc)
qed

lemma block_split:
  assumes "block_ok p (Suc k)"
  shows "block p (Suc k) = block p k \<union> block (p + of_nat (block_size k)) k"
    and "block p k \<inter> block (p + of_nat (block_size k)) k = {}"
  using buddy_unat [OF assms] by (auto simp: block_def block_size_Suc)

lemma block_mono: "i \<le> k \<Longrightarrow> block p i \<subseteq> block p k"
proof -
  assume "i \<le> k"
  then have "(2::nat) ^ i \<le> 2 ^ k" by (simp add: power_increasing)
  then have "block_size i \<le> block_size k" by (simp add: block_size_def)
  then show ?thesis by (auto simp: block_def)
qed

lemma head_notin_block:
  "block p i \<inter> block q j = {} \<Longrightarrow> p \<noteq> q"
  using block_head by blast

section \<open>Chains and frames\<close>

lemma chain_frame: "(\<And>b. b \<in> set bs \<Longrightarrow> h' b = h b) \<Longrightarrow> chain h p bs \<Longrightarrow> chain h' p bs"
  by (induction bs arbitrary: p) auto

lemma chain_unique: "chain h p bs \<Longrightarrow> chain h p cs \<Longrightarrow> bs = cs"
proof (induction bs arbitrary: p cs)
  case Nil
  then show ?case by (cases cs) auto
next
  case (Cons b bs)
  then show ?case by (cases cs) auto
qed

lemma free_areaI: "i \<le> MAX_ORDER \<Longrightarrow> p \<in> set (B i) \<Longrightarrow> block p i \<subseteq> free_area B"
  by (auto simp: free_area_def)

lemma head_in_free_area: "i \<le> MAX_ORDER \<Longrightarrow> p \<in> set (B i) \<Longrightarrow> unat p \<in> free_area B"
  using free_areaI block_head by blast

lemma lists_ok_frame:
  assumes "lists_ok s B"
    and "\<And>i b. i \<le> MAX_ORDER \<Longrightarrow> b \<in> set (B i) \<Longrightarrow> mem s' b = mem s b"
    and "chunks s' = chunks s"
  shows "lists_ok s' B"
  using assms unfolding lists_ok_def by (metis (mono_tags, lifting) chain_frame)

lemma zone_frame:
  assumes "zone_inv s B"
    and "\<And>a. unat a \<in> free_area B \<Longrightarrow> mem s' a = mem s a"
    and "chunks s' = chunks s"
  shows "zone_inv s' B"
  using assms lists_ok_frame [of s B s'] head_in_free_area unfolding zone_inv_def by metis

section \<open>Adding and removing a block\<close>

lemma free_area_add:
  "i \<le> MAX_ORDER \<Longrightarrow> free_area (B(i := p # B i)) = free_area B \<union> block p i"
  by (auto simp: free_area_def split: if_splits) (metis atMost_iff)+

lemma blocks_ok_add:
  assumes "blocks_ok B" and "i \<le> MAX_ORDER" and "block_ok p i" and "block p i \<inter> free_area B = {}"
  shows "blocks_ok (B(i := p # B i))"
proof -
  have fresh: "block p i \<inter> block q j = {}" if "j \<le> MAX_ORDER" "q \<in> set (B j)" for q j
    using assms(4) free_areaI [of j q B] that by blast
  have notin: "p \<notin> set (B i)"
    using fresh [of i p] assms(2) block_head by blast
  show ?thesis
    unfolding blocks_ok_def
  proof (intro conjI allI impI ballI)
    fix j assume "j \<le> MAX_ORDER"
    then show "distinct ((B(i := p # B i)) j)"
      using assms(1) notin by (auto simp: blocks_ok_def)
  next
    fix j q assume "j \<le> MAX_ORDER" and "q \<in> set ((B(i := p # B i)) j)"
    then show "block_ok q j"
      using assms(1,3) by (auto simp: blocks_ok_def split: if_splits)
  next
    fix j l q r
    assume jl: "j \<le> MAX_ORDER" "l \<le> MAX_ORDER" and ne: "(q, j) \<noteq> (r, l)"
      and q: "q \<in> set ((B(i := p # B i)) j)" and r: "r \<in> set ((B(i := p # B i)) l)"
    have q': "q = p \<and> j = i \<or> q \<in> set (B j)" and r': "r = p \<and> l = i \<or> r \<in> set (B l)"
      using q r by (auto split: if_splits)
    then show "block q j \<inter> block r l = {}"
      using ne jl fresh assms(1) unfolding blocks_ok_def by (metis inf_commute)
  qed
qed

lemma header_cell:
  assumes "block_ok p i"
  shows "unat (p + 16) = unat p + 16" and "unat (p + 16) \<in> block p i" and "p + 16 \<noteq> p"
proof -
  have "unat p + 16 < 2 ^ 64"
    using assms block_size_ge [of i] unfolding block_ok_def by linarith
  then show u: "unat (p + 16) = unat p + 16"
    using unat_add_of_nat [of p 16] by simp
  then show "unat (p + 16) \<in> block p i"
    using block_size_ge [of i] by (simp add: block_def)
  show "p + 16 \<noteq> p"
    by simp
qed

lemma added_block_mem:
  "mem (set_header_order (freelist_add s i p) p k) a =
     (if a = p + 16 then (mem (freelist_add s i p) a AND NOT (mask 32)) OR ucast (of_nat k :: u32)
      else if a = p then freelist (chunks s ! i) else mem s a)"
  by (simp add: set_header_order_def store32_def freelist_add_def Let_def)

lemma added_block_chunks:
  "chunks (set_header_order (freelist_add s i p) p k) =
     (chunks s)[i := (chunks s ! i)\<lparr>freelist := p, nfree := nfree (chunks s ! i) + 1\<rparr>]"
  by (simp add: set_header_order_def freelist_add_def Let_def)

lemma zone_add:
  assumes inv: "zone_inv s B" and i: "i \<le> MAX_ORDER" and ok: "block_ok p i"
    and dis: "block p i \<inter> free_area B = {}"
  shows "zone_inv (set_header_order (freelist_add s i p) p k) (B(i := p # B i))"
proof -
  let ?s = "set_header_order (freelist_add s i p) p k"
  note hc = header_cell [OF ok]
  have frame: "mem ?s q = mem s q" if "j \<le> MAX_ORDER" "q \<in> set (B j)" for j q
  proof -
    have "unat q \<in> free_area B" using head_in_free_area that .
    then have "q \<noteq> p" "q \<noteq> p + 16"
      using dis hc(2) block_head [of p i] by blast+
    then show ?thesis by (simp add: added_block_mem)
  qed
  have len: "length (chunks s) = Suc MAX_ORDER" and ls: "lists_ok s B"
    using inv by (simp_all add: zone_inv_def)
  have "lists_ok ?s (B(i := p # B i))"
    unfolding lists_ok_def
  proof (intro allI impI)
    fix j assume j: "j \<le> MAX_ORDER"
    have c: "chain (mem ?s) (freelist (chunks s ! j)) (B j)"
      using ls j frame chain_frame [of "B j" "mem ?s" "mem s"] by (simp add: lists_ok_def)
    show "chain (mem ?s) (freelist (chunks ?s ! j)) ((B(i := p # B i)) j) \<and>
          nfree (chunks ?s ! j) = int (length ((B(i := p # B i)) j))"
    proof (cases "j = i")
      case True
      have "mem ?s p = freelist (chunks s ! i)"
        using hc(3) by (simp add: added_block_mem)
      then show ?thesis
        using True c ls len i ok
        by (simp add: added_block_chunks lists_ok_def block_ok_def)
    next
      case False
      then show ?thesis
        using c ls j by (simp add: added_block_chunks lists_ok_def)
    qed
  qed
  moreover have "length (chunks ?s) = Suc MAX_ORDER"
    using len by (simp add: added_block_chunks)
  ultimately show ?thesis
    using blocks_ok_add [OF _ i ok dis] inv by (simp add: zone_inv_def)
qed

lemma zone_pop:
  assumes inv: "zone_inv s B" and i: "i \<le> MAX_ORDER" and Bi: "B i = p # bs"
  defines "f \<equiv> chunks s ! i"
  defines "s1 \<equiv> s\<lparr>chunks := (chunks s)[i := f\<lparr>freelist := mem s p, nfree := nfree f - 1\<rparr>]\<rparr>"
  shows "zone_inv s1 (B(i := bs))" and "block_ok p i"
    and "block p i \<inter> free_area (B(i := bs)) = {}"
    and "free_area B = free_area (B(i := bs)) \<union> block p i"
proof -
  have len: "length (chunks s) = Suc MAX_ORDER" and ls: "lists_ok s B" and bo: "blocks_ok B"
    using inv by (simp_all add: zone_inv_def)
  show "block_ok p i"
    using bo i Bi by (simp add: blocks_ok_def)
  have notin: "p \<notin> set bs"
    using bo i Bi by (auto simp: blocks_ok_def)
  have "block p i \<inter> block q j = {}" if "j \<le> MAX_ORDER" "q \<in> set ((B(i := bs)) j)" for q j
  proof -
    have "q \<in> set (B j)" and "(p, i) \<noteq> (q, j)"
      using that Bi notin by (auto split: if_splits)
    then show ?thesis
      using bo i that(1) Bi unfolding blocks_ok_def by (metis list.set_intros(1))
  qed
  then show "block p i \<inter> free_area (B(i := bs)) = {}"
    by (auto simp: free_area_def)
  show "free_area B = free_area (B(i := bs)) \<union> block p i"
    using i Bi free_area_add [of i "B(i := bs)" p] by (simp add: fun_upd_idem)
  have "lists_ok s1 (B(i := bs))"
    unfolding lists_ok_def
  proof (intro allI impI)
    fix j assume j: "j \<le> MAX_ORDER"
    then show "chain (mem s1) (freelist (chunks s1 ! j)) ((B(i := bs)) j) \<and>
               nfree (chunks s1 ! j) = int (length ((B(i := bs)) j))"
      using ls i len Bi unfolding lists_ok_def
      by (cases "j = i") (auto simp: s1_def f_def dest!: spec [of _ i])
  qed
  moreover have "blocks_ok (B(i := bs))"
    using bo i Bi unfolding blocks_ok_def by (auto split: if_splits)
  ultimately show "zone_inv s1 (B(i := bs))"
    using len by (simp add: zone_inv_def s1_def)
qed

section \<open>Splitting a block\<close>

lemma block_ok_mono: "block_ok p k \<Longrightarrow> i \<le> k \<Longrightarrow> block_ok p i"
  by (induction k) (auto simp: le_Suc_eq dest: block_ok_lower)

lemma expand_spec:
  "zone_inv s B \<Longrightarrow> order \<le> k \<Longrightarrow> k \<le> MAX_ORDER \<Longrightarrow> block_ok p k \<Longrightarrow> block p k \<inter> free_area B = {} \<Longrightarrow>
   \<exists>B'. zone_inv (expand s p order k) B' \<and>
        free_area B' = free_area B \<union> (block p k - block p order) \<and>
        (\<forall>a. unat a \<notin> block p k \<longrightarrow> mem (expand s p order k) a = mem s a)"
proof (induction k arbitrary: s B)
  case 0
  then show ?case by auto
next
  case (Suc k)
  show ?case
  proof (cases "order = Suc k")
    case True
    then show ?thesis using Suc.prems by auto
  next
    case False
    let ?q = "p + of_nat (block_size k)"
    let ?s = "set_header_order (freelist_add s k ?q) ?q k"
    let ?B = "B(k := ?q # B k)"
    note sp = block_split [OF Suc.prems(4)]
    have k: "k \<le> MAX_ORDER" "order \<le> k"
      using Suc.prems False by auto
    have okq: "block_ok ?q k"
      using buddy_block_ok Suc.prems(4) .
    have dq: "block ?q k \<inter> free_area B = {}"
      using Suc.prems(5) sp by blast
    have inv: "zone_inv ?s ?B"
      using zone_add [OF Suc.prems(1) k(1) okq dq] .
    have fa: "free_area ?B = free_area B \<union> block ?q k"
      using free_area_add [OF k(1)] .
    have dp: "block p k \<inter> free_area ?B = {}"
      using Suc.prems(5) sp fa by blast
    obtain B' where B': "zone_inv (expand ?s p order k) B'"
      "free_area B' = free_area ?B \<union> (block p k - block p order)"
      "\<forall>a. unat a \<notin> block p k \<longrightarrow> mem (expand ?s p order k) a = mem ?s a"
      using Suc.IH [OF inv k(2) k(1) block_ok_lower [OF Suc.prems(4)] dp] by blast
    have e: "expand s p order (Suc k) = expand ?s p order k"
      using Suc.prems(2) False by (simp add: Let_def)
    have "block p order \<subseteq> block p k"
      using block_mono [OF k(2)] .
    then have area: "free_area B' = free_area B \<union> (block p (Suc k) - block p order)"
      using B'(2) fa sp by blast
    have frame: "mem (expand ?s p order k) a = mem s a" if a: "unat a \<notin> block p (Suc k)" for a
    proof -
      have n: "unat a \<notin> block p k" "unat a \<notin> block ?q k"
        using a sp(1) by auto
      then have "a \<noteq> ?q" "a \<noteq> ?q + 16"
        using header_cell(2) [OF okq] block_head [of ?q k] by blast+
      then show ?thesis
        using B'(3) n by (simp add: added_block_mem)
    qed
    show ?thesis
      unfolding e using B'(1) area frame by blast
  qed
qed

section \<open>Allocation\<close>

lemma empty_list_iff: "lists_ok s B \<Longrightarrow> i \<le> MAX_ORDER \<Longrightarrow> freelist (chunks s ! i) = 0 \<longleftrightarrow> B i = []"
  unfolding lists_ok_def by (cases "B i") auto

lemma alloc_scan_spec:
  assumes "zone_inv s B" and "\<forall>i \<in> set is. order \<le> i \<and> i \<le> MAX_ORDER"
    and "alloc_scan s order is = (p, s')"
  shows "(p = 0 \<longrightarrow> s' = s \<and> (\<forall>i \<in> set is. B i = [])) \<and>
         (p \<noteq> 0 \<longrightarrow> block_ok p order \<and> block p order \<subseteq> free_area B \<and>
           (\<exists>B'. zone_inv s' B' \<and> free_area B' = free_area B - block p order) \<and>
           (\<forall>a. unat a \<notin> free_area B \<longrightarrow> mem s' a = mem s a))"
  using assms
proof (induction "is")
  case Nil
  then show ?case by simp
next
  case (Cons i "is")
  have i: "order \<le> i" "i \<le> MAX_ORDER" and ls: "lists_ok s B"
    using Cons.prems by (auto simp: zone_inv_def)
  show ?case
  proof (cases "B i")
    case Nil
    then have "freelist (chunks s ! i) = 0"
      using empty_list_iff [OF ls i(2)] by simp
    then have "alloc_scan s order is = (p, s')"
      using Cons.prems(3) by (simp add: Let_def)
    then show ?thesis
      using Cons.IH [OF Cons.prems(1)] Cons.prems(2) Nil by simp
  next
    case (Cons b bs)
    have fl: "freelist (chunks s ! i) = b" "b \<noteq> 0"
      using ls i(2) Cons unfolding lists_ok_def by force+
    let ?f = "chunks s ! i"
    let ?s1 = "s\<lparr>chunks := (chunks s)[i := ?f\<lparr>freelist := mem s b, nfree := nfree ?f - 1\<rparr>]\<rparr>"
    have r: "p = b" "s' = expand ?s1 b order i"
      using Cons.prems(3) fl by (auto simp: Let_def)
    note pop = zone_pop [OF \<open>zone_inv s B\<close> i(2) Cons]
    obtain B' where B': "zone_inv s' B'"
      "free_area B' = free_area (B(i := bs)) \<union> (block b i - block b order)"
      "\<forall>a. unat a \<notin> block b i \<longrightarrow> mem s' a = mem ?s1 a"
      using expand_spec [OF pop(1) i(1) i(2) pop(2) pop(3)] r by auto
    have sub: "block b order \<subseteq> block b i"
      using block_mono [OF i(1)] .
    have "free_area B' = free_area B - block b order"
      using B'(2) pop(3,4) sub by blast
    moreover have "\<forall>a. unat a \<notin> free_area B \<longrightarrow> mem s' a = mem s a"
      using B'(3) pop(4) by auto
    ultimately show ?thesis
      using r B'(1) fl(2) block_ok_mono [OF pop(2) i(1)] sub pop(4) by blast
  qed
qed

text \<open>What \<^verbatim>\<open>alloc_pages\<close> promises, in one statement.\<close>

lemma alloc_pages_cases:
  assumes inv: "zone_inv s B" and o: "order \<le> MAX_ORDER" and r: "alloc_pages s (int order) = Inr (p, s')"
  shows "(p = 0 \<longrightarrow> s' = s \<and> (\<forall>i. order \<le> i \<and> i \<le> MAX_ORDER \<longrightarrow> B i = [])) \<and>
         (p \<noteq> 0 \<longrightarrow> block_ok p order \<and> block p order \<subseteq> free_area B \<and>
           (\<exists>B'. zone_inv s' B' \<and> free_area B' = free_area B - block p order) \<and>
           (\<forall>a. unat a \<notin> free_area B \<longrightarrow> mem s' a = mem s a) \<and>
           (\<forall>a. aligned8 a \<and> unat a \<in> block p order \<longrightarrow> mem s' a = 0))"
proof -
  obtain q t where qt: "alloc_pages_core s order = (q, t)"
    by (cases "alloc_pages_core s order")
  then have p: "p = q" and s': "s' = (if p \<noteq> 0 then t\<lparr>mem := memset p 0 (block_size order) (mem t)\<rparr> else t)"
    using r o by (auto simp: alloc_pages_def)
  have set: "set [order..<Suc MAX_ORDER] = {i. order \<le> i \<and> i \<le> MAX_ORDER}"
    by auto
  have sc: "alloc_scan s order [order..<Suc MAX_ORDER] = (p, t)"
    using qt p by (simp only: alloc_pages_core_def)
  have all: "\<forall>i \<in> set [order..<Suc MAX_ORDER]. order \<le> i \<and> i \<le> MAX_ORDER"
    by auto
  note spec = alloc_scan_spec [OF inv all sc, unfolded set mem_Collect_eq]
  show ?thesis
  proof (cases "p = 0")
    case True
    then show ?thesis using spec s' by simp
  next
    case False
    then obtain B' where B': "zone_inv t B'" "free_area B' = free_area B - block p order"
      and bo: "block_ok p order" "block p order \<subseteq> free_area B"
      and frame: "\<forall>a. unat a \<notin> free_area B \<longrightarrow> mem t a = mem s a"
      using spec by blast
    have cells: "mem s' a = (if unat a \<in> block p order then 0 else mem t a)" if "aligned8 a" for a
      using that False s' bo(1) memset_cell [OF that, of p "block_size order" "mem t"] block_ok_8 [OF bo(1)]
      by (simp add: block_in_range block_ok_def)
    have outside: "mem s' a = mem t a" if "unat a \<notin> block p order" for a
      using that cells [of a] False s' unaligned_memset [of a p 0 "block_size order" "mem t"]
      by (cases "aligned8 a") auto
    have "zone_inv s' B'"
      by (rule zone_frame [OF B'(1)]) (use outside B'(2) False s' in auto)
    moreover have "mem s' a = mem s a" if a: "unat a \<notin> free_area B" for a
    proof -
      have "unat a \<notin> block p order" using a bo(2) by (rule contra_subsetD [rotated])
      then show ?thesis using outside [of a] frame a by simp
    qed
    ultimately show ?thesis
      using False B'(2) bo cells by auto
  qed
qed

lemma scan_empty: "\<forall>i \<in> set is. freelist (chunks s ! i) = 0 \<Longrightarrow> alloc_scan s order is = (0, s)"
  by (induction "is") (auto simp: Let_def)

lemma no_large_block:
  assumes "zone_inv s B" and "order \<le> MAX_ORDER" and e: "\<forall>i. order \<le> i \<and> i \<le> MAX_ORDER \<longrightarrow> B i = []"
    and "alloc_pages s (int order) = Inr (p, s')"
  shows "p = 0"
proof -
  have "\<forall>i \<in> set [order..<Suc MAX_ORDER]. freelist (chunks s ! i) = 0"
    using e empty_list_iff [of s B] assms(1) by (auto simp: zone_inv_def)
  then show ?thesis
    using assms(2,4) scan_empty [of _ s order] unfolding alloc_pages_def alloc_pages_core_def by auto
qed

section \<open>Release\<close>

lemma aligned_mask_iff:
  assumes "order \<le> MAX_ORDER"
  shows "(p :: u64) AND (of_nat (block_size order) - 1) = 0 \<longleftrightarrow> block_size order dvd unat p"
proof -
  have bs: "block_size order = 2 ^ (12 + order)"
    by (simp add: block_size_def PAGESIZE_def power_add)
  have m: "(of_nat (block_size order) :: u64) - 1 = mask (12 + order)"
    by (simp add: bs mask_eq_exp_minus_1)
  have "p AND (of_nat (block_size order) - 1) = take_bit (12 + order) p"
    unfolding m by (simp add: take_bit_eq_mask)
  moreover have "unat (take_bit (12 + order) p) = unat p mod 2 ^ (12 + order)"
    by (simp only: unsigned_take_bit_eq take_bit_nat_def)
  ultimately show ?thesis
    by (simp add: bs word_unat_eq_iff dvd_eq_mod_eq_0)
qed

lemma aligned_block_fits:
  assumes "block_size order dvd unat (p :: u64)" and "order \<le> MAX_ORDER"
  shows "unat p + block_size order \<le> 2 ^ 64"
proof -
  obtain k where k: "unat p = block_size order * k"
    using assms(1) by (auto simp: dvd_def)
  have bs: "block_size order = 2 ^ (12 + order)"
    by (simp add: block_size_def PAGESIZE_def power_add)
  have e: "(2::nat) ^ 64 = 2 ^ (12 + order) * 2 ^ (52 - order)"
    using assms(2) by (simp add: MAX_ORDER_def power_add [symmetric])
  have "2 ^ (12 + order) * k < 2 ^ (12 + order) * 2 ^ (52 - order)"
    using k unat_less_64 [of p] unfolding bs e by simp
  then have "k < 2 ^ (52 - order)" by simp
  then have "2 ^ (12 + order) * (k + 1) \<le> 2 ^ (12 + order) * (2::nat) ^ (52 - order)"
    by (intro mult_le_mono) auto
  then show ?thesis
    unfolding k bs e by (simp add: algebra_simps)
qed

lemma free_pages_cases:
  assumes inv: "zone_inv s B" and r: "free_pages s p (int order) = Inr s'"
    and dis: "block p order \<inter> free_area B = {}"
  shows "order \<le> MAX_ORDER" and "block_ok p order" and "zone_inv s' (B(order := p # B order))"
    and "\<And>a. unat a \<notin> block p order \<Longrightarrow> mem s' a = mem s a"
proof -
  show o: "order \<le> MAX_ORDER"
    using r by (auto simp: free_pages_def split: if_splits)
  have al: "block_size order dvd unat p" and nz: "p \<noteq> 0"
    using r aligned_mask_iff [OF o] by (auto simp: free_pages_def split: if_splits)
  show ok: "block_ok p order"
    using al nz aligned_block_fits [OF al o] by (simp add: block_ok_def)
  let ?t = "s\<lparr>mem := memset p 0 (block_size order) (mem s)\<rparr>"
  have s': "s' = set_header_order (freelist_add ?t order p) p order"
    using r by (auto simp: free_pages_def free_pages_core_def Let_def split: if_splits)
  have out: "mem ?t a = mem s a" if "unat a \<notin> block p order" for a
    using that memset_cell [of a p "block_size order" "mem s"] block_ok_8 [OF ok] ok
      unaligned_memset [of a p 0 "block_size order" "mem s"]
    by (cases "aligned8 a") (auto simp: block_in_range block_ok_def)
  have "zone_inv ?t B"
    by (rule zone_frame [OF inv]) (use out dis in auto)
  then show "zone_inv s' (B(order := p # B order))"
    unfolding s' by (rule zone_add [OF _ o ok dis])
  show "mem s' a = mem s a" if "unat a \<notin> block p order" for a
    using that out header_cell(2) [OF ok] unfolding s' by (auto simp: added_block_mem)
qed

section \<open>Initialisation\<close>

definition zone_free :: "mstate \<Rightarrow> nat set \<Rightarrow> bool" where
  "zone_free s A \<longleftrightarrow> (\<exists>B. zone_inv s B \<and> free_area B = A)"

definition empty_zone :: "heap \<Rightarrow> mstate" where
  "empty_zone h = \<lparr>mem = h, chunks = replicate (Suc MAX_ORDER) \<lparr>freelist = 0, nfree = 0\<rparr>\<rparr>"

definition reserved_ok :: "memblock list \<Rightarrow> bool" where
  "reserved_ok rs \<longleftrightarrow> (\<forall>m \<in> set rs. 2097152 dvd unat (phys_start m) \<and> 2097152 dvd unat (bsize m) \<and>
     unat (phys_start m) + unat (bsize m) < 2 ^ 64)"

lemma empty_zone_free: "zone_free (empty_zone h) {}"
  unfolding zone_free_def
  by (rule exI [of _ "\<lambda>_. []"])
    (simp add: zone_inv_def empty_zone_def lists_ok_def blocks_ok_def free_area_def nth_append less_Suc_eq_le
      del: replicate_Suc)

lemma zone_free_init:
  assumes "zone_free s A" and "order \<le> MAX_ORDER" and "block_ok p order" and "block p order \<inter> A = {}"
  shows "zone_free (init_free_pages s p order) (A \<union> block p order)"
  using assms zone_add [of s _ order p order] free_area_add [of order _ p]
  unfolding zone_free_def init_free_pages_def by blast

lemma max_block: "block_size MAX_ORDER = 2097152"
  by (simp add: block_size_def MAX_ORDER_def PAGESIZE_def)

lemma aligned_interval:
  assumes "(d :: nat) dvd a" and "d dvd b" and "d dvd l" and "x < d"
  shows "a \<le> b + x \<and> b + x < a + l \<longleftrightarrow> a \<le> b \<and> b < a + l"
proof -
  obtain i j k where e: "a = d * i" "b = d * j" "l = d * k"
    using assms(1-3) by (auto simp: dvd_def)
  have d0: "d > 0" using assms(4) by simp
  have "d * i \<le> d * j + x \<longleftrightarrow> i \<le> j"
  proof
    assume "d * i \<le> d * j + x"
    then have "d * i < d * Suc j" using assms(4) by simp
    then show "i \<le> j" using d0 by (simp only: mult_less_cancel1) simp
  qed (simp add: trans_le_add1)
  moreover have "d * j + x < d * i + d * k \<longleftrightarrow> j < i + k"
  proof
    assume "j < i + k"
    then have "d * Suc j \<le> d * (i + k)" by (intro mult_le_mono2) simp
    then show "d * j + x < d * i + d * k" using assms(4) by (simp add: algebra_simps)
  next
    assume "d * j + x < d * i + d * k"
    then have "d * j < d * (i + k)" by (simp add: algebra_simps)
    then show "j < i + k" by simp
  qed
  ultimately show ?thesis
    using d0 by (simp add: e distrib_left [symmetric] del: distrib_left)
qed

text \<open>A 2 MiB aligned block is reserved as a whole or not at all.\<close>

lemma is_reserved_block:
  assumes "reserved_ok rs" and "2097152 dvd unat p" and "unat (x :: u64) = unat p + i" and "i < 2097152"
  shows "is_reserved rs x \<longleftrightarrow> is_reserved rs p"
proof -
  have "phys_start m \<le> x \<and> x < phys_start m + bsize m \<longleftrightarrow>
        phys_start m \<le> p \<and> p < phys_start m + bsize m" if "m \<in> set rs" for m
  proof -
    have m: "2097152 dvd unat (phys_start m)" "2097152 dvd unat (bsize m)"
        "unat (phys_start m + bsize m) = unat (phys_start m) + unat (bsize m)"
      using assms(1) that unat_add_no_wrap by (auto simp: reserved_ok_def)
    show ?thesis
      using aligned_interval [OF m(1) assms(2) m(2) assms(4)] m(3) assms(3)
      by (simp add: word_le_nat_alt word_less_nat_alt)
  qed
  then show ?thesis by (auto simp: is_reserved_def list_ex_iff)
qed

definition linear_range :: "u64 \<Rightarrow> nat \<Rightarrow> nat set" where
  "linear_range p n = {unat p + unat VIRT_BASE ..< unat p + unat VIRT_BASE + n * 2097152}"

definition slot_ok :: "u64 \<Rightarrow> nat \<Rightarrow> bool" where
  "slot_ok p n \<longleftrightarrow> 2097152 dvd unat p \<and> unat p + unat VIRT_BASE + n * 2097152 \<le> 2 ^ 64"

lemma phys2virt_unat:
  "unat p + unat VIRT_BASE < 2 ^ 64 \<Longrightarrow> unat (phys2virt p) = unat p + unat VIRT_BASE"
  unfolding phys2virt_def by (rule unat_add_no_wrap)

lemma virt_base_2M: "2097152 dvd unat VIRT_BASE"
  by (simp add: VIRT_BASE_def)

lemma slot_head:
  assumes "slot_ok p (Suc n)"
  shows "unat (phys2virt p) = unat p + unat VIRT_BASE"
    and "block_ok (phys2virt p) MAX_ORDER"
    and "linear_range p (Suc n) = block (phys2virt p) MAX_ORDER \<union> linear_range (p + of_nat (block_size MAX_ORDER)) n"
    and "block (phys2virt p) MAX_ORDER \<inter> linear_range (p + of_nat (block_size MAX_ORDER)) n = {}"
    and "slot_ok (p + of_nat (block_size MAX_ORDER)) n"
proof -
  have lim: "unat p + unat VIRT_BASE + (2097152 + n * 2097152) \<le> 2 ^ 64" and al: "2097152 dvd unat p"
    using assms by (simp_all add: slot_ok_def)
  have "unat p + unat VIRT_BASE < 2 ^ 64" using lim by linarith
  then show u: "unat (phys2virt p) = unat p + unat VIRT_BASE" by (rule phys2virt_unat)
  have pos: "unat VIRT_BASE = 3221225472" by (simp add: VIRT_BASE_def)
  have v: "unat (p + of_nat (block_size MAX_ORDER)) = unat p + 2097152"
    unfolding max_block by (rule unat_add_of_nat) (use lim pos in linarith)
  have "phys2virt p \<noteq> 0" using u pos by (metis add_is_0 unsigned_0 zero_neq_numeral)
  moreover have "2097152 dvd unat (phys2virt p)"
    unfolding u using al virt_base_2M by (rule dvd_add)
  ultimately show "block_ok (phys2virt p) MAX_ORDER"
    using u lim unfolding block_ok_def max_block by linarith
  show "linear_range p (Suc n) = block (phys2virt p) MAX_ORDER \<union> linear_range (p + of_nat (block_size MAX_ORDER)) n"
    "block (phys2virt p) MAX_ORDER \<inter> linear_range (p + of_nat (block_size MAX_ORDER)) n = {}"
    unfolding linear_range_def block_def u v unfolding max_block by auto
  show "slot_ok (p + of_nat (block_size MAX_ORDER)) n"
    unfolding slot_ok_def v using lim al by simp
qed

lemma init_slot_spec:
  "zone_free s A \<Longrightarrow> reserved_ok rs \<Longrightarrow> slot_ok p n \<Longrightarrow>
   \<forall>x \<in> linear_range p n. \<not> is_reserved rs (of_nat (x - unat VIRT_BASE)) \<longrightarrow> x \<notin> A \<Longrightarrow>
   zone_free (init_slot s rs p n)
     (A \<union> {x \<in> linear_range p n. \<not> is_reserved rs (of_nat (x - unat VIRT_BASE))})"
proof (induction n arbitrary: s A p)
  case 0
  then show ?case by (simp add: linear_range_def)
next
  case (Suc n)
  let ?q = "p + of_nat (block_size MAX_ORDER)" and ?b = "block (phys2virt p) MAX_ORDER"
  note h = slot_head [OF Suc.prems(3)]
  have al: "2097152 dvd unat p" using Suc.prems(3) by (simp add: slot_ok_def)
  have res: "is_reserved rs (of_nat (x - unat VIRT_BASE)) = is_reserved rs p" if x: "x \<in> ?b" for x
  proof -
    define i where "i = x - unat (phys2virt p)"
    have i: "i < 2097152" "x - unat VIRT_BASE = unat p + i" "x < 2 ^ 64"
      using x h(1,2) by (auto simp: i_def block_def max_block block_ok_def)
    have "unat (of_nat (x - unat VIRT_BASE) :: u64) = unat p + i"
      unfolding i(2) [symmetric] by (rule unat_of_nat64) (use i(3) in linarith)
    then show ?thesis by (rule is_reserved_block [OF Suc.prems(2) al _ i(1)])
  qed
  let ?t = "if is_reserved rs p then s else init_free_pages s (phys2virt p) MAX_ORDER"
  let ?A = "if is_reserved rs p then A else A \<union> ?b"
  have "?b \<inter> A = {}" if "\<not> is_reserved rs p"
    using Suc.prems(4) h(3) res that by blast
  then have "zone_free ?t ?A"
    using zone_free_init [OF Suc.prems(1) order_refl h(2)] Suc.prems(1) by auto
  moreover have "\<forall>x \<in> linear_range ?q n. \<not> is_reserved rs (of_nat (x - unat VIRT_BASE)) \<longrightarrow> x \<notin> ?A"
    using Suc.prems(4) h(3,4) by auto
  ultimately have "zone_free (init_slot ?t rs ?q n)
     (?A \<union> {x \<in> linear_range ?q n. \<not> is_reserved rs (of_nat (x - unat VIRT_BASE))})"
    using Suc.IH [OF _ Suc.prems(2) h(5)] by blast
  moreover have "?A \<union> {x \<in> linear_range ?q n. \<not> is_reserved rs (of_nat (x - unat VIRT_BASE))} =
      A \<union> {x \<in> linear_range p (Suc n). \<not> is_reserved rs (of_nat (x - unat VIRT_BASE))}"
    using res h(3) by auto
  ultimately show ?case by simp
qed

text \<open>
  The loop over a slot steps in blocks of 2 MiB while the offset is below the slot's size, so that it
  frees \<open>slot_blocks\<close> whole blocks: the last one reaches past the end of a slot whose size is not a
  multiple of 2 MiB (lemma \<open>slot_tail_freed\<close>).
\<close>

definition slot_range :: "memblock \<Rightarrow> nat set" where
  "slot_range m = linear_range (phys_start m) (slot_blocks (bsize m))"

lemma init_slots_spec:
  "zone_free s A \<Longrightarrow> reserved_ok rs \<Longrightarrow> \<forall>m \<in> set ms. slot_ok (phys_start m) (slot_blocks (bsize m)) \<Longrightarrow>
   \<forall>m \<in> set ms. \<forall>x \<in> slot_range m. \<not> is_reserved rs (of_nat (x - unat VIRT_BASE)) \<longrightarrow> x \<notin> A \<Longrightarrow> sorted_wrt (\<lambda>m l. slot_range m \<inter> slot_range l = {}) ms \<Longrightarrow>
   zone_free (foldl (\<lambda>t m. init_slot t rs (phys_start m) (slot_blocks (bsize m))) s ms)
     (A \<union> {x. (\<exists>m \<in> set ms. x \<in> slot_range m) \<and> \<not> is_reserved rs (of_nat (x - unat VIRT_BASE))})"
proof (induction ms arbitrary: s A)
  case Nil
  then show ?case by simp
next
  case (Cons m ms)
  let ?R = "{x \<in> slot_range m. \<not> is_reserved rs (of_nat (x - unat VIRT_BASE))}"
  have z: "zone_free (init_slot s rs (phys_start m) (slot_blocks (bsize m))) (A \<union> ?R)"
    using init_slot_spec [OF Cons.prems(1,2)] Cons.prems(3,4) by (simp add: slot_range_def)
  have "\<forall>l \<in> set ms. \<forall>x \<in> slot_range l. \<not> is_reserved rs (of_nat (x - unat VIRT_BASE)) \<longrightarrow> x \<notin> A \<union> ?R"
    using Cons.prems(4,5) by auto
  from Cons.IH [OF z Cons.prems(2) _ this] Cons.prems(3,5)
  have "zone_free (foldl (\<lambda>t m. init_slot t rs (phys_start m) (slot_blocks (bsize m))) s (m # ms))
      (A \<union> ?R \<union> {x. (\<exists>m \<in> set ms. x \<in> slot_range m) \<and> \<not> is_reserved rs (of_nat (x - unat VIRT_BASE))})"
    by simp
  moreover have "A \<union> ?R \<union> {x. (\<exists>m \<in> set ms. x \<in> slot_range m) \<and> \<not> is_reserved rs (of_nat (x - unat VIRT_BASE))} =
      A \<union> {x. (\<exists>l \<in> set (m # ms). x \<in> slot_range l) \<and> \<not> is_reserved rs (of_nat (x - unat VIRT_BASE))}"
    by auto
  ultimately show ?case by simp
qed

lemma slot_tail_freed:
  assumes "slot_ok (phys_start m) (slot_blocks (bsize m))" and "\<not> 2097152 dvd unat (bsize m)"
  shows "unat (phys_start m) + unat VIRT_BASE + unat (bsize m) \<in> slot_range m"
proof -
  have "unat (bsize m) < slot_blocks (bsize m) * 2097152"
    unfolding slot_blocks_def max_block using round_up_above [of 2097152 "unat (bsize m)"] assms(2) by simp
  then show ?thesis by (simp add: slot_range_def linear_range_def)
qed

section \<open>The allocator as its clients see it\<close>

text \<open>
  The page tables and the shared memory rely on the following contract only: \<open>wf s A\<close> says that the
  allocator owns exactly the bytes \<open>A\<close>, \<open>rd\<close> and \<open>wr\<close> are the clients' loads and stores.
\<close>

locale page_allocator =
  fixes alloc :: "'s \<Rightarrow> (u64 \<times> 's) res"
    and free :: "'s \<Rightarrow> u64 \<Rightarrow> 's res"
    and rd :: "'s \<Rightarrow> heap"
    and wr :: "'s \<Rightarrow> u64 \<Rightarrow> u64 \<Rightarrow> 's"
    and wf :: "'s \<Rightarrow> nat set \<Rightarrow> bool"
  assumes alloc_returns: "wf s A \<Longrightarrow> \<exists>p s'. alloc s = Inr (p, s')"
    and finite_area: "wf s A \<Longrightarrow> finite A"
    and alloc_none: "wf s A \<Longrightarrow> alloc s = Inr (0, s') \<Longrightarrow> s' = s \<and> A = {}"
    and alloc_some: "wf s A \<Longrightarrow> alloc s = Inr (p, s') \<Longrightarrow> p \<noteq> 0 \<Longrightarrow>
        block_ok p 0 \<and> block p 0 \<subseteq> A \<and> wf s' (A - block p 0)"
    and alloc_frame: "wf s A \<Longrightarrow> alloc s = Inr (p, s') \<Longrightarrow> unat a \<notin> A \<Longrightarrow> rd s' a = rd s a"
    and alloc_zero: "wf s A \<Longrightarrow> alloc s = Inr (p, s') \<Longrightarrow> p \<noteq> 0 \<Longrightarrow> aligned8 a \<Longrightarrow>
        unat a \<in> block p 0 \<Longrightarrow> rd s' a = 0"
    and free_some: "wf s A \<Longrightarrow> block_ok p 0 \<Longrightarrow> block p 0 \<inter> A = {} \<Longrightarrow>
        \<exists>s'. free s p = Inr s' \<and> wf s' (A \<union> block p 0) \<and>
             (\<forall>a. unat a \<notin> block p 0 \<longrightarrow> rd s' a = rd s a)"
    and wr_wf: "wf s A \<Longrightarrow> unat a \<notin> A \<Longrightarrow> wf (wr s a v) A"
    and rd_wr: "rd (wr s a v) = (rd s)(a := v)"
begin

lemma alloc_twice_disjoint:
  assumes "wf s A" and "alloc s = Inr (p, s1)" and "p \<noteq> 0" and "alloc s1 = Inr (q, s2)" and "q \<noteq> 0"
  shows "block p 0 \<inter> block q 0 = {}" and "wf s2 (A - block p 0 - block q 0)"
  using alloc_some [OF assms(1-3)] alloc_some [OF _ assms(4,5)] by blast+

lemma alloc_write_free:
  assumes "wf s A" and "alloc s = Inr (p, s1)" and "p \<noteq> 0" and "unat a \<in> block p 0"
  shows "\<exists>s2. free (wr s1 a v) p = Inr s2 \<and> wf s2 A \<and> (\<forall>b. unat b \<notin> A \<longrightarrow> rd s2 b = rd s b)"
proof -
  note p = alloc_some [OF assms(1-3)]
  have "wf (wr s1 a v) (A - block p 0)"
    using wr_wf [of s1 _ a v] p assms(4) by blast
  from free_some [OF this, of p] p obtain s2 where s2: "free (wr s1 a v) p = Inr s2"
    "wf s2 (A - block p 0 \<union> block p 0)"
    "\<forall>b. unat b \<notin> block p 0 \<longrightarrow> rd s2 b = rd (wr s1 a v) b" by blast
  have "A - block p 0 \<union> block p 0 = A" using p by blast
  moreover have "rd s2 b = rd s b" if b: "unat b \<notin> A" for b
  proof -
    have "unat b \<notin> block p 0" and "b \<noteq> a" using b p assms(4) by blast+
    then show ?thesis using s2(3) rd_wr alloc_frame [OF assms(1,2) b] by simp
  qed
  ultimately show ?thesis using s2(1,2) by auto
qed

end

definition write_cell :: "mstate \<Rightarrow> u64 \<Rightarrow> u64 \<Rightarrow> mstate" where
  "write_cell s a v = s\<lparr>mem := (mem s)(a := v)\<rparr>"

lemma alloc_pages_returns: "order \<le> MAX_ORDER \<Longrightarrow> \<exists>p s'. alloc_pages s (int order) = Inr (p, s')"
  by (simp add: alloc_pages_def split: prod.splits)

lemma zone_free_alloc:
  assumes "zone_free s A" and "alloc_page s = Inr (p, s')"
  shows "p = 0 \<longrightarrow> s' = s \<and> A = {}"
    and "p \<noteq> 0 \<longrightarrow> block_ok p 0 \<and> block p 0 \<subseteq> A \<and> zone_free s' (A - block p 0)"
    and "unat a \<notin> A \<longrightarrow> mem s' a = mem s a"
    and "p \<noteq> 0 \<and> aligned8 a \<and> unat a \<in> block p 0 \<longrightarrow> mem s' a = 0"
proof -
  obtain B where B: "zone_inv s B" "free_area B = A" using assms(1) by (auto simp: zone_free_def)
  have e: "free_area B = {}" if "\<forall>i \<le> MAX_ORDER. B i = []"
    using that by (auto simp: free_area_def)
  have r: "alloc_pages s (int 0) = Inr (p, s')" using assms(2) by (simp add: alloc_page_def)
  note c = alloc_pages_cases [OF B(1) _ r, simplified]
  show "p = 0 \<longrightarrow> s' = s \<and> A = {}"
    "p \<noteq> 0 \<longrightarrow> block_ok p 0 \<and> block p 0 \<subseteq> A \<and> zone_free s' (A - block p 0)"
    "unat a \<notin> A \<longrightarrow> mem s' a = mem s a"
    "p \<noteq> 0 \<and> aligned8 a \<and> unat a \<in> block p 0 \<longrightarrow> mem s' a = 0"
    using c e B(2) unfolding zone_free_def by blast+
qed

lemma finite_free_area: "finite (free_area B)"
  by (simp add: free_area_def block_def)

lemma zone_free_free:
  assumes "zone_free s A" and "block_ok p 0" and "block p 0 \<inter> A = {}"
  shows "\<exists>s'. free_page s p = Inr s' \<and> zone_free s' (A \<union> block p 0) \<and>
             (\<forall>a. unat a \<notin> block p 0 \<longrightarrow> mem s' a = mem s a)"
proof -
  obtain B where B: "zone_inv s B" "free_area B = A" using assms(1) by (auto simp: zone_free_def)
  have "free_page s p = Inr (free_pages_core s p 0)"
    using assms(2) aligned_mask_iff [of 0 p] by (simp add: free_page_def free_pages_def block_ok_def)
  then show ?thesis
    using free_pages_cases [OF B(1), of p 0] B(2) assms(3) free_area_add [of 0 B p]
    unfolding free_page_def zone_free_def by auto
qed

text \<open>The early memory: the 8 MiB above the image, from the next multiple of 2 MiB on.\<close>

definition early_start :: "u64 \<Rightarrow> u64" where
  "early_start pend = ALIGN_UP pend SZ_2MiB + VIRT_BASE"

definition early_range :: "u64 \<Rightarrow> nat set" where
  "early_range pend = {unat (early_start pend) ..< unat (early_start pend) + 8388608}"

definition early_ok :: "u64 \<Rightarrow> bool" where
  "early_ok pend \<longleftrightarrow> early_start pend \<noteq> 0 \<and> 4096 dvd unat (early_start pend) \<and> unat (early_start pend) + 8388608 < 2 ^ 64"

lemma early_free_range_spec:
  "zone_free s A \<Longrightarrow> v \<noteq> 0 \<Longrightarrow> 4096 dvd unat v \<Longrightarrow> unat v + n * 4096 < 2 ^ 64 \<Longrightarrow>
   {unat v ..< unat v + n * 4096} \<inter> A = {} \<Longrightarrow>
   zone_free (early_free_range s v n) (A \<union> {unat v ..< unat v + n * 4096})"
proof (induction n arbitrary: s A v)
  case (Suc n)
  have b: "block v 0 = {unat v ..< unat v + 4096}" by (simp add: block_def block_size_def PAGESIZE_def)
  have ok: "block_ok v 0" using Suc.prems(2-4) by (simp add: block_ok_def block_size_def PAGESIZE_def)
  have "block v 0 \<subseteq> {unat v ..< unat v + Suc n * 4096}" unfolding b by auto
  then have "block v 0 \<inter> A = {}" using Suc.prems(5) by blast
  from zone_free_free [OF Suc.prems(1) ok this]
  have z: "zone_free (free_pages_core s v 0) (A \<union> block v 0)"
    using ok aligned_mask_iff [of 0 v] by (auto simp: free_page_def free_pages_def block_ok_def split: if_splits)
  have u: "unat (v + of_nat PAGESIZE) = unat v + 4096"
    using unat_add_of_nat [of v 4096] Suc.prems(4) by (simp add: PAGESIZE_def)
  then have "v + of_nat PAGESIZE \<noteq> 0" by auto
  from Suc.IH [OF z this] Suc.prems(3-5)
  have "zone_free (early_free_range s v (Suc n))
      (A \<union> block v 0 \<union> {unat v + 4096 ..< unat v + 4096 + n * 4096})"
    unfolding u b by (auto simp: disjoint_iff)
  moreover have "A \<union> block v 0 \<union> {unat v + 4096 ..< unat v + 4096 + n * 4096} = A \<union> {unat v ..< unat v + Suc n * 4096}"
    unfolding b by auto
  ultimately show ?case by simp
qed simp

lemma early_zone:
  assumes "zone_free s A" and "early_ok pend" and "early_range pend \<inter> A = {}"
  shows "zone_free (early_allocator_init s pend) (A \<union> early_range pend)"
  using early_free_range_spec [OF assms(1), of "early_start pend" 2048] assms(2,3)
  by (simp add: early_allocator_init_def early_ok_def early_range_def early_start_def SZ_2MiB_def PAGESIZE_def Let_def)

interpretation pa: page_allocator alloc_page free_page mem write_cell zone_free
proof
  fix s A and a v :: u64 assume z: "zone_free s A" and a: "unat a \<notin> A"
  then obtain B where B: "zone_inv s B" "free_area B = A" by (auto simp: zone_free_def)
  have "zone_inv (write_cell s a v) B"
    by (rule zone_frame [OF B(1)]) (use a B(2) in \<open>auto simp: write_cell_def\<close>)
  then show "zone_free (write_cell s a v) A" using B(2) by (auto simp: zone_free_def)
next
  fix s A assume "zone_free s A"
  then show "\<exists>p s'. alloc_page s = Inr (p, s')"
    using alloc_pages_returns [of 0 s] by (simp add: alloc_page_def)
next
  fix s A assume "zone_free s A"
  then show "finite A" using finite_free_area by (auto simp: zone_free_def)
qed (use zone_free_alloc zone_free_free in \<open>blast | simp add: write_cell_def\<close>)+

section \<open>Properties\<close>

text \<open>
  C4.  For every order up to the largest, \<^verbatim>\<open>alloc_pages\<close> on a well-formed zone returns.  It
  returns NULL and leaves the zone alone exactly when no list of that order or a larger one has a
  block; otherwise the block it returns was free, is aligned to its size, is cleared, leaves the
  free area and nothing else does, the zone stays well-formed, and no byte that was not free is
  written.
\<close>

theorem alloc_pages_correct:
  assumes "zone_inv s B" and "order \<le> MAX_ORDER"
  shows "\<exists>p s'. alloc_pages s (int order) = Inr (p, s') \<and>
     (p = 0 \<longleftrightarrow> (\<forall>i. order \<le> i \<and> i \<le> MAX_ORDER \<longrightarrow> B i = [])) \<and>
     (p = 0 \<longrightarrow> s' = s) \<and>
     (p \<noteq> 0 \<longrightarrow> block_size order dvd unat p \<and> block p order \<subseteq> free_area B \<and>
        (\<exists>B'. zone_inv s' B' \<and> free_area B' = free_area B - block p order) \<and>
        (\<forall>a. unat a \<notin> free_area B \<longrightarrow> mem s' a = mem s a) \<and>
        (\<forall>a. aligned8 a \<and> unat a \<in> block p order \<longrightarrow> mem s' a = 0))"
proof -
  obtain p s' where r: "alloc_pages s (int order) = Inr (p, s')"
    using alloc_pages_returns assms(2) by blast
  note c = alloc_pages_cases [OF assms r]
  have "p = 0 \<longleftrightarrow> (\<forall>i. order \<le> i \<and> i \<le> MAX_ORDER \<longrightarrow> B i = [])"
    using no_large_block [OF assms _ r] c by blast
  then show ?thesis using r c unfolding block_ok_def by blast
qed

text \<open>A zone with the single 2 MiB block at physical 2 MiB, as \<^verbatim>\<open>pageallocator_init\<close> leaves it.\<close>

definition one_block_zone :: mstate where
  "one_block_zone = pageallocator_init (empty_zone (\<lambda>_. 0)) []
     \<lparr>slots = [\<lparr>phys_start = 0x200000, bsize = 0x200000, bname = []\<rparr>], allsize = 0x200000\<rparr>"

definition one_block :: "nat \<Rightarrow> u64 list" where
  "one_block = (\<lambda>_. [])(9 := [0xc0200000])"

lemma one_block_zone_eq: "one_block_zone = init_free_pages (empty_zone (\<lambda>_. 0)) 0xc0200000 9"
proof -
  have n: "slot_blocks 0x200000 = Suc 0"
    by (simp add: slot_blocks_def max_block)
  show ?thesis
    by (simp add: one_block_zone_def pageallocator_init_def n is_reserved_def phys2virt_def
        VIRT_BASE_def MAX_ORDER_def)
qed

lemma one_block_inv: "zone_inv one_block_zone one_block"
proof -
  have e: "zone_inv (empty_zone (\<lambda>_. 0)) (\<lambda>_. [])"
    by (simp add: zone_inv_def empty_zone_def lists_ok_def blocks_ok_def less_Suc_eq_le del: replicate_Suc)
  have "block_ok 0xc0200000 9"
    by (simp add: block_ok_def block_size_def PAGESIZE_def)
  from zone_add [OF e _ this, of 9] show ?thesis
    unfolding one_block_zone_eq init_free_pages_def one_block_def
    by (simp add: MAX_ORDER_def free_area_def)
qed

theorem alloc_pages_correct_witness:
  "\<exists>p s'. alloc_pages one_block_zone 0 = Inr (p, s') \<and> p \<noteq> 0 \<and> block_size 0 dvd unat p"
  using alloc_pages_correct [OF one_block_inv, of 0] by (auto simp: one_block_def MAX_ORDER_def)

text \<open>
  C14.  \<^verbatim>\<open>free_pages\<close> panics exactly on NULL, on an order above the largest and on a block that is
  not aligned to its size; otherwise, for a block none of whose bytes is free already, it returns,
  the block heads the list of its own order, every other list is unchanged (no coalescing with the
  buddy), the zone stays well-formed and only bytes of the block are written.
\<close>

theorem free_pages_correct:
  assumes "zone_inv s B" and "block p order \<inter> free_area B = {}"
  shows "if p = 0 \<or> order > MAX_ORDER \<or> \<not> block_size order dvd unat p
         then \<exists>msg. free_pages s p (int order) = Inl (Panic msg)
         else \<exists>s'. free_pages s p (int order) = Inr s' \<and> zone_inv s' (B(order := p # B order)) \<and>
                free_area (B(order := p # B order)) = free_area B \<union> block p order \<and>
                (\<forall>a. unat a \<notin> block p order \<longrightarrow> mem s' a = mem s a)"
proof (cases "p = 0 \<or> order > MAX_ORDER \<or> \<not> block_size order dvd unat p")
  case True
  then show ?thesis using aligned_mask_iff [of order p] by (auto simp: free_pages_def)
next
  case False
  then have "free_pages s p (int order) = Inr (free_pages_core s p order)"
    using aligned_mask_iff [of order p] by (simp add: free_pages_def)
  with False free_pages_cases [OF assms(1) this assms(2)] free_area_add [of order B p]
  show ?thesis by auto
qed

theorem free_pages_correct_witness:
  "\<exists>s'. free_pages one_block_zone 0xc0400000 0 = Inr s' \<and> zone_inv s' (one_block(0 := [0xc0400000]))"
proof -
  have "block 0xc0400000 0 \<inter> free_area one_block = {}"
    by (auto simp: one_block_def free_area_def block_def block_size_def PAGESIZE_def)
  from free_pages_correct [OF one_block_inv this] show ?thesis
    by (simp add: block_size_def PAGESIZE_def one_block_def split: if_splits) blast
qed


text \<open>The board of the example: 64 MiB of memory at 1 GiB, the early memory at its start.\<close>

definition early_block :: memblock where
  "early_block = \<lparr>phys_start = 0x40000000, bsize = 0x800000, bname = ''earlymem''\<rparr>"

definition example_memory :: system_memory where
  "example_memory = \<lparr>slots = [\<lparr>phys_start = 0x40000000, bsize = 0x4000000, bname = []\<rparr>], allsize = 0x4000000\<rparr>"

lemma example_reserved:
  assumes "0x100000000 \<le> x" and "x < 0x104000000"
  shows "is_reserved [early_block] (of_nat (x - unat VIRT_BASE)) \<longleftrightarrow> x < 0x100800000"
proof -
  have "unat (of_nat (x - unat VIRT_BASE) :: u64) = x - 0xc0000000"
    using assms by (subst unat_of_nat64) (simp_all add: VIRT_BASE_def)
  moreover have "0x40000000 \<le> x - 0xc0000000" "x - 0xc0000000 < 0x40800000 \<longleftrightarrow> x < 0x100800000"
    using assms by linarith+
  ultimately show ?thesis
    by (simp add: is_reserved_def early_block_def word_le_nat_alt word_less_nat_alt)
qed


text \<open>
  C15.  Two pages allocated one after the other never overlap, and when the first is written and
  given back before the second is taken, everything outside the allocator's memory is as before.
\<close>

theorem alloc_page_exclusive:
  assumes "zone_free s A" and "alloc_page s = Inr (p, s1)" and "p \<noteq> 0"
  shows "(\<forall>q s2. alloc_page s1 = Inr (q, s2) \<and> q \<noteq> 0 \<longrightarrow> block p 0 \<inter> block q 0 = {}) \<and>
     (\<forall>a v. unat a \<in> block p 0 \<longrightarrow>
        (\<exists>s2. free_page (write_cell s1 a v) p = Inr s2 \<and> zone_free s2 A \<and>
              (\<forall>b. unat b \<notin> A \<longrightarrow> mem s2 b = mem s b)))"
  using pa.alloc_twice_disjoint(1) [OF assms] pa.alloc_write_free [OF assms] by blast

theorem alloc_page_exclusive_witness:
  "\<exists>p s1. alloc_page one_block_zone = Inr (p, s1) \<and> p \<noteq> 0 \<and>
     (\<exists>s2. free_page (write_cell s1 p 7) p = Inr s2 \<and> zone_free s2 (free_area one_block))"
proof -
  have z: "zone_free one_block_zone (free_area one_block)"
    using one_block_inv by (auto simp: zone_free_def)
  obtain p s1 where r: "alloc_page one_block_zone = Inr (p, s1)"
    using pa.alloc_returns [OF z] by blast
  moreover have "p \<noteq> 0"
    using alloc_pages_cases [OF one_block_inv, of 0 p s1] r by (auto simp: alloc_page_def one_block_def MAX_ORDER_def)
  ultimately have "alloc_page one_block_zone = Inr (p, s1)" "p \<noteq> 0" by blast+
  then show ?thesis using alloc_page_exclusive [OF z] block_head by blast
qed

end
