(* ===== verification/Page_Table.thy ===== *)
theory Page_Table
  imports Alloc_Page
begin

text \<open>
  The page tables of \<^verbatim>\<open>core/mm.c\<close> and \<^verbatim>\<open>include/mm.h\<close>.  Tables are pages of 512 entries
  in the heap; a walk follows valid table entries from the root down to level 3 and, when asked to,
  takes missing tables from the page allocator.  The stage-1 tables of the hypervisor start at level
  1 and the stage-2 tables of the guest at level 0; the walk is the same code.  \<open>pt_lookup\<close> is the
  level-3 entry that the code's own walk finds, \<open>pt_trans\<close> the descriptor that translates an address in
  the hardware's walk, which may be a block of level 1 or 2 as \<^verbatim>\<open>memmap_huge\<close> makes them, and
  \<open>pt_missing\<close> the tables a creating walk has to allocate.  \<open>ptree\<close> says that the
  tables reachable from a root form a tree of pages that do not overlap, and the lemmas show that a
  creating walk keeps it, takes exactly the missing tables and changes no translation but that of a
  block in its way, and that mapping a range changes the translations of exactly the pages of that range.
\<close>

section \<open>Entries\<close>

definition PIDX :: "nat \<Rightarrow> u64 \<Rightarrow> u64" where
  "PIDX level va = drop_bit (39 - level * 9) va AND 0x1ff"

definition PTE_VALID :: u64 where "PTE_VALID = 1"
definition PTE_TABLE :: u64 where "PTE_TABLE = 2"
definition PTE_V :: u64 where "PTE_V = 3"
definition PTE_AF :: u64 where "PTE_AF = 0x400"
definition PTE_XN :: u64 where "PTE_XN = 0x40000000000000"

definition PTE_INDX :: "u64 \<Rightarrow> u64" where
  "PTE_INDX idx = push_bit 2 (idx AND 7)"

definition PTE_AP :: "u64 \<Rightarrow> u64" where
  "PTE_AP ap = push_bit 6 (ap AND 3)"

definition PTE_SH :: "u64 \<Rightarrow> u64" where
  "PTE_SH sh = push_bit 8 (sh AND 3)"

definition PTE_RO :: u64 where "PTE_RO = PTE_AP 2"
definition PTE_NORMAL :: u64 where "PTE_NORMAL = PTE_INDX 3 OR PTE_SH 3"
definition PTE_DEVICE_nGnRE :: u64 where "PTE_DEVICE_nGnRE = PTE_INDX 1"

definition PTE_PA :: "u64 \<Rightarrow> u64" where
  "PTE_PA pte = pte AND 0xfffffffff000"

definition pte_update :: "mstate \<Rightarrow> u64 \<Rightarrow> physaddr \<Rightarrow> u64 \<Rightarrow> mstate" where
  "pte_update s pte pa flags = write_cell s pte (PTE_PA pa OR flags)"

definition pte_clear :: "mstate \<Rightarrow> u64 \<Rightarrow> mstate" where
  "pte_clear s pte = write_cell s pte 0"

definition pte_set_entry :: "mstate \<Rightarrow> u64 \<Rightarrow> physaddr \<Rightarrow> u64 \<Rightarrow> mstate" where
  "pte_set_entry s pte pa flags = pte_update s pte pa (flags OR PTE_V OR PTE_AF)"

definition pte_set_block :: "mstate \<Rightarrow> u64 \<Rightarrow> physaddr \<Rightarrow> u64 \<Rightarrow> mstate" where
  "pte_set_block s pte blk flags = pte_update s pte blk (flags OR PTE_AF OR PTE_VALID)"

definition pte_set_table :: "mstate \<Rightarrow> u64 \<Rightarrow> physaddr \<Rightarrow> mstate" where
  "pte_set_table s pte next_table = pte_update s pte next_table (PTE_TABLE OR PTE_VALID)"

definition is_table :: "u64 \<Rightarrow> bool" where
  "is_table e \<longleftrightarrow> e AND PTE_VALID \<noteq> 0 \<and> e AND PTE_TABLE \<noteq> 0"

section \<open>Walking and mapping\<close>

text \<open>
  \<open>pagewalk_levels pv create va d s pgt\<close> is the loop of \<^verbatim>\<open>pagewalk\<close> with \<open>d\<close> levels above level 3
  left, that is at level \<open>3 - d\<close>; the address 0 is the NULL of an unmapped walk.  \<open>pv\<close> is
  \<^verbatim>\<open>pvoffset\<close>.
\<close>

fun pagewalk_levels :: "u64 \<Rightarrow> bool \<Rightarrow> u64 \<Rightarrow> nat \<Rightarrow> mstate \<Rightarrow> u64 \<Rightarrow> (u64 \<times> mstate) res" where
  "pagewalk_levels pv create va 0 s pgt = Inr (pgt + 8 * PIDX 3 va, s)"
| "pagewalk_levels pv create va (Suc d) s pgt =
     (let pte = pgt + 8 * PIDX (2 - d) va; e = mem s pte in
      if is_table e then pagewalk_levels pv create va d s (phys2virt (PTE_PA e))
      else if create then
        bind_res (alloc_page s) (\<lambda>(t, s1).
          if t = 0 then Inl (Panic ''nomem'')
          else pagewalk_levels pv create va d (pte_set_table s1 pte (virt2phys pv t)) t)
      else Inr (0, s))"

definition pagewalk :: "u64 \<Rightarrow> mstate \<Rightarrow> u64 \<Rightarrow> u64 \<Rightarrow> nat \<Rightarrow> bool \<Rightarrow> (u64 \<times> mstate) res" where
  "pagewalk pv s pgt va root create = pagewalk_levels pv create va (3 - root) s pgt"

fun map_loop :: "u64 \<Rightarrow> u64 \<Rightarrow> u64 \<Rightarrow> nat \<Rightarrow> nat \<Rightarrow> mstate \<Rightarrow> u64 \<Rightarrow> physaddr \<Rightarrow> mstate res" where
  "map_loop pv pgt flags root 0 s va pa = Inr s"
| "map_loop pv pgt flags root (Suc n) s va pa =
     bind_res (pagewalk pv s pgt va root True) (\<lambda>(pte, s1).
       if mem s1 pte AND PTE_AF \<noteq> 0 then Inl (Panic ''this entry has been used'')
       else map_loop pv pgt flags root n (pte_set_entry s1 pte pa flags)
              (va + of_nat PAGESIZE) (pa + of_nat PAGESIZE))"

definition mappages ::
    "u64 \<Rightarrow> mstate \<Rightarrow> u64 \<Rightarrow> u64 \<Rightarrow> physaddr \<Rightarrow> u64 \<Rightarrow> u64 \<Rightarrow> nat \<Rightarrow> mstate res" where
  "mappages pv s pgt va pa sz flags root =
     assert_res (PAGE_ALIGNED va) ''va'' (assert_res (PAGE_ALIGNED pa) ''pa''
       (assert_res (PAGE_ALIGNED sz) ''size''
         (map_loop pv pgt flags root (unat sz div PAGESIZE) s va pa)))"

definition page_accessible_pte :: "u64 \<Rightarrow> mstate \<Rightarrow> u64 \<Rightarrow> u64 \<Rightarrow> nat \<Rightarrow> u64 res" where
  "page_accessible_pte pv s pgt va root =
     assert_res (PAGE_ALIGNED va) ''va'' (bind_res (pagewalk pv s pgt va root False) (\<lambda>(pte, _).
       Inr (if pte \<noteq> 0 \<and> mem s pte AND PTE_AF \<noteq> 0 then pte else 0)))"

definition page_accessible :: "u64 \<Rightarrow> mstate \<Rightarrow> u64 \<Rightarrow> u64 \<Rightarrow> nat \<Rightarrow> bool res" where
  "page_accessible pv s pgt va root =
     bind_res (page_accessible_pte pv s pgt va root) (\<lambda>pte. Inr (pte \<noteq> 0))"

definition hugepage_level :: "u64 \<Rightarrow> nat" where
  "hugepage_level sz = (if sz = 0x200000 then 2 else if sz = 0x40000000 then 1 else 0)"

text \<open>The level of \<^verbatim>\<open>memmap_huge\<close>'s loop is \<open>level - d\<close>; the result -1 is \<open>False\<close>.\<close>

fun huge_levels :: "u64 \<Rightarrow> u64 \<Rightarrow> nat \<Rightarrow> nat \<Rightarrow> mstate \<Rightarrow> u64 \<Rightarrow> (u64 \<times> mstate) res" where
  "huge_levels pv va level 0 s pgt = Inr (pgt + 8 * PIDX level va, s)"
| "huge_levels pv va level (Suc d) s pgt =
     (let pte = pgt + 8 * PIDX (level - Suc d) va; e = mem s pte in
      if is_table e then huge_levels pv va level d s (phys2virt (PTE_PA e))
      else bind_res (alloc_page s) (\<lambda>(t, s1).
             if t = 0 then Inl (Panic ''nomem'')
             else huge_levels pv va level d
                    (write_cell s1 pte (PTE_PA (virt2phys pv t) OR PTE_TABLE OR PTE_VALID)) t))"

definition memmap_huge ::
    "u64 \<Rightarrow> mstate \<Rightarrow> u64 \<Rightarrow> nat \<Rightarrow> u64 \<Rightarrow> physaddr \<Rightarrow> u64 \<Rightarrow> u64 \<Rightarrow> (bool \<times> mstate) res" where
  "memmap_huge pv s pgt root va pa memflags sz =
     (if pa mod sz \<noteq> 0 \<or> va mod sz \<noteq> 0 then Inr (False, s)
      else let level = hugepage_level sz in
        if level = 0 then Inr (False, s)
        else bind_res (huge_levels pv va level (level - root) s pgt) (\<lambda>(pte, s1).
          let e = mem s1 pte in
          if e AND PTE_TABLE \<noteq> 0 \<or> e AND PTE_AF \<noteq> 0 then Inr (False, s1)
          else Inr (True, pte_set_block s1 pte pa memflags)))"

section \<open>Abstract view of a walk\<close>

definition entry :: "u64 \<Rightarrow> u64 \<Rightarrow> u64" where
  "entry pgt i = pgt + 8 * i"

primrec pt_walk :: "heap \<Rightarrow> nat \<Rightarrow> u64 \<Rightarrow> u64 \<Rightarrow> u64 option" where
  "pt_walk h 0 p va = Some (entry p (PIDX 3 va))"
| "pt_walk h (Suc d) p va =
     (let e = h (entry p (PIDX (2 - d) va)) in
      if is_table e then pt_walk h d (phys2virt (PTE_PA e)) va else None)"

definition pt_lookup :: "heap \<Rightarrow> nat \<Rightarrow> u64 \<Rightarrow> u64 \<Rightarrow> u64" where
  "pt_lookup h d p va = (case pt_walk h d p va of None \<Rightarrow> 0 | Some q \<Rightarrow> h q)"

text \<open>
  The descriptor the hardware's walk ends at, with the number of levels below it: 0 for a page, 1 and
  2 for a block of 2 MiB and of 1 GiB.  There are no blocks at level 0.
\<close>

primrec pt_trans :: "heap \<Rightarrow> nat \<Rightarrow> u64 \<Rightarrow> u64 \<Rightarrow> (nat \<times> u64) option" where
  "pt_trans h 0 p va =
     (let e = h (entry p (PIDX 3 va)) in if e AND PTE_V = PTE_V then Some (0, e) else None)"
| "pt_trans h (Suc d) p va =
     (let e = h (entry p (PIDX (2 - d) va)) in
      if is_table e then pt_trans h d (phys2virt (PTE_PA e)) va
      else if e AND PTE_VALID \<noteq> 0 \<and> d < 2 then Some (Suc d, e) else None)"

text \<open>
  The tables that are missing on the way to an address, each named by the indices that lead to it
  from the root; \<open>pt_tables\<close> are those missing for a set of addresses.
\<close>

primrec pt_paths :: "nat \<Rightarrow> u64 \<Rightarrow> u64 list set" where
  "pt_paths 0 va = {}"
| "pt_paths (Suc d) va = insert [PIDX (2 - d) va] ((#) (PIDX (2 - d) va) ` pt_paths d va)"

primrec pt_missing :: "heap \<Rightarrow> nat \<Rightarrow> u64 \<Rightarrow> u64 \<Rightarrow> u64 list set" where
  "pt_missing h 0 p va = {}"
| "pt_missing h (Suc d) p va =
     (let i = PIDX (2 - d) va; e = h (entry p i) in
      if is_table e then (#) i ` pt_missing h d (phys2virt (PTE_PA e)) va else pt_paths (Suc d) va)"

definition pt_tables :: "heap \<Rightarrow> nat \<Rightarrow> u64 \<Rightarrow> u64 set \<Rightarrow> u64 list set" where
  "pt_tables h d p V = (\<Union>v \<in> V. pt_missing h d p v)"

primrec ptree :: "heap \<Rightarrow> nat \<Rightarrow> u64 \<Rightarrow> nat set \<Rightarrow> bool" where
  "ptree h 0 p M \<longleftrightarrow> block_ok p 0 \<and> M = block p 0"
| "ptree h (Suc d) p M \<longleftrightarrow> block_ok p 0 \<and>
     (\<exists>F. M = block p 0 \<union> (\<Union>i \<in> {..<512}. F i) \<and> (\<forall>i < 512. block p 0 \<inter> F i = {}) \<and>
          (\<forall>i < 512. \<forall>j < 512. i \<noteq> j \<longrightarrow> F i \<inter> F j = {}) \<and>
          (\<forall>i < 512. if is_table (h (entry p i)) then ptree h d (phys2virt (PTE_PA (h (entry p i)))) (F i)
                      else F i = {}))"

text \<open>The memory the allocator serves is linear-mapped and has physical addresses below \<open>2 ^ 48\<close>.\<close>

definition linear_area :: "nat set \<Rightarrow> bool" where
  "linear_area A \<longleftrightarrow> (\<forall>x \<in> A. unat VIRT_BASE \<le> x \<and> x < 2 ^ 48 + unat VIRT_BASE)"

section \<open>Entries and indices\<close>

lemma bit_pa_mask: "bit (0xfffffffff000 :: u64) n \<longleftrightarrow> 12 \<le> n \<and> n < 48"
proof -
  have "(0xfffffffff000 :: u64) = push_bit 12 (mask 36)"
    by (simp add: push_bit_eq_mult mask_eq_exp_minus_1)
  then show ?thesis by (simp only: bit_simps) auto
qed

lemma bit_PTE_PA: "bit (PTE_PA e) n \<longleftrightarrow> bit e n \<and> 12 \<le> n \<and> n < 48"
  unfolding PTE_PA_def by (simp only: bit_and_iff bit_pa_mask)

lemma bit_numeral_u64: "bit (3 :: u64) n \<longleftrightarrow> n < 2" "bit (0x400 :: u64) n \<longleftrightarrow> n = 10"
  "bit (0x1ff :: u64) n \<longleftrightarrow> n < 9" "bit (2 :: u64) n \<longleftrightarrow> n = 1"
proof -
  have m: "(3 :: u64) = mask 2" "(0x400 :: u64) = 2 ^ 10" "(0x1ff :: u64) = mask 9" "(2 :: u64) = 2 ^ 1"
    by (simp_all add: mask_eq_exp_minus_1)
  show "bit (3 :: u64) n \<longleftrightarrow> n < 2" by (subst m(1)) (auto simp: bit_mask_iff)
  show "bit (0x400 :: u64) n \<longleftrightarrow> n = 10" by (subst m(2), subst bit_exp_iff) auto
  show "bit (0x1ff :: u64) n \<longleftrightarrow> n < 9" by (subst m(3)) (auto simp: bit_mask_iff)
  show "bit (2 :: u64) n \<longleftrightarrow> n = 1" by (subst m(4), subst bit_exp_iff) auto
qed

lemma PIDX_less: "PIDX level va < 512"
proof -
  have "PIDX level va \<le> 0x1ff" unfolding PIDX_def by (rule word_and_le1)
  then show ?thesis by (simp add: word_le_nat_alt word_less_nat_alt)
qed

lemma entry_props:
  assumes "block_ok p 0" and "i < 512"
  shows "unat (entry p i) = unat p + 8 * unat i" and "unat (entry p i) \<in> block p 0"
    and "aligned8 (entry p i)" and "entry p i \<noteq> 0"
proof -
  have i: "unat i < 512" using assms(2) by (simp add: word_less_nat_alt)
  have lim: "unat p + 4096 \<le> 2 ^ 64" and p0: "p \<noteq> 0" and d: "8 dvd unat p"
    using assms(1) block_ok_8 [OF assms(1)] by (simp_all add: block_ok_def block_size_def PAGESIZE_def)
  have "unat (8 * i) = 8 * unat i"
    using i by (simp add: unat_word_ariths)
  then show u: "unat (entry p i) = unat p + 8 * unat i"
    unfolding entry_def using lim i by (simp add: unat_word_ariths)
  show "unat (entry p i) \<in> block p 0"
    using u i by (simp add: block_def block_size_def PAGESIZE_def)
  show "aligned8 (entry p i)"
    using u d by (simp add: aligned8_unat)
  show "entry p i \<noteq> 0"
    using u p0 by (metis add_is_0 unsigned_0 unsigned_eq_0_iff)
qed

lemma entry_inj:
  assumes "block_ok p 0" and "i < 512" and "j < 512"
  shows "entry p i = entry p j \<longleftrightarrow> i = j"
  using entry_props(1) [OF assms(1,2)] entry_props(1) [OF assms(1,3)] by (auto simp: word_unat_eq_iff)

lemma is_table_bits: "is_table e \<longleftrightarrow> bit e 0 \<and> bit e 1"
proof -
  have "e AND 1 \<noteq> 0 \<longleftrightarrow> bit e 0" by (simp add: and_one_eq bit_0 odd_iff_mod_2_eq_one)
  moreover have "e AND 2 \<noteq> 0 \<longleftrightarrow> bit e 1"
    using and_exp_eq_0_iff_not_bit [of e 1] by simp
  ultimately show ?thesis by (simp add: is_table_def PTE_VALID_def PTE_TABLE_def)
qed

lemma table_entry:
  fixes pv :: u64
  assumes "block_ok t 0" and "block t 0 \<subseteq> A" and "linear_area A"
  defines "e \<equiv> PTE_PA (virt2phys pv t) OR (PTE_TABLE OR PTE_VALID)"
  shows "is_table e" and "phys2virt (PTE_PA e) = t"
proof -
  have t: "unat VIRT_BASE \<le> unat t" "unat t < 2 ^ 48 + unat VIRT_BASE" "4096 dvd unat t"
    using assms(1) subsetD [OF assms(2) block_head] assms(3)
    by (auto simp: linear_area_def block_ok_def block_size_def PAGESIZE_def)
  have lin: "is_linear_addr t"
    using t(1) by (simp add: is_linear_addr_def word_le_nat_alt)
  let ?x = "virt2phys pv t"
  have x: "unat ?x = unat t - unat VIRT_BASE"
    using lin t(1) by (simp add: virt2phys_def unat_sub is_linear_addr_def)
  have "4096 dvd unat ?x"
    unfolding x using t(3) by (simp add: VIRT_BASE_def dvd_diff_nat)
  then have "?x mod 4096 = 0"
    by (simp add: word_unat_eq_iff unat_mod dvd_eq_mod_eq_0)
  then have lo: "take_bit 12 ?x = 0" by (simp add: take_bit_eq_mod)
  have "unat ?x < 2 ^ 48" using x t(1,2) by simp
  then have hi: "take_bit 48 ?x = ?x"
    by (simp add: word_unat_eq_iff unsigned_take_bit_eq take_bit_nat_eq_self)
  have keep: "bit ?x n \<Longrightarrow> \<not> n < 12" "bit ?x n \<Longrightarrow> n < 48" for n
    using bit_take_bit_iff [of 12 ?x n, unfolded lo] bit_take_bit_iff [of 48 ?x n, unfolded hi] by auto
  have flags: "PTE_TABLE OR PTE_VALID = 3"
    by (simp add: PTE_TABLE_def PTE_VALID_def)
  have "PTE_PA e = ?x"
    by (rule bit_word_eqI) (auto simp: e_def flags bit_PTE_PA bit_or_iff bit_numeral_u64 not_less
        simp del: bit_numeral_word_iff dest: keep)
  then show "phys2virt (PTE_PA e) = t"
    using phys2virt_virt2phys [OF lin] by simp
  show "is_table e"
    by (simp add: is_table_bits e_def flags bit_or_iff bit_numeral_u64 del: bit_0 bit_numeral_word_iff)
qed

section \<open>Missing tables\<close>

lemma paths_cons: "xs \<in> pt_paths d va \<Longrightarrow> xs \<noteq> []"
  by (cases d) auto

lemma finite_paths [simp]: "finite (pt_paths d va)" and card_paths: "card (pt_paths d va) = d"
proof -
  have "finite (pt_paths d va) \<and> card (pt_paths d va) = d"
  proof (induction d)
    case (Suc d)
    have "[PIDX (2 - d) va] \<notin> (#) (PIDX (2 - d) va) ` pt_paths d va" using paths_cons by auto
    then show ?case using Suc by (simp add: card_image)
  qed simp
  then show "finite (pt_paths d va)" "card (pt_paths d va) = d" by auto
qed

lemma missing_head: "xs \<in> pt_missing h (Suc d) p va \<Longrightarrow> \<exists>ys. xs = PIDX (2 - d) va # ys"
  by (auto simp: Let_def split: if_splits)

lemma finite_missing [simp]: "finite (pt_missing h d p va)"
  by (induction d arbitrary: p) (auto simp: Let_def)

lemma finite_tables [simp]: "finite (pt_tables h d p V)"
  unfolding pt_tables_def by (intro finite_UN_I) auto

lemma card_missing: "card (pt_missing h d p va) \<le> d"
proof (induction d arbitrary: p)
  case (Suc d)
  let ?i = "PIDX (2 - d) va"
  show ?case
  proof (cases "is_table (h (entry p ?i))")
    case True
    then show ?thesis using Suc [of "phys2virt (PTE_PA (h (entry p ?i)))"] by (simp add: Let_def card_image le_SucI)
  next
    case False
    then show ?thesis using card_paths [of "Suc d" va] by (simp add: Let_def del: pt_paths.simps)
  qed
qed simp

lemma shared_slot:
  "pt_missing h d p v \<inter> pt_missing h d p va \<noteq> {} \<Longrightarrow> pt_trans h d p v = pt_trans h d p va"
proof (induction d arbitrary: p)
  case (Suc d)
  obtain xs where xs: "xs \<in> pt_missing h (Suc d) p v" "xs \<in> pt_missing h (Suc d) p va" using Suc.prems by blast
  then have "PIDX (2 - d) v = PIDX (2 - d) va" using missing_head by (metis list.inject)
  then show ?case using xs Suc.IH by (auto simp: Let_def split: if_splits)
qed simp

section \<open>Trees of tables\<close>

lemma ptree_root: "ptree h d p M \<Longrightarrow> block_ok p 0 \<and> block p 0 \<subseteq> M"
  by (cases d) auto

lemma pt_lookup_Suc:
  "pt_lookup h (Suc d) p va =
     (let e = h (entry p (PIDX (2 - d) va)) in
      if is_table e then pt_lookup h d (phys2virt (PTE_PA e)) va else 0)"
  by (simp add: pt_lookup_def Let_def)

lemma ptree_frame:
  "ptree h d p M \<Longrightarrow> (\<And>a. unat a \<in> M \<Longrightarrow> h' a = h a) \<Longrightarrow>
   ptree h' d p M \<and> pt_walk h' d p va = pt_walk h d p va \<and> pt_lookup h' d p va = pt_lookup h d p va \<and>
   pt_trans h' d p va = pt_trans h d p va \<and> pt_missing h' d p va = pt_missing h d p va"
proof (induction d arbitrary: p M)
  case 0
  then show ?case
    using entry_props(2) [of p "PIDX 3 va"] PIDX_less by (auto simp: pt_lookup_def)
next
  case (Suc d)
  obtain F where F: "M = block p 0 \<union> (\<Union>i \<in> {..<512}. F i)" "\<forall>i < 512. block p 0 \<inter> F i = {}"
    "\<forall>i < 512. \<forall>j < 512. i \<noteq> j \<longrightarrow> F i \<inter> F j = {}"
    "\<forall>i < 512. if is_table (h (entry p i)) then ptree h d (phys2virt (PTE_PA (h (entry p i)))) (F i) else F i = {}"
    and ok: "block_ok p 0"
    using Suc.prems(1) by auto
  have e: "h' (entry p i) = h (entry p i)" if "i < 512" for i
    using Suc.prems(2) entry_props(2) [OF ok that] F(1) by auto
  have sub: "ptree h' d q (F i) \<and> pt_walk h' d q va = pt_walk h d q va \<and> pt_lookup h' d q va = pt_lookup h d q va \<and>
      pt_trans h' d q va = pt_trans h d q va \<and> pt_missing h' d q va = pt_missing h d q va"
    if "i < 512" "is_table (h (entry p i))" "q = phys2virt (PTE_PA (h (entry p i)))" for i q
    by (rule Suc.IH) (use F(1,4) that Suc.prems(2) in auto)
  have "ptree h' (Suc d) p M"
    using ok F e sub by (simp, intro exI [of _ F]) auto
  moreover have "pt_walk h' (Suc d) p va = pt_walk h (Suc d) p va \<and> pt_lookup h' (Suc d) p va = pt_lookup h (Suc d) p va \<and>
      pt_trans h' (Suc d) p va = pt_trans h (Suc d) p va \<and> pt_missing h' (Suc d) p va = pt_missing h (Suc d) p va"
    using e [OF PIDX_less] sub [OF PIDX_less] by (auto simp: pt_lookup_Suc Let_def)
  ultimately show ?case by blast
qed

lemma zero_table:
  assumes "block_ok p 0" and "\<And>a. aligned8 a \<Longrightarrow> unat a \<in> block p 0 \<Longrightarrow> h a = 0"
  shows "ptree h d p (block p 0)" and "pt_lookup h d p va = 0" and "pt_trans h d p va = None"
    and "pt_missing h d p va = pt_paths d va"
proof -
  have z: "h (entry p i) = 0" if "i < 512" for i
    using assms entry_props [OF assms(1) that] by blast
  show "ptree h d p (block p 0)"
    using assms(1) z by (cases d) (auto simp: is_table_bits intro!: exI [of _ "\<lambda>_. {}"])
  show "pt_lookup h d p va = 0"
    using z [OF PIDX_less] by (cases d) (auto simp: pt_lookup_def is_table_bits)
  have nt: "\<not> is_table 0" by (simp add: is_table_def)
  show "pt_trans h d p va = None"
    using z [OF PIDX_less, of 3 va] z [OF PIDX_less, of "2 - (d - 1)" va] nt
    by (cases d) (simp_all add: PTE_V_def)
  show "pt_missing h d p va = pt_paths d va"
    using z [OF PIDX_less, of "2 - (d - 1)" va] nt by (cases d) (simp_all add: Let_def)
qed

text \<open>Replacing the subtree below entry \<open>i\<close> of a table.\<close>

lemma ptree_put:
  assumes ok: "block_ok p 0" and i: "i < 512"
    and F: "\<forall>j < 512. block p 0 \<inter> F j = {}" "\<forall>j < 512. \<forall>k < 512. j \<noteq> k \<longrightarrow> F j \<inter> F k = {}"
      "\<forall>j < 512. if is_table (h (entry p j)) then ptree h d (phys2virt (PTE_PA (h (entry p j)))) (F j) else F j = {}"
    and cells: "\<And>j. j < 512 \<Longrightarrow> j \<noteq> i \<Longrightarrow> h' (entry p j) = h (entry p j)"
    and sib: "\<And>j a. j < 512 \<Longrightarrow> j \<noteq> i \<Longrightarrow> unat a \<in> F j \<Longrightarrow> h' a = h a"
    and new: "is_table (h' (entry p i))" "ptree h' d (phys2virt (PTE_PA (h' (entry p i)))) X"
      "X \<inter> block p 0 = {}" "\<And>j. j < 512 \<Longrightarrow> j \<noteq> i \<Longrightarrow> X \<inter> F j = {}"
  shows "ptree h' (Suc d) p (block p 0 \<union> (\<Union>j \<in> {..<512}. (F(i := X)) j))"
    and "PIDX (2 - d) va \<noteq> i \<Longrightarrow>
      pt_walk h' (Suc d) p va = pt_walk h (Suc d) p va \<and> pt_lookup h' (Suc d) p va = pt_lookup h (Suc d) p va \<and>
      pt_trans h' (Suc d) p va = pt_trans h (Suc d) p va \<and> pt_missing h' (Suc d) p va = pt_missing h (Suc d) p va"
proof -
  have sub: "ptree h' d q (F j) \<and> pt_walk h' d q va = pt_walk h d q va \<and> pt_lookup h' d q va = pt_lookup h d q va \<and>
      pt_trans h' d q va = pt_trans h d q va \<and> pt_missing h' d q va = pt_missing h d q va"
    if "j < 512" "j \<noteq> i" "is_table (h (entry p j))" "q = phys2virt (PTE_PA (h (entry p j)))" for j q va
    by (rule ptree_frame) (use F(3) that sib in auto)
  have tables: "if is_table (h' (entry p j)) then ptree h' d (phys2virt (PTE_PA (h' (entry p j)))) ((F(i := X)) j)
        else (F(i := X)) j = {}" if "j < 512" for j
    using new(1,2) sub [OF that] cells [OF that] F(3) that by (cases "j = i") auto
  have dis: "block p 0 \<inter> (F(i := X)) j = {}" if "j < 512" for j
    using F(1) new(3) that by (auto simp: Int_commute)
  have dis2: "(F(i := X)) j \<inter> (F(i := X)) k = {}" if "j < 512" "k < 512" "j \<noteq> k" for j k
    using F(2) new(4) that by (auto simp: Int_commute)
  show "ptree h' (Suc d) p (block p 0 \<union> (\<Union>j \<in> {..<512}. (F(i := X)) j))"
    unfolding ptree.simps using ok tables dis dis2 by (intro conjI exI [of _ "F(i := X)"]) blast+
  show "pt_walk h' (Suc d) p va = pt_walk h (Suc d) p va \<and> pt_lookup h' (Suc d) p va = pt_lookup h (Suc d) p va \<and>
      pt_trans h' (Suc d) p va = pt_trans h (Suc d) p va \<and> pt_missing h' (Suc d) p va = pt_missing h (Suc d) p va"
    if "PIDX (2 - d) va \<noteq> i"
    using sub [OF PIDX_less that] cells [OF PIDX_less that] by (auto simp: pt_lookup_Suc Let_def)
qed

text \<open>
  The effect of a creating walk for the address \<open>w\<close>: the tree grows by the missing tables, which are
  taken from the allocator, no byte outside the old tree and the allocator's memory changes, every
  leaf entry is as before, and every translation too, but for the addresses that meet the new tables.
\<close>

definition grown :: "u64 \<Rightarrow> mstate \<Rightarrow> nat set \<Rightarrow> nat \<Rightarrow> u64 \<Rightarrow> nat set \<Rightarrow> mstate \<Rightarrow> nat set \<Rightarrow> nat set \<Rightarrow> bool" where
  "grown w s A d p M s' A' M' \<longleftrightarrow>
     zone_free s' A' \<and> A' \<subseteq> A \<and> card A \<le> card A' + 4096 * card (pt_missing (mem s) d p w) \<and>
     ptree (mem s') d p M' \<and> M \<subseteq> M' \<and> M' \<subseteq> M \<union> (A - A') \<and>
     (\<forall>va. pt_lookup (mem s') d p va = pt_lookup (mem s) d p va) \<and>
     (\<forall>va. pt_missing (mem s') d p va = pt_missing (mem s) d p va - pt_missing (mem s) d p w) \<and>
     (\<forall>va. pt_trans (mem s') d p va =
        (if pt_missing (mem s) d p va \<inter> pt_missing (mem s) d p w = {} then pt_trans (mem s) d p va else None)) \<and>
     (\<forall>va q. pt_walk (mem s) d p va = Some q \<longrightarrow> pt_walk (mem s') d p va = Some q) \<and>
     (\<forall>a. unat a \<notin> M \<union> A \<longrightarrow> mem s' a = mem s a)"

lemma grown_zone: "grown w s A d p M s' A' M' \<Longrightarrow> zone_free s' A' \<and> ptree (mem s') d p M'"
  by (simp add: grown_def)

lemma grown_disjoint: "grown w s A d p M s' A' M' \<Longrightarrow> M \<inter> A = {} \<Longrightarrow> M' \<inter> A' = {}"
  unfolding grown_def by blast

lemma linear_area_mono: "linear_area A \<Longrightarrow> A' \<subseteq> A \<Longrightarrow> linear_area A'"
  unfolding linear_area_def by blast

lemma card_block: "card (block p 0) = 4096"
  by (simp add: block_def block_size_def PAGESIZE_def)

lemma finite_block [simp]: "finite (block p k)"
  by (simp add: block_def)

lemma grown_step:
  assumes ok: "block_ok p 0" and M: "M = block p 0 \<union> (\<Union>j \<in> {..<512}. F j)" "M \<inter> A = {}"
    and F: "\<forall>j < 512. block p 0 \<inter> F j = {}" "\<forall>j < 512. \<forall>k < 512. j \<noteq> k \<longrightarrow> F j \<inter> F k = {}"
      "\<forall>j < 512. if is_table (mem s (entry p j)) then ptree (mem s) d (phys2virt (PTE_PA (mem s (entry p j)))) (F j)
                  else F j = {}"
    and i: "i < 512" "PIDX (2 - d) w = i" and A1: "A1 \<subseteq> A"
      "card A + 4096 * card (pt_missing (mem s1) d c w) \<le> card A1 + 4096 * card (pt_missing (mem s) (Suc d) p w)"
    and cells: "\<And>j. j < 512 \<Longrightarrow> j \<noteq> i \<Longrightarrow> mem s1 (entry p j) = mem s (entry p j)"
    and outside: "\<And>a. unat a \<notin> block p 0 \<union> A \<Longrightarrow> mem s1 a = mem s a"
    and e: "is_table (mem s1 (entry p i))" "c = phys2virt (PTE_PA (mem s1 (entry p i)))"
    and X: "F i \<subseteq> X" "X \<subseteq> F i \<union> (A - A1)" and g: "grown w s1 A1 d c X s' A' X'"
    and keep: "\<And>va. PIDX (2 - d) va = i \<Longrightarrow> pt_lookup (mem s1) d c va = pt_lookup (mem s) (Suc d) p va"
      "\<And>va q. PIDX (2 - d) va = i \<Longrightarrow> pt_walk (mem s) (Suc d) p va = Some q \<Longrightarrow> pt_walk (mem s1) d c va = Some q"
      "\<And>va. PIDX (2 - d) va = i \<Longrightarrow> (#) i ` (pt_missing (mem s1) d c va - pt_missing (mem s1) d c w) =
          pt_missing (mem s) (Suc d) p va - pt_missing (mem s) (Suc d) p w"
      "\<And>va. PIDX (2 - d) va = i \<Longrightarrow>
          (if pt_missing (mem s1) d c va \<inter> pt_missing (mem s1) d c w = {} then pt_trans (mem s1) d c va else None) =
          (if pt_missing (mem s) (Suc d) p va \<inter> pt_missing (mem s) (Suc d) p w = {} then pt_trans (mem s) (Suc d) p va else None)"
  shows "grown w s A (Suc d) p M s' A' (block p 0 \<union> (\<Union>j \<in> {..<512}. (F(i := X')) j))"
    and "PIDX (2 - d) va = i \<Longrightarrow> pt_walk (mem s') (Suc d) p va = pt_walk (mem s') d c va"
proof -
  have X': "X \<subseteq> X'" "X' \<subseteq> X \<union> (A1 - A')" "A' \<subseteq> A1" using g by (auto simp: grown_def)
  have inM: "block p 0 \<subseteq> M" "j < 512 \<Longrightarrow> F j \<subseteq> M" for j using M(1) by auto
  have dX: "X \<inter> block p 0 = {}" "j < 512 \<Longrightarrow> j \<noteq> i \<Longrightarrow> X \<inter> F j = {}" for j
    using X F(1,2) i M(2) inM by blast+
  have dX': "X' \<inter> block p 0 = {}" "j < 512 \<Longrightarrow> j \<noteq> i \<Longrightarrow> X' \<inter> F j = {}" for j
    using dX X'(2) A1(1) M(2) inM by blast+
  have root: "mem s' (entry p j) = mem s1 (entry p j)" if "j < 512" for j
  proof -
    have "unat (entry p j) \<notin> X \<union> A1"
      using entry_props(2) [OF ok that] dX(1) M(2) inM(1) A1(1) by blast
    then show ?thesis using g by (simp add: grown_def)
  qed
  have same: "mem s' a = mem s a" if "j < 512" "j \<noteq> i" "unat a \<in> F j" for j a
  proof -
    have "unat a \<notin> X \<union> A1" "unat a \<notin> block p 0 \<union> A"
      using that dX(2) F(1) M(2) inM A1(1) by blast+
    then show ?thesis using g outside by (simp add: grown_def)
  qed
  have child: "is_table (mem s' (entry p i))" "phys2virt (PTE_PA (mem s' (entry p i))) = c"
    using e root [OF i(1)] by simp_all
  note put = ptree_put [OF ok i(1) F, of "mem s'" X']
  have tree: "ptree (mem s') (Suc d) p (block p 0 \<union> (\<Union>j \<in> {..<512}. (F(i := X')) j))"
    by (rule put(1)) (use root cells same child g dX' in \<open>auto simp: grown_def\<close>)
  have other: "pt_walk (mem s') (Suc d) p va = pt_walk (mem s) (Suc d) p va \<and>
      pt_lookup (mem s') (Suc d) p va = pt_lookup (mem s) (Suc d) p va \<and>
      pt_trans (mem s') (Suc d) p va = pt_trans (mem s) (Suc d) p va \<and>
      pt_missing (mem s') (Suc d) p va = pt_missing (mem s) (Suc d) p va" if "PIDX (2 - d) va \<noteq> i" for va
    by (rule put(2)) (use root cells same child g dX' that in \<open>auto simp: grown_def\<close>)
  have mine: "pt_walk (mem s') (Suc d) p va = pt_walk (mem s') d c va"
    "pt_lookup (mem s') (Suc d) p va = pt_lookup (mem s') d c va"
    "pt_trans (mem s') (Suc d) p va = pt_trans (mem s') d c va"
    "pt_missing (mem s') (Suc d) p va = (#) i ` pt_missing (mem s') d c va" if "PIDX (2 - d) va = i" for va
    using child that by (simp_all add: pt_lookup_Suc Let_def)
  show "PIDX (2 - d) va = i \<Longrightarrow> pt_walk (mem s') (Suc d) p va = pt_walk (mem s') d c va"
    by (rule mine(1))
  have look: "pt_lookup (mem s') (Suc d) p va = pt_lookup (mem s) (Suc d) p va" for va
    using other mine(2) keep(1) g by (cases "PIDX (2 - d) va = i") (auto simp: grown_def)
  have apart: "pt_missing (mem s) (Suc d) p va \<inter> pt_missing (mem s) (Suc d) p w = {}" if "PIDX (2 - d) va \<noteq> i" for va
    using missing_head i(2) that by (metis disjoint_iff list.inject)
  have miss: "pt_missing (mem s') (Suc d) p va = pt_missing (mem s) (Suc d) p va - pt_missing (mem s) (Suc d) p w" for va
  proof (cases "PIDX (2 - d) va = i")
    case True
    then show ?thesis using mine(4) keep(3) g by (simp add: grown_def)
  next
    case False
    then show ?thesis using other apart by blast
  qed
  have trans: "pt_trans (mem s') (Suc d) p va =
      (if pt_missing (mem s) (Suc d) p va \<inter> pt_missing (mem s) (Suc d) p w = {} then pt_trans (mem s) (Suc d) p va else None)" for va
  proof (cases "PIDX (2 - d) va = i")
    case True
    then show ?thesis using mine(3) keep(4) g by (simp add: grown_def)
  next
    case False
    then show ?thesis using other apart by auto
  qed
  have walk: "pt_walk (mem s') (Suc d) p va = Some q" if "pt_walk (mem s) (Suc d) p va = Some q" for va q
  proof (cases "PIDX (2 - d) va = i")
    case True
    then show ?thesis using mine(1) keep(2) g that unfolding grown_def by metis
  next
    case False
    then show ?thesis using other that by simp
  qed
  have frame: "mem s' a = mem s a" if "unat a \<notin> M \<union> A" for a
  proof -
    have "unat a \<notin> X \<union> A1" "unat a \<notin> block p 0 \<union> A"
      using that X(2) inM i A1(1) by blast+
    then show ?thesis using g outside by (simp add: grown_def)
  qed
  have upper: "block p 0 \<union> (\<Union>j \<in> {..<512}. (F(i := X')) j) \<subseteq> M \<union> (A - A')"
  proof -
    have "X' \<subseteq> M \<union> (A - A')" using X(2) X'(2,3) A1(1) inM(2) [OF i(1)] by blast
    moreover have "block p 0 \<union> (\<Union>j \<in> {..<512}. (F(i := X')) j) \<subseteq> M \<union> X'"
      unfolding M(1) by (auto split: if_splits)
    ultimately show ?thesis by blast
  qed
  have lower: "M \<subseteq> block p 0 \<union> (\<Union>j \<in> {..<512}. (F(i := X')) j)"
    using X(1) X'(1) M(1) by (auto split: if_splits)
  have rest: "card A \<le> card A' + 4096 * card (pt_missing (mem s) (Suc d) p w)" "zone_free s' A'" "A' \<subseteq> A"
    using A1 X'(3) g by (auto simp: grown_def)
  show "grown w s A (Suc d) p M s' A' (block p 0 \<union> (\<Union>j \<in> {..<512}. (F(i := X')) j))"
    unfolding grown_def
    by (intro conjI allI impI; (rule rest tree look lower upper miss trans | erule walk | erule frame))
qed

lemma pagewalk_create:
  "zone_free s A \<Longrightarrow> linear_area A \<Longrightarrow> ptree (mem s) d p M \<Longrightarrow> M \<inter> A = {} \<Longrightarrow>
   4096 * card (pt_missing (mem s) d p va) \<le> card A \<Longrightarrow>
   \<exists>q s' A' M'. pagewalk_levels pv True va d s p = Inr (q, s') \<and> grown va s A d p M s' A' M' \<and>
      pt_walk (mem s') d p va = Some q"
proof (induction d arbitrary: s A p M)
  case 0
  then show ?case
    by (auto simp: grown_def entry_def intro!: exI [of _ A])
next
  case (Suc d)
  obtain F where M: "M = block p 0 \<union> (\<Union>i \<in> {..<512}. F i)" and F: "\<forall>i < 512. block p 0 \<inter> F i = {}"
    "\<forall>i < 512. \<forall>j < 512. i \<noteq> j \<longrightarrow> F i \<inter> F j = {}"
    "\<forall>i < 512. if is_table (mem s (entry p i)) then ptree (mem s) d (phys2virt (PTE_PA (mem s (entry p i)))) (F i) else F i = {}"
    and ok: "block_ok p 0"
    using Suc.prems(3) by auto
  define i where "i = PIDX (2 - d) va"
  have i: "i < 512" "PIDX (2 - d) va = i" unfolding i_def by (simp_all add: PIDX_less)
  note step = grown_step [OF ok M Suc.prems(4) F i]
  show ?case
  proof (cases "is_table (mem s (entry p i))")
    case True
    let ?c = "phys2virt (PTE_PA (mem s (entry p i)))"
    have t: "ptree (mem s) d ?c (F i)" using F(3) i True by auto
    have dA: "F i \<inter> A = {}" using Suc.prems(4) M i by auto
    have m: "pt_missing (mem s) (Suc d) p v = (#) i ` pt_missing (mem s) d ?c v"
      "pt_trans (mem s) (Suc d) p v = pt_trans (mem s) d ?c v" if "PIDX (2 - d) v = i" for v
      using True that by (simp_all add: Let_def)
    have cm: "card (pt_missing (mem s) (Suc d) p va) = card (pt_missing (mem s) d ?c va)"
      by (simp add: m(1) [OF i(2)] card_image del: pt_missing.simps)
    obtain q s' A' X' where r: "pagewalk_levels pv True va d s ?c = Inr (q, s')"
      and g: "grown va s A d ?c (F i) s' A' X'" and w: "pt_walk (mem s') d ?c va = Some q"
      using Suc.IH [OF Suc.prems(1,2) t dA] Suc.prems(5) cm by auto
    have di: "(#) i ` (X - Y) = (#) i ` X - (#) i ` Y" "(#) i ` X \<inter> (#) i ` Y = {} \<longleftrightarrow> X \<inter> Y = {}"
      for X Y :: "u64 list set" by auto
    note st = step [where ?s1.0 = s and ?A1.0 = A and X = "F i" and c = ?c, OF _ _ _ _ True _ _ _ g]
    have keep: "pt_lookup (mem s) d ?c v = pt_lookup (mem s) (Suc d) p v"
      "pt_walk (mem s) (Suc d) p v = Some q \<Longrightarrow> pt_walk (mem s) d ?c v = Some q"
      "(#) i ` (pt_missing (mem s) d ?c v - pt_missing (mem s) d ?c va) =
          pt_missing (mem s) (Suc d) p v - pt_missing (mem s) (Suc d) p va"
      "(if pt_missing (mem s) d ?c v \<inter> pt_missing (mem s) d ?c va = {} then pt_trans (mem s) d ?c v else None) =
          (if pt_missing (mem s) (Suc d) p v \<inter> pt_missing (mem s) (Suc d) p va = {} then pt_trans (mem s) (Suc d) p v else None)"
      if "PIDX (2 - d) v = i" for v q
      using True that unfolding m [OF that] m(1) [OF i(2)] di by (simp_all add: pt_lookup_Suc Let_def)
    have "grown va s A (Suc d) p M s' A' (block p 0 \<union> (\<Union>j \<in> {..<512}. (F(i := X')) j))"
      by (rule st(1)) (use cm in \<open>auto simp: keep\<close>)
    moreover have "pt_walk (mem s') (Suc d) p va = pt_walk (mem s') d ?c va"
      by (rule st(2)) (use cm i(2) in \<open>auto simp: keep\<close>)
    moreover have "pagewalk_levels pv True va (Suc d) s p = Inr (q, s')"
      using r True by (simp add: i_def entry_def)
    ultimately show ?thesis using w by metis
  next
    case False
    have ms: "pt_missing (mem s) (Suc d) p v = pt_paths (Suc d) v" if "PIDX (2 - d) v = i" for v
      using False that by (simp add: Let_def)
    have cp: "card (pt_missing (mem s) (Suc d) p va) = Suc d" unfolding ms [OF i(2)] by (rule card_paths)
    obtain t s1 where al: "alloc_page s = Inr (t, s1)" using pa.alloc_returns [OF Suc.prems(1)] by blast
    have t0: "t \<noteq> 0" using pa.alloc_none [OF Suc.prems(1)] al Suc.prems(5) unfolding cp by fastforce
    note t = pa.alloc_some [OF Suc.prems(1) al t0]
    let ?e = "PTE_PA (virt2phys pv t) OR (PTE_TABLE OR PTE_VALID)" and ?A = "A - block t 0"
    let ?s = "pte_set_table s1 (entry p i) (virt2phys pv t)"
    have m: "mem ?s = (mem s1)(entry p i := ?e)"
      by (simp add: pte_set_table_def pte_update_def write_cell_def)
    note te = table_entry [OF _ _ Suc.prems(2), of t pv]
    have notA: "unat (entry p i) \<notin> A" using entry_props(2) [OF ok i(1)] Suc.prems(4) M by auto
    have z: "zone_free ?s ?A"
      unfolding pte_set_table_def pte_update_def by (rule pa.wr_wf) (use t notA in auto)
    have zero: "mem ?s a = 0" if "aligned8 a" "unat a \<in> block t 0" for a
      using pa.alloc_zero [OF Suc.prems(1) al t0 that] that t notA by (auto simp: m)
    have tok: "block_ok t 0" using t by blast
    note zt = zero_table [of t "mem ?s", OF tok zero]
    have pz: "pt_missing (mem ?s) d t v = pt_paths d v" for v by (rule zt(4))
    have fin: "finite A" using pa.finite_area [OF Suc.prems(1)] .
    have "card ?A = card A - 4096" using t card_Diff_subset [of "block t 0" A] by (simp add: card_block)
    then have c: "4096 * d \<le> card ?A" "card A \<le> card ?A + 4096" using Suc.prems(5) cp by auto
    have cm: "4096 * card (pt_missing (mem ?s) d t va) \<le> card ?A" "card (pt_missing (mem ?s) d t va) = d"
      using c(1) by (simp_all add: zt(4) card_paths)
    obtain q s' A' X' where r: "pagewalk_levels pv True va d ?s t = Inr (q, s')"
      and g: "grown va ?s ?A d t (block t 0) s' A' X'" and w: "pt_walk (mem s') d t va = Some q"
      using Suc.IH [OF z linear_area_mono [OF Suc.prems(2)] zt(1) _ cm(1)] by blast
    have Fi: "F i = {}" using F(3) i False by auto
    have out: "mem ?s a = mem s a" if "unat a \<notin> block p 0 \<union> A" for a
      using pa.alloc_frame [OF Suc.prems(1) al, of a] that entry_props(2) [OF ok i(1)] by (auto simp: m)
    have cells: "mem ?s (entry p j) = mem s (entry p j)" if j: "j < 512" "j \<noteq> i" for j
    proof -
      have "unat (entry p j) \<notin> A" using entry_props(2) [OF ok j(1)] Suc.prems(4) M by auto
      then show ?thesis
        using pa.alloc_frame [OF Suc.prems(1) al] entry_inj [OF ok j(1) i(1)] j(2) by (simp add: m)
    qed
    have e: "is_table (mem ?s (entry p i))" "t = phys2virt (PTE_PA (mem ?s (entry p i)))"
      using te t by (simp_all add: m)
    have keep: "pt_lookup (mem ?s) d t v = pt_lookup (mem s) (Suc d) p v"
      "pt_walk (mem s) (Suc d) p v = None"
      "(#) i ` (pt_missing (mem ?s) d t v - pt_missing (mem ?s) d t va) =
          pt_missing (mem s) (Suc d) p v - pt_missing (mem s) (Suc d) p va"
      "(if pt_missing (mem ?s) d t v \<inter> pt_missing (mem ?s) d t va = {} then pt_trans (mem ?s) d t v else None) =
          (if pt_missing (mem s) (Suc d) p v \<inter> pt_missing (mem s) (Suc d) p va = {} then pt_trans (mem s) (Suc d) p v else None)"
      if v: "PIDX (2 - d) v = i" for v
    proof -
      have "[i] \<in> pt_missing (mem s) (Suc d) p v \<inter> pt_missing (mem s) (Suc d) p va"
        unfolding ms [OF v] ms [OF i(2)] using v i(2) by simp
      then show "(if pt_missing (mem ?s) d t v \<inter> pt_missing (mem ?s) d t va = {} then pt_trans (mem ?s) d t v else None) =
          (if pt_missing (mem s) (Suc d) p v \<inter> pt_missing (mem s) (Suc d) p va = {} then pt_trans (mem s) (Suc d) p v else None)"
        using zt(3) by (auto simp del: pt_trans.simps pt_missing.simps)
      show "(#) i ` (pt_missing (mem ?s) d t v - pt_missing (mem ?s) d t va) =
          pt_missing (mem s) (Suc d) p v - pt_missing (mem s) (Suc d) p va"
        unfolding ms [OF v] ms [OF i(2)] pz using v i(2) by (auto dest: paths_cons)
    qed (use zt(2) that False in \<open>simp_all add: pt_lookup_Suc\<close>)
    have room: "card A + 4096 * card (pt_missing (mem ?s) d t va) \<le> card ?A + 4096 * card (pt_missing (mem s) (Suc d) p va)"
      using c(2) unfolding cp cm(2) by simp
    note st = step [where ?s1.0 = ?s and ?A1.0 = ?A and X = "block t 0", OF _ room cells out e _ _ g]
    have "grown va s A (Suc d) p M s' A' (block p 0 \<union> (\<Union>j \<in> {..<512}. (F(i := X')) j))"
      by (rule st(1)) (use Fi t in \<open>auto simp: keep simp del: pt_walk.simps pt_missing.simps pt_trans.simps\<close>)
    moreover have "pt_walk (mem s') (Suc d) p va = pt_walk (mem s') d t va"
      by (rule st(2)) (use Fi t i(2) in \<open>auto simp: keep simp del: pt_walk.simps pt_missing.simps pt_trans.simps\<close>)
    moreover have "pagewalk_levels pv True va (Suc d) s p = Inr (q, s')"
      using r False al t0 by (simp add: i_def entry_def)
    ultimately show ?thesis using w by metis
  qed
qed

section \<open>Leaf entries\<close>

lemma leaf_in_tree: "ptree h d p M \<Longrightarrow> pt_walk h d p va = Some q \<Longrightarrow> unat q \<in> M \<and> q \<noteq> 0"
proof (induction d arbitrary: p M)
  case 0
  then show ?case using entry_props(2,4) [of p "PIDX 3 va"] PIDX_less by auto
next
  case (Suc d)
  then obtain F where F: "M = block p 0 \<union> (\<Union>i \<in> {..<512}. F i)"
    "\<forall>i < 512. if is_table (h (entry p i)) then ptree h d (phys2virt (PTE_PA (h (entry p i)))) (F i) else F i = {}"
    by auto
  have "unat q \<in> F (PIDX (2 - d) va) \<and> q \<noteq> 0"
    by (rule Suc.IH) (use Suc.prems(2) F(2) PIDX_less [of "2 - d" va] in \<open>auto simp: Let_def split: if_splits\<close>)
  then show ?case using F(1) PIDX_less by auto
qed

lemma pagewalk_lookup:
  "pagewalk_levels pv False va d s p = Inr (case pt_walk (mem s) d p va of None \<Rightarrow> 0 | Some q \<Rightarrow> q, s)"
  by (induction d arbitrary: p) (auto simp: entry_def Let_def)

lemma ptree_store:
  "ptree h d p M \<Longrightarrow> pt_walk h d p va = Some q \<Longrightarrow>
   ptree (h(q := v)) d p M \<and> pt_walk (h(q := v)) d p va' = pt_walk h d p va' \<and>
   pt_missing (h(q := v)) d p va' = pt_missing h d p va' \<and>
   (pt_walk h d p va' = None \<longrightarrow> pt_trans (h(q := v)) d p va' = pt_trans h d p va')"
proof (induction d arbitrary: p M va')
  case 0
  then show ?case by simp
next
  case (Suc d)
  then obtain F where F: "M = block p 0 \<union> (\<Union>i \<in> {..<512}. F i)" "\<forall>i < 512. block p 0 \<inter> F i = {}"
    "\<forall>i < 512. \<forall>j < 512. i \<noteq> j \<longrightarrow> F i \<inter> F j = {}"
    "\<forall>i < 512. if is_table (h (entry p i)) then ptree h d (phys2virt (PTE_PA (h (entry p i)))) (F i) else F i = {}"
    and ok: "block_ok p 0" by auto
  let ?i = "PIDX (2 - d) va" and ?h = "h(q := v)"
  let ?c = "\<lambda>i. phys2virt (PTE_PA (h (entry p i)))"
  have t: "is_table (h (entry p ?i))" and w: "pt_walk h d (?c ?i) va = Some q"
    using Suc.prems(2) by (auto simp: Let_def split: if_splits)
  have ti: "ptree h d (?c ?i) (F ?i)" using F(4) t PIDX_less by auto
  have q: "unat q \<in> F ?i" using leaf_in_tree [OF ti w] by blast
  have e: "?h (entry p i) = h (entry p i)" if "i < 512" for i
    using entry_props(2) [OF ok that] q F(2) PIDX_less by auto
  have sub: "ptree ?h d (?c i) (F i) \<and> pt_walk ?h d (?c i) va' = pt_walk h d (?c i) va' \<and>
      pt_missing ?h d (?c i) va' = pt_missing h d (?c i) va' \<and>
      (pt_walk h d (?c i) va' = None \<longrightarrow> pt_trans ?h d (?c i) va' = pt_trans h d (?c i) va')"
    if i: "i < 512" "is_table (h (entry p i))" for i va'
  proof (cases "i = ?i")
    case True
    show ?thesis unfolding True by (rule Suc.IH [OF ti w])
  next
    case False
    then have "?h a = h a" if "unat a \<in> F i" for a
      using that F(3) q i(1) PIDX_less by auto
    then show ?thesis using ptree_frame [of h d "?c i" "F i" ?h] F(4) i by auto
  qed
  have "ptree ?h (Suc d) p M"
    unfolding ptree.simps using ok F sub e by (intro conjI exI [of _ F]) auto
  moreover have "pt_walk ?h (Suc d) p va' = pt_walk h (Suc d) p va' \<and>
      pt_missing ?h (Suc d) p va' = pt_missing h (Suc d) p va' \<and>
      (pt_walk h (Suc d) p va' = None \<longrightarrow> pt_trans ?h (Suc d) p va' = pt_trans h (Suc d) p va')"
    using e [OF PIDX_less] sub [OF PIDX_less] by (simp add: Let_def del: fun_upd_apply)
  ultimately show ?case by blast
qed

lemma walk_inj:
  "ptree h d p M \<Longrightarrow> d \<le> 3 \<Longrightarrow> pt_walk h d p va = Some q \<Longrightarrow> pt_walk h d p va' = Some q \<Longrightarrow>
   3 - d \<le> l \<Longrightarrow> l \<le> 3 \<Longrightarrow> PIDX l va = PIDX l va'"
proof (induction d arbitrary: p M)
  case 0
  then show ?case using entry_inj [of p "PIDX 3 va" "PIDX 3 va'"] PIDX_less by auto
next
  case (Suc d)
  then obtain F where F: "\<forall>i < 512. \<forall>j < 512. i \<noteq> j \<longrightarrow> F i \<inter> F j = {}"
    "\<forall>i < 512. if is_table (h (entry p i)) then ptree h d (phys2virt (PTE_PA (h (entry p i)))) (F i) else F i = {}"
    by auto
  let ?i = "PIDX (2 - d) va" and ?j = "PIDX (2 - d) va'"
  let ?c = "\<lambda>i. phys2virt (PTE_PA (h (entry p i)))"
  have w: "is_table (h (entry p ?i))" "pt_walk h d (?c ?i) va = Some q"
     "is_table (h (entry p ?j))" "pt_walk h d (?c ?j) va' = Some q"
    using Suc.prems(3,4) by (auto simp: Let_def split: if_splits)
  have ti: "ptree h d (?c ?i) (F ?i)" and tj: "ptree h d (?c ?j) (F ?j)"
    using F(2) w PIDX_less by auto
  have "unat q \<in> F ?i \<inter> F ?j" using leaf_in_tree [OF ti w(2)] leaf_in_tree [OF tj w(4)] by blast
  then have eq: "?i = ?j" using F(1) PIDX_less by blast
  show ?case
  proof (cases "l = 2 - d")
    case True
    then show ?thesis using eq by simp
  next
    case False
    then have "3 - d \<le> l" using Suc.prems(5) by simp
    then show ?thesis using Suc.IH [OF ti _ w(2)] w(4) eq Suc.prems(2,6) by simp
  qed
qed

text \<open>Two addresses of a \<open>21 + 9 d\<close> bit space with the same indices are in the same page.\<close>

definition page_no :: "u64 \<Rightarrow> u64" where
  "page_no va = drop_bit 12 va"

lemma bit_PIDX: "bit (PIDX l va) n \<longleftrightarrow> bit va (39 - l * 9 + n) \<and> n < 9"
  unfolding PIDX_def by (auto simp: bit_and_iff bit_drop_bit_eq bit_numeral_u64 simp del: bit_numeral_word_iff)

lemma same_indices_same_page:
  assumes "d \<le> 3" and "va < 2 ^ (21 + 9 * d)" and "va' < 2 ^ (21 + 9 * d)"
    and "\<And>l. 3 - d \<le> l \<Longrightarrow> l \<le> 3 \<Longrightarrow> PIDX l va = PIDX l va'"
  shows "page_no va = page_no va'"
proof (rule bit_word_eqI)
  fix n
  have small: "take_bit (21 + 9 * d) v = v" if "v < 2 ^ (21 + 9 * d)" for v :: u64
  proof -
    have "unat v < 2 ^ (21 + 9 * d)"
      using that assms(1) unat_exp64 [of "21 + 9 * d"] by (simp add: word_less_nat_alt)
    then show ?thesis by (simp add: word_unat_eq_iff unsigned_take_bit_eq take_bit_nat_eq_self)
  qed
  have hi: "\<not> bit v (12 + n)" if "v < 2 ^ (21 + 9 * d)" "\<not> n < 9 + 9 * d" for v :: u64
    using bit_take_bit_iff [of "21 + 9 * d" v "12 + n", unfolded small [OF that(1)]] that(2) by simp
  show "bit (page_no va) n = bit (page_no va') n"
  proof (cases "n < 9 + 9 * d")
    case True
    let ?k = "n div 9"
    have k: "?k \<le> d" using True by auto
    have "39 - (3 - ?k) * 9 + n mod 9 = 12 + n"
      using k assms(1) div_mult_mod_eq [of n 9] by linarith
    moreover have "PIDX (3 - ?k) va = PIDX (3 - ?k) va'"
      by (rule assms(4)) (use k in auto)
    ultimately show ?thesis
      using bit_PIDX [of "3 - ?k" va "n mod 9"] bit_PIDX [of "3 - ?k" va' "n mod 9"]
      by (simp add: page_no_def bit_drop_bit_eq)
  next
    case False
    then show ?thesis using hi [OF assms(2)] hi [OF assms(3)] by (simp add: page_no_def bit_drop_bit_eq)
  qed
qed

lemma same_page_same_index:
  assumes "page_no va = page_no va'" and "l \<le> 3"
  shows "PIDX l va = PIDX l va'"
proof -
  have "drop_bit (39 - l * 9) v = drop_bit (27 - l * 9) (page_no v)" for v
    using assms(2) by (simp add: page_no_def drop_bit_drop_bit)
  then show ?thesis using assms(1) by (simp add: PIDX_def)
qed

lemma same_page_same_walk:
  "page_no va = page_no va' \<Longrightarrow> d \<le> 3 \<Longrightarrow> pt_walk h d p va = pt_walk h d p va'"
  by (induction d arbitrary: p) (simp_all add: Let_def same_page_same_index [of va va'])

lemma same_page_same_paths: "page_no va = page_no va' \<Longrightarrow> d \<le> 3 \<Longrightarrow> pt_paths d va = pt_paths d va'"
  by (induction d) (simp_all add: same_page_same_index [of va va'])

lemma same_page_same_missing:
  "page_no va = page_no va' \<Longrightarrow> d \<le> 3 \<Longrightarrow> pt_missing h d p va = pt_missing h d p va'"
proof (induction d arbitrary: p)
  case (Suc d)
  then show ?case
    using same_page_same_index [of va va' "2 - d"] same_page_same_paths [of va va' "Suc d"]
    by (simp add: Let_def del: pt_paths.simps)
qed simp

section \<open>Mapping a range\<close>

text \<open>A well-formed table whose pages the allocator does not own.\<close>

definition pt_state :: "mstate \<Rightarrow> nat set \<Rightarrow> nat \<Rightarrow> u64 \<Rightarrow> nat set \<Rightarrow> bool" where
  "pt_state s A d pgt M \<longleftrightarrow>
     zone_free s A \<and> linear_area A \<and> ptree (mem s) d pgt M \<and> M \<inter> A = {} \<and> d \<le> 3"

definition va_space :: "nat \<Rightarrow> nat" where
  "va_space d = 2 ^ (21 + 9 * d)"

lemma page_no_div: "unat (page_no v) = unat v div 4096"
  by (simp add: page_no_def drop_bit_eq_div unat_div)

lemma page_no_range:
  assumes "PAGE_ALIGNED va" and "unat va + 4096 \<le> 2 ^ 64"
  shows "page_no v = page_no va \<longleftrightarrow> unat va \<le> unat v \<and> unat v < unat va + 4096"
proof -
  obtain k where k: "unat va = 4096 * k" using assms(1) by (auto simp: page_aligned_unat dvd_def)
  have "page_no v = page_no va \<longleftrightarrow> unat v div 4096 = k"
    by (simp add: word_unat_eq_iff page_no_div k)
  also have "\<dots> \<longleftrightarrow> 4096 * k \<le> unat v \<and> unat v < 4096 * k + 4096"
    by auto
  finally show ?thesis by (simp add: k)
qed

lemma page_address_page_no: "PAGE_ADDRESS v = push_bit 12 (page_no v)"
proof -
  have m: "(of_nat PAGESIZE :: u64) - 1 = mask 12"
    by (simp add: PAGESIZE_def mask_eq_exp_minus_1)
  show ?thesis
    unfolding PAGE_ADDRESS_def m by (rule bit_word_eqI) (auto simp: page_no_def bit_simps)
qed

lemma va_space_word: "d \<le> 3 \<Longrightarrow> unat (v :: u64) < va_space d \<longleftrightarrow> v < 2 ^ (21 + 9 * d)"
  using unat_exp64 [of "21 + 9 * d"] by (simp add: va_space_def word_less_nat_alt)

lemma pt_lookup_store:
  assumes "ptree h d p M" and "d \<le> 3" and "pt_walk h d p va = Some q"
    and "unat va < va_space d" and "unat va' < va_space d"
  shows "pt_lookup (h(q := v)) d p va' = (if page_no va' = page_no va then v else pt_lookup h d p va')"
proof (cases "page_no va' = page_no va")
  case True
  then show ?thesis
    using ptree_store [OF assms(1,3), of v va'] same_page_same_walk [OF True assms(2)] assms(3)
    by (simp add: pt_lookup_def)
next
  case False
  have "pt_walk h d p va' \<noteq> Some q"
  proof
    assume w: "pt_walk h d p va' = Some q"
    have "page_no va = page_no va'"
      by (rule same_indices_same_page [OF assms(2)])
        (use assms(4,5) va_space_word [OF assms(2)] walk_inj [OF assms(1,2,3) w] in blast)+
    then show False using False by simp
  qed
  then show ?thesis
    using ptree_store [OF assms(1,3), of v va'] False
    by (auto simp: pt_lookup_def split: option.splits)
qed

lemma trans_leaf:
  "pt_walk h d p va = Some q \<Longrightarrow> pt_trans h d p va = (if h q AND PTE_V = PTE_V then Some (0, h q) else None)"
  by (induction d arbitrary: p) (auto simp: Let_def split: if_splits)

lemma pt_trans_store:
  assumes "ptree h d p M" and "d \<le> 3" and "pt_walk h d p va = Some q"
    and "unat va < va_space d" and "unat va' < va_space d"
  shows "pt_trans (h(q := v)) d p va' =
     (if page_no va' = page_no va then if v AND PTE_V = PTE_V then Some (0, v) else None else pt_trans h d p va')"
proof (cases "pt_walk h d p va'")
  case None
  then have "page_no va' \<noteq> page_no va" using same_page_same_walk [OF _ assms(2), of va' va h p] assms(3) by auto
  then show ?thesis using ptree_store [OF assms(1,3), of v va'] None by simp
next
  case (Some q')
  have "pt_walk (h(q := v)) d p va' = Some q'" using ptree_store [OF assms(1,3), of v va'] Some by simp
  then show ?thesis
    using trans_leaf [of "h(q := v)" d p va' q'] trans_leaf [OF Some] pt_lookup_store [OF assms, of v] Some
    by (simp add: pt_lookup_def)
qed

lemma entry_valid: "(x OR (flags OR PTE_V OR PTE_AF)) AND PTE_V = PTE_V"
  by (rule bit_word_eqI) (auto simp: bit_simps)

lemma map_one:
  assumes "pt_state s A d pgt M" and "4096 * card (pt_missing (mem s) d pgt va) \<le> card A" and "unat va < va_space d"
  shows "\<exists>q s1 A' M'. pagewalk_levels pv True va d s pgt = Inr (q, s1) \<and>
     mem s1 q = pt_lookup (mem s) d pgt va \<and> A' \<subseteq> A \<and> card A \<le> card A' + 4096 * card (pt_missing (mem s) d pgt va) \<and>
     (\<forall>pa flags. let s2 = pte_set_entry s1 q pa flags in
        pt_state s2 A' d pgt M' \<and> M' \<subseteq> M \<union> A \<and>
        (\<forall>va'. unat va' < va_space d \<longrightarrow> pt_lookup (mem s2) d pgt va' =
           (if page_no va' = page_no va then PTE_PA pa OR (flags OR PTE_V OR PTE_AF)
            else pt_lookup (mem s) d pgt va')) \<and>
        (\<forall>va'. pt_missing (mem s2) d pgt va' = pt_missing (mem s) d pgt va' - pt_missing (mem s) d pgt va) \<and>
        (\<forall>va'. unat va' < va_space d \<longrightarrow> pt_trans (mem s2) d pgt va' =
           (if page_no va' = page_no va then Some (0, PTE_PA pa OR (flags OR PTE_V OR PTE_AF))
            else if pt_missing (mem s) d pgt va' \<inter> pt_missing (mem s) d pgt va = {} then pt_trans (mem s) d pgt va'
            else None)) \<and>
        (\<forall>a. unat a \<notin> M \<union> A \<longrightarrow> mem s2 a = mem s a))"
proof -
  have pre: "zone_free s A" "linear_area A" "ptree (mem s) d pgt M" "M \<inter> A = {}" "d \<le> 3"
    using assms(1) by (simp_all add: pt_state_def)
  obtain q s1 A' M' where r: "pagewalk_levels pv True va d s pgt = Inr (q, s1)"
    and g: "grown va s A d pgt M s1 A' M'" and w: "pt_walk (mem s1) d pgt va = Some q"
    using pagewalk_create [OF pre(1-4) assms(2)] by blast
  have t: "ptree (mem s1) d pgt M'" "zone_free s1 A'" "A' \<subseteq> A" "M' \<subseteq> M \<union> (A - A')"
    "card A \<le> card A' + 4096 * card (pt_missing (mem s) d pgt va)" and look: "\<And>v. pt_lookup (mem s1) d pgt v = pt_lookup (mem s) d pgt v"
    and frame: "\<And>a. unat a \<notin> M \<union> A \<Longrightarrow> mem s1 a = mem s a"
    and miss: "\<And>v. pt_missing (mem s1) d pgt v = pt_missing (mem s) d pgt v - pt_missing (mem s) d pgt va"
    and trans: "\<And>v. pt_trans (mem s1) d pgt v =
        (if pt_missing (mem s) d pgt v \<inter> pt_missing (mem s) d pgt va = {} then pt_trans (mem s) d pgt v else None)"
    using g by (auto simp: grown_def)
  have sub: "M' \<subseteq> M \<union> A" using t(4) by blast
  have q: "unat q \<in> M'" using leaf_in_tree [OF t(1) w] by blast
  have dis: "M' \<inter> A' = {}" using grown_disjoint [OF g pre(4)] .
  have val: "mem s1 q = pt_lookup (mem s) d pgt va" using look [of va] w by (simp add: pt_lookup_def)
  have "let s2 = pte_set_entry s1 q pa flags in
        pt_state s2 A' d pgt M' \<and> M' \<subseteq> M \<union> A \<and>
        (\<forall>va'. unat va' < va_space d \<longrightarrow> pt_lookup (mem s2) d pgt va' =
           (if page_no va' = page_no va then PTE_PA pa OR (flags OR PTE_V OR PTE_AF)
            else pt_lookup (mem s) d pgt va')) \<and>
        (\<forall>va'. pt_missing (mem s2) d pgt va' = pt_missing (mem s) d pgt va' - pt_missing (mem s) d pgt va) \<and>
        (\<forall>va'. unat va' < va_space d \<longrightarrow> pt_trans (mem s2) d pgt va' =
           (if page_no va' = page_no va then Some (0, PTE_PA pa OR (flags OR PTE_V OR PTE_AF))
            else if pt_missing (mem s) d pgt va' \<inter> pt_missing (mem s) d pgt va = {} then pt_trans (mem s) d pgt va'
            else None)) \<and>
        (\<forall>a. unat a \<notin> M \<union> A \<longrightarrow> mem s2 a = mem s a)" for pa flags
  proof -
    let ?v = "PTE_PA pa OR (flags OR PTE_V OR PTE_AF)"
    have s2: "pte_set_entry s1 q pa flags = write_cell s1 q ?v"
      by (simp add: pte_set_entry_def pte_update_def)
    have m: "mem (write_cell s1 q ?v) = (mem s1)(q := ?v)" by (simp add: write_cell_def)
    have "zone_free (write_cell s1 q ?v) A'"
      by (rule pa.wr_wf) (use t(2) dis q in auto)
    then have "pt_state (write_cell s1 q ?v) A' d pgt M'"
      using ptree_store [OF t(1) w, of ?v] linear_area_mono [OF pre(2) t(3)] dis pre(5)
      by (simp add: pt_state_def m)
    moreover have "((mem s1)(q := ?v)) a = mem s a" if "unat a \<notin> M \<union> A" for a
      using frame [OF that] q t(4) that by auto
    ultimately show ?thesis
      using pt_lookup_store [OF t(1) pre(5) w assms(3)] pt_trans_store [OF t(1) pre(5) w assms(3), of _ ?v]
        ptree_store [OF t(1) w, of ?v] look sub entry_valid
      unfolding s2 Let_def m by (simp add: miss trans)
  qed
  then show ?thesis using r val t(3,5) by blast
qed

definition mapped_pte :: "u64 \<Rightarrow> physaddr \<Rightarrow> u64 \<Rightarrow> u64 \<Rightarrow> u64" where
  "mapped_pte va pa flags va' = PTE_PA (pa + (PAGE_ADDRESS va' - va)) OR (flags OR PTE_V OR PTE_AF)"

definition va_range :: "u64 \<Rightarrow> nat \<Rightarrow> u64 set" where
  "va_range va n = {v. unat va \<le> unat v \<and> unat v < unat va + n}"

definition is_block :: "(nat \<times> u64) option \<Rightarrow> bool" where
  "is_block t \<longleftrightarrow> (case t of None \<Rightarrow> False | Some (k, e) \<Rightarrow> 0 < k)"

definition no_block :: "heap \<Rightarrow> nat \<Rightarrow> u64 \<Rightarrow> u64 set \<Rightarrow> bool" where
  "no_block h d p V \<longleftrightarrow> (\<forall>v \<in> V. \<forall>k e. pt_trans h d p v = Some (k, e) \<longrightarrow> k = 0)"

lemma leaf_trans_walk: "pt_trans h d p v = Some (0, e) \<Longrightarrow> pt_missing h d p v = {}"
  by (induction d arbitrary: p) (auto simp: Let_def split: if_splits)

lemma shared_none:
  assumes "no_block h d p V" and "v \<in> V" and "pt_missing h d p w \<inter> pt_missing h d p v \<noteq> {}"
  shows "pt_trans h d p w = None"
proof -
  have "pt_trans h d p w = pt_trans h d p v" using shared_slot assms(3) by blast
  moreover have "pt_trans h d p v = None"
    using assms leaf_trans_walk [of h d p v] unfolding no_block_def by (cases "pt_trans h d p v") force+
  ultimately show ?thesis by simp
qed

lemma map_loop_spec:
  "pt_state s A d pgt M \<Longrightarrow> d = 3 - root \<Longrightarrow> 4096 * card (pt_tables (mem s) d pgt (va_range va (4096 * n))) \<le> card A \<Longrightarrow>
   PAGE_ALIGNED va \<Longrightarrow> unat va + 4096 * n \<le> va_space d \<Longrightarrow>
   (\<And>v. v \<in> va_range va (4096 * n) \<Longrightarrow> pt_lookup (mem s) d pgt v AND PTE_AF = 0) \<Longrightarrow>
   \<exists>s' A' M'. map_loop pv pgt flags root n s va pa = Inr s' \<and> pt_state s' A' d pgt M' \<and>
     A' \<subseteq> A \<and> M' \<subseteq> M \<union> A \<and> card A \<le> card A' + 4096 * card (pt_tables (mem s) d pgt (va_range va (4096 * n))) \<and>
     (\<forall>v. unat v < va_space d \<longrightarrow> pt_lookup (mem s') d pgt v =
        (if v \<in> va_range va (4096 * n) then mapped_pte va pa flags v else pt_lookup (mem s) d pgt v)) \<and>
     (\<forall>v. pt_missing (mem s') d pgt v = pt_missing (mem s) d pgt v - pt_tables (mem s) d pgt (va_range va (4096 * n))) \<and>
     (no_block (mem s) d pgt (va_range va (4096 * n)) \<longrightarrow>
        (\<forall>v. unat v < va_space d \<longrightarrow> pt_trans (mem s') d pgt v =
           (if v \<in> va_range va (4096 * n) then Some (0, mapped_pte va pa flags v) else pt_trans (mem s) d pgt v))) \<and>
     (\<forall>a. unat a \<notin> M \<union> A \<longrightarrow> mem s' a = mem s a)"
proof (induction n arbitrary: s A M va pa)
  case 0
  then show ?case
    by (intro exI [of _ s] exI [of _ A] exI [of _ M]) (auto simp: va_range_def pt_tables_def)
next
  case (Suc n)
  have d3: "d \<le> 3" using Suc.prems(1) by (simp add: pt_state_def)
  have "va_space d \<le> 2 ^ 48"
    unfolding va_space_def by (rule power_increasing) (use d3 in auto)
  then have lim: "unat va + 4096 \<le> 2 ^ 64" "unat va + 4096 < 2 ^ 64" "unat va < va_space d"
    using Suc.prems(5) by auto
  let ?va = "va + of_nat PAGESIZE" and ?pa = "pa + of_nat PAGESIZE"
  let ?R = "va_range va (4096 * Suc n)" and ?T = "va_range ?va (4096 * n)" and ?m = "pt_missing (mem s) d pgt va"
  have u: "unat ?va = unat va + 4096" unfolding PAGESIZE_def by (rule unat_add_of_nat) (rule lim(2))
  have al: "PAGE_ALIGNED ?va" using Suc.prems(4) by (simp add: page_aligned_unat u)
  have R: "v \<in> ?R \<longleftrightarrow> page_no v = page_no va \<or> v \<in> ?T" for v
    using page_no_range [OF Suc.prems(4) lim(1), of v] by (auto simp: va_range_def u)
  have T: "v \<in> ?T \<Longrightarrow> page_no v \<noteq> page_no va" for v
    using page_no_range [OF Suc.prems(4) lim(1), of v] by (auto simp: va_range_def u)
  have va: "va \<in> ?R" unfolding R by simp
  have mR: "?m \<subseteq> pt_tables (mem s) d pgt ?R" using va unfolding pt_tables_def by blast
  then have "card ?m \<le> card (pt_tables (mem s) d pgt ?R)" by (intro card_mono) simp_all
  then have cA: "4096 * card ?m \<le> card A" using Suc.prems(3) by linarith
  obtain q s1 A1 M1 where r: "pagewalk_levels pv True va d s pgt = Inr (q, s1)"
    and val: "mem s1 q = pt_lookup (mem s) d pgt va" and A1: "A1 \<subseteq> A" "card A \<le> card A1 + 4096 * card ?m"
    and st: "let s2 = pte_set_entry s1 q pa flags in
        pt_state s2 A1 d pgt M1 \<and> M1 \<subseteq> M \<union> A \<and>
        (\<forall>va'. unat va' < va_space d \<longrightarrow> pt_lookup (mem s2) d pgt va' =
           (if page_no va' = page_no va then PTE_PA pa OR (flags OR PTE_V OR PTE_AF)
            else pt_lookup (mem s) d pgt va')) \<and>
        (\<forall>va'. pt_missing (mem s2) d pgt va' = pt_missing (mem s) d pgt va' - ?m) \<and>
        (\<forall>va'. unat va' < va_space d \<longrightarrow> pt_trans (mem s2) d pgt va' =
           (if page_no va' = page_no va then Some (0, PTE_PA pa OR (flags OR PTE_V OR PTE_AF))
            else if pt_missing (mem s) d pgt va' \<inter> ?m = {} then pt_trans (mem s) d pgt va' else None)) \<and>
        (\<forall>a. unat a \<notin> M \<union> A \<longrightarrow> mem s2 a = mem s a)"
    using map_one [OF Suc.prems(1) cA lim(3)] by blast
  define s2 where "s2 = pte_set_entry s1 q pa flags"
  note st' = st [unfolded Let_def, folded s2_def]
  have look: "pt_lookup (mem s2) d pgt v =
      (if page_no v = page_no va then PTE_PA pa OR (flags OR PTE_V OR PTE_AF)
       else pt_lookup (mem s) d pgt v)" if "unat v < va_space d" for v
    using st' that by blast
  have miss: "pt_missing (mem s2) d pgt v = pt_missing (mem s) d pgt v - ?m" for v using st' by blast
  have inT: "unat v < va_space d" if "v \<in> ?T" for v using that Suc.prems(5) by (simp add: va_range_def u)
  have free2: "pt_lookup (mem s2) d pgt v AND PTE_AF = 0" if "v \<in> ?T" for v
    using look [OF inT [OF that]] Suc.prems(6) [of v] T [OF that] R that by simp
  have tabs: "pt_tables (mem s) d pgt ?R = ?m \<union> pt_tables (mem s2) d pgt ?T"
  proof -
    have "pt_missing (mem s) d pgt v = ?m" if "page_no v = page_no va" for v
      using that d3 same_page_same_missing by blast
    then have e: "x \<in> pt_tables (mem s) d pgt ?R \<longleftrightarrow> x \<in> ?m \<or> (\<exists>v \<in> ?T. x \<in> pt_missing (mem s) d pgt v)" for x
      unfolding pt_tables_def UN_iff Bex_def R using R [of va] va by metis
    have "x \<in> pt_tables (mem s2) d pgt ?T \<longleftrightarrow> (\<exists>v \<in> ?T. x \<in> pt_missing (mem s) d pgt v) \<and> x \<notin> ?m" for x
      unfolding pt_tables_def miss by blast
    then show ?thesis unfolding set_eq_iff Un_iff e by blast
  qed
  have dis: "?m \<inter> pt_tables (mem s2) d pgt ?T = {}" unfolding pt_tables_def miss by auto
  have cR: "card (pt_tables (mem s) d pgt ?R) = card ?m + card (pt_tables (mem s2) d pgt ?T)"
    unfolding tabs using dis by (intro card_Un_disjoint) simp_all
  have "4096 * card (pt_tables (mem s2) d pgt ?T) \<le> card A1" using A1(2) Suc.prems(3) cR by linarith
  from Suc.IH [OF _ Suc.prems(2) this al _ free2] st' u Suc.prems(5)
  obtain s' A' M' where ih: "map_loop pv pgt flags root n s2 ?va ?pa = Inr s'" "pt_state s' A' d pgt M'"
    "A' \<subseteq> A1" "M' \<subseteq> M1 \<union> A1" "card A1 \<le> card A' + 4096 * card (pt_tables (mem s2) d pgt ?T)"
    "\<forall>v. unat v < va_space d \<longrightarrow> pt_lookup (mem s') d pgt v =
        (if v \<in> ?T then mapped_pte ?va ?pa flags v else pt_lookup (mem s2) d pgt v)"
    "\<forall>v. pt_missing (mem s') d pgt v = pt_missing (mem s2) d pgt v - pt_tables (mem s2) d pgt ?T"
    "no_block (mem s2) d pgt ?T \<longrightarrow> (\<forall>v. unat v < va_space d \<longrightarrow> pt_trans (mem s') d pgt v =
        (if v \<in> ?T then Some (0, mapped_pte ?va ?pa flags v) else pt_trans (mem s2) d pgt v))"
    "\<forall>a. unat a \<notin> M1 \<union> A1 \<longrightarrow> mem s' a = mem s2 a" by force
  have "mem s1 q AND PTE_AF = 0" using val Suc.prems(6) [OF va] by simp
  then have run: "map_loop pv pgt flags root (Suc n) s va pa = Inr s'"
    using r ih(1) Suc.prems(2) by (simp add: pagewalk_def s2_def)
  have first: "mapped_pte va pa flags v = PTE_PA pa OR (flags OR PTE_V OR PTE_AF)"
    if "page_no v = page_no va" for v
  proof -
    have "PAGE_ADDRESS v = va"
      using that Suc.prems(4) page_address_aligned [of va] by (simp add: page_address_page_no)
    then show ?thesis by (simp add: mapped_pte_def)
  qed
  have rest: "mapped_pte ?va ?pa flags v = mapped_pte va pa flags v" for v
    by (simp add: mapped_pte_def algebra_simps)
  have "pt_lookup (mem s') d pgt v = (if v \<in> ?R then mapped_pte va pa flags v else pt_lookup (mem s) d pgt v)"
    if "unat v < va_space d" for v
    using ih(6) look [OF that] first [of v] that R T unfolding rest by auto
  moreover have "pt_missing (mem s') d pgt v = pt_missing (mem s) d pgt v - pt_tables (mem s) d pgt ?R" for v
    using ih(7) unfolding tabs miss by auto
  moreover have "pt_trans (mem s') d pgt v = (if v \<in> ?R then Some (0, mapped_pte va pa flags v) else pt_trans (mem s) d pgt v)"
    if nb: "no_block (mem s) d pgt ?R" and v: "unat v < va_space d" for v
  proof -
    have none: "pt_trans (mem s) d pgt w = None" if "pt_missing (mem s) d pgt w \<inter> ?m \<noteq> {}" for w
      using shared_none [OF nb va that] .
    have t2: "pt_trans (mem s2) d pgt w =
        (if page_no w = page_no va then Some (0, PTE_PA pa OR (flags OR PTE_V OR PTE_AF)) else pt_trans (mem s) d pgt w)"
      if "unat w < va_space d" for w
      using st' that none [of w] by auto
    have "no_block (mem s2) d pgt ?T"
      unfolding no_block_def
    proof (intro ballI)
      fix w assume w: "w \<in> ?T"
      then have "pt_trans (mem s2) d pgt w = pt_trans (mem s) d pgt w" using t2 [OF inT [OF w]] T [OF w] by simp
      then show "\<forall>k e. pt_trans (mem s2) d pgt w = Some (k, e) \<longrightarrow> k = 0"
        using nb w R [of w] unfolding no_block_def by metis
    qed
    then show ?thesis using ih(8) t2 v first [of v] R T unfolding rest by auto
  qed
  moreover have "mem s' a = mem s a" if "unat a \<notin> M \<union> A" for a
  proof -
    have "unat a \<notin> M1 \<union> A1" using that st' A1(1) by blast
    then show ?thesis using ih(9) st' that by simp
  qed
  moreover have "card A \<le> card A' + 4096 * card (pt_tables (mem s) d pgt ?R)"
    using A1(2) ih(5) cR by linarith
  moreover have "A' \<subseteq> A" "M' \<subseteq> M \<union> A" using ih(3,4) A1(1) st' by blast+
  ultimately show ?case
    by (intro exI [of _ s'] exI [of _ A'] exI [of _ M'] conjI allI impI run ih(2)) simp_all
qed

lemma mappages_spec:
  assumes "pt_state s A (3 - root) pgt M" and "PAGE_ALIGNED va" and "PAGE_ALIGNED pa" and "PAGE_ALIGNED sz"
    and "unat va + unat sz \<le> va_space (3 - root)"
    and "4096 * card (pt_tables (mem s) (3 - root) pgt (va_range va (unat sz))) \<le> card A"
    and "\<And>v. v \<in> va_range va (unat sz) \<Longrightarrow> pt_lookup (mem s) (3 - root) pgt v AND PTE_AF = 0"
  shows "\<exists>s' A' M'. mappages pv s pgt va pa sz flags root = Inr s' \<and> pt_state s' A' (3 - root) pgt M' \<and>
     A' \<subseteq> A \<and> M' \<subseteq> M \<union> A \<and> card A \<le> card A' + 4096 * card (pt_tables (mem s) (3 - root) pgt (va_range va (unat sz))) \<and>
     (\<forall>v. unat v < va_space (3 - root) \<longrightarrow> pt_lookup (mem s') (3 - root) pgt v =
        (if v \<in> va_range va (unat sz) then mapped_pte va pa flags v else pt_lookup (mem s) (3 - root) pgt v)) \<and>
     (\<forall>v. pt_missing (mem s') (3 - root) pgt v =
        pt_missing (mem s) (3 - root) pgt v - pt_tables (mem s) (3 - root) pgt (va_range va (unat sz))) \<and>
     (no_block (mem s) (3 - root) pgt (va_range va (unat sz)) \<longrightarrow>
        (\<forall>v. unat v < va_space (3 - root) \<longrightarrow> pt_trans (mem s') (3 - root) pgt v =
           (if v \<in> va_range va (unat sz) then Some (0, mapped_pte va pa flags v) else pt_trans (mem s) (3 - root) pgt v))) \<and>
     (\<forall>a. unat a \<notin> M \<union> A \<longrightarrow> mem s' a = mem s a)"
proof -
  have n: "4096 * (unat sz div PAGESIZE) = unat sz"
    using assms(4) by (simp add: page_aligned_unat PAGESIZE_def)
  have "mappages pv s pgt va pa sz flags root = map_loop pv pgt flags root (unat sz div PAGESIZE) s va pa"
    using assms(2-4) by (simp add: mappages_def)
  moreover note map_loop_spec [OF assms(1) refl _ assms(2), of "unat sz div PAGESIZE" pv flags pa, unfolded n, OF assms(6,5,7)]
  ultimately show ?thesis by metis
qed

lemma tables_page:
  assumes "PAGE_ALIGNED va" and "unat va + 4096 \<le> 2 ^ 64" and "d \<le> 3"
  shows "pt_tables h d p (va_range va 4096) = pt_missing h d p va" and "card (pt_tables h d p (va_range va 4096)) \<le> d"
proof -
  have "v \<in> va_range va 4096 \<longleftrightarrow> page_no v = page_no va" for v
    using page_no_range [OF assms(1,2), of v] by (simp add: va_range_def)
  then show "pt_tables h d p (va_range va 4096) = pt_missing h d p va"
    unfolding pt_tables_def using same_page_same_missing assms(3) by blast
  then show "card (pt_tables h d p (va_range va 4096)) \<le> d" by (simp add: card_missing)
qed

section \<open>A first table\<close>

lemma new_table:
  assumes "zone_free s A" and "linear_area A" and "alloc_page s = Inr (p, s1)" and "p \<noteq> 0" and "d \<le> 3"
  shows "pt_state s1 (A - block p 0) d p (block p 0)" and "pt_lookup (mem s1) d p va = 0" and "pt_trans (mem s1) d p va = None"
  using pa.alloc_some [OF assms(1,3,4)] pa.alloc_zero [OF assms(1,3,4)] assms(2,5)
    zero_table [of p "mem s1"] linear_area_mono [of A "A - block p 0"]
  by (auto simp: pt_state_def)

lemma one_block_area: "free_area one_block = {0xc0200000 ..< 0xc0400000}"
  by (auto simp: free_area_def one_block_def block_def block_size_def PAGESIZE_def MAX_ORDER_def
      split: if_splits)

lemma one_block_table:
  "\<exists>p s1 A. alloc_page one_block_zone = Inr (p, s1) \<and> pt_state s1 A 3 p (block p 0) \<and>
     card A = 2093056 \<and> A \<union> block p 0 \<subseteq> {0xc0200000 ..< 0xc0400000} \<and> (\<forall>va. pt_lookup (mem s1) 3 p va = 0) \<and>
     (\<forall>va. pt_trans (mem s1) 3 p va = None)"
proof -
  let ?A = "free_area one_block"
  have z: "zone_free one_block_zone ?A" using one_block_inv by (auto simp: zone_free_def)
  have lin: "linear_area ?A" by (simp add: one_block_area linear_area_def VIRT_BASE_def)
  obtain p s1 where r: "alloc_page one_block_zone = Inr (p, s1)" using pa.alloc_returns [OF z] by blast
  have p0: "p \<noteq> 0" using pa.alloc_none [OF z] r one_block_area by fastforce
  have sub: "block p 0 \<subseteq> ?A" using pa.alloc_some [OF z r p0] by blast
  then have "card (?A - block p 0) = 2093056"
    using card_Diff_subset [of "block p 0" ?A] by (simp add: card_block one_block_area)
  moreover have "?A - block p 0 \<union> block p 0 \<subseteq> {0xc0200000 ..< 0xc0400000}"
    using sub by (auto simp: one_block_area)
  ultimately show ?thesis
    using r new_table [OF z lin r p0, of 3] by (intro exI [of _ p] exI [of _ s1] exI [of _ "?A - block p 0"]) simp
qed

section \<open>Properties\<close>



text \<open>
  C16.  \<^verbatim>\<open>mappages\<close> on aligned arguments, when no page of the range has an entry in use or lies in
  a block, returns as soon as the allocator has a page for each table that is missing for the range;
  afterwards the addresses of the range translate to the given physical range with the given flags,
  page by page, every other address translates as before, by page or by block, the table is still
  well-formed, no more than the missing tables was taken from the allocator, and nothing outside the
  table and the allocator's memory is written.
\<close>

theorem mappages_correct:
  assumes "pt_state s A (3 - root) pgt M" and "PAGE_ALIGNED va" and "PAGE_ALIGNED pa" and "PAGE_ALIGNED sz"
    and "unat va + unat sz \<le> va_space (3 - root)"
    and "4096 * card (pt_tables (mem s) (3 - root) pgt (va_range va (unat sz))) \<le> card A"
    and "\<And>v. v \<in> va_range va (unat sz) \<Longrightarrow> pt_lookup (mem s) (3 - root) pgt v AND PTE_AF = 0"
    and "no_block (mem s) (3 - root) pgt (va_range va (unat sz))"
  shows "\<exists>s' A' M'. mappages pv s pgt va pa sz flags root = Inr s' \<and> pt_state s' A' (3 - root) pgt M' \<and>
     card A \<le> card A' + 4096 * card (pt_tables (mem s) (3 - root) pgt (va_range va (unat sz))) \<and>
     (\<forall>v. unat v < va_space (3 - root) \<longrightarrow> pt_trans (mem s') (3 - root) pgt v =
        (if unat va \<le> unat v \<and> unat v < unat va + unat sz
         then Some (0, PTE_PA (pa + (PAGE_ADDRESS v - va)) OR (flags OR PTE_V OR PTE_AF))
         else pt_trans (mem s) (3 - root) pgt v)) \<and>
     (\<forall>v. unat v < va_space (3 - root) \<longrightarrow> pt_lookup (mem s') (3 - root) pgt v =
        (if unat va \<le> unat v \<and> unat v < unat va + unat sz
         then PTE_PA (pa + (PAGE_ADDRESS v - va)) OR (flags OR PTE_V OR PTE_AF)
         else pt_lookup (mem s) (3 - root) pgt v)) \<and>
     (\<forall>a. unat a \<notin> M \<union> A \<longrightarrow> mem s' a = mem s a)"
proof -
  obtain s' A' M' where "mappages pv s pgt va pa sz flags root = Inr s'" "pt_state s' A' (3 - root) pgt M'"
      "card A \<le> card A' + 4096 * card (pt_tables (mem s) (3 - root) pgt (va_range va (unat sz)))"
      "\<forall>v. unat v < va_space (3 - root) \<longrightarrow> pt_lookup (mem s') (3 - root) pgt v =
        (if v \<in> va_range va (unat sz) then mapped_pte va pa flags v else pt_lookup (mem s) (3 - root) pgt v)"
      "\<forall>v. unat v < va_space (3 - root) \<longrightarrow> pt_trans (mem s') (3 - root) pgt v =
        (if v \<in> va_range va (unat sz) then Some (0, mapped_pte va pa flags v) else pt_trans (mem s) (3 - root) pgt v)"
      "\<forall>a. unat a \<notin> M \<union> A \<longrightarrow> mem s' a = mem s a"
    using mappages_spec [OF assms(1-7), of pv flags] assms(8) by blast
  then show ?thesis
    unfolding va_range_def mem_Collect_eq mapped_pte_def by (intro exI [of _ s'] exI [of _ A'] exI [of _ M']) blast
qed

theorem mappages_correct_witness:
  "\<exists>p s1 s'. alloc_page one_block_zone = Inr (p, s1) \<and>
     mappages 0 s1 p 0x40000000 0x200000 0x1000 PTE_NORMAL 0 = Inr s' \<and>
     pt_trans (mem s') 3 p 0x40000008 = Some (0, PTE_PA 0x200000 OR (PTE_NORMAL OR PTE_V OR PTE_AF))"
proof -
  obtain p s1 A where t: "alloc_page one_block_zone = Inr (p, s1)" "pt_state s1 A (3 - 0) p (block p 0)"
      "card A = 2093056" "\<forall>va. pt_lookup (mem s1) 3 p va = 0" "\<forall>va. pt_trans (mem s1) 3 p va = None"
    using one_block_table by auto
  have al: "PAGE_ALIGNED 0x40000000" "PAGE_ALIGNED 0x200000" "PAGE_ALIGNED 0x1000"
    by (simp_all add: page_aligned_unat)
  have v: "unat (0x40000008 :: u64) < va_space (3 - 0)" by (simp add: va_space_def)
  have room: "4096 * card (pt_tables (mem s1) (3 - 0) p (va_range 0x40000000 (unat (0x1000 :: u64)))) \<le> card A"
    using tables_page(2) [OF al(1), of 3 "mem s1" p] t(3) by simp
  have nb: "no_block (mem s1) (3 - 0) p (va_range 0x40000000 (unat (0x1000 :: u64)))"
    using t(5) by (simp add: no_block_def)
  obtain s' where s': "mappages 0 s1 p 0x40000000 0x200000 0x1000 PTE_NORMAL 0 = Inr s'"
    "pt_trans (mem s') (3 - 0) p 0x40000008 =
       Some (0, PTE_PA (0x200000 + (PAGE_ADDRESS 0x40000008 - 0x40000000)) OR (PTE_NORMAL OR PTE_V OR PTE_AF))"
    using mappages_correct [OF t(2) al _ room _ nb, of 0 PTE_NORMAL] t(4) v
    by (auto simp: va_space_def)
  moreover have "PAGE_ADDRESS 0x40000008 = 0x40000000"
    by (simp add: PAGE_ADDRESS_def PAGESIZE_def)
  ultimately show ?thesis using t(1) by auto
qed

end
