(* ===== verification/Stage2.thy ===== *)
theory Stage2
  imports Page_Table
begin

text \<open>
  The guest's stage-2 tables, \<^verbatim>\<open>core/s2mm.c\<close> and \<^verbatim>\<open>include/s2mm.h\<close>.  The entries carry, beside
  the physical address and the access permission, the copyset of the shared-memory protocol in bits
  55 to 58.  The first part has the bit-level operations on an entry, the second the operations of
  the file on the concrete tables of \<open>Page_Table\<close>.  \<open>s2_view\<close> abstracts the tables to a map from
  guest pages to entries; the shared memory of \<open>Vsm\<close> is written over that map, and the refinement
  lemmas here show that the table operations implement it.
\<close>

section \<open>Entry operations\<close>

definition S2PTE_MEMATTR :: "u64 \<Rightarrow> u64" where
  "S2PTE_MEMATTR ap = push_bit 2 (ap AND 0xf)"

definition S2PTE_S2AP :: "u64 \<Rightarrow> u64" where
  "S2PTE_S2AP ap = push_bit 6 (ap AND 3)"

definition S2PTE_NORMAL :: u64 where "S2PTE_NORMAL = S2PTE_MEMATTR 0xf"
definition S2PTE_DEVICE_nGnRE :: u64 where "S2PTE_DEVICE_nGnRE = S2PTE_MEMATTR 1"
definition S2PTE_S2AP_MASK :: u64 where "S2PTE_S2AP_MASK = push_bit 6 3"
definition S2PTE_RO :: u64 where "S2PTE_RO = S2PTE_S2AP 1"
definition S2PTE_RW :: u64 where "S2PTE_RW = S2PTE_S2AP 3"

definition S2PTE_COPYSET :: "u64 \<Rightarrow> u64" where
  "S2PTE_COPYSET c = push_bit 55 (c AND 0xf)"

definition S2PTE_COPYSET_MASK :: u64 where
  "S2PTE_COPYSET_MASK = S2PTE_COPYSET 0xf"

definition s2pte_perm :: "u64 \<Rightarrow> u64" where
  "s2pte_perm pte = drop_bit 6 (pte AND S2PTE_S2AP_MASK)"

definition s2pte_invalidate :: "u64 \<Rightarrow> u64" where
  "s2pte_invalidate pte = pte AND NOT PTE_AF"

definition s2pte_ro :: "u64 \<Rightarrow> u64" where
  "s2pte_ro pte = (pte AND NOT S2PTE_S2AP_MASK) OR S2PTE_RO"

definition s2pte_rw :: "u64 \<Rightarrow> u64" where
  "s2pte_rw pte = pte OR S2PTE_RW"

definition s2pte_copyset :: "u64 \<Rightarrow> u64" where
  "s2pte_copyset pte = drop_bit 55 (pte AND S2PTE_COPYSET_MASK)"

definition s2pte_add_copyset :: "u64 \<Rightarrow> nat \<Rightarrow> u64" where
  "s2pte_add_copyset pte nodeid = pte OR S2PTE_COPYSET (push_bit nodeid 1)"

definition s2pte_clear_copyset :: "u64 \<Rightarrow> u64" where
  "s2pte_clear_copyset pte = pte AND NOT S2PTE_COPYSET_MASK"

text \<open>The conditions of \<^verbatim>\<open>s2_rwable_pte\<close>, \<^verbatim>\<open>s2_readable_pte\<close>, \<^verbatim>\<open>s2_ro_pte\<close> and
  \<^verbatim>\<open>s2_accessible_pte\<close> on the entry they find.\<close>

definition pte_rwable :: "u64 \<Rightarrow> bool" where
  "pte_rwable e \<longleftrightarrow> e AND (PTE_AF OR S2PTE_S2AP_MASK) = PTE_AF OR S2PTE_RW"

definition pte_readable :: "u64 \<Rightarrow> bool" where
  "pte_readable e \<longleftrightarrow> e AND PTE_AF \<noteq> 0 \<and> e AND S2PTE_RO \<noteq> 0"

definition pte_rdonly :: "u64 \<Rightarrow> bool" where
  "pte_rdonly e \<longleftrightarrow> e AND (PTE_AF OR S2PTE_S2AP_MASK) = PTE_AF OR S2PTE_RO"

definition pte_accessible :: "u64 \<Rightarrow> bool" where
  "pte_accessible e \<longleftrightarrow> e AND PTE_AF \<noteq> 0"

section \<open>Bits of an entry\<close>

lemma s2_flag_consts:
  "PTE_AF = 0x400" "S2PTE_S2AP_MASK = 0xc0" "S2PTE_RO = 0x40" "S2PTE_RW = 0xc0" "S2PTE_NORMAL = 0x3c"
  "S2PTE_COPYSET_MASK = push_bit 55 0xf"
  by (simp_all add: PTE_AF_def S2PTE_S2AP_MASK_def S2PTE_RO_def S2PTE_RW_def S2PTE_S2AP_def
      S2PTE_NORMAL_def S2PTE_MEMATTR_def S2PTE_COPYSET_MASK_def S2PTE_COPYSET_def push_bit_eq_mult)

lemma bit_0xc0: "bit (0xc0 :: u64) n \<longleftrightarrow> n = 6 \<or> n = 7"
proof -
  have "(0xc0 :: u64) = push_bit 6 (mask 2)" by (simp add: push_bit_eq_mult mask_eq_exp_minus_1)
  then show ?thesis by (simp only: bit_push_bit_iff bit_mask_iff) auto
qed

lemma bit_0xf: "bit (0xf :: u64) n \<longleftrightarrow> n < 4"
proof -
  have "(0xf :: u64) = mask 4" by (simp add: mask_eq_exp_minus_1)
  then show ?thesis by (simp only: bit_mask_iff) auto
qed

lemma bit_pow2: "bit (0x40 :: u64) n \<longleftrightarrow> n = 6" "bit (0x400 :: u64) n \<longleftrightarrow> n = 10"
proof -
  have "(0x40 :: u64) = 2 ^ 6" "(0x400 :: u64) = 2 ^ 10" by simp_all
  then show "bit (0x40 :: u64) n \<longleftrightarrow> n = 6" "bit (0x400 :: u64) n \<longleftrightarrow> n = 10"
    by (simp_all only: bit_exp_iff) auto
qed

lemma bit_flags [pte_simps]:
  "bit PTE_AF n \<longleftrightarrow> n = 10" "bit S2PTE_S2AP_MASK n \<longleftrightarrow> n = 6 \<or> n = 7" "bit S2PTE_RO n \<longleftrightarrow> n = 6"
  "bit S2PTE_RW n \<longleftrightarrow> n = 6 \<or> n = 7" "bit S2PTE_COPYSET_MASK n \<longleftrightarrow> 55 \<le> n \<and> n < 59"
  "bit S2PTE_NORMAL n \<longleftrightarrow> 2 \<le> n \<and> n < 6"
proof -
  have n: "S2PTE_NORMAL = push_bit 2 0xf"
    by (simp add: S2PTE_NORMAL_def S2PTE_MEMATTR_def)
  show "bit PTE_AF n \<longleftrightarrow> n = 10" "bit S2PTE_S2AP_MASK n \<longleftrightarrow> n = 6 \<or> n = 7" "bit S2PTE_RO n \<longleftrightarrow> n = 6"
    "bit S2PTE_RW n \<longleftrightarrow> n = 6 \<or> n = 7"
    unfolding s2_flag_consts by (simp_all only: bit_0xc0 bit_pow2)
  show "bit S2PTE_COPYSET_MASK n \<longleftrightarrow> 55 \<le> n \<and> n < 59"
    unfolding s2_flag_consts by (auto simp only: bit_push_bit_iff bit_0xf) auto
  show "bit S2PTE_NORMAL n \<longleftrightarrow> 2 \<le> n \<and> n < 6"
    unfolding n by (auto simp only: bit_push_bit_iff bit_0xf) auto
qed

lemma bit_copyset_word: "bit (S2PTE_COPYSET c) n \<longleftrightarrow> 55 \<le> n \<and> n < 59 \<and> bit c (n - 55)"
  unfolding S2PTE_COPYSET_def by (auto simp only: bit_push_bit_iff bit_and_iff bit_0xf) auto

lemma bits_eq_iff: "(a :: u64) = b \<longleftrightarrow> (\<forall>n. bit a n \<longleftrightarrow> bit b n)"
  by (auto intro: bit_word_eqI)

lemma and_mask_eq_iff:
  "(e :: u64) AND m = v \<longleftrightarrow> (\<forall>n. bit m n \<and> bit e n \<longleftrightarrow> bit v n)"
  unfolding bits_eq_iff bit_and_iff by blast

lemma and_bit_nonzero: "(e :: u64) AND m \<noteq> 0 \<longleftrightarrow> (\<exists>n. bit e n \<and> bit m n)"
  unfolding bits_eq_iff bit_and_iff by simp

lemma three_bits:
  fixes P :: "nat \<Rightarrow> bool"
  shows "(\<forall>n. (n = 10 \<or> n = 6 \<or> n = 7) \<and> P n \<longleftrightarrow> n = 10 \<or> n = 6 \<or> n = 7) \<longleftrightarrow> P 10 \<and> P 6 \<and> P 7" (is "?A \<longleftrightarrow> ?B")
    and "(\<forall>n. (n = 10 \<or> n = 6 \<or> n = 7) \<and> P n \<longleftrightarrow> n = 10 \<or> n = 6) \<longleftrightarrow> P 10 \<and> P 6 \<and> \<not> P 7" (is "?C \<longleftrightarrow> ?D")
proof -
  show "?A \<longleftrightarrow> ?B" by blast
  show "?C \<longleftrightarrow> ?D"
  proof
    assume c: ?C
    show ?D using spec [OF c, of 10] spec [OF c, of 6] spec [OF c, of 7] by simp
  next
    assume ?D
    then show ?C by (metis numeral_eq_iff)
  qed
qed

lemma pte_pred_bits:
  "pte_rwable e \<longleftrightarrow> bit e 10 \<and> bit e 6 \<and> bit e 7"
  "pte_rdonly e \<longleftrightarrow> bit e 10 \<and> bit e 6 \<and> \<not> bit e 7"
  "pte_readable e \<longleftrightarrow> bit e 10 \<and> bit e 6"
  "pte_accessible e \<longleftrightarrow> bit e 10"
  unfolding pte_rwable_def pte_rdonly_def pte_readable_def pte_accessible_def and_mask_eq_iff and_bit_nonzero
    bit_or_iff bit_flags three_bits
  by simp_all

lemma bit_copyset: "bit (s2pte_copyset e) k \<longleftrightarrow> k < 4 \<and> bit e (55 + k)"
  by (auto simp: s2pte_copyset_def bit_drop_bit_eq bit_and_iff pte_simps)

lemma copyset_zero_iff: "s2pte_copyset e = 0 \<longleftrightarrow> (\<forall>k < 4. \<not> bit e (55 + k))"
  by (auto simp: bit_eq_iff bit_copyset)

lemma pte_op_bits:
  "bit (s2pte_invalidate e) n \<longleftrightarrow> bit e n \<and> n \<noteq> 10"
  "bit (s2pte_ro e) n \<longleftrightarrow> n = 6 \<or> bit e n \<and> n \<noteq> 7"
  "bit (s2pte_rw e) n \<longleftrightarrow> n = 6 \<or> n = 7 \<or> bit e n"
  "bit (s2pte_clear_copyset e) n \<longleftrightarrow> bit e n \<and> \<not> (55 \<le> n \<and> n < 59)"
  "bit (s2pte_add_copyset e k) n \<longleftrightarrow> bit e n \<or> k < 4 \<and> n = 55 + k"
proof -
  show "bit (s2pte_invalidate e) n \<longleftrightarrow> bit e n \<and> n \<noteq> 10"
    "bit (s2pte_ro e) n \<longleftrightarrow> n = 6 \<or> bit e n \<and> n \<noteq> 7"
    "bit (s2pte_rw e) n \<longleftrightarrow> n = 6 \<or> n = 7 \<or> bit e n"
    "bit (s2pte_clear_copyset e) n \<longleftrightarrow> bit e n \<and> \<not> (55 \<le> n \<and> n < 59)"
    using bit_imp_le_length [of e n]
    by (auto simp: s2pte_invalidate_def s2pte_ro_def s2pte_rw_def s2pte_clear_copyset_def
        bit_and_iff bit_or_iff bit_not_iff pte_simps)
  show "bit (s2pte_add_copyset e k) n \<longleftrightarrow> bit e n \<or> k < 4 \<and> n = 55 + k"
    by (auto simp: s2pte_add_copyset_def bit_or_iff bit_copyset_word bit_exp_iff)
qed

lemmas pte_bits = pte_pred_bits copyset_zero_iff pte_op_bits

text \<open>An owner of a page has it writable, or read-only with readers in its copyset.\<close>

definition pte_owner :: "u64 \<Rightarrow> bool" where
  "pte_owner e \<longleftrightarrow> pte_rwable e \<or> pte_rdonly e \<and> s2pte_copyset e \<noteq> 0"

lemma pte_owner_bits: "pte_owner e \<longleftrightarrow> bit e 10 \<and> bit e 6 \<and> (bit e 7 \<or> (\<exists>k < 4. bit e (55 + k)))"
  by (auto simp: pte_owner_def pte_bits)

lemma pte_pa_ops [pte_simps]:
  "PTE_PA (s2pte_invalidate e) = PTE_PA e" "PTE_PA (s2pte_ro e) = PTE_PA e" "PTE_PA (s2pte_rw e) = PTE_PA e"
  "PTE_PA (s2pte_clear_copyset e) = PTE_PA e" "PTE_PA (s2pte_add_copyset e k) = PTE_PA e"
  by (rule bit_word_eqI, auto simp: bit_PTE_PA pte_op_bits)+

lemma owner_ops [pte_simps]:
  "\<not> pte_owner (s2pte_invalidate e)" "\<not> pte_accessible (s2pte_invalidate e)"
  "pte_accessible e \<Longrightarrow> pte_owner (s2pte_rw e)"
  "pte_owner e \<Longrightarrow> k < 4 \<Longrightarrow> pte_owner (s2pte_add_copyset (s2pte_ro e) k)"
  "s2pte_copyset e = 0 \<Longrightarrow> \<not> pte_owner (s2pte_ro e)"
  "s2pte_copyset (s2pte_clear_copyset e) = 0"
  "pte_accessible (s2pte_clear_copyset e) = pte_accessible e"
  by (auto simp: pte_owner_bits pte_bits)

text \<open>The entry \<^verbatim>\<open>s2_map_page_copyset\<close> installs has no access permission yet.\<close>

definition copyset_pte :: "physaddr \<Rightarrow> u64 \<Rightarrow> u64" where
  "copyset_pte pa c = PTE_PA pa OR ((S2PTE_NORMAL OR S2PTE_COPYSET c) OR PTE_V OR PTE_AF)"

lemma bit_copyset_pte:
  "bit (copyset_pte pa c) n \<longleftrightarrow>
     (12 \<le> n \<and> n < 48 \<and> bit pa n) \<or> n = 10 \<or> n < 6 \<or> (55 \<le> n \<and> n < 59 \<and> bit c (n - 55))"
proof -
  have v: "bit PTE_V n \<longleftrightarrow> n < 2" by (simp add: PTE_V_def bit_numeral_u64 del: bit_numeral_word_iff)
  show ?thesis
    unfolding copyset_pte_def
    by (auto simp: bit_or_iff bit_PTE_PA bit_copyset_word pte_simps v)
qed

lemma copyset_pte_props [pte_simps]:
  "pte_accessible (copyset_pte pa c)" "\<not> pte_owner (copyset_pte pa c)" "\<not> pte_readable (copyset_pte pa c)"
  "PTE_PA (copyset_pte pa c) = PTE_PA pa" "s2pte_copyset (copyset_pte pa c) = c AND 0xf"
proof -
  show "pte_accessible (copyset_pte pa c)" "\<not> pte_owner (copyset_pte pa c)" "\<not> pte_readable (copyset_pte pa c)"
    by (auto simp: pte_owner_bits pte_pred_bits bit_copyset_pte)
  show "PTE_PA (copyset_pte pa c) = PTE_PA pa"
    by (rule bit_word_eqI) (auto simp: bit_PTE_PA bit_copyset_pte)
  show "s2pte_copyset (copyset_pte pa c) = c AND 0xf"
    by (rule bit_word_eqI)
      (auto simp: bit_copyset bit_copyset_pte bit_and_iff bit_0xf simp del: bit_numeral_word_iff)
qed

section \<open>Operations on the tables\<close>

text \<open>The globals \<^verbatim>\<open>vttbr\<close>, \<^verbatim>\<open>s2_root_level\<close> and \<^verbatim>\<open>pvoffset\<close>.\<close>

record s2mmu =
  vttbr :: u64
  s2_root_level :: nat
  pvoff :: u64

definition s2_walk :: "s2mmu \<Rightarrow> mstate \<Rightarrow> ipa \<Rightarrow> u64" where
  "s2_walk e s ipa =
     (case pagewalk (pvoff e) s (vttbr e) ipa (s2_root_level e) False of Inr (pte, _) \<Rightarrow> pte | Inl _ \<Rightarrow> 0)"

definition PAGE_RW :: u32 where "PAGE_RW = 1"
definition PAGE_RO :: u32 where "PAGE_RO = 2"
definition PAGE_NOEXEC :: u32 where "PAGE_NOEXEC = 4"
definition PAGE_DEVICE :: u32 where "PAGE_DEVICE = 8"
definition PAGE_NORMAL :: u32 where "PAGE_NORMAL = 16"

definition pageflag_to_s2pte_flags :: "u32 \<Rightarrow> u64" where
  "pageflag_to_s2pte_flags flags =
     (let f = if flags AND PAGE_NORMAL \<noteq> 0 then S2PTE_NORMAL
              else if flags AND PAGE_DEVICE \<noteq> 0 then S2PTE_DEVICE_nGnRE OR PTE_XN else 0;
          f = if flags AND PAGE_RW \<noteq> 0 then f OR S2PTE_RW
              else if flags AND PAGE_RO \<noteq> 0 then f OR S2PTE_RO else f
      in if flags AND PAGE_NOEXEC \<noteq> 0 then f OR PTE_XN else f)"

definition s2_map_pages :: "s2mmu \<Rightarrow> mstate \<Rightarrow> ipa \<Rightarrow> physaddr \<Rightarrow> u64 \<Rightarrow> u32 \<Rightarrow> mstate res" where
  "s2_map_pages e s ipa pa sz flags =
     mappages (pvoff e) s (vttbr e) ipa pa sz (pageflag_to_s2pte_flags flags) (s2_root_level e)"

definition guest_map_page :: "s2mmu \<Rightarrow> mstate \<Rightarrow> ipa \<Rightarrow> physaddr \<Rightarrow> u32 \<Rightarrow> mstate res" where
  "guest_map_page e s ipa pa flags = s2_map_pages e s ipa pa (of_nat PAGESIZE) flags"

definition vmiomap :: "s2mmu \<Rightarrow> mstate \<Rightarrow> ipa \<Rightarrow> physaddr \<Rightarrow> u64 \<Rightarrow> mstate res" where
  "vmiomap e s ipa pa sz = s2_map_pages e s ipa pa sz (PAGE_RW OR PAGE_DEVICE)"

definition vmiomap_passthrough :: "s2mmu \<Rightarrow> mstate \<Rightarrow> ipa \<Rightarrow> u64 \<Rightarrow> mstate res" where
  "vmiomap_passthrough e s ipa sz = (let pa = ipa in s2_map_pages e s ipa pa sz (PAGE_RW OR PAGE_DEVICE))"

fun unmap_loop :: "s2mmu \<Rightarrow> nat \<Rightarrow> mstate \<Rightarrow> ipa \<Rightarrow> mstate res" where
  "unmap_loop e 0 s ipa = Inr s"
| "unmap_loop e (Suc n) s ipa =
     (let pte = s2_walk e s ipa in
      if pte = 0 then Inl (Undefined ''s2pageunmap: null entry'')
      else if mem s pte = 0 then Inl (Panic ''already unmapped'')
      else bind_res (free_page s (phys2virt (PTE_PA (mem s pte)))) (\<lambda>s1.
             unmap_loop e n (pte_clear s1 pte) (ipa + of_nat PAGESIZE)))"

definition s2pageunmap :: "s2mmu \<Rightarrow> mstate \<Rightarrow> ipa \<Rightarrow> u64 \<Rightarrow> mstate res" where
  "s2pageunmap e s ipa sz =
     (if ipa mod of_nat PAGESIZE \<noteq> 0 \<or> sz mod of_nat PAGESIZE \<noteq> 0 then Inl (Panic ''invalid pageunmap'')
      else unmap_loop e (unat sz div PAGESIZE) s ipa)"

fun guestmem_loop :: "s2mmu \<Rightarrow> nat \<Rightarrow> mstate \<Rightarrow> ipa \<Rightarrow> mstate res" where
  "guestmem_loop e 0 s ipa = Inr s"
| "guestmem_loop e (Suc n) s ipa =
     bind_res (alloc_page s) (\<lambda>(p, s1).
       if p = 0 then Inl (Panic ''p'')
       else bind_res (guest_map_page e s1 ipa (virt2phys (pvoff e) p) (PAGE_NORMAL OR PAGE_RW)) (\<lambda>s2.
              guestmem_loop e n s2 (ipa + of_nat PAGESIZE)))"

definition alloc_guestmem :: "s2mmu \<Rightarrow> mstate \<Rightarrow> ipa \<Rightarrow> u64 \<Rightarrow> mstate res" where
  "alloc_guestmem e s ipa sz =
     (if sz mod of_nat PAGESIZE \<noteq> 0 then Inl (Panic ''invalid size'')
      else guestmem_loop e (unat sz div PAGESIZE) s ipa)"

definition map_guest_peripherals :: "s2mmu \<Rightarrow> mstate \<Rightarrow> mstate res" where
  "map_guest_peripherals e s =
     bind_res (vmiomap_passthrough e s 0x09000000 (of_nat PAGESIZE)) (\<lambda>s.
     bind_res (vmiomap_passthrough e s 0x09010000 (of_nat PAGESIZE)) (\<lambda>s.
     bind_res (vmiomap_passthrough e s 0x09030000 (of_nat PAGESIZE)) (\<lambda>s.
     bind_res (vmiomap_passthrough e s 0x4010000000 (256 * 1024 * 1024)) (\<lambda>s.
     bind_res (vmiomap_passthrough e s 0x10000000 0x2eff0000) (\<lambda>s.
     vmiomap_passthrough e s 0x8000000000 0x100000)))))"

definition s2_map_page_copyset :: "s2mmu \<Rightarrow> mstate \<Rightarrow> ipa \<Rightarrow> physaddr \<Rightarrow> u64 \<Rightarrow> mstate res" where
  "s2_map_page_copyset e s ipa pa copyset =
     mappages (pvoff e) s (vttbr e) ipa pa (of_nat PAGESIZE) (S2PTE_NORMAL OR S2PTE_COPYSET copyset)
       (s2_root_level e)"

definition find_pte :: "(u64 \<Rightarrow> bool) \<Rightarrow> s2mmu \<Rightarrow> mstate \<Rightarrow> ipa \<Rightarrow> u64 res" where
  "find_pte cond e s ipa =
     assert_res (PAGE_ALIGNED ipa) ''ipa''
       (let pte = s2_walk e s ipa in Inr (if pte \<noteq> 0 \<and> cond (mem s pte) then pte else 0))"

definition s2_rwable_pte :: "s2mmu \<Rightarrow> mstate \<Rightarrow> ipa \<Rightarrow> u64 res" where
  "s2_rwable_pte = find_pte pte_rwable"

definition s2_readable_pte :: "s2mmu \<Rightarrow> mstate \<Rightarrow> ipa \<Rightarrow> u64 res" where
  "s2_readable_pte = find_pte pte_readable"

definition s2_ro_pte :: "s2mmu \<Rightarrow> mstate \<Rightarrow> ipa \<Rightarrow> u64 res" where
  "s2_ro_pte = find_pte pte_rdonly"

definition s2_accessible_pte :: "s2mmu \<Rightarrow> mstate \<Rightarrow> ipa \<Rightarrow> u64 res" where
  "s2_accessible_pte e s ipa = page_accessible_pte (pvoff e) s (vttbr e) ipa (s2_root_level e)"

definition s2_accessible :: "s2mmu \<Rightarrow> mstate \<Rightarrow> ipa \<Rightarrow> bool res" where
  "s2_accessible e s ipa = page_accessible (pvoff e) s (vttbr e) ipa (s2_root_level e)"

definition s2_page_invalidate :: "s2mmu \<Rightarrow> mstate \<Rightarrow> ipa \<Rightarrow> mstate res" where
  "s2_page_invalidate e s ipa =
     assert_res (PAGE_ALIGNED ipa) ''ipa''
       (let pte = s2_walk e s ipa in
        if pte = 0 then Inl (Panic ''no entry'')
        else free_page (write_cell s pte (s2pte_invalidate (mem s pte))) (phys2virt (PTE_PA (mem s pte))))"

definition s2_page_ro :: "s2mmu \<Rightarrow> mstate \<Rightarrow> ipa \<Rightarrow> mstate res" where
  "s2_page_ro e s ipa =
     assert_res (PAGE_ALIGNED ipa) ''ipa''
       (let pte = s2_walk e s ipa in
        if pte = 0 then Inl (Panic ''no entry'') else Inr (write_cell s pte (s2pte_ro (mem s pte))))"

definition ipa2pa :: "s2mmu \<Rightarrow> mstate \<Rightarrow> ipa \<Rightarrow> physaddr" where
  "ipa2pa e s ipa =
     (let pte = s2_walk e s ipa in if pte = 0 then 0 else PTE_PA (mem s pte) + PAGE_OFFSET ipa)"

definition ipa2hva :: "s2mmu \<Rightarrow> mstate \<Rightarrow> ipa \<Rightarrow> u64" where
  "ipa2hva e s ipa = phys2virt (ipa2pa e s ipa)"

text \<open>The number of bytes one round of the copy loops moves.\<close>

definition copy_chunk :: "ipa \<Rightarrow> nat \<Rightarrow> nat" where
  "copy_chunk ipa len = min (PAGESIZE - unat (PAGE_OFFSET ipa)) len"

lemma copy_chunk_pos: "0 < len \<Longrightarrow> 0 < copy_chunk ipa len"
proof -
  have "unat (PAGE_OFFSET ipa) < 4096"
    by (simp add: page_offset_mod unat_mod)
  then show "0 < len \<Longrightarrow> 0 < copy_chunk ipa len" by (simp add: copy_chunk_def PAGESIZE_def)
qed

function copy_to_guest :: "s2mmu \<Rightarrow> mstate \<Rightarrow> ipa \<Rightarrow> u64 \<Rightarrow> nat \<Rightarrow> bool \<Rightarrow> mstate res" where
  "copy_to_guest e s to_ipa src len alloc =
     (if len = 0 then Inr s
      else
        let hva = ipa2hva e s to_ipa; n = copy_chunk to_ipa len in
        bind_res
          (if hva = 0 then
             if \<not> alloc then Inl (Panic ''copy_to_guest hva == 0'')
             else bind_res (alloc_page s) (\<lambda>(page, s1).
               if page = 0 then Inl (Panic ''page'')
               else bind_res (guest_map_page e s1 (PAGE_ADDRESS to_ipa) (virt2phys (pvoff e) page) (PAGE_NORMAL OR PAGE_RW))
                 (\<lambda>s2. Inr (page, s2)))
           else Inr (hva, s))
          (\<lambda>(h, s1). copy_to_guest e (s1\<lparr>mem := memcpy h src n (mem s1)\<rparr>)
              (to_ipa + of_nat n) (src + of_nat n) (len - n) alloc))"
  by pat_completeness auto
termination
  by (relation "measure (\<lambda>(e, s, to_ipa, src, len, alloc). len)") (auto simp: copy_chunk_pos)

function copy_from_guest :: "s2mmu \<Rightarrow> mstate \<Rightarrow> u64 \<Rightarrow> ipa \<Rightarrow> nat \<Rightarrow> mstate res" where
  "copy_from_guest e s dst from_ipa len =
     (if len = 0 then Inr s
      else
        let hva = ipa2hva e s from_ipa; n = copy_chunk from_ipa len in
        if hva = 0 then Inl (Panic ''copy_from_guest hva == 0'')
        else copy_from_guest e (s\<lparr>mem := memcpy dst hva n (mem s)\<rparr>) (dst + of_nat n) (from_ipa + of_nat n) (len - n))"
  by pat_completeness auto
termination
  by (relation "measure (\<lambda>(e, s, dst, from_ipa, len). len)") (auto simp: copy_chunk_pos)

declare copy_to_guest.simps [simp del] copy_from_guest.simps [simp del]

definition map_guest_image :: "s2mmu \<Rightarrow> mstate \<Rightarrow> u64 \<Rightarrow> nat \<Rightarrow> ipa \<Rightarrow> mstate res" where
  "map_guest_image e s img_start img_size ipa = copy_to_guest e s ipa img_start img_size False"

section \<open>Set-up and fault addresses\<close>

definition parange_map :: "int list" where
  "parange_map = [32, 36, 40, 42, 44, 48, 52]"

definition root_level_sl0 :: "nat \<Rightarrow> int" where
  "root_level_sl0 root = (if root = 3 then 3 else if root = 2 then 0 else if root = 1 then 1 else if root = 0 then 2 else -1)"

definition VTCR_BASE :: u64 where
  "VTCR_BASE = push_bit 12 3 OR push_bit 21 1 OR push_bit 22 1 OR push_bit 14 0 OR push_bit 10 1 OR
     push_bit 8 1 OR push_bit 29 1 OR push_bit 30 1 OR push_bit 31 1"

text \<open>\<open>mmfr0\<close> is the value of \<^verbatim>\<open>id_aa64mmfr0_el1\<close>; the result is the tables' globals, VTCR and memory.\<close>

definition s2mmu_init :: "u64 \<Rightarrow> u64 \<Rightarrow> mstate \<Rightarrow> (s2mmu \<times> u64 \<times> mstate) res" where
  "s2mmu_init pv mmfr0 s =
     (let idx = unat (mmfr0 AND 0xf) in
      if idx \<ge> length parange_map then Inl (Undefined ''parange_map'')
      else
        let parange = parange_map ! idx; min_t0sz = 64 - parange; t0sz = 64 - 44 in
        if t0sz < min_t0sz then Inl (Panic ''t0sz'')
        else
          let vtcr = VTCR_BASE OR (word_of_int t0sz AND 0x3f) OR push_bit 16 4 OR
                     push_bit 6 (word_of_int (root_level_sl0 0) AND 3)
          in bind_res (alloc_page s) (\<lambda>(p, s1).
               if p = 0 then Inl (Panic ''vttbr failed'')
               else Inr (\<lparr>vttbr = p, s2_root_level = 0, pvoff = pv\<rparr>, vtcr, s1)))"

definition hpfar_is_valid :: "u64 \<Rightarrow> bool" where
  "hpfar_is_valid esr \<longleftrightarrow> \<not> (esr AND 0x80 = 0 \<and> esr AND 0xc = 0xc)"

text \<open>The registers are arguments: FAR, HPFAR and what the \<^verbatim>\<open>at s1e1r\<close> translation leaves in PAR.\<close>

definition faulting_addr :: "u64 \<Rightarrow> u64 \<Rightarrow> u64 \<Rightarrow> (u64 \<Rightarrow> u64) \<Rightarrow> (u64 \<times> ipa) option" where
  "faulting_addr esr far hpfar at_s1e1r =
     (if hpfar_is_valid esr then Some (far, push_bit 8 (hpfar AND 0xfffffffffff))
      else let par = at_s1e1r far in if par AND 1 \<noteq> 0 then None else Some (far, par AND 0xfffffffff000))"

section \<open>The tables as a map from pages to entries\<close>

text \<open>
  What the shared memory needs of the tables: entries are found by page, an update of a present
  entry is seen through every address of that page and through no other.
\<close>

locale entry_store =
  fixes get :: "'s \<Rightarrow> ipa \<Rightarrow> u64"
    and put :: "'s \<Rightarrow> ipa \<Rightarrow> u64 \<Rightarrow> 's"
    and wf :: "'s \<Rightarrow> bool"
    and present :: "'s \<Rightarrow> ipa \<Rightarrow> bool"
  assumes get_same_page: "page_no a = page_no b \<Longrightarrow> get s a = get s b"
    and put_wf: "wf s \<Longrightarrow> present s a \<Longrightarrow> unat a < va_space 3 \<Longrightarrow> wf (put s a v)"
    and put_present: "wf s \<Longrightarrow> present s a \<Longrightarrow> unat a < va_space 3 \<Longrightarrow> present (put s a v) b = present s b"
    and get_put: "wf s \<Longrightarrow> present s a \<Longrightarrow> unat a < va_space 3 \<Longrightarrow> unat b < va_space 3 \<Longrightarrow>
        get (put s a v) b = (if page_no b = page_no a then v else get s b)"
    and absent: "\<not> present s a \<Longrightarrow> get s a = 0"
begin

lemma accessible_present: "pte_accessible (get s a) \<Longrightarrow> present s a"
  using absent [of s a] by (cases "present s a") (auto simp: pte_pred_bits)

lemma modify_twice:
  assumes "wf s" and "present s a" and "unat a < va_space 3" and "unat b < va_space 3"
  shows "get (put (put s a v) a w) b = get (put s a w) b"
  using assms put_wf put_present get_put by simp

lemma only_owner_changes:
  assumes "wf s" and "pte_accessible (get s a)" and "unat a < va_space 3" and "unat b < va_space 3"
    and "page_no b \<noteq> page_no a"
  shows "pte_owner (get (put s a v) b) = pte_owner (get s b)"
  using assms accessible_present get_put by simp

end

definition s2_view :: "s2mmu \<Rightarrow> mstate \<Rightarrow> ipa \<Rightarrow> u64" where
  "s2_view e s ipa = pt_lookup (mem s) (3 - s2_root_level e) (vttbr e) ipa"

definition s2_put :: "s2mmu \<Rightarrow> mstate \<Rightarrow> ipa \<Rightarrow> u64 \<Rightarrow> mstate" where
  "s2_put e s ipa v = write_cell s (s2_walk e s ipa) v"

definition s2_present :: "s2mmu \<Rightarrow> mstate \<Rightarrow> ipa \<Rightarrow> bool" where
  "s2_present e s ipa \<longleftrightarrow> pt_walk (mem s) (3 - s2_root_level e) (vttbr e) ipa \<noteq> None"

definition s2_state :: "s2mmu \<Rightarrow> mstate \<Rightarrow> nat set \<Rightarrow> nat set \<Rightarrow> bool" where
  "s2_state e s A M \<longleftrightarrow> pt_state s A (3 - s2_root_level e) (vttbr e) M \<and> s2_root_level e = 0"

definition s2_wf :: "s2mmu \<Rightarrow> mstate \<Rightarrow> bool" where
  "s2_wf e s \<longleftrightarrow> (\<exists>A M. s2_state e s A M)"

lemma s2_walk_eq:
  "s2_walk e s ipa = (case pt_walk (mem s) (3 - s2_root_level e) (vttbr e) ipa of None \<Rightarrow> 0 | Some q \<Rightarrow> q)"
  by (simp add: s2_walk_def pagewalk_def pagewalk_lookup)

lemma s2_walk_present:
  assumes "s2_state e s A M"
  shows "s2_walk e s ipa \<noteq> 0 \<longleftrightarrow> s2_present e s ipa"
    and "s2_present e s ipa \<Longrightarrow> pt_walk (mem s) 3 (vttbr e) ipa = Some (s2_walk e s ipa) \<and>
           unat (s2_walk e s ipa) \<in> M \<and> mem s (s2_walk e s ipa) = s2_view e s ipa"
  using assms leaf_in_tree [of "mem s" "3 - s2_root_level e" "vttbr e" M ipa]
  by (auto simp: s2_walk_eq s2_present_def s2_view_def s2_state_def pt_state_def pt_lookup_def split: option.splits)

lemma s2_put_state:
  assumes "s2_state e s A M" and "s2_present e s a"
  shows "s2_state e (s2_put e s a v) A M"
proof -
  note w = s2_walk_present(2) [OF assms]
  have st: "zone_free s A" "linear_area A" "ptree (mem s) 3 (vttbr e) M" "M \<inter> A = {}" "s2_root_level e = 0"
    using assms(1) by (auto simp: s2_state_def pt_state_def)
  have "zone_free (s2_put e s a v) A"
    unfolding s2_put_def by (rule pa.wr_wf) (use st w in auto)
  then show ?thesis
    using st ptree_store [OF st(3), of a "s2_walk e s a" v] w
    by (simp add: s2_state_def pt_state_def s2_put_def write_cell_def)
qed

lemma s2_put_view:
  assumes "s2_state e s A M" and "s2_present e s a" and "unat a < va_space 3" and "unat b < va_space 3"
  shows "s2_view e (s2_put e s a v) b = (if page_no b = page_no a then v else s2_view e s b)"
  using assms(1) s2_walk_present(2) [OF assms(1,2)] pt_lookup_store [of "mem s" 3 "vttbr e" M a] assms(3,4)
  by (auto simp: s2_state_def pt_state_def s2_view_def s2_put_def write_cell_def)

lemma s2_put_present:
  assumes "s2_state e s A M" and "s2_present e s a"
  shows "s2_present e (s2_put e s a v) b = s2_present e s b"
proof -
  have "ptree (mem s) 3 (vttbr e) M" using assms(1) by (auto simp: s2_state_def pt_state_def)
  then have "pt_walk ((mem s)(s2_walk e s a := v)) 3 (vttbr e) b = pt_walk (mem s) 3 (vttbr e) b"
    using ptree_store s2_walk_present(2) [OF assms] by blast
  then show ?thesis
    using assms(1) by (simp add: s2_state_def s2_put_def write_cell_def s2_present_def)
qed

interpretation pts: entry_store "s2_view e" "s2_put e" "s2_wf e" "s2_present e" for e
proof
  fix a b :: ipa and s
  assume "page_no a = page_no b"
  then show "s2_view e s a = s2_view e s b"
    using same_page_same_walk [of a b "3 - s2_root_level e"] by (simp add: s2_view_def pt_lookup_def)
next
  fix s a v assume "s2_wf e s" "s2_present e s a"
  then show "s2_wf e (s2_put e s a v)" using s2_put_state unfolding s2_wf_def by blast
next
  fix s a v b assume "s2_wf e s" "s2_present e s a"
  then show "s2_present e (s2_put e s a v) b = s2_present e s b"
    using s2_put_present unfolding s2_wf_def by blast
next
  fix s a v and b :: ipa
  assume "s2_wf e s" "s2_present e s a" "unat a < va_space 3" "unat b < va_space 3"
  then show "s2_view e (s2_put e s a v) b = (if page_no b = page_no a then v else s2_view e s b)"
    using s2_put_view unfolding s2_wf_def by blast
next
  fix s a assume "\<not> s2_present e s a"
  then show "s2_view e s a = 0" by (simp add: s2_present_def s2_view_def pt_lookup_def)
qed

section \<open>The operations refine the map\<close>

lemma find_pte_view:
  assumes "s2_state e s A M" and "PAGE_ALIGNED ipa" and "\<not> cond 0"
  shows "\<exists>q. find_pte cond e s ipa = Inr q \<and> (q \<noteq> 0 \<longleftrightarrow> cond (s2_view e s ipa)) \<and>
     (q \<noteq> 0 \<longrightarrow> q = s2_walk e s ipa \<and> s2_present e s ipa)"
  using s2_walk_present [OF assms(1), of ipa] assms(2,3) pts.absent [of e s ipa]
  unfolding find_pte_def Let_def by (cases "s2_present e s ipa") auto

lemma zero_entry [simp]: "\<not> pte_rwable 0" "\<not> pte_rdonly 0" "\<not> pte_readable 0" "\<not> pte_accessible 0"
  by (simp_all add: pte_pred_bits)

lemma s2_map_view:
  assumes "s2_state e s A M" and "PAGE_ALIGNED ipa" and "unat ipa + 4096 \<le> va_space 3" and "PAGE_ALIGNED pa"
    and "\<not> pte_accessible (s2_view e s ipa)" and "12288 < card A"
  shows "\<exists>s' A' M'. mappages (pvoff e) s (vttbr e) ipa pa (of_nat PAGESIZE) flags (s2_root_level e) = Inr s' \<and>
     s2_state e s' A' M' \<and> A' \<subseteq> A \<and> M' \<subseteq> M \<union> A \<and>
     (\<forall>b. unat b < va_space 3 \<longrightarrow> s2_view e s' b =
        (if page_no b = page_no ipa then PTE_PA pa OR (flags OR PTE_V OR PTE_AF) else s2_view e s b))"
proof -
  have e0: "s2_root_level e = 0" and st: "pt_state s A (3 - s2_root_level e) (vttbr e) M"
    using assms(1) by (auto simp: s2_state_def)
  have "va_space 3 \<le> 2 ^ 64" by (simp add: va_space_def)
  then have lim: "unat ipa + 4096 \<le> 2 ^ 64" using assms(3) by linarith
  have sz: "PAGE_ALIGNED (of_nat PAGESIZE)" "unat (of_nat PAGESIZE :: u64) = 4096"
    by (simp_all add: page_aligned_unat PAGESIZE_def)
  have pg: "page_no v = page_no ipa \<longleftrightarrow> unat ipa \<le> unat v \<and> unat v < unat ipa + 4096" for v
    by (rule page_no_range [OF assms(2) lim])
  have free: "pt_lookup (mem s) (3 - s2_root_level e) (vttbr e) v AND PTE_AF = 0"
    if "v \<in> va_range ipa (unat (of_nat PAGESIZE :: u64))" for v
    using assms(5) pts.get_same_page [of v ipa e s] pg that sz(2) by (simp add: pte_accessible_def s2_view_def va_range_def)
  have room: "4096 * card (pt_tables (mem s) (3 - s2_root_level e) (vttbr e) (va_range ipa (unat (of_nat PAGESIZE :: u64)))) \<le> card A"
    using tables_page(2) [OF assms(2) lim, of 3 "mem s" "vttbr e"] assms(6) e0 sz(2) by simp
  have first: "PAGE_ADDRESS v = ipa" if "page_no v = page_no ipa" for v
    using that assms(2) page_address_aligned [of ipa] by (simp add: page_address_page_no)
  obtain s' A' M' where r: "mappages (pvoff e) s (vttbr e) ipa pa (of_nat PAGESIZE) flags (s2_root_level e) = Inr s'"
    "pt_state s' A' (3 - s2_root_level e) (vttbr e) M'" "A' \<subseteq> A" "M' \<subseteq> M \<union> A"
    "\<forall>v. unat v < va_space (3 - s2_root_level e) \<longrightarrow> pt_lookup (mem s') (3 - s2_root_level e) (vttbr e) v =
        (if v \<in> va_range ipa (unat (of_nat PAGESIZE :: u64)) then mapped_pte ipa pa flags v
         else pt_lookup (mem s) (3 - s2_root_level e) (vttbr e) v)"
    using mappages_spec [OF st assms(2,4) sz(1) _ room free, of "pvoff e" flags] assms(3) e0 sz(2) by auto
  then show ?thesis
    using e0 first sz(2) pg by (intro exI [of _ s'] exI [of _ A'] exI [of _ M']) (auto simp: s2_state_def s2_view_def va_range_def mapped_pte_def)
qed

lemma s2_invalidate_state:
  assumes "s2_state e s A M" and "pte_accessible (s2_view e s ipa)" and "PAGE_ALIGNED ipa" and "unat ipa < va_space 3"
  defines "p \<equiv> phys2virt (PTE_PA (s2_view e s ipa))"
  assumes "block_ok p 0" and "block p 0 \<inter> (A \<union> M) = {}" and "linear_area (block p 0)"
  shows "\<exists>s'. s2_page_invalidate e s ipa = Inr s' \<and> s2_state e s' (A \<union> block p 0) M \<and>
     (\<forall>b. unat b < va_space 3 \<longrightarrow> s2_view e s' b =
        (if page_no b = page_no ipa then s2pte_invalidate (s2_view e s ipa) else s2_view e s b))"
proof -
  have pr: "s2_present e s ipa" using assms(2) by (rule pts.accessible_present)
  let ?t = "s2_put e s ipa (s2pte_invalidate (s2_view e s ipa))"
  note w = s2_walk_present [OF assms(1), of ipa]
  have st: "s2_state e ?t A M" by (rule s2_put_state [OF assms(1) pr])
  then have z: "zone_free ?t A" by (simp add: s2_state_def pt_state_def)
  obtain s' where r: "free_page ?t p = Inr s'" "zone_free s' (A \<union> block p 0)"
    "\<forall>a. unat a \<notin> block p 0 \<longrightarrow> mem s' a = mem ?t a"
    using pa.free_some [OF z assms(6)] assms(7) by blast
  have run: "s2_page_invalidate e s ipa = Inr s'"
    using r(1) w pr assms(3) by (simp add: s2_page_invalidate_def s2_put_def p_def)
  have t: "ptree (mem ?t) 3 (vttbr e) M" and e0: "s2_root_level e = 0"
    using st by (auto simp: s2_state_def pt_state_def)
  have same: "mem s' a = mem ?t a" if "unat a \<in> M" for a
  proof -
    have "unat a \<notin> block p 0" using that assms(7) by blast
    then show ?thesis using r(3) by blast
  qed
  note fr = ptree_frame [OF t same]
  have "s2_state e s' (A \<union> block p 0) M"
    using st fr r(2) assms(7,8) e0 by (auto simp: s2_state_def pt_state_def linear_area_def)
  moreover have "s2_view e s' b = s2_view e ?t b" for b
    using fr e0 by (simp add: s2_view_def)
  ultimately show ?thesis
    using run s2_put_view [OF assms(1) pr assms(4)] by auto
qed

section \<open>Properties\<close>

lemma one_block_s2:
  "\<exists>e s A M. s2_state e s A M \<and> card A = 2093056 \<and> A \<union> M \<subseteq> {0xc0200000 ..< 0xc0400000} \<and>
     (\<forall>ipa. s2_view e s ipa = 0)"
proof -
  obtain p s1 A where t: "pt_state s1 A 3 p (block p 0)" "card A = 2093056"
      "A \<union> block p 0 \<subseteq> {0xc0200000 ..< 0xc0400000}" "\<forall>va. pt_lookup (mem s1) 3 p va = 0"
    using one_block_table by blast
  then show ?thesis
    by (intro exI [of _ "\<lparr>vttbr = p, s2_root_level = 0, pvoff = 0\<rparr>"] exI [of _ s1] exI [of _ A] exI [of _ "block p 0"])
      (simp add: s2_state_def s2_view_def)
qed

text \<open>
  C9.  \<^verbatim>\<open>s2_map_page_copyset\<close> on a page that is not accessible implements one update of the map from
  guest pages to entries: the page's entry is the frame with the copyset and no access permission,
  every other page's entry is unchanged, and the tables stay well-formed.
\<close>

theorem s2_map_page_copyset_refines:
  assumes "s2_state e s A M" and "PAGE_ALIGNED ipa" and "unat ipa + 4096 \<le> va_space 3" and "PAGE_ALIGNED pa"
    and "\<not> pte_accessible (s2_view e s ipa)" and "12288 < card A"
  shows "\<exists>s' A' M'. s2_map_page_copyset e s ipa pa copyset = Inr s' \<and> s2_state e s' A' M' \<and>
     (\<forall>b. unat b < va_space 3 \<longrightarrow> s2_view e s' b =
        (if page_no b = page_no ipa then copyset_pte pa copyset else s2_view e s b))"
  using s2_map_view [OF assms, of "S2PTE_NORMAL OR S2PTE_COPYSET copyset"]
  unfolding s2_map_page_copyset_def copyset_pte_def by blast

theorem s2_map_page_copyset_refines_witness:
  "\<exists>e s s'. s2_map_page_copyset e s 0x40000000 0x10000000 3 = Inr s' \<and>
     s2_view e s' 0x40000000 = copyset_pte 0x10000000 3"
proof -
  obtain e s A M where t: "s2_state e s A M" "card A = 2093056" "\<forall>ipa. s2_view e s ipa = 0"
    using one_block_s2 by blast
  have al: "PAGE_ALIGNED 0x40000000" "PAGE_ALIGNED 0x10000000" by (simp_all add: page_aligned_unat)
  have lim: "unat (0x40000000 :: ipa) + 4096 \<le> va_space 3" "unat (0x40000000 :: ipa) < va_space 3"
    by (simp_all add: va_space_def)
  obtain s' where "s2_map_page_copyset e s 0x40000000 0x10000000 3 = Inr s'"
    "\<forall>b. unat b < va_space 3 \<longrightarrow> s2_view e s' b =
        (if page_no b = page_no 0x40000000 then copyset_pte 0x10000000 3 else s2_view e s b)"
    using s2_map_page_copyset_refines [OF t(1) al(1) lim(1) al(2), of 3] t(2,3) by auto
  then show ?thesis using lim(2) by metis
qed

text \<open>
  C10.  \<^verbatim>\<open>s2_page_invalidate\<close> on an accessible page whose frame nobody else uses clears the access flag
  of that page's entry alone and gives the frame back to the page allocator.
\<close>

theorem s2_page_invalidate_refines:
  assumes "s2_state e s A M" and "pte_accessible (s2_view e s ipa)" and "PAGE_ALIGNED ipa" and "unat ipa < va_space 3"
    and "block_ok (phys2virt (PTE_PA (s2_view e s ipa))) 0"
    and "block (phys2virt (PTE_PA (s2_view e s ipa))) 0 \<inter> (A \<union> M) = {}"
    and "linear_area (block (phys2virt (PTE_PA (s2_view e s ipa))) 0)"
  shows "\<exists>s'. s2_page_invalidate e s ipa = Inr s' \<and>
     s2_state e s' (A \<union> block (phys2virt (PTE_PA (s2_view e s ipa))) 0) M \<and>
     (\<forall>b. unat b < va_space 3 \<longrightarrow> s2_view e s' b =
        (if page_no b = page_no ipa then s2pte_invalidate (s2_view e s ipa) else s2_view e s b))"
  by (rule s2_invalidate_state [OF assms])

theorem s2_page_invalidate_refines_witness:
  "\<exists>e s s'. s2_page_invalidate e s 0x40000000 = Inr s' \<and> \<not> pte_accessible (s2_view e s' 0x40000000)"
proof -
  obtain e s A M where t: "s2_state e s A M" "card A = 2093056" "A \<union> M \<subseteq> {0xc0200000 ..< 0xc0400000}"
      "\<forall>ipa. s2_view e s ipa = 0"
    using one_block_s2 by blast
  have al: "PAGE_ALIGNED 0x40000000" "PAGE_ALIGNED 0x10000000" by (simp_all add: page_aligned_unat)
  have lim: "unat (0x40000000 :: ipa) + 4096 \<le> va_space 3" "unat (0x40000000 :: ipa) < va_space 3"
    by (simp_all add: va_space_def)
  obtain s1 A1 M1 where m: "s2_state e s1 A1 M1" "A1 \<subseteq> A" "M1 \<subseteq> M \<union> A"
    "\<forall>b. unat b < va_space 3 \<longrightarrow> s2_view e s1 b =
        (if page_no b = page_no 0x40000000 then copyset_pte 0x10000000 3 else s2_view e s b)"
    using s2_map_view [OF t(1) al(1) lim(1) al(2), of "S2PTE_NORMAL OR S2PTE_COPYSET 3"] t(2,4)
    unfolding copyset_pte_def by auto
  have v: "s2_view e s1 0x40000000 = copyset_pte 0x10000000 3" using m(4) lim(2) by simp
  have p: "phys2virt (PTE_PA (s2_view e s1 0x40000000)) = 0xd0000000"
    unfolding v pte_simps by (simp add: PTE_PA_def phys2virt_def VIRT_BASE_def)
  have b: "block 0xd0000000 0 = {0xd0000000 ..< 0xd0001000}"
    by (simp add: block_def block_size_def PAGESIZE_def)
  have dis: "{0xd0000000 ..< 0xd0001000} \<inter> (A1 \<union> M1) = {}"
  proof -
    have "A1 \<union> M1 \<subseteq> {0xc0200000 ..< 0xc0400000}" using m(2,3) t(3) by blast
    moreover have "{0xd0000000 ..< 0xd0001000} \<inter> {0xc0200000 ..< 0xc0400000 :: nat} = {}" by simp
    ultimately show ?thesis by blast
  qed
  have fr: "block_ok (phys2virt (PTE_PA (s2_view e s1 0x40000000))) 0"
    "block (phys2virt (PTE_PA (s2_view e s1 0x40000000))) 0 \<inter> (A1 \<union> M1) = {}"
    "linear_area (block (phys2virt (PTE_PA (s2_view e s1 0x40000000))) 0)"
    unfolding p b using dis
    by (auto simp: block_ok_def block_size_def PAGESIZE_def linear_area_def VIRT_BASE_def)
  obtain s' where "s2_page_invalidate e s1 0x40000000 = Inr s'"
      "s2_view e s' 0x40000000 = s2pte_invalidate (s2_view e s1 0x40000000)"
    using s2_page_invalidate_refines [OF m(1) _ al(1) lim(2) fr] v lim(2) by (auto simp: pte_simps)
  then show ?thesis by (metis owner_ops(2))
qed

text \<open>
  C19.  The entry keeps the readers of a page exactly: serving a read to node \<open>k\<close> makes the owner's
  entry read-only with \<open>k\<close> added to the copyset and the frame unchanged, and the node stays the owner,
  when \<open>k\<close> is one of the four nodes the copyset field has room for.  For a larger \<open>k\<close> the bit is lost,
  and a writable entry becomes one that no longer counts as the owner's.
\<close>

theorem copyset_tracks_reader:
  fixes k :: nat
  assumes "pte_rwable pte" and "s2pte_copyset pte = 0"
  defines "pte' \<equiv> s2pte_add_copyset (s2pte_ro pte) k"
  shows "pte_rdonly pte' \<and> PTE_PA pte' = PTE_PA pte \<and> pte_owner pte' = (k < 4) \<and>
     s2pte_copyset pte' = (if k < 4 then push_bit k 1 else 0)"
proof -
  have c: "\<not> bit pte (55 + j)" if "j < 4" for j
    using assms(2) that by (simp add: copyset_zero_iff)
  have "s2pte_copyset pte' = (if k < 4 then push_bit k 1 else 0)"
    by (rule bit_word_eqI) (auto simp: pte'_def bit_copyset pte_op_bits c bit_exp_iff)
  moreover have "pte_rdonly pte'" using assms(1) by (auto simp: pte'_def pte_bits)
  moreover have "pte_owner pte' = (k < 4)"
    using assms(1) c by (auto simp: pte'_def pte_owner_bits pte_bits)
  ultimately show ?thesis by (simp add: pte'_def pte_simps)
qed

theorem copyset_tracks_reader_witness:
  "pte_owner (s2pte_add_copyset (s2pte_ro 0x4ff) 2) \<and> \<not> pte_owner (s2pte_add_copyset (s2pte_ro 0x4ff) 4)"
proof -
  have p: "pte_rwable 0x4ff" "s2pte_copyset 0x4ff = 0"
    by (simp_all add: pte_rwable_def s2_flag_consts s2pte_copyset_def push_bit_eq_mult)
  show ?thesis
    using copyset_tracks_reader [OF p, of 2] copyset_tracks_reader [OF p, of 4] by simp
qed

end
