(* ===== verification/Cluster.thy ===== *)
theory Cluster
  imports System_Memory
begin

text \<open>
  The cluster of \<^verbatim>\<open>core/node.c\<close> and \<^verbatim>\<open>include/node.h\<close>: node 0 acknowledges itself and the
  sub-nodes that answer its broadcast, handing out node ids, virtual CPU ids and a slice of the
  guest's memory to each, and sends the table to everybody.  The static array
  \<^verbatim>\<open>cluster[NODE_MAX]\<close> is a list of that length.  \<open>cluster_inv\<close> says that the ids are dense and
  that the memory slices follow each other without gap or overlap; it is what makes
  \<^verbatim>\<open>page_manager\<close> and \<^verbatim>\<open>vcpuid_to_node\<close> well-defined on every node.
\<close>

section \<open>State\<close>

definition NODE_MAX :: nat where "NODE_MAX = 32"
definition VCPU_PER_NODE_MAX :: nat where "VCPU_PER_NODE_MAX = 8"
definition VCPU_MAX :: nat where "VCPU_MAX = 4096"
definition NR_NODE :: nat where "NR_NODE = 2"
definition MEM_PER_NODE :: u64 where "MEM_PER_NODE = 512 * 1024 * 1024"
definition GVM_MEMORY :: u64 where "GVM_MEMORY = 1024 * 1024 * 1024"

record cluster_node =
  nodeid :: nat
  mac :: "u8 list"
  cmem :: memrange
  vcpus :: "nat list"
  nvcpu :: nat

record cluster_state =
  cluster :: "cluster_node list"
  nr_cluster_nodes :: nat
  nr_cluster_vcpus :: nat
  node_online_map :: u64
  node_active_map :: u64
  ram_start :: u64

definition zero_node :: cluster_node where
  "zero_node = \<lparr>nodeid = 0, mac = replicate 6 0, cmem = \<lparr>mstart = 0, msize = 0\<rparr>, vcpus = replicate VCPU_PER_NODE_MAX 0, nvcpu = 0\<rparr>"

definition initial_cluster :: cluster_state where
  "initial_cluster = \<lparr>cluster = replicate NODE_MAX zero_node, nr_cluster_nodes = 0, nr_cluster_vcpus = 0,
     node_online_map = 0, node_active_map = 0, ram_start = 0x40000000\<rparr>"

text \<open>The prefix \<^verbatim>\<open>foreach_cluster_node\<close> visits.\<close>

definition live_nodes :: "cluster_state \<Rightarrow> cluster_node list" where
  "live_nodes c = take (nr_cluster_nodes c) (cluster c)"

section \<open>Operations\<close>

definition alloc_nodeid :: "cluster_state \<Rightarrow> (nat \<times> cluster_state) res" where
  "alloc_nodeid c =
     (let id = nr_cluster_nodes c; c1 = c\<lparr>nr_cluster_nodes := id + 1\<rparr> in
      if id \<ge> NODE_MAX then Inl (Panic ''too many node'') else Inr (id, c1))"

definition alloc_vcpuid :: "cluster_state \<Rightarrow> (nat \<times> cluster_state) res" where
  "alloc_vcpuid c =
     (let id = nr_cluster_vcpus c; c1 = c\<lparr>nr_cluster_vcpus := id + 1\<rparr> in
      if id \<ge> VCPU_MAX then Inl (Panic ''too many vcpu'') else Inr (id, c1))"

definition setup_vsm_memrange :: "cluster_state \<Rightarrow> u64 \<Rightarrow> memrange \<times> cluster_state" where
  "setup_vsm_memrange c alloc =
     (\<lparr>mstart = ram_start c, msize = alloc\<rparr>, c\<lparr>ram_start := ram_start c + alloc\<rparr>)"

definition node_set_online :: "cluster_state \<Rightarrow> nat \<Rightarrow> bool \<Rightarrow> cluster_state" where
  "node_set_online c nid online =
     c\<lparr>node_online_map := (if online then node_online_map c OR push_bit nid 1
                            else node_online_map c AND NOT (push_bit nid 1))\<rparr>"

definition node_set_active :: "cluster_state \<Rightarrow> nat \<Rightarrow> bool \<Rightarrow> cluster_state" where
  "node_set_active c nid active =
     c\<lparr>node_active_map := (if active then node_active_map c OR push_bit nid 1
                            else node_active_map c AND NOT (push_bit nid 1))\<rparr>"

definition node_online :: "cluster_state \<Rightarrow> nat \<Rightarrow> bool" where
  "node_online c nid \<longleftrightarrow> node_online_map c AND push_bit nid 1 \<noteq> 0"

definition node_active :: "cluster_state \<Rightarrow> nat \<Rightarrow> bool" where
  "node_active c nid \<longleftrightarrow> node_active_map c AND push_bit nid 1 \<noteq> 0"

text \<open>The masks are computed in \<^verbatim>\<open>int\<close>: with 31 nodes or more the shift or the subtraction overflows.\<close>

definition node_mask :: "nat \<Rightarrow> u64 res" where
  "node_mask n = (if n < 31 then Inr (push_bit n 1 - 1) else Inl (Undefined ''1 << n''))"

definition all_node_is_online :: "cluster_state \<Rightarrow> bool res" where
  "all_node_is_online c =
     bind_res (node_mask NR_NODE) (\<lambda>nodemask. Inr (node_online_map c AND nodemask = nodemask))"

definition all_node_is_active :: "cluster_state \<Rightarrow> bool res" where
  "all_node_is_active c =
     bind_res (node_mask (nr_cluster_nodes c)) (\<lambda>nodemask. Inr (node_active_map c AND nodemask = nodemask))"

fun alloc_vcpus :: "cluster_state \<Rightarrow> nat list \<Rightarrow> nat \<Rightarrow> nat \<Rightarrow> (nat list \<times> cluster_state) res" where
  "alloc_vcpus c ids i 0 = Inr (ids, c)"
| "alloc_vcpus c ids i (Suc n) =
     (if i \<ge> VCPU_PER_NODE_MAX then Inl (Undefined ''vcpus[8]'')
      else bind_res (alloc_vcpuid c) (\<lambda>(v, c1). alloc_vcpus c1 (ids[i := v]) (Suc i) n))"

definition node0_ack_node :: "cluster_state \<Rightarrow> u8 list option \<Rightarrow> nat \<Rightarrow> u64 \<Rightarrow> cluster_state res" where
  "node0_ack_node c hw nvcpus allocated =
     bind_res (alloc_nodeid c) (\<lambda>(nid, c1).
       let c2 = node_set_online c1 nid True;
           n = cluster c2 ! nid;
           n1 = n\<lparr>nodeid := nid, mac := (case hw of Some m \<Rightarrow> m | None \<Rightarrow> mac n)\<rparr>;
           (m, c3) = setup_vsm_memrange c2 allocated;
           n2 = n1\<lparr>cmem := m, nvcpu := nvcpus\<rparr>
       in bind_res (alloc_vcpus c3 (vcpus n2) 0 nvcpus) (\<lambda>(ids, c4).
            Inr (c4\<lparr>cluster := (cluster c4)[nid := n2\<lparr>vcpus := ids\<rparr>]\<rparr>)))"

definition cluster_node :: "cluster_state \<Rightarrow> nat \<Rightarrow> cluster_node res" where
  "cluster_node c nid = (if nid \<ge> NODE_MAX then Inl (Panic ''node'') else Inr (cluster c ! nid))"

definition vcpuid_in_cluster :: "cluster_node \<Rightarrow> nat \<Rightarrow> bool" where
  "vcpuid_in_cluster n v \<longleftrightarrow> v \<in> set (take (nvcpu n) (vcpus n))"

definition vcpuid_to_node :: "cluster_state \<Rightarrow> nat \<Rightarrow> cluster_node option" where
  "vcpuid_to_node c v = List.find (\<lambda>n. vcpuid_in_cluster n v) (live_nodes c)"

definition macaddr_to_node :: "cluster_state \<Rightarrow> u8 list \<Rightarrow> cluster_node option" where
  "macaddr_to_node c m = List.find (\<lambda>n. mac n = m) (live_nodes c)"

definition vcpuid_to_nodeid :: "cluster_state \<Rightarrow> nat \<Rightarrow> int" where
  "vcpuid_to_nodeid c v = (case vcpuid_to_node c v of Some n \<Rightarrow> int (nodeid n) | None \<Rightarrow> -1)"

text \<open>\<^verbatim>\<open>page_manager\<close> of \<^verbatim>\<open>vsm.c\<close>: the node whose slice holds the address, -1 if none does.\<close>

definition page_manager :: "cluster_state \<Rightarrow> u64 \<Rightarrow> int" where
  "page_manager c ipa =
     (case List.find (\<lambda>n. in_memrange (cmem n) ipa) (live_nodes c) of
        Some n \<Rightarrow> int (nodeid n) | None \<Rightarrow> -1)"

text \<open>
  A sub-node installs node 0's table and looks for itself by its MAC address: the result is the new
  table and the id found, if any; the last match wins, as in the loop.
\<close>

fun recognize :: "u8 list \<Rightarrow> cluster_node list \<Rightarrow> nat \<Rightarrow> nat option \<Rightarrow> nat option" where
  "recognize me [] i acc = acc"
| "recognize me (n # ns) i acc = recognize me ns (Suc i) (if mac n = me then Some i else acc)"

definition mark_all :: "cluster_state \<Rightarrow> nat \<Rightarrow> cluster_state" where
  "mark_all c nnodes = foldl (\<lambda>c i. node_set_active (node_set_online c i True) i True) c [0..<nnodes]"

definition update_cluster_info ::
    "cluster_state \<Rightarrow> nat option \<Rightarrow> u8 list \<Rightarrow> nat \<Rightarrow> nat \<Rightarrow> cluster_node list \<Rightarrow> (nat \<times> cluster_state) res" where
  "update_cluster_info c acked me nnodes nvcpus info =
     (let c1 = mark_all (c\<lparr>nr_cluster_nodes := nnodes, nr_cluster_vcpus := nvcpus, cluster := info\<rparr>) nnodes in
      case recognize me (take nnodes info) 0 acked of
        Some i \<Rightarrow> Inr (i, c1) | None \<Rightarrow> Inl (Panic ''whoami????''))"

definition recv_sub_setup_done_notify_intr :: "cluster_state \<Rightarrow> nat \<Rightarrow> u8 \<Rightarrow> cluster_state" where
  "recv_sub_setup_done_notify_intr c src_nodeid status = node_set_active c src_nodeid True"

section \<open>Invariant\<close>

primrec slices :: "nat \<Rightarrow> cluster_node list \<Rightarrow> nat \<Rightarrow> bool" where
  "slices b [] e \<longleftrightarrow> b = e"
| "slices b (n # ns) e \<longleftrightarrow> unat (mstart (cmem n)) = b \<and> slices (b + unat (msize (cmem n))) ns e"

definition vcpu_ids :: "cluster_node \<Rightarrow> nat list" where
  "vcpu_ids n = take (nvcpu n) (vcpus n)"

definition cluster_inv :: "cluster_state \<Rightarrow> bool" where
  "cluster_inv c \<longleftrightarrow>
     length (cluster c) = NODE_MAX \<and> nr_cluster_nodes c \<le> NODE_MAX \<and>
     (\<forall>i < NODE_MAX. length (vcpus (cluster c ! i)) = VCPU_PER_NODE_MAX) \<and>
     (\<forall>i < nr_cluster_nodes c. nodeid (cluster c ! i) = i \<and> node_online c i) \<and>
     slices 0x40000000 (live_nodes c) (unat (ram_start c)) \<and>
     concat (map vcpu_ids (live_nodes c)) = [0..<nr_cluster_vcpus c]"

section \<open>Lemmas\<close>

lemma alloc_vcpus_spec:
  "i + n \<le> VCPU_PER_NODE_MAX \<Longrightarrow> length ids = VCPU_PER_NODE_MAX \<Longrightarrow> nr_cluster_vcpus c + n \<le> VCPU_MAX \<Longrightarrow>
   alloc_vcpus c ids i n =
     Inr (take i ids @ [nr_cluster_vcpus c..<nr_cluster_vcpus c + n] @ drop (i + n) ids,
          c\<lparr>nr_cluster_vcpus := nr_cluster_vcpus c + n\<rparr>)"
proof (induction n arbitrary: c ids i)
  case 0
  then show ?case by simp
next
  case (Suc n)
  let ?v = "nr_cluster_vcpus c" and ?c = "c\<lparr>nr_cluster_vcpus := nr_cluster_vcpus c + 1\<rparr>"
  have al: "alloc_vcpuid c = Inr (?v, ?c)" using Suc.prems(3) by (simp add: alloc_vcpuid_def Let_def)
  have ih: "alloc_vcpus ?c (ids[i := ?v]) (Suc i) n =
     Inr (take (Suc i) (ids[i := ?v]) @ [?v + 1..<?v + 1 + n] @ drop (Suc i + n) (ids[i := ?v]),
          ?c\<lparr>nr_cluster_vcpus := ?v + 1 + n\<rparr>)"
    using Suc.IH [of "Suc i" "ids[i := ?v]" ?c] Suc.prems by simp
  have "i < length ids" using Suc.prems by simp
  then have "take (Suc i) (ids[i := ?v]) = take i ids @ [?v]"
    by (simp add: take_Suc_conv_app_nth)
  moreover have "[?v..<?v + Suc n] = ?v # [?v + 1..<?v + 1 + n]"
    by (simp add: upt_conv_Cons)
  ultimately show ?case
    using al ih Suc.prems(1) by simp
qed

lemma slices_append: "slices b (ns @ ms) e \<longleftrightarrow> (\<exists>k. slices b ns k \<and> slices k ms e)"
  by (induction ns arbitrary: b) auto

lemma slices_bounds: "slices b ns e \<Longrightarrow> b \<le> e"
  by (induction ns arbitrary: b) (auto intro: le_trans [OF le_add1])

lemma slices_find:
  assumes "slices b ns e" and "e < 2 ^ 64"
  shows "(b \<le> unat ipa \<and> unat ipa < e \<longleftrightarrow> (\<exists>i < length ns. in_memrange (cmem (ns ! i)) ipa)) \<and>
     (\<forall>i < length ns. \<forall>j < length ns. in_memrange (cmem (ns ! i)) ipa \<and> in_memrange (cmem (ns ! j)) ipa \<longrightarrow> i = j)"
  using assms
proof (induction ns arbitrary: b)
  case Nil
  then show ?case by simp
next
  case (Cons n ns)
  let ?k = "b + unat (msize (cmem n))"
  have sl: "slices ?k ns e" and b: "unat (mstart (cmem n)) = b" using Cons.prems by simp_all
  have k: "?k \<le> e" using slices_bounds [OF sl] .
  have "unat (mstart (cmem n) + msize (cmem n)) = ?k"
    using unat_add_no_wrap [of "mstart (cmem n)" "msize (cmem n)"] b k Cons.prems(2) by simp
  then have here: "in_memrange (cmem n) ipa \<longleftrightarrow> b \<le> unat ipa \<and> unat ipa < ?k"
    using b by (simp add: in_memrange_def word_le_nat_alt word_less_nat_alt)
  note ih = Cons.IH [OF sl Cons.prems(2)]
  have ex: "(\<exists>i < length (n # ns). in_memrange (cmem ((n # ns) ! i)) ipa) \<longleftrightarrow>
      in_memrange (cmem n) ipa \<or> (\<exists>i < length ns. in_memrange (cmem (ns ! i)) ipa)"
    by (auto simp: less_Suc_eq_0_disj)
  have "b \<le> unat ipa \<and> unat ipa < e \<longleftrightarrow> (\<exists>i < length (n # ns). in_memrange (cmem ((n # ns) ! i)) ipa)"
    unfolding ex conjunct1 [OF ih, symmetric] here using k by auto
  moreover have "i = j" if ij: "i < length (n # ns)" "j < length (n # ns)"
      "in_memrange (cmem ((n # ns) ! i)) ipa" "in_memrange (cmem ((n # ns) ! j)) ipa" for i j
  proof -
    have tail: "?k \<le> unat ipa" if "l < length ns" "in_memrange (cmem (ns ! l)) ipa" for l
      using ih that by blast
    show ?thesis
      using ij here tail ih by (cases i; cases j) (auto dest: leD)
  qed
  ultimately show ?case by blast
qed

lemma find_index:
  assumes "i < length xs" and "P (xs ! i)" and "\<And>j. j < length xs \<Longrightarrow> P (xs ! j) \<Longrightarrow> j = i"
  shows "List.find P xs = Some (xs ! i)"
proof -
  have "\<not> P (xs ! j)" if "j < i" for j
    using assms(1) assms(3) [of j] that by auto
  then show ?thesis unfolding find_Some_iff using assms(1,2) by blast
qed

lemma live_nth: "cluster_inv c \<Longrightarrow> i < nr_cluster_nodes c \<Longrightarrow> live_nodes c ! i = cluster c ! i"
  by (simp add: live_nodes_def)

lemma length_live: "cluster_inv c \<Longrightarrow> length (live_nodes c) = nr_cluster_nodes c"
  by (simp add: live_nodes_def cluster_inv_def)

lemma page_manager_spec:
  assumes "cluster_inv c"
  shows "page_manager c ipa = int i \<longleftrightarrow> i < nr_cluster_nodes c \<and> in_memrange (cmem (cluster c ! i)) ipa"
    and "page_manager c ipa = -1 \<longleftrightarrow> \<not> (0x40000000 \<le> unat ipa \<and> unat ipa < unat (ram_start c))"
    and "page_manager c ipa = -1 \<or> (\<exists>i. page_manager c ipa = int i)"
proof -
  have sl: "slices 0x40000000 (live_nodes c) (unat (ram_start c))"
    and id: "\<And>i. i < nr_cluster_nodes c \<Longrightarrow> nodeid (cluster c ! i) = i"
    using assms by (auto simp: cluster_inv_def)
  note f = slices_find [OF sl unat_less_64, of ipa]
  have found: "page_manager c ipa = int j" if "j < nr_cluster_nodes c" "in_memrange (cmem (cluster c ! j)) ipa" for j
  proof -
    have "List.find (\<lambda>n. in_memrange (cmem n) ipa) (live_nodes c) = Some (live_nodes c ! j)"
      by (rule find_index) (use that f live_nth [OF assms] length_live [OF assms] in auto)
    then show ?thesis using that id live_nth [OF assms] by (simp add: page_manager_def)
  qed
  have none: "page_manager c ipa = -1" if "\<not> (\<exists>j < nr_cluster_nodes c. in_memrange (cmem (cluster c ! j)) ipa)"
  proof -
    have "List.find (\<lambda>n. in_memrange (cmem n) ipa) (live_nodes c) = None"
      using that live_nth [OF assms] length_live [OF assms] by (auto simp: find_None_iff in_set_conv_nth)
    then show ?thesis by (simp add: page_manager_def)
  qed
  show "page_manager c ipa = int i \<longleftrightarrow> i < nr_cluster_nodes c \<and> in_memrange (cmem (cluster c ! i)) ipa"
    using found none by fastforce
  show "page_manager c ipa = -1 \<longleftrightarrow> \<not> (0x40000000 \<le> unat ipa \<and> unat ipa < unat (ram_start c))"
    using found none f live_nth [OF assms] length_live [OF assms] by fastforce
  show "page_manager c ipa = -1 \<or> (\<exists>i. page_manager c ipa = int i)"
    using found none by blast
qed

lemma node_online_bit: "nid < 64 \<Longrightarrow> node_online c nid \<longleftrightarrow> bit (node_online_map c) nid"
  using and_exp_eq_0_iff_not_bit [of "node_online_map c" nid] by (simp add: node_online_def)

lemma node_active_bit: "nid < 64 \<Longrightarrow> node_active c nid \<longleftrightarrow> bit (node_active_map c) nid"
  using and_exp_eq_0_iff_not_bit [of "node_active_map c" nid] by (simp add: node_active_def)

lemma ack_result:
  fixes hw :: "u8 list option" and alloc :: u64
  assumes "cluster_inv c" and "nr_cluster_nodes c < NODE_MAX" and "nv \<le> VCPU_PER_NODE_MAX"
    and "nr_cluster_vcpus c + nv \<le> VCPU_MAX"
  defines "i \<equiv> nr_cluster_nodes c"
  defines "n \<equiv> cluster c ! i"
  defines "n' \<equiv> n\<lparr>nodeid := i, mac := (case hw of Some m \<Rightarrow> m | None \<Rightarrow> mac n),
      cmem := \<lparr>mstart = ram_start c, msize = alloc\<rparr>, nvcpu := nv,
      vcpus := [nr_cluster_vcpus c..<nr_cluster_vcpus c + nv] @ drop nv (vcpus n)\<rparr>"
  shows "node0_ack_node c hw nv alloc =
     Inr (c\<lparr>cluster := (cluster c)[i := n'], nr_cluster_nodes := Suc i, nr_cluster_vcpus := nr_cluster_vcpus c + nv,
       node_online_map := node_online_map c OR push_bit i 1, ram_start := ram_start c + alloc\<rparr>)"
proof -
  have "length (vcpus n) = VCPU_PER_NODE_MAX" using assms(1,2) by (simp add: cluster_inv_def n_def i_def)
  then have al: "alloc_vcpus d (vcpus n) 0 nv = Inr ([nr_cluster_vcpus d..<nr_cluster_vcpus d + nv] @ drop nv (vcpus n),
      d\<lparr>nr_cluster_vcpus := nr_cluster_vcpus d + nv\<rparr>)" if "nr_cluster_vcpus d = nr_cluster_vcpus c" for d
    using alloc_vcpus_spec [of 0 nv "vcpus n" d] assms(3,4) that by simp
  show ?thesis
    using assms(2)
    by (cases hw) (simp_all add: node0_ack_node_def alloc_nodeid_def node_set_online_def setup_vsm_memrange_def Let_def
        al i_def [symmetric] n_def [symmetric] n'_def)
qed

lemma ack_inv:
  assumes inv: "cluster_inv c" and lim: "nr_cluster_nodes c < NODE_MAX" "nv \<le> VCPU_PER_NODE_MAX"
      "nr_cluster_vcpus c + nv \<le> VCPU_MAX"
    and wrap: "unat (ram_start c) + unat alloc < 2 ^ 64" and r: "node0_ack_node c hw nv alloc = Inr c'"
  shows "cluster_inv c'"
proof -
  define i where "i = nr_cluster_nodes c"
  define n where "n = cluster c ! i"
  define n' where "n' = n\<lparr>nodeid := i, mac := (case hw of Some m \<Rightarrow> m | None \<Rightarrow> mac n),
      cmem := \<lparr>mstart = ram_start c, msize = alloc\<rparr>, nvcpu := nv,
      vcpus := [nr_cluster_vcpus c..<nr_cluster_vcpus c + nv] @ drop nv (vcpus n)\<rparr>"
  have c': "c' = c\<lparr>cluster := (cluster c)[i := n'], nr_cluster_nodes := Suc i,
      nr_cluster_vcpus := nr_cluster_vcpus c + nv, node_online_map := node_online_map c OR push_bit i 1,
      ram_start := ram_start c + alloc\<rparr>"
    using ack_result [OF inv lim, of hw alloc] r by (cases hw) (simp_all add: i_def n_def n'_def)
  have i: "i < NODE_MAX" and len: "length (cluster c) = NODE_MAX" using inv lim by (simp_all add: i_def cluster_inv_def)
  have live: "live_nodes c' = live_nodes c @ [n']"
    using i len by (simp add: live_nodes_def c' i_def [symmetric] take_Suc_conv_app_nth)
  have ids: "vcpu_ids n' = [nr_cluster_vcpus c..<nr_cluster_vcpus c + nv]"
    by (simp add: vcpu_ids_def n'_def)
  have vl: "length (vcpus n') = VCPU_PER_NODE_MAX"
    using inv i lim(2) by (simp add: n'_def n_def cluster_inv_def)
  have sl: "slices 0x40000000 (live_nodes c') (unat (ram_start c'))"
    using inv unat_add_no_wrap [OF wrap] unfolding live slices_append
    by (intro exI [of _ "unat (ram_start c)"]) (simp add: cluster_inv_def n'_def c')
  have vc: "concat (map vcpu_ids (live_nodes c')) = [0..<nr_cluster_vcpus c']"
  proof -
    have "nr_cluster_vcpus c' = nr_cluster_vcpus c + nv" by (simp add: c')
    then show ?thesis using inv ids by (simp add: live cluster_inv_def upt_add_eq_append [of 0])
  qed
  have on: "nodeid (cluster c' ! j) = j \<and> node_online c' j" if "j < Suc i" for j
  proof -
    have j: "j < 64" using that i by (simp add: NODE_MAX_def)
    have "bit (node_online_map c') j"
      using inv that j node_online_bit [OF j, of c]
      by (auto simp: c' bit_or_iff bit_exp_iff cluster_inv_def i_def less_Suc_eq)
    moreover have "nodeid (cluster c' ! j) = j"
      using inv that len i by (cases "j = i") (auto simp: c' n'_def cluster_inv_def i_def less_Suc_eq)
    ultimately show ?thesis using node_online_bit [OF j] by blast
  qed
  have "length (vcpus (cluster c' ! j)) = VCPU_PER_NODE_MAX" if "j < NODE_MAX" for j
    using inv that len vl by (cases "j = i") (auto simp: c' cluster_inv_def)
  then show ?thesis
    unfolding cluster_inv_def using sl vc on len i by (simp add: c' Suc_leI)
qed

lemma initial_cluster_inv: "cluster_inv initial_cluster"
  by (simp add: cluster_inv_def initial_cluster_def live_nodes_def zero_node_def)

lemma vcpu_owner:
  assumes e: "concat (map vcpu_ids ns) = [a..<b]"
  shows "a \<le> v \<and> v < b \<longleftrightarrow> (\<exists>i < length ns. v \<in> set (vcpu_ids (ns ! i)))"
    and "i < length ns \<Longrightarrow> j < length ns \<Longrightarrow> v \<in> set (vcpu_ids (ns ! i)) \<Longrightarrow> v \<in> set (vcpu_ids (ns ! j)) \<Longrightarrow> i = j"
proof -
  have "(\<exists>i < length ns. v \<in> set (vcpu_ids (ns ! i))) \<longleftrightarrow> (\<exists>n \<in> set ns. v \<in> set (vcpu_ids n))"
    by (metis in_set_conv_nth)
  also have "\<dots> \<longleftrightarrow> v \<in> set (concat (map vcpu_ids ns))" by simp
  also have "\<dots> \<longleftrightarrow> a \<le> v \<and> v < b" unfolding e by auto
  finally show "a \<le> v \<and> v < b \<longleftrightarrow> (\<exists>i < length ns. v \<in> set (vcpu_ids (ns ! i)))" by blast
  have "distinct (concat (map vcpu_ids ns))" unfolding e by simp
  then show "i = j" if "i < length ns" "j < length ns" "v \<in> set (vcpu_ids (ns ! i))" "v \<in> set (vcpu_ids (ns ! j))"
    using that
  proof (induction ns arbitrary: i j)
    case (Cons n ns)
    then show ?case by (cases i; cases j) (auto dest!: nth_mem simp: disjoint_iff)
  qed simp
qed

text \<open>The vCPU ids of the nodes are all the ids in use, and a lookup finds the node that has an id.\<close>

lemma vcpu_home:
  assumes "cluster_inv c"
  shows "v < nr_cluster_vcpus c \<longleftrightarrow> (\<exists>i < nr_cluster_nodes c. vcpuid_in_cluster (cluster c ! i) v)"
    and "i < nr_cluster_nodes c \<Longrightarrow> vcpuid_in_cluster (cluster c ! i) v \<Longrightarrow> vcpuid_to_nodeid c v = int i"
proof -
  have "concat (map vcpu_ids (live_nodes c)) = [0..<nr_cluster_vcpus c]"
    and id: "\<And>i. i < nr_cluster_nodes c \<Longrightarrow> nodeid (cluster c ! i) = i"
    using assms by (auto simp: cluster_inv_def)
  note o = vcpu_owner [OF this(1)] and live = live_nth [OF assms] and len = length_live [OF assms]
  have in_ids: "vcpuid_in_cluster n v \<longleftrightarrow> v \<in> set (vcpu_ids n)" for n
    by (simp add: vcpuid_in_cluster_def vcpu_ids_def)
  show "v < nr_cluster_vcpus c \<longleftrightarrow> (\<exists>i < nr_cluster_nodes c. vcpuid_in_cluster (cluster c ! i) v)"
    using o(1) [of v] live by (auto simp: len in_ids)
  assume i: "i < nr_cluster_nodes c" "vcpuid_in_cluster (cluster c ! i) v"
  have u: "j = i" if j: "j < nr_cluster_nodes c" "vcpuid_in_cluster (cluster c ! j) v" for j
    using o(2) [of j i v] j i live [of i] live [of j] by (simp add: len in_ids)
  have "List.find (\<lambda>n. vcpuid_in_cluster n v) (live_nodes c) = Some (live_nodes c ! i)"
  proof (rule find_index)
    show "i < length (live_nodes c)" "vcpuid_in_cluster (live_nodes c ! i) v" using i live [of i] by (simp_all add: len)
    show "j = i" if "j < length (live_nodes c)" "vcpuid_in_cluster (live_nodes c ! j) v" for j
      using u [of j] that live [of j] by (simp add: len)
  qed
  then show "vcpuid_to_nodeid c v = int i"
    using id i live by (simp add: vcpuid_to_nodeid_def vcpuid_to_node_def)
qed

lemma initial_fields:
  "nr_cluster_nodes initial_cluster = 0" "nr_cluster_vcpus initial_cluster = 0"
  "ram_start initial_cluster = 0x40000000" "MEM_PER_NODE = 0x20000000"
  by (simp_all add: initial_cluster_def MEM_PER_NODE_def)

section \<open>Properties\<close>

text \<open>
  C7.  Acknowledging a node that fits (a free slot, at most eight virtual CPUs, ids left, no wrap of
  the guest address space) succeeds and keeps the cluster well-formed: dense node ids that are
  online, memory slices that follow each other from 0x40000000 without gap or overlap, dense virtual
  CPU ids.  The new node is the next id and gets the slice at the old end of memory.
\<close>

theorem node0_ack_node_correct:
  assumes "cluster_inv c" and "nr_cluster_nodes c < NODE_MAX" and "nv \<le> VCPU_PER_NODE_MAX"
    and "nr_cluster_vcpus c + nv \<le> VCPU_MAX" and "unat (ram_start c) + unat alloc < 2 ^ 64"
  shows "\<exists>c'. node0_ack_node c hw nv alloc = Inr c' \<and> cluster_inv c' \<and>
     nr_cluster_nodes c' = nr_cluster_nodes c + 1 \<and> node_online c' (nr_cluster_nodes c) \<and>
     cmem (cluster c' ! nr_cluster_nodes c) = \<lparr>mstart = ram_start c, msize = alloc\<rparr> \<and>
     ram_start c' = ram_start c + alloc \<and>
     (\<forall>i < nr_cluster_nodes c. cluster c' ! i = cluster c ! i)"
proof -
  obtain c' where r: "node0_ack_node c hw nv alloc = Inr c'"
    using ack_result [OF assms(1-4)] by blast
  have "cluster_inv c'" by (rule ack_inv [OF assms r])
  moreover have "length (cluster c) = NODE_MAX" using assms(1) by (simp add: cluster_inv_def)
  ultimately show ?thesis
    using ack_result [OF assms(1-4), of hw alloc] r assms(2)
    by (cases hw) (auto simp: cluster_inv_def)
qed

theorem node0_ack_node_correct_witness:
  "\<exists>c'. node0_ack_node initial_cluster (Some [1, 2, 3, 4, 5, 6]) 2 MEM_PER_NODE = Inr c' \<and> cluster_inv c' \<and>
     ram_start c' = 0x60000000"
  using node0_ack_node_correct [OF initial_cluster_inv, of 2 MEM_PER_NODE "Some [1, 2, 3, 4, 5, 6]"]
  unfolding initial_fields by (auto simp: NODE_MAX_def VCPU_PER_NODE_MAX_def VCPU_MAX_def)

text \<open>
  C23.  On a well-formed cluster every address of the guest's memory has exactly one manager, the node
  whose slice holds it, and \<^verbatim>\<open>page_manager\<close> finds it; for every other address it answers -1.
\<close>

theorem page_manager_unique:
  assumes "cluster_inv c"
  shows "if 0x40000000 \<le> unat ipa \<and> unat ipa < unat (ram_start c)
     then \<exists>!i. i < nr_cluster_nodes c \<and> in_memrange (cmem (cluster c ! i)) ipa \<and> page_manager c ipa = int i
     else page_manager c ipa = -1 \<and> (\<forall>i < nr_cluster_nodes c. \<not> in_memrange (cmem (cluster c ! i)) ipa)"
proof -
  note s = page_manager_spec [OF assms, of ipa]
  show ?thesis
  proof (cases "0x40000000 \<le> unat ipa \<and> unat ipa < unat (ram_start c)")
    case True
    then obtain i where i: "page_manager c ipa = int i" using s(2,3) by blast
    have "\<exists>!i. i < nr_cluster_nodes c \<and> in_memrange (cmem (cluster c ! i)) ipa \<and> page_manager c ipa = int i"
      by (rule ex1I [of _ i]) (use i s(1) [of i] in simp_all)
    then show ?thesis unfolding if_P [OF True] .
  next
    case False
    then have m: "page_manager c ipa = -1" using s(2) by blast
    then have "\<not> in_memrange (cmem (cluster c ! i)) ipa" if "i < nr_cluster_nodes c" for i
      using s(1) [of i] that by auto
    then show ?thesis unfolding if_not_P [OF False] using m by blast
  qed
qed

lemma one_node_cluster:
  "\<exists>c. cluster_inv c \<and> nr_cluster_nodes c = 1 \<and> nr_cluster_vcpus c = 2 \<and> ram_start c = 0x60000000"
proof -
  have lim: "nr_cluster_nodes initial_cluster < NODE_MAX" "2 \<le> VCPU_PER_NODE_MAX"
    "nr_cluster_vcpus initial_cluster + 2 \<le> VCPU_MAX" "unat (ram_start initial_cluster) + unat MEM_PER_NODE < 2 ^ 64"
    unfolding initial_fields by (simp_all add: NODE_MAX_def VCPU_PER_NODE_MAX_def VCPU_MAX_def)
  note r = ack_result [OF initial_cluster_inv lim(1-3), of None MEM_PER_NODE]
  note i = ack_inv [OF initial_cluster_inv lim r]
  show ?thesis
    by (rule exI, rule conjI [OF i]) (simp only: initial_fields cluster_state.simps, simp)
qed

theorem page_manager_unique_witness:
  "\<exists>c. cluster_inv c \<and> page_manager c 0x40001000 = 0 \<and> page_manager c 0x60000000 = -1"
proof -
  obtain c where c: "cluster_inv c" "nr_cluster_nodes c = 1" "ram_start c = 0x60000000"
    using one_node_cluster by blast
  have in_ram: "0x40000000 \<le> unat (0x40001000 :: u64) \<and> unat (0x40001000 :: u64) < unat (ram_start c)"
    and out: "\<not> (0x40000000 \<le> unat (0x60000000 :: u64) \<and> unat (0x60000000 :: u64) < unat (ram_start c))"
    by (simp_all add: c(3))
  have "\<exists>i < 1. page_manager c 0x40001000 = int i"
    using page_manager_unique [OF c(1), of "0x40001000", unfolded if_P [OF in_ram] c(2)] by blast
  then have "page_manager c 0x40001000 = 0" by simp
  moreover have "page_manager c 0x60000000 = -1"
    using page_manager_unique [OF c(1), of "0x60000000", unfolded if_not_P [OF out]] by blast
  ultimately show ?thesis using c(1) by blast
qed

text \<open>
  On a well-formed cluster each of the allocated virtual CPU ids belongs to exactly one node,
  the one \<^verbatim>\<open>vcpuid_to_nodeid\<close> returns; an id that was not allocated belongs to none and gives -1.
\<close>

lemma vcpuid_to_nodeid_unique:
  assumes "cluster_inv c"
  shows "if v < nr_cluster_vcpus c
     then \<exists>!i. i < nr_cluster_nodes c \<and> vcpuid_in_cluster (cluster c ! i) v \<and> vcpuid_to_nodeid c v = int i
     else vcpuid_to_nodeid c v = -1"
proof (cases "v < nr_cluster_vcpus c")
  case True
  then obtain i where i: "i < nr_cluster_nodes c" "vcpuid_in_cluster (cluster c ! i) v"
    using vcpu_home(1) [OF assms] by blast
  then have "\<exists>!i. i < nr_cluster_nodes c \<and> vcpuid_in_cluster (cluster c ! i) v \<and> vcpuid_to_nodeid c v = int i"
    using vcpu_home(2) [OF assms] by (intro ex1I [of _ i]) auto
  then show ?thesis unfolding if_P [OF True] .
next
  case False
  then have none: "\<not> vcpuid_in_cluster (cluster c ! i) v" if "i < nr_cluster_nodes c" for i
    using vcpu_home(1) [OF assms] that by blast
  have "List.find (\<lambda>n. vcpuid_in_cluster n v) (live_nodes c) = None"
    using none live_nth [OF assms] length_live [OF assms] by (auto simp: find_None_iff in_set_conv_nth)
  then show ?thesis using False by (simp add: vcpuid_to_nodeid_def vcpuid_to_node_def)
qed

lemma vcpuid_to_nodeid_unique_witness:
  "\<exists>c. cluster_inv c \<and> vcpuid_to_nodeid c 1 = 0 \<and> vcpuid_to_nodeid c 2 = -1"
proof -
  obtain c where c: "cluster_inv c" "nr_cluster_nodes c = 1" "nr_cluster_vcpus c = 2"
    using one_node_cluster by blast
  have has: "1 < nr_cluster_vcpus c" and hasnt: "\<not> 2 < nr_cluster_vcpus c" by (simp_all add: c(3))
  have "\<exists>i < 1. vcpuid_to_nodeid c 1 = int i"
    using vcpuid_to_nodeid_unique [OF c(1), of 1, unfolded if_P [OF has] c(2)] by blast
  then have "vcpuid_to_nodeid c 1 = 0" by simp
  moreover have "vcpuid_to_nodeid c 2 = -1"
    using vcpuid_to_nodeid_unique [OF c(1), of 2, unfolded if_not_P [OF hasnt]] .
  ultimately show ?thesis using c(1) by blast
qed

end
