(* ===== verification/Msg_Queue.thy ===== *)
theory Msg_Queue
  imports Prelude
begin

text \<open>
  The intrusive queue of \<^verbatim>\<open>core/msg.c\<close> (\<^verbatim>\<open>msg_enqueue\<close>, \<^verbatim>\<open>msg_dequeue\<close>), which the
  shared memory's wait queues repeat.  Messages are identified by their addresses; the
  \<^verbatim>\<open>next\<close> fields of all messages are one map and 0 is NULL.  \<open>repr\<close> relates a queue to the list
  of messages it holds, and the \<open>fifo\<close> interface states what the users of a queue rely on.
\<close>

type_synonym msgid = nat

record msg_queue =
  head :: msgid
  tail :: msgid

record qstate =
  q :: msg_queue
  nextp :: "msgid \<Rightarrow> msgid"

definition msg_queue_init :: "qstate \<Rightarrow> qstate" where
  "msg_queue_init s = s\<lparr>q := \<lparr>head = 0, tail = 0\<rparr>\<rparr>"

definition msg_queue_empty :: "qstate \<Rightarrow> bool" where
  "msg_queue_empty s \<longleftrightarrow> head (q s) = 0"

definition msg_enqueue :: "qstate \<Rightarrow> msgid \<Rightarrow> qstate" where
  "msg_enqueue s m =
     (let nx = (nextp s)(m := 0);
          qu = q s;
          qu1 = (if head qu = 0 then qu\<lparr>head := m\<rparr> else qu);
          nx1 = (if tail qu1 \<noteq> 0 then nx(tail qu1 := m) else nx)
      in s\<lparr>q := qu1\<lparr>tail := m\<rparr>, nextp := nx1\<rparr>)"

text \<open>An empty queue makes \<^verbatim>\<open>msg_dequeue\<close> sleep until a message arrives: the result \<open>None\<close>.\<close>

definition msg_dequeue :: "qstate \<Rightarrow> (msgid \<times> qstate) option" where
  "msg_dequeue s =
     (if msg_queue_empty s then None
      else
        let m = head (q s);
            qu = (q s)\<lparr>head := nextp s m\<rparr>;
            qu1 = (if head qu = 0 then qu\<lparr>tail := 0\<rparr> else qu)
        in Some (m, s\<lparr>q := qu1\<rparr>))"

text \<open>The way \<^verbatim>\<open>do_recv_waitqueue\<close> and \<^verbatim>\<open>vsm_process_wq_core\<close> empty a queue at once.\<close>

definition take_all :: "qstate \<Rightarrow> msgid \<times> qstate" where
  "take_all s = (head (q s), s\<lparr>q := \<lparr>head = 0, tail = 0\<rparr>\<rparr>)"

primrec linked :: "(msgid \<Rightarrow> msgid) \<Rightarrow> msgid \<Rightarrow> msgid list \<Rightarrow> bool" where
  "linked nx p [] \<longleftrightarrow> p = 0"
| "linked nx p (m # ms) \<longleftrightarrow> p = m \<and> m \<noteq> 0 \<and> linked nx (nx m) ms"

definition repr :: "qstate \<Rightarrow> msgid list \<Rightarrow> bool" where
  "repr s ms \<longleftrightarrow> distinct ms \<and> linked (nextp s) (head (q s)) ms \<and> tail (q s) = (if ms = [] then 0 else last ms)"

section \<open>The queue interface\<close>

fun drain :: "('s \<Rightarrow> ('m \<times> 's) option) \<Rightarrow> nat \<Rightarrow> 's \<Rightarrow> 'm list" where
  "drain deq 0 s = []"
| "drain deq (Suc n) s = (case deq s of None \<Rightarrow> [] | Some (m, s') \<Rightarrow> m # drain deq n s')"

locale fifo =
  fixes empty :: "'s \<Rightarrow> 's"
    and enq :: "'s \<Rightarrow> 'm \<Rightarrow> 's"
    and deq :: "'s \<Rightarrow> ('m \<times> 's) option"
    and holds :: "'s \<Rightarrow> 'm list \<Rightarrow> bool"
    and valid :: "'m \<Rightarrow> bool"
  assumes holds_empty: "holds (empty s) []"
    and holds_enq: "holds s ms \<Longrightarrow> valid m \<Longrightarrow> m \<notin> set ms \<Longrightarrow> holds (enq s m) (ms @ [m])"
    and deq_none: "holds s [] \<Longrightarrow> deq s = None"
    and deq_some: "holds s (m # ms) \<Longrightarrow> \<exists>s'. deq s = Some (m, s') \<and> holds s' ms"
begin

lemma drain_holds: "holds s ms \<Longrightarrow> length ms < n \<Longrightarrow> drain deq n s = ms"
proof (induction n arbitrary: s ms)
  case 0
  then show ?case by simp
next
  case (Suc n)
  show ?case
  proof (cases ms)
    case Nil
    then show ?thesis using deq_none Suc.prems(1) by simp
  next
    case (Cons m ms')
    then obtain s' where "deq s = Some (m, s')" "holds s' ms'" using deq_some Suc.prems(1) by blast
    then show ?thesis using Suc.IH [of s' ms'] Suc.prems(2) Cons by simp
  qed
qed

lemma holds_enqs:
  "holds s ms \<Longrightarrow> \<forall>x \<in> set xs. valid x \<Longrightarrow> distinct (ms @ xs) \<Longrightarrow> holds (foldl enq s xs) (ms @ xs)"
proof (induction xs arbitrary: s ms)
  case (Cons x xs)
  have "holds (enq s x) (ms @ [x])" using holds_enq Cons.prems by auto
  from Cons.IH [OF this] Cons.prems show ?case by simp
qed simp

lemma first_in_first_out:
  assumes "\<forall>x \<in> set xs. valid x" and "distinct xs" and "length xs < n"
  shows "drain deq n (foldl enq (empty s) xs) = xs"
  using drain_holds holds_enqs [OF holds_empty assms(1)] assms(2,3) by auto

end

section \<open>The linked queue implements it\<close>

lemma linked_frame: "linked nx p ms \<Longrightarrow> (\<And>m. m \<in> set ms \<Longrightarrow> nx' m = nx m) \<Longrightarrow> linked nx' p ms"
  by (induction ms arbitrary: p) auto

lemma linked_append:
  assumes "linked nx p ms" and "ms \<noteq> []" and "distinct ms" and "m \<notin> set ms" and "m \<noteq> 0"
  shows "linked (nx(m := 0, last ms := m)) p (ms @ [m])"
  using assms
proof (induction ms arbitrary: p)
  case (Cons x xs)
  show ?case
  proof (cases xs)
    case Nil
    then show ?thesis using Cons.prems by auto
  next
    case (Cons y ys)
    have "linked (nx(m := 0, last xs := m)) (nx x) (xs @ [m])"
      by (rule Cons.IH) (use Cons.prems Cons in auto)
    moreover have "x \<noteq> m" "x \<noteq> last xs" "last (x # xs) = last xs" using Cons.prems Cons by auto
    ultimately show ?thesis using Cons.prems(1) by (simp del: fun_upd_apply add: fun_upd_other)
  qed
qed simp

lemma linked_nonzero: "linked nx p ms \<Longrightarrow> m \<in> set ms \<Longrightarrow> m \<noteq> 0"
  by (induction ms arbitrary: p) auto

lemma repr_enqueue:
  assumes "repr s ms" and "m \<noteq> 0" and "m \<notin> set ms"
  shows "repr (msg_enqueue s m) (ms @ [m])"
proof (cases "ms = []")
  case True
  then show ?thesis using assms by (simp add: repr_def msg_enqueue_def Let_def)
next
  case False
  have l: "linked (nextp s) (head (q s)) ms" "tail (q s) = last ms" "distinct ms"
    using assms(1) False by (simp_all add: repr_def)
  have h: "head (q s) \<noteq> 0" using l(1) False by (cases ms) auto
  have "last ms \<noteq> 0" using linked_nonzero [OF l(1)] last_in_set [OF False] by blast
  note h = h this
  show ?thesis
    using linked_append [OF l(1) False l(3) assms(3,2)] h l assms(2,3)
    by (simp add: repr_def msg_enqueue_def Let_def)
qed

lemma repr_dequeue:
  assumes "repr s (m # ms)"
  shows "\<exists>s'. msg_dequeue s = Some (m, s') \<and> repr s' ms"
proof -
  have "linked (nextp s) (nextp s m) ms" "head (q s) = m" "m \<noteq> 0" using assms by (auto simp: repr_def)
  moreover have "nextp s m = 0 \<longleftrightarrow> ms = []" using calculation(1) by (cases ms) auto
  ultimately show ?thesis
    using assms by (auto simp: repr_def msg_dequeue_def msg_queue_empty_def Let_def)
qed

interpretation mq: fifo msg_queue_init msg_enqueue msg_dequeue repr "\<lambda>m. m \<noteq> 0"
proof
  show "repr (msg_queue_init s) []" for s by (simp add: repr_def msg_queue_init_def)
  show "msg_dequeue s = None" if "repr s []" for s
    using that by (simp add: repr_def msg_dequeue_def msg_queue_empty_def)
qed (use repr_enqueue repr_dequeue in blast)+

lemma take_all_walks: "repr s ms \<Longrightarrow> linked (nextp s) (fst (take_all s)) ms \<and> repr (snd (take_all s)) []"
  by (simp add: repr_def take_all_def)

section \<open>Arbitrary use of a queue\<close>

text \<open>
  The receive loops walk the chain they have taken until NULL; a chain with a cycle is walked for
  ever, the result \<open>None\<close>.
\<close>

partial_function (option) walk_chain :: "(msgid \<Rightarrow> msgid) \<Rightarrow> msgid \<Rightarrow> msgid list option" where
  "walk_chain nx m = (if m = 0 then Some [] else Option.bind (walk_chain nx (nx m)) (\<lambda>ms. Some (m # ms)))"

text \<open>
  What may happen to a queue, in any order: a message comes in, a message is waited for, or a
  receive loop takes the whole chain.  A wait at an empty queue sleeps and yields nothing.
\<close>

datatype queue_op = Enqueue msgid | Dequeue | Take_All

fun run_queue :: "queue_op list \<Rightarrow> qstate \<Rightarrow> (msgid list \<times> qstate) option" where
  "run_queue [] s = Some ([], s)"
| "run_queue (Enqueue m # os) s = run_queue os (msg_enqueue s m)"
| "run_queue (Dequeue # os) s =
     (case msg_dequeue s of
        None \<Rightarrow> run_queue os s
      | Some (m, s1) \<Rightarrow> (case run_queue os s1 of None \<Rightarrow> None | Some (out, t) \<Rightarrow> Some (m # out, t)))"
| "run_queue (Take_All # os) s =
     (case take_all s of (h, s1) \<Rightarrow>
        (case walk_chain (nextp s) h of
           None \<Rightarrow> None
         | Some ms \<Rightarrow> (case run_queue os s1 of None \<Rightarrow> None | Some (out, t) \<Rightarrow> Some (ms @ out, t))))"

text \<open>The promise: the same operations on a list of messages.\<close>

fun run_list :: "queue_op list \<Rightarrow> msgid list \<Rightarrow> msgid list \<times> msgid list" where
  "run_list [] ms = ([], ms)"
| "run_list (Enqueue m # os) ms = run_list os (ms @ [m])"
| "run_list (Dequeue # os) ms = (case run_list os (tl ms) of (out, rest) \<Rightarrow> (take 1 ms @ out, rest))"
| "run_list (Take_All # os) ms = (case run_list os [] of (out, rest) \<Rightarrow> (ms @ out, rest))"

fun enqueued :: "queue_op list \<Rightarrow> msgid list" where
  "enqueued [] = []"
| "enqueued (Enqueue m # os) = m # enqueued os"
| "enqueued (Dequeue # os) = enqueued os"
| "enqueued (Take_All # os) = enqueued os"

text \<open>A message object is only put on the queue while it is not there already.\<close>

fun fresh_ops :: "queue_op list \<Rightarrow> msgid list \<Rightarrow> bool" where
  "fresh_ops [] ms \<longleftrightarrow> True"
| "fresh_ops (Enqueue m # os) ms \<longleftrightarrow> m \<noteq> 0 \<and> m \<notin> set ms \<and> fresh_ops os (ms @ [m])"
| "fresh_ops (Dequeue # os) ms \<longleftrightarrow> fresh_ops os (tl ms)"
| "fresh_ops (Take_All # os) ms \<longleftrightarrow> fresh_ops os []"

lemma walk_linked: "linked nx m ms \<Longrightarrow> walk_chain nx m = Some ms"
proof (induction ms arbitrary: m)
  case Nil
  then show ?case by (simp add: walk_chain.simps)
next
  case (Cons x xs)
  then have "walk_chain nx (nx x) = Some xs" "m = x" "x \<noteq> 0" by simp_all
  then show ?case by (subst walk_chain.simps) simp
qed

lemma run_list_order: "run_list os ms = (out, rest) \<Longrightarrow> out @ rest = ms @ enqueued os"
proof (induction os ms arbitrary: out rule: run_list.induct)
  case (3 os ms)
  then show ?case by (cases ms) (auto split: prod.splits)
qed (auto split: prod.splits)

lemma run_queue_simulates:
  "repr s ms \<Longrightarrow> fresh_ops os ms \<Longrightarrow> run_list os ms = (out, rest) \<Longrightarrow>
   \<exists>t. run_queue os s = Some (out, t) \<and> repr t rest"
proof (induction os arbitrary: s ms out)
  case (Cons a os)
  show ?case
  proof (cases a)
    case (Enqueue m)
    then show ?thesis using Cons.IH [OF mq.holds_enq] Cons.prems by auto
  next
    case Dequeue
    show ?thesis
    proof (cases ms)
      case Nil
      then show ?thesis using Cons Dequeue mq.deq_none by (auto split: prod.splits)
    next
      case (Cons m ms')
      then obtain s' where "msg_dequeue s = Some (m, s')" "repr s' ms'" using mq.deq_some Cons.prems(1) by blast
      then show ?thesis using Cons.IH [of s' ms'] Cons.prems Cons Dequeue by (fastforce split: prod.splits)
    qed
  next
    case Take_All
    have "walk_chain (nextp s) (fst (take_all s)) = Some ms" "repr (snd (take_all s)) []"
      using take_all_walks [OF Cons.prems(1)] walk_linked by auto
    then show ?thesis using Cons.IH [of "snd (take_all s)" "[]"] Cons.prems Take_All
      by (fastforce split: prod.splits)
  qed
qed simp

text \<open>
  C17.  The linked queue is first-in first-out under every sequence of uses: starting from an
  initialised queue, whatever the \<^verbatim>\<open>next\<close> fields held before, messages that come in, single
  messages taken out and whole chains taken out may follow each other in any order, also after the
  queue has run empty.  The messages taken out are those that came in, in that order, each once;
  the ones not yet taken are linked in the queue; and they are what a list under the same
  operations gives, so that a wait sleeps exactly when the queue is empty.
\<close>

theorem msg_queue_fifo:
  assumes "fresh_ops os []"
  shows "\<exists>out rest t. run_queue os (msg_queue_init s) = Some (out, t) \<and> out @ rest = enqueued os \<and>
     run_list os [] = (out, rest) \<and> linked (nextp t) (head (q t)) rest \<and>
     (msg_queue_empty t \<longleftrightarrow> rest = [])"
proof -
  obtain out rest where l: "run_list os [] = (out, rest)" by (cases "run_list os []")
  obtain t where t: "run_queue os (msg_queue_init s) = Some (out, t)" "repr t rest"
    using run_queue_simulates [OF mq.holds_empty assms l] by blast
  then have "linked (nextp t) (head (q t)) rest" by (simp add: repr_def)
  moreover have "msg_queue_empty t \<longleftrightarrow> rest = []" using calculation by (cases rest) (auto simp: msg_queue_empty_def)
  ultimately show ?thesis using t l run_list_order [OF l] by auto
qed

theorem msg_queue_fifo_witness:
  "\<exists>t. run_queue [Enqueue 5, Dequeue, Enqueue 3, Dequeue, Dequeue, Enqueue 8, Enqueue 5, Take_All, Enqueue 4]
       (msg_queue_init \<lparr>q = \<lparr>head = 9, tail = 9\<rparr>, nextp = (\<lambda>_. 7)\<rparr>) = Some ([5, 3, 8, 5], t) \<and>
     linked (nextp t) (head (q t)) [4]"
  using msg_queue_fifo [of "[Enqueue 5, Dequeue, Enqueue 3, Dequeue, Dequeue, Enqueue 8, Enqueue 5, Take_All, Enqueue 4]"
      "\<lparr>q = \<lparr>head = 9, tail = 9\<rparr>, nextp = (\<lambda>_. 7)\<rparr>"]
  by auto

end
