(* ===== verification/Msg.thy ===== *)
theory Msg
  imports Msg_Queue
begin

text \<open>
  Inter-node messages, \<^verbatim>\<open>core/msg.c\<close> and \<^verbatim>\<open>include/msg.h\<close>: the message types and the handler
  table, connection ids, initialisation of requests and replies, and the receive path from the
  network interrupt to the handlers.  A message is a value here; the order in which a CPU handles
  what it received is that of its receive queue, which \<open>Msg_Queue\<close> shows to be first-in first-out.
  The payload after the common header is a type parameter, given by the component that sends it.
\<close>

section \<open>Message types\<close>

datatype msgtype =
    MSG_NONE | MSG_INIT | MSG_INIT_ACK | MSG_CLUSTER_INFO | MSG_SETUP_DONE | MSG_CPU_WAKEUP
  | MSG_CPU_WAKEUP_ACK | MSG_SHUTDOWN | MSG_FETCH | MSG_FETCH_REPLY | MSG_INVALIDATE
  | MSG_INVALIDATE_ACK | MSG_INTERRUPT | MSG_MMIO_REQUEST | MSG_MMIO_REPLY | MSG_GIC_CONFIG
  | MSG_SGI | MSG_PANIC | MSG_BOOT_SIG

primrec msgtype_code :: "msgtype \<Rightarrow> nat" where
  "msgtype_code MSG_NONE = 0" | "msgtype_code MSG_INIT = 1" | "msgtype_code MSG_INIT_ACK = 2"
| "msgtype_code MSG_CLUSTER_INFO = 3" | "msgtype_code MSG_SETUP_DONE = 4" | "msgtype_code MSG_CPU_WAKEUP = 5"
| "msgtype_code MSG_CPU_WAKEUP_ACK = 6" | "msgtype_code MSG_SHUTDOWN = 7" | "msgtype_code MSG_FETCH = 8"
| "msgtype_code MSG_FETCH_REPLY = 9" | "msgtype_code MSG_INVALIDATE = 10" | "msgtype_code MSG_INVALIDATE_ACK = 11"
| "msgtype_code MSG_INTERRUPT = 12" | "msgtype_code MSG_MMIO_REQUEST = 13" | "msgtype_code MSG_MMIO_REPLY = 14"
| "msgtype_code MSG_GIC_CONFIG = 15" | "msgtype_code MSG_SGI = 16" | "msgtype_code MSG_PANIC = 17"
| "msgtype_code MSG_BOOT_SIG = 18"

definition all_msgtypes :: "msgtype list" where
  "all_msgtypes = [MSG_NONE, MSG_INIT, MSG_INIT_ACK, MSG_CLUSTER_INFO, MSG_SETUP_DONE, MSG_CPU_WAKEUP,
     MSG_CPU_WAKEUP_ACK, MSG_SHUTDOWN, MSG_FETCH, MSG_FETCH_REPLY, MSG_INVALIDATE, MSG_INVALIDATE_ACK,
     MSG_INTERRUPT, MSG_MMIO_REQUEST, MSG_MMIO_REPLY, MSG_GIC_CONFIG, MSG_SGI, MSG_PANIC, MSG_BOOT_SIG]"

definition NUM_MSG :: nat where
  "NUM_MSG = 19"

definition msgtype_of :: "nat \<Rightarrow> msgtype option" where
  "msgtype_of n = (if n < NUM_MSG then Some (all_msgtypes ! n) else None)"

lemma msgtype_code_inj: "msgtype_code a = msgtype_code b \<Longrightarrow> a = b"
  by (cases a; cases b) simp_all

instantiation msgtype :: linorder
begin

definition less_eq_msgtype :: "msgtype \<Rightarrow> msgtype \<Rightarrow> bool" where
  "less_eq_msgtype a b \<longleftrightarrow> msgtype_code a \<le> msgtype_code b"

definition less_msgtype :: "msgtype \<Rightarrow> msgtype \<Rightarrow> bool" where
  "less_msgtype a b \<longleftrightarrow> msgtype_code a < msgtype_code b"

instance
  by standard (auto simp: less_eq_msgtype_def less_msgtype_def intro: msgtype_code_inj)

end

text \<open>
  The tables the linker builds from the \<^verbatim>\<open>DEFINE_POCV2_MSG\<close> lines: which node has a handler for
  which type.  A reply type has none: its messages go to the CPU that waits for them.
\<close>

definition msg_has_handler :: "bool \<Rightarrow> msgtype \<Rightarrow> bool" where
  "msg_has_handler is_node0 ty \<longleftrightarrow>
     ty \<in> {MSG_FETCH, MSG_INVALIDATE, MSG_CPU_WAKEUP, MSG_PANIC, MSG_MMIO_REQUEST, MSG_SGI, MSG_GIC_CONFIG} \<or>
     is_node0 \<and> ty \<in> {MSG_INIT_ACK, MSG_SETUP_DONE} \<or>
     \<not> is_node0 \<and> ty \<in> {MSG_INIT, MSG_CLUSTER_INFO, MSG_BOOT_SIG}"

definition msg_type_is_reply :: "msgtype \<Rightarrow> bool" where
  "msg_type_is_reply ty \<longleftrightarrow> ty \<in> {MSG_CPU_WAKEUP_ACK, MSG_FETCH_REPLY, MSG_MMIO_REPLY}"

section \<open>Building and sending\<close>

record 'p msg =
  dst_id :: nat
  src_id :: nat
  mtype :: msgtype
  connectionid :: u32
  payload :: 'p
  body :: "u8 list option"

text \<open>The static counter of \<^verbatim>\<open>new_connection\<close> is threaded through.\<close>

definition new_connection :: "u32 \<Rightarrow> nat \<Rightarrow> u32 \<times> u32" where
  "new_connection conid reqcpu = (push_bit 3 conid OR (of_nat reqcpu AND 7), conid + 1)"

definition msg_cpu :: "'p msg \<Rightarrow> nat" where
  "msg_cpu m = unat (connectionid m AND 7)"

definition msginitcore :: "nat \<Rightarrow> nat \<Rightarrow> msgtype \<Rightarrow> 'p \<Rightarrow> u8 list option \<Rightarrow> u32 \<Rightarrow> 'p msg" where
  "msginitcore me dst ty p b cid =
     \<lparr>dst_id = dst, src_id = me, mtype = ty, connectionid = cid, payload = p, body = b\<rparr>"

definition msg_init_reqcpu ::
    "nat \<Rightarrow> u32 \<Rightarrow> nat \<Rightarrow> msgtype \<Rightarrow> 'p \<Rightarrow> u8 list option \<Rightarrow> nat \<Rightarrow> 'p msg \<times> u32" where
  "msg_init_reqcpu me conid dst ty p b reqcpu =
     (let (cid, conid') = new_connection conid reqcpu in (msginitcore me dst ty p b cid, conid'))"

definition msg_reply :: "nat \<Rightarrow> 'p msg \<Rightarrow> msgtype \<Rightarrow> 'p \<Rightarrow> u8 list option \<Rightarrow> 'p msg" where
  "msg_reply me m ty p b = msginitcore me (src_id m) ty p b (connectionid m)"

text \<open>The Ethernet type of a message: its low byte is the protocol, its high byte the message type.\<close>

definition msg_eth_type :: "msgtype \<Rightarrow> u16" where
  "msg_eth_type ty = 0x0019 OR push_bit 8 (of_nat (msgtype_code ty))"

definition eth_is_msg :: "u16 \<Rightarrow> bool" where
  "eth_is_msg t \<longleftrightarrow> t AND 0xff = 0x19"

section \<open>Receiving\<close>

text \<open>
  The receive queue of every CPU, as the list of messages it holds, and the reply slot of the
  virtual CPU that runs on it.
\<close>

record 'p rx =
  recv_waitq :: "nat \<Rightarrow> 'p msg list"
  reply_buf :: "nat \<Rightarrow> 'p msg option"

text \<open>\<^verbatim>\<open>msg_recv\<close> on CPU \<open>me\<close>: the flag says whether another CPU was sent the SGI.\<close>

definition msg_recv :: "'p rx \<Rightarrow> nat \<Rightarrow> 'p msg \<Rightarrow> 'p rx \<times> bool" where
  "msg_recv s me m =
     (let cpu = (if msg_type_is_reply (mtype m) then msg_cpu m else me)
      in (s\<lparr>recv_waitq := (recv_waitq s)(cpu := recv_waitq s cpu @ [m])\<rparr>,
          msg_type_is_reply (mtype m) \<and> cpu \<noteq> me))"

definition set_reply_buf :: "'p rx \<Rightarrow> nat \<Rightarrow> 'p msg \<Rightarrow> 'p rx res" where
  "set_reply_buf s me m =
     assert_res (reply_buf s me = None) ''reply_buf'' (Inr (s\<lparr>reply_buf := (reply_buf s)(me := Some m)\<rparr>))"

text \<open>
  \<^verbatim>\<open>do_recv_waitqueue\<close>: the messages of the queue in order, each to the handler of its type or,
  for a type without one, to the reply slot.  \<open>handle\<close> is the handler table; its state \<open>'s\<close> is
  whatever the handlers change.
\<close>

fun handle_all ::
    "bool \<Rightarrow> ('s \<Rightarrow> 'p msg \<Rightarrow> 's res) \<Rightarrow> nat \<Rightarrow> 'p msg list \<Rightarrow> 's \<times> 'p rx \<Rightarrow> ('s \<times> 'p rx) res" where
  "handle_all node0 handle me [] st = Inr st"
| "handle_all node0 handle me (m # ms) (s, r) =
     (if msg_has_handler node0 (mtype m)
      then bind_res (handle s m) (\<lambda>s1. handle_all node0 handle me ms (s1, r))
      else bind_res (set_reply_buf r me m) (\<lambda>r1. handle_all node0 handle me ms (s, r1)))"

definition do_recv_waitqueue ::
    "bool \<Rightarrow> ('s \<Rightarrow> 'p msg \<Rightarrow> 's res) \<Rightarrow> nat \<Rightarrow> 's \<Rightarrow> 'p rx \<Rightarrow> ('s \<times> 'p rx) res" where
  "do_recv_waitqueue node0 handle me s r =
     handle_all node0 handle me (recv_waitq r me) (s, r\<lparr>recv_waitq := (recv_waitq r)(me := [])\<rparr>)"

text \<open>
  The end of the wait of \<^verbatim>\<open>__send_msg\<close> for a reply, on CPU \<open>me\<close>: the slot is read and cleared, or
  200 ms are over and it is still empty.
\<close>

definition wait_reply :: "nat \<Rightarrow> 'p rx \<Rightarrow> ('p msg \<times> 'p rx) res" where
  "wait_reply me s =
     (case reply_buf s me of
        None \<Rightarrow> Inl (Panic ''deadlock?'')
      | Some m \<Rightarrow> Inr (m, s\<lparr>reply_buf := (reply_buf s)(me := None)\<rparr>))"

section \<open>Lemmas\<close>

lemma conn_cpu: "unat (fst (new_connection c r) AND 7) = r mod 8"
proof -
  have "(push_bit 3 c OR (of_nat r AND 7)) AND 7 = (of_nat r AND 7 :: u32)"
  proof (rule bit_word_eqI)
    fix n
    have m: "(7 :: u32) = mask 3" by (simp add: mask_eq_exp_minus_1)
    show "bit ((push_bit 3 c OR (of_nat r AND 7)) AND 7) n = bit (of_nat r AND 7 :: u32) n"
      unfolding m by (auto simp: bit_simps)
  qed
  moreover have "unat (of_nat r AND 7 :: u32) = r mod 8"
  proof -
    have "(of_nat r AND 7 :: u32) = take_bit 3 (of_nat r)"
      by (simp add: take_bit_eq_mask mask_eq_exp_minus_1)
    then show ?thesis
      by (simp add: unsigned_take_bit_eq unat_of_nat take_bit_take_bit take_bit_nat_def mod_mod_cancel)
  qed
  ultimately show ?thesis by (simp add: new_connection_def)
qed

lemma conn_distinct:
  assumes "fst (new_connection c r) = fst (new_connection d r')"
  shows "take_bit 29 c = take_bit 29 d"
proof (rule bit_word_eqI)
  fix n assume "n < LENGTH(32)"
  have m: "(7 :: u32) = mask 3" by (simp add: mask_eq_exp_minus_1)
  have "bit (fst (new_connection c r)) (n + 3) = bit (fst (new_connection d r')) (n + 3)"
    using assms by simp
  then show "bit (take_bit 29 c) n = bit (take_bit 29 d) n"
    unfolding new_connection_def m by (auto simp: bit_simps)
qed

section \<open>Properties\<close>

text \<open>
  The code of a message type on the wire is read back as that type, codes from
  \<^verbatim>\<open>NUM_MSG\<close> up are rejected, and the Ethernet type of every message is recognised by the receiver
  as this protocol and carries the message type in its high byte.
\<close>

lemma msgtype_roundtrip:
  "msgtype_of (msgtype_code ty) = Some ty \<and> msgtype_of (NUM_MSG + k) = None \<and>
   eth_is_msg (msg_eth_type ty) \<and> msgtype_of (unat (drop_bit 8 (msg_eth_type ty))) = Some ty"
  by (cases ty) (simp_all add: msgtype_of_def NUM_MSG_def all_msgtypes_def eth_is_msg_def msg_eth_type_def)

text \<open>
  A reply comes back to the CPU that sent the request: the connection id of a request made on
  CPU \<open>r\<close> (one of at most eight) carries \<open>r\<close>, the reply repeats it and is addressed to the requesting
  node, and \<^verbatim>\<open>msg_recv\<close> there appends the reply to the receive queue of CPU \<open>r\<close>, whichever CPU took
  the interrupt, and touches no other queue.
\<close>

lemma reply_reaches_requester:
  assumes "r < 8" and "msg_type_is_reply ty"
    and "msg_init_reqcpu n conid dst rty p b r = (req, conid')"
    and "rep = msg_reply dst req ty p' b'"
    and "msg_recv s me rep = (s', sgi)"
  shows "dst_id rep = n \<and> recv_waitq s' r = recv_waitq s r @ [rep] \<and>
     (\<forall>c. c \<noteq> r \<longrightarrow> recv_waitq s' c = recv_waitq s c) \<and> sgi = (me \<noteq> r)"
proof -
  have "msg_cpu rep = r" and "dst_id rep = n" and "mtype rep = ty"
    using assms(1,3,4) conn_cpu [of conid r]
    by (auto simp: msg_cpu_def msg_reply_def msg_init_reqcpu_def msginitcore_def split: prod.splits)
  then show ?thesis
    using assms(2,5) by (auto simp: msg_recv_def Let_def)
qed

text \<open>
  The whole way of a reply: from the network interrupt on any CPU through the receive queue of the
  requesting CPU into its reply slot, where the wait finds it and clears the slot.
\<close>

lemma reply_delivered:
  assumes "r < 8" and "msg_type_is_reply ty"
    and "msg_init_reqcpu n conid dst rty p b r = (req, conid')"
    and "rep = msg_reply dst req ty p' b'"
    and "recv_waitq s r = []" and "reply_buf s r = None"
  shows "\<exists>s1 s2 s3. msg_recv s me rep = (s1, me \<noteq> r) \<and> do_recv_waitqueue node0 handle r t s1 = Inr (t, s2) \<and>
     wait_reply r s2 = Inr (rep, s3) \<and> reply_buf s3 r = None \<and> recv_waitq s3 r = []"
proof -
  obtain s1 sgi where rc: "msg_recv s me rep = (s1, sgi)" by (cases "msg_recv s me rep")
  note q = reply_reaches_requester [OF assms(1-4) rc]
  have ty: "\<not> msg_has_handler node0 (mtype rep)"
    using assms(2,4) by (auto simp: msg_reply_def msginitcore_def msg_type_is_reply_def msg_has_handler_def)
  have "reply_buf s1 r = None" using rc assms(6) by (auto simp: msg_recv_def Let_def)
  then have "do_recv_waitqueue node0 handle r t s1 =
      Inr (t, s1\<lparr>recv_waitq := (recv_waitq s1)(r := []), reply_buf := (reply_buf s1)(r := Some rep)\<rparr>)"
    using q ty assms(5) by (simp add: do_recv_waitqueue_def set_reply_buf_def)
  then show ?thesis using rc q by (simp add: wait_reply_def)
qed

lemma reply_reaches_requester_witness:
  "\<exists>s'. msg_recv \<lparr>recv_waitq = (\<lambda>_. []), reply_buf = (\<lambda>_. None)\<rparr> 0
      (msg_reply 1 (fst (msg_init_reqcpu 0 5 1 MSG_FETCH () None 3)) MSG_FETCH_REPLY () None) = (s', True) \<and>
     length (recv_waitq s' 3) = 1"
proof -
  let ?s = "\<lparr>recv_waitq = (\<lambda>_. []), reply_buf = (\<lambda>_. None)\<rparr> :: unit rx"
  let ?req = "fst (msg_init_reqcpu 0 5 1 MSG_FETCH () None 3)"
  let ?rep = "msg_reply 1 ?req MSG_FETCH_REPLY () None"
  obtain s' sgi where r: "msg_recv ?s 0 ?rep = (s', sgi)" by (cases "msg_recv ?s 0 ?rep")
  obtain c where q: "msg_init_reqcpu 0 5 1 MSG_FETCH () None 3 = (?req, c)"
    by (cases "msg_init_reqcpu 0 5 1 MSG_FETCH () None 3") auto
  show ?thesis
    using reply_reaches_requester [OF _ _ q refl r] r by (simp add: msg_type_is_reply_def)
qed

text \<open>
  Handling the receive queue of a CPU empties it, runs the handlers on exactly the messages
  whose type has one, in the order of arrival, and keeps a message of a type without handler for
  the waiting virtual CPU; a second such message while the first was not taken fails the assertion.
\<close>

lemma do_recv_waitqueue_order:
  assumes "\<And>s m. handle s m = Inr (s @ [m])" and "reply_buf r me = None"
    and "replies = filter (\<lambda>m. \<not> msg_has_handler node0 (mtype m)) (recv_waitq r me)"
  shows "if length replies \<le> 1
     then \<exists>r'. do_recv_waitqueue node0 handle me [] r =
            Inr (filter (\<lambda>m. msg_has_handler node0 (mtype m)) (recv_waitq r me), r') \<and>
          recv_waitq r' me = [] \<and> reply_buf r' me = (case replies of [] \<Rightarrow> None | m # _ \<Rightarrow> Some m)
     else do_recv_waitqueue node0 handle me [] r = Inl (Panic ''reply_buf'')"
proof -
  have full: "handle_all node0 handle me ms (s, t) =
      (if filter (\<lambda>m. \<not> msg_has_handler node0 (mtype m)) ms = []
       then Inr (s @ filter (\<lambda>m. msg_has_handler node0 (mtype m)) ms, t) else Inl (Panic ''reply_buf''))"
    if "reply_buf t me \<noteq> None" for ms s t
    using that by (induction ms arbitrary: s) (auto simp: assms(1) set_reply_buf_def assert_res_def)
  have gen: "handle_all node0 handle me ms (s, t) =
      (case filter (\<lambda>m. \<not> msg_has_handler node0 (mtype m)) ms of
         [] \<Rightarrow> Inr (s @ filter (\<lambda>m. msg_has_handler node0 (mtype m)) ms, t)
       | [x] \<Rightarrow> Inr (s @ filter (\<lambda>m. msg_has_handler node0 (mtype m)) ms, t\<lparr>reply_buf := (reply_buf t)(me := Some x)\<rparr>)
       | _ \<Rightarrow> Inl (Panic ''reply_buf''))" if "reply_buf t me = None" for ms s t
    using that by (induction ms arbitrary: s) (auto simp: assms(1) set_reply_buf_def full split: list.splits)
  show ?thesis
    using gen [of "r\<lparr>recv_waitq := (recv_waitq r)(me := [])\<rparr>" "recv_waitq r me" "[]"] assms(2)
    unfolding do_recv_waitqueue_def assms(3) by (auto split: list.splits)
qed

lemma do_recv_waitqueue_order_witness:
  "\<exists>r'. do_recv_waitqueue True (\<lambda>s m. Inr (s @ [m])) 0 []
      \<lparr>recv_waitq = (\<lambda>_. [msginitcore 1 0 MSG_FETCH () None 0, msginitcore 1 0 MSG_FETCH_REPLY () None 0]),
       reply_buf = (\<lambda>_. None)\<rparr> = Inr ([msginitcore 1 0 MSG_FETCH () None 0], r') \<and>
     reply_buf r' 0 = Some (msginitcore 1 0 MSG_FETCH_REPLY () None 0)"
  using do_recv_waitqueue_order [of "\<lambda>s m. Inr (s @ [m])"
      "\<lparr>recv_waitq = (\<lambda>_. [msginitcore 1 0 MSG_FETCH () None 0, msginitcore 1 0 MSG_FETCH_REPLY () None 0]),
        reply_buf = (\<lambda>_. None)\<rparr>" 0 "[msginitcore 1 0 MSG_FETCH_REPLY () None 0]" True]
  by (auto simp: msginitcore_def msg_has_handler_def)

end
