(* ===== verification/Vsm.thy ===== *)
theory Vsm
  imports Stage2 Cluster Msg
begin

text \<open>
  One node of the virtual shared memory, \<^verbatim>\<open>core/vsm.c\<close> and \<^verbatim>\<open>include/vsm.h\<close>.  The node's state
  is the map from guest pages to stage-2 entries that \<open>Stage2\<close> shows the tables to implement, the
  contents of page frames, the page descriptors with their locks and wait queues, the manager table,
  and the messages it has sent.  Each server process and each interrupt handler is one function.  A
  fault handler that has to wait for a page is split where it blocks: \<open>*_begin\<close> runs up to the
  request, \<open>*_finish\<close> from the reply to the end; between the two the page stays locked.
\<close>

section \<open>State\<close>

definition ipa_to_pfn :: "ipa \<Rightarrow> u64" where
  "ipa_to_pfn ipa = drop_bit 12 (ipa - 0x40000000)"

definition page_desc_addr :: "u64 \<Rightarrow> ipa" where
  "page_desc_addr pfn = push_bit 12 pfn + 0x40000000"

definition NR_MANAGER_PAGES :: nat where
  "NR_MANAGER_PAGES = 131072"

datatype fetch_type = READ_FETCH | WRITE_FETCH

datatype server_type = READ_SERVER | WRITE_SERVER | INV_SERVER

record vsm_server_proc =
  stype :: server_type
  page_ipa :: ipa
  pcopyset :: u64
  req_nodeid :: nat
  req_cpu :: nat

text \<open>The headers of the three messages, \<^verbatim>\<open>fetch_req_hdr\<close>, \<^verbatim>\<open>fetch_reply_hdr\<close>, \<^verbatim>\<open>invalidate_hdr\<close>.\<close>

datatype vsm_hdr =
    FetchReq ipa nat fetch_type
  | FetchReply ipa u64 bool
  | Invalidate ipa u64 nat

type_synonym vsm_msg = "vsm_hdr msg"

record page_desc =
  wq :: "vsm_server_proc list option"
  lock :: u8
  wqlock :: u8

record vsm_rw_data =
  offset :: nat
  buf :: "u8 list"

text \<open>A fault handler that waits for a reply: what it fetches and the data it will write.\<close>

record waiter =
  wtype :: fetch_type
  wdata :: "vsm_rw_data option"

text \<open>\<open>rdata\<close> is the caller's buffer, once a read has filled it.\<close>

record vnode =
  local_nodeid :: nat
  clust :: cluster_state
  s2 :: "ipa \<Rightarrow> u64"
  frames :: "physaddr \<Rightarrow> u8 list"
  ptable :: "ipa \<Rightarrow> page_desc"
  manager :: "nat \<Rightarrow> nat"
  waiting :: "ipa \<Rightarrow> waiter option"
  conid :: u32
  sent :: "vsm_msg list"
  freed :: "physaddr list"
  rdata :: "u8 list option"

definition set_pte :: "vnode \<Rightarrow> ipa \<Rightarrow> u64 \<Rightarrow> vnode" where
  "set_pte n ipa e = n\<lparr>s2 := (s2 n)(ipa := e)\<rparr>"

definition set_desc :: "vnode \<Rightarrow> ipa \<Rightarrow> page_desc \<Rightarrow> vnode" where
  "set_desc n ipa d = n\<lparr>ptable := (ptable n)(ipa := d)\<rparr>"

definition free_frame :: "vnode \<Rightarrow> physaddr \<Rightarrow> vnode" where
  "free_frame n pa = n\<lparr>freed := freed n @ [pa]\<rparr>"

section \<open>Locks\<close>

definition page_locked :: "vnode \<Rightarrow> ipa \<Rightarrow> bool" where
  "page_locked n ipa \<longleftrightarrow> lock (ptable n ipa) \<noteq> 0"

text \<open>
  \<^verbatim>\<open>page_trylock\<close> on CPU \<open>cpu\<close>; the flag is success.  The store-exclusive may fail although the lock
  is free (\<open>spurious\<close>), which the code reports like a held lock.
\<close>

definition page_trylock :: "vnode \<Rightarrow> ipa \<Rightarrow> nat \<Rightarrow> bool \<Rightarrow> bool \<times> vnode" where
  "page_trylock n ipa cpu spurious =
     (if page_locked n ipa \<or> spurious then (False, n)
      else (True, set_desc n ipa ((ptable n ipa)\<lparr>lock := of_nat (cpu + 1)\<rparr>)))"

text \<open>\<^verbatim>\<open>page_spinlock\<close> returns once the lock was free; \<open>None\<close> is the spinning.\<close>

definition page_spinlock :: "vnode \<Rightarrow> ipa \<Rightarrow> nat \<Rightarrow> vnode option" where
  "page_spinlock n ipa cpu =
     (if page_locked n ipa then None else Some (set_desc n ipa ((ptable n ipa)\<lparr>lock := of_nat (cpu + 1)\<rparr>)))"

definition page_unlock :: "vnode \<Rightarrow> ipa \<Rightarrow> vnode" where
  "page_unlock n ipa = set_desc n ipa ((ptable n ipa)\<lparr>lock := 0, wqlock := 0\<rparr>)"

text \<open>\<^verbatim>\<open>vwq_lock\<close> takes both locks and says whether the page was unlocked.\<close>

definition vwq_lock :: "vnode \<Rightarrow> ipa \<Rightarrow> bool \<times> vnode" where
  "vwq_lock n ipa =
     (lock (ptable n ipa) = 0, set_desc n ipa ((ptable n ipa)\<lparr>lock := 1, wqlock := 1\<rparr>))"

definition vwq_unlock :: "vnode \<Rightarrow> ipa \<Rightarrow> vnode" where
  "vwq_unlock n ipa = set_desc n ipa ((ptable n ipa)\<lparr>wqlock := 0\<rparr>)"

definition vwq_locked :: "vnode \<Rightarrow> ipa \<Rightarrow> bool" where
  "vwq_locked n ipa \<longleftrightarrow> wqlock (ptable n ipa) \<noteq> 0"

section \<open>Messages\<close>

definition vsm_send :: "vnode \<Rightarrow> nat \<Rightarrow> msgtype \<Rightarrow> vsm_hdr \<Rightarrow> u8 list option \<Rightarrow> nat \<Rightarrow> vnode" where
  "vsm_send n dst ty h b cpu =
     (let (m, c) = msg_init_reqcpu (local_nodeid n) (conid n) dst ty h b cpu
      in n\<lparr>sent := sent n @ [m], conid := c\<rparr>)"

definition send_fetch_req :: "vnode \<Rightarrow> nat \<Rightarrow> nat \<Rightarrow> ipa \<Rightarrow> fetch_type \<Rightarrow> nat \<Rightarrow> vnode" where
  "send_fetch_req n req dst ipa ty cpu = vsm_send n dst MSG_FETCH (FetchReq ipa req ty) None cpu"

definition send_read_fetch_reply :: "vnode \<Rightarrow> nat \<Rightarrow> ipa \<Rightarrow> u8 list \<Rightarrow> nat \<Rightarrow> vnode" where
  "send_read_fetch_reply n dst ipa page cpu =
     vsm_send n dst MSG_FETCH_REPLY (FetchReply ipa 0 False) (Some page) cpu"

definition send_write_fetch_reply :: "vnode \<Rightarrow> nat \<Rightarrow> ipa \<Rightarrow> u8 list \<Rightarrow> bool \<Rightarrow> u64 \<Rightarrow> nat \<Rightarrow> vnode" where
  "send_write_fetch_reply n dst ipa page send_page cset cpu =
     vsm_send n dst MSG_FETCH_REPLY (FetchReply ipa cset True) (if send_page then Some page else None) cpu"

text \<open>The loop of \<^verbatim>\<open>vsm_invalidate\<close>: node \<open>k\<close> is looked at with the copyset shifted \<open>k\<close> times.\<close>

function inv_loop :: "vnode \<Rightarrow> ipa \<Rightarrow> u64 \<Rightarrow> u64 \<Rightarrow> nat \<Rightarrow> nat \<Rightarrow> vnode" where
  "inv_loop n ipa hdrset cset k cpu =
     (if cset = 0 then n
      else
        let n1 = (if cset AND 1 \<noteq> 0 \<and> k \<noteq> local_nodeid n
                  then vsm_send n k MSG_INVALIDATE (Invalidate ipa hdrset (local_nodeid n)) None cpu else n)
        in inv_loop n1 ipa hdrset (drop_bit 1 cset) (Suc k) cpu)"
  by pat_completeness auto
termination
proof (relation "measure (\<lambda>(n, ipa, hdrset, cset, k, cpu). unat cset)", goal_cases)
  case (2 n ipa hdrset cset k cpu n1)
  then have "unat cset \<noteq> 0" by (simp add: unsigned_eq_0_iff)
  moreover have "unat (drop_bit 1 cset) = unat cset div 2" by (simp add: drop_bit_eq_div unat_div)
  ultimately show ?case by simp
qed simp

declare inv_loop.simps [simp del]

definition vsm_invalidate :: "vnode \<Rightarrow> ipa \<Rightarrow> u64 \<Rightarrow> nat \<Rightarrow> vnode" where
  "vsm_invalidate n ipa cset cpu = (if cset = 0 then n else inv_loop n ipa cset cset 0 cpu)"

section \<open>Server processes\<close>

definition manager_index :: "vnode \<Rightarrow> ipa \<Rightarrow> nat" where
  "manager_index n ipa = unat (drop_bit 12 (ipa - mstart (cmem (cluster (clust n) ! local_nodeid n))))"

definition ipa_manager_page :: "vnode \<Rightarrow> ipa \<Rightarrow> nat res" where
  "ipa_manager_page n ipa =
     assert_res (in_memrange (cmem (cluster (clust n) ! local_nodeid n)) ipa) ''in_memrange''
       (if manager_index n ipa \<ge> NR_MANAGER_PAGES then Inl (Undefined ''manager'')
        else Inr (manager_index n ipa))"

definition vsm_invalidate_server_process :: "vnode \<Rightarrow> vsm_server_proc \<Rightarrow> vnode res" where
  "vsm_invalidate_server_process n p =
     (let ipa = page_ipa p; e = s2 n ipa in
      assert_res (page_locked n ipa) ''page_locked'' (assert_res (PAGE_ALIGNED ipa) ''ipa''
        (if \<not> pte_accessible e then Inr n
         else if pte_rwable e \<or> pte_rdonly e \<and> s2pte_copyset e \<noteq> 0 then Inr n
         else Inr (free_frame (set_pte n ipa (s2pte_invalidate e)) (PTE_PA e)))))"

definition vsm_read_server_process :: "vnode \<Rightarrow> vsm_server_proc \<Rightarrow> vnode res" where
  "vsm_read_server_process n p =
     (let ipa = page_ipa p; req = req_nodeid p; mgr = page_manager (clust n) ipa; e = s2 n ipa in
      assert_res (page_locked n ipa) ''page_locked''
        (if mgr < 0 then Inl (Panic ''dare'')
         else assert_res (PAGE_ALIGNED ipa) ''ipa''
           (if pte_rwable e \<or> pte_rdonly e \<and> s2pte_copyset e \<noteq> 0 then
              let e1 = s2pte_add_copyset (s2pte_ro e) req;
                  n1 = set_pte n ipa e1
              in Inr (send_read_fetch_reply n1 req ipa (frames n (PTE_PA e1)) (req_cpu p))
            else if int (local_nodeid n) = mgr then
              bind_res (ipa_manager_page n ipa) (\<lambda>k.
                if req = manager n k then Inl (Panic ''read server: req_nodeid == p_owner'')
                else Inr (send_fetch_req n req (manager n k) ipa READ_FETCH (req_cpu p)))
            else Inl (Panic ''unreachable''))))"

definition vsm_write_server_process :: "vnode \<Rightarrow> vsm_server_proc \<Rightarrow> vnode res" where
  "vsm_write_server_process n p =
     (let ipa = page_ipa p; req = req_nodeid p; mgr = page_manager (clust n) ipa; e = s2 n ipa in
      assert_res (page_locked n ipa) ''page_locked''
        (if mgr < 0 then Inl (Panic ''dare w'')
         else assert_res (PAGE_ALIGNED ipa) ''ipa''
           (if pte_rwable e \<or> pte_rdonly e \<and> s2pte_copyset e \<noteq> 0 then
              let pa = PTE_PA e; cset = s2pte_copyset e;
                  n1 = set_pte n ipa (s2pte_invalidate e);
                  n2 = send_write_fetch_reply n1 req ipa (frames n1 pa) True cset (req_cpu p);
                  n3 = free_frame n2 pa
              in if int (local_nodeid n) = mgr
                 then bind_res (ipa_manager_page n3 ipa) (\<lambda>k. Inr (n3\<lparr>manager := (manager n3)(k := req)\<rparr>))
                 else Inr n3
            else if int (local_nodeid n) = mgr then
              bind_res (ipa_manager_page n ipa) (\<lambda>k.
                if req = manager n k then Inl (Panic ''write server: fetch request from owner!'')
                else let n1 = send_fetch_req n req (manager n k) ipa WRITE_FETCH (req_cpu p)
                     in Inr (n1\<lparr>manager := (manager n1)(k := req)\<rparr>))
            else Inl (Panic ''write server: unreachable''))))"

definition do_process :: "vnode \<Rightarrow> vsm_server_proc \<Rightarrow> vnode res" where
  "do_process n p =
     (case stype p of
        READ_SERVER \<Rightarrow> vsm_read_server_process n p
      | WRITE_SERVER \<Rightarrow> vsm_write_server_process n p
      | INV_SERVER \<Rightarrow> vsm_invalidate_server_process n p)"

definition new_vsm_server_proc :: "ipa \<Rightarrow> nat \<Rightarrow> fetch_type \<Rightarrow> nat \<Rightarrow> vsm_server_proc" where
  "new_vsm_server_proc ipa req ty cpu =
     \<lparr>stype = (if ty = READ_FETCH then READ_SERVER else WRITE_SERVER), page_ipa = ipa, pcopyset = 0,
      req_nodeid = req, req_cpu = cpu\<rparr>"

definition new_vsm_inv_server_proc :: "ipa \<Rightarrow> nat \<Rightarrow> u64 \<Rightarrow> vsm_server_proc" where
  "new_vsm_inv_server_proc ipa from cset =
     \<lparr>stype = INV_SERVER, page_ipa = ipa, pcopyset = cset, req_nodeid = from, req_cpu = 0\<rparr>"

section \<open>Wait queue\<close>

definition vsm_enqueue_proc :: "vnode \<Rightarrow> vsm_server_proc \<Rightarrow> bool \<times> vnode" where
  "vsm_enqueue_proc n p =
     (let ipa = page_ipa p; (punlocked, n1) = vwq_lock n ipa;
          d = ptable n1 ipa;
          n2 = set_desc n1 ipa (d\<lparr>wq := Some ((case wq d of None \<Rightarrow> [] | Some ps \<Rightarrow> ps) @ [p])\<rparr>)
      in (punlocked, vwq_unlock n2 ipa))"

fun process_all :: "vnode \<Rightarrow> vsm_server_proc list \<Rightarrow> vnode res" where
  "process_all n [] = Inr n"
| "process_all n (p # ps) = bind_res (do_process n p) (\<lambda>n1. process_all n1 ps)"

text \<open>
  \<^verbatim>\<open>vsm_process_wq_core\<close> takes the whole chain and processes it; no process adds to the queue of the
  same node, so one round empties it.
\<close>

definition vsm_process_wq_core :: "vnode \<Rightarrow> ipa \<Rightarrow> vnode res" where
  "vsm_process_wq_core n ipa =
     assert_res (vwq_locked n ipa) ''vwq_locked''
       (let ps = (case wq (ptable n ipa) of None \<Rightarrow> [] | Some ps \<Rightarrow> ps);
            n1 = set_desc n ipa ((ptable n ipa)\<lparr>wq := Some []\<rparr>);
            n2 = vwq_unlock n1 ipa
        in bind_res (process_all n2 ps) (\<lambda>n3. Inr (snd (vwq_lock n3 ipa))))"

definition vsm_process_waitqueue :: "vnode \<Rightarrow> ipa \<Rightarrow> vnode res" where
  "vsm_process_waitqueue n ipa =
     assert_res (page_locked n ipa) ''page_locked''
       (let n1 = snd (vwq_lock n ipa) in
        bind_res
          (case wq (ptable n1 ipa) of Some (p # ps) \<Rightarrow> vsm_process_wq_core n1 ipa | _ \<Rightarrow> Inr n1)
          (\<lambda>n2. Inr (page_unlock n2 ipa)))"

section \<open>Interrupt handlers\<close>

definition recv_proc :: "vnode \<Rightarrow> vsm_server_proc \<Rightarrow> nat \<Rightarrow> bool \<Rightarrow> vnode res" where
  "recv_proc n p cpu spurious =
     (let ipa = page_ipa p; (got, n1) = page_trylock n ipa cpu spurious in
      if \<not> got then
        let (proc_myself, n2) = vsm_enqueue_proc n1 p in
        if proc_myself then vsm_process_waitqueue n2 ipa else Inr n2
      else bind_res (do_process n1 p) (\<lambda>n2. vsm_process_waitqueue n2 ipa))"

definition recv_fetch_request_intr :: "vnode \<Rightarrow> ipa \<Rightarrow> nat \<Rightarrow> fetch_type \<Rightarrow> nat \<Rightarrow> nat \<Rightarrow> bool \<Rightarrow> vnode res" where
  "recv_fetch_request_intr n ipa req ty reqcpu cpu spurious =
     recv_proc n (new_vsm_server_proc ipa req ty reqcpu) cpu spurious"

definition recv_invalidate_intr :: "vnode \<Rightarrow> ipa \<Rightarrow> u64 \<Rightarrow> nat \<Rightarrow> nat \<Rightarrow> bool \<Rightarrow> vnode res" where
  "recv_invalidate_intr n ipa cset from cpu spurious =
     recv_proc n (new_vsm_inv_server_proc ipa from cset) cpu spurious"

section \<open>Fault handlers\<close>

text \<open>
  \<open>NoPage\<close>: the address has no manager, the handler returns NULL.  \<open>Hit pa\<close>: the page is there.
  \<open>Blocked\<close>: a request was sent and the handler waits for the reply with the page locked.
\<close>

datatype fetch_result = NoPage | Hit physaddr | Blocked

definition fetch_target :: "vnode \<Rightarrow> ipa \<Rightarrow> int \<Rightarrow> nat res" where
  "fetch_target n ipa mgr =
     (if mgr = int (local_nodeid n) then bind_res (ipa_manager_page n ipa) (\<lambda>k. Inr (manager n k))
      else Inr (nat mgr))"

definition vsm_read_fetch_begin ::
    "vnode \<Rightarrow> ipa \<Rightarrow> vsm_rw_data option \<Rightarrow> nat \<Rightarrow> (fetch_result \<times> vnode) res" where
  "vsm_read_fetch_begin n ipa d cpu =
     (let mgr = page_manager (clust n) ipa in
      if mgr < 0 then Inr (NoPage, n)
      else case page_spinlock n ipa cpu of
        None \<Rightarrow> Inl (Hang ''page_spinlock'')
      | Some n1 \<Rightarrow>
          let e = s2 n1 ipa in
          assert_res (PAGE_ALIGNED ipa) ''ipa''
            (if pte_readable e
             then bind_res (vsm_process_waitqueue n1 ipa) (\<lambda>n2. Inr (Hit (PTE_PA e), n2))
             else bind_res (fetch_target n1 ipa mgr) (\<lambda>dst.
               let n2 = send_fetch_req n1 (local_nodeid n1) dst ipa READ_FETCH cpu
               in Inr (Blocked, n2\<lparr>waiting := (waiting n2)(ipa \<mapsto> \<lparr>wtype = READ_FETCH, wdata = d\<rparr>)\<rparr>))))"

text \<open>\<^verbatim>\<open>vsm_set_cache_fast\<close> maps the received frame; an entry in use fails in \<^verbatim>\<open>mappages\<close>.\<close>

definition vsm_set_cache_fast :: "vnode \<Rightarrow> ipa \<Rightarrow> u64 \<Rightarrow> physaddr \<Rightarrow> u8 list \<Rightarrow> vnode res" where
  "vsm_set_cache_fast n ipa cset pa page =
     (if \<not> PAGE_ALIGNED ipa then Inl (Panic ''pagealign'')
      else if pte_accessible (s2 n ipa) then Inl (Panic ''this entry has been used'')
      else Inr (set_pte (n\<lparr>frames := (frames n)(pa := page)\<rparr>) ipa (copyset_pte pa cset)))"

text \<open>\<^verbatim>\<open>recv_fetch_reply\<close>: \<open>pa\<close> is the frame of the message body, which becomes the guest's page.\<close>

definition recv_fetch_reply :: "vnode \<Rightarrow> ipa \<Rightarrow> u64 \<Rightarrow> bool \<Rightarrow> u8 list option \<Rightarrow> physaddr \<Rightarrow> vnode res" where
  "recv_fetch_reply n ipa cset wnr b pa =
     (case b of
        Some page \<Rightarrow> vsm_set_cache_fast n ipa cset pa page
      | None \<Rightarrow> assert_res wnr ''wnr'' (Inl (Panic ''get ownership only'')))"

definition read_frame :: "vnode \<Rightarrow> physaddr \<Rightarrow> vsm_rw_data option \<Rightarrow> vnode" where
  "read_frame n pa d =
     (case d of None \<Rightarrow> n
      | Some w \<Rightarrow> n\<lparr>rdata := Some (take (length (buf w)) (drop (offset w) (frames n pa)))\<rparr>)"

definition vsm_read_fetch_finish :: "vnode \<Rightarrow> ipa \<Rightarrow> vsm_rw_data option \<Rightarrow> (physaddr \<times> vnode) res" where
  "vsm_read_fetch_finish n ipa d =
     (let e = s2 n ipa in
      assert_res (pte_accessible e) ''pte''
        (let n1 = set_pte (read_frame n (PTE_PA e) d) ipa (s2pte_ro e)
         in bind_res (vsm_process_waitqueue n1 ipa) (\<lambda>n2. Inr (PTE_PA e, n2))))"

definition write_frame :: "vnode \<Rightarrow> physaddr \<Rightarrow> vsm_rw_data option \<Rightarrow> vnode" where
  "write_frame n pa d =
     (case d of None \<Rightarrow> n
      | Some w \<Rightarrow>
          let f = frames n pa in
          n\<lparr>frames := (frames n)(pa := take (offset w) f @ buf w @ drop (offset w + length (buf w)) f)\<rparr>)"

text \<open>From the label \<^verbatim>\<open>page_acquired\<close> to the end of the write fault handler.\<close>

definition page_acquired :: "vnode \<Rightarrow> ipa \<Rightarrow> vsm_rw_data option \<Rightarrow> (physaddr \<times> vnode) res" where
  "page_acquired n ipa d =
     (let e = s2 n ipa; n1 = write_frame n (PTE_PA e) d; n2 = set_pte n1 ipa (s2pte_rw e)
      in bind_res (vsm_process_waitqueue n2 ipa) (\<lambda>n3. Inr (PTE_PA e, n3)))"

definition vsm_write_fetch_begin ::
    "vnode \<Rightarrow> ipa \<Rightarrow> vsm_rw_data option \<Rightarrow> nat \<Rightarrow> (fetch_result \<times> vnode) res" where
  "vsm_write_fetch_begin n ipa d cpu =
     (let mgr = page_manager (clust n) ipa in
      if mgr < 0 then Inr (NoPage, n)
      else case page_spinlock n ipa cpu of
        None \<Rightarrow> Inl (Hang ''page_spinlock'')
      | Some n1 \<Rightarrow>
          let e = s2 n1 ipa in
          assert_res (PAGE_ALIGNED ipa) ''ipa''
            (if pte_rwable e then bind_res (vsm_process_waitqueue n1 ipa) (\<lambda>n2. Inr (Hit (PTE_PA e), n2))
             else if pte_rdonly e \<and> s2pte_copyset e \<noteq> 0 then
               let n2 = vsm_invalidate n1 ipa (s2pte_copyset e) cpu;
                   n3 = set_pte n2 ipa (s2pte_clear_copyset e)
               in bind_res (page_acquired n3 ipa d) (\<lambda>(pa, n4). Inr (Hit pa, n4))
             else
               let n2 = (if pte_rdonly e then free_frame (set_pte n1 ipa (s2pte_invalidate e)) (PTE_PA e) else n1)
               in bind_res (fetch_target n2 ipa mgr) (\<lambda>dst.
                 let n3 = send_fetch_req n2 (local_nodeid n2) dst ipa WRITE_FETCH cpu
                 in Inr (Blocked, n3\<lparr>waiting := (waiting n3)(ipa \<mapsto> \<lparr>wtype = WRITE_FETCH, wdata = d\<rparr>)\<rparr>))))"

definition vsm_write_fetch_finish :: "vnode \<Rightarrow> ipa \<Rightarrow> vsm_rw_data option \<Rightarrow> nat \<Rightarrow> (physaddr \<times> vnode) res" where
  "vsm_write_fetch_finish n ipa d cpu =
     (let e = s2 n ipa in
      assert_res (pte_accessible e) ''pte''
        (let n1 = vsm_invalidate n ipa (s2pte_copyset e) cpu;
             n2 = set_pte n1 ipa (s2pte_clear_copyset e)
         in page_acquired n2 ipa d))"

text \<open>The reply wakes the waiting handler, which runs to its end.\<close>

definition reply_arrives ::
    "vnode \<Rightarrow> ipa \<Rightarrow> u64 \<Rightarrow> bool \<Rightarrow> u8 list option \<Rightarrow> physaddr \<Rightarrow> nat \<Rightarrow> (physaddr \<times> vnode) res" where
  "reply_arrives n ipa cset wnr b pa cpu =
     (case waiting n ipa of
        None \<Rightarrow> Inl (Hang ''reply_buf'')
      | Some w \<Rightarrow>
          bind_res (recv_fetch_reply (n\<lparr>waiting := (waiting n)(ipa := None)\<rparr>) ipa cset wnr b pa) (\<lambda>n1.
            if wtype w = READ_FETCH then vsm_read_fetch_finish n1 ipa (wdata w)
            else vsm_write_fetch_finish n1 ipa (wdata w) cpu))"

definition vsm_access :: "vnode \<Rightarrow> u8 list option \<Rightarrow> ipa \<Rightarrow> bool \<Rightarrow> nat \<Rightarrow> (fetch_result \<times> vnode) res" where
  "vsm_access n b ipa wr cpu =
     (case b of
        None \<Rightarrow> Inl (Panic ''null buf'')
      | Some bytes \<Rightarrow>
          let page = PAGE_ADDRESS ipa; d = \<lparr>offset = unat (PAGE_OFFSET ipa), buf = bytes\<rparr> in
          if wr then vsm_write_fetch_begin n page (Some d) cpu else vsm_read_fetch_begin n page (Some d) cpu)"

section \<open>Initialisation\<close>

text \<open>\<open>fr k\<close> is the frame \<^verbatim>\<open>alloc_page\<close> returns for the \<open>k\<close>-th page of the node's slice.\<close>

fun map_slice :: "vnode \<Rightarrow> ipa \<Rightarrow> (nat \<Rightarrow> physaddr) \<Rightarrow> nat \<Rightarrow> vnode res" where
  "map_slice n ipa fr 0 = Inr n"
| "map_slice n ipa fr (Suc k) =
     (if fr 0 = 0 then Inl (Panic ''ram'')
      else if pte_accessible (s2 n ipa) then Inl (Panic ''this entry has been used'')
      else map_slice
        (set_pte n ipa (PTE_PA (fr 0) OR (pageflag_to_s2pte_flags (PAGE_NORMAL OR PAGE_RW) OR PTE_V OR PTE_AF)))
        (ipa + of_nat PAGESIZE) (\<lambda>i. fr (Suc i)) k)"

definition vsm_node_init :: "vnode \<Rightarrow> memrange \<Rightarrow> (nat \<Rightarrow> physaddr) \<Rightarrow> vnode res" where
  "vsm_node_init n m fr =
     bind_res (map_slice n (mstart m) fr ((unat (msize m) + PAGESIZE - 1) div PAGESIZE)) (\<lambda>n1.
       Inr (n1\<lparr>manager := (\<lambda>k. if k < NR_MANAGER_PAGES then local_nodeid n1 else manager n1 k)\<rparr>))"

end
