(* ===== verification/Vsm_Protocol.thy ===== *)
theory Vsm_Protocol
  imports Main "HOL-Library.Multiset"
begin

text \<open>
  The ownership protocol that the handlers of \<^verbatim>\<open>core/vsm.c\<close> run for one page of guest memory, without
  entries, frames and copysets: every node either has the page or not, owns it or not, and is idle,
  waiting for a reply with the page locked, or working off its wait queue.  The manager remembers an
  owner and forwards requests to it; channels between nodes deliver in order.  \<open>Vsm_Cluster\<close> shows
  that the handlers implement this protocol.  \<open>pinv\<close> is the invariant: the nodes that own the page or
  will own it form a chain \<open>L\<close>; its head holds the page or is about to receive it, every other member
  waits for it, the write request of each member is the last request of its predecessor, and the
  manager forwards to the end of the chain.  It excludes two owners and every \<^verbatim>\<open>panic()\<close> of the
  server processes.
\<close>

section \<open>The protocol\<close>

datatype phase = Idle | RWait | WWait | Drain

datatype req = AR nat | AW nat | AI

datatype pmsg = Req req | RRep | WRep

record anode =
  own :: bool
  acc :: bool
  ph :: phase
  qu :: "req list"

record pstate =
  nd :: "nat \<Rightarrow> anode"
  mo :: nat
  ch :: "nat \<times> nat \<Rightarrow> pmsg list"

definition set_nd :: "pstate \<Rightarrow> nat \<Rightarrow> anode \<Rightarrow> pstate" where
  "set_nd s i a = s\<lparr>nd := (nd s)(i := a)\<rparr>"

definition push :: "pstate \<Rightarrow> nat \<Rightarrow> nat \<Rightarrow> pmsg \<Rightarrow> pstate" where
  "push s i j m = s\<lparr>ch := (ch s)((i, j) := ch s (i, j) @ [m])\<rparr>"

definition pop :: "pstate \<Rightarrow> nat \<Rightarrow> nat \<Rightarrow> pstate" where
  "pop s i j = s\<lparr>ch := (ch s)((i, j) := tl (ch s (i, j)))\<rparr>"

text \<open>A server process at node \<open>i\<close>; \<open>None\<close> is a \<^verbatim>\<open>panic()\<close>.  \<open>m\<close> is the manager.\<close>

fun serve :: "nat \<Rightarrow> pstate \<Rightarrow> nat \<Rightarrow> req \<Rightarrow> pstate option" where
  "serve m s i (AR r) =
     (if own (nd s i) then Some (push s i r RRep)
      else if i = m then if r = mo s then None else Some (push s m (mo s) (Req (AR r)))
      else None)"
| "serve m s i (AW r) =
     (if own (nd s i) then
        Some ((push (set_nd s i ((nd s i)\<lparr>own := False, acc := False\<rparr>)) i r WRep)
                \<lparr>mo := (if i = m then r else mo s)\<rparr>)
      else if i = m then if r = mo s then None else Some ((push s m (mo s) (Req (AW r)))\<lparr>mo := r\<rparr>)
      else None)"
| "serve m s i AI =
     Some (if acc (nd s i) \<and> \<not> own (nd s i) then set_nd s i ((nd s i)\<lparr>acc := False\<rparr>) else s)"

definition target :: "nat \<Rightarrow> pstate \<Rightarrow> nat \<Rightarrow> nat" where
  "target m s i = (if i = m then mo s else m)"

text \<open>The steps; a step whose server process panics leads to \<open>None\<close>.\<close>

inductive pstep :: "nat \<Rightarrow> nat \<Rightarrow> pstate \<Rightarrow> pstate option \<Rightarrow> bool" for m N :: nat where
  read_fault: "i < N \<Longrightarrow> ph (nd s i) = Idle \<Longrightarrow> \<not> acc (nd s i) \<Longrightarrow>
     pstep m N s (Some (push (set_nd s i ((nd s i)\<lparr>ph := RWait\<rparr>)) i (target m s i) (Req (AR i))))"
| write_fault: "i < N \<Longrightarrow> ph (nd s i) = Idle \<Longrightarrow> \<not> own (nd s i) \<Longrightarrow>
     pstep m N s (Some (push (set_nd s i ((nd s i)\<lparr>ph := WWait, acc := False\<rparr>)) i (target m s i) (Req (AW i))))"
| invalidate: "i < N \<Longrightarrow> j < N \<Longrightarrow> j \<noteq> i \<Longrightarrow> own (nd s i) \<Longrightarrow> pstep m N s (Some (push s i j (Req AI)))"
| enqueue: "i < N \<Longrightarrow> j < N \<Longrightarrow> ch s (j, i) = Req r # rest \<Longrightarrow> ph (nd s i) \<noteq> Idle \<Longrightarrow>
     pstep m N s (Some (set_nd (pop s j i) i ((nd s i)\<lparr>qu := qu (nd s i) @ [r]\<rparr>)))"
| serve_now: "i < N \<Longrightarrow> j < N \<Longrightarrow> ch s (j, i) = Req r # rest \<Longrightarrow> ph (nd s i) = Idle \<Longrightarrow>
     pstep m N s (serve m (pop s j i) i r)"
| serve_queued: "i < N \<Longrightarrow> ph (nd s i) = Drain \<Longrightarrow> qu (nd s i) = r # rest \<Longrightarrow>
     pstep m N s (serve m (set_nd s i ((nd s i)\<lparr>qu := rest\<rparr>)) i r)"
| unlock: "i < N \<Longrightarrow> ph (nd s i) = Drain \<Longrightarrow> qu (nd s i) = [] \<Longrightarrow>
     pstep m N s (Some (set_nd s i ((nd s i)\<lparr>ph := Idle\<rparr>)))"
| read_reply: "i < N \<Longrightarrow> j < N \<Longrightarrow> ch s (j, i) = RRep # rest \<Longrightarrow>
     pstep m N s (if ph (nd s i) = RWait \<and> \<not> acc (nd s i)
       then Some (set_nd (pop s j i) i ((nd s i)\<lparr>ph := Drain, acc := True\<rparr>)) else None)"
| write_reply: "i < N \<Longrightarrow> j < N \<Longrightarrow> ch s (j, i) = WRep # rest \<Longrightarrow>
     pstep m N s (if ph (nd s i) = WWait \<and> \<not> acc (nd s i)
       then Some (set_nd (pop s j i) i ((nd s i)\<lparr>ph := Drain, acc := True, own := True\<rparr>)) else None)"

inductive_cases pstepE: "pstep m N s t"

section \<open>Outstanding requests\<close>

text \<open>The requester a message belongs to, where it is on its way to node \<open>j\<close>.\<close>

fun req_tag :: "req \<Rightarrow> nat multiset" where
  "req_tag (AR r) = {#r#}" | "req_tag (AW r) = {#r#}" | "req_tag AI = {#}"

fun msg_tag :: "nat \<Rightarrow> pmsg \<Rightarrow> nat multiset" where
  "msg_tag j (Req r) = req_tag r" | "msg_tag j RRep = {#j#}" | "msg_tag j WRep = {#j#}"

definition q_tags :: "req list \<Rightarrow> nat multiset" where
  "q_tags rs = sum_list (map req_tag rs)"

definition c_tags :: "nat \<Rightarrow> pmsg list \<Rightarrow> nat multiset" where
  "c_tags j ms = sum_list (map (msg_tag j) ms)"

definition outstanding :: "nat \<Rightarrow> pstate \<Rightarrow> nat multiset" where
  "outstanding N s = (\<Sum>i<N. q_tags (qu (nd s i))) + (\<Sum>p \<in> {..<N} \<times> {..<N}. c_tags (snd p) (ch s p))"

definition waits :: "pstate \<Rightarrow> nat \<Rightarrow> bool" where
  "waits s i \<longleftrightarrow> ph (nd s i) = RWait \<or> ph (nd s i) = WWait"

definition waiters :: "nat \<Rightarrow> pstate \<Rightarrow> nat multiset" where
  "waiters N s = mset_set {i. i < N \<and> waits s i}"

section \<open>Invariant\<close>

fun the_req :: "pmsg \<Rightarrow> req list" where
  "the_req (Req AI) = []" | "the_req (Req r) = [r]" | "the_req RRep = []" | "the_req WRep = []"

definition inbound :: "nat \<Rightarrow> pstate \<Rightarrow> nat \<Rightarrow> req list" where
  "inbound m s j = filter (\<lambda>r. r \<noteq> AI) (qu (nd s j)) @ concat (map the_req (ch s (m, j)))"

text \<open>The requests that reach a member \<open>c\<close> of the chain \<open>L\<close>: reads, then the successor's write.\<close>

fun chain_in :: "nat list \<Rightarrow> nat \<Rightarrow> req list \<Rightarrow> bool" where
  "chain_in [] c rs \<longleftrightarrow> rs = []"
| "chain_in [x] c rs \<longleftrightarrow> (if c = x then \<forall>r \<in> set rs. \<exists>k. r = AR k else rs = [])"
| "chain_in (x # y # ys) c rs \<longleftrightarrow>
     (if c = x then \<exists>us. rs = us @ [AW y] \<and> (\<forall>r \<in> set us. \<exists>k. r = AR k) else chain_in (y # ys) c rs)"

definition msg_ok :: "nat \<Rightarrow> pstate \<Rightarrow> nat \<Rightarrow> pmsg \<Rightarrow> bool" where
  "msg_ok N s j x \<longleftrightarrow>
     (case x of Req (AR r) \<Rightarrow> r < N \<and> ph (nd s r) = RWait | Req (AW r) \<Rightarrow> r < N \<and> ph (nd s r) = WWait
      | Req AI \<Rightarrow> True | RRep \<Rightarrow> ph (nd s j) = RWait | WRep \<Rightarrow> ph (nd s j) = WWait)"

text \<open>
  The invariant is stated with a request \<open>h\<close> that a node has taken from its queue or channel and not
  yet served; between steps there is none.
\<close>

type_synonym hand = "(nat \<times> req) option"

definition in_hand :: "hand \<Rightarrow> nat \<Rightarrow> req list" where
  "in_hand h j = (case h of None \<Rightarrow> [] | Some (i, r) \<Rightarrow> if i = j \<and> r \<noteq> AI then [r] else [])"

definition hand_tag :: "hand \<Rightarrow> nat multiset" where
  "hand_tag h = (case h of None \<Rightarrow> {#} | Some (i, r) \<Rightarrow> req_tag r)"

definition chain_ok :: "nat \<Rightarrow> nat \<Rightarrow> hand \<Rightarrow> pstate \<Rightarrow> nat list \<Rightarrow> bool" where
  "chain_ok m N h s L \<longleftrightarrow> L \<noteq> [] \<and> distinct L \<and> set L \<subseteq> {..<N} \<and>
     (\<forall>c \<in> set (tl L). ph (nd s c) = WWait) \<and>
     (\<forall>j < N. j \<noteq> m \<longrightarrow> chain_in L j (in_hand h j @ inbound m s j)) \<and>
     (if m \<in> set L then m = last L else mo s = last L)"

definition token_ok :: "nat \<Rightarrow> pstate \<Rightarrow> nat \<Rightarrow> bool" where
  "token_ok N s c \<longleftrightarrow>
     (\<forall>i. own (nd s i) \<longrightarrow> i = c) \<and>
     (\<forall>i j. WRep \<in> set (ch s (j, i)) \<longrightarrow> i = c \<and> \<not> own (nd s c)) \<and>
     (\<not> own (nd s c) \<longrightarrow> ph (nd s c) = WWait \<and> (\<exists>j < N. WRep \<in> set (ch s (j, c))))"

definition node_ok :: "nat \<Rightarrow> pstate \<Rightarrow> nat \<Rightarrow> bool" where
  "node_ok N s i \<longleftrightarrow>
     (own (nd s i) \<longrightarrow> acc (nd s i) \<and> \<not> waits s i) \<and>
     (waits s i \<longrightarrow> \<not> acc (nd s i)) \<and>
     (ph (nd s i) = Idle \<longrightarrow> qu (nd s i) = []) \<and>
     (\<forall>r \<in> set (qu (nd s i)). msg_ok N s i (Req r))"

definition chan_ok :: "nat \<Rightarrow> nat \<Rightarrow> pstate \<Rightarrow> bool" where
  "chan_ok m N s \<longleftrightarrow>
     (\<forall>i j. \<forall>x \<in> set (ch s (i, j)). i < N \<and> j < N \<and> msg_ok N s j x) \<and>
     (\<forall>i j. i \<noteq> m \<longrightarrow> j \<noteq> m \<longrightarrow> concat (map the_req (ch s (i, j))) = [])"

definition hand_ok :: "nat \<Rightarrow> hand \<Rightarrow> pstate \<Rightarrow> bool" where
  "hand_ok N h s \<longleftrightarrow> (case h of None \<Rightarrow> True | Some (i, r) \<Rightarrow> i < N \<and> \<not> waits s i \<and> msg_ok N s i (Req r))"

definition pinv :: "nat \<Rightarrow> nat \<Rightarrow> hand \<Rightarrow> pstate \<Rightarrow> nat list \<Rightarrow> bool" where
  "pinv m N h s L \<longleftrightarrow> m < N \<and> chain_ok m N h s L \<and> token_ok N s (hd L) \<and>
     (\<forall>i < N. node_ok N s i) \<and> chan_ok m N s \<and> hand_ok N h s \<and>
     outstanding N s + hand_tag h = waiters N s"

section \<open>Bookkeeping\<close>

lemma upd_simps [simp]:
  "nd (set_nd s i a) = (nd s)(i := a)" "mo (set_nd s i a) = mo s" "ch (set_nd s i a) = ch s"
  "nd (push s i j x) = nd s" "mo (push s i j x) = mo s"
  "ch (push s i j x) = (ch s)((i, j) := ch s (i, j) @ [x])"
  "nd (pop s i j) = nd s" "mo (pop s i j) = mo s" "ch (pop s i j) = (ch s)((i, j) := tl (ch s (i, j)))"
  by (simp_all add: set_nd_def push_def pop_def)

lemma tags_simps [simp]:
  "q_tags [] = {#}" "q_tags (r # rs) = req_tag r + q_tags rs" "q_tags (rs @ rs') = q_tags rs + q_tags rs'"
  "c_tags j [] = {#}" "c_tags j (x # xs) = msg_tag j x + c_tags j xs" "c_tags j (xs @ ys) = c_tags j xs + c_tags j ys"
  by (simp_all add: q_tags_def c_tags_def)

lemma sum_upd:
  fixes g :: "'a \<Rightarrow> 'b \<Rightarrow> nat multiset"
  assumes "finite A" and "k \<in> A"
  shows "(\<Sum>x\<in>A. g x ((f(k := v)) x)) + g k (f k) = (\<Sum>x\<in>A. g x (f x)) + g k v"
proof -
  have "(\<Sum>x\<in>A - {k}. g x ((f(k := v)) x)) = (\<Sum>x\<in>A - {k}. g x (f x))"
    by (rule sum.cong) auto
  then show ?thesis
    using sum.remove [OF assms, of "\<lambda>x. g x (f x)"] sum.remove [OF assms, of "\<lambda>x. g x ((f(k := v)) x)"]
    by (simp add: ac_simps)
qed

lemma out_push: "i < N \<Longrightarrow> j < N \<Longrightarrow> outstanding N (push s i j x) = outstanding N s + msg_tag j x"
  using sum_upd [of "{..<N} \<times> {..<N}" "(i, j)" "\<lambda>p. c_tags (snd p)" "ch s" "ch s (i, j) @ [x]"]
  by (simp add: outstanding_def ac_simps)

lemma out_pop:
  "i < N \<Longrightarrow> j < N \<Longrightarrow> ch s (i, j) = x # rest \<Longrightarrow> outstanding N s = outstanding N (pop s i j) + msg_tag j x"
  using sum_upd [of "{..<N} \<times> {..<N}" "(i, j)" "\<lambda>p. c_tags (snd p)" "ch s" rest]
  by (simp add: outstanding_def ac_simps)

lemma out_set_nd:
  "i < N \<Longrightarrow> outstanding N (set_nd s i a) + q_tags (qu (nd s i)) = outstanding N s + q_tags (qu a)"
  using sum_upd [of "{..<N}" i "\<lambda>_ b. q_tags (qu b)" "nd s" a]
  by (simp add: outstanding_def ac_simps)

lemma out_same_qu: "i < N \<Longrightarrow> qu a = qu (nd s i) \<Longrightarrow> outstanding N (set_nd s i a) = outstanding N s"
  using out_set_nd [of i N s a] by simp

lemma out_mo [simp]: "outstanding N (s\<lparr>mo := k\<rparr>) = outstanding N s"
  by (simp add: outstanding_def)

lemma tag_in_q: "r \<in> set rs \<Longrightarrow> req_tag r \<subseteq># q_tags rs"
  by (induction rs) (auto simp: subset_mset.add_increasing subset_mset.add_increasing2)

lemma tag_in_c: "x \<in> set xs \<Longrightarrow> msg_tag j x \<subseteq># c_tags j xs"
  by (induction xs) (auto simp: subset_mset.add_increasing subset_mset.add_increasing2)

lemma queue_outstanding: "i < N \<Longrightarrow> r \<in> set (qu (nd s i)) \<Longrightarrow> req_tag r \<subseteq># outstanding N s"
proof -
  assume i: "i < N" and r: "r \<in> set (qu (nd s i))"
  have "q_tags (qu (nd s i)) \<subseteq># (\<Sum>i<N. q_tags (qu (nd s i)))"
    using sum.remove [of "{..<N}" i "\<lambda>i. q_tags (qu (nd s i))"] i by simp
  then show ?thesis
    using tag_in_q [OF r] unfolding outstanding_def
    by (meson subset_mset.order_trans mset_subset_eq_add_left)
qed

lemma chan_outstanding: "i < N \<Longrightarrow> j < N \<Longrightarrow> x \<in> set (ch s (i, j)) \<Longrightarrow> msg_tag j x \<subseteq># outstanding N s"
proof -
  assume ij: "i < N" "j < N" and x: "x \<in> set (ch s (i, j))"
  have "c_tags j (ch s (i, j)) \<subseteq># (\<Sum>p \<in> {..<N} \<times> {..<N}. c_tags (snd p) (ch s p))"
    using sum.remove [of "{..<N} \<times> {..<N}" "(i, j)" "\<lambda>p. c_tags (snd p) (ch s p)"] ij by simp
  then show ?thesis
    using tag_in_c [OF x] unfolding outstanding_def
    by (meson subset_mset.order_trans mset_subset_eq_add_right)
qed

lemma count_waiters: "count (waiters N s) i = (if i < N \<and> waits s i then 1 else 0)"
  by (simp add: waiters_def count_mset_set')

lemma waiters_cong: "(\<And>i. i < N \<Longrightarrow> waits s' i = waits s i) \<Longrightarrow> waiters N s' = waiters N s"
  by (rule multiset_eqI) (auto simp: count_waiters)

lemma waiters_start:
  "i < N \<Longrightarrow> \<not> waits s i \<Longrightarrow> waits s' i \<Longrightarrow> (\<And>k. k \<noteq> i \<Longrightarrow> waits s' k = waits s k) \<Longrightarrow>
   waiters N s' = waiters N s + {#i#}"
  by (rule multiset_eqI) (auto simp: count_waiters)

section \<open>Chains\<close>

lemma chain_in_notin: "c \<notin> set L \<Longrightarrow> chain_in L c rs \<longleftrightarrow> rs = []"
  by (induction L c rs rule: chain_in.induct) auto

lemma chain_in_AR_front: "chain_in L c (AR k # rs) \<Longrightarrow> chain_in L c rs"
  by (induction L c rs rule: chain_in.induct) (auto simp: Cons_eq_append_conv split: if_splits)

lemma chain_in_AR_last:
  "distinct L \<Longrightarrow> L \<noteq> [] \<Longrightarrow> chain_in L (last L) rs \<Longrightarrow> chain_in L (last L) (rs @ [AR k])"
  by (induction L "last L" rs rule: chain_in.induct) (auto split: if_splits)

lemma chain_in_snoc_last:
  "distinct L \<Longrightarrow> L \<noteq> [] \<Longrightarrow> chain_in L (last L) rs \<Longrightarrow> chain_in (L @ [r]) (last L) (rs @ [AW r])"
  by (induction L "last L" rs rule: chain_in.induct) (auto split: if_splits)

lemma chain_in_snoc_other:
  "distinct L \<Longrightarrow> L \<noteq> [] \<Longrightarrow> r \<notin> set L \<Longrightarrow> c \<noteq> last L \<Longrightarrow> chain_in L c rs \<Longrightarrow> chain_in (L @ [r]) c rs"
  by (induction L c rs rule: chain_in.induct) (auto split: if_splits)

lemma chain_in_AW_front:
  "distinct L \<Longrightarrow> chain_in L (hd L) (AW r # rs) \<Longrightarrow> L \<noteq> [] \<Longrightarrow> \<exists>L'. L = hd L # r # L' \<and> rs = []"
  by (cases L rule: remdups_adj.cases) (auto simp: Cons_eq_append_conv)

lemma chain_pred:
  "r \<in> set (tl L) \<Longrightarrow> distinct L \<Longrightarrow> (\<And>c. c \<in> set (butlast L) \<Longrightarrow> chain_in L c (ib c)) \<Longrightarrow>
   \<exists>c \<in> set (butlast L). AW r \<in> set (ib c)"
proof (induction L rule: induct_list012)
  case (3 x y ys)
  show ?case
  proof (cases "r = y")
    case True
    then show ?thesis using "3.prems"(3) [of x] by auto
  next
    case False
    have sub: "chain_in (y # ys) c (ib c)" if "c \<in> set (butlast (y # ys))" for c
    proof -
      have "c \<noteq> x" using that "3.prems"(2) by (auto dest: in_set_butlastD split: if_splits)
      then show ?thesis using "3.prems"(3) [of c] that by auto
    qed
    have "\<exists>c \<in> set (butlast (y # ys)). AW r \<in> set (ib c)"
      by (rule "3.IH"(2)) (use "3.prems"(1,2) False sub in auto)
    then show ?thesis by auto
  qed
qed auto

section \<open>Channels\<close>

lemma nd_cong:
  assumes "nd s' = nd s"
  shows "msg_ok N s' = msg_ok N s" and "node_ok N s' = node_ok N s" and "waits s' = waits s"
    and "waiters N s' = waiters N s" and "hand_ok N h s' = hand_ok N h s"
proof -
  show m: "msg_ok N s' = msg_ok N s" by (intro ext) (simp only: msg_ok_def assms)
  show w: "waits s' = waits s" by (intro ext) (simp add: waits_def assms)
  show "node_ok N s' = node_ok N s" by (intro ext) (simp add: node_ok_def assms m w)
  show "waiters N s' = waiters N s" by (simp add: waiters_def w)
  show "hand_ok N h s' = hand_ok N h s" by (simp add: hand_ok_def m w split: option.splits)
qed

lemma inbound_push: "inbound m (push s i j x) k = inbound m s k @ (if i = m \<and> j = k then the_req x else [])"
  by (simp add: inbound_def)

lemma inbound_same: "qu a = qu (nd s i) \<Longrightarrow> inbound m (set_nd s i a) k = inbound m s k"
  by (simp add: inbound_def)

lemma chan_push:
  assumes "chan_ok m N s" and "i < N" and "j < N" and "msg_ok N s j x" and "the_req x = [] \<or> i = m \<or> j = m"
  shows "chan_ok m N (push s i j x)"
proof -
  have "a < N \<and> b < N \<and> msg_ok N (push s i j x) b y" if y: "y \<in> set (ch (push s i j x) (a, b))" for a b y
  proof (cases "y \<in> set (ch s (a, b))")
    case True
    then show ?thesis using assms(1) nd_cong(1) [of "push s i j x" s N] by (simp add: chan_ok_def)
  next
    case False
    then have "(a, b) = (i, j) \<and> y = x" using y by (auto split: if_splits)
    then show ?thesis using assms(2-4) nd_cong(1) [of "push s i j x" s N] by simp
  qed
  moreover have "concat (map the_req (ch (push s i j x) (a, b))) = []" if "a \<noteq> m" "b \<noteq> m" for a b
  proof -
    have "concat (map the_req (ch s (a, b))) = []" using assms(1) that by (simp add: chan_ok_def)
    then show ?thesis using assms(5) that by auto
  qed
  ultimately show ?thesis unfolding chan_ok_def by blast
qed

lemma mo_simps [simp]:
  "token_ok N (s\<lparr>mo := k\<rparr>) c = token_ok N s c" "node_ok N (s\<lparr>mo := k\<rparr>) = node_ok N s"
  "waiters N (s\<lparr>mo := k\<rparr>) = waiters N s" "chan_ok m N (s\<lparr>mo := k\<rparr>) = chan_ok m N s"
  "inbound m (s\<lparr>mo := k\<rparr>) = inbound m s"
  using nd_cong(1,2,4) [of "s\<lparr>mo := k\<rparr>" s N]
  by (simp_all add: token_ok_def chan_ok_def inbound_def fun_eq_iff)

lemma token_cong:
  assumes "\<And>x. own (nd s' x) = own (nd s x)" and "\<And>x. ph (nd s' x) = ph (nd s x)" and "ch s' = ch s"
  shows "token_ok N s' c = token_ok N s c"
  by (simp add: token_ok_def assms)

lemma token_node:
  assumes "token_ok N s c" and "i \<noteq> c \<or> own (nd s c)" and "own a = own (nd s i)"
  shows "token_ok N (set_nd s i a) c"
proof -
  have o: "own (nd (set_nd s i a) k) = own (nd s k)" for k using assms(3) by simp
  have "own (nd s c) \<or> nd (set_nd s i a) c = nd s c" using assms(2) by auto
  then show ?thesis using assms(1) unfolding token_ok_def o by auto
qed

lemma token_push:
  assumes "token_ok N s c" and "x \<noteq> WRep"
  shows "token_ok N (push s i j x) c"
proof -
  have "WRep \<in> set (ch (push s i j x) (a, b)) \<longleftrightarrow> WRep \<in> set (ch s (a, b))" for a b
    using assms(2) by (cases "(a, b) = (i, j)") auto
  then show ?thesis using assms(1) unfolding token_ok_def by (metis upd_simps(4))
qed

lemma chan_pop: "chan_ok m N s \<Longrightarrow> ch s (i, j) = x # rest \<Longrightarrow> chan_ok m N (pop s i j)"
proof -
  assume c: "chan_ok m N s" and x: "ch s (i, j) = x # rest"
  have "y \<in> set (ch s (a, b))" if "y \<in> set (ch (pop s i j) (a, b))" for y a b
    using that x by (auto split: if_splits)
  moreover have "concat (map the_req (ch (pop s i j) (a, b))) = []" if "a \<noteq> m" "b \<noteq> m" for a b
  proof -
    have "concat (map the_req (ch s (a, b))) = []" using c that by (auto simp: chan_ok_def)
    then show ?thesis using x by (cases "(a, b) = (i, j)") auto
  qed
  ultimately show ?thesis
    using c nd_cong(1) [of "pop s i j" s N] unfolding chan_ok_def by (metis upd_simps(7))
qed

lemma token_pop:
  assumes "token_ok N s c" and x: "ch s (i, j) = x # rest" and "x \<noteq> WRep"
  shows "token_ok N (pop s i j) c"
proof -
  have "WRep \<in> set (ch (pop s i j) (a, b)) \<longleftrightarrow> WRep \<in> set (ch s (a, b))" for a b
    using x assms(3) by (cases "(a, b) = (i, j)") auto
  then show ?thesis using assms(1) unfolding token_ok_def by (metis upd_simps(7))
qed

lemma msg_ok_keep:
  assumes "\<not> waits s i" and "msg_ok N s j x" and "\<And>k. k \<noteq> i \<Longrightarrow> ph (nd s' k) = ph (nd s k)"
  shows "msg_ok N s' j x"
proof -
  have k: "ph (nd s k) = RWait \<Longrightarrow> ph (nd s' k) = RWait" "ph (nd s k) = WWait \<Longrightarrow> ph (nd s' k) = WWait" for k
    using assms(1) assms(3) [of k] by (cases "k = i"; simp add: waits_def)+
  show ?thesis
    using assms(2) k unfolding msg_ok_def by (auto split: pmsg.splits req.splits)
qed

section \<open>Consequences of the invariant\<close>

lemma pinv_parts:
  assumes "pinv m N h s L"
  shows "m < N" "L \<noteq> []" "distinct L" "set L \<subseteq> {..<N}" "chan_ok m N s" "token_ok N s (hd L)" "hand_ok N h s"
    "outstanding N s + hand_tag h = waiters N s" "m \<in> set L \<Longrightarrow> m = last L" "m \<notin> set L \<Longrightarrow> mo s = last L"
    "\<And>i. i < N \<Longrightarrow> node_ok N s i" "\<And>c. c \<in> set (tl L) \<Longrightarrow> ph (nd s c) = WWait"
    "\<And>j. j < N \<Longrightarrow> j \<noteq> m \<Longrightarrow> chain_in L j (in_hand h j @ inbound m s j)"
  using assms unfolding pinv_def chain_ok_def by (auto split: if_splits)

lemma chain_member:
  assumes "pinv m N h s L" and "c \<in> set L"
  shows "ph (nd s c) = WWait \<or> c = hd L \<and> own (nd s c) \<and> \<not> waits s c"
proof (cases "c = hd L")
  case True
  have "c < N" using pinv_parts(4) [OF assms(1)] assms(2) by auto
  then have "own (nd s c) \<longrightarrow> \<not> waits s c"
    using pinv_parts(11) [OF assms(1), of c] by (simp add: node_ok_def)
  moreover have "\<not> own (nd s c) \<longrightarrow> ph (nd s c) = WWait"
    using pinv_parts(6) [OF assms(1)] True unfolding token_ok_def by blast
  ultimately show ?thesis using True by blast
next
  case False
  then have "c \<in> set (tl L)" using assms(2) by (cases L) auto
  then show ?thesis using pinv_parts(12) [OF assms(1)] by blast
qed

lemma owner_is_head: "pinv m N h s L \<Longrightarrow> own (nd s i) \<Longrightarrow> i = hd L"
  using pinv_parts(6) [of m N h s L] by (auto simp: token_ok_def)

lemma free_not_owner_outside: "pinv m N h s L \<Longrightarrow> \<not> waits s i \<Longrightarrow> \<not> own (nd s i) \<Longrightarrow> i \<notin> set L"
  using chain_member [of m N h s L i] by (auto simp: waits_def)

lemma reader_outside: "pinv m N h s L \<Longrightarrow> ph (nd s r) = RWait \<Longrightarrow> r \<notin> set L"
  using chain_member [of m N h s L r] by (auto simp: waits_def)

lemma last_in: "pinv m N h s L \<Longrightarrow> last L \<in> set L \<and> last L < N"
  using pinv_parts(2,4) [of m N h s L] by (meson last_in_set lessThan_iff subsetD)

lemma butlast_not_m: "pinv m N h s L \<Longrightarrow> c \<in> set (butlast L) \<Longrightarrow> c \<noteq> m \<and> c < N"
proof -
  assume p: "pinv m N h s L" and c: "c \<in> set (butlast L)"
  have cl: "c \<in> set L" using c by (rule in_set_butlastD)
  have "L = butlast L @ [last L]" using pinv_parts(2) [OF p] by simp
  then have "distinct (butlast L @ [last L])" using pinv_parts(3) [OF p] by simp
  then have "c \<noteq> last L" using c by auto
  then show ?thesis using pinv_parts(4,9) [OF p] cl by auto
qed

lemma inbound_outstanding:
  assumes "m < N" and "c < N" and "r \<in> set (inbound m s c)"
  shows "req_tag r \<subseteq># outstanding N s"
proof -
  have "r \<in> set (qu (nd s c)) \<or> (\<exists>x \<in> set (ch s (m, c)). r \<in> set (the_req x))"
    using assms(3) by (auto simp: inbound_def)
  then show ?thesis
  proof
    assume "\<exists>x \<in> set (ch s (m, c)). r \<in> set (the_req x)"
    then obtain x where x: "x \<in> set (ch s (m, c))" "r \<in> set (the_req x)" by blast
    then have "msg_tag c x = req_tag r" by (cases x rule: the_req.cases) auto
    then show ?thesis using chan_outstanding [OF assms(1,2) x(1)] by simp
  qed (rule queue_outstanding [OF assms(2)])
qed

text \<open>A write request that the manager holds cannot come from a member of the chain.\<close>

lemma writer_outside:
  assumes p: "pinv m N (Some (m, AW r)) s L"
  shows "r \<notin> set L"
proof
  assume r: "r \<in> set L"
  have w: "ph (nd s r) = WWait" "r < N" using pinv_parts(7) [OF p] by (auto simp: hand_ok_def msg_ok_def)
  have "r \<in># outstanding N s"
  proof (cases "r = hd L")
    case True
    have "\<not> own (nd s r)" using pinv_parts(11) [OF p w(2)] w(1) by (auto simp: node_ok_def waits_def)
    then obtain j where "j < N" "WRep \<in> set (ch s (j, r))"
      using pinv_parts(6) [OF p] True by (auto simp: token_ok_def)
    then show ?thesis using chan_outstanding [of j N r WRep s] w(2) by simp
  next
    case False
    then have "r \<in> set (tl L)" using r by (cases L) auto
    then obtain c where c: "c \<in> set (butlast L)" "AW r \<in> set (in_hand (Some (m, AW r)) c @ inbound m s c)"
      using chain_pred [OF _ pinv_parts(3) [OF p], of r "\<lambda>c. in_hand (Some (m, AW r)) c @ inbound m s c"]
        pinv_parts(13) [OF p] butlast_not_m [OF p] by blast
    then show ?thesis
      using inbound_outstanding [OF pinv_parts(1) [OF p], of c "AW r" s] butlast_not_m [OF p c(1)]
      by (simp add: in_hand_def)
  qed
  then have "count (outstanding N s + hand_tag (Some (m, AW r))) r \<ge> 2"
    by (simp add: hand_tag_def Suc_leI)
  then show False unfolding pinv_parts(8) [OF p] count_waiters by (simp split: if_splits)
qed


section \<open>A server process keeps the invariant and does not panic\<close>

lemma ph_cong:
  assumes "\<And>k. ph (nd s' k) = ph (nd s k)"
  shows "msg_ok N s' = msg_ok N s" and "waits s' = waits s" and "waiters N s' = waiters N s"
    and "hand_ok N h s' = hand_ok N h s"
proof -
  show m: "msg_ok N s' = msg_ok N s" by (intro ext) (simp only: msg_ok_def assms)
  show w: "waits s' = waits s" by (intro ext) (simp add: waits_def assms)
  show "waiters N s' = waiters N s" by (simp add: waiters_def w)
  show "hand_ok N h s' = hand_ok N h s" by (simp add: hand_ok_def m w split: option.splits)
qed

lemma in_hand_simps [simp]: "in_hand None j = []" "i \<noteq> j \<Longrightarrow> in_hand (Some (i, r)) j = []"
  "in_hand (Some (j, AR k)) j = [AR k]" "in_hand (Some (j, AW k)) j = [AW k]" "in_hand (Some (i, AI)) j = []"
  "hand_tag None = {#}" "hand_tag (Some (i, r)) = req_tag r" "hand_ok N None s"
  by (simp_all add: in_hand_def hand_tag_def hand_ok_def)

lemma pinv_push:
  assumes p: "pinv m N h s L" and "i < N" and "j < N" and "msg_ok N s j x" and "the_req x = [] \<or> i = m \<or> j = m"
    and "x \<noteq> WRep" and tag: "msg_tag j x = hand_tag h"
    and ch: "\<And>k. k < N \<Longrightarrow> k \<noteq> m \<Longrightarrow> chain_in L k (inbound m (push s i j x) k)"
  shows "pinv m N None (push s i j x) L"
proof -
  let ?s = "push s i j x"
  have "chain_ok m N None ?s L"
    using pinv_parts(2-4,9,10,12) [OF p] ch by (auto simp: chain_ok_def)
  moreover have "token_ok N ?s (hd L)" using token_push [OF pinv_parts(6) [OF p] assms(6)] .
  moreover have "chan_ok m N ?s" using chan_push [OF pinv_parts(5) [OF p] assms(2-5)] .
  moreover have "outstanding N ?s = waiters N ?s"
    using pinv_parts(8) [OF p] out_push [OF assms(2,3), of s x] tag nd_cong(4) [of ?s s N] by simp
  ultimately show ?thesis
    using pinv_parts(1,11) [OF p] nd_cong(2) [of ?s s N] by (simp add: pinv_def)
qed

lemma free_server_owns:
  assumes p: "pinv m N (Some (i, r)) s L" and "i \<noteq> m" and "r \<noteq> AI"
  shows "own (nd s i)"
proof (rule ccontr)
  assume no: "\<not> own (nd s i)"
  have i: "i < N" "\<not> waits s i" using pinv_parts(7) [OF p] by (auto simp: hand_ok_def)
  have "i \<notin> set L" using free_not_owner_outside [OF p i(2) no] .
  then have "in_hand (Some (i, r)) i @ inbound m s i = []"
    using pinv_parts(13) [OF p i(1) assms(2)] chain_in_notin by blast
  then show False using assms(3) by (simp add: in_hand_def)
qed

lemma hand_read:
  assumes "pinv m N (Some (i, AR r)) s L"
  shows "i < N" "\<not> waits s i" "r < N" "ph (nd s r) = RWait" "r \<notin> set L"
proof -
  show "i < N" "\<not> waits s i" "r < N" and r: "ph (nd s r) = RWait"
    using pinv_parts(7) [OF assms] by (auto simp: hand_ok_def msg_ok_def)
  show "r \<notin> set L" using reader_outside [OF assms r] .
qed

lemma hand_write:
  assumes "pinv m N (Some (i, AW r)) s L"
  shows "i < N" "\<not> waits s i" "r < N" "ph (nd s r) = WWait" "r \<noteq> i"
  using pinv_parts(7) [OF assms] by (auto simp: hand_ok_def msg_ok_def waits_def)

lemma serve_read_own:
  assumes p: "pinv m N (Some (i, AR r)) s L" and "own (nd s i)"
  shows "pinv m N None (push s i r RRep) L"
proof (rule pinv_push [OF p])
  fix k assume "k < N" "k \<noteq> m"
  then show "chain_in L k (inbound m (push s i r RRep) k)"
    using pinv_parts(13) [OF p, of k] chain_in_AR_front [of L k r]
    by (cases "k = i") (simp_all add: inbound_push)
qed (use hand_read [OF p] in \<open>simp_all add: msg_ok_def\<close>)

lemma serve_read_forward:
  assumes p: "pinv m N (Some (m, AR r)) s L" and "\<not> own (nd s m)"
  shows "r \<noteq> mo s" and "pinv m N None (push s m (mo s) (Req (AR r))) L"
proof -
  have m: "m \<notin> set L" using free_not_owner_outside [OF p] hand_read(2) [OF p] assms(2) by blast
  then have mo: "mo s = last L" using pinv_parts(10) [OF p] by blast
  have l: "last L \<in> set L" "last L < N" using last_in [OF p] by auto
  then show "r \<noteq> mo s" using hand_read(5) [OF p] mo by auto
  show "pinv m N None (push s m (mo s) (Req (AR r))) L"
  proof (rule pinv_push [OF p])
    fix k assume k: "k < N" "k \<noteq> m"
    have c: "chain_in L k (inbound m s k)" using pinv_parts(13) [OF p k] k(2) by simp
    then show "chain_in L k (inbound m (push s m (mo s) (Req (AR r))) k)"
      using chain_in_AR_last [OF pinv_parts(3,2) [OF p]]
      by (cases "k = last L") (simp_all add: inbound_push mo)
  qed (use hand_read [OF p] l mo pinv_parts(1) [OF p] in \<open>simp_all add: msg_ok_def\<close>)
qed

lemma serve_write_forward:
  assumes p: "pinv m N (Some (m, AW r)) s L" and "\<not> own (nd s m)"
  shows "r \<noteq> mo s" and "pinv m N None ((push s m (mo s) (Req (AW r)))\<lparr>mo := r\<rparr>) (L @ [r])"
proof -
  let ?s = "push s m (mo s) (Req (AW r))"
  have m: "m \<notin> set L" using free_not_owner_outside [OF p] hand_write(2) [OF p] assms(2) by blast
  then have mo: "mo s = last L" using pinv_parts(10) [OF p] by blast
  have l: "last L \<in> set L" "last L < N" using last_in [OF p] by auto
  have r: "r \<notin> set L" "r \<noteq> m" "r < N" "ph (nd s r) = WWait"
    using writer_outside [OF p] hand_write [OF p] by auto
  show "r \<noteq> mo s" using l(1) mo r(1) by auto
  have ch: "chain_in (L @ [r]) k (inbound m ?s k)" if k: "k < N" "k \<noteq> m" for k
  proof -
    have c: "chain_in L k (inbound m s k)" using pinv_parts(13) [OF p k] k(2) by simp
    then show ?thesis
      using chain_in_snoc_last [OF pinv_parts(3,2) [OF p]] chain_in_snoc_other [OF pinv_parts(3,2) [OF p] r(1)]
      by (cases "k = last L") (simp_all add: inbound_push mo)
  qed
  have "chain_ok m N None (?s\<lparr>mo := r\<rparr>) (L @ [r])"
    using pinv_parts(2-4,12) [OF p] ch r m by (auto simp: chain_ok_def)
  moreover have "token_ok N (?s\<lparr>mo := r\<rparr>) (hd (L @ [r]))"
    using token_push [OF pinv_parts(6) [OF p], of "Req (AW r)" m "mo s"] pinv_parts(2) [OF p] by simp
  moreover have "chan_ok m N (?s\<lparr>mo := r\<rparr>)"
    using chan_push [OF pinv_parts(5) [OF p] pinv_parts(1) [OF p], of "mo s" "Req (AW r)"] l mo r
    by (simp add: msg_ok_def)
  moreover have "outstanding N (?s\<lparr>mo := r\<rparr>) = waiters N (?s\<lparr>mo := r\<rparr>)"
    using pinv_parts(8) [OF p] out_push [OF pinv_parts(1) [OF p], of "mo s" s "Req (AW r)"] l mo
      nd_cong(4) [of "?s\<lparr>mo := r\<rparr>" s N] by simp
  ultimately show "pinv m N None (?s\<lparr>mo := r\<rparr>) (L @ [r])"
    using pinv_parts(1,11) [OF p] nd_cong(2) [of "?s\<lparr>mo := r\<rparr>" s N] by (simp add: pinv_def)
qed

text \<open>Node \<open>i\<close> gives the page away: the head of the chain leaves it.\<close>

abbreviation give :: "pstate \<Rightarrow> nat \<Rightarrow> nat \<Rightarrow> pstate" where
  "give s i r \<equiv> push (set_nd s i ((nd s i)\<lparr>own := False, acc := False\<rparr>)) i r WRep"

lemma give_keeps:
  assumes p: "pinv m N (Some (i, AW r)) s L" and o: "own (nd s i)" and mx: "s' = (give s i r)\<lparr>mo := k\<rparr>"
  shows "\<And>x. ph (nd s' x) = ph (nd s x)" and "token_ok N s' r" and "\<And>x. x < N \<Longrightarrow> node_ok N s' x"
    and "chan_ok m N s'" and "outstanding N s' = waiters N s'" and "inbound m s' = inbound m s"
proof -
  have h: "i < N" "\<not> waits s i" "r < N" "ph (nd s r) = WWait" "r \<noteq> i" using hand_write [OF p] by auto
  have i: "i = hd L" using owner_is_head [OF p o] .
  have tok: "\<And>x. own (nd s x) \<Longrightarrow> x = i" "\<And>x y. WRep \<notin> set (ch s (x, y))"
    using pinv_parts(6) [OF p] o unfolding token_ok_def i by blast+
  show ph: "ph (nd s' x) = ph (nd s x)" for x by (simp add: mx)
  have "own (nd s' x) \<longleftrightarrow> False" for x using tok(1) [of x] by (auto simp: mx)
  moreover have "WRep \<in> set (ch s' (x, y)) \<longleftrightarrow> (x, y) = (i, r)" for x y using tok(2) [of x y] by (auto simp: mx)
  ultimately show "token_ok N s' r"
    unfolding token_ok_def using h(1,4) ph [of r] by auto
  have g: "msg_ok N (give s i r) = msg_ok N s" "waits (give s i r) = waits s"
    by (rule ph_cong; simp)+
  show "node_ok N s' x" if "x < N" for x
    using pinv_parts(11) [OF p that] h(2) by (cases "x = i") (auto simp: node_ok_def mx g)
  have "chan_ok m N (set_nd s i ((nd s i)\<lparr>own := False, acc := False\<rparr>))"
    using pinv_parts(5) [OF p] ph_cong(1) [of "set_nd s i ((nd s i)\<lparr>own := False, acc := False\<rparr>)" s N]
    by (simp add: chan_ok_def)
  then have "chan_ok m N (give s i r)"
    by (rule chan_push) (use h in \<open>simp_all add: msg_ok_def\<close>)
  then show "chan_ok m N s'" by (simp add: mx)
  have "outstanding N s' = outstanding N s + {#r#}"
    using h(1,3) by (simp add: mx out_push out_same_qu)
  then show "outstanding N s' = waiters N s'"
    using pinv_parts(8) [OF p] ph_cong(3) [OF ph, of N] by simp
  show "inbound m s' = inbound m s" by (intro ext) (simp add: inbound_def mx)
qed

lemma serve_write_own:
  assumes p: "pinv m N (Some (i, AW r)) s L" and o: "own (nd s i)"
  shows "\<exists>L'. pinv m N None ((give s i r)\<lparr>mo := (if i = m then r else mo s)\<rparr>) L'"
proof -
  let ?s = "(give s i r)\<lparr>mo := (if i = m then r else mo s)\<rparr>"
  note keep = give_keeps [where k = "if i = m then r else mo s", OF p o refl]
  have h: "i < N" "r < N" "r \<noteq> i" using hand_write [OF p] by auto
  have i: "i = hd L" using owner_is_head [OF p o] .
  have inL: "i \<in> set L" using i pinv_parts(2) [OF p] by simp
  show ?thesis
  proof (cases "i = m")
    case True
    have "L = [m]"
      using pinv_parts(2,3,9) [OF p] i inL True by (cases L rule: remdups_adj.cases) (auto split: if_splits)
    then have "inbound m s k = []" if "k < N" "k \<noteq> m" for k
      using pinv_parts(13) [OF p that] that True by simp
    then have "chain_ok m N None ?s [r]" using h True keep(6) by (auto simp: chain_ok_def)
    then have "pinv m N None ?s [r]" using keep(2-5) pinv_parts(1) [OF p] unfolding pinv_def by simp
    then show ?thesis by blast
  next
    case False
    obtain L' where L: "L = i # r # L'" and ib: "inbound m s i = []"
      using chain_in_AW_front [OF pinv_parts(3) [OF p], of r "inbound m s i"] pinv_parts(2) [OF p]
        pinv_parts(13) [OF p h(1) False] i by auto
    have "chain_in (r # L') k (inbound m s k)" if k: "k < N" "k \<noteq> m" for k
      using pinv_parts(3) [OF p] pinv_parts(13) [OF p k] L ib chain_in_notin [of i "r # L'"]
      by (cases "k = i") auto
    then have "chain_ok m N None ?s (r # L')"
      using pinv_parts(3,4,9,10,12) [OF p] L keep(1,6) False by (auto simp: chain_ok_def)
    then have "pinv m N None ?s (r # L')" using keep(2-5) pinv_parts(1) [OF p] unfolding pinv_def by simp
    then show ?thesis by blast
  qed
qed

lemma serve_invalidate:
  assumes p: "pinv m N (Some (i, AI)) s L" and o: "\<not> own (nd s i)"
  shows "pinv m N None (set_nd s i ((nd s i)\<lparr>acc := False\<rparr>)) L"
proof -
  let ?s = "set_nd s i ((nd s i)\<lparr>acc := False\<rparr>)"
  have i: "i < N" using pinv_parts(7) [OF p] by (simp add: hand_ok_def)
  have ph: "ph (nd ?s k) = ph (nd s k)" for k by simp
  have ib: "inbound m ?s = inbound m s" by (intro ext) (simp add: inbound_def)
  have "chain_ok m N None ?s L"
    using pinv_parts(2-4,9,10,12,13) [OF p] ph ib by (auto simp: chain_ok_def)
  moreover have "token_ok N ?s (hd L)" using pinv_parts(6) [OF p] token_cong [of ?s s N] by simp
  moreover have "node_ok N ?s k" if "k < N" for k
    using pinv_parts(11) [OF p that] o ph_cong(1,2) [OF ph] by (cases "k = i") (auto simp: node_ok_def)
  moreover have "chan_ok m N ?s"
    using pinv_parts(5) [OF p] ph_cong(1) [OF ph, of N] by (simp add: chan_ok_def)
  moreover have "outstanding N ?s = waiters N ?s"
    using pinv_parts(8) [OF p] i ph_cong(3) [OF ph, of N] by (simp add: out_same_qu)
  ultimately show ?thesis using pinv_parts(1) [OF p] by (simp add: pinv_def)
qed

lemma pinv_drop_AI: "pinv m N (Some (i, AI)) s L \<Longrightarrow> pinv m N None s L"
  by (auto simp: pinv_def chain_ok_def)

lemma serve_ok:
  assumes p: "pinv m N (Some (i, r)) s L"
  shows "\<exists>s' L'. serve m s i r = Some s' \<and> pinv m N None s' L'"
proof (cases r)
  case (AR k)
  note q = p [unfolded AR]
  show ?thesis
  proof (cases "own (nd s i)")
    case True
    then show ?thesis using serve_read_own [OF q] AR by auto
  next
    case False
    then have im: "i = m" using free_server_owns [OF q] by auto
    show ?thesis using serve_read_forward [OF q [unfolded im]] False unfolding AR im by auto
  qed
next
  case (AW k)
  note q = p [unfolded AW]
  show ?thesis
  proof (cases "own (nd s i)")
    case True
    then show ?thesis using serve_write_own [OF q] AW by auto
  next
    case False
    then have im: "i = m" using free_server_owns [OF q] by auto
    show ?thesis using serve_write_forward [OF q [unfolded im]] False unfolding AW im by auto
  qed
next
  case AI
  then show ?thesis using serve_invalidate [OF p [unfolded AI]] pinv_drop_AI [OF p [unfolded AI]] by auto
qed

section \<open>Every step keeps the invariant\<close>

lemma start_keeps:
  assumes p: "pinv m N None s L" and i: "i < N" and idle: "ph (nd s i) = Idle" and o: "\<not> own (nd s i)"
    and w: "w = RWait \<and> x = Req (AR i) \<or> w = WWait \<and> x = Req (AW i)" and t: "t < N" "i = m \<or> t = m"
    and s': "s' = push (set_nd s i ((nd s i)\<lparr>ph := w, acc := False\<rparr>)) i t x"
  shows "token_ok N s' (hd L)" and "\<And>k. k < N \<Longrightarrow> node_ok N s' k" and "chan_ok m N s'"
    and "outstanding N s' = waiters N s'" and "i \<notin> set L"
proof -
  let ?s = "set_nd s i ((nd s i)\<lparr>ph := w, acc := False\<rparr>)"
  have nw: "\<not> waits s i" using idle by (simp add: waits_def)
  show out: "i \<notin> set L" using free_not_owner_outside [OF p nw o] .
  have hd: "hd L \<noteq> i" using out pinv_parts(2) [OF p] by (cases L) auto
  have mk: "msg_ok N ?s k y" if "msg_ok N s k y" for k y using msg_ok_keep [OF nw that] by simp
  have "token_ok N ?s (hd L)" using pinv_parts(6) [OF p] hd o unfolding token_ok_def by simp metis
  then show "token_ok N s' (hd L)" unfolding s' by (rule token_push) (use w in auto)
  have "node_ok N ?s k" if k: "k < N" for k
  proof -
    have "waits ?s k \<longleftrightarrow> k = i \<or> waits s k" using w by (auto simp: waits_def)
    then show ?thesis using pinv_parts(11) [OF p k] mk o w by (cases "k = i") (auto simp: node_ok_def)
  qed
  then show "\<And>k. k < N \<Longrightarrow> node_ok N s' k" using nd_cong(2) [of s' ?s N] by (simp add: s')
  have "chan_ok m N ?s" using pinv_parts(5) [OF p] mk by (auto simp: chan_ok_def)
  then show "chan_ok m N s'" unfolding s' by (rule chan_push) (use i t w in \<open>auto simp: msg_ok_def\<close>)
  have "waiters N s' = waiters N s + {#i#}"
    by (rule waiters_start [OF i nw]) (use w in \<open>auto simp: waits_def s'\<close>)
  then show "outstanding N s' = waiters N s'"
    using pinv_parts(8) [OF p] w i t by (auto simp: s' out_push out_same_qu)
qed

lemma target_facts:
  assumes p: "pinv m N None s L" and i: "i < N" "i \<notin> set L"
  shows "target m s i < N" and "i = m \<or> target m s i = m" and "i = m \<Longrightarrow> target m s i = last L"
  using pinv_parts(1,10) [OF p] last_in [OF p] i by (auto simp: target_def)

lemma read_fault_keeps:
  assumes p: "pinv m N None s L" and i: "i < N" and idle: "ph (nd s i) = Idle" and a: "\<not> acc (nd s i)"
  shows "pinv m N None (push (set_nd s i ((nd s i)\<lparr>ph := RWait\<rparr>)) i (target m s i) (Req (AR i))) L"
proof -
  let ?s = "push (set_nd s i ((nd s i)\<lparr>ph := RWait\<rparr>)) i (target m s i) (Req (AR i))"
  have o: "\<not> own (nd s i)" using pinv_parts(11) [OF p i] a by (auto simp: node_ok_def)
  have out: "i \<notin> set L" using free_not_owner_outside [OF p _ o] idle by (simp add: waits_def)
  note t = target_facts [OF p i out]
  have eq: "(nd s i)\<lparr>ph := RWait\<rparr> = (nd s i)\<lparr>ph := RWait, acc := False\<rparr>" using a by simp
  note k = start_keeps [OF p i idle o _ t(1,2) refl, of RWait "Req (AR i)", folded eq]
  have "chain_in L j (inbound m ?s j)" if j: "j < N" "j \<noteq> m" for j
  proof -
    have c: "chain_in L j (inbound m s j)" using pinv_parts(13) [OF p j] by simp
    have "inbound m ?s j = inbound m s j @ (if i = m \<and> target m s i = j then [AR i] else [])"
      by (auto simp: inbound_push inbound_same)
    then show ?thesis using c t(3) chain_in_AR_last [OF pinv_parts(3,2) [OF p]] by auto
  qed
  then have "chain_ok m N None ?s L"
    using pinv_parts(2-4,9,10,12) [OF p] out by (auto simp: chain_ok_def dest: list.set_sel(2))
  then show ?thesis using k(1-4) pinv_parts(1) [OF p] unfolding pinv_def by simp
qed

lemma write_fault_keeps:
  assumes p: "pinv m N None s L" and i: "i < N" and idle: "ph (nd s i) = Idle" and o: "\<not> own (nd s i)"
  shows "\<exists>L'. pinv m N None
     (push (set_nd s i ((nd s i)\<lparr>ph := WWait, acc := False\<rparr>)) i (target m s i) (Req (AW i))) L'"
proof -
  let ?s = "push (set_nd s i ((nd s i)\<lparr>ph := WWait, acc := False\<rparr>)) i (target m s i) (Req (AW i))"
  have out: "i \<notin> set L" using free_not_owner_outside [OF p _ o] idle by (simp add: waits_def)
  note t = target_facts [OF p i out]
  note k = start_keeps [OF p i idle o _ t(1,2) refl, of WWait "Req (AW i)"]
  let ?L = "if i = m then L @ [i] else L"
  have "chain_in ?L j (inbound m ?s j)" if j: "j < N" "j \<noteq> m" for j
  proof -
    have c: "chain_in L j (inbound m s j)" using pinv_parts(13) [OF p j] by simp
    have "inbound m ?s j = inbound m s j @ (if i = m \<and> target m s i = j then [AW i] else [])"
      by (auto simp: inbound_push inbound_same)
    then show ?thesis
      using c t(3) chain_in_snoc_last [OF pinv_parts(3,2) [OF p]]
        chain_in_snoc_other [OF pinv_parts(3,2) [OF p] out]
      by (cases "i = m"; cases "j = last L") auto
  qed
  then have "chain_ok m N None ?s ?L"
    using pinv_parts(2-4,9,10,12) [OF p] out i by (auto simp: chain_ok_def dest: list.set_sel(2))
  moreover have "hd ?L = hd L" using pinv_parts(2) [OF p] by simp
  ultimately have "pinv m N None ?s ?L" using k(1-4) pinv_parts(1) [OF p] unfolding pinv_def by simp
  then show ?thesis by blast
qed

text \<open>Taking a request from a channel or the queue puts it in the node's hand.\<close>

lemma channel_req:
  assumes p: "pinv m N None s L" and x: "ch s (j, i) = Req r # rest" and "i \<noteq> m" and "r \<noteq> AI"
  shows "j = m"
proof (rule ccontr)
  assume "j \<noteq> m"
  then have "concat (map the_req (ch s (j, i))) = []" using pinv_parts(5) [OF p] assms(3) by (simp add: chan_ok_def)
  then show False using x assms(4) by (cases r) auto
qed

lemma pop_inbound:
  assumes p: "pinv m N None s L" and x: "ch s (j, i) = Req r # rest" and i: "i \<noteq> m"
  shows "inbound m s i =
    filter (\<lambda>r. r \<noteq> AI) (qu (nd s i)) @ in_hand (Some (i, r)) i @ concat (map the_req (ch (pop s j i) (m, i)))"
  using channel_req [OF p x i] x by (cases "j = m"; cases r) (auto simp: inbound_def in_hand_def)

lemma pop_keeps:
  assumes p: "pinv m N None s L" and ij: "i < N" "j < N" and x: "ch s (j, i) = Req r # rest"
  shows "msg_ok N s i (Req r)" and "chan_ok m N (pop s j i)" and "token_ok N (pop s j i) (hd L)"
    and "outstanding N (pop s j i) + req_tag r = waiters N s"
proof -
  have "Req r \<in> set (ch s (j, i))" using x by simp
  then show "msg_ok N s i (Req r)" using pinv_parts(5) [OF p] unfolding chan_ok_def by blast
qed (use chan_pop [OF pinv_parts(5) [OF p] x] token_pop [OF pinv_parts(6) [OF p] x]
      out_pop [OF ij(2,1) x] pinv_parts(8) [OF p] in simp_all)

lemma enqueue_keeps:
  assumes p: "pinv m N None s L" and ij: "i < N" "j < N" and x: "ch s (j, i) = Req r # rest"
    and busy: "ph (nd s i) \<noteq> Idle"
  shows "pinv m N None (set_nd (pop s j i) i ((nd s i)\<lparr>qu := qu (nd s i) @ [r]\<rparr>)) L"
proof -
  let ?t = "pop s j i" let ?s = "set_nd ?t i ((nd s i)\<lparr>qu := qu (nd s i) @ [r]\<rparr>)"
  note k = pop_keeps [OF p ij x]
  have ph: "ph (nd ?s y) = ph (nd s y)" for y by simp
  note c = ph_cong [OF ph]
  have "inbound m ?s y = inbound m s y" if "y \<noteq> m" for y
  proof (cases "y = i")
    case True
    then show ?thesis using pop_inbound [OF p x] that by (cases r) (simp_all add: inbound_def in_hand_def)
  qed (simp add: inbound_def)
  then have "chain_ok m N None ?s L"
    using pinv_parts(2-4,9,10,12,13) [OF p] by (auto simp: chain_ok_def)
  moreover have "token_ok N ?s (hd L)" using k(3) token_cong [of ?s ?t N] by simp
  moreover have "node_ok N ?s y" if "y < N" for y
    using pinv_parts(11) [OF p that] k(1) busy c(1,2) by (cases "y = i") (auto simp: node_ok_def)
  moreover have "chan_ok m N ?s" using k(2) c(1) [of N] nd_cong(1) [of ?t s N] by (simp add: chan_ok_def)
  moreover have "outstanding N ?s = waiters N ?s"
    using k(4) c(3) [of N] out_set_nd [OF ij(1), of ?t "(nd s i)\<lparr>qu := qu (nd s i) @ [r]\<rparr>"]
    by (simp add: ac_simps)
  ultimately show ?thesis using pinv_parts(1) [OF p] by (simp add: pinv_def)
qed

lemma serve_now_hand:
  assumes p: "pinv m N None s L" and ij: "i < N" "j < N" and x: "ch s (j, i) = Req r # rest"
    and idle: "ph (nd s i) = Idle"
  shows "pinv m N (Some (i, r)) (pop s j i) L"
proof -
  let ?s = "pop s j i"
  note k = pop_keeps [OF p ij x] and c = nd_cong [of ?s s]
  have q: "qu (nd s i) = []" using pinv_parts(11) [OF p ij(1)] idle by (simp add: node_ok_def)
  have "in_hand (Some (i, r)) y @ inbound m ?s y = inbound m s y" if "y \<noteq> m" for y
  proof (cases "y = i")
    case True
    then show ?thesis using pop_inbound [OF p x] that q by (simp add: inbound_def)
  qed (simp add: inbound_def)
  then have "chain_ok m N (Some (i, r)) ?s L"
    using pinv_parts(2-4,9,10,12,13) [OF p] by (auto simp: chain_ok_def)
  moreover have "hand_ok N (Some (i, r)) ?s" using k(1) c(1,3) idle ij(1) by (simp add: hand_ok_def waits_def)
  ultimately show ?thesis
    using k(2-4) c(2,4) pinv_parts(1,11) [OF p] by (simp add: pinv_def)
qed

lemma serve_queued_hand:
  assumes p: "pinv m N None s L" and i: "i < N" and d: "ph (nd s i) = Drain" and q: "qu (nd s i) = r # rest"
  shows "pinv m N (Some (i, r)) (set_nd s i ((nd s i)\<lparr>qu := rest\<rparr>)) L"
proof -
  let ?s = "set_nd s i ((nd s i)\<lparr>qu := rest\<rparr>)"
  have ph: "ph (nd ?s y) = ph (nd s y)" for y by simp
  note c = ph_cong [OF ph]
  have "in_hand (Some (i, r)) y @ inbound m ?s y = inbound m s y" for y
    using q by (cases "y = i"; cases r) (simp_all add: inbound_def in_hand_def)
  then have "chain_ok m N (Some (i, r)) ?s L"
    using pinv_parts(2-4,9,10,12,13) [OF p] by (auto simp: chain_ok_def)
  moreover have "token_ok N ?s (hd L)" using pinv_parts(6) [OF p] token_cong [of ?s s N] by simp
  moreover have "node_ok N ?s y" if "y < N" for y
    using pinv_parts(11) [OF p that] d q c(1,2) by (cases "y = i") (auto simp: node_ok_def)
  moreover have "chan_ok m N ?s" using pinv_parts(5) [OF p] c(1) [of N] by (simp add: chan_ok_def)
  moreover have "outstanding N ?s + req_tag r = waiters N ?s"
    using pinv_parts(8) [OF p] c(3) [of N] out_set_nd [OF i, of s "(nd s i)\<lparr>qu := rest\<rparr>"] q
    by (simp add: ac_simps)
  moreover have "hand_ok N (Some (i, r)) ?s"
    using pinv_parts(11) [OF p i] q d i c(1,2) by (simp add: hand_ok_def node_ok_def waits_def)
  ultimately show ?thesis using pinv_parts(1) [OF p] by (simp add: pinv_def)
qed

lemma unlock_keeps:
  assumes p: "pinv m N None s L" and i: "i < N" and d: "ph (nd s i) = Drain" and q: "qu (nd s i) = []"
  shows "pinv m N None (set_nd s i ((nd s i)\<lparr>ph := Idle\<rparr>)) L"
proof -
  let ?s = "set_nd s i ((nd s i)\<lparr>ph := Idle\<rparr>)"
  have nw: "\<not> waits s i" using d by (simp add: waits_def)
  have mk: "msg_ok N ?s k y" if "msg_ok N s k y" for k y using msg_ok_keep [OF nw that] by simp
  have w: "waits ?s = waits s" using d by (auto simp: waits_def fun_eq_iff)
  have "chain_ok m N None ?s L"
    using pinv_parts(2-4,9,10,12,13) [OF p] d by (auto simp: chain_ok_def inbound_same)
  moreover have "token_ok N ?s (hd L)" 
    by (rule token_node [OF pinv_parts(6) [OF p]])
      (use pinv_parts(6) [OF p] d in \<open>auto simp: token_ok_def\<close>)
  moreover have "node_ok N ?s y" if "y < N" for y
    using pinv_parts(11) [OF p that] q mk w by (cases "y = i") (auto simp: node_ok_def)
  moreover have "chan_ok m N ?s" using pinv_parts(5) [OF p] mk by (auto simp: chan_ok_def)
  moreover have "outstanding N ?s = waiters N ?s"
    using pinv_parts(8) [OF p] i w by (simp add: out_same_qu waiters_def)
  ultimately show ?thesis using pinv_parts(1) [OF p] by (simp add: pinv_def)
qed

text \<open>The reply a node waits for is the only message of its request: when it has arrived none is left.\<close>

lemma last_message:
  assumes p: "pinv m N None s L" and ij: "i < N" "j < N" and x: "ch s (j, i) = x # rest"
    and tag: "msg_tag i x = {#i#}"
  shows "i \<notin># outstanding N (pop s j i)"
proof -
  have "count (outstanding N (pop s j i)) i + 1 = count (waiters N s) i"
    using out_pop [OF ij(2,1) x] pinv_parts(8) [OF p] tag by (metis add.right_neutral count_single count_union in_hand_simps(6))
  also have "\<dots> \<le> 1" by (simp add: count_waiters)
  finally show ?thesis by (simp add: not_in_iff)
qed

lemma msg_ok_other:
  assumes "msg_ok N s j x" and "i \<notin># msg_tag j x" and "\<And>k. k \<noteq> i \<Longrightarrow> ph (nd s' k) = ph (nd s k)"
  shows "msg_ok N s' j x"
  using assms unfolding msg_ok_def by (auto split: pmsg.splits req.splits)

lemma reply_keeps:
  assumes p: "pinv m N None s L" and ij: "i < N" "j < N" and x: "ch s (j, i) = x # rest"
    and w: "x = RRep \<and> a = (nd s i)\<lparr>ph := Drain, acc := True\<rparr> \<or>
            x = WRep \<and> a = (nd s i)\<lparr>ph := Drain, acc := True, own := True\<rparr>"
    and s': "s' = set_nd (pop s j i) i a"
  shows "waits s i" and "\<And>k. k < N \<Longrightarrow> node_ok N s' k" and "chan_ok m N s'"
    and "outstanding N s' = waiters N s'" and "inbound m s' = inbound m s"
proof -
  have tag: "msg_tag i x = {#i#}" using w by auto
  note nl = last_message [OF p ij x tag]
  have qa: "qu a = qu (nd s i)" and pa: "ph a = Drain" and oa: "acc a" using w by auto
  have ph: "ph (nd s' k) = ph (nd s k)" if "k \<noteq> i" for k using that by (simp add: s')
  have "x \<in> set (ch s (j, i))" using x by simp
  then have "msg_ok N s i x" using pinv_parts(5) [OF p] unfolding chan_ok_def by blast
  then show wi: "waits s i" using w by (auto simp: msg_ok_def waits_def)
  show "node_ok N s' k" if k: "k < N" for k
  proof -
    have "msg_ok N s' k (Req r)" if r: "r \<in> set (qu (nd s k))" for r
    proof (rule msg_ok_other [OF _ _ ph])
      show "msg_ok N s k (Req r)" using pinv_parts(11) [OF p k] r by (simp add: node_ok_def)
      have "req_tag r \<subseteq># outstanding N (pop s j i)" using queue_outstanding [OF k, of r "pop s j i"] r by simp
      then show "i \<notin># msg_tag k (Req r)" using nl by (auto dest: mset_subset_eqD)
    qed
    then show ?thesis
      using pinv_parts(11) [OF p k] qa pa oa by (cases "k = i") (auto simp: node_ok_def waits_def s')
  qed
  have pc: "chan_ok m N (pop s j i)" using chan_pop [OF pinv_parts(5) [OF p] x] .
  have "u < N \<and> v < N \<and> msg_ok N s' v y" if y: "y \<in> set (ch (pop s j i) (u, v))" for u v y
  proof -
    have b: "u < N" "v < N" and mo: "msg_ok N (pop s j i) v y" using pc y unfolding chan_ok_def by blast+
    have "i \<notin># msg_tag v y" using chan_outstanding [OF b y] nl by (auto dest: mset_subset_eqD)
    then have "msg_ok N s' v y" using msg_ok_other [OF mo] ph by simp
    then show ?thesis using b by simp
  qed
  then show "chan_ok m N s'" using pc unfolding chan_ok_def s' by simp
  have "outstanding N s' = outstanding N (pop s j i)" using ij(1) qa by (simp add: s' out_same_qu)
  moreover have "outstanding N s = outstanding N (pop s j i) + {#i#}" using out_pop [OF ij(2,1) x] tag by simp
  moreover have "waiters N s = waiters N s' + {#i#}"
    by (rule waiters_start [OF ij(1) _ wi]) (use pa in \<open>auto simp: waits_def s'\<close>)
  ultimately show "outstanding N s' = waiters N s'" using pinv_parts(8) [OF p] by simp
  have "the_req x = []" using w by auto
  then have "concat (map the_req (ch s (j, i))) = concat (map the_req (tl (ch s (j, i))))" using x by simp
  then show "inbound m s' = inbound m s" by (intro ext) (auto simp: inbound_def s' qa)
qed

lemma read_reply_keeps:
  assumes p: "pinv m N None s L" and ij: "i < N" "j < N" and x: "ch s (j, i) = RRep # rest"
  shows "ph (nd s i) = RWait" and "\<not> acc (nd s i)"
    and "pinv m N None (set_nd (pop s j i) i ((nd s i)\<lparr>ph := Drain, acc := True\<rparr>)) L"
proof -
  let ?s = "set_nd (pop s j i) i ((nd s i)\<lparr>ph := Drain, acc := True\<rparr>)"
  note k = reply_keeps [OF p ij x _ refl, of "(nd s i)\<lparr>ph := Drain, acc := True\<rparr>"]
  have "RRep \<in> set (ch s (j, i))" using x by simp
  then have "msg_ok N s i RRep" using pinv_parts(5) [OF p] unfolding chan_ok_def by blast
  then show rw: "ph (nd s i) = RWait" by (simp add: msg_ok_def)
  show na: "\<not> acc (nd s i)" using pinv_parts(11) [OF p ij(1)] k(1) by (simp add: node_ok_def)
  have o: "\<not> own (nd s i)" using pinv_parts(11) [OF p ij(1)] k(1) by (simp add: node_ok_def)
  have out: "i \<notin> set L" using reader_outside [OF p rw] .
  have hd: "hd L \<noteq> i" using out pinv_parts(2) [OF p] by (cases L) auto
  have "chain_ok m N None ?s L"
    using pinv_parts(2-4,9,10,12,13) [OF p] out k(5) by (auto simp: chain_ok_def dest: list.set_sel(2))
  moreover have "token_ok N (pop s j i) (hd L)" using token_pop [OF pinv_parts(6) [OF p] x] by simp
  then have "token_ok N ?s (hd L)" by (rule token_node) (use hd in auto)
  ultimately show "pinv m N None ?s L" using k(2-4) pinv_parts(1) [OF p] unfolding pinv_def by simp
qed

lemma write_reply_keeps:
  assumes p: "pinv m N None s L" and ij: "i < N" "j < N" and x: "ch s (j, i) = WRep # rest"
  shows "ph (nd s i) = WWait" and "\<not> acc (nd s i)"
    and "pinv m N None (set_nd (pop s j i) i ((nd s i)\<lparr>ph := Drain, acc := True, own := True\<rparr>)) L"
proof -
  let ?a = "(nd s i)\<lparr>ph := Drain, acc := True, own := True\<rparr>"
  let ?s = "set_nd (pop s j i) i ?a"
  note k = reply_keeps [OF p ij x _ refl, of ?a]
  have mem: "WRep \<in> set (ch s (j, i))" using x by simp
  then have "msg_ok N s i WRep" using pinv_parts(5) [OF p] unfolding chan_ok_def by blast
  then show ww: "ph (nd s i) = WWait" by (simp add: msg_ok_def)
  show na: "\<not> acc (nd s i)" using pinv_parts(11) [OF p ij(1)] k(1) by (simp add: node_ok_def)
  have t: "\<And>y. \<not> own (nd s y)" "i = hd L" "\<And>u v. WRep \<in> set (ch s (u, v)) \<Longrightarrow> v = i"
    using pinv_parts(6) [OF p] mem unfolding token_ok_def by blast+
  have tl: "i \<notin> set (tl L)" using t(2) pinv_parts(2,3) [OF p] by (cases L) auto
  have "chain_ok m N None ?s L"
    using pinv_parts(2-4,9,10,12,13) [OF p] tl k(5) by (auto simp: chain_ok_def)
  moreover have "WRep \<notin> set (ch ?s (u, v))" for u v
  proof
    assume u: "WRep \<in> set (ch ?s (u, v))"
    have sub: "WRep \<in> set (ch s (u, v))" using u x by (auto split: if_splits)
    then have v: "v = i" using t(3) by blast
    have "u < N" using sub pinv_parts(5) [OF p] unfolding chan_ok_def by blast
    then have "msg_tag i WRep \<subseteq># outstanding N (pop s j i)"
      using chan_outstanding [of u N i WRep "pop s j i"] ij(1) u v by simp
    then show False using last_message [OF p ij x] by (auto dest: mset_subset_eqD)
  qed
  then have "token_ok N ?s (hd L)" using t(1,2) unfolding token_ok_def by simp
  ultimately show "pinv m N None ?s L" using k(2-4) pinv_parts(1) [OF p] unfolding pinv_def by simp
qed

lemma invalidate_keeps:
  assumes p: "pinv m N None s L" and ij: "i < N" "j < N"
  shows "pinv m N None (push s i j (Req AI)) L"
  by (rule pinv_push [OF p ij]) (use pinv_parts(13) [OF p] in \<open>simp_all add: msg_ok_def inbound_push\<close>)

text \<open>The manager owns the page at the start.\<close>

lemma pinv_start:
  assumes "m < N" "\<And>i. own (nd s i) = (i = m)" "acc (nd s m)" "\<And>i. ph (nd s i) = Idle" "\<And>i. qu (nd s i) = []"
    "mo s = m" "\<And>p. ch s p = []"
  shows "pinv m N None s [m]"
  using assms
  by (auto simp: pinv_def chain_ok_def token_ok_def node_ok_def chan_ok_def hand_ok_def hand_tag_def outstanding_def waiters_def
      waits_def inbound_def in_hand_def)

theorem pstep_keeps:
  assumes "pstep m N s t" and p: "pinv m N None s L"
  shows "\<exists>s' L'. t = Some s' \<and> pinv m N None s' L'"
  using assms(1)
proof cases
  case (read_fault i) then show ?thesis using read_fault_keeps [OF p] by blast
next
  case (write_fault i) then show ?thesis using write_fault_keeps [OF p] by blast
next
  case (invalidate i j) then show ?thesis using invalidate_keeps [OF p] by blast
next
  case (enqueue i j r rest) then show ?thesis using enqueue_keeps [OF p] by blast
next
  case (serve_now i j r rest) then show ?thesis using serve_ok [OF serve_now_hand [OF p]] by metis
next
  case (serve_queued i r rest) then show ?thesis using serve_ok [OF serve_queued_hand [OF p]] by metis
next
  case (unlock i) then show ?thesis using unlock_keeps [OF p] by blast
next
  case (read_reply i j rest) then show ?thesis using read_reply_keeps [OF p, of i j rest] by (simp, blast)
next
  case (write_reply i j rest) then show ?thesis using write_reply_keeps [OF p, of i j rest] by (simp, blast)
qed

section \<open>Nothing gets stuck\<close>

text \<open>The manager never receives a request of its own.\<close>

definition mine :: "nat \<Rightarrow> req \<Rightarrow> bool" where
  "mine m r \<longleftrightarrow> r = AR m \<or> r = AW m"

definition self_free :: "nat \<Rightarrow> pstate \<Rightarrow> bool" where
  "self_free m s \<longleftrightarrow> (\<forall>r \<in> set (qu (nd s m)). \<not> mine m r) \<and> (\<forall>j r. Req r \<in> set (ch s (j, m)) \<longrightarrow> \<not> mine m r)"

lemma self_free_push:
  "self_free m s \<Longrightarrow> (j = m \<Longrightarrow> (\<forall>r. x = Req r \<longrightarrow> \<not> mine m r)) \<Longrightarrow> self_free m (push s i j x)"
  by (auto simp: self_free_def)

lemma self_free_nd: "self_free m s \<Longrightarrow> set (qu a) \<subseteq> set (qu (nd s i)) \<Longrightarrow> self_free m (set_nd s i a)"
  by (auto simp: self_free_def)

lemma self_free_pop: "self_free m s \<Longrightarrow> self_free m (pop s i j)"
  by (auto simp: self_free_def dest: list.set_sel(2) [rotated]) (metis list.sel(2) list.set_sel(2))

lemma self_free_mo [simp]: "self_free m (s\<lparr>mo := k\<rparr>) = self_free m s"
  by (simp add: self_free_def)

lemma manager_elsewhere:
  assumes "pinv m N h s L" "\<not> waits s m" "\<not> own (nd s m)"
  shows "mo s \<noteq> m"
proof -
  have "m \<notin> set L" using free_not_owner_outside [OF assms] .
  then show ?thesis using pinv_parts(10) [OF assms(1)] last_in [OF assms(1)] by auto
qed

lemma serve_self_free:
  assumes p: "pinv m N (Some (i, r)) s L" and sf: "self_free m s" and t: "serve m s i r = Some t"
  shows "self_free m t"
proof -
  have w: "\<not> waits s i" using pinv_parts(7) [OF p] by (auto simp: hand_ok_def)
  have mo: "i = m \<Longrightarrow> \<not> own (nd s m) \<Longrightarrow> mo s \<noteq> m" using manager_elsewhere [OF p] w by auto
  show ?thesis
  proof (cases r)
    case (AR k)
    then show ?thesis using t mo by (auto intro!: self_free_push sf split: if_splits)
  next
    case (AW k)
    then show ?thesis using t mo by (auto intro!: self_free_push self_free_nd sf split: if_splits)
  next
    case AI
    then show ?thesis using t sf by (auto intro!: self_free_nd split: if_splits)
  qed
qed

definition ginv :: "nat \<Rightarrow> nat \<Rightarrow> pstate \<Rightarrow> nat list \<Rightarrow> bool" where
  "ginv m N s L \<longleftrightarrow> pinv m N None s L \<and> self_free m s"

lemma pstep_self_free:
  assumes "pstep m N s t" and p: "pinv m N None s L" and sf: "self_free m s" and t: "t = Some s'"
  shows "self_free m s'"
  using assms(1)
proof cases
  case (read_fault i)
  have "\<not> own (nd s i)" using pinv_parts(11) [OF p read_fault(2)] read_fault(4) by (auto simp: node_ok_def)
  then have "i = m \<Longrightarrow> mo s \<noteq> m" using manager_elsewhere [OF p] read_fault(3) by (auto simp: waits_def)
  then have "self_free m (push (set_nd s i ((nd s i)\<lparr>ph := RWait\<rparr>)) i (target m s i) (Req (AR i)))"
    by (intro self_free_push self_free_nd sf) (auto simp: target_def mine_def split: if_splits)
  then show ?thesis using read_fault(1) t by simp
next
  case (write_fault i)
  then have "i = m \<Longrightarrow> mo s \<noteq> m" using manager_elsewhere [OF p] by (auto simp: waits_def)
  then have "self_free m (push (set_nd s i ((nd s i)\<lparr>ph := WWait, acc := False\<rparr>)) i (target m s i) (Req (AW i)))"
    by (intro self_free_push self_free_nd sf) (auto simp: target_def mine_def split: if_splits)
  then show ?thesis using write_fault(1) t by simp
next
  case (invalidate i j)
  then show ?thesis using self_free_push [OF sf, of j "Req AI" i] t by (simp add: mine_def)
next
  case (enqueue i j r rest)
  have "\<not> mine m r" if "i = m" using sf enqueue(4) that unfolding self_free_def by (metis list.set_intros(1))
  moreover have "self_free m (pop s j i)" by (rule self_free_pop [OF sf])
  ultimately have "self_free m (set_nd (pop s j i) i ((nd s i)\<lparr>qu := qu (nd s i) @ [r]\<rparr>))" by (auto simp: self_free_def)
  then show ?thesis using enqueue(1) t by simp
next
  case (serve_now i j r rest)
  then show ?thesis
    using serve_self_free [OF serve_now_hand [OF p serve_now(2-5)] self_free_pop [OF sf]] t by simp
next
  case (serve_queued i r rest)
  have "self_free m (set_nd s i ((nd s i)\<lparr>qu := rest\<rparr>))" by (rule self_free_nd [OF sf]) (use serve_queued(4) in auto)
  then show ?thesis using serve_self_free [OF serve_queued_hand [OF p serve_queued(2-4)]] serve_queued(1) t by simp
next
  case (unlock i)
  then show ?thesis using self_free_nd [OF sf, of "(nd s i)\<lparr>ph := Idle\<rparr>" i] t by simp
next
  case (read_reply i j rest)
  then show ?thesis using self_free_nd [OF self_free_pop [OF sf], of "(nd s i)\<lparr>ph := Drain, acc := True\<rparr>" j i i] t
    by (simp split: if_splits)
next
  case (write_reply i j rest)
  then show ?thesis using self_free_nd [OF self_free_pop [OF sf], of "(nd s i)\<lparr>ph := Drain, acc := True, own := True\<rparr>" j i i] t
    by (simp split: if_splits)
qed

lemma ginv_start:
  assumes "m < N" "\<And>i. own (nd s i) = (i = m)" "acc (nd s m)" "\<And>i. ph (nd s i) = Idle" "\<And>i. qu (nd s i) = []"
    "mo s = m" "\<And>p. ch s p = []"
  shows "ginv m N s [m]"
  using pinv_start [OF assms] assms(5,7) by (simp add: ginv_def self_free_def)

lemma pstep_ginv:
  assumes "pstep m N s t" and "ginv m N s L"
  shows "\<exists>s' L'. t = Some s' \<and> ginv m N s' L'"
  using pstep_keeps [OF assms(1)] pstep_self_free [OF assms(1)] assms(2) unfolding ginv_def by metis

lemma invalidate_ginv:
  assumes "ginv m N s L" "i < N" "j < N"
  shows "ginv m N (push s i j (Req AI)) L"
  using invalidate_keeps assms self_free_push [of m s j "Req AI" i] unfolding ginv_def by (simp add: mine_def)

lemma waiting_message:
  assumes g: "ginv m N s L" and nd: "\<And>i. i < N \<Longrightarrow> ph (nd s i) \<noteq> Drain" and i: "i < N" "waits s i"
  shows "\<exists>a < N. \<exists>b < N. ch s (a, b) \<noteq> []"
proof (rule ccontr)
  assume "\<not> (\<exists>a < N. \<exists>b < N. ch s (a, b) \<noteq> [])"
  then have empty: "ch s (a, b) = []" if "a < N" "b < N" for a b using that by blast
  have p: "pinv m N None s L" and sf: "self_free m s" using g by (auto simp: ginv_def)
  note pp = pinv_parts [OF p]
  have idle: "qu (nd s j) = []" if "j < N" "\<not> waits s j" for j
    using pp(11) [OF that(1)] nd [OF that(1)] that(2) by (cases "ph (nd s j)") (auto simp: node_ok_def waits_def)
  let ?c = "hd L"
  have c: "?c < N" using pp(2,4) by (cases L) auto
  have "own (nd s ?c)" using pp(6) empty c unfolding token_ok_def by (metis empty_iff empty_set)
  then have cq: "qu (nd s ?c) = []" and cw: "\<not> waits s ?c" using idle [OF c] pp(11) [OF c] by (auto simp: node_ok_def)
  have L: "L = [?c]"
  proof (rule ccontr)
    assume "L \<noteq> [?c]"
    then obtain y ys where e: "L = ?c # y # ys" using pp(2) by (cases L rule: remdups_adj.cases) auto
    have "?c \<noteq> last L" using pp(3) e by (metis distinct.simps(2) last_ConsR last_in_set list.distinct(1))
    then have "?c \<noteq> m" using pp(9) e by (metis list.set_intros(1))
    then have "chain_in (?c # y # ys) ?c (inbound m s ?c)" using pp(13) [OF c] e by (simp add: in_hand_def)
    then show False using cq empty [OF pp(1) c] by (simp add: inbound_def)
  qed
  have req: "\<exists>r \<in> set (qu (nd s m)). k \<in># req_tag r" if k: "k < N" "waits s k" for k
  proof -
    have "k \<in># outstanding N s" using pp(8) k by (simp add: hand_tag_def flip: count_greater_zero_iff) (simp add: count_waiters)
    moreover have "(\<Sum>p \<in> {..<N} \<times> {..<N}. c_tags (snd p) (ch s p)) = {#}" using empty by (intro sum.neutral) auto
    ultimately have "k \<in># (\<Sum>i<N. q_tags (qu (nd s i)))" by (simp add: outstanding_def)
    then obtain j where j: "j < N" "k \<in># q_tags (qu (nd s j))" by (auto simp: set_mset_sum)
    then obtain r where r: "r \<in> set (qu (nd s j))" "k \<in># req_tag r" by (auto simp: q_tags_def set_mset_sum_list)
    have "j = m"
    proof (rule ccontr)
      assume "j \<noteq> m"
      then have "chain_in [?c] j (inbound m s j)" using pp(13) [OF j(1)] L by (simp add: in_hand_def)
      moreover have "r \<in> set (inbound m s j)" using r by (cases r) (auto simp: inbound_def)
      ultimately have "j = ?c" by (auto split: if_splits)
      then show False using cq r(1) by simp
    qed
    then show ?thesis using r by blast
  qed
  have "waits s m" using req [OF i] idle [OF pp(1)] by fastforce
  then obtain r where r: "r \<in> set (qu (nd s m))" "m \<in># req_tag r" using req [OF pp(1)] by blast
  then have "mine m r" by (cases r rule: req.exhaust) (auto simp: mine_def)
  then show False using sf r(1) by (auto simp: self_free_def)
qed

end
