(* ===== verification/Local_Vm.thy ===== *)
theory Local_Vm
  imports Cluster Msg
begin

text \<open>
  The state of the virtual machine on one node: \<^verbatim>\<open>struct vcpu\<close> with its private interrupts and its
  ring of pending interrupts, \<^verbatim>\<open>struct vgic\<close> with the shared ones, the table of physical interrupts,
  and the table of operations through which the virtual interrupt controller reaches the hardware
  (\<^verbatim>\<open>struct gic_irqchip\<close>, a record of functions on the state \<open>'c\<close> of the chip).  A pointer to a local
  vCPU is its index in \<^verbatim>\<open>localvm.vcpus\<close>.  Handlers of guest accesses that the code passes as
  function pointers are named by a datatype.
\<close>

section \<open>Interrupts\<close>

definition GIC_NSGI :: nat where "GIC_NSGI = 16"
definition GIC_NPPI :: nat where "GIC_NPPI = 16"
definition NIRQ :: nat where "NIRQ = 256"
definition NCPU_MAX :: nat where "NCPU_MAX = 8"

definition is_sgi :: "int \<Rightarrow> bool" where "is_sgi i \<longleftrightarrow> 0 \<le> i \<and> i < 16"
definition is_ppi :: "int \<Rightarrow> bool" where "is_ppi i \<longleftrightarrow> 16 \<le> i \<and> i < 32"
definition is_sgi_ppi :: "int \<Rightarrow> bool" where "is_sgi_ppi i \<longleftrightarrow> is_sgi i \<or> is_ppi i"
definition is_ppi_spi :: "int \<Rightarrow> bool" where "is_ppi_spi i \<longleftrightarrow> 16 \<le> i \<and> i < 1020"
definition is_spi :: "int \<Rightarrow> bool" where "is_spi i \<longleftrightarrow> 32 \<le> i \<and> i < 1020"

lemmas intid_defs = is_sgi_def is_ppi_def is_sgi_ppi_def is_ppi_spi_def is_spi_def

text \<open>
  \<^verbatim>\<open>struct vgic_irq\<close>.  \<open>vroute\<close> is the union of \<^verbatim>\<open>u64 vcpuid\<close> and \<^verbatim>\<open>u8 targets\<close>; on this
  little-endian machine \<^verbatim>\<open>targets\<close> is its low byte.  \<open>cfg\<close> is true for \<^verbatim>\<open>CONFIG_EDGE\<close>.
\<close>

record vgic_irq =
  vintid :: u16
  target :: "nat option"
  vroute :: u64
  priority :: u8
  vreq_cpu :: u8
  enabled :: bool
  hw :: bool
  igroup :: bool
  cfg :: bool
  hwirq :: int

definition zero_irq :: vgic_irq where
  "zero_irq = \<lparr>vintid = 0, target = None, vroute = 0, priority = 0, vreq_cpu = 0, enabled = False, hw = False,
     igroup = False, cfg = False, hwirq = 0\<rparr>"

definition CONFIG_LEVEL :: bool where "CONFIG_LEVEL = False"
definition CONFIG_EDGE :: bool where "CONFIG_EDGE = True"

definition irq_targets :: "vgic_irq \<Rightarrow> u8" where
  "irq_targets iq = ucast (vroute iq)"

definition set_irq_targets :: "u8 \<Rightarrow> vgic_irq \<Rightarrow> vgic_irq" where
  "set_irq_targets t iq = iq\<lparr>vroute := (vroute iq AND NOT 0xff) OR ucast t\<rparr>"

record gic_pending_irq =
  p_virq :: int
  p_pirq :: "nat option"
  p_group :: int
  p_priority :: int
  p_req_cpu :: int

datatype sgi_mode = SGI_ROUTE_TARGETS | SGI_ROUTE_BROADCAST | SGI_ROUTE_SELF | SGI_MODE_OTHER

record gic_sgi =
  sgi_id :: int
  targets :: u16
  mode :: sgi_mode

text \<open>\<^verbatim>\<open>struct irq\<close>: a use count, the hypervisor's own handler if there is one, statistics.\<close>

record irq =
  icount :: int
  handler :: "nat option"
  nhandle :: "nat \<Rightarrow> nat"

definition irq_get :: "int \<Rightarrow> nat option" where
  "irq_get pirq = (if 0 \<le> pirq \<and> pirq < int NIRQ then Some (nat pirq) else None)"

section \<open>Virtual CPUs\<close>

record dabort_info =
  fault_ipa :: u64
  fault_va :: u64
  isv :: bool
  dwrite :: bool
  dreg :: nat
  accbyte :: nat

record vcpu =
  xregs :: "u64 list"
  spsr :: u64
  elr :: u64
  sp :: u64
  vcpuid :: nat
  vmpidr :: u64
  pcpu :: nat
  pfr0 :: u64
  sctlr_el1 :: u64
  sgis :: "vgic_irq list"
  ppis :: "vgic_irq list"
  pirqs :: "gic_pending_irq option list"
  phead :: nat
  ptail :: nat
  dabt :: dabort_info
  initialized :: bool
  online :: bool
  last_vcpu :: bool

definition zero_vcpu :: vcpu where
  "zero_vcpu = \<lparr>xregs = replicate 31 0, spsr = 0, elr = 0, sp = 0, vcpuid = 0, vmpidr = 0, pcpu = 0, pfr0 = 0,
     sctlr_el1 = 0, sgis = replicate GIC_NSGI zero_irq, ppis = replicate GIC_NPPI zero_irq,
     pirqs = replicate 4 None, phead = 0, ptail = 0,
     dabt = \<lparr>fault_ipa = 0, fault_va = 0, isv = False, dwrite = False, dreg = 0, accbyte = 0\<rparr>,
     initialized = False, online = False, last_vcpu = False\<rparr>"

section \<open>The interrupt chip\<close>

text \<open>
  \<^verbatim>\<open>struct gic_irqchip\<close>; the first argument of an operation is the executing CPU.  An operation the
  driver leaves \<^verbatim>\<open>NULL\<close> is \<open>None\<close>.
\<close>

record 'c gic_irqchip =
  chip_version :: nat
  nirqs :: "'c \<Rightarrow> nat"
  inject_guest_irq :: "nat \<Rightarrow> gic_pending_irq \<Rightarrow> 'c \<Rightarrow> (int \<times> 'c) res"
  guest_irq_pending :: "nat \<Rightarrow> u32 \<Rightarrow> 'c \<Rightarrow> bool res"
  guest_eoi :: "nat \<Rightarrow> u32 \<Rightarrow> 'c \<Rightarrow> 'c"
  host_eoi :: "nat \<Rightarrow> u32 \<Rightarrow> 'c \<Rightarrow> 'c"
  send_sgi :: "nat \<Rightarrow> gic_sgi \<Rightarrow> 'c \<Rightarrow> 'c res"
  enable_irq :: "nat \<Rightarrow> int \<Rightarrow> 'c \<Rightarrow> 'c res"
  disable_irq :: "nat \<Rightarrow> int \<Rightarrow> 'c \<Rightarrow> 'c res"
  setup_irq :: "nat \<Rightarrow> int \<Rightarrow> 'c \<Rightarrow> 'c res"
  set_targets :: "(nat \<Rightarrow> int \<Rightarrow> u8 \<Rightarrow> 'c \<Rightarrow> 'c) option"
  route_irq :: "(nat \<Rightarrow> int \<Rightarrow> u64 \<Rightarrow> 'c \<Rightarrow> 'c) option"

section \<open>The machine\<close>

datatype maccsize = ACC_BYTE | ACC_HALFWORD | ACC_WORD | ACC_DOUBLEWORD

fun accbytes :: "maccsize \<Rightarrow> nat" where
  "accbytes ACC_BYTE = 1" | "accbytes ACC_HALFWORD = 2" | "accbytes ACC_WORD = 4" | "accbytes ACC_DOUBLEWORD = 8"

record mmio_access =
  mipa :: u64
  moffset :: u64
  mval :: u64
  accsize :: maccsize
  wnr :: bool

datatype gic_config_type =
  GIC_CONFIG_NULL | GIC_CONFIG_SET_TARGET_V2 | GIC_CONFIG_SET_ROUTE_V3 | GIC_CONFIG_ENABLE | GIC_CONFIG_DISABLE

datatype vmmio_status = VMMIO_OK | VMMIO_FAILED

text \<open>The headers of the messages these components exchange; the target of a broadcast is \<open>0\<close>.\<close>

datatype vm_hdr =
    SgiMsg int int
  | GicConfigMsg gic_config_type int int u32
  | MmioReq mmio_access u32
  | MmioReply u64 u64 vmmio_status
  | CpuWakeupMsg u32 u64 u64
  | CpuWakeupAck int

text \<open>\<^verbatim>\<open>Bcast\<close> is \<^verbatim>\<open>send_msg_bcast\<close>, \<^verbatim>\<open>Unicast\<close> the other ways to send.\<close>

datatype outmsg = Unicast "vm_hdr msg" | Bcast "vm_hdr msg"

datatype mmio_handler = VGIC_V2_D | VGIC_V3_D | VGICR | VGITS

record mmio_region =
  rbase :: u64
  rsize :: u64
  rread :: "mmio_handler option"
  rwrite :: "mmio_handler option"

record 'c machine =
  lvcpus :: "vcpu list"
  lnvcpu :: nat
  nspis :: int
  gversion :: nat
  spis :: "vgic_irq list"
  genabled :: bool
  pmap :: "mmio_region list"
  irqlist :: "irq list"
  chip :: 'c
  me :: nat
  mclust :: cluster_state
  mconid :: u32
  msent :: "outmsg list"
  pcpu_wakeup :: "nat \<Rightarrow> bool"
  bootable :: "nat \<Rightarrow> bool"

text \<open>\<^verbatim>\<open>node_vcpu\<close> finds a vCPU of this node by its cluster-wide id.\<close>

fun find_vcpu :: "vcpu list \<Rightarrow> nat \<Rightarrow> int \<Rightarrow> nat option" where
  "find_vcpu [] i v = None"
| "find_vcpu (c # cs) i v = (if int (vcpuid c) = v then Some i else find_vcpu cs (Suc i) v)"

definition node_vcpu :: "'c machine \<Rightarrow> int \<Rightarrow> nat option" where
  "node_vcpu m v = find_vcpu (take (lnvcpu m) (lvcpus m)) 0 v"

definition vcpu_at :: "'c machine \<Rightarrow> nat \<Rightarrow> vcpu" where
  "vcpu_at m i = lvcpus m ! i"

definition set_vcpu :: "nat \<Rightarrow> vcpu \<Rightarrow> 'c machine \<Rightarrow> 'c machine" where
  "set_vcpu i v m = m\<lparr>lvcpus := (lvcpus m)[i := v]\<rparr>"

definition post :: "'c machine \<Rightarrow> int \<Rightarrow> msgtype \<Rightarrow> vm_hdr \<Rightarrow> nat \<Rightarrow> (vm_hdr msg \<Rightarrow> outmsg) \<Rightarrow> 'c machine" where
  "post m dst ty h cpu how =
     (let (g, c) = msg_init_reqcpu (me m) (mconid m) (nat dst) ty h None cpu
      in m\<lparr>msent := msent m @ [how g], mconid := c\<rparr>)"

section \<open>Physical interrupts\<close>

definition upd_irq :: "nat \<Rightarrow> (irq \<Rightarrow> irq) \<Rightarrow> 'c machine \<Rightarrow> 'c machine" where
  "upd_irq k f m = m\<lparr>irqlist := (irqlist m)[k := f (irqlist m ! k)]\<rparr>"

definition irq_register :: "'c gic_irqchip \<Rightarrow> 'c machine \<Rightarrow> nat \<Rightarrow> int \<Rightarrow> nat \<Rightarrow> 'c machine res" where
  "irq_register ops m cpu pirq h =
     (if pirq > int NIRQ then Inl (Panic ''pirq'')
      else case irq_get pirq of
        None \<Rightarrow> Inl (Undefined ''irq_get'')
      | Some k \<Rightarrow>
          let m1 = upd_irq k (\<lambda>iq. iq\<lparr>icount := icount iq + 1, handler := Some h\<rparr>) m
          in bind_res (setup_irq ops cpu pirq (chip m1)) (\<lambda>c. Inr (m1\<lparr>chip := c\<rparr>)))"

definition irq_enable :: "'c gic_irqchip \<Rightarrow> 'c machine \<Rightarrow> nat \<Rightarrow> nat \<Rightarrow> 'c machine res" where
  "irq_enable ops m cpu k =
     (let m1 = upd_irq k (\<lambda>iq. iq\<lparr>icount := icount iq + 1\<rparr>) m
      in bind_res (enable_irq ops cpu (int k) (chip m1)) (\<lambda>c. Inr (m1\<lparr>chip := c\<rparr>)))"

definition irq_disable :: "'c gic_irqchip \<Rightarrow> 'c machine \<Rightarrow> nat \<Rightarrow> nat \<Rightarrow> 'c machine res" where
  "irq_disable ops m cpu k =
     (let m1 = upd_irq k (\<lambda>iq. iq\<lparr>icount := icount iq - 1\<rparr>) m
      in if icount (irqlist m1 ! k) = 0
         then bind_res (disable_irq ops cpu (int k) (chip m1)) (\<lambda>c. Inr (m1\<lparr>chip := c\<rparr>))
         else Inr m1)"

section \<open>Lemmas\<close>

lemma find_vcpu_Some:
  "find_vcpu cs k v = Some i \<longleftrightarrow>
     k \<le> i \<and> i - k < length cs \<and> int (vcpuid (cs ! (i - k))) = v \<and>
     (\<forall>j < i - k. int (vcpuid (cs ! j)) \<noteq> v)"
proof (induction cs arbitrary: k)
  case (Cons c cs)
  show ?case
  proof (cases "k < i")
    case True
    then obtain d where i: "i = Suc k + d" using less_iff_Suc_add by auto
    have "find_vcpu cs (Suc k) v = Some i \<longleftrightarrow>
        d < length cs \<and> int (vcpuid (cs ! d)) = v \<and> (\<forall>j < d. int (vcpuid (cs ! j)) \<noteq> v)"
      using Cons.IH [of "Suc k"] i by simp
    then show ?thesis using i by (auto simp: All_less_Suc2)
  qed (use Cons.IH [of "Suc k"] in auto)
qed simp

lemma node_vcpu_bound: "node_vcpu m v = Some i \<Longrightarrow> i < lnvcpu m \<and> i < length (lvcpus m) \<and> int (vcpuid (lvcpus m ! i)) = v"
  unfolding node_vcpu_def find_vcpu_Some by auto

lemma set_vcpu_simps [simp]:
  "lvcpus (set_vcpu i v m) = (lvcpus m)[i := v]" "spis (set_vcpu i v m) = spis m" "chip (set_vcpu i v m) = chip m"
  "lnvcpu (set_vcpu i v m) = lnvcpu m" "mclust (set_vcpu i v m) = mclust m" "irqlist (set_vcpu i v m) = irqlist m"
  "msent (set_vcpu i v m) = msent m" "me (set_vcpu i v m) = me m" "mconid (set_vcpu i v m) = mconid m"
  "gversion (set_vcpu i v m) = gversion m" "genabled (set_vcpu i v m) = genabled m" "pmap (set_vcpu i v m) = pmap m"
  "nspis (set_vcpu i v m) = nspis m"
  by (simp_all add: set_vcpu_def)

end
