(* ===== verification/Gic_Drivers.thy ===== *)
theory Gic_Drivers
  imports Local_Vm
begin

text \<open>
  The drivers of the physical interrupt controllers, \<^verbatim>\<open>drivers/gicv2.c\<close> and \<^verbatim>\<open>drivers/gicv3.c\<close>.
  The list registers, through which the hypervisor hands interrupts to the guest, are state of the
  chip, banked per CPU; the register \<^verbatim>\<open>ELSR\<close> that tells which of them are empty and the other
  registers the drivers read belong to the hardware and are read-only components of the state.
  Writes to the remaining registers are recorded in order.  The locale \<open>guest_injection\<close> is the
  contract the virtual interrupt controller relies on.
\<close>

section \<open>The contract\<close>

locale guest_injection =
  fixes inject :: "nat \<Rightarrow> gic_pending_irq \<Rightarrow> 'c \<Rightarrow> (int \<times> 'c) res"
    and pending :: "nat \<Rightarrow> u32 \<Rightarrow> 'c \<Rightarrow> bool res"
    and fresh :: "nat \<Rightarrow> gic_pending_irq \<Rightarrow> 'c \<Rightarrow> bool"
    and view :: "'c \<Rightarrow> nat \<Rightarrow> nat \<Rightarrow> u64"
  assumes inject_pending:
      "inject cpu p c = Inr (0, c') \<Longrightarrow> fresh cpu p c \<Longrightarrow> pending cpu (of_int (p_virq p)) c' = Inr True"
    and inject_refused: "inject cpu p c = Inr (r, c') \<Longrightarrow> r \<noteq> 0 \<Longrightarrow> r = -1 \<and> c' = c"
    and inject_one: "inject cpu p c = Inr (0, c') \<Longrightarrow> \<exists>k. \<forall>cpu' n. (cpu', n) \<noteq> (cpu, k) \<longrightarrow> view c' cpu' n = view c cpu' n"
begin

lemma inject_other_cpu:
  assumes "inject cpu p c = Inr (r, c')" and "cpu' \<noteq> cpu"
  shows "view c' cpu' n = view c cpu' n"
proof (cases "r = 0")
  case True
  then show ?thesis using inject_one assms by blast
next
  case False
  then show ?thesis using inject_refused [OF assms(1)] by simp
qed

end

datatype gic_reg = GICD u32 | GICC u32 | GICH u32 | GICR nat u32 | SYSREG string

section \<open>GICv2\<close>

record gicv2 =
  lr2 :: "nat \<Rightarrow> nat \<Rightarrow> u32"
  elsr2 :: "nat \<Rightarrow> u64"
  max_lr2 :: nat
  nirqs2 :: nat
  dist2 :: "u32 \<Rightarrow> u32"
  log2 :: "(gic_reg \<times> u32) list"

definition LR_PENDING :: u64 where "LR_PENDING = 1"

definition reg_write2 :: "gic_reg \<Rightarrow> u32 \<Rightarrow> gicv2 \<Rightarrow> gicv2" where
  "reg_write2 r v c = c\<lparr>log2 := log2 c @ [(r, v)]\<rparr>"

definition gicv2_read_lr :: "nat \<Rightarrow> nat \<Rightarrow> gicv2 \<Rightarrow> u32 res" where
  "gicv2_read_lr cpu n c = (if n > max_lr2 c then Inl (Panic ''lr'') else Inr (lr2 c cpu n))"

definition gicv2_write_lr :: "nat \<Rightarrow> nat \<Rightarrow> u32 \<Rightarrow> gicv2 \<Rightarrow> gicv2 res" where
  "gicv2_write_lr cpu n v c =
     (if n > max_lr2 c then Inl (Panic ''lr'') else Inr (c\<lparr>lr2 := (lr2 c)(cpu := (lr2 c cpu)(n := v))\<rparr>))"

definition lr_priority :: "u8 \<Rightarrow> u8" where
  "lr_priority prio = drop_bit 4 prio AND 0xf"

definition gicv2_pending_lr :: "gic_pending_irq \<Rightarrow> u32" where
  "gicv2_pending_lr p =
     (let a = of_int (p_virq p) AND 0x3ff OR ucast (push_bit 28 LR_PENDING);
          b = (if p_group p = 1 then a OR push_bit 30 1 else a);
          d = b OR push_bit 23 (ucast (lr_priority (of_int (p_priority p))))
      in case p_pirq p of
           Some k \<Rightarrow> d OR push_bit 31 1 OR push_bit 10 (of_nat k AND 0x3ff)
         | None \<Rightarrow> if is_sgi (p_virq p) then d OR push_bit 10 (of_int (p_req_cpu p) AND 7) else d)"

fun scan2 :: "gicv2 \<Rightarrow> nat \<Rightarrow> u32 \<Rightarrow> nat list \<Rightarrow> bool res" where
  "scan2 c cpu v [] = Inr False"
| "scan2 c cpu v (i # is) =
     bind_res (gicv2_read_lr cpu i c) (\<lambda>lr.
       if lr AND 0x3ff = v then Inr (lr AND push_bit 28 1 \<noteq> 0) else scan2 c cpu v is)"

definition gicv2_guest_irq_pending :: "nat \<Rightarrow> u32 \<Rightarrow> gicv2 \<Rightarrow> bool res" where
  "gicv2_guest_irq_pending cpu v c = scan2 c cpu v [0..<Suc (max_lr2 c)]"

text \<open>The loop of \<^verbatim>\<open>gicv2_inject_guest_irq\<close>; \<open>Inr None\<close> is the return of -1 from inside it.\<close>

fun find_free2 :: "gicv2 \<Rightarrow> nat \<Rightarrow> u32 \<Rightarrow> nat option \<Rightarrow> nat list \<Rightarrow> nat option option res" where
  "find_free2 c cpu v fr [] = Inr (Some fr)"
| "find_free2 c cpu v fr (i # is) =
     (if drop_bit i (elsr2 c cpu) AND 1 \<noteq> 0
      then find_free2 c cpu v (case fr of None \<Rightarrow> Some i | Some f \<Rightarrow> Some f) is
      else bind_res (gicv2_read_lr cpu i c) (\<lambda>lr.
        if drop_bit 10 lr AND 0x3ff = v then Inr None else find_free2 c cpu v fr is))"

definition gicv2_inject_guest_irq :: "nat \<Rightarrow> gic_pending_irq \<Rightarrow> gicv2 \<Rightarrow> (int \<times> gicv2) res" where
  "gicv2_inject_guest_irq cpu p c =
     (let virq = of_int (p_virq p) in
      if virq = 2 then Inl (Panic ''maybe Linux kernel panicked'')
      else bind_res (find_free2 c cpu virq None [0..<max_lr2 c]) (\<lambda>r.
        case r of
          None \<Rightarrow> Inr (-1, c)
        | Some None \<Rightarrow> Inr (-1, c)
        | Some (Some k) \<Rightarrow> bind_res (gicv2_write_lr cpu k (gicv2_pending_lr p) c) (\<lambda>c1. Inr (0, c1))))"

definition gicv2_eoi :: "u32 \<Rightarrow> gicv2 \<Rightarrow> gicv2" where
  "gicv2_eoi iar = reg_write2 (GICC 0x10) iar"

definition gicv2_deactive_irq :: "u32 \<Rightarrow> gicv2 \<Rightarrow> gicv2" where
  "gicv2_deactive_irq i = reg_write2 (GICC 0x1000) i"

definition gicv2_host_eoi :: "nat \<Rightarrow> u32 \<Rightarrow> gicv2 \<Rightarrow> gicv2" where
  "gicv2_host_eoi cpu iar c = gicv2_deactive_irq (iar AND 0x3ff) (gicv2_eoi iar c)"

definition gicv2_guest_eoi :: "nat \<Rightarrow> u32 \<Rightarrow> gicv2 \<Rightarrow> gicv2" where
  "gicv2_guest_eoi cpu iar = gicv2_eoi iar"

fun sgi_mode_code :: "sgi_mode \<Rightarrow> u32" where
  "sgi_mode_code SGI_ROUTE_TARGETS = 0" | "sgi_mode_code SGI_ROUTE_BROADCAST = 1"
| "sgi_mode_code SGI_ROUTE_SELF = 2" | "sgi_mode_code SGI_MODE_OTHER = 3"

definition gicv2_send_sgi :: "nat \<Rightarrow> gic_sgi \<Rightarrow> gicv2 \<Rightarrow> gicv2 res" where
  "gicv2_send_sgi cpu g c =
     Inr (reg_write2 (GICD 0xf00)
       (push_bit 24 (sgi_mode_code (mode g)) OR push_bit 16 (ucast (targets g) AND 0xff) OR
        (of_int (sgi_id g) AND 0xf)) c)"

definition gicv2_irq_enabled :: "u32 \<Rightarrow> gicv2 \<Rightarrow> bool" where
  "gicv2_irq_enabled i c \<longleftrightarrow> dist2 c (0x100 + i div 32 * 4) AND push_bit (unat (i mod 32)) 1 \<noteq> 0"

definition gicv2_enable_irq :: "nat \<Rightarrow> int \<Rightarrow> gicv2 \<Rightarrow> gicv2 res" where
  "gicv2_enable_irq cpu intid c =
     (let i = of_int intid; off = 0x100 + i div 32 * 4
      in Inr (reg_write2 (GICD off) (dist2 c off OR push_bit (unat (i mod 32)) 1) c))"

definition gicv2_disable_irq :: "nat \<Rightarrow> int \<Rightarrow> gicv2 \<Rightarrow> gicv2 res" where
  "gicv2_disable_irq cpu intid c =
     (let i = of_int intid in Inr (reg_write2 (GICD (0x180 + i div 32 * 4)) (push_bit (unat (i mod 32)) 1) c))"

definition gicv2_set_targets :: "nat \<Rightarrow> int \<Rightarrow> u8 \<Rightarrow> gicv2 \<Rightarrow> gicv2" where
  "gicv2_set_targets cpu intid t c =
     (if is_sgi_ppi intid then c
      else
        let i = of_int intid; off = 0x800 + i div 4 * 4; sh = unat (i mod 4) * 8;
            r = dist2 c off AND NOT (push_bit sh 0xff)
        in reg_write2 (GICD off) (r OR push_bit sh (ucast t)) c)"

definition gicv2_setup_irq :: "nat \<Rightarrow> int \<Rightarrow> gicv2 \<Rightarrow> gicv2 res" where
  "gicv2_setup_irq cpu intid c =
     gicv2_enable_irq cpu intid (if is_spi intid then gicv2_set_targets cpu intid 1 c else c)"

definition gicv2_irqchip :: "gicv2 gic_irqchip" where
  "gicv2_irqchip = \<lparr>chip_version = 2, nirqs = nirqs2, inject_guest_irq = gicv2_inject_guest_irq,
     guest_irq_pending = gicv2_guest_irq_pending, guest_eoi = gicv2_guest_eoi, host_eoi = gicv2_host_eoi,
     send_sgi = gicv2_send_sgi, enable_irq = gicv2_enable_irq, disable_irq = gicv2_disable_irq,
     setup_irq = gicv2_setup_irq, set_targets = Some gicv2_set_targets, route_irq = None\<rparr>"

section \<open>GICv3\<close>

record gicv3 =
  lr3 :: "nat \<Rightarrow> nat \<Rightarrow> u64"
  elsr3 :: "nat \<Rightarrow> u64"
  max_lr3 :: nat
  nirqs3 :: nat
  dist3 :: "u32 \<Rightarrow> u32"
  redist3 :: "nat \<Rightarrow> u32 \<Rightarrow> u32"
  log3 :: "(gic_reg \<times> u64) list"

definition reg_write3 :: "gic_reg \<Rightarrow> u64 \<Rightarrow> gicv3 \<Rightarrow> gicv3" where
  "reg_write3 r v c = c\<lparr>log3 := log3 c @ [(r, v)]\<rparr>"

text \<open>The sixteen cases of the switch are the registers \<^verbatim>\<open>ich_lr0_el2\<close> to \<^verbatim>\<open>ich_lr15_el2\<close>.\<close>

definition gicv3_read_lr :: "nat \<Rightarrow> nat \<Rightarrow> gicv3 \<Rightarrow> u64 res" where
  "gicv3_read_lr cpu n c =
     (if n > max_lr3 c then Inl (Panic ''lr'') else if n > 15 then Inl (Panic ''?'') else Inr (lr3 c cpu n))"

definition gicv3_write_lr :: "nat \<Rightarrow> nat \<Rightarrow> u64 \<Rightarrow> gicv3 \<Rightarrow> gicv3 res" where
  "gicv3_write_lr cpu n v c =
     (if n > max_lr3 c then Inl (Panic ''lr'') else if n > 15 then Inl (Panic ''?'')
      else Inr (c\<lparr>lr3 := (lr3 c)(cpu := (lr3 c cpu)(n := v))\<rparr>))"

definition gicv3_pending_lr :: "gic_pending_irq \<Rightarrow> u64" where
  "gicv3_pending_lr p =
     (let a = of_int (p_virq p) OR push_bit 62 LR_PENDING;
          b = (if p_group p = 1 then a OR push_bit 60 1 else a);
          d = b OR push_bit 48 (of_int (p_priority p))
      in case p_pirq p of
           Some k \<Rightarrow> d OR push_bit 61 1 OR push_bit 32 (of_nat k AND 0x3ff)
         | None \<Rightarrow> d)"

definition lr_is_pending :: "u64 \<Rightarrow> bool" where
  "lr_is_pending lr \<longleftrightarrow> drop_bit 62 lr AND 3 = LR_PENDING"

fun scan3 :: "gicv3 \<Rightarrow> nat \<Rightarrow> u32 \<Rightarrow> nat list \<Rightarrow> bool res" where
  "scan3 c cpu v [] = Inr False"
| "scan3 c cpu v (i # is) =
     bind_res (gicv3_read_lr cpu i c) (\<lambda>lr. if ucast lr = v then Inr (lr_is_pending lr) else scan3 c cpu v is)"

definition gicv3_guest_irq_pending :: "nat \<Rightarrow> u32 \<Rightarrow> gicv3 \<Rightarrow> bool res" where
  "gicv3_guest_irq_pending cpu v c = scan3 c cpu v [0..<Suc (max_lr3 c)]"

fun find_free3 :: "gicv3 \<Rightarrow> nat \<Rightarrow> u32 \<Rightarrow> nat option \<Rightarrow> nat list \<Rightarrow> nat option option res" where
  "find_free3 c cpu v fr [] = Inr (Some fr)"
| "find_free3 c cpu v fr (i # is) =
     (if drop_bit i (elsr3 c cpu) AND 1 \<noteq> 0
      then find_free3 c cpu v (case fr of None \<Rightarrow> Some i | Some f \<Rightarrow> Some f) is
      else bind_res (gicv3_read_lr cpu i c) (\<lambda>lr.
        if ucast lr = v then Inr None else find_free3 c cpu v fr is))"

definition gicv3_inject_guest_irq :: "nat \<Rightarrow> gic_pending_irq \<Rightarrow> gicv3 \<Rightarrow> (int \<times> gicv3) res" where
  "gicv3_inject_guest_irq cpu p c =
     (let virq = of_int (p_virq p) in
      if virq = 2 then Inl (Panic ''maybe Linux kernel panicked'')
      else bind_res (find_free3 c cpu virq None [0..<max_lr3 c]) (\<lambda>r.
        case r of
          None \<Rightarrow> Inr (-1, c)
        | Some None \<Rightarrow> Inl (Panic ''busy'')
        | Some (Some k) \<Rightarrow> bind_res (gicv3_write_lr cpu k (gicv3_pending_lr p) c) (\<lambda>c1. Inr (0, c1))))"

definition gicv3_guest_eoi :: "nat \<Rightarrow> u32 \<Rightarrow> gicv3 \<Rightarrow> gicv3" where
  "gicv3_guest_eoi cpu iar = reg_write3 (SYSREG ''icc_eoir1_el1'') (ucast iar)"

definition gicv3_host_eoi :: "nat \<Rightarrow> u32 \<Rightarrow> gicv3 \<Rightarrow> gicv3" where
  "gicv3_host_eoi cpu iar c =
     reg_write3 (SYSREG ''icc_dir_el1'') (ucast (iar AND 0x3ff)) (reg_write3 (SYSREG ''icc_eoir1_el1'') (ucast iar) c)"

definition gicv3_send_sgi :: "nat \<Rightarrow> gic_sgi \<Rightarrow> gicv3 \<Rightarrow> gicv3 res" where
  "gicv3_send_sgi cpu g c =
     (let r = push_bit 24 (of_int (sgi_id g) AND 0xf) in
      case mode g of
        SGI_ROUTE_BROADCAST \<Rightarrow> Inr (reg_write3 (SYSREG ''icc_sgi1r_el1'') (r OR push_bit 40 1) c)
      | SGI_ROUTE_TARGETS \<Rightarrow> Inr (reg_write3 (SYSREG ''icc_sgi1r_el1'') (r OR (ucast (targets g) AND 0xffff)) c)
      | _ \<Rightarrow> Inl (Panic ''unknown sgi''))"

definition gicv3_enable_irq :: "nat \<Rightarrow> int \<Rightarrow> gicv3 \<Rightarrow> gicv3 res" where
  "gicv3_enable_irq cpu intid c =
     (let i = of_int intid :: u32 in
      if is_sgi_ppi intid then
        Inr (reg_write3 (GICR cpu 0x10100) (ucast (redist3 c cpu 0x10100 OR push_bit (unat i) 1)) c)
      else if is_spi intid then
        let off = 0x100 + i div 32 * 4
        in Inr (reg_write3 (GICD off) (ucast (dist3 c off OR push_bit (unat (i mod 32)) 1)) c)
      else Inl (Panic ''GICv3: unknown irq''))"

definition gicv3_disable_irq :: "nat \<Rightarrow> int \<Rightarrow> gicv3 \<Rightarrow> gicv3 res" where
  "gicv3_disable_irq cpu intid c =
     (let i = of_int intid :: u32 in
      if is_sgi_ppi intid then Inr (reg_write3 (GICR cpu 0x10180) (ucast (push_bit (unat i) 1 :: u32)) c)
      else if is_spi intid then
        Inr (reg_write3 (GICD (0x180 + i div 32 * 4)) (ucast (push_bit (unat (i mod 32)) 1 :: u32)) c)
      else Inl (Panic ''GICv3: unknown irq''))"

text \<open>The route is written with a 32-bit store.\<close>

definition gicv3_route_irq :: "nat \<Rightarrow> int \<Rightarrow> u64 \<Rightarrow> gicv3 \<Rightarrow> gicv3" where
  "gicv3_route_irq cpu intid mpidr c =
     (if is_sgi_ppi intid then c
      else if is_spi intid then
        reg_write3 (GICD (0x6000 + of_int intid * 8)) (ucast (ucast mpidr :: u32)) c
      else c)"

definition gicv3_setup_irq :: "nat \<Rightarrow> int \<Rightarrow> gicv3 \<Rightarrow> gicv3 res" where
  "gicv3_setup_irq cpu intid c =
     gicv3_enable_irq cpu intid (if is_spi intid then gicv3_route_irq cpu intid 0 c else c)"

definition gicv3_irqchip :: "gicv3 gic_irqchip" where
  "gicv3_irqchip = \<lparr>chip_version = 3, nirqs = nirqs3, inject_guest_irq = gicv3_inject_guest_irq,
     guest_irq_pending = gicv3_guest_irq_pending, guest_eoi = gicv3_guest_eoi, host_eoi = gicv3_host_eoi,
     send_sgi = gicv3_send_sgi, enable_irq = gicv3_enable_irq, disable_irq = gicv3_disable_irq,
     setup_irq = gicv3_setup_irq, set_targets = None, route_irq = Some gicv3_route_irq\<rparr>"

section \<open>List registers\<close>

lemma find_free2_found:
  "find_free2 c cpu v (Some f) is = Inr (Some r) \<Longrightarrow> r = Some f"
  by (induction "is") (auto simp: bind_res_eq_Inr split: if_splits)

lemma find_free2_first:
  "find_free2 c cpu v None is = Inr (Some (Some k)) \<Longrightarrow>
   \<exists>xs ys. is = xs @ k # ys \<and> (\<forall>i \<in> set xs. drop_bit i (elsr2 c cpu) AND 1 = 0)"
proof (induction "is")
  case (Cons i "is")
  show ?case
  proof (cases "drop_bit i (elsr2 c cpu) AND 1 = 0")
    case True
    then have "find_free2 c cpu v None is = Inr (Some (Some k))"
      using Cons.prems by (auto simp: bind_res_eq_Inr split: if_splits)
    then obtain xs ys where "is = xs @ k # ys" "\<forall>i \<in> set xs. drop_bit i (elsr2 c cpu) AND 1 = 0"
      using Cons.IH by blast
    then show ?thesis using True by (intro exI [of _ "i # xs"] exI [of _ ys]) simp
  next
    case False
    then have "k = i" using Cons.prems find_free2_found [of c cpu v i "is"] by simp
    then show ?thesis by (intro exI [of _ "[]"] exI [of _ "is"]) simp
  qed
qed simp

lemma find_free3_found:
  "find_free3 c cpu v (Some f) is = Inr (Some r) \<Longrightarrow> r = Some f"
  by (induction "is") (auto simp: bind_res_eq_Inr split: if_splits)

lemma find_free3_first:
  "find_free3 c cpu v None is = Inr (Some (Some k)) \<Longrightarrow>
   \<exists>xs ys. is = xs @ k # ys \<and> (\<forall>i \<in> set xs. ucast (lr3 c cpu i) \<noteq> v)"
proof (induction "is")
  case (Cons i "is")
  show ?case
  proof (cases "drop_bit i (elsr3 c cpu) AND 1 = 0")
    case True
    then have "find_free3 c cpu v None is = Inr (Some (Some k))" "ucast (lr3 c cpu i) \<noteq> v"
      using Cons.prems by (auto simp: bind_res_eq_Inr gicv3_read_lr_def split: if_splits)
    then obtain xs ys where "is = xs @ k # ys" "\<forall>i \<in> set xs. ucast (lr3 c cpu i) \<noteq> v"
      using Cons.IH by blast
    then show ?thesis using \<open>ucast (lr3 c cpu i) \<noteq> v\<close> by (intro exI [of _ "i # xs"] exI [of _ ys]) simp
  next
    case False
    then have "k = i" using Cons.prems find_free3_found [of c cpu v i "is"] by simp
    then show ?thesis by (intro exI [of _ "[]"] exI [of _ "is"]) simp
  qed
qed simp

lemma upt_split: "[0..<n] = xs @ k # ys \<Longrightarrow> xs = [0..<k] \<and> k < n"
proof -
  assume e: "[0..<n] = xs @ k # ys"
  then have l: "length xs < n" by (metis length_append length_Cons length_upt less_add_Suc1 minus_nat.diff_0 add_Suc_right)
  have "k = length xs" using arg_cong [OF e, of "\<lambda>z. z ! length xs"] l by (simp add: nth_append)
  moreover have "xs = take (length xs) [0..<n]" using e by simp
  ultimately show ?thesis using l by simp
qed

lemma upt_at: "k < n \<Longrightarrow> [0..<n] = [0..<k] @ k # [Suc k..<n]"
  using upt_add_eq_append [of 0 k "n - k"] upt_conv_Cons [of k n] by simp

lemma scan2_skip:
  "\<forall>i \<in> set xs. i \<le> max_lr2 c \<and> lr2 c cpu i AND 0x3ff \<noteq> v \<Longrightarrow> scan2 c cpu v (xs @ ys) = scan2 c cpu v ys"
  by (induction xs) (simp_all add: gicv2_read_lr_def)

lemma scan3_skip:
  "\<forall>i \<in> set xs. i \<le> max_lr3 c \<and> i \<le> 15 \<and> ucast (lr3 c cpu i) \<noteq> v \<Longrightarrow> scan3 c cpu v (xs @ ys) = scan3 c cpu v ys"
  by (induction xs) (simp_all add: gicv3_read_lr_def)

text \<open>What the pending list register says: the interrupt's id, and that it is pending.\<close>

lemma virq_bits: "0 \<le> v \<Longrightarrow> v < 1024 \<Longrightarrow> bit (of_int v :: 'a :: len word) n \<Longrightarrow> n < 10"
proof -
  assume v: "0 \<le> v" "v < 1024" and b: "bit (of_int v :: 'a word) n"
  have "bit v n" using b by (simp add: bit_of_int_iff)
  then have "bit (take_bit 10 v) n" using v by (simp add: take_bit_int_eq_self)
  then show ?thesis by (simp add: bit_take_bit_iff)
qed

lemma pending_lr2_low: "n < 10 \<Longrightarrow> bit (gicv2_pending_lr p) n = bit (of_int (p_virq p) :: u32) n"
  unfolding gicv2_pending_lr_def Let_def and_masks LR_PENDING_def
  by (simp only: field_bits split: option.split if_split) simp

lemma pending_lr2_28: "bit (gicv2_pending_lr p) 28"
  unfolding gicv2_pending_lr_def Let_def and_masks LR_PENDING_def
  by (simp only: field_bits split: option.split if_split) simp

lemma pending_lr2_id:
  assumes "0 \<le> p_virq p" "p_virq p < 1024"
  shows "gicv2_pending_lr p AND 0x3ff = of_int (p_virq p)" and "gicv2_pending_lr p AND push_bit 28 1 \<noteq> 0"
proof -
  show "gicv2_pending_lr p AND 0x3ff = of_int (p_virq p)"
    unfolding and_masks
    by (rule bit_word_eqI) (use pending_lr2_low virq_bits [OF assms] in \<open>auto simp: bit_take_bit_iff\<close>)
  have "bit (gicv2_pending_lr p AND push_bit 28 1) 28"
    using pending_lr2_28 by (simp only: field_bits) simp
  then show "gicv2_pending_lr p AND push_bit 28 1 \<noteq> 0" by (metis bit_0_eq bot_apply bot_bool_def)
qed

lemma pending_lr3_low: "n < 32 \<Longrightarrow> bit (gicv3_pending_lr p) n = bit (of_int (p_virq p) :: u64) n"
  unfolding gicv3_pending_lr_def Let_def and_masks LR_PENDING_def
  by (simp only: field_bits split: option.split if_split) simp

lemma pending_lr3_state:
  assumes "0 \<le> p_virq p" "p_virq p < 1024" "0 \<le> p_priority p" "p_priority p < 256"
  shows "bit (gicv3_pending_lr p) 62" and "\<not> bit (gicv3_pending_lr p) 63"
proof -
  have "\<not> bit (p_priority p) 15"
  proof
    assume "bit (p_priority p) 15"
    then have "bit (take_bit 8 (p_priority p)) 15" using assms(3,4) by (simp add: take_bit_int_eq_self)
    then show False by (simp add: bit_take_bit_iff)
  qed
  then have pr: "\<not> bit (of_int (p_priority p) :: u64) 15" by (simp add: bit_of_int_iff)
  have v: "\<not> bit (of_int (p_virq p) :: u64) 63" using virq_bits [OF assms(1,2), of 63] by auto
  show "bit (gicv3_pending_lr p) 62"
    unfolding gicv3_pending_lr_def Let_def and_masks LR_PENDING_def
    by (simp only: field_bits split: option.split if_split) simp
  show "\<not> bit (gicv3_pending_lr p) 63"
    unfolding gicv3_pending_lr_def Let_def and_masks LR_PENDING_def
    by (simp only: field_bits split: option.split if_split) (simp add: pr v)
qed

lemma pending_lr3_id:
  assumes "0 \<le> p_virq p" "p_virq p < 1024" "0 \<le> p_priority p" "p_priority p < 256"
  shows "ucast (gicv3_pending_lr p) = (of_int (p_virq p) :: u32)" and "lr_is_pending (gicv3_pending_lr p)"
proof -
  show "ucast (gicv3_pending_lr p) = (of_int (p_virq p) :: u32)"
    by (rule bit_word_eqI) (use pending_lr3_low [of _ p] in \<open>auto simp: bit_unsigned_iff bit_of_int_iff\<close>)
  have "take_bit 2 (drop_bit 62 (gicv3_pending_lr p)) = 1"
  proof (rule bit_word_eqI)
    fix n assume "n < LENGTH(64)"
    consider "n = 0" | "n = 1" | "n \<ge> 2" by linarith
    then show "bit (take_bit 2 (drop_bit 62 (gicv3_pending_lr p))) n = bit (1 :: u64) n"
      using pending_lr3_state [OF assms] by cases (auto simp: bit_take_bit_iff bit_drop_bit_eq bit_1_iff)
  qed
  then show "lr_is_pending (gicv3_pending_lr p)" by (simp add: lr_is_pending_def and_masks LR_PENDING_def)
qed

section \<open>The drivers satisfy the contract\<close>

definition fresh2 :: "nat \<Rightarrow> gic_pending_irq \<Rightarrow> gicv2 \<Rightarrow> bool" where
  "fresh2 cpu p c \<longleftrightarrow> 0 \<le> p_virq p \<and> p_virq p < 1024 \<and>
     (\<forall>i < max_lr2 c. drop_bit i (elsr2 c cpu) AND 1 = 0 \<longrightarrow> lr2 c cpu i AND 0x3ff \<noteq> of_int (p_virq p))"

definition fresh3 :: "nat \<Rightarrow> gic_pending_irq \<Rightarrow> gicv3 \<Rightarrow> bool" where
  "fresh3 cpu p c \<longleftrightarrow> 0 \<le> p_virq p \<and> p_virq p < 1024 \<and> 0 \<le> p_priority p \<and> p_priority p < 256"

lemma inject2_shape:
  assumes "gicv2_inject_guest_irq cpu p c = Inr (r, c')"
  shows "r = -1 \<and> c' = c \<or>
    (\<exists>k < max_lr2 c. r = 0 \<and> c' = c\<lparr>lr2 := (lr2 c)(cpu := (lr2 c cpu)(k := gicv2_pending_lr p))\<rparr> \<and>
       (\<forall>i < k. drop_bit i (elsr2 c cpu) AND 1 = 0))"
proof -
  obtain o1 where o1: "find_free2 c cpu (of_int (p_virq p)) None [0..<max_lr2 c] = Inr o1"
    using assms by (auto simp: gicv2_inject_guest_irq_def Let_def bind_res_eq_Inr split: if_splits)
  show ?thesis
  proof (cases "o1 = None \<or> o1 = Some None")
    case True
    then show ?thesis using assms o1 by (auto simp: gicv2_inject_guest_irq_def Let_def split: if_splits)
  next
    case False
    then obtain k where k: "o1 = Some (Some k)" by (cases o1) auto
    obtain xs ys where "[0..<max_lr2 c] = xs @ k # ys" "\<forall>i \<in> set xs. drop_bit i (elsr2 c cpu) AND 1 = 0"
      using find_free2_first [OF o1 [unfolded k]] by blast
    then have "k < max_lr2 c" "\<forall>i < k. drop_bit i (elsr2 c cpu) AND 1 = 0" using upt_split by force+
    then show ?thesis
      using assms o1 k
      by (auto simp: gicv2_inject_guest_irq_def Let_def bind_res_eq_Inr gicv2_write_lr_def split: if_splits)
  qed
qed

lemma inject3_shape:
  assumes "gicv3_inject_guest_irq cpu p c = Inr (r, c')"
  shows "r = -1 \<and> c' = c \<or>
    (\<exists>k < max_lr3 c. k \<le> 15 \<and> r = 0 \<and> c' = c\<lparr>lr3 := (lr3 c)(cpu := (lr3 c cpu)(k := gicv3_pending_lr p))\<rparr> \<and>
       (\<forall>i < k. ucast (lr3 c cpu i) \<noteq> (of_int (p_virq p) :: u32)))"
proof -
  obtain o1 where o1: "find_free3 c cpu (of_int (p_virq p)) None [0..<max_lr3 c] = Inr o1"
    using assms by (auto simp: gicv3_inject_guest_irq_def Let_def bind_res_eq_Inr split: if_splits)
  show ?thesis
  proof (cases "o1 = None \<or> o1 = Some None")
    case True
    then show ?thesis using assms o1 by (auto simp: gicv3_inject_guest_irq_def Let_def split: if_splits)
  next
    case False
    then obtain k where k: "o1 = Some (Some k)" by (cases o1) auto
    obtain xs ys where "[0..<max_lr3 c] = xs @ k # ys" "\<forall>i \<in> set xs. ucast (lr3 c cpu i) \<noteq> (of_int (p_virq p) :: u32)"
      using find_free3_first [OF o1 [unfolded k]] by blast
    then have "k < max_lr3 c" "\<forall>i < k. ucast (lr3 c cpu i) \<noteq> (of_int (p_virq p) :: u32)" using upt_split by force+
    then show ?thesis
      using assms o1 k
      by (auto simp: gicv3_inject_guest_irq_def Let_def bind_res_eq_Inr gicv3_write_lr_def split: if_splits)
  qed
qed

lemma inject2_pending:
  assumes i: "gicv2_inject_guest_irq cpu p c = Inr (0, c')" and f: "fresh2 cpu p c"
  shows "gicv2_guest_irq_pending cpu (of_int (p_virq p)) c' = Inr True"
proof -
  obtain k where k: "k < max_lr2 c" "c' = c\<lparr>lr2 := (lr2 c)(cpu := (lr2 c cpu)(k := gicv2_pending_lr p))\<rparr>"
    "\<forall>i < k. drop_bit i (elsr2 c cpu) AND 1 = 0"
    using inject2_shape [OF i] by auto
  have "[0..<Suc (max_lr2 c)] = [0..<k] @ k # [Suc k..<Suc (max_lr2 c)]"
    using k(1) by (intro upt_at) simp
  moreover have "scan2 c' cpu (of_int (p_virq p)) ([0..<k] @ k # [Suc k..<Suc (max_lr2 c)]) =
      scan2 c' cpu (of_int (p_virq p)) (k # [Suc k..<Suc (max_lr2 c)])"
    by (rule scan2_skip) (use k f in \<open>auto simp: fresh2_def\<close>)
  ultimately show ?thesis
    using k(1) pending_lr2_id [of p] f unfolding gicv2_guest_irq_pending_def k(2)
    by (simp add: gicv2_read_lr_def fresh2_def del: upt_Suc)
qed

lemma inject3_pending:
  assumes i: "gicv3_inject_guest_irq cpu p c = Inr (0, c')" and f: "fresh3 cpu p c"
  shows "gicv3_guest_irq_pending cpu (of_int (p_virq p)) c' = Inr True"
proof -
  obtain k where k: "k < max_lr3 c" "k \<le> 15" "c' = c\<lparr>lr3 := (lr3 c)(cpu := (lr3 c cpu)(k := gicv3_pending_lr p))\<rparr>"
    "\<forall>i < k. ucast (lr3 c cpu i) \<noteq> (of_int (p_virq p) :: u32)"
    using inject3_shape [OF i] by auto
  have "[0..<Suc (max_lr3 c)] = [0..<k] @ k # [Suc k..<Suc (max_lr3 c)]"
    using k(1) by (intro upt_at) simp
  moreover have "scan3 c' cpu (of_int (p_virq p)) ([0..<k] @ k # [Suc k..<Suc (max_lr3 c)]) =
      scan3 c' cpu (of_int (p_virq p)) (k # [Suc k..<Suc (max_lr3 c)])"
    by (rule scan3_skip) (use k in auto)
  ultimately show ?thesis
    using k(1,2) pending_lr3_id [of p] f unfolding gicv3_guest_irq_pending_def k(3)
    by (simp add: gicv3_read_lr_def fresh3_def del: upt_Suc)
qed

interpretation g2: guest_injection gicv2_inject_guest_irq gicv2_guest_irq_pending fresh2 "\<lambda>c cpu n. ucast (lr2 c cpu n)"
proof (unfold_locales, goal_cases)
  case (1 cpu p c c') then show ?case by (rule inject2_pending)
next
  case (2 cpu p c r c') then show ?case using inject2_shape [OF 2(1)] by auto
next
  case (3 cpu p c c') then show ?case using inject2_shape [OF 3] by fastforce
qed

interpretation g3: guest_injection gicv3_inject_guest_irq gicv3_guest_irq_pending fresh3 lr3
proof (unfold_locales, goal_cases)
  case (1 cpu p c c') then show ?case by (rule inject3_pending)
next
  case (2 cpu p c r c') then show ?case using inject3_shape [OF 2(1)] by auto
next
  case (3 cpu p c c') then show ?case using inject3_shape [OF 3] by fastforce
qed

lemma find_free2_busy:
  "i \<in> set is \<Longrightarrow> drop_bit i (elsr2 c cpu) AND 1 = 0 \<Longrightarrow> drop_bit 10 (lr2 c cpu i) AND 0x3ff = v \<Longrightarrow>
   \<forall>j \<in> set is. j \<le> max_lr2 c \<Longrightarrow> find_free2 c cpu v fr is = Inr None"
  by (induction "is" arbitrary: fr) (auto simp: gicv2_read_lr_def)

lemma pending_lr2_cpuid:
  assumes "p_pirq f = None" and "is_sgi (p_virq f)" and "0 \<le> p_req_cpu f" and "p_req_cpu f < 8"
  shows "drop_bit 10 (gicv2_pending_lr f) AND 0x3ff = of_int (p_req_cpu f)"
proof -
  have v: "\<not> bit (of_int (p_virq f) :: u32) (10 + n)" for n
    using virq_bits [of "p_virq f" "10 + n"] assms(2) by (auto simp: is_sgi_def)
  have "bit (gicv2_pending_lr f) (10 + n) = bit (of_int (p_req_cpu f) :: u32) n" if n: "n < 10" for n
  proof -
    have r: "bit (of_int (p_req_cpu f) :: u32) n \<Longrightarrow> n < 3"
    proof -
      assume "bit (of_int (p_req_cpu f) :: u32) n"
      then have "bit (take_bit 3 (p_req_cpu f)) n" using assms(3,4) by (simp add: bit_of_int_iff take_bit_int_eq_self)
      then show ?thesis by (simp add: bit_take_bit_iff)
    qed
    show ?thesis
      using n unfolding gicv2_pending_lr_def Let_def and_masks LR_PENDING_def assms(1) option.case if_P [OF assms(2)]
      by (simp only: field_bits split: if_split) (use v r in auto)
  qed
  moreover have "bit (of_int (p_req_cpu f) :: u32) n \<Longrightarrow> n < 10" for n
    using virq_bits [of "p_req_cpu f" n] assms(3,4) by simp
  ultimately show ?thesis
    unfolding and_masks by (intro bit_word_eqI) (auto simp: bit_take_bit_iff bit_drop_bit_eq)
qed

section \<open>Properties\<close>

definition lr_free3 :: "gicv3 \<Rightarrow> nat \<Rightarrow> nat \<Rightarrow> bool" where
  "lr_free3 c cpu i \<longleftrightarrow> drop_bit i (elsr3 c cpu) AND 1 \<noteq> 0"

text \<open>A list register in use holds the interrupt.\<close>

definition listed3 :: "gicv3 \<Rightarrow> nat \<Rightarrow> u32 \<Rightarrow> bool" where
  "listed3 c cpu v \<longleftrightarrow> (\<exists>i < max_lr3 c. \<not> lr_free3 c cpu i \<and> ucast (lr3 c cpu i) = v)"

lemma find_free3_eq:
  "\<forall>i \<in> set is. i \<le> max_lr3 c \<and> i \<le> 15 \<Longrightarrow>
   find_free3 c cpu v fr is =
     Inr (if \<exists>i \<in> set is. \<not> lr_free3 c cpu i \<and> ucast (lr3 c cpu i) = v then None
          else Some (case fr of Some f \<Rightarrow> Some f | None \<Rightarrow> find (lr_free3 c cpu) is))"
  by (induction "is" arbitrary: fr) (auto simp: gicv3_read_lr_def lr_free3_def split: option.splits)

lemma find_upt: "k < n \<Longrightarrow> P k \<Longrightarrow> \<forall>i < k. \<not> P i \<Longrightarrow> find P [0..<n] = Some k"
  by (auto simp: find_Some_iff intro!: exI [of _ k])

text \<open>
  C25.  Handing an interrupt to the guest through the GICv3 list registers of a CPU, case by case.
  Interrupt 2 is a panic.  An interrupt that a list register in use holds already is refused with -1
  and nothing changes; no other interrupt is refused.  When all list registers are in use it is a
  panic.  Otherwise the result is 0, the lowest free list register of this CPU and nothing else is
  written, and the controller reports the interrupt pending.
\<close>

theorem gicv3_inject_correct:
  assumes "max_lr3 c \<le> 16" and "0 \<le> p_virq p" and "p_virq p < 1024" and "0 \<le> p_priority p" and "p_priority p < 256"
  shows "(p_virq p = 2 \<longrightarrow> (\<exists>e. gicv3_inject_guest_irq cpu p c = Inl (Panic e))) \<and>
    (p_virq p \<noteq> 2 \<longrightarrow>
       (gicv3_inject_guest_irq cpu p c = Inr (-1, c) \<longleftrightarrow> listed3 c cpu (of_int (p_virq p))) \<and>
       (\<not> listed3 c cpu (of_int (p_virq p)) \<and> (\<forall>i < max_lr3 c. \<not> lr_free3 c cpu i) \<longrightarrow>
          gicv3_inject_guest_irq cpu p c = Inl (Panic ''busy'')) \<and>
       (\<forall>k < max_lr3 c. \<not> listed3 c cpu (of_int (p_virq p)) \<and> lr_free3 c cpu k \<and> (\<forall>i < k. \<not> lr_free3 c cpu i) \<longrightarrow>
          (\<exists>c'. gicv3_inject_guest_irq cpu p c = Inr (0, c') \<and>
             c' = c\<lparr>lr3 := (lr3 c)(cpu := (lr3 c cpu)(k := gicv3_pending_lr p))\<rparr> \<and>
             gicv3_guest_irq_pending cpu (of_int (p_virq p)) c' = Inr True)))"
proof -
  let ?v = "of_int (p_virq p) :: u32"
  have two: "?v = 2 \<longleftrightarrow> p_virq p = 2"
  proof -
    have "uint ?v = p_virq p" using assms(2,3) by (simp add: unsigned_of_int take_bit_int_eq_self)
    moreover have "uint (2 :: u32) = 2" by simp
    ultimately show ?thesis by (metis of_int_numeral)
  qed
  have ff: "find_free3 c cpu ?v None [0..<max_lr3 c] =
      Inr (if listed3 c cpu ?v then None else Some (find (lr_free3 c cpu) [0..<max_lr3 c]))"
    using assms(1) by (subst find_free3_eq) (auto simp: listed3_def)
  have none: "find (lr_free3 c cpu) [0..<max_lr3 c] = None" if "\<forall>i < max_lr3 c. \<not> lr_free3 c cpu i"
    using that by (auto simp: find_None_iff)
  have run: "\<exists>c'. gicv3_inject_guest_irq cpu p c = Inr (0, c') \<and>
             c' = c\<lparr>lr3 := (lr3 c)(cpu := (lr3 c cpu)(k := gicv3_pending_lr p))\<rparr> \<and>
             gicv3_guest_irq_pending cpu ?v c' = Inr True"
    if "k < max_lr3 c" "\<not> listed3 c cpu ?v" "lr_free3 c cpu k" "\<forall>i < k. \<not> lr_free3 c cpu i" "p_virq p \<noteq> 2" for k
  proof -
    let ?c = "c\<lparr>lr3 := (lr3 c)(cpu := (lr3 c cpu)(k := gicv3_pending_lr p))\<rparr>"
    have r: "gicv3_inject_guest_irq cpu p c = Inr (0, ?c)"
      using that two ff find_upt [OF that(1,3,4)] assms(1)
      by (simp add: gicv3_inject_guest_irq_def Let_def gicv3_write_lr_def)
    moreover have "fresh3 cpu p c" using assms(2-5) by (simp add: fresh3_def)
    ultimately show ?thesis using g3.inject_pending [OF r] by blast
  qed
  have refused: "gicv3_inject_guest_irq cpu p c = Inr (-1, c) \<longleftrightarrow> listed3 c cpu ?v" if "p_virq p \<noteq> 2"
  proof (cases "listed3 c cpu ?v")
    case True
    then show ?thesis using that two ff by (simp add: gicv3_inject_guest_irq_def Let_def)
  next
    case False
    then show ?thesis
      using that two ff by (auto simp: gicv3_inject_guest_irq_def Let_def bind_res_eq_Inr split: option.splits)
  qed
  have "gicv3_inject_guest_irq cpu p c = Inl (Panic ''busy'')"
    if "p_virq p \<noteq> 2" "\<not> listed3 c cpu ?v" "\<forall>i < max_lr3 c. \<not> lr_free3 c cpu i"
    using that two ff none by (simp add: gicv3_inject_guest_irq_def Let_def)
  moreover have "\<exists>e. gicv3_inject_guest_irq cpu p c = Inl (Panic e)" if "p_virq p = 2"
    using that by (simp add: gicv3_inject_guest_irq_def Let_def)
  ultimately show ?thesis using run refused by blast
qed

definition example_gicv3 :: gicv3 where
  "example_gicv3 = \<lparr>lr3 = (\<lambda>cpu n. 0), elsr3 = (\<lambda>cpu. 0xf), max_lr3 = 3, nirqs3 = 288, dist3 = (\<lambda>_. 0),
     redist3 = (\<lambda>_ _. 0), log3 = []\<rparr>"

definition example_timer :: gic_pending_irq where
  "example_timer = \<lparr>p_virq = 27, p_pirq = Some 27, p_group = 0, p_priority = 0xa0, p_req_cpu = 0\<rparr>"

theorem gicv3_inject_correct_witness:
  "\<exists>c'. gicv3_inject_guest_irq 0 example_timer example_gicv3 = Inr (0, c') \<and>
     gicv3_guest_irq_pending 0 27 c' = Inr True \<and>
     gicv3_inject_guest_irq 0 example_timer (c'\<lparr>elsr3 := (\<lambda>cpu. 0xe)\<rparr>) = Inr (-1, c'\<lparr>elsr3 := (\<lambda>cpu. 0xe)\<rparr>)"
proof -
  have f: "lr_free3 example_gicv3 0 0" "\<not> listed3 example_gicv3 0 27"
    by (simp_all add: lr_free3_def listed3_def example_gicv3_def)
  have p: "p_virq example_timer = 27" "p_priority example_timer = 0xa0" by (simp_all add: example_timer_def)
  let ?c = "example_gicv3\<lparr>lr3 := (lr3 example_gicv3)(0 := (lr3 example_gicv3 0)(0 := gicv3_pending_lr example_timer))\<rparr>"
  have r: "gicv3_inject_guest_irq 0 example_timer example_gicv3 = Inr (0, ?c)" "gicv3_guest_irq_pending 0 27 ?c = Inr True"
    using gicv3_inject_correct [of example_gicv3 example_timer 0] f p by (auto simp: example_gicv3_def)
  let ?d = "?c\<lparr>elsr3 := (\<lambda>cpu. 0xe)\<rparr>"
  have "(ucast (gicv3_pending_lr example_timer) :: u32) = 27"
    using pending_lr3_id [of example_timer] p by simp
  then have "listed3 ?d 0 27" by (auto simp: listed3_def lr_free3_def example_gicv3_def intro!: exI [of _ 0])
  then have "gicv3_inject_guest_irq 0 example_timer ?d = Inr (-1, ?d)"
    using gicv3_inject_correct [of ?d example_timer 0] p by (simp add: example_gicv3_def)
  then show ?thesis using r by blast
qed

text \<open>
  The GICv2 driver refuses a software-generated interrupt \<open>p\<close> as soon as some list register
  holds another one that was requested by the CPU whose number equals the id of \<open>p\<close>: the test for
  \<open>p\<close> being in flight looks at the bits that hold the requesting CPU.  The interrupt is lost although
  it is not in flight and a list register is free.
\<close>

lemma gicv2_sgi_dropped:
  assumes "i < max_lr2 c" and "drop_bit i (elsr2 c cpu) AND 1 = 0" and "lr2 c cpu i = gicv2_pending_lr f"
    and "p_pirq f = None" and "is_sgi (p_virq f)" and "p_req_cpu f = p_virq p" and "0 \<le> p_virq p" and "p_virq p < 8"
    and "p_virq p \<noteq> 2"
  shows "gicv2_inject_guest_irq cpu p c = Inr (-1, c)"
proof -
  have "drop_bit 10 (lr2 c cpu i) AND 0x3ff = of_int (p_virq p)"
    using pending_lr2_cpuid [of f] assms by simp
  then have "find_free2 c cpu (of_int (p_virq p)) None [0..<max_lr2 c] = Inr None"
    using assms(1,2) by (intro find_free2_busy) auto
  moreover have "(of_int (p_virq p) :: u32) \<noteq> 2"
  proof
    assume "(of_int (p_virq p) :: u32) = 2"
    then have "uint (of_int (p_virq p) :: u32) = 2" by (simp only: uint_numeral) simp
    moreover have "uint (of_int (p_virq p) :: u32) = p_virq p"
      using assms(7,8) by (simp add: unsigned_of_int take_bit_int_eq_self)
    ultimately show False using assms(9) by simp
  qed
  ultimately show ?thesis by (simp add: gicv2_inject_guest_irq_def)
qed

definition example_gicv2 :: gicv2 where
  "example_gicv2 = \<lparr>lr2 = (\<lambda>cpu n. if n = 0 then
       gicv2_pending_lr \<lparr>p_virq = 5, p_pirq = None, p_group = 0, p_priority = 0, p_req_cpu = 1\<rparr> else 0),
     elsr2 = (\<lambda>cpu. 0xe), max_lr2 = 3, nirqs2 = 288, dist2 = (\<lambda>_. 0), log2 = []\<rparr>"

lemma gicv2_sgi_dropped_witness:
  "gicv2_inject_guest_irq 0 \<lparr>p_virq = 1, p_pirq = None, p_group = 0, p_priority = 0, p_req_cpu = 0\<rparr> example_gicv2 =
     Inr (-1, example_gicv2) \<and>
   gicv2_guest_irq_pending 0 1 example_gicv2 = Inr False"
proof
  show "gicv2_inject_guest_irq 0 \<lparr>p_virq = 1, p_pirq = None, p_group = 0, p_priority = 0, p_req_cpu = 0\<rparr> example_gicv2 =
     Inr (-1, example_gicv2)"
    by (rule gicv2_sgi_dropped
        [of 0 _ _ "\<lparr>p_virq = 5, p_pirq = None, p_group = 0, p_priority = 0, p_req_cpu = 1\<rparr>"])
      (simp_all add: example_gicv2_def is_sgi_def)
  show "gicv2_guest_irq_pending 0 1 example_gicv2 = Inr False"
    by (simp add: gicv2_guest_irq_pending_def example_gicv2_def gicv2_read_lr_def upt_rec
        gicv2_pending_lr_def is_sgi_def LR_PENDING_def lr_priority_def)
qed

end
