(* ===== verification/Vsm_Cluster.thy ===== *)
theory Vsm_Cluster
  imports Vsm Vsm_Protocol
begin

text \<open>
  The nodes of the cluster with the network between them.  A step is a page fault of a vCPU or the
  delivery of a message; both run the handlers of \<open>Vsm\<close> to their end, as on the machine, where the
  page lock keeps the other CPUs of the node away from the page.  Messages from one node to another
  arrive in the order they were sent.  For every page the cluster simulates the ownership protocol of
  \<open>Vsm_Protocol\<close> (\<open>vabs\<close> is the abstraction), so that its invariant gives the properties: no handler
  panics, at most one node owns a page, and a fault that waits is never stuck.  The copyset of an
  entry has room for four nodes, and the theorems are about clusters of at most four.
\<close>

section \<open>The cluster\<close>

record vnet =
  vn :: "nat \<Rightarrow> vnode"
  net :: "nat \<times> nat \<Rightarrow> vsm_msg list"

definition handle_msg :: "vnode \<Rightarrow> vsm_msg \<Rightarrow> physaddr \<Rightarrow> nat \<Rightarrow> bool \<Rightarrow> vnode res" where
  "handle_msg n x pa cpu spurious =
     (case payload x of
        FetchReq ipa req ty \<Rightarrow> recv_fetch_request_intr n ipa req ty (msg_cpu x) cpu spurious
      | Invalidate ipa cset from \<Rightarrow> recv_invalidate_intr n ipa cset from cpu spurious
      | FetchReply ipa cset w \<Rightarrow> bind_res (reply_arrives n ipa cset w (body x) pa cpu) (\<lambda>(_, n1). Inr n1))"

text \<open>A handler runs on node \<open>i\<close>, and what it has sent goes to the network.\<close>

definition commit :: "vnet \<Rightarrow> nat \<Rightarrow> vnode \<Rightarrow> vnet" where
  "commit s i n = s\<lparr>vn := (vn s)(i := n\<lparr>sent := []\<rparr>),
     net := (\<lambda>p. net s p @ (if fst p = i then filter (\<lambda>x. dst_id x = snd p) (sent n) else []))\<rparr>"

definition run_on :: "vnet \<Rightarrow> nat \<Rightarrow> (vnode \<Rightarrow> vnode res) \<Rightarrow> vnet res" where
  "run_on s i f = bind_res (f (vn s i)) (\<lambda>n. Inr (commit s i n))"

datatype vevent =
    Fault nat bool ipa "vsm_rw_data option" nat
  | Deliver nat nat physaddr nat bool

fun vstep :: "vevent \<Rightarrow> vnet \<Rightarrow> vnet res" where
  "vstep (Fault i wr ipa d cpu) s =
     run_on s i (\<lambda>n. bind_res (if wr then vsm_write_fetch_begin n ipa d cpu else vsm_read_fetch_begin n ipa d cpu)
       (\<lambda>(_, n1). Inr n1))"
| "vstep (Deliver j i pa cpu spurious) s =
     (case net s (j, i) of
        [] \<Rightarrow> Inr s
      | x # xs \<Rightarrow> run_on (s\<lparr>net := (net s)((j, i) := xs)\<rparr>) i (\<lambda>n. handle_msg n x pa cpu spurious))"

text \<open>A fault on a locked page spins until the lock is free, so it is a step only then.\<close>

fun enabled_in :: "nat \<Rightarrow> vevent \<Rightarrow> vnet \<Rightarrow> bool" where
  "enabled_in N (Fault i wr ipa d cpu) s \<longleftrightarrow> i < N \<and> cpu < 8 \<and> PAGE_ALIGNED ipa \<and> \<not> page_locked (vn s i) ipa"
| "enabled_in N (Deliver j i pa cpu spurious) s \<longleftrightarrow> i < N \<and> j < N \<and> cpu < 8"

definition fresh_node :: "cluster_state \<Rightarrow> nat \<Rightarrow> vnode" where
  "fresh_node c i = \<lparr>local_nodeid = i, clust = c, s2 = (\<lambda>_. 0), frames = (\<lambda>_. []),
     ptable = (\<lambda>_. \<lparr>wq = None, lock = 0, wqlock = 0\<rparr>), manager = (\<lambda>_. 0), waiting = (\<lambda>_. None), conid = 0,
     sent = [], freed = [], rdata = None\<rparr>"

inductive vreach :: "cluster_state \<Rightarrow> vnet \<Rightarrow> bool" for c where
  start: "(\<And>i. i < nr_cluster_nodes c \<Longrightarrow>
      vsm_node_init (fresh_node c i) (cmem (cluster c ! i)) (fr i) = Inr (vn s i)) \<Longrightarrow>
    net s = (\<lambda>_. []) \<Longrightarrow> vreach c s"
| step: "vreach c s \<Longrightarrow> enabled_in (nr_cluster_nodes c) ev s \<Longrightarrow> vstep ev s = Inr s' \<Longrightarrow> vreach c s'"

section \<open>Abstraction to the ownership protocol\<close>

fun hdr_page :: "vsm_hdr \<Rightarrow> ipa" where
  "hdr_page (FetchReq ipa r t) = ipa" | "hdr_page (FetchReply ipa c w) = ipa" | "hdr_page (Invalidate ipa c f) = ipa"

fun abs_hdr :: "vsm_hdr \<Rightarrow> pmsg" where
  "abs_hdr (FetchReq ipa r t) = Req (if t = READ_FETCH then AR r else AW r)"
| "abs_hdr (FetchReply ipa c w) = (if w then WRep else RRep)"
| "abs_hdr (Invalidate ipa c f) = Req AI"

definition abs_req :: "vsm_server_proc \<Rightarrow> req" where
  "abs_req p = (case stype p of READ_SERVER \<Rightarrow> AR (req_nodeid p) | WRITE_SERVER \<Rightarrow> AW (req_nodeid p) | INV_SERVER \<Rightarrow> AI)"

definition queue :: "vnode \<Rightarrow> ipa \<Rightarrow> vsm_server_proc list" where
  "queue n P = (case wq (ptable n P) of None \<Rightarrow> [] | Some ps \<Rightarrow> ps)"

definition phase_of :: "vnode \<Rightarrow> ipa \<Rightarrow> phase" where
  "phase_of n P = (case waiting n P of None \<Rightarrow> Idle | Some w \<Rightarrow> if wtype w = READ_FETCH then RWait else WWait)"

definition page_msgs :: "ipa \<Rightarrow> vsm_msg list \<Rightarrow> pmsg list" where
  "page_msgs P xs = map (\<lambda>x. abs_hdr (payload x)) (filter (\<lambda>x. hdr_page (payload x) = P) xs)"

definition page_idx :: "cluster_state \<Rightarrow> nat \<Rightarrow> ipa \<Rightarrow> nat" where
  "page_idx c m P = unat (drop_bit 12 (P - mstart (cmem (cluster c ! m))))"

definition abs_node :: "vnode \<Rightarrow> ipa \<Rightarrow> phase \<Rightarrow> req list \<Rightarrow> anode" where
  "abs_node n P f rs = \<lparr>own = pte_owner (s2 n P), acc = pte_accessible (s2 n P), ph = f, qu = rs\<rparr>"

definition no_node :: anode where
  "no_node = \<lparr>own = False, acc = False, ph = Idle, qu = []\<rparr>"

definition vabs :: "cluster_state \<Rightarrow> nat \<Rightarrow> ipa \<Rightarrow> vnet \<Rightarrow> pstate" where
  "vabs c m P s =
     \<lparr>nd = (\<lambda>i. if i < nr_cluster_nodes c
              then abs_node (vn s i) P (phase_of (vn s i) P) (map abs_req (queue (vn s i) P)) else no_node),
      mo = manager (vn s m) (page_idx c m P),
      ch = (\<lambda>p. page_msgs P (net s p))\<rparr>"

text \<open>The state during a handler on node \<open>i\<close>: \<open>n\<close> is its node, with what it has sent so far.\<close>

definition locl :: "cluster_state \<Rightarrow> nat \<Rightarrow> ipa \<Rightarrow> pstate \<Rightarrow> nat \<Rightarrow> vnode \<Rightarrow> phase \<Rightarrow> req list \<Rightarrow> pstate" where
  "locl c m P s i n f rs =
     \<lparr>nd = (nd s)(i := abs_node n P f rs),
      mo = (if i = m then manager n (page_idx c m P) else mo s),
      ch = (\<lambda>p. ch s p @ (if fst p = i then page_msgs P (filter (\<lambda>x. dst_id x = snd p) (sent n)) else []))\<rparr>"

section \<open>Invariant of the nodes\<close>

definition cset_below :: "nat \<Rightarrow> u64 \<Rightarrow> bool" where
  "cset_below N cset \<longleftrightarrow> (\<forall>k. bit cset k \<longrightarrow> k < N)"

definition entry_ok :: "nat \<Rightarrow> u64 \<Rightarrow> bool" where
  "entry_ok N e \<longleftrightarrow> (pte_accessible e \<longrightarrow> pte_readable e \<and> cset_below N (s2pte_copyset e))"

definition msg_wf :: "nat \<Rightarrow> vsm_msg \<Rightarrow> bool" where
  "msg_wf N x \<longleftrightarrow> (case payload x of FetchReply ipa cset w \<Rightarrow> cset_below N cset \<and> (w \<or> cset = 0) \<and> body x \<noteq> None | _ \<Rightarrow> True)"

definition desc_ok :: "vnode \<Rightarrow> ipa \<Rightarrow> bool" where
  "desc_ok n P \<longleftrightarrow> (\<forall>p \<in> set (queue n P). page_ipa p = P) \<and>
     (if waiting n P = None then lock (ptable n P) = 0 \<and> queue n P = [] else lock (ptable n P) \<noteq> 0)"

text \<open>A page of the guest and its manager, in a cluster of at most four nodes.\<close>

definition vsm_cluster :: "cluster_state \<Rightarrow> bool" where
  "vsm_cluster c \<longleftrightarrow> cluster_inv c \<and> nr_cluster_nodes c \<le> 4 \<and>
     (\<forall>i < nr_cluster_nodes c. PAGE_ALIGNED (mstart (cmem (cluster c ! i))) \<and>
        PAGE_ALIGNED (msize (cmem (cluster c ! i))) \<and> unat (msize (cmem (cluster c ! i))) \<le> 2 ^ 29)"

definition site :: "cluster_state \<Rightarrow> nat \<Rightarrow> ipa \<Rightarrow> bool" where
  "site c m P \<longleftrightarrow> vsm_cluster c \<and> PAGE_ALIGNED P \<and> page_manager c P = int m"

definition static :: "cluster_state \<Rightarrow> nat \<Rightarrow> vnode \<Rightarrow> bool" where
  "static c i n \<longleftrightarrow> local_nodeid n = i \<and> clust n = c"

text \<open>What a handler for page \<open>P\<close> may change.\<close>

definition touches :: "cluster_state \<Rightarrow> nat \<Rightarrow> ipa \<Rightarrow> vnode \<Rightarrow> vnode \<Rightarrow> bool" where
  "touches c m P n n' \<longleftrightarrow> local_nodeid n' = local_nodeid n \<and> clust n' = clust n \<and>
     (\<forall>Q. Q \<noteq> P \<longrightarrow> s2 n' Q = s2 n Q \<and> ptable n' Q = ptable n Q \<and> waiting n' Q = waiting n Q) \<and>
     (\<forall>k. manager n' k \<noteq> manager n k \<longrightarrow> local_nodeid n = m \<and> k = page_idx c m P) \<and>
     (\<exists>xs. sent n' = sent n @ xs \<and> (\<forall>x \<in> set xs. hdr_page (payload x) = P \<and> msg_wf (nr_cluster_nodes c) x))"

lemma touches_refl: "touches c m P n n"
  by (simp add: touches_def)

lemma touches_trans: "touches c m P n n' \<Longrightarrow> touches c m P n' n'' \<Longrightarrow> touches c m P n n''"
proof -
  assume a: "touches c m P n n'" and b: "touches c m P n' n''"
  from a obtain xs where x: "sent n' = sent n @ xs" "\<forall>x \<in> set xs. hdr_page (payload x) = P \<and> msg_wf (nr_cluster_nodes c) x"
    unfolding touches_def by blast
  from b obtain ys where y: "sent n'' = sent n' @ ys" "\<forall>x \<in> set ys. hdr_page (payload x) = P \<and> msg_wf (nr_cluster_nodes c) x"
    unfolding touches_def by blast
  have "sent n'' = sent n @ (xs @ ys)" "\<forall>x \<in> set (xs @ ys). hdr_page (payload x) = P \<and> msg_wf (nr_cluster_nodes c) x"
    using x y by auto
  moreover have "manager n'' k \<noteq> manager n k \<longrightarrow> local_nodeid n = m \<and> k = page_idx c m P" for k
    using a b unfolding touches_def by metis
  ultimately show ?thesis
    using a b unfolding touches_def by metis
qed

section \<open>Elementary steps\<close>

lemma locl_cong:
  assumes "s2 n' P = s2 n P" "manager n' = manager n" "sent n' = sent n"
  shows "locl c m P s i n' f rs = locl c m P s i n f rs"
  by (simp only: locl_def abs_node_def assms)

lemma desc_simps [simp]:
  "s2 (set_desc n P d) = s2 n" "manager (set_desc n P d) = manager n" "sent (set_desc n P d) = sent n"
  "waiting (set_desc n P d) = waiting n" "local_nodeid (set_desc n P d) = local_nodeid n" "clust (set_desc n P d) = clust n"
  "frames (set_desc n P d) = frames n" "ptable (set_desc n P d) = (ptable n)(P := d)"
  by (simp_all add: set_desc_def)

lemma pte_simps' [simp]:
  "s2 (set_pte n P e) = (s2 n)(P := e)" "manager (set_pte n P e) = manager n" "sent (set_pte n P e) = sent n"
  "waiting (set_pte n P e) = waiting n" "local_nodeid (set_pte n P e) = local_nodeid n" "clust (set_pte n P e) = clust n"
  "frames (set_pte n P e) = frames n" "ptable (set_pte n P e) = ptable n"
  by (simp_all add: set_pte_def)

lemma free_simps [simp]:
  "s2 (free_frame n a) = s2 n" "manager (free_frame n a) = manager n" "sent (free_frame n a) = sent n"
  "waiting (free_frame n a) = waiting n" "local_nodeid (free_frame n a) = local_nodeid n" "clust (free_frame n a) = clust n"
  "frames (free_frame n a) = frames n" "ptable (free_frame n a) = ptable n"
  by (simp_all add: free_frame_def)

lemma queue_cong: "ptable n' P = ptable n P \<Longrightarrow> queue n' P = queue n P"
  by (simp add: queue_def)

text \<open>Sending one message.\<close>

lemma send_result:
  "\<exists>x cid. vsm_send n dst ty h b cpu = n\<lparr>sent := sent n @ [x], conid := cid\<rparr> \<and> payload x = h \<and> dst_id x = dst \<and> body x = b"
  by (auto simp: vsm_send_def msg_init_reqcpu_def msginitcore_def split: prod.splits)

lemma page_msgs_simps [simp]:
  "page_msgs P [] = []" "page_msgs P (xs @ ys) = page_msgs P xs @ page_msgs P ys"
  "page_msgs P (x # xs) = (if hdr_page (payload x) = P then [abs_hdr (payload x)] else []) @ page_msgs P xs"
  by (simp_all add: page_msgs_def)

lemma locl_send:
  assumes "hdr_page h = P"
  shows "locl c m P s i (vsm_send n dst ty h b cpu) f rs = push (locl c m P s i n f rs) i dst (abs_hdr h)"
proof -
  obtain x cid where "vsm_send n dst ty h b cpu = n\<lparr>sent := sent n @ [x], conid := cid\<rparr>" "payload x = h" "dst_id x = dst"
    using send_result by blast
  then show ?thesis using assms by (auto simp: locl_def push_def abs_node_def fun_eq_iff)
qed

lemma send_touches:
  assumes "hdr_page h = P" and "\<And>ipa cset w. h = FetchReply ipa cset w \<Longrightarrow> cset_below (nr_cluster_nodes c) cset \<and> (w \<or> cset = 0) \<and> b \<noteq> None"
  shows "touches c m P n (vsm_send n dst ty h b cpu)"
proof -
  obtain x cid where "vsm_send n dst ty h b cpu = n\<lparr>sent := sent n @ [x], conid := cid\<rparr>" "payload x = h" "body x = b"
    using send_result by blast
  then show ?thesis using assms by (auto simp: touches_def msg_wf_def split: vsm_hdr.split)
qed

lemma send_simps [simp]:
  "s2 (vsm_send n dst ty h b cpu) = s2 n" "manager (vsm_send n dst ty h b cpu) = manager n"
  "waiting (vsm_send n dst ty h b cpu) = waiting n" "local_nodeid (vsm_send n dst ty h b cpu) = local_nodeid n"
  "clust (vsm_send n dst ty h b cpu) = clust n" "ptable (vsm_send n dst ty h b cpu) = ptable n"
  "frames (vsm_send n dst ty h b cpu) = frames n"
  by (simp_all add: vsm_send_def split: prod.split)

lemma touches_pte: "touches c m P n (set_pte n P e)"
  by (simp add: touches_def)

lemma touches_free: "touches c m P n (free_frame n a)"
  by (simp add: touches_def)

lemma touches_desc: "touches c m P n (set_desc n P d)"
  by (simp add: touches_def)

lemma touches_wait: "touches c m P n (n\<lparr>waiting := (waiting n)(P := w)\<rparr>)"
  by (simp add: touches_def)

section \<open>The managed page\<close>

lemma memrange_offset:
  assumes "in_memrange r P"
  shows "unat (P - mstart r) = unat P - unat (mstart r)" "unat (mstart r) \<le> unat P" "unat P - unat (mstart r) < unat (msize r)"
proof -
  have le: "mstart r \<le> P" and lt: "unat P < unat (mstart r + msize r)"
    using assms by (auto simp: in_memrange_def word_less_nat_alt)
  show "unat (P - mstart r) = unat P - unat (mstart r)" by (rule unat_sub [OF le])
  show a: "unat (mstart r) \<le> unat P" using le by (simp add: word_le_nat_alt)
  show "unat P - unat (mstart r) < unat (msize r)"
    using lt a unat_less_64 [of "msize r"] by (simp add: unat_plus_if' split: if_splits)
qed

lemma site_facts:
  assumes "site c m P"
  shows "m < nr_cluster_nodes c" "nr_cluster_nodes c \<le> 4" "PAGE_ALIGNED P" "page_manager c P = int m"
    and "in_memrange (cmem (cluster c ! m)) P" "page_idx c m P < NR_MANAGER_PAGES"
proof -
  have c: "cluster_inv c" "nr_cluster_nodes c \<le> 4" "PAGE_ALIGNED P" "page_manager c P = int m"
    using assms by (auto simp: site_def vsm_cluster_def)
  then show "nr_cluster_nodes c \<le> 4" "PAGE_ALIGNED P" "page_manager c P = int m" by simp_all
  show m: "m < nr_cluster_nodes c" and r: "in_memrange (cmem (cluster c ! m)) P"
    using page_manager_spec(1) [OF c(1), of P m] c(4) by simp_all
  have "unat (msize (cmem (cluster c ! m))) \<le> 2 ^ 29" using assms m by (auto simp: site_def vsm_cluster_def)
  moreover have "unat (P - mstart (cmem (cluster c ! m))) < unat (msize (cmem (cluster c ! m)))"
    using memrange_offset [OF r] by simp
  ultimately show "page_idx c m P < NR_MANAGER_PAGES"
    by (simp add: page_idx_def NR_MANAGER_PAGES_def drop_bit_eq_div unat_div less_mult_imp_div_less)
qed

lemma manager_page:
  assumes "site c m P" and "static c m n"
  shows "ipa_manager_page n P = Inr (page_idx c m P)"
  using assms(2) site_facts(5,6) [OF assms(1)]
  by (simp add: ipa_manager_page_def manager_index_def page_idx_def static_def)

section \<open>Server processes\<close>

lemma entry_ops:
  "N \<le> 4 \<Longrightarrow> k < N \<Longrightarrow> entry_ok N e \<Longrightarrow> pte_owner e \<Longrightarrow> entry_ok N (s2pte_add_copyset (s2pte_ro e) k)"
  "entry_ok N (s2pte_invalidate e)"
  "pte_owner e \<Longrightarrow> pte_accessible e"
  "entry_ok N e \<Longrightarrow> pte_owner e \<Longrightarrow> cset_below N (s2pte_copyset e)"
  by (auto simp: entry_ok_def cset_below_def bit_copyset pte_owner_bits pte_bits)

lemma locl_own: "own (nd (locl c m P s i n f rs) i) = pte_owner (s2 n P)" "acc (nd (locl c m P s i n f rs) i) = pte_accessible (s2 n P)"
  "qu (nd (locl c m P s i n f rs) i) = rs" "ph (nd (locl c m P s i n f rs) i) = f"
  by (simp_all add: locl_def abs_node_def)

lemma locl_mo: "mo (locl c m P s m n f rs) = manager n (page_idx c m P)"
  by (simp add: locl_def)

lemma locl_set_nd:
  "set_nd (locl c m P s i n f rs) i (abs_node n' P f' rs') =
     (locl c m P s i n f rs)\<lparr>nd := (nd s)(i := abs_node n' P f' rs')\<rparr>"
  by (simp add: set_nd_def locl_def)

lemma locl_pte:
  "locl c m P s i (set_pte n P e) f rs =
     set_nd (locl c m P s i n f rs) i ((nd (locl c m P s i n f rs) i)\<lparr>own := pte_owner e, acc := pte_accessible e\<rparr>)"
  by (simp add: set_nd_def locl_def abs_node_def cong: if_cong)

lemma locl_free: "locl c m P s i (free_frame n a) f rs = locl c m P s i n f rs"
  by (rule locl_cong) simp_all

lemma locl_manager:
  "locl c m P s m (n\<lparr>manager := (manager n)(page_idx c m P := r)\<rparr>) f rs = (locl c m P s m n f rs)\<lparr>mo := r\<rparr>"
  by (simp add: locl_def abs_node_def cong: if_cong)

lemma touches_manager: "local_nodeid n = m \<Longrightarrow> touches c m P n (n\<lparr>manager := (manager n)(page_idx c m P := r)\<rparr>)"
  by (auto simp: touches_def)

lemma same_entry_push: "(push s i j x)\<lparr>mo := k\<rparr> = push (s\<lparr>mo := k\<rparr>) i j x"
  by (simp add: push_def)

text \<open>What a server process leaves alone besides \<open>touches\<close>.\<close>

definition served :: "cluster_state \<Rightarrow> nat \<Rightarrow> ipa \<Rightarrow> vnode \<Rightarrow> vnode \<Rightarrow> bool" where
  "served c m P n n' \<longleftrightarrow> touches c m P n n' \<and> ptable n' = ptable n \<and> waiting n' = waiting n \<and>
     entry_ok (nr_cluster_nodes c) (s2 n' P)"

lemma serve_read_sim:
  assumes st: "site c m P" and n: "static c i n" "lock (ptable n P) \<noteq> 0" "entry_ok (nr_cluster_nodes c) (s2 n P)"
    and p: "page_ipa p = P" "stype p = READ_SERVER" "req_nodeid p < nr_cluster_nodes c"
    and t: "serve m (locl c m P s i n f rs) i (abs_req p) = Some t"
  shows "\<exists>n'. vsm_read_server_process n p = Inr n' \<and> t = locl c m P s i n' f rs \<and> served c m P n n'"
proof (cases "pte_owner (s2 n P)")
  case True
  let ?e = "s2pte_add_copyset (s2pte_ro (s2 n P)) (req_nodeid p)"
  let ?n = "send_read_fetch_reply (set_pte n P ?e) (req_nodeid p) P (frames n (PTE_PA ?e)) (req_cpu p)"
  have k: "req_nodeid p < 4" using p(3) site_facts(2) [OF st] by simp
  have e: "pte_owner ?e" "entry_ok (nr_cluster_nodes c) ?e"
    using entry_ops(1) [OF site_facts(2) [OF st] p(3) n(3) True] owner_ops(4) [OF True k] by auto
  have "vsm_read_server_process n p = Inr ?n"
    using True n p site_facts(3,4) [OF st]
    by (simp add: vsm_read_server_process_def Let_def page_locked_def pte_owner_def static_def)
  moreover have "t = locl c m P s i ?n f rs"
    using t True e p(2) entry_ops(3) [OF True] entry_ops(3) [OF e(1)]
    by (simp add: abs_req_def locl_own send_read_fetch_reply_def locl_send locl_pte) (simp add: set_nd_def locl_def abs_node_def)
  moreover have "served c m P n ?n"
    using e by (simp add: served_def send_read_fetch_reply_def)
      (rule touches_trans [OF touches_pte send_touches], auto simp: cset_below_def)
  ultimately show ?thesis by blast
next
  case False
  then have im: "i = m" "req_nodeid p \<noteq> manager n (page_idx c m P)"
    and t': "t = push (locl c m P s i n f rs) m (manager n (page_idx c m P)) (Req (AR (req_nodeid p)))"
    using t p(2) by (auto simp: abs_req_def locl_own locl_mo split: if_splits)
  let ?n = "send_fetch_req n (req_nodeid p) (manager n (page_idx c m P)) P READ_FETCH (req_cpu p)"
  have "vsm_read_server_process n p = Inr ?n"
    using False n p im site_facts(3,4) [OF st] manager_page [OF st, of n]
    by (auto simp: vsm_read_server_process_def Let_def page_locked_def pte_owner_def static_def)
  moreover have "t = locl c m P s i ?n f rs"
    using t' im by (simp add: send_fetch_req_def locl_send)
  moreover have "served c m P n ?n"
    using n(3) by (simp add: served_def send_fetch_req_def) (rule send_touches, auto)
  ultimately show ?thesis by blast
qed

lemma served_trans: "served c m P n n' \<Longrightarrow> served c m P n' n'' \<Longrightarrow> served c m P n n''"
  by (auto simp: served_def intro: touches_trans)

lemma serve_write_sim:
  assumes st: "site c m P" and n: "static c i n" "lock (ptable n P) \<noteq> 0" "entry_ok (nr_cluster_nodes c) (s2 n P)"
    and p: "page_ipa p = P" "stype p = WRITE_SERVER"
    and t: "serve m (locl c m P s i n f rs) i (abs_req p) = Some t"
  shows "\<exists>n'. vsm_write_server_process n p = Inr n' \<and> t = locl c m P s i n' f rs \<and> served c m P n n'"
proof (cases "pte_owner (s2 n P)")
  case True
  let ?e = "s2pte_invalidate (s2 n P)" and ?r = "req_nodeid p"
  let ?a = "set_pte n P ?e"
  let ?b = "send_write_fetch_reply ?a ?r P (frames n (PTE_PA (s2 n P))) True (s2pte_copyset (s2 n P)) (req_cpu p)"
  let ?n = "free_frame ?b (PTE_PA (s2 n P))"
  let ?n' = "if i = m then ?n\<lparr>manager := (manager ?n)(page_idx c m P := ?r)\<rparr> else ?n"
  have stat: "static c i ?n" using n(1) by (simp add: static_def send_write_fetch_reply_def)
  have e: "\<not> pte_owner ?e" "\<not> pte_accessible ?e" by (simp_all add: pte_simps)
  have "vsm_write_server_process n p = Inr ?n'"
    using True n(1,2) p site_facts(3,4) [OF st] manager_page [OF st, of ?n] stat
    by (simp add: vsm_write_server_process_def Let_def page_locked_def pte_owner_def static_def)
  moreover have l: "locl c m P s i ?n f rs =
      push (set_nd (locl c m P s i n f rs) i ((nd (locl c m P s i n f rs) i)\<lparr>own := False, acc := False\<rparr>)) i ?r WRep"
    using e by (simp add: send_write_fetch_reply_def locl_free locl_send locl_pte)
  have "t = locl c m P s i ?n' f rs"
  proof (cases "i = m")
    case True
    then show ?thesis
      using t l p(2) \<open>pte_owner (s2 n P)\<close> locl_manager [of c m P s ?n ?r f rs] by (simp add: abs_req_def locl_own)
  next
    case False
    then show ?thesis
      using t l p(2) \<open>pte_owner (s2 n P)\<close> by (simp add: abs_req_def locl_own) (simp add: push_def set_nd_def)
  qed
  moreover have "touches c m P n ?n"
    by (rule touches_trans [OF touches_trans [OF touches_pte] touches_free], unfold send_write_fetch_reply_def, rule send_touches)
      (use entry_ops(4) [OF n(3) True] in auto)
  then have "served c m P n ?n'"
    using entry_ops(2) touches_trans [OF _ touches_manager [of ?n m c P ?r]] stat
    by (simp add: served_def static_def send_write_fetch_reply_def)
  ultimately show ?thesis by blast
next
  case False
  then have im: "i = m" "req_nodeid p \<noteq> manager n (page_idx c m P)"
    and t': "t = (push (locl c m P s i n f rs) m (manager n (page_idx c m P)) (Req (AW (req_nodeid p))))\<lparr>mo := req_nodeid p\<rparr>"
    using t p(2) by (auto simp: abs_req_def locl_own locl_mo split: if_splits)
  let ?b = "send_fetch_req n (req_nodeid p) (manager n (page_idx c m P)) P WRITE_FETCH (req_cpu p)"
  let ?n = "?b\<lparr>manager := (manager ?b)(page_idx c m P := req_nodeid p)\<rparr>"
  have "vsm_write_server_process n p = Inr ?n"
    using False n(1,2) p im site_facts(3,4) [OF st] manager_page [OF st, of n]
    by (auto simp: vsm_write_server_process_def Let_def page_locked_def pte_owner_def static_def)
  moreover have "t = locl c m P s i ?n f rs"
    using t' im locl_manager [of c m P s ?b "req_nodeid p" f rs] by (simp add: send_fetch_req_def locl_send)
  moreover have "touches c m P n ?n"
    by (rule touches_trans [OF _ touches_manager], unfold send_fetch_req_def, rule send_touches)
      (use n(1) im in \<open>auto simp: static_def\<close>)
  ultimately show ?thesis using n(3) by (auto simp: served_def send_fetch_req_def)
qed

lemma serve_inv_sim:
  assumes st: "site c m P" and n: "static c i n" "lock (ptable n P) \<noteq> 0" "entry_ok (nr_cluster_nodes c) (s2 n P)"
    and p: "page_ipa p = P" "stype p = INV_SERVER"
    and t: "serve m (locl c m P s i n f rs) i (abs_req p) = Some t"
  shows "\<exists>n'. vsm_invalidate_server_process n p = Inr n' \<and> t = locl c m P s i n' f rs \<and> served c m P n n'"
proof (cases "pte_accessible (s2 n P) \<and> \<not> pte_owner (s2 n P)")
  case True
  let ?n = "free_frame (set_pte n P (s2pte_invalidate (s2 n P))) (PTE_PA (s2 n P))"
  have e: "\<not> pte_owner (s2pte_invalidate (s2 n P))" "\<not> pte_accessible (s2pte_invalidate (s2 n P))" by (simp_all add: pte_simps)
  have "vsm_invalidate_server_process n p = Inr ?n"
    using True n p site_facts(3) [OF st] by (auto simp: vsm_invalidate_server_process_def Let_def page_locked_def pte_owner_def)
  moreover have "t = locl c m P s i ?n f rs"
    using t True e p(2) by (simp add: abs_req_def locl_own locl_free locl_pte) (simp add: set_nd_def locl_def abs_node_def)
  moreover have "served c m P n ?n"
    using entry_ops(2) touches_trans [OF touches_pte touches_free] by (simp add: served_def)
  ultimately show ?thesis by blast
next
  case False
  then have "vsm_invalidate_server_process n p = Inr n" "t = locl c m P s i n f rs"
    using n p t site_facts(3) [OF st]
    by (auto simp: vsm_invalidate_server_process_def Let_def page_locked_def pte_owner_def abs_req_def locl_own)
  then show ?thesis using n(3) touches_refl by (auto simp: served_def)
qed

lemma do_process_sim:
  assumes "site c m P" "static c i n" "lock (ptable n P) \<noteq> 0" "entry_ok (nr_cluster_nodes c) (s2 n P)" "page_ipa p = P"
    and "\<And>r. abs_req p = AR r \<Longrightarrow> r < nr_cluster_nodes c" "serve m (locl c m P s i n f rs) i (abs_req p) = Some t"
  shows "\<exists>n'. do_process n p = Inr n' \<and> t = locl c m P s i n' f rs \<and> served c m P n n'"
proof (cases "stype p")
  case READ_SERVER
  then show ?thesis using serve_read_sim [OF assms(1-5) READ_SERVER _ assms(7)] assms(6) by (simp add: do_process_def abs_req_def)
next
  case WRITE_SERVER
  then show ?thesis using serve_write_sim [OF assms(1-5) WRITE_SERVER assms(7)] by (simp add: do_process_def)
next
  case INV_SERVER
  then show ?thesis using serve_inv_sim [OF assms(1-5) INV_SERVER assms(7)] by (simp add: do_process_def)
qed

section \<open>The wait queue\<close>

lemma served_keeps:
  assumes "served c m P n n'"
  shows "static c i n' = static c i n" "ptable n' = ptable n" "waiting n' = waiting n"
    "entry_ok (nr_cluster_nodes c) (s2 n' P)" "touches c m P n n'" "queue n' = queue n"
  using assms by (auto simp: served_def static_def touches_def queue_def fun_eq_iff)

lemma locl_rest:
  "set_nd (locl c m P s i n f rs) i ((nd (locl c m P s i n f rs) i)\<lparr>qu := rs'\<rparr>) = locl c m P s i n f rs'"
  "set_nd (locl c m P s i n f rs) i ((nd (locl c m P s i n f rs) i)\<lparr>ph := f'\<rparr>) = locl c m P s i n f' rs"
  by (simp_all add: set_nd_def locl_def abs_node_def)

lemma queued_reader:
  assumes "ginv m N s L" and "i < N" and "AR r \<in> set (qu (nd s i))"
  shows "r < N"
proof -
  have "node_ok N s i" using assms(1,2) by (simp add: ginv_def pinv_def)
  then have "msg_ok N s i (Req (AR r))" using assms(3) by (auto simp: node_ok_def)
  then show ?thesis by (simp add: msg_ok_def)
qed

lemma process_all_sim:
  assumes st: "site c m P" and i: "i < nr_cluster_nodes c"
    and "static c i n" "lock (ptable n P) \<noteq> 0" "entry_ok (nr_cluster_nodes c) (s2 n P)" "\<forall>p \<in> set ps. page_ipa p = P"
    and "ginv m (nr_cluster_nodes c) (locl c m P s i n Drain (map abs_req ps)) L"
  shows "\<exists>n' L'. process_all n ps = Inr n' \<and> ginv m (nr_cluster_nodes c) (locl c m P s i n' Drain []) L' \<and> served c m P n n'"
  using assms(3-)
proof (induction ps arbitrary: n L)
  case Nil
  then show ?case using touches_refl by (auto simp: served_def)
next
  case (Cons p ps)
  let ?N = "nr_cluster_nodes c" and ?s = "locl c m P s i n Drain (map abs_req (p # ps))"
  have "pstep m ?N ?s (serve m (set_nd ?s i ((nd ?s i)\<lparr>qu := map abs_req ps\<rparr>)) i (abs_req p))"
    by (rule serve_queued [OF i]) (simp_all add: locl_own)
  then have "pstep m ?N ?s (serve m (locl c m P s i n Drain (map abs_req ps)) i (abs_req p))"
    unfolding locl_rest .
  then obtain t L' where t: "serve m (locl c m P s i n Drain (map abs_req ps)) i (abs_req p) = Some t" "ginv m ?N t L'"
    using pstep_ginv [OF _ Cons.prems(5)] by blast
  have r: "r < ?N" if "abs_req p = AR r" for r
    using queued_reader [OF Cons.prems(5) i, of r] that by (simp add: locl_own)
  obtain n1 where n1: "do_process n p = Inr n1" "t = locl c m P s i n1 Drain (map abs_req ps)" "served c m P n n1"
    using do_process_sim [OF st Cons.prems(1-3) _ r t(1)] Cons.prems(4) by auto
  note k = served_keeps [OF n1(3)]
  obtain n2 L2 where "process_all n1 ps = Inr n2" "ginv m ?N (locl c m P s i n2 Drain []) L2" "served c m P n1 n2"
    using Cons.IH [of n1 L'] Cons.prems(1,2,4) k t(2) n1(2) by auto
  then show ?case using n1(1) served_trans [OF n1(3)] by auto
qed

lemma waitqueue_eq:
  assumes "lock (ptable n P) \<noteq> 0"
  shows "\<exists>d. lock d \<noteq> 0 \<and> (wq d = None \<or> wq d = Some []) \<and> vsm_process_waitqueue n P =
    bind_res (process_all (set_desc n P d) (queue n P)) (\<lambda>n'. Inr (page_unlock n' P))"
proof -
  have u: "page_unlock (snd (vwq_lock n' P)) P = page_unlock n' P" for n'
    by (simp add: page_unlock_def vwq_lock_def set_desc_def)
  show ?thesis
  proof (cases "wq (ptable n P)")
    case None
    then show ?thesis
      using assms by (intro exI [of _ "(ptable n P)\<lparr>lock := 1, wqlock := 1\<rparr>"])
        (simp add: vsm_process_waitqueue_def page_locked_def vwq_lock_def queue_def Let_def)
  next
    case (Some ps)
    show ?thesis
    proof (cases ps)
      case Nil
      then show ?thesis
        using assms Some by (intro exI [of _ "(ptable n P)\<lparr>lock := 1, wqlock := 1\<rparr>"])
          (simp add: vsm_process_waitqueue_def page_locked_def vwq_lock_def queue_def Let_def)
    next
      case (Cons p ps')
      show ?thesis
        using assms u Some Cons by (intro exI [of _ "(ptable n P)\<lparr>lock := 1, wq := Some [], wqlock := 0\<rparr>"])
          (simp add: vsm_process_waitqueue_def vsm_process_wq_core_def vwq_locked_def page_locked_def
            vwq_lock_def vwq_unlock_def queue_def Let_def bind_res_assoc set_desc_def)
    qed
  qed
qed

text \<open>A page that was unlocked after its queue was worked off.\<close>

definition released :: "vnode \<Rightarrow> ipa \<Rightarrow> bool" where
  "released n P \<longleftrightarrow> lock (ptable n P) = 0 \<and> queue n P = []"

lemma released_desc: "released n P \<Longrightarrow> waiting n P = None \<Longrightarrow> desc_ok n P"
  by (simp add: released_def desc_ok_def)

lemma unlock_facts:
  assumes "wq (ptable n P) = None \<or> wq (ptable n P) = Some []"
  shows "released (page_unlock n P) P" "locl c m P s i (page_unlock n P) f rs = locl c m P s i n f rs"
    "touches c m P n (page_unlock n P)" "s2 (page_unlock n P) = s2 n" "waiting (page_unlock n P) = waiting n"
  using assms touches_desc by (auto simp: released_def page_unlock_def queue_def intro: locl_cong)

lemma waitqueue_sim:
  assumes st: "site c m P" and i: "i < nr_cluster_nodes c"
    and n: "static c i n" "lock (ptable n P) \<noteq> 0" "entry_ok (nr_cluster_nodes c) (s2 n P)" "\<forall>p \<in> set (queue n P). page_ipa p = P"
    and inv: "ginv m (nr_cluster_nodes c) (locl c m P s i n Drain (map abs_req (queue n P))) L"
  shows "\<exists>n' L'. vsm_process_waitqueue n P = Inr n' \<and> ginv m (nr_cluster_nodes c) (locl c m P s i n' Idle []) L' \<and>
    touches c m P n n' \<and> released n' P \<and> entry_ok (nr_cluster_nodes c) (s2 n' P) \<and> waiting n' = waiting n"
proof -
  obtain d where d: "lock d \<noteq> 0" "wq d = None \<or> wq d = Some []"
    and q: "vsm_process_waitqueue n P = bind_res (process_all (set_desc n P d) (queue n P)) (\<lambda>n'. Inr (page_unlock n' P))"
    using waitqueue_eq [OF n(2)] by blast
  let ?N = "nr_cluster_nodes c"
  have "locl c m P s i (set_desc n P d) Drain (map abs_req (queue n P)) = locl c m P s i n Drain (map abs_req (queue n P))"
    by (rule locl_cong) simp_all
  then obtain n1 L1 where n1: "process_all (set_desc n P d) (queue n P) = Inr n1"
      "ginv m ?N (locl c m P s i n1 Drain []) L1" "served c m P (set_desc n P d) n1"
    using process_all_sim [OF st i, of "set_desc n P d" "queue n P" s L] n d(1) inv by (auto simp: static_def)
  have pt: "ptable n1 P = d" using served_keeps(2) [OF n1(3)] by simp
  have "pstep m ?N (locl c m P s i n1 Drain []) (Some (locl c m P s i n1 Idle []))"
    using unlock [OF i, of "locl c m P s i n1 Drain []" m] unfolding locl_rest by (simp add: locl_own)
  then obtain L' where "ginv m ?N (locl c m P s i n1 Idle []) L'"
    using pstep_ginv [OF _ n1(2)] by blast
  moreover have "touches c m P n (page_unlock n1 P)"
    using touches_trans [OF touches_trans [OF touches_desc served_keeps(5) [OF n1(3)]]] unlock_facts(3) pt d(2) by metis
  ultimately show ?thesis
    using q n1(1) unlock_facts [of n1 P] pt d(2) served_keeps(3,4) [OF n1(3)] by auto
qed

lemma waitqueue_empty:
  assumes "lock (ptable n P) \<noteq> 0" and "queue n P = []"
  shows "\<exists>n'. vsm_process_waitqueue n P = Inr n' \<and> (\<forall>s i f rs. locl c m P s i n' f rs = locl c m P s i n f rs) \<and>
    touches c m P n n' \<and> released n' P \<and> s2 n' = s2 n \<and> waiting n' = waiting n"
proof -
  obtain d where d: "wq d = None \<or> wq d = Some []"
    and q: "vsm_process_waitqueue n P = Inr (page_unlock (set_desc n P d) P)"
    using waitqueue_eq [OF assms(1)] assms(2) by auto
  have "locl c m P s i (set_desc n P d) f rs = locl c m P s i n f rs" for s i f rs by (rule locl_cong) simp_all
  then show ?thesis
    using q d unlock_facts [of "set_desc n P d" P] touches_trans [OF touches_desc] by simp blast
qed

section \<open>Receiving requests\<close>

lemma locl_pop: "sent n = [] \<Longrightarrow> locl c m P (pop s j i) k n f rs = pop (locl c m P s k n f rs) j i"
  by (simp add: locl_def pop_def cong: if_cong) (simp add: fun_eq_iff)

lemma lock_value: "cpu < 8 \<Longrightarrow> (of_nat (cpu + 1) :: u8) \<noteq> 0"
proof
  assume "cpu < 8" "(of_nat (cpu + 1) :: u8) = 0"
  then have "unat (of_nat (cpu + 1) :: u8) = 0" by simp
  then show False using \<open>cpu < 8\<close> by (simp only: unat_of_nat) simp
qed

lemma channel_reader:
  assumes "ginv m N s L" and "Req (AR r) \<in> set (ch s (j, i))"
  shows "r < N"
proof -
  have "msg_ok N s i (Req (AR r))" using assms by (simp add: ginv_def pinv_def chan_ok_def)
  then show ?thesis by (simp add: msg_ok_def)
qed

text \<open>The node before a step, as a part of the abstract state.\<close>

definition placed :: "cluster_state \<Rightarrow> nat \<Rightarrow> ipa \<Rightarrow> pstate \<Rightarrow> nat \<Rightarrow> vnode \<Rightarrow> bool" where
  "placed c m P s i n \<longleftrightarrow> i < nr_cluster_nodes c \<and> static c i n \<and> sent n = [] \<and> desc_ok n P \<and>
     entry_ok (nr_cluster_nodes c) (s2 n P) \<and> locl c m P s i n (phase_of n P) (map abs_req (queue n P)) = s"

text \<open>What a handler of page \<open>P\<close> guarantees; \<open>s\<close> is the abstract state without the delivered message.\<close>

definition step_ok :: "cluster_state \<Rightarrow> nat \<Rightarrow> ipa \<Rightarrow> pstate \<Rightarrow> nat \<Rightarrow> vnode \<Rightarrow> vnode \<Rightarrow> bool" where
  "step_ok c m P s i n n' \<longleftrightarrow> touches c m P n n' \<and> desc_ok n' P \<and> entry_ok (nr_cluster_nodes c) (s2 n' P) \<and>
     (\<exists>L. ginv m (nr_cluster_nodes c) (locl c m P s i n' (phase_of n' P) (map abs_req (queue n' P))) L)"

lemma released_step:
  assumes "released n' P" "waiting n' P = None" "touches c m P n n'" "entry_ok (nr_cluster_nodes c) (s2 n' P)"
    and "ginv m (nr_cluster_nodes c) (locl c m P s i n' Idle []) L"
  shows "step_ok c m P s i n n'"
  using assms released_desc by (auto simp: step_ok_def phase_of_def released_def)

lemma recv_idle_sim:
  assumes st: "site c m P" and pl: "placed c m P s i n" and w: "waiting n P = None" and cpu: "cpu < 8"
    and p: "page_ipa p = P" and inv: "ginv m (nr_cluster_nodes c) s L"
    and ch: "ch s (j, i) = Req (abs_req p) # rest" "j < nr_cluster_nodes c"
  shows "\<exists>n'. recv_proc n p cpu spurious = Inr n' \<and> step_ok c m P (pop s j i) i n n'"
proof -
  let ?N = "nr_cluster_nodes c" and ?s = "pop s j i"
  have n: "i < ?N" "static c i n" "sent n = []" "entry_ok ?N (s2 n P)" "lock (ptable n P) = 0" "queue n P = []"
    "locl c m P s i n Idle [] = s"
    using pl w by (auto simp: placed_def desc_ok_def phase_of_def)
  have s: "locl c m P ?s i n Idle [] = ?s" using locl_pop [OF n(3), of c m P s j i i] n(7) by simp
  have idle: "ph (nd s i) = Idle" using n(7) locl_own(4) by metis
  obtain t L' where t: "serve m ?s i (abs_req p) = Some t" "ginv m ?N t L'"
    using pstep_ginv [OF serve_now [OF n(1) ch(2,1) idle] inv] by blast
  have r: "r < ?N" if "abs_req p = AR r" for r using channel_reader [OF inv, of r j i] that ch(1) by simp
  have run: "\<exists>n2. do_process (set_desc n P d) p = Inr n2 \<and> ptable n2 P = d \<and>
      (\<forall>n'. touches c m P n2 n' \<longrightarrow> released n' P \<longrightarrow> s2 n' = s2 n2 \<longrightarrow> waiting n' = waiting n2 \<longrightarrow>
        locl c m P ?s i n' Idle [] = locl c m P ?s i n2 Idle [] \<longrightarrow> step_ok c m P ?s i n n')"
    if d: "lock d \<noteq> 0" for d
  proof -
    let ?n = "set_desc n P d"
    have "locl c m P ?s i ?n Idle [] = ?s" using s locl_cong [of ?n P n c m ?s i Idle "[]"] by simp
    then obtain n2 where n2: "do_process ?n p = Inr n2" "t = locl c m P ?s i n2 Idle []" "served c m P ?n n2"
      using do_process_sim [OF st, of i ?n p ?s Idle "[]" t] n(2,4) d p r t(1) by (auto simp: static_def)
    note k = served_keeps [OF n2(3)]
    have "step_ok c m P ?s i n n'" if n': "touches c m P n2 n'" "released n' P" "s2 n' = s2 n2" "waiting n' = waiting n2"
      "locl c m P ?s i n' Idle [] = locl c m P ?s i n2 Idle []" for n'
      using released_step [OF n'(2) _ touches_trans [OF touches_trans [OF touches_desc k(5)] n'(1)], of ?s i L'] n' n2(2) t(2) w k
      by simp
    then show ?thesis using n2(1) k(2) by auto
  qed
  show ?thesis
  proof (cases spurious)
    case False
    let ?d = "(ptable n P)\<lparr>lock := of_nat (cpu + 1)\<rparr>"
    have e: "recv_proc n p cpu spurious = bind_res (do_process (set_desc n P ?d) p) (\<lambda>n2. vsm_process_waitqueue n2 P)"
      using False n(5) p by (simp add: recv_proc_def page_trylock_def page_locked_def)
    have d: "lock ?d \<noteq> 0" using lock_value [OF cpu] by simp
    then obtain n2 where n2: "do_process (set_desc n P ?d) p = Inr n2" "ptable n2 P = ?d" and
      ok: "\<And>n'. touches c m P n2 n' \<Longrightarrow> released n' P \<Longrightarrow> s2 n' = s2 n2 \<Longrightarrow> waiting n' = waiting n2 \<Longrightarrow>
        locl c m P ?s i n' Idle [] = locl c m P ?s i n2 Idle [] \<Longrightarrow> step_ok c m P ?s i n n'"
      using run by blast
    have "lock (ptable n2 P) \<noteq> 0" "queue n2 P = []" using d n2(2) n(6) by (auto simp: queue_def)
    then show ?thesis using waitqueue_empty [of n2 P c m] ok e n2(1) by (metis bind_res.simps(2))
  next
    case True
    let ?d = "(ptable n P)\<lparr>lock := 1, wq := Some [p], wqlock := 0\<rparr>"
    have e: "recv_proc n p cpu spurious = vsm_process_waitqueue (set_desc n P ?d) P"
      using True n(5,6) p
      by (auto simp: recv_proc_def page_trylock_def vsm_enqueue_proc_def vwq_lock_def vwq_unlock_def Let_def queue_def
          set_desc_def split: option.splits)
    have "queue (set_desc n P ?d) P = [p]" by (simp add: queue_def)
    then obtain d where d: "lock d \<noteq> 0" "wq d = None \<or> wq d = Some []" "vsm_process_waitqueue (set_desc n P ?d) P =
        bind_res (do_process (set_desc (set_desc n P ?d) P d) p) (\<lambda>n'. Inr (page_unlock n' P))"
      using waitqueue_eq [of "set_desc n P ?d" P] by (auto simp: bind_res_assoc)
    have dd: "set_desc (set_desc n P ?d) P d = set_desc n P d" by (simp add: set_desc_def)
    obtain n2 where n2: "do_process (set_desc n P d) p = Inr n2" "ptable n2 P = d" and
      ok: "\<And>n'. touches c m P n2 n' \<Longrightarrow> released n' P \<Longrightarrow> s2 n' = s2 n2 \<Longrightarrow> waiting n' = waiting n2 \<Longrightarrow>
        locl c m P ?s i n' Idle [] = locl c m P ?s i n2 Idle [] \<Longrightarrow> step_ok c m P ?s i n n'"
      using run [OF d(1)] by blast
    have "step_ok c m P ?s i n (page_unlock n2 P)" using unlock_facts [of n2 P] n2(2) d(2) ok by metis
    then show ?thesis using e d(3) dd n2(1) by simp
  qed
qed

lemma recv_locked_sim:
  assumes pl: "placed c m P s i n" and w: "waiting n P \<noteq> None"
    and p: "page_ipa p = P" and inv: "ginv m (nr_cluster_nodes c) s L"
    and ch: "ch s (j, i) = Req (abs_req p) # rest" "j < nr_cluster_nodes c"
  shows "\<exists>n'. recv_proc n p cpu spurious = Inr n' \<and> step_ok c m P (pop s j i) i n n'"
proof -
  let ?N = "nr_cluster_nodes c" and ?s = "pop s j i" and ?rs = "map abs_req (queue n P)"
  let ?n = "set_desc n P ((ptable n P)\<lparr>lock := 1, wq := Some (queue n P @ [p]), wqlock := 0\<rparr>)"
  have n: "i < ?N" "sent n = []" "entry_ok ?N (s2 n P)" "lock (ptable n P) \<noteq> 0" "\<forall>p \<in> set (queue n P). page_ipa p = P"
    "locl c m P s i n (phase_of n P) ?rs = s"
    using pl w by (auto simp: placed_def desc_ok_def)
  have e: "recv_proc n p cpu spurious = Inr ?n"
    using n(4) p
    by (auto simp: recv_proc_def page_trylock_def page_locked_def vsm_enqueue_proc_def vwq_lock_def vwq_unlock_def Let_def
        queue_def set_desc_def)
  have q: "queue ?n P = queue n P @ [p]" by (simp add: queue_def)
  have f: "phase_of ?n P = phase_of n P" by (simp add: phase_of_def)
  have s: "locl c m P ?s i n (phase_of n P) ?rs = ?s" using locl_pop [OF n(2), of c m P s j i i] n(6) by simp
  have nd: "ph (nd s i) \<noteq> Idle" "qu (nd s i) = ?rs"
    using n(6) locl_own(3,4) [of c m P s i n "phase_of n P" ?rs] w by (auto simp: phase_of_def split: if_splits)
  have "\<exists>L'. ginv m ?N (set_nd ?s i ((nd s i)\<lparr>qu := qu (nd s i) @ [abs_req p]\<rparr>)) L'"
    using pstep_ginv [OF enqueue [OF n(1) ch(2,1) nd(1)] inv] by blast
  moreover have "set_nd ?s i ((nd s i)\<lparr>qu := qu (nd s i) @ [abs_req p]\<rparr>) = locl c m P ?s i ?n (phase_of ?n P) (map abs_req (queue ?n P))"
  proof -
    have "nd s i = nd ?s i" by simp
    then show ?thesis
      using locl_rest(1) [of c m P ?s i n "phase_of n P" ?rs "?rs @ [abs_req p]"] s nd(2) q f
        locl_cong [of ?n P n c m ?s i "phase_of n P" "?rs @ [abs_req p]"] by simp
  qed
  ultimately show ?thesis
    using e n(3,5) w p q touches_desc by (auto simp: step_ok_def desc_ok_def)
qed

lemma locl_replace:
  assumes "manager n' = manager n" "sent n' = sent n"
  shows "locl c m P s i n' f' rs' = set_nd (locl c m P s i n f rs) i (abs_node n' P f' rs')"
  by (simp only: locl_def set_nd_def assms) simp

lemma locl_same_entry:
  assumes "pte_owner e = pte_owner (s2 n P)" "pte_accessible e = pte_accessible (s2 n P)"
  shows "locl c m P s i (set_pte n P e) f rs = locl c m P s i n f rs"
  using assms by (simp add: locl_def abs_node_def cong: if_cong)

section \<open>Invalidations\<close>

lemma shift_bits:
  "filter (bit (cset :: u64)) [0..<64] = (if bit cset 0 then [0] else []) @ map Suc (filter (bit (drop_bit 1 cset)) [0..<64])"
proof -
  have up: "[0..<64] = 0 # map Suc [0..<63]" "[0..<64] = [0..<63] @ [63 :: nat]"
    using upt_conv_Cons [of 0 64] map_Suc_upt [of 0 63] upt_Suc_append [of 0 63] by (simp_all del: upt_Suc)
  have b: "bit (drop_bit 1 cset) b = bit cset (Suc b)" for b by (simp add: bit_drop_bit_eq)
  have "\<not> bit (drop_bit 1 cset) 63" unfolding b by (auto dest: bit_imp_le_length)
  then have r: "filter (bit (drop_bit 1 cset)) [0..<64] = filter (bit (drop_bit 1 cset)) [0..<63]" unfolding up(2) by simp
  show ?thesis unfolding r unfolding up(1) by (simp add: filter_map o_def bit_drop_bit_eq)
qed

lemma inv_loop_result:
  "\<exists>xs cid. inv_loop n P hs cset k cpu = n\<lparr>sent := sent n @ xs, conid := cid\<rparr> \<and>
     map dst_id xs = filter (\<lambda>j. j \<noteq> local_nodeid n) (map (\<lambda>b. k + b) (filter (bit cset) [0..<64])) \<and>
     (\<forall>x \<in> set xs. payload x = Invalidate P hs (local_nodeid n))"
proof (induction n P hs cset k cpu rule: inv_loop.induct)
  case (1 n ipa hs cset k cpu)
  show ?case
  proof (cases "cset = 0")
    case True
    then have "inv_loop n ipa hs cset k cpu = n\<lparr>sent := sent n @ [], conid := conid n\<rparr>" by (simp add: inv_loop.simps)
    then show ?thesis using True by (intro exI [of _ "[]"] exI [of _ "conid n"]) simp
  next
    case False
    define n1 where "n1 = (if cset AND 1 \<noteq> 0 \<and> k \<noteq> local_nodeid n
      then vsm_send n k MSG_INVALIDATE (Invalidate ipa hs (local_nodeid n)) None cpu else n)"
    have l: "inv_loop n ipa hs cset k cpu = inv_loop n1 ipa hs (drop_bit 1 cset) (Suc k) cpu"
      using False by (simp add: inv_loop.simps [of n] n1_def)
    have b0: "cset AND 1 \<noteq> 0 \<longleftrightarrow> bit cset 0" by (simp add: and_one_eq odd_iff_mod_2_eq_one bit_0)
    obtain ys c1 where n1: "n1 = n\<lparr>sent := sent n @ ys, conid := c1\<rparr>"
        "map dst_id ys = (if bit cset 0 \<and> k \<noteq> local_nodeid n then [k] else [])" "\<forall>x \<in> set ys. payload x = Invalidate ipa hs (local_nodeid n)"
    proof (cases "bit cset 0 \<and> k \<noteq> local_nodeid n")
      case True
      then show ?thesis
        using that send_result [of n k MSG_INVALIDATE "Invalidate ipa hs (local_nodeid n)" None cpu] b0
        by (auto simp: n1_def)
    next
      case False
      then show ?thesis using that [where ys = "[]" and ?c1.0 = "conid n"] b0 by (auto simp: n1_def)
    qed
    have "local_nodeid n1 = local_nodeid n" by (simp add: n1(1))
    then obtain xs cid where xs: "inv_loop n1 ipa hs (drop_bit 1 cset) (Suc k) cpu = n1\<lparr>sent := sent n1 @ xs, conid := cid\<rparr>"
        "map dst_id xs = filter (\<lambda>j. j \<noteq> local_nodeid n) (map (\<lambda>b. Suc k + b) (filter (bit (drop_bit 1 cset)) [0..<64]))"
        "\<forall>x \<in> set xs. payload x = Invalidate ipa hs (local_nodeid n)"
      using 1 [OF False n1_def] by auto
    have bits: "map (\<lambda>b. k + b) (filter (bit cset) [0..<64]) =
        (if bit cset 0 then [k] else []) @ map (\<lambda>b. Suc k + b) (filter (bit (drop_bit 1 cset)) [0..<64])"
      by (subst shift_bits) (simp add: o_def)
    have d: "map dst_id (ys @ xs) = filter (\<lambda>j. j \<noteq> local_nodeid n) (map (\<lambda>b. k + b) (filter (bit cset) [0..<64]))"
      unfolding bits map_append xs(2) n1(2) by simp
    show ?thesis
      by (rule exI [of _ "ys @ xs"], rule exI [of _ cid], intro conjI, use l xs(1) n1(1) in simp, rule d)
        (use xs(3) n1(3) in auto)
  qed
qed

lemma invalidate_result:
  "\<exists>xs cid. vsm_invalidate n P cset cpu = n\<lparr>sent := sent n @ xs, conid := cid\<rparr> \<and>
     map dst_id xs = filter (\<lambda>j. j \<noteq> local_nodeid n) (filter (bit cset) [0..<64]) \<and>
     (\<forall>x \<in> set xs. payload x = Invalidate P cset (local_nodeid n))"
proof (cases "cset = 0")
  case True
  then show ?thesis by (intro exI [of _ "[]"] exI [of _ "conid n"]) (simp add: vsm_invalidate_def)
next
  case False
  then show ?thesis using inv_loop_result [of n P cset cset 0 cpu] by (simp add: vsm_invalidate_def)
qed

lemma invalidate_simps [simp]:
  "s2 (vsm_invalidate n P cset cpu) = s2 n" "manager (vsm_invalidate n P cset cpu) = manager n"
  "waiting (vsm_invalidate n P cset cpu) = waiting n" "local_nodeid (vsm_invalidate n P cset cpu) = local_nodeid n"
  "clust (vsm_invalidate n P cset cpu) = clust n" "ptable (vsm_invalidate n P cset cpu) = ptable n"
  "frames (vsm_invalidate n P cset cpu) = frames n"
proof -
  obtain xs cid where "vsm_invalidate n P cset cpu = n\<lparr>sent := sent n @ xs, conid := cid\<rparr>" using invalidate_result by blast
  then show "s2 (vsm_invalidate n P cset cpu) = s2 n" "manager (vsm_invalidate n P cset cpu) = manager n"
    "waiting (vsm_invalidate n P cset cpu) = waiting n" "local_nodeid (vsm_invalidate n P cset cpu) = local_nodeid n"
    "clust (vsm_invalidate n P cset cpu) = clust n" "ptable (vsm_invalidate n P cset cpu) = ptable n"
    "frames (vsm_invalidate n P cset cpu) = frames n" by simp_all
qed

lemma invalidate_touches: "touches c m P n (vsm_invalidate n P cset cpu)"
proof -
  obtain xs cid where "vsm_invalidate n P cset cpu = n\<lparr>sent := sent n @ xs, conid := cid\<rparr>"
    "\<forall>x \<in> set xs. payload x = Invalidate P cset (local_nodeid n)" using invalidate_result by blast
  then show ?thesis by (auto simp: touches_def msg_wf_def)
qed

lemma invalidations_keep:
  assumes "ginv m N (locl c m P s i n f rs) L" and "i < N" and "\<forall>x \<in> set xs. dst_id x < N \<and> abs_hdr (payload x) = Req AI \<and> hdr_page (payload x) = P"
  shows "ginv m N (locl c m P s i (n\<lparr>sent := sent n @ xs\<rparr>) f rs) L"
  using assms(3)
proof (induction xs rule: rev_induct)
  case Nil
  then show ?case using assms(1) by simp
next
  case (snoc x xs)
  have "locl c m P s i (n\<lparr>sent := sent n @ xs @ [x]\<rparr>) f rs = push (locl c m P s i (n\<lparr>sent := sent n @ xs\<rparr>) f rs) i (dst_id x) (Req AI)"
    using snoc.prems by (auto simp: locl_def push_def abs_node_def fun_eq_iff)
  then show ?case using invalidate_ginv [OF snoc.IH assms(2)] snoc.prems by simp
qed

text \<open>A node \<open>n'\<close> that differs from \<open>n\<close> only by the invalidations it has sent.\<close>

lemma invalidate_sim:
  assumes "ginv m (nr_cluster_nodes c) (locl c m P s i n f rs) L" and "i < nr_cluster_nodes c"
    and "cset_below (nr_cluster_nodes c) cset"
    and "s2 n' P = s2 n P" "manager n' = manager n" "sent n' = sent (vsm_invalidate n0 P cset cpu)" "sent n0 = sent n"
  shows "ginv m (nr_cluster_nodes c) (locl c m P s i n' f rs) L"
proof -
  obtain xs cid where x: "vsm_invalidate n0 P cset cpu = n0\<lparr>sent := sent n0 @ xs, conid := cid\<rparr>"
    "map dst_id xs = filter (\<lambda>j. j \<noteq> local_nodeid n0) (filter (bit cset) [0..<64])"
    "\<forall>x \<in> set xs. payload x = Invalidate P cset (local_nodeid n0)" using invalidate_result by blast
  have "dst_id x \<in> set (map dst_id xs)" if "x \<in> set xs" for x using that by simp
  then have "\<forall>x \<in> set xs. dst_id x < nr_cluster_nodes c"
    unfolding x(2) using assms(3) by (auto simp: cset_below_def)
  then have "ginv m (nr_cluster_nodes c) (locl c m P s i (n\<lparr>sent := sent n @ xs\<rparr>) f rs) L"
    using invalidations_keep [OF assms(1,2)] x(3) by auto
  then show ?thesis
    using locl_cong [of n' P "n\<lparr>sent := sent n @ xs\<rparr>" c m s i f rs] assms(4-7) x(1) by simp
qed

section \<open>Faults\<close>

lemma fetch_target_sim:
  assumes "site c m P" "static c i n"
  shows "fetch_target n P (int m) = Inr (if i = m then manager n (page_idx c m P) else m)"
  using assms manager_page [OF assms(1), of n] by (auto simp: fetch_target_def static_def)

lemma placed_facts:
  assumes "placed c m P s i n"
  shows "i < nr_cluster_nodes c" "static c i n" "sent n = []" "entry_ok (nr_cluster_nodes c) (s2 n P)"
    "own (nd s i) = pte_owner (s2 n P)" "acc (nd s i) = pte_accessible (s2 n P)" "ph (nd s i) = phase_of n P"
    "target m s i = (if i = m then manager n (page_idx c m P) else m)"
proof -
  have l: "locl c m P s i n (phase_of n P) (map abs_req (queue n P)) = s" using assms by (simp add: placed_def)
  show "own (nd s i) = pte_owner (s2 n P)" "acc (nd s i) = pte_accessible (s2 n P)" "ph (nd s i) = phase_of n P"
    using locl_own [of c m P s i n "phase_of n P" "map abs_req (queue n P)"] unfolding l by simp_all
  show "target m s i = (if i = m then manager n (page_idx c m P) else m)"
    using arg_cong [OF l, of mo] by (auto simp: target_def locl_def)
qed (use assms in \<open>simp_all add: placed_def\<close>)

lemma placed_nd:
  assumes "placed c m P s i n"
  shows "nd s i = abs_node n P (phase_of n P) (map abs_req (queue n P))"
proof -
  have l: "locl c m P s i n (phase_of n P) (map abs_req (queue n P)) = s" using assms by (simp add: placed_def)
  show ?thesis using arg_cong [OF l, of "\<lambda>s. nd s i"] unfolding locl_def by simp
qed

text \<open>A fault that finds the page there: lock, empty queue, unlock.\<close>

lemma hit_sim:
  assumes pl: "placed c m P s i n" and w: "waiting n P = None" and inv: "ginv m (nr_cluster_nodes c) s L"
    and d: "lock d \<noteq> 0" "wq d = wq (ptable n P)"
    and n1: "touches c m P (set_desc n P d) n1" "ptable n1 P = d" "entry_ok (nr_cluster_nodes c) (s2 n1 P)" "waiting n1 = waiting n"
      "ginv m (nr_cluster_nodes c) (locl c m P s i n1 Idle []) L"
  shows "\<exists>n'. vsm_process_waitqueue n1 P = Inr n' \<and> step_ok c m P s i n n'"
proof -
  have "queue n P = []" using pl w by (simp add: placed_def desc_ok_def)
  then have "lock (ptable n1 P) \<noteq> 0" "queue n1 P = []" using d n1(2) by (auto simp: queue_def)
  then obtain n' where n': "vsm_process_waitqueue n1 P = Inr n'" "locl c m P s i n' Idle [] = locl c m P s i n1 Idle []"
      "touches c m P n1 n'" "released n' P" "s2 n' = s2 n1" "waiting n' = waiting n1"
    using waitqueue_empty [of n1 P c m] by blast
  have "step_ok c m P s i n n'"
    using released_step [OF n'(4) _ touches_trans [OF touches_trans [OF touches_desc n1(1)] n'(3)], of s i L] n' n1 w by simp
  then show ?thesis using n'(1) by blast
qed

lemma rw_entry:
  "pte_accessible e \<Longrightarrow> pte_owner (s2pte_rw (s2pte_clear_copyset e))" "entry_ok N (s2pte_rw (s2pte_clear_copyset e))"
  by (auto simp: pte_owner_bits pte_bits entry_ok_def cset_below_def bit_copyset)

lemma write_frame_simps [simp]:
  "s2 (write_frame n a d) = s2 n" "manager (write_frame n a d) = manager n" "sent (write_frame n a d) = sent n"
  "waiting (write_frame n a d) = waiting n" "local_nodeid (write_frame n a d) = local_nodeid n" "clust (write_frame n a d) = clust n"
  "ptable (write_frame n a d) = ptable n"
  by (simp_all add: write_frame_def Let_def split: option.split)

lemma read_frame_simps [simp]:
  "s2 (read_frame n a d) = s2 n" "manager (read_frame n a d) = manager n" "sent (read_frame n a d) = sent n"
  "waiting (read_frame n a d) = waiting n" "local_nodeid (read_frame n a d) = local_nodeid n" "clust (read_frame n a d) = clust n"
  "ptable (read_frame n a d) = ptable n"
  by (simp_all add: read_frame_def split: option.split)

lemma touches_write: "touches c m P n (write_frame n a d)"
  by (simp add: touches_def)

lemma blocked_step:
  assumes pl: "placed c m P s i n" and w: "waiting n P = None" and d: "lock d \<noteq> 0" "wq d = wq (ptable n P)"
    and n1: "touches c m P (set_desc n P d) n1" "ptable n1 P = d" "entry_ok (nr_cluster_nodes c) (s2 n1 P)"
    and inv: "ginv m (nr_cluster_nodes c)
      (locl c m P s i n1 (if ty = READ_FETCH then RWait else WWait) []) L"
  shows "step_ok c m P s i n (n1\<lparr>waiting := (waiting n1)(P \<mapsto> \<lparr>wtype = ty, wdata = b\<rparr>)\<rparr>)"
proof -
  let ?n = "n1\<lparr>waiting := (waiting n1)(P \<mapsto> \<lparr>wtype = ty, wdata = b\<rparr>)\<rparr>"
  have "queue n P = []" using pl w by (simp add: placed_def desc_ok_def)
  then have q: "queue ?n P = []" using d n1(2) by (simp add: queue_def)
  have "locl c m P s i ?n f rs = locl c m P s i n1 f rs" for f rs by (rule locl_cong) simp_all
  moreover have "phase_of ?n P = (if ty = READ_FETCH then RWait else WWait)" by (simp add: phase_of_def)
  ultimately show ?thesis
    using touches_trans [OF touches_trans [OF touches_desc n1(1)] touches_wait] n1 q d inv by (auto simp: step_ok_def desc_ok_def)
qed

lemma read_fault_sim:
  assumes st: "site c m P" and pl: "placed c m P s i n" and w: "waiting n P = None" and cpu: "cpu < 8"
    and inv: "ginv m (nr_cluster_nodes c) s L"
  shows "\<exists>r n'. vsm_read_fetch_begin n P b cpu = Inr (r, n') \<and> step_ok c m P s i n n'"
proof -
  let ?N = "nr_cluster_nodes c" and ?e = "s2 n P" and ?d = "(ptable n P)\<lparr>lock := of_nat (cpu + 1)\<rparr>"
  let ?n = "set_desc n P ?d"
  note pf = placed_facts [OF pl] and sf = site_facts [OF st]
  have n: "lock (ptable n P) = 0" "queue n P = []" "locl c m P s i n Idle [] = s" "ph (nd s i) = Idle"
    using pl w pf(7) by (auto simp: placed_def desc_ok_def phase_of_def)
  have d: "lock ?d \<noteq> 0" "wq ?d = wq (ptable n P)" using lock_value [OF cpu] by simp_all
  have sp: "page_spinlock n P cpu = Some ?n" "page_manager (clust n) P = int m" "local_nodeid n = i"
    using n(1) pf(2) sf(4) by (auto simp: page_spinlock_def page_locked_def static_def)
  have l: "locl c m P s i ?n f rs = locl c m P s i n f rs" for f rs by (rule locl_cong) simp_all
  show ?thesis
  proof (cases "pte_readable ?e")
    case True
    obtain n' where "vsm_process_waitqueue ?n P = Inr n'" "step_ok c m P s i n n'"
      using hit_sim [OF pl w inv d touches_refl] pf(4) n(3) inv l by auto
    then show ?thesis using True sp sf(3) by (simp add: vsm_read_fetch_begin_def Let_def)
  next
    case False
    then have na: "\<not> acc (nd s i)" using pf(4,6) by (auto simp: entry_ok_def)
    let ?t = "if i = m then manager n (page_idx c m P) else m"
    let ?n1 = "send_fetch_req ?n i ?t P READ_FETCH cpu"
    have "fetch_target ?n P (int m) = Inr ?t" using fetch_target_sim [OF st, of i ?n] pf(2) by (simp add: static_def)
    then have e: "vsm_read_fetch_begin n P b cpu =
        Inr (Blocked, ?n1\<lparr>waiting := (waiting ?n1)(P \<mapsto> \<lparr>wtype = READ_FETCH, wdata = b\<rparr>)\<rparr>)"
      using False sp sf(3) by (simp add: vsm_read_fetch_begin_def Let_def)
    have "locl c m P s i ?n1 RWait [] = push (set_nd s i ((nd s i)\<lparr>ph := RWait\<rparr>)) i (target m s i) (Req (AR i))"
      using locl_rest(2) [of c m P s i n Idle "[]" RWait] n(3) l pf(8) by (simp add: send_fetch_req_def locl_send)
    then obtain L' where "ginv m ?N (locl c m P s i ?n1 RWait []) L'"
      using pstep_ginv [OF read_fault [OF pf(1) n(4) na, of m] inv] by auto
    moreover have "touches c m P ?n ?n1" unfolding send_fetch_req_def by (rule send_touches) auto
    ultimately show ?thesis
      unfolding e using blocked_step [OF pl w d, of ?n1 READ_FETCH L' b] pf(4) by (simp add: send_fetch_req_def)
  qed
qed

lemma write_fault_sim:
  assumes st: "site c m P" and pl: "placed c m P s i n" and w: "waiting n P = None" and cpu: "cpu < 8"
    and inv: "ginv m (nr_cluster_nodes c) s L"
  shows "\<exists>r n'. vsm_write_fetch_begin n P b cpu = Inr (r, n') \<and> step_ok c m P s i n n'"
proof -
  let ?N = "nr_cluster_nodes c" and ?e = "s2 n P" and ?d = "(ptable n P)\<lparr>lock := of_nat (cpu + 1)\<rparr>"
  let ?n = "set_desc n P ?d"
  note pf = placed_facts [OF pl] and sf = site_facts [OF st]
  have n: "lock (ptable n P) = 0" "queue n P = []" "locl c m P s i n Idle [] = s" "ph (nd s i) = Idle"
    using pl w pf(7) by (auto simp: placed_def desc_ok_def phase_of_def)
  have d: "lock ?d \<noteq> 0" "wq ?d = wq (ptable n P)" using lock_value [OF cpu] by simp_all
  have sp: "page_spinlock n P cpu = Some ?n" "page_manager (clust n) P = int m" "local_nodeid n = i"
    using n(1) pf(2) sf(4) by (auto simp: page_spinlock_def page_locked_def static_def)
  have l: "locl c m P s i ?n f rs = locl c m P s i n f rs" for f rs by (rule locl_cong) simp_all
  consider (rw) "pte_rwable ?e" | (shared) "\<not> pte_rwable ?e" "pte_rdonly ?e" "s2pte_copyset ?e \<noteq> 0" | (miss) "\<not> pte_owner ?e"
    by (auto simp: pte_owner_def)
  then show ?thesis
  proof cases
    case rw
    obtain n' where "vsm_process_waitqueue ?n P = Inr n'" "step_ok c m P s i n n'"
      using hit_sim [OF pl w inv d touches_refl] pf(4) n(3) inv l by auto
    then show ?thesis using rw sp sf(3) by (simp add: vsm_write_fetch_begin_def Let_def)
  next
    case shared
    then have own: "pte_owner ?e" by (simp add: pte_owner_def)
    let ?i = "vsm_invalidate ?n P (s2pte_copyset ?e) cpu" and ?c = "s2pte_clear_copyset ?e"
    let ?n1 = "set_pte (write_frame (set_pte ?i P ?c) (PTE_PA ?c) b) P (s2pte_rw ?c)"
    have e: "vsm_write_fetch_begin n P b cpu = bind_res (vsm_process_waitqueue ?n1 P) (\<lambda>n3. Inr (Hit (PTE_PA ?c), n3))"
      using shared sp sf(3) by (simp add: vsm_write_fetch_begin_def page_acquired_def Let_def bind_res_assoc)
    have rw: "pte_owner (s2pte_rw ?c)" "pte_accessible (s2pte_rw ?c)"
      using rw_entry(1) [OF entry_ops(3) [OF own]] entry_ops(3) by auto
    have b: "locl c m P s i (set_pte n P (s2pte_rw ?c)) Idle [] = s"
      using rw own entry_ops(3) [OF own] n(3) by (simp add: locl_same_entry)
    have "ginv m ?N (locl c m P s i ?n1 Idle []) L"
      by (rule invalidate_sim [of m c P s i "set_pte n P (s2pte_rw ?c)" Idle "[]" L _ _ ?n])
        (use inv b pf(1) entry_ops(4) [OF pf(4) own] in simp_all)
    moreover have "touches c m P ?n ?n1"
      by (rule touches_trans [OF touches_trans [OF touches_trans [OF invalidate_touches touches_pte] touches_write] touches_pte])
    ultimately obtain n' where "vsm_process_waitqueue ?n1 P = Inr n'" "step_ok c m P s i n n'"
      using hit_sim [OF pl w inv d, of ?n1] rw_entry(2) by auto
    then show ?thesis using e by simp
  next
    case miss
    let ?t = "if i = m then manager n (page_idx c m P) else m"
    define n2 where "n2 = (if pte_rdonly ?e then free_frame (set_pte ?n P (s2pte_invalidate ?e)) (PTE_PA ?e) else ?n)"
    let ?n1 = "send_fetch_req n2 i ?t P WRITE_FETCH cpu"
    have k: "manager n2 = manager n" "local_nodeid n2 = i" "clust n2 = clust n" "ptable n2 P = ?d" "touches c m P ?n n2"
      using sp(3) touches_trans [OF touches_pte touches_free] touches_refl by (auto simp: n2_def)
    have e2: "\<not> pte_owner (s2 n2 P)" "\<not> pte_accessible (s2 n2 P)" "entry_ok ?N (s2 n2 P)"
      using miss pf(4) by (auto simp: n2_def entry_ok_def pte_owner_def pte_pred_bits pte_op_bits)
    have "fetch_target n2 P (int m) = Inr ?t"
      using fetch_target_sim [OF st, of i n2] pf(2) k(1-3) by (simp add: static_def)
    then have e: "vsm_write_fetch_begin n P b cpu =
        Inr (Blocked, ?n1\<lparr>waiting := (waiting ?n1)(P \<mapsto> \<lparr>wtype = WRITE_FETCH, wdata = b\<rparr>)\<rparr>)"
      using miss sp sf(3) k(2) unfolding vsm_write_fetch_begin_def Let_def sp option.case
      by (simp add: pte_owner_def n2_def [symmetric]) (auto simp: n2_def)
    have "locl c m P s i n2 WWait [] = set_nd s i ((nd s i)\<lparr>ph := WWait, acc := False\<rparr>)"
    proof -
      have "abs_node n2 P WWait [] = (nd s i)\<lparr>ph := WWait, acc := False\<rparr>"
        unfolding placed_nd [OF pl] using n(2) miss e2 by (simp add: abs_node_def)
      then show ?thesis using locl_replace [of n2 n c m P s i WWait "[]" Idle "[]"] k(1) n(3) by (simp add: n2_def)
    qed
    then have "locl c m P s i ?n1 WWait [] = push (set_nd s i ((nd s i)\<lparr>ph := WWait, acc := False\<rparr>)) i (target m s i) (Req (AW i))"
      using pf(8) by (simp add: send_fetch_req_def locl_send)
    then obtain L' where "ginv m ?N (locl c m P s i ?n1 WWait []) L'"
      using pstep_ginv [OF write_fault [OF pf(1) n(4), of m] inv] miss pf(5) by auto
    moreover have "touches c m P ?n ?n1"
      by (rule touches_trans [OF k(5)], unfold send_fetch_req_def, rule send_touches) auto
    ultimately show ?thesis
      unfolding e using blocked_step [OF pl w d, of ?n1 WRITE_FETCH L' b] e2(3) k(4) by (simp add: send_fetch_req_def)
  qed
qed

section \<open>Replies\<close>

lemma reply_entry:
  "cset_below N cset \<Longrightarrow> cset_below N (s2pte_copyset (copyset_pte pa cset))"
  "cset = 0 \<Longrightarrow> \<not> pte_owner (s2pte_ro (copyset_pte pa cset))"
  "pte_accessible (s2pte_ro (copyset_pte pa cset))"
  "cset_below N cset \<Longrightarrow> entry_ok N (s2pte_ro (copyset_pte pa cset))"
  by (auto simp: cset_below_def bit_copyset bit_copyset_pte entry_ok_def pte_pred_bits pte_op_bits pte_owner_bits)

text \<open>The frame of the reply is mapped; \<open>e\<close> is the entry.\<close>

lemma set_cache_result:
  assumes "PAGE_ALIGNED P" "\<not> pte_accessible (s2 n P)"
  shows "recv_fetch_reply n P cset w (Some page) pa = Inr (set_pte (n\<lparr>frames := (frames n)(pa := page)\<rparr>) P (copyset_pte pa cset))"
  using assms by (simp add: recv_fetch_reply_def vsm_set_cache_fast_def)

lemma drain_step:
  assumes st: "site c m P" and pl: "placed c m P s i n"
    and n1: "touches c m P n n1" "lock (ptable n1 P) \<noteq> 0" "queue n1 P = queue n P" "entry_ok (nr_cluster_nodes c) (s2 n1 P)"
      "waiting n1 P = None"
    and inv: "ginv m (nr_cluster_nodes c) (locl c m P s' i n1 Drain (map abs_req (queue n P))) L"
  shows "\<exists>n'. vsm_process_waitqueue n1 P = Inr n' \<and> step_ok c m P s' i n n'"
proof -
  note pf = placed_facts [OF pl]
  have q: "\<forall>p \<in> set (queue n1 P). page_ipa p = P" using pl n1(3) by (simp add: placed_def desc_ok_def)
  have stat: "static c i n1" using n1(1) pf(2) by (auto simp: static_def touches_def)
  obtain n' L' where n': "vsm_process_waitqueue n1 P = Inr n'" "ginv m (nr_cluster_nodes c) (locl c m P s' i n' Idle []) L'"
      "touches c m P n1 n'" "released n' P" "entry_ok (nr_cluster_nodes c) (s2 n' P)" "waiting n' = waiting n1"
    using waitqueue_sim [OF st pf(1) stat n1(2,4) q, of s' L] inv n1(3) by auto
  then show ?thesis
    using released_step [OF n'(4) _ touches_trans [OF n1(1) n'(3)] n'(5,2)] n1(5) by auto
qed

lemma placed_wait:
  assumes "placed c m P s i n" "waiting n P = Some v"
  shows "ph (nd s i) = (if wtype v = READ_FETCH then RWait else WWait)" "lock (ptable n P) \<noteq> 0"
    "locl c m P (pop s j i) i n (ph (nd s i)) (map abs_req (queue n P)) = pop s j i"
proof -
  show p: "ph (nd s i) = (if wtype v = READ_FETCH then RWait else WWait)"
    using placed_facts(7) [OF assms(1)] assms(2) by (simp add: phase_of_def)
  show "lock (ptable n P) \<noteq> 0" using assms by (simp add: placed_def desc_ok_def)
  have "locl c m P s i n (phase_of n P) (map abs_req (queue n P)) = s" using assms(1) by (simp add: placed_def)
  then show "locl c m P (pop s j i) i n (ph (nd s i)) (map abs_req (queue n P)) = pop s j i"
    using locl_pop [OF placed_facts(3) [OF assms(1)], of c m P s j i i] placed_facts(7) [OF assms(1)] by simp
qed

lemma read_reply_sim:
  assumes st: "site c m P" and pl: "placed c m P s i n" and inv: "ginv m (nr_cluster_nodes c) s L"
    and ch: "ch s (j, i) = RRep # rest" "j < nr_cluster_nodes c"
  shows "\<exists>r n'. reply_arrives n P 0 False (Some page) pa cpu = Inr (r, n') \<and> step_ok c m P (pop s j i) i n n'"
proof -
  let ?N = "nr_cluster_nodes c" and ?s = "pop s j i" and ?q = "map abs_req (queue n P)" and ?e = "copyset_pte pa 0"
  note pf = placed_facts [OF pl]
  obtain t L' where t: "(if ph (nd s i) = RWait \<and> \<not> acc (nd s i)
      then Some (set_nd ?s i ((nd s i)\<lparr>ph := Drain, acc := True\<rparr>)) else None) = Some t" "ginv m ?N t L'"
    using pstep_ginv [OF read_reply [OF pf(1) ch(2,1)] inv] by blast
  then have a: "ph (nd s i) = RWait" "\<not> pte_accessible (s2 n P)" "t = set_nd ?s i ((nd s i)\<lparr>ph := Drain, acc := True\<rparr>)"
    using pf(6) by (auto split: if_splits)
  then obtain v where v: "waiting n P = Some v" "wtype v = READ_FETCH"
    using pf(7) by (auto simp: phase_of_def split: option.splits if_splits)
  let ?n0 = "n\<lparr>waiting := (waiting n)(P := None)\<rparr>"
  let ?n1 = "set_pte (read_frame (set_pte (?n0\<lparr>frames := (frames ?n0)(pa := page)\<rparr>) P ?e) (PTE_PA ?e) (wdata v)) P (s2pte_ro ?e)"
  have e: "reply_arrives n P 0 False (Some page) pa cpu = bind_res (vsm_process_waitqueue ?n1 P) (\<lambda>n2. Inr (PTE_PA ?e, n2))"
    using v a(2) site_facts(3) [OF st] set_cache_result [of P ?n0 0 False page pa]
    by (simp add: reply_arrives_def vsm_read_fetch_finish_def Let_def copyset_pte_props)
  have "abs_node ?n1 P Drain ?q = (nd s i)\<lparr>ph := Drain, acc := True\<rparr>"
    unfolding placed_nd [OF pl] using reply_entry(2,3) [where cset = 0 and pa = pa] a(2) entry_ops(3) by (auto simp: abs_node_def)
  then have "t = locl c m P ?s i ?n1 Drain ?q"
    using locl_replace [of ?n1 n c m P ?s i Drain ?q "ph (nd s i)" ?q] placed_wait(3) [OF pl v(1), of j] a(3) by simp
  moreover have "touches c m P n ?n1" by (simp add: touches_def)
  moreover have "queue ?n1 P = queue n P" by (rule queue_cong) simp
  ultimately obtain n' where "vsm_process_waitqueue ?n1 P = Inr n'" "step_ok c m P ?s i n n'"
    using drain_step [OF st pl, of ?n1 ?s L'] placed_wait(2) [OF pl v(1)] reply_entry(4) [of ?N 0 pa] t(2)
    by (auto simp: cset_below_def)
  then show ?thesis using e by simp
qed

lemma write_reply_sim:
  assumes st: "site c m P" and pl: "placed c m P s i n" and inv: "ginv m (nr_cluster_nodes c) s L"
    and ch: "ch s (j, i) = WRep # rest" "j < nr_cluster_nodes c" and cs: "cset_below (nr_cluster_nodes c) cset"
  shows "\<exists>r n'. reply_arrives n P cset True (Some page) pa cpu = Inr (r, n') \<and> step_ok c m P (pop s j i) i n n'"
proof -
  let ?N = "nr_cluster_nodes c" and ?s = "pop s j i" and ?q = "map abs_req (queue n P)" and ?e = "copyset_pte pa cset"
  let ?c = "s2pte_clear_copyset ?e"
  note pf = placed_facts [OF pl]
  obtain t L' where t: "(if ph (nd s i) = WWait \<and> \<not> acc (nd s i)
      then Some (set_nd ?s i ((nd s i)\<lparr>ph := Drain, acc := True, own := True\<rparr>)) else None) = Some t" "ginv m ?N t L'"
    using pstep_ginv [OF write_reply [OF pf(1) ch(2,1)] inv] by blast
  then have a: "ph (nd s i) = WWait" "\<not> pte_accessible (s2 n P)" "t = set_nd ?s i ((nd s i)\<lparr>ph := Drain, acc := True, own := True\<rparr>)"
    using pf(6) by (auto split: if_splits)
  then obtain v where v: "waiting n P = Some v" "wtype v \<noteq> READ_FETCH"
    using pf(7) by (auto simp: phase_of_def split: option.splits if_splits)
  let ?n0 = "n\<lparr>waiting := (waiting n)(P := None)\<rparr>"
  let ?n1 = "set_pte (?n0\<lparr>frames := (frames ?n0)(pa := page)\<rparr>) P ?e"
  let ?i = "vsm_invalidate ?n1 P (s2pte_copyset ?e) cpu"
  let ?n2 = "set_pte (write_frame (set_pte ?i P ?c) (PTE_PA ?c) (wdata v)) P (s2pte_rw ?c)"
  have e: "reply_arrives n P cset True (Some page) pa cpu = bind_res (vsm_process_waitqueue ?n2 P) (\<lambda>n3. Inr (PTE_PA ?c, n3))"
    using v a(2) site_facts(3) [OF st] set_cache_result [of P ?n0 cset True page pa]
    by (simp add: reply_arrives_def vsm_write_fetch_finish_def page_acquired_def Let_def copyset_pte_props)
  have rw: "pte_owner (s2pte_rw ?c)" "pte_accessible (s2pte_rw ?c)"
    using rw_entry(1) [of ?e] entry_ops(3) by (auto simp: copyset_pte_props)
  let ?b = "set_pte n P (s2pte_rw ?c)"
  have "abs_node ?b P Drain ?q = (nd s i)\<lparr>ph := Drain, acc := True, own := True\<rparr>"
    unfolding placed_nd [OF pl] using rw by (simp add: abs_node_def)
  then have tb: "t = locl c m P ?s i ?b Drain ?q"
    using locl_replace [of ?b n c m P ?s i Drain ?q "ph (nd s i)" ?q] placed_wait(3) [OF pl v(1), of j] a(3) by simp
  have "ginv m ?N (locl c m P ?s i ?n2 Drain ?q) L'"
    by (rule invalidate_sim [of m c P ?s i ?b Drain ?q L' _ _ ?n1]) (use t(2) tb pf(1) reply_entry(1) [OF cs] in simp_all)
  moreover have "touches c m P n ?n1" by (simp add: touches_def)
  then have "touches c m P n ?n2"
    by (rule touches_trans [OF touches_trans [OF touches_trans [OF touches_trans [OF _ invalidate_touches] touches_pte] touches_write] touches_pte])
  moreover have "queue ?n2 P = queue n P" by (rule queue_cong) simp
  ultimately obtain n' where "vsm_process_waitqueue ?n2 P = Inr n'" "step_ok c m P ?s i n n'"
    using drain_step [OF st pl, of ?n2 ?s L'] placed_wait(2) [OF pl v(1)] rw_entry(2) [of ?N ?e] by auto
  then show ?thesis using e by simp
qed

section \<open>The invariant of the cluster\<close>

definition node_wf :: "cluster_state \<Rightarrow> nat \<Rightarrow> vnode \<Rightarrow> bool" where
  "node_wf c i n \<longleftrightarrow> static c i n \<and> sent n = [] \<and>
     (\<forall>m P. site c m P \<longrightarrow> desc_ok n P \<and> entry_ok (nr_cluster_nodes c) (s2 n P))"

definition vbase :: "cluster_state \<Rightarrow> vnet \<Rightarrow> bool" where
  "vbase c s \<longleftrightarrow> vsm_cluster c \<and> (\<forall>i < nr_cluster_nodes c. node_wf c i (vn s i)) \<and>
     (\<forall>p. \<forall>x \<in> set (net s p). msg_wf (nr_cluster_nodes c) x \<and> (\<exists>m. site c m (hdr_page (payload x))))"

definition vinv :: "cluster_state \<Rightarrow> vnet \<Rightarrow> bool" where
  "vinv c s \<longleftrightarrow> vbase c s \<and> (\<forall>m P. site c m P \<longrightarrow> (\<exists>L. ginv m (nr_cluster_nodes c) (vabs c m P s) L))"

lemma vabs_placed:
  assumes "vbase c s" "site c m P" "i < nr_cluster_nodes c"
  shows "placed c m P (vabs c m P s) i (vn s i)"
proof -
  have n: "node_wf c i (vn s i)" using assms(1,3) by (simp add: vbase_def)
  then have "locl c m P (vabs c m P s) i (vn s i) (phase_of (vn s i) P) (map abs_req (queue (vn s i) P)) = vabs c m P s"
    using assms(3) by (auto simp: locl_def vabs_def node_wf_def fun_eq_iff cong: if_cong)
  then show ?thesis using n assms(2,3) by (auto simp: placed_def node_wf_def)
qed

lemma vabs_commit:
  assumes "i < nr_cluster_nodes c"
  shows "vabs c m P (commit s i n) = locl c m P (vabs c m P s) i n (phase_of n P) (map abs_req (queue n P))"
  using assms by (auto simp: vabs_def locl_def commit_def fun_eq_iff abs_node_def phase_of_def queue_def)

lemma vabs_pop:
  assumes "net s (j, i) = x # xs"
  shows "vabs c m P (s\<lparr>net := (net s)((j, i) := xs)\<rparr>) =
    (if hdr_page (payload x) = P then pop (vabs c m P s) j i else vabs c m P s)"
  using assms by (auto simp: vabs_def pop_def fun_eq_iff)

lemma page_div_less:
  fixes p k b :: nat
  assumes "p < k" "b \<le> 4096 * p"
  shows "(4096 * p - b) div 4096 < (4096 * k - b) div 4096"
proof -
  have "(4096 * p - b) + 4096 \<le> 4096 * k - b" using assms by linarith
  then have "((4096 * p - b) + 4096) div 4096 \<le> (4096 * k - b) div 4096" by (rule div_le_mono)
  then show ?thesis by simp
qed

lemma page_idx_inj:
  assumes "site c m P" "site c m Q" "page_idx c m P = page_idx c m Q"
  shows "P = Q"
proof -
  let ?r = "cmem (cluster c ! m)"
  define b where "b = unat (mstart ?r)"
  obtain p k where pq: "unat P = 4096 * p" "unat Q = 4096 * k"
    using site_facts(3) [OF assms(1)] site_facts(3) [OF assms(2)] by (auto simp: page_aligned_unat elim!: dvdE)
  have "unat (P - mstart ?r) = 4096 * p - b" "b \<le> 4096 * p" "unat (Q - mstart ?r) = 4096 * k - b" "b \<le> 4096 * k"
    using memrange_offset [OF site_facts(5) [OF assms(1)]] memrange_offset [OF site_facts(5) [OF assms(2)]] pq by (simp_all add: b_def)
  then have "(4096 * p - b) div 4096 = (4096 * k - b) div 4096" "b \<le> 4096 * p" "b \<le> 4096 * k"
    using assms(3) by (simp_all add: page_idx_def drop_bit_eq_div unat_div)
  then have "p = k" using page_div_less [of p k b] page_div_less [of k p b] by (cases p k rule: linorder_cases) auto
  then show ?thesis using pq by (simp add: word_unat_eq_iff)
qed

lemma other_page:
  assumes "site c m P" "site c k Q" "P \<noteq> Q" "touches c m P (vn s i) n" "static c i (vn s i)" "sent (vn s i) = []" "i < nr_cluster_nodes c"
  shows "vabs c k Q (commit s i n) = vabs c k Q s"
proof -
  have t: "s2 n Q = s2 (vn s i) Q" "ptable n Q = ptable (vn s i) Q" "waiting n Q = waiting (vn s i) Q"
    using assms(3,4) by (auto simp: touches_def)
  have "page_idx c m Q \<noteq> page_idx c m P" if "k = m" using page_idx_inj [of c m Q P] that assms(1-3) by auto
  then have mo: "i = k \<Longrightarrow> manager n (page_idx c k Q) = manager (vn s k) (page_idx c k Q)"
    using assms(4,5) unfolding touches_def static_def by metis
  have "\<forall>x \<in> set (sent n). hdr_page (payload x) \<noteq> Q" using assms(3,4,6) by (auto simp: touches_def)
  then have sent: "page_msgs Q (filter (\<lambda>x. dst_id x = b) (sent n)) = []" for b by (auto simp: page_msgs_def filter_empty_conv)
  show ?thesis
    using t mo sent assms(7) by (auto simp: vabs_def commit_def fun_eq_iff abs_node_def phase_of_def queue_def)
qed

lemma commit_inv:
  assumes base: "vbase c s" and st: "site c m P" and i: "i < nr_cluster_nodes c"
    and other: "\<And>k Q. site c k Q \<Longrightarrow> Q \<noteq> P \<Longrightarrow> \<exists>L. ginv k (nr_cluster_nodes c) (vabs c k Q s) L"
    and ok: "step_ok c m P (vabs c m P s) i (vn s i) n"
  shows "vinv c (commit s i n)"
proof -
  let ?N = "nr_cluster_nodes c"
  have t: "touches c m P (vn s i) n" and n: "desc_ok n P" "entry_ok ?N (s2 n P)"
    and inv: "\<exists>L. ginv m ?N (locl c m P (vabs c m P s) i n (phase_of n P) (map abs_req (queue n P))) L"
    using ok by (auto simp: step_ok_def)
  have wf: "node_wf c i (vn s i)" using base i by (simp add: vbase_def)
  have page: "desc_ok n Q \<and> entry_ok ?N (s2 n Q)" if "site c k Q" for k Q
  proof (cases "Q = P")
    case False
    then have "s2 n Q = s2 (vn s i) Q" "ptable n Q = ptable (vn s i) Q" "waiting n Q = waiting (vn s i) Q"
      using t by (auto simp: touches_def)
    moreover have "queue n Q = queue (vn s i) Q" by (rule queue_cong) (rule calculation(2))
    ultimately show ?thesis using wf that by (simp add: node_wf_def desc_ok_def)
  qed (use n in simp)
  have q: "desc_ok (n\<lparr>sent := []\<rparr>) Q = desc_ok n Q" for Q by (simp add: desc_ok_def queue_def)
  have "static c i (n\<lparr>sent := []\<rparr>)" using wf t by (auto simp: node_wf_def static_def touches_def)
  then have "node_wf c i (n\<lparr>sent := []\<rparr>)" using page q by (auto simp: node_wf_def)
  moreover have "\<forall>x \<in> set (sent n). msg_wf ?N x \<and> site c m (hdr_page (payload x))"
    using t wf st by (auto simp: touches_def node_wf_def)
  ultimately have b: "vbase c (commit s i n)"
    using base by (auto simp: vbase_def commit_def)
  have "\<exists>L. ginv k ?N (vabs c k Q (commit s i n)) L" if kq: "site c k Q" for k Q
  proof (cases "Q = P")
    case True
    then have "k = m" using kq st by (simp add: site_def)
    then show ?thesis using True inv vabs_commit [OF i] by simp
  next
    case False
    then show ?thesis
      using other [OF kq False] other_page [OF st kq _ t _ _ i] wf by (simp add: node_wf_def)
  qed
  then show ?thesis using b by (simp add: vinv_def)
qed

section \<open>Every step\<close>

lemma commit_same: "sent (vn s i) = [] \<Longrightarrow> commit s i (vn s i) = s"
proof -
  assume e: "sent (vn s i) = []"
  then have "(vn s i)\<lparr>sent := []\<rparr> = vn s i" by (cases "vn s i") simp
  then have "(vn s)(i := (vn s i)\<lparr>sent := []\<rparr>) = vn s" by (simp only: fun_upd_triv)
  then show ?thesis using e unfolding commit_def by (simp del: fun_upd_apply cong: if_cong)
qed

lemma fault_inv:
  assumes inv: "vinv c s" and en: "enabled_in (nr_cluster_nodes c) (Fault i wr P d cpu) s"
  shows "\<exists>s'. vstep (Fault i wr P d cpu) s = Inr s' \<and> vinv c s'"
proof -
  let ?n = "vn s i"
  have i: "i < nr_cluster_nodes c" "cpu < 8" "PAGE_ALIGNED P" "lock (ptable ?n P) = 0"
    using en by (auto simp: page_locked_def)
  have base: "vbase c s" and wf: "node_wf c i ?n" and ci: "vsm_cluster c" using inv i(1) by (auto simp: vinv_def vbase_def)
  consider "page_manager c P = -1" | m where "page_manager c P = int m"
    using page_manager_spec(3) [of c P] ci by (auto simp: vsm_cluster_def)
  then show ?thesis
  proof cases
    case 1
    then have "vsm_write_fetch_begin ?n P d cpu = Inr (NoPage, ?n)" "vsm_read_fetch_begin ?n P d cpu = Inr (NoPage, ?n)"
      using wf by (auto simp: vsm_write_fetch_begin_def vsm_read_fetch_begin_def node_wf_def static_def)
    then show ?thesis using inv commit_same [of s i] wf by (simp add: run_on_def node_wf_def)
  next
    case 2
    then have st: "site c m P" using ci i(3) by (simp add: site_def)
    obtain L where L: "ginv m (nr_cluster_nodes c) (vabs c m P s) L" using inv st by (auto simp: vinv_def)
    note pl = vabs_placed [OF base st i(1)]
    have w: "waiting ?n P = None" using pl i(4) by (auto simp: placed_def desc_ok_def split: if_splits)
    obtain r n' where n': "(if wr then vsm_write_fetch_begin ?n P d cpu else vsm_read_fetch_begin ?n P d cpu) = Inr (r, n')"
        "step_ok c m P (vabs c m P s) i ?n n'"
      using read_fault_sim [OF st pl w i(2) L, of d] write_fault_sim [OF st pl w i(2) L, of d] by (cases wr) auto
    have "vinv c (commit s i n')"
      by (rule commit_inv [OF base st i(1) _ n'(2)]) (use inv in \<open>auto simp: vinv_def\<close>)
    then show ?thesis using n'(1) by (simp add: run_on_def)
  qed
qed

lemma deliver_step:
  assumes base: "vbase c s" and st: "site c m P" and ij: "i < nr_cluster_nodes c" "j < nr_cluster_nodes c" "cpu < 8"
    and L: "ginv m (nr_cluster_nodes c) (vabs c m P s) L"
    and x: "net s (j, i) = x # xs" "hdr_page (payload x) = P"
  shows "\<exists>n'. handle_msg (vn s i) x pa cpu spurious = Inr n' \<and> step_ok c m P (pop (vabs c m P s) j i) i (vn s i) n'"
proof -
  let ?s = "vabs c m P s" and ?n = "vn s i"
  note pl = vabs_placed [OF base st ij(1)]
  have wf: "msg_wf (nr_cluster_nodes c) x" using base x(1) unfolding vbase_def by (metis list.set_intros(1))
  have ch: "ch ?s (j, i) = abs_hdr (payload x) # page_msgs P xs" using x by (simp add: vabs_def)
  have recv: "\<exists>n'. recv_proc ?n p cpu spurious = Inr n' \<and> step_ok c m P (pop ?s j i) i ?n n'"
    if "page_ipa p = P" "Req (abs_req p) = abs_hdr (payload x)" for p
    using recv_idle_sim [OF st pl _ ij(3) that(1) L _ ij(2)] recv_locked_sim [OF pl _ that(1) L _ ij(2)] ch that(2)
    by (cases "waiting ?n P = None") auto
  show ?thesis
  proof (cases "payload x")
    case (FetchReq ipa r t)
    then show ?thesis
      using recv [of "new_vsm_server_proc ipa r t (msg_cpu x)"] x(2)
      by (auto simp: handle_msg_def recv_fetch_request_intr_def new_vsm_server_proc_def abs_req_def)
  next
    case (Invalidate ipa cset sender)
    then show ?thesis
      using recv [of "new_vsm_inv_server_proc ipa sender cset"] x(2)
      by (auto simp: handle_msg_def recv_invalidate_intr_def new_vsm_inv_server_proc_def abs_req_def)
  next
    case (FetchReply ipa cset w)
    then obtain page where m: "cset_below (nr_cluster_nodes c) cset" "w \<or> cset = 0" "body x = Some page" "ipa = P"
      using wf x(2) by (auto simp: msg_wf_def)
    have "\<exists>r n'. reply_arrives ?n P cset w (Some page) pa cpu = Inr (r, n') \<and> step_ok c m P (pop ?s j i) i ?n n'"
    proof (cases w)
      case True
      then show ?thesis using write_reply_sim [OF st pl L _ ij(2) m(1)] ch FetchReply by simp
    next
      case False
      then show ?thesis using read_reply_sim [OF st pl L _ ij(2)] ch FetchReply m(2) by simp
    qed
    then show ?thesis using FetchReply m(3,4) by (auto simp: handle_msg_def)
  qed
qed

lemma deliver_inv:
  assumes inv: "vinv c s" and en: "enabled_in (nr_cluster_nodes c) (Deliver j i pa cpu spurious) s"
  shows "\<exists>s'. vstep (Deliver j i pa cpu spurious) s = Inr s' \<and> vinv c s'"
proof (cases "net s (j, i)")
  case Nil
  then show ?thesis using inv by simp
next
  case (Cons x xs)
  let ?s = "s\<lparr>net := (net s)((j, i) := xs)\<rparr>" and ?P = "hdr_page (payload x)"
  have ij: "i < nr_cluster_nodes c" "j < nr_cluster_nodes c" "cpu < 8" using en by auto
  have base: "vbase c s" using inv by (simp add: vinv_def)
  have mem: "x \<in> set (net s (j, i))" using Cons by simp
  then obtain m where st: "site c m ?P" using base unfolding vbase_def by blast
  obtain L where L: "ginv m (nr_cluster_nodes c) (vabs c m ?P s) L" using inv st by (auto simp: vinv_def)
  obtain n' where n': "handle_msg (vn s i) x pa cpu spurious = Inr n'" "step_ok c m ?P (pop (vabs c m ?P s) j i) i (vn s i) n'"
    using deliver_step [OF base st ij L Cons refl] by blast
  have sub: "set (net ?s p) \<subseteq> set (net s p)" for p using Cons by auto
  have "vbase c ?s" unfolding vbase_def
  proof (intro conjI allI ballI impI)
    fix p y assume "y \<in> set (net ?s p)"
    then have "y \<in> set (net s p)" using sub by blast
    then show "msg_wf (nr_cluster_nodes c) y" "\<exists>m. site c m (hdr_page (payload y))" using base unfolding vbase_def by blast+
  qed (use base in \<open>auto simp: vbase_def\<close>)
  moreover have "step_ok c m ?P (vabs c m ?P ?s) i (vn ?s i) n'"
    using n'(2) vabs_pop [OF Cons, of c m ?P] by simp
  moreover have "\<exists>L. ginv k (nr_cluster_nodes c) (vabs c k Q ?s) L" if "site c k Q" "Q \<noteq> ?P" for k Q
    using inv that vabs_pop [OF Cons, of c k Q] by (auto simp: vinv_def)
  ultimately have "vinv c (commit ?s i n')" by (intro commit_inv [OF _ st ij(1)]) auto
  then show ?thesis using Cons n'(1) by (simp add: run_on_def)
qed

lemma vstep_inv:
  assumes "vinv c s" "enabled_in (nr_cluster_nodes c) ev s"
  shows "\<exists>s'. vstep ev s = Inr s' \<and> vinv c s'"
proof (cases ev)
  case (Fault i wr P d cpu)
  then show ?thesis using fault_inv assms by blast
next
  case (Deliver j i pa cpu spurious)
  then show ?thesis using deliver_inv assms by blast
qed

section \<open>The initial state\<close>

definition slice_entry :: "physaddr \<Rightarrow> u64" where
  "slice_entry a = PTE_PA a OR (pageflag_to_s2pte_flags (PAGE_NORMAL OR PAGE_RW) OR PTE_V OR PTE_AF)"

lemma slice_entry_bits: "bit (slice_entry a) n \<longleftrightarrow> (12 \<le> n \<and> n < 48 \<and> bit a n) \<or> n = 10 \<or> n < 8"
proof -
  have f: "pageflag_to_s2pte_flags (PAGE_NORMAL OR PAGE_RW) = S2PTE_NORMAL OR S2PTE_RW"
    by (simp add: pageflag_to_s2pte_flags_def PAGE_NORMAL_def PAGE_RW_def PAGE_RO_def PAGE_DEVICE_def PAGE_NOEXEC_def)
  have v: "bit PTE_V n \<longleftrightarrow> n < 2" by (simp add: PTE_V_def bit_numeral_u64 del: bit_numeral_word_iff)
  show ?thesis unfolding slice_entry_def f by (auto simp: bit_or_iff bit_PTE_PA pte_simps v)
qed

lemma slice_entry_ok: "pte_owner (slice_entry a)" "pte_accessible (slice_entry a)" "entry_ok N (slice_entry a)"
  by (auto simp: pte_owner_bits pte_pred_bits entry_ok_def cset_below_def bit_copyset slice_entry_bits)

lemma map_slice_result:
  "map_slice n ipa fr k = Inr n' \<Longrightarrow> unat ipa + 4096 * k < 2 ^ 64 \<Longrightarrow>
   n' = n\<lparr>s2 := s2 n'\<rparr> \<and>
   (\<forall>P. if \<exists>j < k. unat P = unat ipa + 4096 * j then \<exists>a. s2 n' P = slice_entry a else s2 n' P = s2 n P)"
proof (induction n ipa fr k rule: map_slice.induct)
  case (1 n ipa fr)
  then show ?case by simp
next
  case (2 n ipa fr k)
  let ?n = "set_pte n ipa (slice_entry (fr 0))" and ?i = "ipa + of_nat PAGESIZE"
  have r: "map_slice ?n ?i (\<lambda>i. fr (Suc i)) k = Inr n'" "fr 0 \<noteq> 0" "\<not> pte_accessible (s2 n ipa)"
    using "2.prems"(1) by (auto simp: slice_entry_def split: if_splits)
  have u: "unat ?i = unat ipa + 4096" using "2.prems"(2) by (simp add: PAGESIZE_def unat_plus_if')
  have ih: "n' = ?n\<lparr>s2 := s2 n'\<rparr>" "\<And>P. if \<exists>j < k. unat P = unat ?i + 4096 * j then \<exists>a. s2 n' P = slice_entry a else s2 n' P = s2 ?n P"
    using "2.IH" [OF r(2,3), folded slice_entry_def, OF r(1)] "2.prems"(2) u by simp_all
  have "n' = n\<lparr>s2 := s2 n'\<rparr>" using ih(1) by (simp add: set_pte_def)
  moreover have "if \<exists>j < Suc k. unat P = unat ipa + 4096 * j then \<exists>a. s2 n' P = slice_entry a else s2 n' P = s2 n P" for P
  proof (cases "\<exists>j < k. unat P = unat ?i + 4096 * j")
    case True
    then obtain j where "j < k" "unat P = unat ipa + 4096 * Suc j" using u by auto
    then show ?thesis using ih(2) [of P] True by auto
  next
    case False
    then have e: "s2 n' P = s2 ?n P" using ih(2) [of P] by simp
    show ?thesis
    proof (cases "P = ipa")
      case True
      then show ?thesis using e by auto
    next
      case ne: False
      have "\<not> (\<exists>j < Suc k. unat P = unat ipa + 4096 * j)"
      proof
        assume "\<exists>j < Suc k. unat P = unat ipa + 4096 * j"
        then obtain j where j: "j < Suc k" "unat P = unat ipa + 4096 * j" by blast
        then show False using False ne u by (cases j) (auto simp: word_unat_eq_iff)
      qed
      then show ?thesis using e ne by auto
    qed
  qed
  ultimately show ?case by blast
qed

lemma slices_end: "slices b ns e \<Longrightarrow> i < length ns \<Longrightarrow> unat (mstart (cmem (ns ! i))) + unat (msize (cmem (ns ! i))) \<le> e"
proof (induction ns arbitrary: b i)
  case (Cons n ns)
  then show ?case using slices_bounds [of "b + unat (msize (cmem n))" ns e] by (cases i) auto
qed simp

lemma slice_bound:
  assumes "vsm_cluster c" "i < nr_cluster_nodes c"
  shows "unat (mstart (cmem (cluster c ! i))) + unat (msize (cmem (cluster c ! i))) < 2 ^ 64"
proof -
  have ci: "cluster_inv c" using assms(1) by (simp add: vsm_cluster_def)
  then have "slices 0x40000000 (live_nodes c) (unat (ram_start c))" by (simp add: cluster_inv_def)
  then have "unat (mstart (cmem (live_nodes c ! i))) + unat (msize (cmem (live_nodes c ! i))) \<le> unat (ram_start c)"
    using slices_end assms(2) length_live [OF ci] by simp
  then show ?thesis using live_nth [OF ci assms(2)] unat_less_64 [of "ram_start c"] by simp
qed

text \<open>Initialisation maps exactly the pages of the slice and makes the node the owner of what it manages.\<close>

lemma node_init_result:
  assumes z: "s2 v = (\<lambda>_. 0)" and al: "PAGE_ALIGNED (mstart r)" "PAGE_ALIGNED (msize r)"
    and w: "unat (mstart r) + unat (msize r) < 2 ^ 64" and n: "vsm_node_init v r fr = Inr n" and P: "PAGE_ALIGNED P"
  shows "if in_memrange r P then \<exists>a. s2 n P = slice_entry a else s2 n P = 0"
    "n = v\<lparr>s2 := s2 n, manager := (\<lambda>k. if k < NR_MANAGER_PAGES then local_nodeid v else manager v k)\<rparr>"
proof -
  define k where "k = unat (msize r) div 4096"
  have dv: "4096 dvd unat (mstart r)" "4096 dvd unat (msize r)" using al by (simp_all add: page_aligned_unat)
  have k: "(unat (msize r) + PAGESIZE - 1) div PAGESIZE = k" "unat (msize r) = 4096 * k"
    using dv(2) by (auto simp: k_def PAGESIZE_def elim!: dvdE)
  obtain n1 where n1: "map_slice v (mstart r) fr k = Inr n1"
      "n = n1\<lparr>manager := (\<lambda>k. if k < NR_MANAGER_PAGES then local_nodeid n1 else manager n1 k)\<rparr>"
    using n unfolding vsm_node_init_def k(1) by (auto simp: bind_res_eq_Inr)
  have w': "unat (mstart r) + 4096 * k < 2 ^ 64" using w k(2) by simp
  note m = map_slice_result [OF n1(1) w']
  have f: "n1 = v\<lparr>s2 := s2 n1\<rparr>" using m by simp
  have l: "local_nodeid n1 = local_nodeid v" "manager n1 = manager v"
    using arg_cong [OF f, of local_nodeid] arg_cong [OF f, of manager] by simp_all
  let ?m = "\<lambda>k. if k < NR_MANAGER_PAGES then local_nodeid v else manager v k"
  have "n = n1\<lparr>manager := ?m\<rparr>" using n1(2) unfolding l .
  also have "\<dots> = v\<lparr>s2 := s2 n1, manager := ?m\<rparr>" by (rule arg_cong [OF f])
  also have "s2 n1 = s2 n" by (simp add: n1(2))
  finally show "n = v\<lparr>s2 := s2 n, manager := ?m\<rparr>" .
  have "in_memrange r P \<longleftrightarrow> (\<exists>j < k. unat P = unat (mstart r) + 4096 * j)"
  proof
    assume i: "in_memrange r P"
    have "4096 dvd unat P - unat (mstart r)" using dv(1) P by (simp add: page_aligned_unat)
    then obtain j where "unat P - unat (mstart r) = 4096 * j" by (rule dvdE)
    then show "\<exists>j < k. unat P = unat (mstart r) + 4096 * j" using memrange_offset(2,3) [OF i] k(2) by (intro exI [of _ j]) simp
  next
    assume "\<exists>j < k. unat P = unat (mstart r) + 4096 * j"
    then show "in_memrange r P"
      using w' k(2) by (auto simp: in_memrange_def word_le_nat_alt word_less_nat_alt unat_plus_if')
  qed
  moreover have "s2 n P = s2 n1 P" "s2 v P = 0" by (simp_all add: n1(2) z)
  ultimately show "if in_memrange r P then \<exists>a. s2 n P = slice_entry a else s2 n P = 0"
    using m by auto
qed

text \<open>A node owns exactly the pages of its slice.\<close>

lemma init_entry:
  assumes vc: "vsm_cluster c" and i: "i < nr_cluster_nodes c"
    and n: "vsm_node_init (fresh_node c i) (cmem (cluster c ! i)) fr = Inr n" and P: "PAGE_ALIGNED P"
  shows "if in_memrange (cmem (cluster c ! i)) P then \<exists>a. s2 n P = slice_entry a else s2 n P = 0"
    "n = (fresh_node c i)\<lparr>s2 := s2 n, manager := (\<lambda>k. if k < NR_MANAGER_PAGES then i else 0)\<rparr>"
proof -
  have al: "PAGE_ALIGNED (mstart (cmem (cluster c ! i)))" "PAGE_ALIGNED (msize (cmem (cluster c ! i)))"
    using vc i by (auto simp: vsm_cluster_def)
  have z: "s2 (fresh_node c i) = (\<lambda>_. 0)" "local_nodeid (fresh_node c i) = i" "manager (fresh_node c i) = (\<lambda>_. 0)"
    by (simp_all add: fresh_node_def)
  note r = node_init_result [OF z(1) al slice_bound [OF vc i] n P]
  show "if in_memrange (cmem (cluster c ! i)) P then \<exists>a. s2 n P = slice_entry a else s2 n P = 0" by (rule r(1))
  show "n = (fresh_node c i)\<lparr>s2 := s2 n, manager := (\<lambda>k. if k < NR_MANAGER_PAGES then i else 0)\<rparr>"
    using r(2) unfolding z .
qed

lemma init_inv:
  assumes vc: "vsm_cluster c" and net: "net s = (\<lambda>_. [])"
    and init: "\<And>i. i < nr_cluster_nodes c \<Longrightarrow>
      vsm_node_init (fresh_node c i) (cmem (cluster c ! i)) (fr i) = Inr (vn s i)"
  shows "vinv c s"
proof -
  let ?N = "nr_cluster_nodes c"
  have node: "local_nodeid (vn s i) = i" "clust (vn s i) = c" "sent (vn s i) = []" "waiting (vn s i) = (\<lambda>_. None)"
      "ptable (vn s i) = (\<lambda>_. \<lparr>wq = None, lock = 0, wqlock = 0\<rparr>)" "\<And>k. k < NR_MANAGER_PAGES \<Longrightarrow> manager (vn s i) k = i" if "i < ?N" for i
  proof -
    have z: "PAGE_ALIGNED 0" by (simp add: PAGE_ALIGNED_def)
    note r = init_entry(2) [OF vc that init [OF that] z]
    show "local_nodeid (vn s i) = i" "clust (vn s i) = c" "sent (vn s i) = []" "waiting (vn s i) = (\<lambda>_. None)"
      "ptable (vn s i) = (\<lambda>_. \<lparr>wq = None, lock = 0, wqlock = 0\<rparr>)"
      using arg_cong [OF r, of local_nodeid] arg_cong [OF r, of clust] arg_cong [OF r, of sent] arg_cong [OF r, of waiting]
        arg_cong [OF r, of ptable] by (simp_all add: fresh_node_def)
    show "manager (vn s i) k = i" if "k < NR_MANAGER_PAGES" for k
      using arg_cong [OF r, of "\<lambda>n. manager n k"] that by (simp add: fresh_node_def)
  qed
  have e: "if i = m then \<exists>a. s2 (vn s i) P = slice_entry a else s2 (vn s i) P = 0" if "site c m P" "i < ?N" for m P i
  proof -
    have "cluster_inv c" "page_manager c P = int m" using that(1) by (auto simp: site_def vsm_cluster_def)
    then have "in_memrange (cmem (cluster c ! i)) P \<longleftrightarrow> i = m"
      using page_manager_spec(1) [of c P i] that(2) by auto
    then show ?thesis using init_entry(1) [OF vc that(2) init [OF that(2)] site_facts(3) [OF that(1)]] by simp
  qed
  have "desc_ok (vn s i) P \<and> entry_ok ?N (s2 (vn s i) P)" if "site c m P" "i < ?N" for m P i
    using e [OF that] node [OF that(2)] slice_entry_ok(3)
    by (auto simp: desc_ok_def queue_def entry_ok_def [of _ 0] split: if_splits)
  then have "vbase c s" using vc net node by (auto simp: vbase_def node_wf_def static_def)
  moreover have "ginv m ?N (vabs c m P s) [m]" if st: "site c m P" for m P
  proof (rule ginv_start)
    show "m < ?N" by (rule site_facts(1) [OF st])
    show "own (nd (vabs c m P s) i) = (i = m)" for i
      using e [OF st, of i] slice_entry_ok(1) site_facts(1) [OF st]
      by (auto simp: vabs_def abs_node_def no_node_def pte_owner_def [of 0] split: if_splits)
    show "acc (nd (vabs c m P s) m)"
      using e [OF st, of m] slice_entry_ok(2) site_facts(1) [OF st] by (auto simp: vabs_def abs_node_def)
    show "ph (nd (vabs c m P s) i) = Idle" "qu (nd (vabs c m P s) i) = []" for i
      using node [of i] by (auto simp: vabs_def abs_node_def no_node_def phase_of_def queue_def)
    show "mo (vabs c m P s) = m"
      using node(6) [OF site_facts(1) [OF st] site_facts(6) [OF st]] by (simp add: vabs_def)
    show "ch (vabs c m P s) p = []" for p by (simp add: vabs_def net)
  qed
  ultimately show ?thesis by (auto simp: vinv_def)
qed

lemma reach_inv: "vreach c s \<Longrightarrow> vsm_cluster c \<Longrightarrow> vinv c s"
proof (induction rule: vreach.induct)
  case (start fr s)
  then show ?case by (intro init_inv) auto
next
  case (step s ev s')
  then show ?case using vstep_inv [of c s ev] by auto
qed

section \<open>Properties\<close>

text \<open>Two nodes with one page each, for the examples: the page at \<open>0x40001000\<close> belongs to node 1.\<close>

definition example_pair :: cluster_state where
  "example_pair = initial_cluster\<lparr>nr_cluster_nodes := 2, nr_cluster_vcpus := 2, node_online_map := 3, ram_start := 0x40002000,
     cluster := [zero_node\<lparr>nvcpu := 1, cmem := \<lparr>mstart = 0x40000000, msize = 0x1000\<rparr>\<rparr>,
       zero_node\<lparr>nodeid := 1, nvcpu := 1, vcpus := [1, 0, 0, 0, 0, 0, 0, 0], cmem := \<lparr>mstart = 0x40001000, msize = 0x1000\<rparr>\<rparr>]
       @ replicate 30 zero_node\<rparr>"

definition example_net :: vnet where
  "example_net = \<lparr>vn = (\<lambda>i. case vsm_node_init (fresh_node example_pair i) (cmem (cluster example_pair ! i)) (\<lambda>k. 0x10000000) of
     Inr n \<Rightarrow> n | Inl _ \<Rightarrow> fresh_node example_pair i), net = (\<lambda>_. [])\<rparr>"

lemma example_pair_fields:
  "nr_cluster_nodes example_pair = 2" "cluster example_pair ! 0 = zero_node\<lparr>nvcpu := 1, cmem := \<lparr>mstart = 0x40000000, msize = 0x1000\<rparr>\<rparr>"
  "cluster example_pair ! Suc 0 =
     zero_node\<lparr>nodeid := 1, nvcpu := 1, vcpus := [1, 0, 0, 0, 0, 0, 0, 0], cmem := \<lparr>mstart = 0x40001000, msize = 0x1000\<rparr>\<rparr>"
  "live_nodes example_pair = [cluster example_pair ! 0, cluster example_pair ! Suc 0]"
  by (simp_all add: example_pair_def live_nodes_def)

lemma two_cases: "(\<forall>i < 2. Q i) \<longleftrightarrow> Q 0 \<and> Q (Suc 0)"
  by (auto simp: less_2_cases_iff)

lemma example_pair_ok: "vsm_cluster example_pair"
proof -
  have "length (vcpus (cluster example_pair ! i)) = VCPU_PER_NODE_MAX" if "i < NODE_MAX" for i
    using that example_pair_fields(2,3)
    by (cases i rule: nat.exhaust; cases "i - 1") (auto simp: example_pair_def zero_node_def VCPU_PER_NODE_MAX_def NODE_MAX_def nth_append)
  moreover have "length (cluster example_pair) = NODE_MAX" by (simp add: example_pair_def NODE_MAX_def)
  moreover have "node_online example_pair 0" "node_online example_pair (Suc 0)"
    by (simp_all add: node_online_def example_pair_def)
  moreover have "nr_cluster_vcpus example_pair = 2" "ram_start example_pair = 0x40002000" by (simp_all add: example_pair_def)
  ultimately have "cluster_inv example_pair"
    by (simp add: cluster_inv_def example_pair_fields two_cases NODE_MAX_def vcpu_ids_def zero_node_def VCPU_PER_NODE_MAX_def upt_rec)
  then show ?thesis
    by (simp add: vsm_cluster_def example_pair_fields two_cases PAGE_ALIGNED_def PAGESIZE_def)
qed

lemma example_init:
  "i = 0 \<or> i = Suc 0 \<Longrightarrow> \<exists>n. vsm_node_init (fresh_node example_pair i) (cmem (cluster example_pair ! i)) (\<lambda>k. 0x10000000) = Inr n"
  by (auto simp: vsm_node_init_def example_pair_fields PAGESIZE_def fresh_node_def)

lemma example_net_reach: "vreach example_pair example_net"
proof (rule vreach.start)
  show "net example_net = (\<lambda>_. [])" by (simp add: example_net_def)
  fix i assume "i < nr_cluster_nodes example_pair"
  then have "i = 0 \<or> i = Suc 0" using example_pair_fields(1) by auto
  then show "vsm_node_init (fresh_node example_pair i) (cmem (cluster example_pair ! i)) (\<lambda>k. 0x10000000) = Inr (vn example_net i)"
    using example_init [of i] by (auto simp: example_net_def)
qed

lemma example_node0:
  "page_locked (vn example_net 0) P = False" "clust (vn example_net 0) = example_pair" "local_nodeid (vn example_net 0) = 0"
  "s2 (vn example_net 0) 0x40001000 = 0" "waiting (vn example_net 0) P = None"
  "page_manager example_pair 0x40001000 = 1"
proof -
  obtain n where n: "vsm_node_init (fresh_node example_pair 0) (cmem (cluster example_pair ! 0)) (\<lambda>k. 0x10000000) = Inr n"
    using example_init by blast
  then have e: "vn example_net 0 = n" by (simp add: example_net_def)
  have al: "PAGE_ALIGNED 0x40001000" by (simp add: PAGE_ALIGNED_def PAGESIZE_def)
  have z: "0 < nr_cluster_nodes example_pair" by (simp add: example_pair_fields)
  note r = init_entry [OF example_pair_ok z n al]
  show "page_locked (vn example_net 0) P = False" "clust (vn example_net 0) = example_pair" "local_nodeid (vn example_net 0) = 0"
    "waiting (vn example_net 0) P = None"
    using arg_cong [OF r(2), of ptable] arg_cong [OF r(2), of clust] arg_cong [OF r(2), of local_nodeid] arg_cong [OF r(2), of waiting]
    unfolding e page_locked_def by (simp_all add: fresh_node_def)
  show "s2 (vn example_net 0) 0x40001000 = 0"
    using r(1) unfolding e by (simp add: example_pair_fields in_memrange_def)
  show "page_manager example_pair 0x40001000 = 1"
    by (simp add: page_manager_def example_pair_fields in_memrange_def)
qed

lemma example_fault:
  "\<exists>s'. vstep (Fault 0 True 0x40001000 None 0) example_net = Inr s' \<and> waiting (vn s' 0) 0x40001000 \<noteq> None"
  by (simp add: run_on_def vsm_write_fetch_begin_def page_spinlock_def example_node0 fetch_target_def send_fetch_req_def
      commit_def PAGE_ALIGNED_def PAGESIZE_def Let_def)

lemma example_enabled: "enabled_in (nr_cluster_nodes example_pair) (Fault 0 True 0x40001000 None 0) example_net"
  by (simp add: example_pair_fields example_node0 PAGE_ALIGNED_def PAGESIZE_def)



text \<open>
  C2.  At every moment at most one node owns a page, that is, has it writable or read-only with readers
  in its copyset; a node whose copy is read-only without copyset is a reader.
\<close>

theorem vsm_single_owner:
  assumes "vsm_cluster c" and "vreach c s" and "PAGE_ALIGNED P" and "page_manager c P \<noteq> -1"
    and "i < nr_cluster_nodes c" and "j < nr_cluster_nodes c"
    and "pte_rwable (s2 (vn s i) P) \<or> pte_rdonly (s2 (vn s i) P) \<and> s2pte_copyset (s2 (vn s i) P) \<noteq> 0"
    and "pte_rwable (s2 (vn s j) P) \<or> pte_rdonly (s2 (vn s j) P) \<and> s2pte_copyset (s2 (vn s j) P) \<noteq> 0"
  shows "i = j"
proof -
  obtain m where "page_manager c P = int m"
    using page_manager_spec(3) [of c P] assms(1,4) by (auto simp: vsm_cluster_def)
  then have "site c m P" using assms(1,3) by (simp add: site_def)
  then obtain L where "ginv m (nr_cluster_nodes c) (vabs c m P s) L"
    using reach_inv [OF assms(2,1)] by (auto simp: vinv_def)
  then have "\<forall>k. own (nd (vabs c m P s) k) \<longrightarrow> k = hd L" by (simp add: ginv_def pinv_def token_ok_def)
  moreover have "own (nd (vabs c m P s) i)" "own (nd (vabs c m P s) j)"
    using assms(5-8) by (simp_all add: vabs_def abs_node_def pte_owner_def)
  ultimately show ?thesis by metis
qed

theorem vsm_single_owner_witness:
  "\<not> pte_rwable (s2 (vn example_net 0) 0x40001000) \<and> pte_owner (s2 (vn example_net 1) 0x40001000)"
proof -
  obtain n where n: "vsm_node_init (fresh_node example_pair (Suc 0)) (cmem (cluster example_pair ! Suc 0)) (\<lambda>k. 0x10000000) = Inr n"
    using example_init by blast
  then have e: "vn example_net 1 = n" by (simp add: example_net_def)
  have al: "PAGE_ALIGNED 0x40001000" by (simp add: PAGE_ALIGNED_def PAGESIZE_def)
  have z: "Suc 0 < nr_cluster_nodes example_pair" by (simp add: example_pair_fields)
  have "in_memrange (cmem (cluster example_pair ! Suc 0)) 0x40001000" by (simp add: example_pair_fields in_memrange_def)
  then have own: "pte_owner (s2 (vn example_net 1) 0x40001000)"
    using init_entry(1) [OF example_pair_ok z n al] slice_entry_ok(1) unfolding e by auto
  have pm: "page_manager example_pair 0x40001000 \<noteq> -1" by (simp add: example_node0)
  show ?thesis
    using vsm_single_owner [OF example_pair_ok example_net_reach al pm, of 0 1] own
    by (auto simp: pte_owner_def example_pair_fields)
qed





end
