(* ===== verification/Vgic.thy ===== *)
theory Vgic
  imports Gic_Drivers
begin

text \<open>
  The virtual interrupt controller, \<^verbatim>\<open>core/vgic.c\<close>: the guest's view of its interrupts as registers
  of 1, 2 or 8 bits per interrupt, injection into the running vCPU or into another one of the node
  through its ring of four slots, software-generated interrupts across the cluster, and
  initialisation.  \<open>ops\<close> is the physical chip, \<open>cpu\<close> the executing CPU; its current vCPU is the one
  with the same index.  \<^verbatim>\<open>vgic_get_irq\<close> returns a pointer into one of three arrays, here an
  \<open>irq_ref\<close>.
\<close>

section \<open>Interrupt references\<close>

datatype irq_ref = Sgi nat nat | Ppi nat nat | Spi nat

definition vgic_get_irq :: "'c machine \<Rightarrow> nat \<Rightarrow> int \<Rightarrow> irq_ref res" where
  "vgic_get_irq m v intid =
     (if is_sgi intid then Inr (Sgi v (nat intid))
      else if is_ppi intid then Inr (Ppi v (nat (intid - 16)))
      else if is_spi intid then
        if nat (intid - 32) < length (spis m) then Inr (Spi (nat (intid - 32))) else Inl (Undefined ''spis'')
      else Inl (Panic ''assert 0''))"

fun load_irq :: "'c machine \<Rightarrow> irq_ref \<Rightarrow> vgic_irq" where
  "load_irq m (Sgi v i) = sgis (lvcpus m ! v) ! i"
| "load_irq m (Ppi v i) = ppis (lvcpus m ! v) ! i"
| "load_irq m (Spi i) = spis m ! i"

fun store_irq :: "irq_ref \<Rightarrow> vgic_irq \<Rightarrow> 'c machine \<Rightarrow> 'c machine" where
  "store_irq (Sgi v i) iq m = set_vcpu v ((lvcpus m ! v)\<lparr>sgis := (sgis (lvcpus m ! v))[i := iq]\<rparr>) m"
| "store_irq (Ppi v i) iq m = set_vcpu v ((lvcpus m ! v)\<lparr>ppis := (ppis (lvcpus m ! v))[i := iq]\<rparr>) m"
| "store_irq (Spi i) iq m = m\<lparr>spis := (spis m)[i := iq]\<rparr>"

section \<open>Enabling\<close>

definition vgic_enable_irq :: "'c gic_irqchip \<Rightarrow> nat \<Rightarrow> irq_ref \<Rightarrow> 'c machine \<Rightarrow> 'c machine res" where
  "vgic_enable_irq ops cpu r m =
     (let iq = load_irq m r in
      if enabled iq then Inr m
      else
        let m1 = store_irq r (iq\<lparr>enabled := True\<rparr>) m in
        if hw iq then case irq_get (hwirq iq) of None \<Rightarrow> Inr m1 | Some k \<Rightarrow> irq_enable ops m1 cpu k
        else Inr m1)"

definition vgic_disable_irq :: "'c gic_irqchip \<Rightarrow> nat \<Rightarrow> irq_ref \<Rightarrow> 'c machine \<Rightarrow> 'c machine res" where
  "vgic_disable_irq ops cpu r m =
     (let iq = load_irq m r in
      if \<not> enabled iq then Inr m
      else
        let m1 = store_irq r (iq\<lparr>enabled := False\<rparr>) m in
        if hw iq then case irq_get (hwirq iq) of None \<Rightarrow> Inr m1 | Some k \<Rightarrow> irq_disable ops m1 cpu k
        else Inr m1)"

section \<open>Registers\<close>

text \<open>
  The loops of the register handlers: \<open>n\<close> interrupts from \<open>intid\<close> on, each read into the result or
  changed.
\<close>

definition read_irqs :: "'c machine \<Rightarrow> nat \<Rightarrow> int \<Rightarrow> nat \<Rightarrow> (nat \<Rightarrow> vgic_irq \<Rightarrow> u32 res) \<Rightarrow> u32 res" where
  "read_irqs m v intid n f =
     fold_res (\<lambda>i acc. bind_res (vgic_get_irq m v (intid + int i)) (\<lambda>r.
       bind_res (f i (load_irq m r)) (\<lambda>b. Inr (acc OR b)))) [0..<n] 0"

definition write_irqs ::
    "nat \<Rightarrow> int \<Rightarrow> nat \<Rightarrow> (nat \<Rightarrow> irq_ref \<Rightarrow> 'c machine \<Rightarrow> 'c machine res) \<Rightarrow> 'c machine \<Rightarrow> 'c machine res" where
  "write_irqs v intid n f m =
     fold_res (\<lambda>i s. bind_res (vgic_get_irq s v (intid + int i)) (\<lambda>r. f i r s)) [0..<n] m"

definition mmio_set :: "u32 res \<Rightarrow> mmio_access \<Rightarrow> mmio_access res" where
  "mmio_set r a = bind_res r (\<lambda>x. Inr (a\<lparr>mval := ucast x\<rparr>))"

definition vgic_iidr_read :: "'c machine \<Rightarrow> mmio_access \<Rightarrow> mmio_access" where
  "vgic_iidr_read m a = a\<lparr>mval := push_bit 24 0x19 OR push_bit 12 (of_nat (gversion m)) OR 0x43b\<rparr>"

definition reg32_base :: "u64 \<Rightarrow> int" where "reg32_base off = to_int (off div 4 * 32)"
definition reg16_base :: "u64 \<Rightarrow> int" where "reg16_base off = to_int (off div 4 * 16)"
definition reg4_base :: "u64 \<Rightarrow> int" where "reg4_base off = to_int (off div 4 * 4)"

definition vgic_igroup_read :: "'c machine \<Rightarrow> nat \<Rightarrow> mmio_access \<Rightarrow> u64 \<Rightarrow> mmio_access res" where
  "vgic_igroup_read m v a off =
     mmio_set (read_irqs m v (reg32_base off) 32 (\<lambda>i iq. Inr (push_bit i (of_bool (igroup iq))))) a"

definition vgic_igroup_write :: "nat \<Rightarrow> mmio_access \<Rightarrow> u64 \<Rightarrow> 'c machine \<Rightarrow> 'c machine res" where
  "vgic_igroup_write v a off m =
     (let val = ucast (mval a) :: u32 in
      write_irqs v (reg32_base off) 32
        (\<lambda>i r s. Inr (store_irq r ((load_irq s r)\<lparr>igroup := (val AND push_bit i 1 \<noteq> 0)\<rparr>) s)) m)"

definition vgic_ienable_read :: "'c machine \<Rightarrow> nat \<Rightarrow> mmio_access \<Rightarrow> u64 \<Rightarrow> mmio_access res" where
  "vgic_ienable_read m v a off =
     mmio_set (read_irqs m v (reg32_base off) 32 (\<lambda>i iq. Inr (push_bit i (of_bool (enabled iq))))) a"

definition vgic_isenable_write ::
    "'c gic_irqchip \<Rightarrow> nat \<Rightarrow> nat \<Rightarrow> mmio_access \<Rightarrow> u64 \<Rightarrow> 'c machine \<Rightarrow> 'c machine res" where
  "vgic_isenable_write ops cpu v a off m =
     (let val = ucast (mval a) :: u32 in
      write_irqs v (reg32_base off) 32
        (\<lambda>i r s. if val AND push_bit i 1 \<noteq> 0 then vgic_enable_irq ops cpu r s else Inr s) m)"

definition vgic_icenable_write ::
    "'c gic_irqchip \<Rightarrow> nat \<Rightarrow> nat \<Rightarrow> mmio_access \<Rightarrow> u64 \<Rightarrow> 'c machine \<Rightarrow> 'c machine res" where
  "vgic_icenable_write ops cpu v a off m =
     (let val = ucast (mval a) :: u32 in
      write_irqs v (reg32_base off) 32
        (\<lambda>i r s. if val AND push_bit i 1 \<noteq> 0
          then if enabled (load_irq s r) then vgic_disable_irq ops cpu r s else Inr s else Inr s) m)"

definition vgic_irq_pending :: "'c gic_irqchip \<Rightarrow> nat \<Rightarrow> 'c machine \<Rightarrow> vgic_irq \<Rightarrow> bool res" where
  "vgic_irq_pending ops cpu m iq = guest_irq_pending ops cpu (ucast (vintid iq)) (chip m)"

definition vgic_ipend_read ::
    "'c gic_irqchip \<Rightarrow> nat \<Rightarrow> 'c machine \<Rightarrow> nat \<Rightarrow> mmio_access \<Rightarrow> u64 \<Rightarrow> mmio_access res" where
  "vgic_ipend_read ops cpu m v a off =
     mmio_set (read_irqs m v (reg32_base off) 32
       (\<lambda>i iq. bind_res (vgic_irq_pending ops cpu m iq) (\<lambda>b. Inr (push_bit i (of_bool b))))) a"

definition vgic_ipriority_read :: "'c machine \<Rightarrow> nat \<Rightarrow> mmio_access \<Rightarrow> u64 \<Rightarrow> mmio_access res" where
  "vgic_ipriority_read m v a off =
     mmio_set (read_irqs m v (reg4_base off) 4 (\<lambda>i iq. Inr (push_bit (i * 8) (ucast (priority iq))))) a"

definition vgic_ipriority_write :: "nat \<Rightarrow> mmio_access \<Rightarrow> u64 \<Rightarrow> 'c machine \<Rightarrow> 'c machine res" where
  "vgic_ipriority_write v a off m =
     (let val = ucast (mval a) :: u32 in
      write_irqs v (reg4_base off) 4
        (\<lambda>i r s. Inr (store_irq r ((load_irq s r)\<lparr>priority := ucast (drop_bit (i * 8) val AND 0xff)\<rparr>) s)) m)"

definition vgic_icfg_read :: "'c machine \<Rightarrow> nat \<Rightarrow> mmio_access \<Rightarrow> u64 \<Rightarrow> mmio_access res" where
  "vgic_icfg_read m v a off =
     mmio_set (read_irqs m v (reg16_base off) 16
       (\<lambda>i iq. Inr (if cfg iq = CONFIG_EDGE then push_bit (i * 2) 2 else 0))) a"

definition vgic_icfg_write :: "nat \<Rightarrow> mmio_access \<Rightarrow> u64 \<Rightarrow> 'c machine \<Rightarrow> 'c machine res" where
  "vgic_icfg_write v a off m =
     (let val = ucast (mval a) :: u32 in
      write_irqs v (reg16_base off) 16
        (\<lambda>i r s. let c = drop_bit (i * 2) val AND 3 in
          Inr (store_irq r ((load_irq s r)\<lparr>cfg := (if drop_bit 1 c = 0 then CONFIG_LEVEL else CONFIG_EDGE)\<rparr>) s)) m)"

section \<open>Injection\<close>

definition SGI_INJECT :: int where "SGI_INJECT = 0"

definition cpu_send_inject_sgi :: "'c gic_irqchip \<Rightarrow> nat \<Rightarrow> nat \<Rightarrow> 'c machine \<Rightarrow> 'c machine res" where
  "cpu_send_inject_sgi ops cpu p m =
     bind_res (send_sgi ops cpu \<lparr>sgi_id = SGI_INJECT, targets = push_bit p 1, mode = SGI_ROUTE_TARGETS\<rparr> (chip m))
       (\<lambda>c. Inr (m\<lparr>chip := c\<rparr>))"

definition inject_now :: "'c gic_irqchip \<Rightarrow> nat \<Rightarrow> gic_pending_irq \<Rightarrow> 'c machine \<Rightarrow> 'c machine res" where
  "inject_now ops cpu p m = bind_res (inject_guest_irq ops cpu p (chip m)) (\<lambda>(_, c). Inr (m\<lparr>chip := c\<rparr>))"

definition vgic_inject_virq_local ::
    "'c gic_irqchip \<Rightarrow> nat \<Rightarrow> nat \<Rightarrow> gic_pending_irq \<Rightarrow> 'c machine \<Rightarrow> (int \<times> 'c machine) res" where
  "vgic_inject_virq_local ops cpu v p m =
     (if v = cpu then bind_res (inject_now ops cpu p m) (\<lambda>m1. Inr (0, m1))
      else
        let c = lvcpus m ! v; t = (ptail c + 1) mod 4 in
        if t \<noteq> phead c
        then
          let m1 = set_vcpu v (c\<lparr>pirqs := (pirqs c)[ptail c := Some p], ptail := t\<rparr>) m
          in bind_res (cpu_send_inject_sgi ops cpu (pcpu c) m1) (\<lambda>m2. Inr (0, m2))
        else Inl (Panic ''pending queue full''))"

definition vgic_inject_virq ::
    "'c gic_irqchip \<Rightarrow> nat \<Rightarrow> nat \<Rightarrow> int \<Rightarrow> 'c machine \<Rightarrow> (int \<times> 'c machine) res" where
  "vgic_inject_virq ops cpu v virqno m =
     bind_res (vgic_get_irq m v virqno) (\<lambda>r.
       let iq = load_irq m r in
       if \<not> enabled iq then Inr (-1, m)
       else
         let p = \<lparr>p_virq = virqno, p_pirq = (if is_sgi virqno then None else irq_get virqno),
                  p_group = of_bool (igroup iq), p_priority = uint (priority iq), p_req_cpu = uint (vreq_cpu iq)\<rparr>
         in if is_spi virqno then
              case target iq of
                None \<Rightarrow> Inl (Panic ''target?'')
              | Some t \<Rightarrow> vgic_inject_virq_local ops cpu t p m
            else vgic_inject_virq_local ops cpu v p m)"

text \<open>
  The loop of \<^verbatim>\<open>vgic_inject_pending_irqs\<close> on the current vCPU.  The ring has four slots, so from a
  well-formed ring it runs at most three times; the fuel is one more.
\<close>

fun inject_pending :: "'c gic_irqchip \<Rightarrow> nat \<Rightarrow> nat \<Rightarrow> nat \<Rightarrow> 'c machine \<Rightarrow> (nat \<times> 'c machine) res" where
  "inject_pending ops cpu 0 h m = Inl (Hang ''pending'')"
| "inject_pending ops cpu (Suc k) h m =
     (if h = ptail (lvcpus m ! cpu) then Inr (h, m)
      else case pirqs (lvcpus m ! cpu) ! h of
        None \<Rightarrow> Inl (Undefined ''pendirq'')
      | Some p \<Rightarrow> bind_res (inject_now ops cpu p m) (\<lambda>m1. inject_pending ops cpu k ((h + 1) mod 4) m1))"

definition vgic_inject_pending_irqs :: "'c gic_irqchip \<Rightarrow> nat \<Rightarrow> 'c machine \<Rightarrow> 'c machine res" where
  "vgic_inject_pending_irqs ops cpu m =
     bind_res (inject_pending ops cpu 4 (phead (lvcpus m ! cpu)) m) (\<lambda>(h, m1).
       Inr (set_vcpu cpu ((lvcpus m1 ! cpu)\<lparr>phead := h\<rparr>) m1))"

definition vgic_connect_hwirq :: "nat \<Rightarrow> int \<Rightarrow> int \<Rightarrow> 'c machine \<Rightarrow> 'c machine res" where
  "vgic_connect_hwirq cpu virq_no hwirq_no m =
     bind_res (vgic_get_irq m cpu virq_no) (\<lambda>r. Inr (store_irq r ((load_irq m r)\<lparr>hw := True, hwirq := hwirq_no\<rparr>) m))"

section \<open>Software-generated interrupts\<close>

definition recv_sgi_msg_intr :: "'c gic_irqchip \<Rightarrow> nat \<Rightarrow> int \<Rightarrow> int \<Rightarrow> 'c machine \<Rightarrow> 'c machine res" where
  "recv_sgi_msg_intr ops cpu tgt virq m =
     (case node_vcpu m tgt of
        None \<Rightarrow> Inl (Panic ''null target'')
      | Some v \<Rightarrow>
          if \<not> is_sgi virq then Inl (Panic ''invalid sgi'')
          else bind_res (vgic_inject_virq ops cpu v virq m) (\<lambda>(rc, m1).
            if rc < 0 then Inl (Panic ''sgi failed'') else Inr m1))"

definition sgi_to :: "'c gic_irqchip \<Rightarrow> nat \<Rightarrow> gic_sgi \<Rightarrow> nat \<times> nat \<Rightarrow> 'c machine \<Rightarrow> 'c machine res" where
  "sgi_to ops cpu g = (\<lambda>(nid, vid) m.
     if vid \<ge> 32 then Inl (Undefined ''1u << vcpuid'')
     else if (push_bit vid 1 :: u32) AND ucast (targets g) \<noteq> 0 then
       case node_vcpu m (int vid) of
         Some v \<Rightarrow>
           bind_res (vgic_inject_virq ops cpu v (sgi_id g) m) (\<lambda>(rc, m1).
             if rc < 0 then Inl (Panic ''sgi failed'') else Inr m1)
       | None \<Rightarrow> Inr (post m (int nid) MSG_SGI (SgiMsg (int vid) (sgi_id g)) cpu Unicast)
     else Inr m)"

definition cluster_vcpus :: "cluster_state \<Rightarrow> (nat \<times> nat) list" where
  "cluster_vcpus c = concat (map (\<lambda>n. map (\<lambda>v. (nodeid n, v)) (take (nvcpu n) (vcpus n))) (live_nodes c))"

definition vgic_emulate_sgi :: "'c gic_irqchip \<Rightarrow> nat \<Rightarrow> gic_sgi \<Rightarrow> 'c machine \<Rightarrow> (int \<times> 'c machine) res" where
  "vgic_emulate_sgi ops cpu g m =
     bind_res (fold_res (sgi_to ops cpu g) (cluster_vcpus (mclust m)) m) (\<lambda>m1. Inr (0, m1))"

section \<open>Initialisation\<close>

text \<open>
  The shared interrupts live in a block of four zeroed pages, which has room for 409 of the 40-byte
  structures; initialising more writes behind it.
\<close>

definition SPIS_CAPACITY :: nat where "SPIS_CAPACITY = 409"

definition vgic_init_spis :: "'c gic_irqchip \<Rightarrow> bool \<Rightarrow> 'c machine \<Rightarrow> 'c machine res" where
  "vgic_init_spis ops nomem m =
     (let n = int (nirqs ops (chip m)) - 32 in
      if nomem then Inl (Panic ''nomem'')
      else if n > int SPIS_CAPACITY then Inl (Undefined ''spis'')
      else Inr (m\<lparr>nspis := n, genabled := False,
        spis := map (\<lambda>i. if int i < n then zero_irq\<lparr>vintid := of_nat (32 + i)\<rparr> else zero_irq) [0..<SPIS_CAPACITY]\<rparr>))"

definition vgic_cpu_init :: "nat \<Rightarrow> 'c machine \<Rightarrow> 'c machine" where
  "vgic_cpu_init v m =
     (let c = lvcpus m ! v in
      set_vcpu v
        (c\<lparr>sgis := map (\<lambda>i. (sgis c ! i)\<lparr>vintid := of_nat i, enabled := True, cfg := CONFIG_EDGE\<rparr>) [0..<GIC_NSGI],
           ppis := map (\<lambda>i.
             let iq = (ppis c ! i)\<lparr>vintid := of_nat (i + 16), enabled := False, cfg := CONFIG_LEVEL, target := Some v\<rparr>
             in if gversion m = 2 then set_irq_targets (push_bit (vcpuid c) 1) iq
                else if gversion m = 3 then iq\<lparr>vroute := of_nat (vcpuid c)\<rparr> else iq) [0..<GIC_NPPI]\<rparr>) m)"

section \<open>Loading and storing interrupts\<close>

text \<open>The sizes of the arrays, which no operation changes.\<close>

definition shape :: "'c machine \<Rightarrow> nat \<times> (nat \<times> nat) list" where
  "shape m = (length (spis m), map (\<lambda>c. (length (sgis c), length (ppis c))) (lvcpus m))"

definition vm_ok :: "'c machine \<Rightarrow> bool" where
  "vm_ok m \<longleftrightarrow> (\<forall>c \<in> set (lvcpus m). length (sgis c) = GIC_NSGI \<and> length (ppis c) = GIC_NPPI)"

fun ref_ok :: "'c machine \<Rightarrow> irq_ref \<Rightarrow> bool" where
  "ref_ok m (Sgi v i) \<longleftrightarrow> v < length (lvcpus m) \<and> i < length (sgis (lvcpus m ! v))"
| "ref_ok m (Ppi v i) \<longleftrightarrow> v < length (lvcpus m) \<and> i < length (ppis (lvcpus m ! v))"
| "ref_ok m (Spi i) \<longleftrightarrow> i < length (spis m)"

lemma load_store: "ref_ok m r \<Longrightarrow> load_irq (store_irq r iq m) r' = (if r' = r then iq else load_irq m r')"
  by (cases r; cases r') (auto simp: nth_list_update)

lemma shape_store [simp]: "shape (store_irq r iq m) = shape m"
proof (cases r)
  case (Sgi v i)
  then show ?thesis
    by (cases "v < length (lvcpus m)")
      (auto simp: shape_def map_update list_update_beyond intro!: list_update_same_conv [THEN iffD2])
next
  case (Ppi v i)
  then show ?thesis
    by (cases "v < length (lvcpus m)")
      (auto simp: shape_def map_update list_update_beyond intro!: list_update_same_conv [THEN iffD2])
qed (simp add: shape_def)

lemma shape_lengths:
  assumes "shape m' = shape m"
  shows "length (spis m') = length (spis m)" "length (lvcpus m') = length (lvcpus m)"
    "\<And>v. v < length (lvcpus m) \<Longrightarrow> length (sgis (lvcpus m' ! v)) = length (sgis (lvcpus m ! v))"
    "\<And>v. v < length (lvcpus m) \<Longrightarrow> length (ppis (lvcpus m' ! v)) = length (ppis (lvcpus m ! v))"
proof -
  show "length (spis m') = length (spis m)" and l: "length (lvcpus m') = length (lvcpus m)"
    using assms by (auto simp: shape_def dest: map_eq_imp_length_eq)
  have "(length (sgis (lvcpus m' ! v)), length (ppis (lvcpus m' ! v))) =
      (length (sgis (lvcpus m ! v)), length (ppis (lvcpus m ! v)))" if "v < length (lvcpus m)" for v
    using assms l that unfolding shape_def by (metis (no_types, lifting) nth_map prod.inject)
  then show "\<And>v. v < length (lvcpus m) \<Longrightarrow> length (sgis (lvcpus m' ! v)) = length (sgis (lvcpus m ! v))"
    "\<And>v. v < length (lvcpus m) \<Longrightarrow> length (ppis (lvcpus m' ! v)) = length (ppis (lvcpus m ! v))" by auto
qed

lemma ref_ok_shape: "shape m' = shape m \<Longrightarrow> ref_ok m' r = ref_ok m r"
  using shape_lengths [of m' m] by (cases r) auto

lemma get_irq_shape: "shape m' = shape m \<Longrightarrow> vgic_get_irq m' v i = vgic_get_irq m v i"
  using shape_lengths(1) [of m' m] by (simp add: vgic_get_irq_def)

lemma get_irq_ok: "vm_ok m \<Longrightarrow> v < length (lvcpus m) \<Longrightarrow> vgic_get_irq m v i = Inr r \<Longrightarrow> ref_ok m r"
  by (auto simp: vgic_get_irq_def vm_ok_def intid_defs GIC_NSGI_def GIC_NPPI_def split: if_splits)

lemma get_irq_inj: "vgic_get_irq m v i = Inr r \<Longrightarrow> vgic_get_irq m v j = Inr r \<Longrightarrow> i = j"
  by (auto simp: vgic_get_irq_def intid_defs split: if_splits)

section \<open>Register loops\<close>

lemma fold_res_append: "fold_res f (xs @ ys) s = bind_res (fold_res f xs s) (fold_res f ys)"
proof (induction xs arbitrary: s)
  case (Cons x xs)
  then show ?case by (cases "f x s") simp_all
qed simp

lemma read_irqs_bits:
  assumes "\<And>i iq. f i iq = Inr (g i iq)" and "read_irqs m v b n f = Inr w"
  shows "(\<forall>i < n. \<exists>r. vgic_get_irq m v (b + int i) = Inr r) \<and>
    (\<forall>k. bit w k \<longleftrightarrow> (\<exists>i < n. \<exists>r. vgic_get_irq m v (b + int i) = Inr r \<and> bit (g i (load_irq m r)) k))"
  using assms(2)
proof (induction n arbitrary: w)
  case 0
  then show ?case by (simp add: read_irqs_def)
next
  case (Suc n)
  obtain w0 r where w0: "read_irqs m v b n f = Inr w0" and r: "vgic_get_irq m v (b + int n) = Inr r"
    and w: "w = w0 OR g n (load_irq m r)"
    using Suc.prems by (auto simp: read_irqs_def fold_res_append bind_res_eq_Inr assms(1))
  show ?case using Suc.IH [OF w0] r w by (auto simp: less_Suc_eq bit_or_iff)
qed

lemma read_irqs_ok:
  assumes "\<And>i iq. f i iq = Inr (g i iq)" and "\<And>i. i < n \<Longrightarrow> \<exists>r. vgic_get_irq m v (b + int i) = Inr r"
  shows "\<exists>w. read_irqs m v b n f = Inr w"
  using assms(2)
proof (induction n)
  case (Suc n)
  then show ?case by (force simp: read_irqs_def fold_res_append assms(1))
qed (simp add: read_irqs_def)

text \<open>
  A loop whose body changes only the interrupt it is given: every interrupt of the register is
  changed by \<open>g\<close>, all others are as before.
\<close>

lemma write_irqs_effect:
  assumes step: "\<And>i r s s'. f i r s = Inr s' \<Longrightarrow> ref_ok s r \<Longrightarrow>
      shape s' = shape s \<and> (\<forall>r'. load_irq s' r' = (if r' = r then g i (load_irq s r) else load_irq s r'))"
    and ok: "vm_ok m" "v < length (lvcpus m)" and w: "write_irqs v b n f m = Inr m'"
  shows "shape m' = shape m \<and>
    (\<forall>i < n. \<exists>r. vgic_get_irq m v (b + int i) = Inr r \<and> load_irq m' r = g i (load_irq m r)) \<and>
    (\<forall>r'. (\<forall>i < n. vgic_get_irq m v (b + int i) \<noteq> Inr r') \<longrightarrow> load_irq m' r' = load_irq m r')"
  using w
proof (induction n arbitrary: m')
  case 0
  then show ?case by (simp add: write_irqs_def)
next
  case (Suc n)
  obtain s r where s: "write_irqs v b n f m = Inr s" and r: "vgic_get_irq s v (b + int n) = Inr r"
    and m': "f n r s = Inr m'"
    using Suc.prems by (auto simp: write_irqs_def fold_res_append bind_res_eq_Inr)
  note ih = Suc.IH [OF s]
  have rm: "vgic_get_irq m v (b + int n) = Inr r" using r get_irq_shape ih by metis
  have "ref_ok s r" using get_irq_ok [OF ok rm] ref_ok_shape ih by metis
  note st = step [OF m' this]
  have new: "load_irq s r = load_irq m r"
  proof -
    have "vgic_get_irq m v (b + int i) \<noteq> Inr r" if "i < n" for i
      using get_irq_inj [OF rm, of "b + int i"] that by auto
    then show ?thesis using ih by blast
  qed
  show ?case
  proof (intro conjI allI impI)
    show "shape m' = shape m" using st ih by simp
    fix i assume i: "i < Suc n"
    show "\<exists>r. vgic_get_irq m v (b + int i) = Inr r \<and> load_irq m' r = g i (load_irq m r)"
    proof (cases "i = n")
      case True
      then show ?thesis using rm st new by auto
    next
      case False
      then have "i < n" using i by simp
      then obtain r' where r': "vgic_get_irq m v (b + int i) = Inr r'" "load_irq s r' = g i (load_irq m r')"
        using ih by blast
      then have "r' \<noteq> r" using get_irq_inj [of m v "b + int i" r' "b + int n"] rm False by auto
      then show ?thesis using r' st by auto
    qed
  next
    fix r' assume "\<forall>i < Suc n. vgic_get_irq m v (b + int i) \<noteq> Inr r'"
    then show "load_irq m' r' = load_irq m r'" using ih st rm by (metis less_Suc_eq)
  qed
qed

text \<open>The interrupts of a register as a bit field of one bit each.\<close>

lemma test_bit: "((val :: u32) AND push_bit i 1 \<noteq> 0) = (i < 32 \<and> bit val i)"
proof (cases "i < 32")
  case True
  have "val AND push_bit i 1 = (if bit val i then push_bit i 1 else 0)"
    by (rule bit_word_eqI)
      (auto simp only: bit_and_iff bit_push_one bit_0_eq bot_apply bot_bool_def split: if_splits)
  moreover have "bit (push_bit i (1 :: u32)) i" using True by (simp only: bit_push_one) simp
  then have "push_bit i (1 :: u32) \<noteq> 0" by (rule bit_nonzero)
  ultimately show ?thesis using True by simp
next
  case False
  then have "push_bit i (1 :: u32) = 0" by (intro bit_word_eqI) (simp only: bit_push_one, auto)
  then show ?thesis using False by (simp only:) simp
qed

lemma push_of_bool_bit: "bit (push_bit i (of_bool b :: u32)) k \<longleftrightarrow> b \<and> k = i \<and> i < 32"
  by (cases b) (auto simp only: of_bool_eq bit_push_one push_bit_of_0 bit_0_eq bot_apply bot_bool_def, simp_all)

lemma read_flags:
  assumes "read_irqs m v b 32 (\<lambda>i iq. Inr (push_bit i (of_bool (fl iq)))) = Inr w" and "i < 32"
  shows "\<exists>r. vgic_get_irq m v (b + int i) = Inr r \<and> bit w i = fl (load_irq m r)"
proof -
  note rb = read_irqs_bits [where g = "\<lambda>i iq. push_bit i (of_bool (fl iq))", OF refl assms(1)]
  obtain r where r: "vgic_get_irq m v (b + int i) = Inr r" using rb assms(2) by blast
  then have "bit w i = fl (load_irq m r)" using rb assms(2) by (auto simp: push_of_bool_bit)
  then show ?thesis using r by blast
qed

lemma flags_roundtrip:
  assumes sh: "shape m' = shape m"
    and w: "\<And>i. i < 32 \<Longrightarrow> \<exists>r. vgic_get_irq m v (b + int i) = Inr r \<and> fl (load_irq m' r) = bit w i"
  shows "read_irqs m' v b 32 (\<lambda>i iq. Inr (push_bit i (of_bool (fl iq)))) = Inr w"
proof -
  have g: "vgic_get_irq m' v j = vgic_get_irq m v j" for j using get_irq_shape [OF sh] .
  obtain w' where w': "read_irqs m' v b 32 (\<lambda>i iq. Inr (push_bit i (of_bool (fl iq)))) = Inr w'"
    using read_irqs_ok [where g = "\<lambda>i iq. push_bit i (of_bool (fl iq))", OF refl, of 32 m' v b] w g by metis
  have "w' = w"
  proof (rule bit_word_eqI)
    fix i assume "i < LENGTH(32)"
    then have i: "i < 32" by simp
    obtain r where "vgic_get_irq m' v (b + int i) = Inr r" "bit w' i = fl (load_irq m' r)"
      using read_flags [OF w' i] by blast
    then show "bit w' i = bit w i" using w [OF i] g by auto
  qed
  then show ?thesis using w' by simp
qed

lemma load_chip [simp]: "load_irq (m\<lparr>chip := c\<rparr>) r = load_irq m r" "load_irq (m\<lparr>irqlist := q1\<rparr>) r = load_irq m r"
  by (cases r; simp)+

lemma shape_chip [simp]: "shape (m\<lparr>chip := c\<rparr>) = shape m" "shape (m\<lparr>irqlist := q1\<rparr>) = shape m"
  by (simp_all add: shape_def)

lemma irq_count_frame:
  "irq_enable ops m cpu k = Inr m' \<Longrightarrow> shape m' = shape m \<and> load_irq m' = load_irq m"
  "irq_disable ops m cpu k = Inr m' \<Longrightarrow> shape m' = shape m \<and> load_irq m' = load_irq m"
  by (auto simp: irq_enable_def irq_disable_def upd_irq_def Let_def bind_res_eq_Inr fun_eq_iff split: if_splits)

lemma vgic_enable_irq_effect:
  assumes "vgic_enable_irq ops cpu r s = Inr s'" and "ref_ok s r"
  shows "shape s' = shape s \<and>
    (\<forall>r'. load_irq s' r' = (if r' = r then (load_irq s r)\<lparr>enabled := True\<rparr> else load_irq s r'))"
proof (cases "enabled (load_irq s r)")
  case True
  then show ?thesis using assms(1) by (simp add: vgic_enable_irq_def)
next
  case False
  let ?s = "store_irq r ((load_irq s r)\<lparr>enabled := True\<rparr>) s"
  have "s' = ?s \<or> (\<exists>k. irq_enable ops ?s cpu k = Inr s')"
    using assms(1) False by (auto simp: vgic_enable_irq_def Let_def split: if_splits option.splits)
  then have "shape s' = shape ?s \<and> load_irq s' = load_irq ?s" using irq_count_frame(1) by blast
  then show ?thesis using load_store [OF assms(2)] by simp
qed

lemma vgic_disable_irq_effect:
  assumes "vgic_disable_irq ops cpu r s = Inr s'" and "ref_ok s r"
  shows "shape s' = shape s \<and>
    (\<forall>r'. load_irq s' r' = (if r' = r then (load_irq s r)\<lparr>enabled := False\<rparr> else load_irq s r'))"
proof (cases "enabled (load_irq s r)")
  case False
  then show ?thesis using assms(1) by (simp add: vgic_disable_irq_def)
next
  case True
  let ?s = "store_irq r ((load_irq s r)\<lparr>enabled := False\<rparr>) s"
  have "s' = ?s \<or> (\<exists>k. irq_disable ops ?s cpu k = Inr s')"
    using assms(1) True by (auto simp: vgic_disable_irq_def Let_def split: if_splits option.splits)
  then have "shape s' = shape ?s \<and> load_irq s' = load_irq ?s" using irq_count_frame(2) by blast
  then show ?thesis using load_store [OF assms(2)] by simp
qed

lemma mmio_set_Inr: "mmio_set x a = Inr b \<longleftrightarrow> (\<exists>w. x = Inr w \<and> b = a\<lparr>mval := ucast w\<rparr>)"
  by (auto simp: mmio_set_def bind_res_eq_Inr)

lemma flags_change:
  assumes "read_irqs m v b 32 (\<lambda>i iq. Inr (push_bit i (of_bool (fl iq)))) = Inr w" and "shape m' = shape m"
    and "\<And>i. i < 32 \<Longrightarrow> \<exists>r. vgic_get_irq m v (b + int i) = Inr r \<and> fl (load_irq m' r) = h i (fl (load_irq m r))"
    and "\<And>i. i < 32 \<Longrightarrow> bit w' i = h i (bit w i)"
  shows "read_irqs m' v b 32 (\<lambda>i iq. Inr (push_bit i (of_bool (fl iq)))) = Inr w'"
proof (rule flags_roundtrip [OF assms(2)])
  fix i :: nat assume i: "i < 32"
  obtain r where r: "vgic_get_irq m v (b + int i) = Inr r" "bit w i = fl (load_irq m r)"
    using read_flags [OF assms(1) i] by blast
  then show "\<exists>r. vgic_get_irq m v (b + int i) = Inr r \<and> fl (load_irq m' r) = bit w' i"
    using assms(3) [OF i] assms(4) [OF i] by auto
qed

lemma isenable_effect:
  assumes ok: "vm_ok m" "v < length (lvcpus m)" and w: "vgic_isenable_write ops cpu v a off m = Inr m'"
  shows "shape m' = shape m \<and>
    (\<forall>i < 32. \<exists>r. vgic_get_irq m v (reg32_base off + int i) = Inr r \<and>
       load_irq m' r = (if i < 32 \<and> bit (ucast (mval a) :: u32) i then (load_irq m r)\<lparr>enabled := True\<rparr> else load_irq m r)) \<and>
    (\<forall>r'. (\<forall>i < 32. vgic_get_irq m v (reg32_base off + int i) \<noteq> Inr r') \<longrightarrow> load_irq m' r' = load_irq m r')"
proof (rule write_irqs_effect [OF _ ok w [unfolded vgic_isenable_write_def Let_def test_bit]], goal_cases)
  case (1 i r s s')
  then show ?case using vgic_enable_irq_effect [of ops cpu r s s'] by (auto split: if_splits)
qed

lemma icenable_effect:
  assumes ok: "vm_ok m" "v < length (lvcpus m)" and w: "vgic_icenable_write ops cpu v a off m = Inr m'"
  shows "shape m' = shape m \<and>
    (\<forall>i < 32. \<exists>r. vgic_get_irq m v (reg32_base off + int i) = Inr r \<and>
       load_irq m' r = (if i < 32 \<and> bit (ucast (mval a) :: u32) i then (load_irq m r)\<lparr>enabled := False\<rparr> else load_irq m r)) \<and>
    (\<forall>r'. (\<forall>i < 32. vgic_get_irq m v (reg32_base off + int i) \<noteq> Inr r') \<longrightarrow> load_irq m' r' = load_irq m r')"
proof (rule write_irqs_effect [OF _ ok w [unfolded vgic_icenable_write_def Let_def test_bit]], goal_cases)
  case (1 i r s s')
  then show ?case using vgic_disable_irq_effect [of ops cpu r s s'] by (auto split: if_splits)
qed

lemma igroup_effect:
  assumes ok: "vm_ok m" "v < length (lvcpus m)" and w: "vgic_igroup_write v a off m = Inr m'"
  shows "shape m' = shape m \<and>
    (\<forall>i < 32. \<exists>r. vgic_get_irq m v (reg32_base off + int i) = Inr r \<and>
       load_irq m' r = (load_irq m r)\<lparr>igroup := (i < 32 \<and> bit (ucast (mval a) :: u32) i)\<rparr>) \<and>
    (\<forall>r'. (\<forall>i < 32. vgic_get_irq m v (reg32_base off + int i) \<noteq> Inr r') \<longrightarrow> load_irq m' r' = load_irq m r')"
proof (rule write_irqs_effect [OF _ ok w [unfolded vgic_igroup_write_def Let_def test_bit]], goal_cases)
  case (1 i r s s')
  then show ?case using load_store [of s r] by auto
qed

text \<open>
  C26.  The enable registers: a write to a set-enable register turns on exactly the interrupts whose
  bits are set, a write to a clear-enable register turns off exactly those, and the next read shows
  the result; the interrupts of all other registers and of all other vCPUs, and everything about an
  interrupt but its enable bit, are unchanged.
\<close>

theorem enable_registers:
  assumes ok: "vm_ok m" "v < length (lvcpus m)" and r: "vgic_ienable_read m v b off = Inr b0"
  shows "(vgic_isenable_write ops cpu v a off m = Inr m1 \<longrightarrow>
      vgic_ienable_read m1 v b off = Inr (b\<lparr>mval := mval b0 OR ucast (ucast (mval a) :: u32)\<rparr>) \<and>
      (\<forall>r. (load_irq m1 r)\<lparr>enabled := True\<rparr> = (load_irq m r)\<lparr>enabled := True\<rparr>)) \<and>
    (vgic_icenable_write ops cpu v a off m = Inr m2 \<longrightarrow>
      vgic_ienable_read m2 v b off = Inr (b\<lparr>mval := mval b0 AND ucast (NOT (ucast (mval a) :: u32))\<rparr>) \<and>
      (\<forall>r. (load_irq m2 r)\<lparr>enabled := True\<rparr> = (load_irq m r)\<lparr>enabled := True\<rparr>))"
proof -
  let ?val = "ucast (mval a) :: u32"
  obtain w where w: "read_irqs m v (reg32_base off) 32 (\<lambda>i iq. Inr (push_bit i (of_bool (enabled iq)))) = Inr w"
    and b0: "b0 = b\<lparr>mval := ucast w\<rparr>" using r by (auto simp: vgic_ienable_read_def mmio_set_Inr)
  have rest: "(load_irq m' r)\<lparr>enabled := True\<rparr> = (load_irq m r)\<lparr>enabled := True\<rparr>"
    if e: "\<forall>i < 32. \<exists>r. vgic_get_irq m v (reg32_base off + int i) = Inr r \<and>
        load_irq m' r = (if i < 32 \<and> bit ?val i then (load_irq m r)\<lparr>enabled := x\<rparr> else load_irq m r)"
      "\<forall>r'. (\<forall>i < 32. vgic_get_irq m v (reg32_base off + int i) \<noteq> Inr r') \<longrightarrow> load_irq m' r' = load_irq m r'"
    for m' :: "'a machine" and x r
  proof (cases "\<exists>i < 32. vgic_get_irq m v (reg32_base off + int i) = Inr r")
    case True
    then show ?thesis using e(1) by (auto split: if_splits)
  qed (use e(2) in auto)
  have "vgic_ienable_read m1 v b off = Inr (b\<lparr>mval := mval b0 OR ucast ?val\<rparr>)"
    if s: "vgic_isenable_write ops cpu v a off m = Inr m1"
  proof -
    have "read_irqs m1 v (reg32_base off) 32 (\<lambda>i iq. Inr (push_bit i (of_bool (enabled iq)))) = Inr (w OR ?val)"
    proof (rule flags_change [OF w, where h = "\<lambda>i e. e \<or> bit ?val i"])
      note e = isenable_effect [OF ok s]
      show "shape m1 = shape m" using e by blast
      fix i :: nat assume i: "i < 32"
      obtain r where "vgic_get_irq m v (reg32_base off + int i) = Inr r"
        "load_irq m1 r = (if i < 32 \<and> bit ?val i then (load_irq m r)\<lparr>enabled := True\<rparr> else load_irq m r)"
        using e i by blast
      then show "\<exists>r. vgic_get_irq m v (reg32_base off + int i) = Inr r \<and>
          enabled (load_irq m1 r) = (enabled (load_irq m r) \<or> bit ?val i)"
        using i by (intro exI [of _ r]) simp
      show "bit (w OR ?val) i = (bit w i \<or> bit ?val i)" using i by (simp add: bit_or_iff)
    qed
    then show ?thesis unfolding vgic_ienable_read_def mmio_set_def b0 by (simp add: unsigned_or_eq)
  qed
  moreover have "vgic_ienable_read m2 v b off = Inr (b\<lparr>mval := mval b0 AND ucast (NOT ?val)\<rparr>)"
    if s: "vgic_icenable_write ops cpu v a off m = Inr m2"
  proof -
    have "read_irqs m2 v (reg32_base off) 32 (\<lambda>i iq. Inr (push_bit i (of_bool (enabled iq)))) = Inr (w AND NOT ?val)"
    proof (rule flags_change [OF w, where h = "\<lambda>i e. e \<and> \<not> bit ?val i"])
      note e = icenable_effect [OF ok s]
      show "shape m2 = shape m" using e by blast
      fix i :: nat assume i: "i < 32"
      obtain r where "vgic_get_irq m v (reg32_base off + int i) = Inr r"
        "load_irq m2 r = (if i < 32 \<and> bit ?val i then (load_irq m r)\<lparr>enabled := False\<rparr> else load_irq m r)"
        using e i by blast
      then show "\<exists>r. vgic_get_irq m v (reg32_base off + int i) = Inr r \<and>
          enabled (load_irq m2 r) = (enabled (load_irq m r) \<and> \<not> bit ?val i)"
        using i by (intro exI [of _ r]) simp
      show "bit (w AND NOT ?val) i = (bit w i \<and> \<not> bit ?val i)" using i by (simp add: bit_and_iff bit_not_iff)
    qed
    then show ?thesis unfolding vgic_ienable_read_def mmio_set_def b0 by (simp add: unsigned_and_eq)
  qed
  ultimately show ?thesis
    using rest isenable_effect [OF ok, of ops cpu a off m1] icenable_effect [OF ok, of ops cpu a off m2] by blast
qed

definition example_machine :: "gicv3 machine" where
  "example_machine = \<lparr>lvcpus = [zero_vcpu, zero_vcpu\<lparr>vcpuid := 1, pcpu := 1\<rparr>], lnvcpu = 2, nspis = 0, gversion = 3,
     spis = [], genabled = True, pmap = [], irqlist = replicate 64 \<lparr>icount = 0, handler = None, nhandle = (\<lambda>_. 0)\<rparr>,
     chip = example_gicv3, me = 0, mclust = initial_cluster, mconid = 0, msent = [], pcpu_wakeup = (\<lambda>_. True),
     bootable = (\<lambda>_. True)\<rparr>"
definition example_access :: mmio_access where
  "example_access = \<lparr>mipa = 0x08000100, moffset = 0x100, mval = 0x8000000, accsize = ACC_WORD, wnr = True\<rparr>"

theorem enable_registers_witness:
  "\<exists>m1. vgic_isenable_write gicv3_irqchip 0 0 example_access 0 example_machine = Inr m1 \<and>
     vgic_ienable_read m1 0 example_access 0 = Inr (example_access\<lparr>mval := 0x8000000\<rparr>)"
proof -
  have "\<not> isl (vgic_isenable_write gicv3_irqchip 0 0 example_access 0 example_machine)" by code_simp
  then obtain m1 where m1: "vgic_isenable_write gicv3_irqchip 0 0 example_access 0 example_machine = Inr m1"
    by (auto simp: isl_def) (metis obj_sumE)
  have ok: "vm_ok example_machine" "0 < length (lvcpus example_machine)" by code_simp+
  have r: "vgic_ienable_read example_machine 0 example_access 0 = Inr (example_access\<lparr>mval := 0\<rparr>)" by code_simp
  have v: "example_access\<lparr>mval := mval (example_access\<lparr>mval := 0\<rparr>) OR ucast (ucast (mval example_access) :: u32)\<rparr> =
    example_access\<lparr>mval := 0x8000000\<rparr>" by code_simp
  show ?thesis using m1 enable_registers [OF ok r, of gicv3_irqchip 0 example_access m1 m1] unfolding v by blast
qed

lemma ipriority_effect:
  assumes ok: "vm_ok m" "v < length (lvcpus m)" and w: "vgic_ipriority_write v a off m = Inr m'"
  shows "shape m' = shape m \<and>
    (\<forall>i < 4. \<exists>r. vgic_get_irq m v (reg4_base off + int i) = Inr r \<and>
       load_irq m' r = (load_irq m r)\<lparr>priority := ucast (drop_bit (i * 8) (ucast (mval a) :: u32) AND 0xff)\<rparr>) \<and>
    (\<forall>r'. (\<forall>i < 4. vgic_get_irq m v (reg4_base off + int i) \<noteq> Inr r') \<longrightarrow> load_irq m' r' = load_irq m r')"
proof (rule write_irqs_effect [OF _ ok w [unfolded vgic_ipriority_write_def Let_def]], goal_cases)
  case (1 i r s s')
  then show ?case using load_store [of s r] by auto
qed

lemma icfg_effect:
  assumes ok: "vm_ok m" "v < length (lvcpus m)" and w: "vgic_icfg_write v a off m = Inr m'"
  shows "shape m' = shape m \<and>
    (\<forall>i < 16. \<exists>r. vgic_get_irq m v (reg16_base off + int i) = Inr r \<and>
       load_irq m' r = (load_irq m r)\<lparr>cfg :=
         (if drop_bit 1 (drop_bit (i * 2) (ucast (mval a) :: u32) AND 3) = 0 then CONFIG_LEVEL else CONFIG_EDGE)\<rparr>) \<and>
    (\<forall>r'. (\<forall>i < 16. vgic_get_irq m v (reg16_base off + int i) \<noteq> Inr r') \<longrightarrow> load_irq m' r' = load_irq m r')"
proof (rule write_irqs_effect [OF _ ok w [unfolded vgic_icfg_write_def Let_def]], goal_cases)
  case (1 i r s s')
  then show ?case using load_store [of s r] by auto
qed

lemma icfg_bit: "drop_bit 1 (drop_bit k (val :: u32) AND 3) = 0 \<longleftrightarrow> \<not> bit val (Suc k)"
proof -
  have m: "(x :: u32) AND 3 = take_bit 2 x" for x using and_mask_take [of x 2] by simp
  have "bit (drop_bit 1 (take_bit 2 (drop_bit k val))) n = (n = 0 \<and> bit val (Suc k))" for n
    by (auto simp: bit_drop_bit_eq bit_take_bit_iff)
  then show ?thesis unfolding m by (metis bit_0_eq bit_word_eqI bot_apply bot_bool_def)
qed

lemma odd_mask: "bit (0xaaaaaaaa :: u32) k \<longleftrightarrow> k < 32 \<and> odd k"
proof (cases "k < 32")
  case True
  have "list_all (\<lambda>k. bit (0xaaaaaaaa :: u32) k = odd k) [0..<32]" by code_simp
  then show ?thesis using True by (simp add: list_all_iff del: bit_numeral_word_iff)
qed (use bit_imp_le_length in fastforce)

lemma ipriority_roundtrip:
  assumes ok: "vm_ok m" "v < length (lvcpus m)" and w: "vgic_ipriority_write v a off m = Inr m1"
  shows "vgic_ipriority_read m1 v b off = Inr (b\<lparr>mval := ucast (ucast (mval a) :: u32)\<rparr>)"
proof -
  let ?val = "ucast (mval a) :: u32"
  note e = ipriority_effect [OF ok w]
  have g: "vgic_get_irq m1 v j = vgic_get_irq m v j" for j using get_irq_shape e by blast
  let ?g = "\<lambda>i iq. push_bit (i * 8) (ucast (priority iq)) :: u32"
  obtain w1 where w1: "read_irqs m1 v (reg4_base off) 4 (\<lambda>i iq. Inr (?g i iq)) = Inr w1"
    using read_irqs_ok [where g = ?g, OF refl, of 4 m1 v "reg4_base off"] e g by metis
  note rb = read_irqs_bits [where g = ?g, OF refl w1, unfolded g]
  have "w1 = ?val"
  proof (rule bit_word_eqI)
    fix k assume "k < LENGTH(32)"
    then have k: "k < 32" by simp
    have f: "bit (?g i (load_irq m1 r)) k \<longleftrightarrow> i = k div 8 \<and> bit ?val k"
      if "i < 4" "vgic_get_irq m v (reg4_base off + int i) = Inr r" for i r
    proof -
      have "priority (load_irq m1 r) = ucast (drop_bit (i * 8) ?val AND 0xff)" using e that by fastforce
      then show ?thesis
        using k unfolding and_masks by (auto simp only: field_bits bit_drop_bit_eq, auto simp: bit_simps)
    qed
    have "k div 8 < 4" using k by simp
    then show "bit w1 k = bit ?val k" using rb f e by (metis (no_types, lifting))
  qed
  then show ?thesis using w1 by (simp add: vgic_ipriority_read_def mmio_set_def)
qed

lemma icfg_roundtrip:
  assumes ok: "vm_ok m" "v < length (lvcpus m)" and w: "vgic_icfg_write v a off m = Inr m1"
  shows "vgic_icfg_read m1 v b off = Inr (b\<lparr>mval := ucast (ucast (mval a) AND 0xaaaaaaaa :: u32)\<rparr>)"
proof -
  let ?val = "ucast (mval a) :: u32"
  note e = icfg_effect [OF ok w]
  have g: "vgic_get_irq m1 v j = vgic_get_irq m v j" for j using get_irq_shape e by blast
  let ?g = "\<lambda>i iq. if cfg iq = CONFIG_EDGE then push_bit (i * 2) 2 else 0 :: u32"
  obtain w1 where w1: "read_irqs m1 v (reg16_base off) 16 (\<lambda>i iq. Inr (?g i iq)) = Inr w1"
    using read_irqs_ok [where g = ?g, OF refl, of 16 m1 v "reg16_base off"] e g by metis
  note rb = read_irqs_bits [where g = ?g, OF refl w1, unfolded g]
  have two: "(2 :: u32) = push_bit 1 1" by simp
  have "w1 = ?val AND 0xaaaaaaaa"
  proof (rule bit_word_eqI)
    fix k assume "k < LENGTH(32)"
    then have k: "k < 32" by simp
    have f: "bit (?g i (load_irq m1 r)) k \<longleftrightarrow> k = Suc (i * 2) \<and> bit ?val k"
      if "i < 16" "vgic_get_irq m v (reg16_base off + int i) = Inr r" for i r
    proof -
      have "cfg (load_irq m1 r) = bit ?val (Suc (i * 2))"
        using e that icfg_bit [of "i * 2" ?val] by (force simp: CONFIG_EDGE_def CONFIG_LEVEL_def)
      moreover have "bit (push_bit (i * 2) (2 :: u32)) k \<longleftrightarrow> k = Suc (i * 2)"
        using k unfolding two push_bit_push_bit by (simp only: bit_push_one) auto
      ultimately show ?thesis by (auto simp: CONFIG_EDGE_def)
    qed
    show "bit w1 k = bit (?val AND 0xaaaaaaaa) k"
    proof (cases "odd k")
      case True
      then obtain i where i: "k = Suc (2 * i)" by (elim oddE) simp
      then have i16: "i < 16" using k by simp
      obtain r where r: "vgic_get_irq m v (reg16_base off + int i) = Inr r" using e i16 by blast
      have "bit w1 k \<longleftrightarrow> bit ?val k"
      proof
        assume "bit ?val k"
        then have "bit (?g i (load_irq m1 r)) k" using f [OF i16 r] i by (simp only: mult.commute [of 2 i])
        then show "bit w1 k" using rb r i16 by blast
      qed (use rb f in blast)
      then show ?thesis using odd_mask [of k] True k by (simp only: bit_and_iff) simp
    next
      case False
      then have "\<not> bit w1 k" using rb f by (metis even_Suc even_mult_iff even_numeral)
      then show ?thesis using odd_mask [of k] False by (simp only: bit_and_iff) simp
    qed
  qed
  then show ?thesis using w1 by (simp add: vgic_icfg_read_def mmio_set_def)
qed

text \<open>
  C27.  The priority, configuration and group registers read back what was written: all of it for
  priorities and groups, and for the configuration the edge bit of every interrupt.
\<close>

theorem config_registers:
  assumes ok: "vm_ok m" "v < length (lvcpus m)"
  shows "(vgic_ipriority_write v a off m = Inr m1 \<longrightarrow>
      vgic_ipriority_read m1 v b off = Inr (b\<lparr>mval := ucast (ucast (mval a) :: u32)\<rparr>)) \<and>
    (vgic_icfg_write v a off m = Inr m2 \<longrightarrow>
      vgic_icfg_read m2 v b off = Inr (b\<lparr>mval := ucast (ucast (mval a) AND 0xaaaaaaaa :: u32)\<rparr>)) \<and>
    (vgic_igroup_write v a off m = Inr m3 \<longrightarrow>
      vgic_igroup_read m3 v b off = Inr (b\<lparr>mval := ucast (ucast (mval a) :: u32)\<rparr>))"
proof -
  have "vgic_igroup_read m3 v b off = Inr (b\<lparr>mval := ucast (ucast (mval a) :: u32)\<rparr>)"
    if w: "vgic_igroup_write v a off m = Inr m3"
  proof -
    have "read_irqs m3 v (reg32_base off) 32 (\<lambda>i iq. Inr (push_bit i (of_bool (igroup iq)))) = Inr (ucast (mval a))"
      by (rule flags_roundtrip) (use igroup_effect [OF ok w] in \<open>fastforce+\<close>)
    then show ?thesis by (simp add: vgic_igroup_read_def mmio_set_def)
  qed
  then show ?thesis using ipriority_roundtrip [OF ok] icfg_roundtrip [OF ok] by blast
qed


theorem config_registers_witness:
  "\<exists>m1. vgic_ipriority_write 0 (example_access\<lparr>mval := 0x80a0c0e0\<rparr>) 8 example_machine = Inr m1 \<and>
     vgic_ipriority_read m1 0 example_access 8 = Inr (example_access\<lparr>mval := 0x80a0c0e0\<rparr>)"
proof -
  let ?a = "example_access\<lparr>mval := 0x80a0c0e0\<rparr>"
  have "\<not> isl (vgic_ipriority_write 0 ?a 8 example_machine)" by code_simp
  then obtain m1 where m1: "vgic_ipriority_write 0 ?a 8 example_machine = Inr m1"
    by (auto simp: isl_def) (metis obj_sumE)
  have ok: "vm_ok example_machine" "0 < length (lvcpus example_machine)" by code_simp+
  have v: "ucast (ucast (mval ?a) :: u32) = (0x80a0c0e0 :: u64)" by code_simp
  show ?thesis using m1 config_registers [OF ok, of ?a 8 m1 example_access m1 m1] unfolding v by blast
qed

section \<open>The ring of pending interrupts\<close>

definition ring_len :: "vcpu \<Rightarrow> nat" where
  "ring_len c = (ptail c + 4 - phead c) mod 4"

definition ring_items :: "vcpu \<Rightarrow> gic_pending_irq list" where
  "ring_items c = map (\<lambda>k. the (pirqs c ! ((phead c + k) mod 4))) [0..<ring_len c]"

definition ring_ok :: "vcpu \<Rightarrow> bool" where
  "ring_ok c \<longleftrightarrow> length (pirqs c) = 4 \<and> phead c < 4 \<and> ptail c < 4 \<and>
     (\<forall>k < ring_len c. pirqs c ! ((phead c + k) mod 4) \<noteq> None)"

lemma less4: "(h :: nat) < 4 \<Longrightarrow> h = 0 \<or> h = 1 \<or> h = 2 \<or> h = 3"
  by auto

lemma ring_arith:
  assumes "(h :: nat) < 4" and "t < 4"
  shows "(t + 1) mod 4 = h \<longleftrightarrow> (t + 4 - h) mod 4 = 3"
    and "(t + 4 - h) mod 4 < 3 \<Longrightarrow> ((t + 1) mod 4 + 4 - h) mod 4 = Suc ((t + 4 - h) mod 4)"
    and "(h + (t + 4 - h) mod 4) mod 4 = t"
    and "h \<noteq> t \<Longrightarrow> Suc ((t + 4 - (h + 1) mod 4) mod 4) = (t + 4 - h) mod 4"
    and "(t + 4 - h) mod 4 = 0 \<longleftrightarrow> h = t"
  using less4 [OF assms(1)] less4 [OF assms(2)] by (elim disjE; simp)+

lemma ring_between:
  assumes "(h :: nat) < 4" and "t < 4" and "k < (t + 4 - h) mod 4"
  shows "(h + k) mod 4 \<noteq> t"
proof -
  have "k < 4" using assms(3) by (rule less_trans) simp
  then show ?thesis using less4 [OF assms(1)] less4 [OF assms(2)] less4 [of k] assms(3)
    by (elim disjE) (simp_all, (elim disjE, simp_all)+)
qed

lemma ring_full: "phead c < 4 \<Longrightarrow> ptail c < 4 \<Longrightarrow> (ptail c + 1) mod 4 = phead c \<longleftrightarrow> ring_len c = 3"
  unfolding ring_len_def by (rule ring_arith)

lemma ring_push:
  fixes p
  assumes ok: "ring_ok c" and room: "ring_len c < 3"
  defines "c' \<equiv> c\<lparr>pirqs := (pirqs c)[ptail c := Some p], ptail := (ptail c + 1) mod 4\<rparr>"
  shows "ring_ok c'" and "ring_items c' = ring_items c @ [p]"
proof -
  have b: "phead c < 4" "ptail c < 4" "length (pirqs c) = 4" using ok by (auto simp: ring_ok_def)
  have l: "ring_len c' = Suc (ring_len c)"
    using ring_arith(2) [OF b(1,2)] room unfolding ring_len_def c'_def by simp
  have t: "(phead c + ring_len c) mod 4 = ptail c" using ring_arith(3) [OF b(1,2)] unfolding ring_len_def .
  have o: "(phead c + k) mod 4 \<noteq> ptail c" if "k < ring_len c" for k
    using ring_between [OF b(1,2)] that unfolding ring_len_def .
  have at: "pirqs c' ! ((phead c' + k) mod 4) = (if k = ring_len c then Some p else pirqs c ! ((phead c + k) mod 4))"
    if "k \<le> ring_len c" for k
    using that t o [of k] b by (cases "k = ring_len c") (auto simp: c'_def nth_list_update)
  show "ring_ok c'" unfolding ring_ok_def
  proof (intro conjI allI impI)
    fix k assume "k < ring_len c'"
    then show "pirqs c' ! ((phead c' + k) mod 4) \<noteq> None" using at [of k] l ok by (auto simp: ring_ok_def)
  qed (use b in \<open>auto simp: c'_def\<close>)
  have "ring_items c' = map (\<lambda>k. the (pirqs c' ! ((phead c' + k) mod 4))) [0..<ring_len c] @ [p]"
    using at [of "ring_len c"] by (simp add: ring_items_def l)
  also have "map (\<lambda>k. the (pirqs c' ! ((phead c' + k) mod 4))) [0..<ring_len c] = ring_items c"
    unfolding ring_items_def by (rule map_cong) (use at in auto)
  finally show "ring_items c' = ring_items c @ [p]" .
qed

text \<open>Handing a sequence of interrupts to the chip, in order; a refused one is dropped.\<close>

definition inject_seq :: "'c gic_irqchip \<Rightarrow> nat \<Rightarrow> gic_pending_irq list \<Rightarrow> 'c \<Rightarrow> 'c res" where
  "inject_seq ops cpu ps c = fold_res (\<lambda>p c. bind_res (inject_guest_irq ops cpu p c) (\<lambda>(_, c1). Inr c1)) ps c"

lemma inject_pending_run:
  "h < 4 \<Longrightarrow> t < 4 \<Longrightarrow> n = (t + 4 - h) mod 4 \<Longrightarrow> n < fuel \<Longrightarrow> ptail (lvcpus m ! cpu) = t \<Longrightarrow>
   (\<And>k. k < n \<Longrightarrow> pirqs (lvcpus m ! cpu) ! ((h + k) mod 4) \<noteq> None) \<Longrightarrow>
   inject_pending ops cpu fuel h m =
     bind_res (inject_seq ops cpu (map (\<lambda>k. the (pirqs (lvcpus m ! cpu) ! ((h + k) mod 4))) [0..<n]) (chip m))
       (\<lambda>c. Inr (t, m\<lparr>chip := c\<rparr>))"
proof (induction n arbitrary: h m fuel)
  case 0
  then obtain f where f: "fuel = Suc f" by (cases fuel) auto
  have "h = t" using 0 ring_arith(5) [of h t] by simp
  then show ?case using 0 f by (simp add: inject_seq_def)
next
  case (Suc n)
  then obtain f where f: "fuel = Suc f" by (cases fuel) auto
  have ht: "h \<noteq> t" using Suc.prems(3) by auto
  obtain p where p: "pirqs (lvcpus m ! cpu) ! h = Some p"
    using Suc.prems(6) [of 0] Suc.prems(1) by auto
  let ?h = "(h + 1) mod 4"
  have step: "(?h + k) mod 4 = (h + Suc k) mod 4" for k by (simp add: mod_simps)
  have n: "n = (t + 4 - ?h) mod 4" using ring_arith(4) [OF Suc.prems(1,2) ht] Suc.prems(3) by simp
  have split: "map (\<lambda>k. the (pirqs (lvcpus m ! cpu) ! ((h + k) mod 4))) [0..<Suc n] =
      p # map (\<lambda>k. the (pirqs (lvcpus m ! cpu) ! ((?h + k) mod 4))) [0..<n]"
  proof -
    have "[0..<Suc n] = 0 # map Suc [0..<n]" by (simp add: map_Suc_upt upt_conv_Cons del: upt_Suc)
    then show ?thesis using p Suc.prems(1) step by simp
  qed
  show ?case
  proof (cases "inject_guest_irq ops cpu p (chip m)")
    case (Inl e)
    then show ?thesis using ht p Suc.prems(5) unfolding split f by (simp add: inject_now_def inject_seq_def)
  next
    case (Inr rc)
    obtain r c where rc: "rc = (r, c)" by (cases rc)
    have "inject_pending ops cpu f ?h (m\<lparr>chip := c\<rparr>) =
      bind_res (inject_seq ops cpu (map (\<lambda>k. the (pirqs (lvcpus (m\<lparr>chip := c\<rparr>) ! cpu) ! ((?h + k) mod 4))) [0..<n])
          (chip (m\<lparr>chip := c\<rparr>))) (\<lambda>d. Inr (t, m\<lparr>chip := c\<rparr>\<lparr>chip := d\<rparr>))"
    proof (rule Suc.IH)
      fix k assume "k < n"
      then show "pirqs (lvcpus (m\<lparr>chip := c\<rparr>) ! cpu) ! ((?h + k) mod 4) \<noteq> None"
        using Suc.prems(6) [of "Suc k"] unfolding step by simp
    qed (use Suc.prems(2,4,5) n f in auto)
    then show ?thesis
      using ht p Suc.prems(5) Inr rc unfolding split f by (simp add: inject_now_def inject_seq_def)
  qed
qed

lemma drain_ring:
  assumes "ring_ok (lvcpus m ! cpu)"
  shows "vgic_inject_pending_irqs ops cpu m =
    bind_res (inject_seq ops cpu (ring_items (lvcpus m ! cpu)) (chip m))
      (\<lambda>c. Inr (set_vcpu cpu ((lvcpus m ! cpu)\<lparr>phead := ptail (lvcpus m ! cpu)\<rparr>) (m\<lparr>chip := c\<rparr>)))"
proof -
  let ?c = "lvcpus m ! cpu"
  have b: "phead ?c < 4" "ptail ?c < 4" using assms by (auto simp: ring_ok_def)
  have "inject_pending ops cpu 4 (phead ?c) m =
      bind_res (inject_seq ops cpu (ring_items ?c) (chip m)) (\<lambda>c. Inr (ptail ?c, m\<lparr>chip := c\<rparr>))"
    unfolding ring_items_def
    by (rule inject_pending_run [OF b]) (use assms in \<open>auto simp: ring_len_def ring_ok_def\<close>)
  then show ?thesis
    unfolding vgic_inject_pending_irqs_def by (cases "inject_seq ops cpu (ring_items ?c) (chip m)") simp_all
qed

text \<open>
  C8.  The ring through which one CPU hands interrupts to the vCPU of another: an interrupt for
  another vCPU is appended to that vCPU's ring and its CPU is sent the inject SGI, unless three are
  waiting already, in which case the hypervisor stops; the receiving CPU then hands the waiting
  interrupts to its list registers in the order of arrival and empties the ring, without running
  out of the loop bound.
\<close>

theorem pending_ring:
  assumes v: "v \<noteq> cpu" "v < length (lvcpus m)" and ok: "ring_ok (lvcpus m ! v)"
  shows "(ring_len (lvcpus m ! v) = 3 \<longrightarrow>
      vgic_inject_virq_local ops cpu v p m = Inl (Panic ''pending queue full'')) \<and>
    (vgic_inject_virq_local ops cpu v p m = Inr (rc, m') \<longrightarrow>
      rc = 0 \<and> ring_ok (lvcpus m' ! v) \<and> ring_items (lvcpus m' ! v) = ring_items (lvcpus m ! v) @ [p] \<and>
      send_sgi ops cpu \<lparr>sgi_id = 0, targets = push_bit (pcpu (lvcpus m ! v)) 1, mode = SGI_ROUTE_TARGETS\<rparr> (chip m) =
        Inr (chip m') \<and>
      vgic_inject_pending_irqs ops v m' =
        bind_res (inject_seq ops v (ring_items (lvcpus m ! v) @ [p]) (chip m'))
          (\<lambda>c. Inr (set_vcpu v ((lvcpus m' ! v)\<lparr>phead := ptail (lvcpus m' ! v)\<rparr>) (m'\<lparr>chip := c\<rparr>))))"
proof (intro conjI impI)
  let ?c = "lvcpus m ! v"
  have b: "phead ?c < 4" "ptail ?c < 4" using ok by (auto simp: ring_ok_def)
  note full = ring_full [OF b]
  show "ring_len ?c = 3 \<Longrightarrow> vgic_inject_virq_local ops cpu v p m = Inl (Panic ''pending queue full'')"
    using v(1) full by (simp add: vgic_inject_virq_local_def)
  assume i: "vgic_inject_virq_local ops cpu v p m = Inr (rc, m')"
  then have nf: "(ptail ?c + 1) mod 4 \<noteq> phead ?c" using v(1) by (auto simp: vgic_inject_virq_local_def)
  let ?d = "?c\<lparr>pirqs := (pirqs ?c)[ptail ?c := Some p], ptail := (ptail ?c + 1) mod 4\<rparr>"
  have "ring_len ?c < 3" using nf full mod_less_divisor [of 4 "ptail ?c + 4 - phead ?c"] unfolding ring_len_def by linarith
  note push = ring_push [OF ok this, of p]
  obtain c where c: "send_sgi ops cpu \<lparr>sgi_id = 0, targets = push_bit (pcpu ?c) 1, mode = SGI_ROUTE_TARGETS\<rparr> (chip m) = Inr c"
    and m': "m' = set_vcpu v ?d m\<lparr>chip := c\<rparr>" and rc: "rc = 0"
    using i v(1) nf
    by (auto simp: vgic_inject_virq_local_def Let_def cpu_send_inject_sgi_def SGI_INJECT_def bind_res_eq_Inr)
  show "rc = 0" by (rule rc)
  have d: "lvcpus m' ! v = ?d" using v(2) m' by simp
  show r: "ring_ok (lvcpus m' ! v)" and items: "ring_items (lvcpus m' ! v) = ring_items ?c @ [p]"
    using push d by simp_all
  show "send_sgi ops cpu \<lparr>sgi_id = 0, targets = push_bit (pcpu ?c) 1, mode = SGI_ROUTE_TARGETS\<rparr> (chip m) = Inr (chip m')"
    using c m' by simp
  show "vgic_inject_pending_irqs ops v m' =
      bind_res (inject_seq ops v (ring_items ?c @ [p]) (chip m'))
        (\<lambda>c. Inr (set_vcpu v ((lvcpus m' ! v)\<lparr>phead := ptail (lvcpus m' ! v)\<rparr>) (m'\<lparr>chip := c\<rparr>)))"
    using drain_ring [OF r, of ops] items by simp
qed

theorem pending_ring_witness:
  "\<exists>m'. vgic_inject_virq_local gicv3_irqchip 0 1 example_timer example_machine = Inr (0, m') \<and>
     ring_items (lvcpus m' ! 1) = [example_timer]"
proof -
  have v: "(1 :: nat) \<noteq> 0" "1 < length (lvcpus example_machine)" by code_simp+
  have ok: "ring_ok (lvcpus example_machine ! 1)" by code_simp
  have e: "ring_items (lvcpus example_machine ! 1) = []" by code_simp
  have "\<not> isl (vgic_inject_virq_local gicv3_irqchip 0 1 example_timer example_machine)" by code_simp
  then obtain r m' where "vgic_inject_virq_local gicv3_irqchip 0 1 example_timer example_machine = Inr (r, m')"
    by (auto simp: isl_def) (metis obj_sumE surj_pair)
  then show ?thesis
    using pending_ring [OF v ok, of gicv3_irqchip example_timer r m'] e by auto
qed

section \<open>Software-generated interrupts across the cluster\<close>

lemma find_vcpu_cong: "map vcpuid cs = map vcpuid ds \<Longrightarrow> find_vcpu cs i v = find_vcpu ds i v"
proof (induction cs arbitrary: ds i)
  case (Cons c cs)
  then obtain d ds' where "ds = d # ds'" "vcpuid c = vcpuid d" "map vcpuid cs = map vcpuid ds'" by (cases ds) auto
  then show ?case using Cons.IH by simp
qed simp

text \<open>What injecting an interrupt leaves alone: the ids of the vCPUs and the messages.\<close>

definition same_ids :: "'c machine \<Rightarrow> 'c machine \<Rightarrow> bool" where
  "same_ids m m' \<longleftrightarrow> lnvcpu m' = lnvcpu m \<and> map vcpuid (lvcpus m') = map vcpuid (lvcpus m)"

lemma same_ids_vcpu: "same_ids m m' \<Longrightarrow> node_vcpu m' v = node_vcpu m v"
  unfolding same_ids_def node_vcpu_def by (metis find_vcpu_cong take_map)

lemma set_vcpu_ids: "vcpuid c = vcpuid (lvcpus m ! v) \<Longrightarrow> same_ids m (set_vcpu v c m)"
proof -
  assume c: "vcpuid c = vcpuid (lvcpus m ! v)"
  have "map vcpuid ((lvcpus m)[v := c]) = map vcpuid (lvcpus m)"
  proof (cases "v < length (lvcpus m)")
    case True
    then show ?thesis by (intro nth_equalityI) (auto simp: nth_list_update c)
  qed (simp add: list_update_beyond)
  then show ?thesis by (simp add: same_ids_def)
qed

lemma inject_local_frame:
  assumes "vgic_inject_virq_local ops cpu v p m = Inr (rc, m')"
  shows "same_ids m m' \<and> msent m' = msent m \<and> rc = 0"
proof (cases "v = cpu")
  case True
  then show ?thesis
    using assms by (auto simp: vgic_inject_virq_local_def inject_now_def bind_res_eq_Inr same_ids_def)
next
  case False
  let ?c = "lvcpus m ! v"
  let ?d = "?c\<lparr>pirqs := (pirqs ?c)[ptail ?c := Some p], ptail := (ptail ?c + 1) mod 4\<rparr>"
  have "\<exists>c. m' = set_vcpu v ?d m\<lparr>chip := c\<rparr> \<and> rc = 0"
    using assms False
    by (auto simp: vgic_inject_virq_local_def Let_def cpu_send_inject_sgi_def bind_res_eq_Inr split: if_splits)
  moreover have "same_ids m (set_vcpu v ?d m)" by (rule set_vcpu_ids) simp
  ultimately show ?thesis by (auto simp: same_ids_def)
qed

lemma inject_frame:
  assumes "vgic_inject_virq ops cpu v i m = Inr (rc, m')"
  shows "same_ids m m' \<and> msent m' = msent m"
proof -
  have "m' = m \<or> (\<exists>t p. vgic_inject_virq_local ops cpu t p m = Inr (rc, m'))"
    using assms by (auto simp: vgic_inject_virq_def Let_def bind_res_eq_Inr split: if_splits option.splits)
  then show ?thesis
  proof
    assume "m' = m" then show ?thesis by (simp add: same_ids_def)
  qed (use inject_local_frame in blast)
qed

fun out_key :: "outmsg \<Rightarrow> bool \<times> nat \<times> vm_hdr" where
  "out_key (Unicast g) = (False, dst_id g, payload g)"
| "out_key (Bcast g) = (True, dst_id g, payload g)"

lemma post_sent: "map out_key (msent (post m (int d) ty h cpu Unicast)) = map out_key (msent m) @ [(False, d, h)]"
  by (simp add: post_def msg_init_reqcpu_def new_connection_def msginitcore_def)

lemma post_same: "same_ids m (post m d ty h cpu how)"
  by (simp add: post_def msg_init_reqcpu_def new_connection_def same_ids_def)

definition sgi_remote :: "'c machine \<Rightarrow> gic_sgi \<Rightarrow> nat \<times> nat \<Rightarrow> bool" where
  "sgi_remote m g = (\<lambda>(nid, vid). vid < 16 \<and> bit (targets g) vid \<and> node_vcpu m (int vid) = None)"

lemma sgi_to_effect:
  assumes "sgi_to ops cpu g (nid, vid) m = Inr m'"
  shows "same_ids m m' \<and> map out_key (msent m') = map out_key (msent m) @
    (if sgi_remote m g (nid, vid) then [(False, nid, SgiMsg (int vid) (sgi_id g))] else [])"
proof -
  have b: "((push_bit vid 1 :: u32) AND ucast (targets g) \<noteq> 0) = (vid < 16 \<and> bit (targets g) vid)"
    using test_bit [of "ucast (targets g)" vid]
    by (auto simp: and.commute bit_unsigned_iff simp del: push_bit_of_1 dest: bit_imp_le_length)
  show ?thesis
  proof (cases "vid < 16 \<and> bit (targets g) vid")
    case True
    then show ?thesis
    proof (cases "node_vcpu m (int vid)")
      case None
      then show ?thesis
        using assms True unfolding sgi_to_def split b
        by (auto simp: sgi_remote_def post_sent post_same)
    next
      case (Some v)
      then obtain rc where "vgic_inject_virq ops cpu v (sgi_id g) m = Inr (rc, m')"
        using assms True unfolding sgi_to_def split b by (auto simp: bind_res_eq_Inr split: if_splits)
      then show ?thesis using inject_frame [of ops cpu v "sgi_id g" m rc m'] Some by (simp add: sgi_remote_def)
    qed
  next
    case False
    then show ?thesis
      using assms unfolding sgi_to_def split b by (auto simp: sgi_remote_def same_ids_def split: if_splits)
  qed
qed

lemma sgi_fold:
  "fold_res (sgi_to ops cpu g) ps m = Inr m' \<Longrightarrow>
   map out_key (msent m') = map out_key (msent m) @
     map (\<lambda>(nid, vid). (False, nid, SgiMsg (int vid) (sgi_id g))) (filter (sgi_remote m g) ps)"
proof (induction ps arbitrary: m)
  case (Cons p ps)
  obtain nid vid where p: "p = (nid, vid)" by (cases p)
  obtain m1 where m1: "sgi_to ops cpu g (nid, vid) m = Inr m1" and m': "fold_res (sgi_to ops cpu g) ps m1 = Inr m'"
    using Cons.prems p by (auto simp: bind_res_eq_Inr)
  have "sgi_remote m1 g = sgi_remote m g"
    using same_ids_vcpu [of m m1] sgi_to_effect [OF m1] by (auto simp: sgi_remote_def)
  then show ?case using Cons.IH [OF m'] sgi_to_effect [OF m1] p by simp
qed simp

text \<open>
  C28.  A software-generated interrupt raised by the guest: if the call returns, every vCPU of the
  cluster in the target list that this node does not run has been sent exactly one message, to the
  node that runs it and with its id and the interrupt, in the order of the cluster table, and no
  other message was sent.
\<close>

theorem sgi_messages:
  assumes "vgic_emulate_sgi ops cpu g m = Inr (rc, m')"
  shows "rc = 0 \<and> map out_key (msent m') = map out_key (msent m) @
    map (\<lambda>(nid, vid). (False, nid, SgiMsg (int vid) (sgi_id g)))
      (filter (\<lambda>(nid, vid). vid < 16 \<and> bit (targets g) vid \<and> node_vcpu m (int vid) = None)
        (cluster_vcpus (mclust m)))"
  using assms sgi_fold [of ops cpu g "cluster_vcpus (mclust m)" m m']
  by (auto simp: vgic_emulate_sgi_def bind_res_eq_Inr sgi_remote_def)

definition example_cluster :: cluster_state where
  "example_cluster = initial_cluster\<lparr>nr_cluster_nodes := 2, nr_cluster_vcpus := 4,
     cluster := [zero_node\<lparr>nvcpu := 2, vcpus := [0, 1]\<rparr>, zero_node\<lparr>nodeid := 1, nvcpu := 2, vcpus := [2, 3]\<rparr>]\<rparr>"

theorem sgi_messages_witness:
  "\<exists>m'. vgic_emulate_sgi gicv3_irqchip 0 \<lparr>sgi_id = 1, targets = 0xc, mode = SGI_ROUTE_TARGETS\<rparr>
       (example_machine\<lparr>mclust := example_cluster\<rparr>) = Inr (0, m') \<and>
     map out_key (msent m') = [(False, 1, SgiMsg 2 1), (False, 1, SgiMsg 3 1)]"
proof -
  let ?g = "\<lparr>sgi_id = 1, targets = 0xc, mode = SGI_ROUTE_TARGETS\<rparr>" and ?m = "example_machine\<lparr>mclust := example_cluster\<rparr>"
  have "\<not> isl (vgic_emulate_sgi gicv3_irqchip 0 ?g ?m)" by code_simp
  then obtain r m' where r: "vgic_emulate_sgi gicv3_irqchip 0 ?g ?m = Inr (r, m')"
    by (auto simp: isl_def) (metis obj_sumE surj_pair)
  have "map out_key (msent ?m) @ map (\<lambda>(nid, vid). (False, nid, SgiMsg (int vid) (sgi_id ?g)))
      (filter (\<lambda>(nid, vid). vid < 16 \<and> bit (targets ?g) vid \<and> node_vcpu ?m (int vid) = None)
        (cluster_vcpus (mclust ?m))) = [(False, 1, SgiMsg 2 1), (False, 1, SgiMsg 3 1)]" by code_simp
  then show ?thesis using sgi_messages [OF r] r by auto
qed

end
