(* ===== verification/Vmmio.thy ===== *)
theory Vmmio
  imports Vgic
begin

text \<open>
  Emulated device accesses, \<^verbatim>\<open>core/vmmio.c\<close>: the list of regions, to which every registration adds
  at the front, dispatch to the handler of the first region that holds the address, and forwarding of
  an access to the node that runs the vCPU concerned.  A handler that has to forward sends the request
  and waits; \<open>Wait\<close> is that state, and \<open>vmmio_recv_reply\<close> is what the reply does.  \<open>call\<close> stands for
  the call through the function pointer that names the handler.
\<close>

datatype mmio_ret = Ret int | Wait

type_synonym 'c mmio_out = "(mmio_ret \<times> mmio_access \<times> 'c machine) res"

definition in_region :: "mmio_region \<Rightarrow> u64 \<Rightarrow> bool" where
  "in_region r ipa \<longleftrightarrow> rbase r \<le> ipa \<and> ipa < rbase r + rsize r"

definition find_region :: "mmio_region list \<Rightarrow> u64 \<Rightarrow> mmio_region option" where
  "find_region rs ipa = List.find (\<lambda>r. in_region r ipa) rs"

definition vmmio_emulate ::
    "(mmio_handler \<Rightarrow> bool \<Rightarrow> nat \<Rightarrow> mmio_access \<Rightarrow> 'c machine \<Rightarrow> 'c mmio_out) \<Rightarrow> nat \<Rightarrow> mmio_access \<Rightarrow> 'c machine \<Rightarrow> 'c mmio_out" where
  "vmmio_emulate call v a m =
     (case find_region (pmap m) (mipa a) of
        None \<Rightarrow> Inr (Ret (-1), a, m)
      | Some r \<Rightarrow>
          let a1 = a\<lparr>moffset := mipa a - rbase r\<rparr> in
          (case (if wnr a then rwrite r else None) of
             Some h \<Rightarrow> call h True v a1 m
           | None \<Rightarrow> (case rread r of Some h \<Rightarrow> call h False v a1 m | None \<Rightarrow> Inr (Ret (-1), a1, m))))"

definition vmmio_reg_handler ::
    "u64 \<Rightarrow> u64 \<Rightarrow> mmio_handler option \<Rightarrow> mmio_handler option \<Rightarrow> 'c machine \<Rightarrow> int \<times> 'c machine" where
  "vmmio_reg_handler ipa sz rd wr m =
     (if sz = 0 then (-1, m)
      else (0, m\<lparr>pmap := \<lparr>rbase = ipa, rsize = sz, rread = rd, rwrite = wr\<rparr> # pmap m\<rparr>))"

text \<open>A vCPU that no node runs has node id -1, at which the lookup of the MAC address stops.\<close>

definition vmmio_forward :: "nat \<Rightarrow> u32 \<Rightarrow> mmio_access \<Rightarrow> 'c machine \<Rightarrow> 'c machine res" where
  "vmmio_forward cpu tgt a m =
     (let nid = vcpuid_to_nodeid (mclust m) (unat tgt) in
      if nid < 0 then Inl (Panic ''node'')
      else Inr (post m nid MSG_MMIO_REQUEST (MmioReq a tgt) cpu Unicast))"

definition vmmio_recv_reply :: "mmio_access \<Rightarrow> u64 \<Rightarrow> u64 \<Rightarrow> mmio_access res" where
  "vmmio_recv_reply a addr val =
     (if mipa a \<noteq> addr then Inl (Panic ''vmmio?'') else Inr (a\<lparr>mval := val\<rparr>))"

text \<open>
  The node that runs the vCPU: the reply to the request \<open>g\<close>.  A handler that would forward once more
  waits inside the interrupt handler for a reply that only a later interrupt can bring.
\<close>

definition vmmio_req_recv_intr ::
    "(mmio_handler \<Rightarrow> bool \<Rightarrow> nat \<Rightarrow> mmio_access \<Rightarrow> 'c machine \<Rightarrow> 'c mmio_out) \<Rightarrow> vm_hdr msg \<Rightarrow> mmio_access \<Rightarrow> u32 \<Rightarrow> 'c machine \<Rightarrow> 'c machine res" where
  "vmmio_req_recv_intr call g a vid m =
     (case node_vcpu m (sint vid) of
        None \<Rightarrow> Inl (Panic ''mmio'')
      | Some v \<Rightarrow> bind_res (vmmio_emulate call v a m) (\<lambda>(rc, a1, m1).
          case rc of
            Wait \<Rightarrow> Inl (Hang ''vmmio_forward'')
          | Ret k \<Rightarrow>
              Inr (m1\<lparr>msent := msent m1 @ [Unicast (msg_reply (me m1) g MSG_MMIO_REPLY
                (MmioReply (mipa a1) (mval a1) (if k < 0 then VMMIO_FAILED else VMMIO_OK)) None)]\<rparr>)))"

section \<open>Properties\<close>

lemma find_region_Cons:
  "find_region (r # rs) ipa = (if in_region r ipa then Some r else find_region rs ipa)"
  by (simp add: find_region_def)

text \<open>
  Registering a region of at least one byte adds it in front: an access inside it goes to the new
  handler, with the offset from its base, even if an older region also holds the address; an access
  outside it is handled exactly as before.  A region without bytes is refused.
\<close>

lemma vmmio_register:
  assumes "vmmio_reg_handler base sz (Some rd) (Some wr) m = (rc, m1)"
  shows "(sz = 0 \<longrightarrow> rc = -1 \<and> m1 = m) \<and>
    (sz \<noteq> 0 \<longrightarrow> rc = 0 \<and>
      (base \<le> mipa a \<and> mipa a < base + sz \<longrightarrow>
         vmmio_emulate call v a m1 =
           call (if wnr a then wr else rd) (wnr a) v (a\<lparr>moffset := mipa a - base\<rparr>) m1) \<and>
      (\<not> (base \<le> mipa a \<and> mipa a < base + sz) \<longrightarrow> find_region (pmap m1) (mipa a) = find_region (pmap m) (mipa a)))"
  using assms
  by (auto simp: vmmio_reg_handler_def vmmio_emulate_def find_region_Cons in_region_def Let_def split: if_splits)

lemma vmmio_register_witness:
  "find_region (pmap (snd (vmmio_reg_handler 0x08000000 0x10000 (Some VGIC_V3_D) (Some VGIC_V3_D) example_machine)))
     0x09000000 = None"
  using vmmio_register [where base = "0x08000000" and sz = "0x10000" and rd = VGIC_V3_D and wr = VGIC_V3_D
      and m = example_machine and rc = 0 and a = "example_access\<lparr>mipa := 0x09000000\<rparr>"
      and ?m1.0 = "snd (vmmio_reg_handler 0x08000000 0x10000 (Some VGIC_V3_D) (Some VGIC_V3_D) example_machine)"]
  by (simp add: vmmio_reg_handler_def example_machine_def find_region_def)

end
