(* ===== verification/Vgic_V2.thy ===== *)
theory Vgic_V2
  imports Vmmio
begin

text \<open>
  The distributor of the virtual GICv2, \<^verbatim>\<open>core/vgic-v2.c\<close>.  \<open>v\<close> is the vCPU that makes the access,
  \<open>cpu\<close> the CPU it runs on.
\<close>

section \<open>Registers\<close>

definition vgic_v2_ctlr_read :: "'c machine \<Rightarrow> mmio_access \<Rightarrow> mmio_access" where
  "vgic_v2_ctlr_read m a = a\<lparr>mval := (if genabled m then 2 else 0)\<rparr>"

definition vgic_v2_ctlr_write :: "mmio_access \<Rightarrow> 'c machine \<Rightarrow> 'c machine" where
  "vgic_v2_ctlr_write a m = m\<lparr>genabled := (mval a AND 2 \<noteq> 0)\<rparr>"

definition vgic_v2_typer_read :: "'c machine \<Rightarrow> mmio_access \<Rightarrow> mmio_access" where
  "vgic_v2_typer_read m a =
     a\<lparr>mval := ucast (of_int (drop_bit 5 (nspis m + 32) - 1) OR push_bit 5 7 :: u32)\<rparr>"

definition vgic_v2_itargets_read :: "'c machine \<Rightarrow> nat \<Rightarrow> mmio_access \<Rightarrow> u64 \<Rightarrow> mmio_access res" where
  "vgic_v2_itargets_read m v a off =
     mmio_set (read_irqs m v (to_int off) (accbytes (accsize a))
       (\<lambda>i iq. if i * 8 \<ge> 32 then Inl (Undefined ''shift'') else Inr (push_bit (i * 8) (ucast (irq_targets iq))))) a"

text \<open>\<^verbatim>\<open>__builtin_ffs\<close> of a byte: one more than the lowest bit set, 0 if none is.\<close>

definition ffs8 :: "u8 \<Rightarrow> nat" where
  "ffs8 t = (case List.find (\<lambda>k. bit t k) [0..<8] of None \<Rightarrow> 0 | Some k \<Rightarrow> Suc k)"

definition set_target ::
    "'c gic_irqchip \<Rightarrow> nat \<Rightarrow> u8 \<Rightarrow> irq_ref \<Rightarrow> 'c machine \<Rightarrow> 'c machine res" where
  "set_target ops cpu t r m =
     (let tv = (if ffs8 t \<noteq> 0 then node_vcpu m (int (ffs8 t - 1)) else None);
          iq = (set_irq_targets t (load_irq m r))\<lparr>target := tv\<rparr>;
          m1 = store_irq r iq m
      in if hw iq then
           let bits = (case tv of Some k \<Rightarrow> push_bit (pcpu (lvcpus m ! k)) 1 | None \<Rightarrow> 1)
           in case set_targets ops of
                None \<Rightarrow> Inl (Undefined ''set_targets'')
              | Some f \<Rightarrow> Inr (m1\<lparr>chip := f cpu (hwirq iq) bits (chip m1)\<rparr>)
         else Inr m1)"

definition vgic_v2_set_targets ::
    "'c gic_irqchip \<Rightarrow> nat \<Rightarrow> nat \<Rightarrow> int \<Rightarrow> nat \<Rightarrow> u32 \<Rightarrow> 'c machine \<Rightarrow> 'c machine res" where
  "vgic_v2_set_targets ops cpu v intid len val m =
     write_irqs v intid len
       (\<lambda>i r s. if i * 8 \<ge> 32 then Inl (Undefined ''shift'') else set_target ops cpu (ucast (drop_bit (i * 8) val)) r s) m"

definition vgic_v2_itargets_write ::
    "'c gic_irqchip \<Rightarrow> nat \<Rightarrow> nat \<Rightarrow> mmio_access \<Rightarrow> u64 \<Rightarrow> 'c machine \<Rightarrow> 'c machine res" where
  "vgic_v2_itargets_write ops cpu v a off m =
     (let val = ucast (mval a) :: u32; intid = to_int off; len = accbytes (accsize a) in
      bind_res (vgic_v2_set_targets ops cpu v intid len val m) (\<lambda>m1.
        Inr (if is_spi intid
             then post m1 0 MSG_GIC_CONFIG (GicConfigMsg GIC_CONFIG_SET_TARGET_V2 (int len) intid val) cpu Bcast
             else m1)))"

definition recv_gic_config_msg_intr ::
    "'c gic_irqchip \<Rightarrow> nat \<Rightarrow> gic_config_type \<Rightarrow> int \<Rightarrow> int \<Rightarrow> u32 \<Rightarrow> 'c machine \<Rightarrow> 'c machine res" where
  "recv_gic_config_msg_intr ops cpu ty len intid val m =
     (case ty of
        GIC_CONFIG_SET_TARGET_V2 \<Rightarrow> vgic_v2_set_targets ops cpu cpu intid (nat len) val m
      | GIC_CONFIG_NULL \<Rightarrow> Inl (Panic ''?'')
      | _ \<Rightarrow> Inl (Panic ''unimplemented''))"

definition vgic_v2_icpidr2_read :: "mmio_access \<Rightarrow> mmio_access" where
  "vgic_v2_icpidr2_read a = a\<lparr>mval := push_bit 4 2\<rparr>"

definition sgir_mode :: "u32 \<Rightarrow> sgi_mode" where
  "sgir_mode x = (if x = 0 then SGI_ROUTE_TARGETS else if x = 1 then SGI_ROUTE_BROADCAST
     else if x = 2 then SGI_ROUTE_SELF else SGI_MODE_OTHER)"

definition vgic_v2_sgir_write :: "'c gic_irqchip \<Rightarrow> nat \<Rightarrow> nat \<Rightarrow> mmio_access \<Rightarrow> 'c machine \<Rightarrow> 'c machine res" where
  "vgic_v2_sgir_write ops cpu v a m =
     (let sgir = ucast (mval a) :: u32; virq = uint (sgir AND 0xf) in
      bind_res (vgic_get_irq m v virq) (\<lambda>r.
        let m1 = store_irq r ((load_irq m r)\<lparr>vreq_cpu := of_nat (vcpuid (lvcpus m ! v))\<rparr>) m;
            g = \<lparr>sgi_id = virq, targets = ucast (drop_bit 16 sgir AND 0xff), mode = sgir_mode (drop_bit 24 sgir AND 3)\<rparr>
        in bind_res (vgic_emulate_sgi ops cpu g m1) (\<lambda>(_, m2). Inr m2)))"

section \<open>Dispatch\<close>

definition within :: "u64 \<Rightarrow> u64 \<Rightarrow> u64 \<Rightarrow> bool" where
  "within off a b \<longleftrightarrow> a \<le> off \<and> off \<le> b"

definition ret_read :: "mmio_access res \<Rightarrow> 'c machine \<Rightarrow> (int \<times> mmio_access \<times> 'c machine) res" where
  "ret_read r m = bind_res r (\<lambda>a. Inr (0, a, m))"

definition ret_write :: "mmio_access \<Rightarrow> 'c machine res \<Rightarrow> (int \<times> mmio_access \<times> 'c machine) res" where
  "ret_write a r = bind_res r (\<lambda>m. Inr (0, a, m))"

text \<open>
  The cases of the switch in their order; the case of the active registers has no \<^verbatim>\<open>return\<close> and goes
  on into the one of the priority registers.
\<close>

definition vgic_v2_d_mmio_read ::
    "'c gic_irqchip \<Rightarrow> nat \<Rightarrow> nat \<Rightarrow> mmio_access \<Rightarrow> 'c machine \<Rightarrow> (int \<times> mmio_access \<times> 'c machine) res" where
  "vgic_v2_d_mmio_read ops cpu v a m =
     (let off = moffset a in
      if accsize a \<noteq> ACC_WORD then Inl (Panic ''unimplemented'')
      else if off = 0 then Inr (0, vgic_v2_ctlr_read m a, m)
      else if off = 4 then Inr (0, vgic_v2_typer_read m a, m)
      else if off = 8 then Inr (0, vgic_iidr_read m a, m)
      else if within off 0x80 0xff then ret_read (vgic_igroup_read m v a (off - 0x80)) m
      else if within off 0x100 0x17f then ret_read (vgic_ienable_read m v a (off - 0x100)) m
      else if within off 0x180 0x1ff then ret_read (vgic_ienable_read m v a (off - 0x180)) m
      else if within off 0x200 0x27f then ret_read (vgic_ipend_read ops cpu m v a (off - 0x200)) m
      else if within off 0x280 0x2ff then ret_read (vgic_ipend_read ops cpu m v a (off - 0x280)) m
      else if within off 0x300 0x3ff then ret_read (vgic_ipriority_read m v (a\<lparr>mval := 0\<rparr>) (off - 0x400)) m
      else if within off 0x400 0x7fb then ret_read (vgic_ipriority_read m v a (off - 0x400)) m
      else if within off 0x800 0xbfb then ret_read (vgic_v2_itargets_read m v a (off - 0x800)) m
      else if within off 0xc00 0xcff then ret_read (vgic_icfg_read m v a (off - 0xc00)) m
      else if off = 0xfe8 then Inr (0, vgic_v2_icpidr2_read a, m)
      else Inr (-1, a, m))"

definition vgic_v2_d_mmio_write ::
    "'c gic_irqchip \<Rightarrow> nat \<Rightarrow> nat \<Rightarrow> mmio_access \<Rightarrow> 'c machine \<Rightarrow> (int \<times> mmio_access \<times> 'c machine) res" where
  "vgic_v2_d_mmio_write ops cpu v a m =
     (let off = moffset a in
      if off = 0 then Inr (0, a, vgic_v2_ctlr_write a m)
      else if off = 8 \<or> off = 4 then Inr (0, a, m)
      else if off = 0xf00 then ret_write a (vgic_v2_sgir_write ops cpu v a m)
      else if within off 0x80 0xff then ret_write a (vgic_igroup_write v a (off - 0x80) m)
      else if within off 0x100 0x17f then ret_write a (vgic_isenable_write ops cpu v a (off - 0x100) m)
      else if within off 0x180 0x1ff then ret_write a (vgic_icenable_write ops cpu v a (off - 0x180) m)
      else if within off 0x200 0x3ff then Inr (0, a, m)
      else if within off 0x400 0x7fb then ret_write a (vgic_ipriority_write v a (off - 0x400) m)
      else if within off 0x800 0xbfb then ret_write a (vgic_v2_itargets_write ops cpu v a (off - 0x800) m)
      else if within off 0xc00 0xcff then ret_write a (vgic_icfg_write v a (off - 0xc00) m)
      else if off = 0xfe8 then Inr (0, a, m)
      else Inr (-1, a, m))"

text \<open>
  \<^verbatim>\<open>vgic_v2_init\<close>: without the driver's \<^verbatim>\<open>vgic_v2_pre_init\<close> it does nothing.  The mapping of the CPU
  interface into the guest, \<^verbatim>\<open>vmiomap\<close>, is the argument \<open>iomap\<close>.
\<close>

definition vgic_v2_init :: "u64 option \<Rightarrow> (u64 \<Rightarrow> u64 \<Rightarrow> u64 \<Rightarrow> 'c machine \<Rightarrow> 'c machine) \<Rightarrow> 'c machine \<Rightarrow> 'c machine" where
  "vgic_v2_init host_vbase iomap m =
     (case host_vbase of
        None \<Rightarrow> m
      | Some vb \<Rightarrow>
          let m1 = m\<lparr>gversion := 2\<rparr>;
              m2 = snd (vmmio_reg_handler 0x08000000 0x10000 (Some VGIC_V2_D) (Some VGIC_V2_D) m1)
          in iomap 0x08010000 vb 0x1000 m2)"

section \<open>Properties\<close>

lemma active_intid_negative: "within off 0x300 0x3ff \<Longrightarrow> reg4_base (off - 0x400) < 0"
proof -
  assume w: "within off 0x300 0x3ff"
  let ?w = "(off - 0x400) div 4 * 4"
  have o: "0x300 \<le> unat off" "unat off \<le> 0x3ff" using w by (auto simp: within_def word_le_nat_alt)
  have "unat (off - 0x400) = 2 ^ 64 + unat off - 0x400"
    using o by (simp add: unat_sub_if_size size_word_def)
  moreover have "(2 ^ 64 + unat off - 0x400) div 4 * 4 < 2 ^ 64"
    using o by (intro le_less_trans [OF div_times_less_eq_dividend]) simp
  ultimately have z: "unat ?w = (2 ^ 64 + unat off - 0x400) div 4 * 4"
    by (simp add: unat_word_ariths unat_div)
  have "unat ?w div 2 ^ 31 = 2 ^ 33 - 1"
  proof (rule div_nat_eqI)
    have "(2 ^ 64 + unat off - 0x400) div 4 * 4 \<le> 2 ^ 64 + unat off - 0x400" by simp
    then show "unat ?w < 2 ^ 31 * Suc (2 ^ 33 - 1)" unfolding z using o by simp
    have "2 ^ 64 - 0x100 = (2 ^ 64 - 0x100 :: nat) div 4 * 4" by simp
    also have "\<dots> \<le> (2 ^ 64 + unat off - 0x400) div 4 * 4"
      using o by (intro mult_le_mono1 div_le_mono) simp
    finally show "2 ^ 31 * (2 ^ 33 - 1) \<le> unat ?w" unfolding z by simp
  qed
  then have "bit (unat ?w) 31" by (simp add: bit_iff_odd)
  then have "bit (ucast ?w :: u32) 31" by (simp add: bit_unsigned_iff)
  then show ?thesis using bit_last_iff [of "ucast ?w :: u32"] by (simp add: reg4_base_def to_int_def)
qed

text \<open>
  A guest that reads one of the active registers of the virtual GICv2 stops the hypervisor: the
  missing \<^verbatim>\<open>return\<close> leads into the code of the priority registers with a negative interrupt id, on
  which the assertion in \<^verbatim>\<open>vgic_get_irq\<close> fails.
\<close>

lemma active_register_read_stops:
  assumes "within (moffset a) 0x300 0x3ff" and "accsize a = ACC_WORD"
  shows "vgic_v2_d_mmio_read ops cpu v a m = Inl (Panic ''assert 0'')"
proof -
  have "vgic_get_irq m v (reg4_base (moffset a - 0x400)) = Inl (Panic ''assert 0'')"
    using active_intid_negative [OF assms(1)] by (simp add: vgic_get_irq_def intid_defs)
  then have p: "vgic_ipriority_read m v (a\<lparr>mval := 0\<rparr>) (moffset a - 0x400) = Inl (Panic ''assert 0'')"
    by (simp add: vgic_ipriority_read_def read_irqs_def upt_rec mmio_set_def)
  have o: "0x300 \<le> moffset a" "moffset a \<le> 0x3ff" using assms(1) by (auto simp: within_def)
  have n: "moffset a \<noteq> 0" "moffset a \<noteq> 4" "moffset a \<noteq> 8" "\<not> moffset a \<le> 0xff" "\<not> moffset a \<le> 0x17f"
    "\<not> moffset a \<le> 0x1ff" "\<not> moffset a \<le> 0x27f" "\<not> moffset a \<le> 0x2ff"
    using o by (auto simp: word_le_nat_alt)
  show ?thesis
    using n o p assms(2) by (simp add: vgic_v2_d_mmio_read_def Let_def within_def ret_read_def)
qed

lemma active_register_read_stops_witness:
  "vgic_v2_d_mmio_read gicv3_irqchip 0 0 (example_access\<lparr>moffset := 0x304\<rparr>) example_machine = Inl (Panic ''assert 0'')"
  by (rule active_register_read_stops) (simp_all add: within_def example_access_def)

text \<open>
  The registers of the shared interrupts cover 1020 interrupts, but the structures behind them
  are one block with room for 409: an access of the guest to the group or enable bits of interrupts
  448 and up leaves the block.
\<close>

lemma spi_registers_overrun:
  assumes "length (spis m) = SPIS_CAPACITY" and "0x38 \<le> off" and "off < 0x80"
  shows "vgic_igroup_write v a off m = Inl (Undefined ''spis'') \<and>
    vgic_ienable_read m v a off = Inl (Undefined ''spis'')"
proof -
  have "list_all (\<lambda>k. 448 \<le> to_int (of_nat k * 32) \<and> to_int (of_nat k * 32) < 1020) [14..<32]" by code_simp
  moreover have "14 \<le> unat off div 4" "unat off div 4 < 32"
    using assms(2,3) by (auto simp: word_le_nat_alt word_less_nat_alt less_mult_imp_div_less)
  then have "unat off div 4 \<in> set [14..<32]" by (simp only: set_upt atLeastLessThan_iff)
  ultimately have "448 \<le> to_int (of_nat (unat off div 4) * 32) \<and> to_int (of_nat (unat off div 4) * 32) < 1020"
    unfolding list_all_iff by blast
  moreover have "of_nat (unat off div 4) = off div 4" 
    using unat_of_nat64 [of "unat off div 4"] le_less_trans [OF div_le_dividend unat_less_64, of off 4]
    by (simp add: word_unat_eq_iff unat_div)
  ultimately have b: "448 \<le> reg32_base off" "reg32_base off < 1020" by (simp_all add: reg32_base_def)
  then have g: "vgic_get_irq m v (reg32_base off) = Inl (Undefined ''spis'')"
    using assms(1) by (simp add: vgic_get_irq_def intid_defs SPIS_CAPACITY_def)
  have u: "[0..<32] = 0 # [1..<32]" by (simp add: upt_rec)
  show ?thesis
    using g by (simp add: vgic_igroup_write_def vgic_ienable_read_def write_irqs_def read_irqs_def mmio_set_def Let_def u
        del: upt_conv_Cons)
qed

lemma spi_registers_overrun_witness:
  "vgic_igroup_write 0 example_access 0x40 (example_machine\<lparr>spis := replicate SPIS_CAPACITY zero_irq\<rparr>) =
     Inl (Undefined ''spis'')"
  using spi_registers_overrun [of "example_machine\<lparr>spis := replicate SPIS_CAPACITY zero_irq\<rparr>" "0x40", where v = 0 and a = example_access]
  by simp

end
