(* ===== verification/Vgic_V3.thy ===== *)
theory Vgic_V3
  imports Vgic_V2
begin

text \<open>
  The virtual GICv3, \<^verbatim>\<open>core/vgic-v3.c\<close>: distributor, redistributors (forwarded to the node that runs
  the vCPU a redistributor belongs to), the absent interrupt translation service, the system register
  through which the guest raises software-generated interrupts; and \<^verbatim>\<open>vgic_init\<close> with the dispatch of
  all handlers.
\<close>

section \<open>Distributor\<close>

definition vgic_v3_ctlr_read :: "'c machine \<Rightarrow> mmio_access \<Rightarrow> mmio_access" where
  "vgic_v3_ctlr_read m a = a\<lparr>mval := 0x10 OR 0x40 OR (if genabled m then 2 else 0)\<rparr>"

definition vgic_v3_ctlr_write :: "mmio_access \<Rightarrow> 'c machine \<Rightarrow> 'c machine" where
  "vgic_v3_ctlr_write a m = m\<lparr>genabled := (mval a AND 2 \<noteq> 0)\<rparr>"

definition vgic_v3_typer_read :: "'c machine \<Rightarrow> mmio_access \<Rightarrow> mmio_access" where
  "vgic_v3_typer_read m a =
     a\<lparr>mval := ucast (of_int (drop_bit 5 (nspis m + 32) - 1) OR push_bit 5 7 OR push_bit 19 9 :: u32)\<rparr>"

definition vgic_pidr2_read :: "mmio_access \<Rightarrow> mmio_access" where
  "vgic_pidr2_read a = a\<lparr>mval := push_bit 4 3\<rparr>"

definition irouter_to_vcpuid :: "u64 \<Rightarrow> u64" where
  "irouter_to_vcpuid x = x AND (push_bit 24 1 - 1)"

definition vcpuid_to_irouter :: "u64 \<Rightarrow> u64" where
  "vcpuid_to_irouter x = x AND (push_bit 24 1 - 1)"

definition vgic_set_irouter :: "'c machine \<Rightarrow> u64 \<Rightarrow> vgic_irq \<Rightarrow> vgic_irq" where
  "vgic_set_irouter m irouter iq =
     (let vid = (if irouter AND push_bit 31 1 \<noteq> 0 then of_nat (vcpuid (lvcpus m ! 0)) else irouter_to_vcpuid irouter)
      in iq\<lparr>vroute := vid, target := node_vcpu m (to_int vid)\<rparr>)"

definition vgic_v3_iroute_read :: "'c machine \<Rightarrow> nat \<Rightarrow> mmio_access \<Rightarrow> u64 \<Rightarrow> mmio_access res" where
  "vgic_v3_iroute_read m v a off =
     bind_res (vgic_get_irq m v (to_int (off div 8))) (\<lambda>r.
       Inr (a\<lparr>mval := vcpuid_to_irouter (vroute (load_irq m r))\<rparr>))"

text \<open>\<open>mpidr\<close> gives the affinity of a physical CPU.\<close>

definition vgic_v3_iroute_write ::
    "'c gic_irqchip \<Rightarrow> (nat \<Rightarrow> u64) \<Rightarrow> nat \<Rightarrow> nat \<Rightarrow> mmio_access \<Rightarrow> u64 \<Rightarrow> 'c machine \<Rightarrow> 'c machine res" where
  "vgic_v3_iroute_write ops mpidr cpu v a off m =
     (let intid = to_int (off div 8) in
      bind_res (vgic_get_irq m v intid) (\<lambda>r.
        let iq = vgic_set_irouter m (mval a) (load_irq m r); m1 = store_irq r iq m in
        if hw iq then
          case route_irq ops of
            None \<Rightarrow> Inl (Undefined ''route_irq'')
          | Some f \<Rightarrow>
              Inr (m1\<lparr>chip := f cpu intid (case target iq of Some k \<Rightarrow> mpidr (pcpu (lvcpus m ! k)) | None \<Rightarrow> 0) (chip m1)\<rparr>)
        else Inr m1))"

definition vgic_v3_d_mmio_read ::
    "'c gic_irqchip \<Rightarrow> nat \<Rightarrow> nat \<Rightarrow> mmio_access \<Rightarrow> 'c machine \<Rightarrow> (int \<times> mmio_access \<times> 'c machine) res" where
  "vgic_v3_d_mmio_read ops cpu v a m =
     (let off = moffset a in
      if off = 0 then Inr (0, vgic_v3_ctlr_read m a, m)
      else if off = 4 then Inr (0, vgic_v3_typer_read m a, m)
      else if off = 8 then Inr (0, vgic_iidr_read m a, m)
      else if off = 0xc then Inr (0, a\<lparr>mval := 0\<rparr>, m)
      else if within off 0x80 0xff then ret_read (vgic_igroup_read m v a (off - 0x80)) m
      else if within off 0x100 0x17f then ret_read (vgic_ienable_read m v a (off - 0x100)) m
      else if within off 0x180 0x1ff then ret_read (vgic_ienable_read m v a (off - 0x180)) m
      else if within off 0x200 0x27f then ret_read (vgic_ipend_read ops cpu m v a (off - 0x200)) m
      else if within off 0x280 0x2ff then ret_read (vgic_ipend_read ops cpu m v a (off - 0x280)) m
      else if within off 0x800 0xbfb then Inr (0, a\<lparr>mval := 0\<rparr>, m)
      else if within off 0x300 0x3ff then Inr (0, a\<lparr>mval := 0\<rparr>, m)
      else if within off 0x400 0x7fb then ret_read (vgic_ipriority_read m v a (off - 0x400)) m
      else if within off 0xc00 0xcff then ret_read (vgic_icfg_read m v a (off - 0xc00)) m
      else if within off 0x6000 0x60fb then Inr (0, a, m)
      else if within off 0x6100 0x7fdb then ret_read (vgic_v3_iroute_read m v a (off - 0x6000)) m
      else if off = 0xffe8 then Inr (0, vgic_pidr2_read a, m)
      else Inr (-1, a, m))"

definition vgic_v3_d_mmio_write ::
    "'c gic_irqchip \<Rightarrow> (nat \<Rightarrow> u64) \<Rightarrow> nat \<Rightarrow> nat \<Rightarrow> mmio_access \<Rightarrow> 'c machine \<Rightarrow> (int \<times> mmio_access \<times> 'c machine) res" where
  "vgic_v3_d_mmio_write ops mpidr cpu v a m =
     (let off = moffset a in
      if off = 0 then Inr (0, a, vgic_v3_ctlr_write a m)
      else if off = 8 \<or> off = 4 then Inr (0, a, m)
      else if within off 0x80 0xff then ret_write a (vgic_igroup_write v a (off - 0x80) m)
      else if within off 0x100 0x17f then ret_write a (vgic_isenable_write ops cpu v a (off - 0x100) m)
      else if within off 0x180 0x1ff then ret_write a (vgic_icenable_write ops cpu v a (off - 0x180) m)
      else if within off 0x800 0xbfb then Inr (0, a, m)
      else if within off 0x200 0x3ff then Inr (0, a, m)
      else if within off 0x400 0x7fb then ret_write a (vgic_ipriority_write v a (off - 0x400) m)
      else if within off 0xc00 0xcff then ret_write a (vgic_icfg_write v a (off - 0xc00) m)
      else if within off 0x6000 0x60ff then Inr (0, a, m)
      else if within off 0x6100 0x7fdf then ret_write a (vgic_v3_iroute_write ops mpidr cpu v a (off - 0x6000) m)
      else if off = 0xffe8 then Inr (0, a, m)
      else Inr (-1, a, m))"

section \<open>Redistributors\<close>

definition vgicr_ctlr_read :: "mmio_access \<Rightarrow> mmio_access" where
  "vgicr_ctlr_read a = a\<lparr>mval := 0\<rparr>"

definition gicr_typer_affinity :: "u64 \<Rightarrow> u64" where
  "gicr_typer_affinity mpidr =
     push_bit 32 (mpidr AND 0xff) OR push_bit 40 (drop_bit 8 mpidr AND 0xff) OR
     push_bit 48 (drop_bit 16 mpidr AND 0xff) OR push_bit 56 (drop_bit 32 mpidr AND 0xff)"

definition vgicr_typer_read :: "'c machine \<Rightarrow> nat \<Rightarrow> mmio_access \<Rightarrow> mmio_access" where
  "vgicr_typer_read m v a =
     (let c = lvcpus m ! v;
          typer = gicr_typer_affinity (vmpidr c) OR push_bit 8 (of_nat (vcpuid c) AND 0xffff)
      in a\<lparr>mval := (if last_vcpu c then typer OR 0x10 else typer)\<rparr>)"

definition vgicr_mmio_read_core ::
    "'c machine \<Rightarrow> nat \<Rightarrow> mmio_access \<Rightarrow> (int \<times> mmio_access \<times> 'c machine) res" where
  "vgicr_mmio_read_core m v a =
     (let off = moffset a in
      if off = 0 then Inr (0, vgicr_ctlr_read a, m)
      else if off = 0x14 then Inr (0, a\<lparr>mval := 0\<rparr>, m)
      else if off = 0x10080 then ret_read (vgic_igroup_read m v a (off - 0x10080)) m
      else if off = 4 then Inr (0, vgic_iidr_read m a, m)
      else if off = 8 then Inr (0, vgicr_typer_read m v a, m)
      else if off = 0xffe8 then Inr (0, vgic_pidr2_read a, m)
      else if off = 0x10100 then ret_read (vgic_ienable_read m v a (off - 0x10100)) m
      else if off = 0x10180 then ret_read (vgic_ienable_read m v a (off - 0x10180)) m
      else if off = 0x10200 \<or> off = 0x10280 \<or> off = 0x10300 \<or> off = 0x10380 then Inr (0, a\<lparr>mval := 0\<rparr>, m)
      else if within off 0x10400 0x1041c then ret_read (vgic_ipriority_read m v a (off - 0x10400)) m
      else if within off 0x10c00 0x10c04 then ret_read (vgic_icfg_read m v a (off - 0x10c00)) m
      else if off = 0x10d00 then Inr (0, a\<lparr>mval := 0\<rparr>, m)
      else Inr (-1, a, m))"

definition vgicr_mmio_write_core ::
    "'c gic_irqchip \<Rightarrow> nat \<Rightarrow> nat \<Rightarrow> mmio_access \<Rightarrow> 'c machine \<Rightarrow> (int \<times> mmio_access \<times> 'c machine) res" where
  "vgicr_mmio_write_core ops cpu v a m =
     (let off = moffset a in
      if off = 0 \<or> off = 0x14 then Inr (0, a, m)
      else if off = 0x10080 then ret_write a (vgic_igroup_write v a (off - 0x10080) m)
      else if off = 8 \<or> off = 0xffe8 then Inr (0, a, m)
      else if off = 0x10100 then ret_write a (vgic_isenable_write ops cpu v a (off - 0x10100) m)
      else if off = 0x10180 then ret_write a (vgic_icenable_write ops cpu v a (off - 0x10180) m)
      else if off = 0x10280 \<or> off = 0x10300 \<or> off = 0x10380 then Inr (0, a, m)
      else if within off 0x10400 0x1041c then ret_write a (vgic_ipriority_write v a (off - 0x10400) m)
      else if within off 0x10c00 0x10c04 then ret_write a (vgic_icfg_write v a (off - 0x10c00) m)
      else if off = 0x10d00 then Inr (0, a, m)
      else Inr (-1, a, m))"

definition as_ret :: "(int \<times> mmio_access \<times> 'c machine) res \<Rightarrow> 'c mmio_out" where
  "as_ret r = bind_res r (\<lambda>(k, a, m). Inr (Ret k, a, m))"

definition vgicr_mmio_read :: "nat \<Rightarrow> mmio_access \<Rightarrow> 'c machine \<Rightarrow> 'c mmio_out" where
  "vgicr_mmio_read cpu a m =
     (let ridx = ucast (moffset a div 0x20000) :: u32; a1 = a\<lparr>moffset := moffset a mod 0x20000\<rparr> in
      case node_vcpu m (sint ridx) of
        None \<Rightarrow> bind_res (vmmio_forward cpu ridx a1 m) (\<lambda>m1. Inr (Wait, a1, m1))
      | Some v \<Rightarrow> as_ret (vgicr_mmio_read_core m v a1))"

definition vgicr_mmio_write :: "'c gic_irqchip \<Rightarrow> nat \<Rightarrow> mmio_access \<Rightarrow> 'c machine \<Rightarrow> 'c mmio_out" where
  "vgicr_mmio_write ops cpu a m =
     (let ridx = ucast (moffset a div 0x20000) :: u32; a1 = a\<lparr>moffset := moffset a mod 0x20000\<rparr> in
      case node_vcpu m (sint ridx) of
        None \<Rightarrow> bind_res (vmmio_forward cpu ridx a1 m) (\<lambda>m1. Inr (Wait, a1, m1))
      | Some v \<Rightarrow> as_ret (vgicr_mmio_write_core ops cpu v a1 m))"

definition vgits_mmio_read :: "mmio_access \<Rightarrow> 'c machine \<Rightarrow> 'c mmio_out" where
  "vgits_mmio_read a m = (if moffset a = 0xffe8 then Inr (Ret 0, a\<lparr>mval := 0\<rparr>, m) else Inr (Ret (-1), a, m))"

definition vgits_mmio_write :: "mmio_access \<Rightarrow> 'c machine \<Rightarrow> 'c mmio_out" where
  "vgits_mmio_write a m = Inr (Ret (-1), a, m)"

definition vgic_emulate_sgi1r :: "'c gic_irqchip \<Rightarrow> nat \<Rightarrow> nat \<Rightarrow> nat \<Rightarrow> bool \<Rightarrow> 'c machine \<Rightarrow> (int \<times> 'c machine) res" where
  "vgic_emulate_sgi1r ops cpu v rt wr m =
     (if \<not> wr then Inr (-1, m)
      else
        let sgir = (if rt = 31 then 0 else xregs (lvcpus m ! v) ! rt);
            irm = drop_bit 40 sgir AND 1
        in vgic_emulate_sgi ops cpu
             \<lparr>sgi_id = uint (drop_bit 24 sgir AND 0xf), targets = ucast (sgir AND 0xffff),
              mode = (if irm = 1 then SGI_ROUTE_BROADCAST else SGI_ROUTE_TARGETS)\<rparr> m)"

section \<open>Initialisation and dispatch\<close>

definition vgic_v3_init :: "'c machine \<Rightarrow> 'c machine" where
  "vgic_v3_init m =
     (let m1 = m\<lparr>gversion := 3\<rparr>;
          m2 = snd (vmmio_reg_handler 0x08000000 0x10000 (Some VGIC_V3_D) (Some VGIC_V3_D) m1);
          m3 = snd (vmmio_reg_handler 0x080a0000 0xf60000 (Some VGICR) (Some VGICR) m2)
      in snd (vmmio_reg_handler 0x08080000 0x20000 (Some VGITS) (Some VGITS) m3))"

definition vgic_init ::
    "'c gic_irqchip \<Rightarrow> bool \<Rightarrow> u64 option \<Rightarrow> (u64 \<Rightarrow> u64 \<Rightarrow> u64 \<Rightarrow> 'c machine \<Rightarrow> 'c machine) \<Rightarrow> 'c machine \<Rightarrow> 'c machine res" where
  "vgic_init ops nomem host_vbase iomap m =
     bind_res (vgic_init_spis ops nomem m) (\<lambda>m1.
       Inr (if chip_version ops = 2 then vgic_v2_init host_vbase iomap m1
            else if chip_version ops = 3 then vgic_v3_init m1 else m1))"

definition vgic_call ::
    "'c gic_irqchip \<Rightarrow> (nat \<Rightarrow> u64) \<Rightarrow> nat \<Rightarrow> mmio_handler \<Rightarrow> bool \<Rightarrow> nat \<Rightarrow> mmio_access \<Rightarrow> 'c machine \<Rightarrow> 'c mmio_out" where
  "vgic_call ops mpidr cpu h wr v a m =
     (case h of
        VGIC_V2_D \<Rightarrow> as_ret (if wr then vgic_v2_d_mmio_write ops cpu v a m else vgic_v2_d_mmio_read ops cpu v a m)
      | VGIC_V3_D \<Rightarrow> as_ret (if wr then vgic_v3_d_mmio_write ops mpidr cpu v a m else vgic_v3_d_mmio_read ops cpu v a m)
      | VGICR \<Rightarrow> if wr then vgicr_mmio_write ops cpu a m else vgicr_mmio_read cpu a m
      | VGITS \<Rightarrow> if wr then vgits_mmio_write a m else vgits_mmio_read a m)"

section \<open>Lemmas\<close>

definition v3_regions :: "mmio_region list" where
  "v3_regions = [\<lparr>rbase = 0x08080000, rsize = 0x20000, rread = Some VGITS, rwrite = Some VGITS\<rparr>,
     \<lparr>rbase = 0x080a0000, rsize = 0xf60000, rread = Some VGICR, rwrite = Some VGICR\<rparr>,
     \<lparr>rbase = 0x08000000, rsize = 0x10000, rread = Some VGIC_V3_D, rwrite = Some VGIC_V3_D\<rparr>]"

lemma v3_init_regions: "pmap (vgic_v3_init m) = v3_regions @ pmap m"
  by (simp add: vgic_v3_init_def vmmio_reg_handler_def v3_regions_def)

lemma find_gicr:
  assumes "pmap m = v3_regions @ rest" and "x < 0xf60000"
  shows "find_region (pmap m) (0x080a0000 + x) =
    Some \<lparr>rbase = 0x080a0000, rsize = 0xf60000, rread = Some VGICR, rwrite = Some VGICR\<rparr>"
proof -
  have u: "unat (0x080a0000 + x) = 0x080a0000 + unat x"
    using assms(2) by (subst unat_add_no_wrap) (simp_all add: word_less_nat_alt)
  then show ?thesis
    using assms by (simp add: v3_regions_def find_region_Cons in_region_def word_le_nat_alt word_less_nat_alt)
qed

lemma mmio_set_keeps: "mmio_set r a = Inr b \<Longrightarrow> mipa b = mipa a"
  by (auto simp: mmio_set_Inr)

lemma vgicr_read_keeps:
  assumes "vgicr_mmio_read_core m v a = Inr (k, b, m')"
  shows "mipa b = mipa a \<and> m' = m"
proof -
  have r: "ret_read x m = Inr (k, b, m') \<Longrightarrow> (\<And>c. x = Inr c \<Longrightarrow> mipa c = mipa a) \<Longrightarrow> ?thesis" for x
    by (auto simp: ret_read_def bind_res_eq_Inr)
  have reads: "vgic_igroup_read m v a o1 = Inr c \<Longrightarrow> mipa c = mipa a" "vgic_ienable_read m v a o1 = Inr c \<Longrightarrow> mipa c = mipa a"
    "vgic_ipriority_read m v a o1 = Inr c \<Longrightarrow> mipa c = mipa a" "vgic_icfg_read m v a o1 = Inr c \<Longrightarrow> mipa c = mipa a" for o1 c
    by (auto simp: vgic_igroup_read_def vgic_ienable_read_def vgic_ipriority_read_def vgic_icfg_read_def
        dest: mmio_set_keeps)
  show ?thesis
    using assms r reads
    by (auto simp: vgicr_mmio_read_core_def Let_def vgicr_ctlr_read_def vgic_iidr_read_def vgicr_typer_read_def
        vgic_pidr2_read_def split: if_splits)
qed

lemma small_word32:
  assumes "unat (w :: u64) < 2 ^ 31"
  shows "sint (ucast w :: u32) = int (unat w)" and "unat (ucast w :: u32) = unat w"
proof -
  show u: "unat (ucast w :: u32) = unat w"
    using assms by (simp add: unsigned_ucast_eq take_bit_nat_eq_self)
  have "uint (ucast w :: u32) = int (unat w)" by (simp only: uint_nat u)
  then have "sint (ucast w :: u32) = signed_take_bit 31 (int (unat w))" by (simp only: sint_uint) simp
  also have "\<dots> = int (unat w)"
  proof (rule signed_take_bit_int_eq_self)
    have "unat w < 2147483648" using assms by simp
    then have "int (unat w) < int 2147483648" by linarith
    then show "int (unat w) < 2 ^ 31" by simp
    show "- (2 ^ 31) \<le> int (unat w)" by (rule order_trans [of _ 0]) simp_all
  qed
  finally show "sint (ucast w :: u32) = int (unat w)" .
qed

section \<open>Properties\<close>

text \<open>
  The redistributor of a vCPU that runs on another node.  \<open>x\<close> is the offset of the access in the
  redistributor region, 128 KiB for each vCPU.
\<close>

lemma forwarded_read_sends:
  assumes "pmap m = v3_regions @ rest" "x < 0xf60000" "mipa a = 0x080a0000 + x" "\<not> wnr a"
    and "node_vcpu m (int (unat x div 0x20000)) = None"
    and "vcpuid_to_nodeid (mclust m) (unat x div 0x20000) = int nid"
  shows "vmmio_emulate (vgic_call ops mpidr cpu) v a m =
    Inr (Wait, a\<lparr>moffset := x mod 0x20000\<rparr>,
      post m (int nid) MSG_MMIO_REQUEST (MmioReq (a\<lparr>moffset := x mod 0x20000\<rparr>) (ucast (x div 0x20000))) cpu Unicast)"
proof -
  have d: "unat (x div 0x20000) = unat x div 0x20000" by (simp add: unat_div)
  have "unat x < 0xf60000" using assms(2) by (simp add: word_less_nat_alt)
  then have b: "unat (x div 0x20000) < 2 ^ 31" using d by simp
  show ?thesis
    using assms find_gicr [OF assms(1,2)] small_word32 [OF b] d
    by (simp add: vmmio_emulate_def vgic_call_def vgicr_mmio_read_def vmmio_forward_def Let_def)
qed

lemma forwarded_read_answers:
  assumes "pmap m = v3_regions @ rest" "x < 0xf60000" "mipa a = 0x080a0000 + x" "\<not> wnr a"
    and "node_vcpu m (int (unat x div 0x20000)) = Some v"
    and "vgicr_mmio_read_core m v (a\<lparr>moffset := x mod 0x20000\<rparr>) = Inr (k, b, m')"
  shows "vmmio_req_recv_intr (vgic_call ops mpidr cpu) g (a\<lparr>moffset := y\<rparr>) (ucast (x div 0x20000)) m =
    Inr (m\<lparr>msent := msent m @ [Unicast (msg_reply (me m) g MSG_MMIO_REPLY
      (MmioReply (mipa a) (mval b) (if k < 0 then VMMIO_FAILED else VMMIO_OK)) None)]\<rparr>)"
proof -
  have d: "unat (x div 0x20000) = unat x div 0x20000" by (simp add: unat_div)
  have "unat x < 0xf60000" using assms(2) by (simp add: word_less_nat_alt)
  then have b: "unat (x div 0x20000) < 2 ^ 31" using d by simp
  show ?thesis
    using assms find_gicr [OF assms(1,2)] small_word32 [OF b] d vgicr_read_keeps [OF assms(6)]
    by (simp add: vmmio_req_recv_intr_def vmmio_emulate_def vgic_call_def vgicr_mmio_read_def as_ret_def Let_def)
qed

text \<open>
  C13.  A guest's read of the redistributor of a vCPU that another node runs: the local handler sends
  that node one request and waits, the remote handler answers the requester under the same connection
  id with the value its own vCPU's register has, and that value is what the waiting access returns.
\<close>

theorem redistributor_read_across_nodes:
  assumes "pmap m = v3_regions @ rest" "pmap n = v3_regions @ rest'" "x < 0xf60000" "mipa a = 0x080a0000 + x" "\<not> wnr a"
    and "node_vcpu m (int (unat x div 0x20000)) = None"
    and "vcpuid_to_nodeid (mclust m) (unat x div 0x20000) = int (me n)"
    and "node_vcpu n (int (unat x div 0x20000)) = Some v'"
    and "vgicr_mmio_read_core n v' (a\<lparr>moffset := x mod 0x20000\<rparr>) = Inr (k, b, n')"
  shows "\<exists>a1 m1 g n1 rep. vmmio_emulate (vgic_call ops mpidr cpu) v a m = Inr (Wait, a1, m1) \<and>
      msent m1 = msent m @ [Unicast g] \<and> dst_id g = me n \<and> payload g = MmioReq a1 (ucast (x div 0x20000)) \<and>
      vmmio_req_recv_intr (vgic_call ops mpidr cpu') g a1 (ucast (x div 0x20000)) n = Inr n1 \<and>
      msent n1 = msent n @ [Unicast rep] \<and> dst_id rep = me m \<and> connectionid rep = connectionid g \<and>
      payload rep = MmioReply (mipa a) (mval b) (if k < 0 then VMMIO_FAILED else VMMIO_OK) \<and>
      vmmio_recv_reply a1 (mipa a) (mval b) = Inr (a1\<lparr>mval := mval b\<rparr>)"
proof -
  let ?a = "a\<lparr>moffset := x mod 0x20000\<rparr>" and ?r = "ucast (x div 0x20000) :: u32"
  obtain g c where g: "msg_init_reqcpu (me m) (mconid m) (me n) MSG_MMIO_REQUEST (MmioReq ?a ?r) None cpu = (g, c)"
    by (cases "msg_init_reqcpu (me m) (mconid m) (me n) MSG_MMIO_REQUEST (MmioReq ?a ?r) None cpu")
  have gf: "dst_id g = me n \<and> src_id g = me m \<and> payload g = MmioReq ?a ?r"
    using g by (auto simp: msg_init_reqcpu_def msginitcore_def split: prod.splits)
  have s: "vmmio_emulate (vgic_call ops mpidr cpu) v a m = Inr (Wait, ?a, m\<lparr>msent := msent m @ [Unicast g], mconid := c\<rparr>)"
    using forwarded_read_sends [OF assms(1,3-7)] g by (simp add: post_def)
  let ?rep = "msg_reply (me n) g MSG_MMIO_REPLY (MmioReply (mipa a) (mval b) (if k < 0 then VMMIO_FAILED else VMMIO_OK)) None"
  show ?thesis
    by (rule exI [of _ ?a], rule exI, rule exI [of _ g], rule exI [of _ "n\<lparr>msent := msent n @ [Unicast ?rep]\<rparr>"],
        rule exI [of _ ?rep], intro conjI, rule s)
      (use forwarded_read_answers [OF assms(2-5,8,9), of ops mpidr cpu' g "x mod 0x20000"] gf in
        \<open>simp_all add: msg_reply_def msginitcore_def vmmio_recv_reply_def\<close>)
qed

text \<open>The guest reads the type register of vCPU 2's redistributor on node 0; node 1 runs that vCPU.\<close>

definition example_node1 :: "gicv3 machine" where
  "example_node1 = vgic_v3_init (example_machine\<lparr>me := 1, mclust := example_cluster,
     lvcpus := [zero_vcpu\<lparr>vcpuid := 2\<rparr>, zero_vcpu\<lparr>vcpuid := 3, pcpu := 1\<rparr>]\<rparr>)"

theorem redistributor_read_across_nodes_witness:
  "\<exists>a1 m1. vmmio_emulate (vgic_call gicv3_irqchip (\<lambda>_. 0) 0) 0 (example_access\<lparr>mipa := 0x080e0008, wnr := False\<rparr>)
     (vgic_v3_init (example_machine\<lparr>mclust := example_cluster\<rparr>)) = Inr (Wait, a1, m1) \<and> length (msent m1) = 1"
proof -
  let ?m = "vgic_v3_init (example_machine\<lparr>mclust := example_cluster\<rparr>)"
  let ?a = "example_access\<lparr>mipa := 0x080e0008, wnr := False\<rparr>"
  have pm: "pmap ?m = v3_regions @ []" "pmap example_node1 = v3_regions @ []"
    unfolding example_node1_def v3_init_regions by (simp_all add: example_machine_def)
  have "\<not> isl (vgicr_mmio_read_core example_node1 0 (?a\<lparr>moffset := 0x40008 mod 0x20000\<rparr>))" by code_simp
  then obtain k b n' where r: "vgicr_mmio_read_core example_node1 0 (?a\<lparr>moffset := 0x40008 mod 0x20000\<rparr>) = Inr (k, b, n')"
    by (auto simp: isl_def) (metis obj_sumE surj_pair)
  have x: "(0x40008 :: u64) < 0xf60000" "mipa ?a = 0x080a0000 + 0x40008" "\<not> wnr ?a" by code_simp+
  have d: "unat (0x40008 :: u64) div 0x20000 = 2" by simp
  have l: "node_vcpu ?m (int (unat (0x40008 :: u64) div 0x20000)) = None" unfolding d by code_simp
  have c: "vcpuid_to_nodeid (mclust ?m) (unat (0x40008 :: u64) div 0x20000) = int (me example_node1)"
    unfolding d by code_simp
  have n: "node_vcpu example_node1 (int (unat (0x40008 :: u64) div 0x20000)) = Some 0" unfolding d by code_simp
  have e: "msent ?m = []" by code_simp
  show ?thesis
    using redistributor_read_across_nodes [OF pm x l c n r, of gicv3_irqchip "\<lambda>_. 0" 0 0 0] e
    by auto
qed

end
