(* ===== verification/Irq_Path.thy ===== *)
theory Irq_Path
  imports Vgic
begin

text \<open>
  The path of a physical interrupt: \<^verbatim>\<open>irq_entry\<close> and \<^verbatim>\<open>handle_irq\<close> of \<^verbatim>\<open>core/irq.c\<close>, the handler loops
  of the two drivers and \<^verbatim>\<open>cpu_sgi_handler\<close> of \<^verbatim>\<open>core/pcpu.c\<close>.  What the acknowledge register returns
  is an input: the list of its values up to the spurious id 1023 that ends the loop.  \<open>run\<close> is the call
  of a handler the hypervisor registered.
\<close>

section \<open>Handlers\<close>

definition handle_irq ::
    "'c gic_irqchip \<Rightarrow> (nat \<Rightarrow> 'c machine \<Rightarrow> 'c machine res) \<Rightarrow> nat \<Rightarrow> int \<Rightarrow> 'c machine \<Rightarrow> (bool \<times> 'c machine) res" where
  "handle_irq ops run cpu irqno m =
     (case irq_get irqno of
        None \<Rightarrow> Inl (Undefined ''irq_get'')
      | Some k \<Rightarrow>
          let m1 = upd_irq k (\<lambda>iq. iq\<lparr>nhandle := (nhandle iq)(cpu := nhandle iq cpu + 1)\<rparr>) m in
          (case handler (irqlist m1 ! k) of
             Some h \<Rightarrow> bind_res (run h m1) (\<lambda>m2. Inr (True, m2))
           | None \<Rightarrow>
               let m2 = m1\<lparr>chip := guest_eoi ops cpu (of_int irqno) (chip m1)\<rparr>
               in bind_res (vgic_inject_virq ops cpu cpu irqno m2) (\<lambda>(_, m3). Inr (False, m3))))"

definition SGI_STOP :: int where "SGI_STOP = 1"
definition SGI_DO_RECVQ :: int where "SGI_DO_RECVQ = 2"

definition cpu_sgi_handler :: "'c gic_irqchip \<Rightarrow> nat \<Rightarrow> int \<Rightarrow> 'c machine \<Rightarrow> 'c machine res" where
  "cpu_sgi_handler ops cpu sgi m =
     (if sgi = SGI_INJECT then vgic_inject_pending_irqs ops cpu m
      else if sgi = SGI_STOP then Inl (Hang ''cpu_stop_local'')
      else if sgi = SGI_DO_RECVQ then Inr m
      else Inl (Panic ''unknown sgi''))"

definition host_done :: "'c gic_irqchip \<Rightarrow> nat \<Rightarrow> u32 \<Rightarrow> 'c machine \<Rightarrow> 'c machine" where
  "host_done ops cpu iar m = m\<lparr>chip := host_eoi ops cpu iar (chip m)\<rparr>"

text \<open>One round of a driver's loop for the acknowledged value \<open>iar\<close> with interrupt id \<open>i\<close>.\<close>

definition irq_round ::
    "'c gic_irqchip \<Rightarrow> (nat \<Rightarrow> 'c machine \<Rightarrow> 'c machine res) \<Rightarrow> nat \<Rightarrow> u32 \<Rightarrow> int \<Rightarrow> 'c machine \<Rightarrow> 'c machine res" where
  "irq_round ops run cpu iar i m =
     (if is_ppi_spi i then
        bind_res (handle_irq ops run cpu i m) (\<lambda>(handled, m1). Inr (if handled then host_done ops cpu iar m1 else m1))
      else if is_sgi i then bind_res (cpu_sgi_handler ops cpu i m) (\<lambda>m1. Inr (host_done ops cpu iar m1))
      else Inl (Panic ''irq''))"

fun gicv2_irq_handler ::
    "(nat \<Rightarrow> gicv2 machine \<Rightarrow> gicv2 machine res) \<Rightarrow> nat \<Rightarrow> u32 list \<Rightarrow> gicv2 machine \<Rightarrow> gicv2 machine res" where
  "gicv2_irq_handler run cpu [] m = Inr m"
| "gicv2_irq_handler run cpu (iar # iars) m =
     (let i = uint (iar AND 0x3ff) in
      if i = 1023 then Inr m
      else bind_res (irq_round gicv2_irqchip run cpu iar i m) (gicv2_irq_handler run cpu iars))"

fun gicv3_irq_handler ::
    "(nat \<Rightarrow> gicv3 machine \<Rightarrow> gicv3 machine res) \<Rightarrow> nat \<Rightarrow> u32 list \<Rightarrow> gicv3 machine \<Rightarrow> gicv3 machine res" where
  "gicv3_irq_handler run cpu [] m = Inr m"
| "gicv3_irq_handler run cpu (iar # iars) m =
     (if uint iar = 1023 then Inr m
      else bind_res (irq_round gicv3_irqchip run cpu iar (uint iar) m) (gicv3_irq_handler run cpu iars))"

section \<open>Entry\<close>

text \<open>The interrupt counters of \<^verbatim>\<open>struct pcpu\<close>; the receive queue is \<open>recv_waitq\<close> of \<open>Msg\<close>.\<close>

record pcpu_irq =
  irq_depth :: int
  lazyirq_enabled :: bool
  lazyirq_depth :: int

definition irq_enter :: "pcpu_irq \<Rightarrow> pcpu_irq" where "irq_enter p = p\<lparr>irq_depth := irq_depth p + 1\<rparr>"
definition irq_exit :: "pcpu_irq \<Rightarrow> pcpu_irq" where "irq_exit p = p\<lparr>irq_depth := irq_depth p - 1\<rparr>"
definition in_interrupt :: "pcpu_irq \<Rightarrow> bool" where "in_interrupt p \<longleftrightarrow> irq_depth p \<noteq> 0"

definition lazyirq_enter :: "pcpu_irq \<Rightarrow> pcpu_irq" where
  "lazyirq_enter p = p\<lparr>lazyirq_enabled := False, lazyirq_depth := lazyirq_depth p + 1\<rparr>"

definition lazyirq_exit :: "pcpu_irq \<Rightarrow> pcpu_irq" where
  "lazyirq_exit p = p\<lparr>lazyirq_enabled := True, lazyirq_depth := lazyirq_depth p - 1\<rparr>"

text \<open>
  \<open>irqs_on\<close> is \<^verbatim>\<open>local_irq_enabled()\<close>, \<open>loop\<close> the handler of the chip, \<open>none_left\<close> the test of the receive
  queue and \<open>recv\<close> is \<^verbatim>\<open>do_recv_waitqueue\<close>.
\<close>

definition irq_entry ::
    "bool \<Rightarrow> (pcpu_irq \<Rightarrow> 's \<Rightarrow> (pcpu_irq \<times> 's) res) \<Rightarrow> ('s \<Rightarrow> bool) \<Rightarrow> (pcpu_irq \<Rightarrow> 's \<Rightarrow> (pcpu_irq \<times> 's) res) \<Rightarrow>
     pcpu_irq \<Rightarrow> 's \<Rightarrow> (pcpu_irq \<times> 's) res" where
  "irq_entry irqs_on loop none_left recv p s =
     (if irqs_on then Inl (Panic ''local irq enabled?'')
      else bind_res (loop (irq_enter p) s) (\<lambda>(p1, s1).
        let p2 = irq_exit p1 in
        if \<not> none_left s1 \<and> \<not> in_interrupt p2 \<and> lazyirq_enabled p2 then recv p2 s1 else Inr (p2, s1)))"

section \<open>End of interrupt\<close>

text \<open>The values written to the end-of-interrupt and to the deactivation register of the GICv3.\<close>

definition written :: "string \<Rightarrow> gicv3 machine \<Rightarrow> u64 list" where
  "written r m = map snd (filter (\<lambda>w. fst w = SYSREG r) (log3 (chip m)))"

definition eoi :: string where "eoi = ''icc_eoir1_el1''"
definition dir :: string where "dir = ''icc_dir_el1''"

lemma inject_log: "gicv3_inject_guest_irq cpu p c = Inr (rc, c') \<Longrightarrow> log3 c' = log3 c"
  by (cases "find_free3 c cpu (of_int (p_virq p)) None [0..<max_lr3 c]")
    (auto simp: gicv3_inject_guest_irq_def Let_def bind_res_eq_Inr gicv3_write_lr_def split: if_splits option.splits)

lemma sgi_log: "gicv3_send_sgi cpu g c = Inr c' \<Longrightarrow> \<exists>v. log3 c' = log3 c @ [(SYSREG ''icc_sgi1r_el1'', v)]"
  by (auto simp: gicv3_send_sgi_def Let_def reg_write3_def split: sgi_mode.splits)

definition quiet :: "gicv3 machine \<Rightarrow> gicv3 machine \<Rightarrow> bool" where
  "quiet m m' \<longleftrightarrow> written eoi m' = written eoi m \<and> written dir m' = written dir m \<and> irqlist m' = irqlist m"

lemma inject_now_quiet: "inject_now gicv3_irqchip cpu p m = Inr m' \<Longrightarrow> quiet m m'"
  by (auto simp: inject_now_def bind_res_eq_Inr gicv3_irqchip_def quiet_def written_def dest: inject_log)

lemma inject_local_quiet:
  assumes "vgic_inject_virq_local gicv3_irqchip cpu v p m = Inr (rc, m')"
  shows "quiet m m'"
proof (cases "v = cpu")
  case True
  then show ?thesis using assms inject_now_quiet by (auto simp: vgic_inject_virq_local_def bind_res_eq_Inr)
next
  case False
  then obtain d c where "gicv3_send_sgi cpu \<lparr>sgi_id = SGI_INJECT, targets = push_bit (pcpu (lvcpus m ! v)) 1, mode = SGI_ROUTE_TARGETS\<rparr> (chip m) = Inr c"
      "m' = (set_vcpu v d m)\<lparr>chip := c\<rparr>"
    using assms by (auto simp: vgic_inject_virq_local_def Let_def cpu_send_inject_sgi_def bind_res_eq_Inr gicv3_irqchip_def split: if_splits)
  then show ?thesis using sgi_log by (fastforce simp: quiet_def written_def eoi_def dir_def)
qed

lemma inject_quiet: "vgic_inject_virq gicv3_irqchip cpu v i m = Inr (rc, m') \<Longrightarrow> quiet m m'"
  using inject_local_quiet
  by (auto simp: vgic_inject_virq_def bind_res_eq_Inr Let_def quiet_def split: if_splits option.splits)

lemma quiet_trans: "quiet a b \<Longrightarrow> quiet b c \<Longrightarrow> quiet a c"
  by (simp add: quiet_def)

lemma pending_quiet: "inject_pending gicv3_irqchip cpu k h m = Inr (h', m') \<Longrightarrow> quiet m m'"
proof (induction k arbitrary: h m)
  case (Suc k)
  show ?case
  proof (cases "h = ptail (lvcpus m ! cpu)")
    case False
    then obtain p m1 where "inject_now gicv3_irqchip cpu p m = Inr m1" "inject_pending gicv3_irqchip cpu k ((h + 1) mod 4) m1 = Inr (h', m')"
      using Suc.prems by (auto simp: bind_res_eq_Inr split: option.splits)
    then show ?thesis using quiet_trans [OF inject_now_quiet Suc.IH] by blast
  qed (use Suc.prems in \<open>simp add: quiet_def\<close>)
qed simp

lemma sgi_quiet: "cpu_sgi_handler gicv3_irqchip cpu i m = Inr m' \<Longrightarrow> quiet m m'"
  using pending_quiet
  by (fastforce simp: cpu_sgi_handler_def vgic_inject_pending_irqs_def bind_res_eq_Inr quiet_def written_def split: if_splits)

text \<open>An interrupt the hypervisor itself completes: a software-generated one, or one with a handler.\<close>

definition for_host :: "gicv3 machine \<Rightarrow> u32 \<Rightarrow> bool" where
  "for_host m iar \<longleftrightarrow> uint iar < 16 \<or> handler (irqlist m ! nat (uint iar)) \<noteq> None"

lemma host_done_written:
  "written eoi (host_done gicv3_irqchip cpu iar m) = written eoi m @ [ucast iar]"
  "written dir (host_done gicv3_irqchip cpu iar m) = written dir m @ [ucast (iar AND 0x3ff)]"
  "irqlist (host_done gicv3_irqchip cpu iar m) = irqlist m"
  by (simp_all add: host_done_def gicv3_irqchip_def written_def gicv3_host_eoi_def reg_write3_def eoi_def dir_def)

text \<open>What the loop relies on: a registered handler leaves these two registers and the table alone.\<close>

definition handlers_quiet :: "(nat \<Rightarrow> gicv3 machine \<Rightarrow> gicv3 machine res) \<Rightarrow> bool" where
  "handlers_quiet run \<longleftrightarrow> (\<forall>h a b. run h a = Inr b \<longrightarrow> written eoi b = written eoi a \<and> written dir b = written dir a \<and>
     map handler (irqlist b) = map handler (irqlist a))"

lemma for_host_cong: "map handler (irqlist m') = map handler (irqlist m) \<Longrightarrow> length (irqlist m) = NIRQ \<Longrightarrow> uint iar < int NIRQ \<Longrightarrow> for_host m' iar = for_host m iar"
proof -
  assume a: "map handler (irqlist m') = map handler (irqlist m)" "length (irqlist m) = NIRQ" "uint iar < int NIRQ"
  have "length (irqlist m') = NIRQ" using map_eq_imp_length_eq [OF a(1)] a(2) by simp
  moreover have "nat (uint iar) < NIRQ" by (simp only: nat_less_iff [OF uint_ge_0] a(3))
  ultimately have "handler (irqlist m' ! nat (uint iar)) = handler (irqlist m ! nat (uint iar))"
    using a(1,2) by (metis nth_map)
  then show ?thesis by (simp add: for_host_def)
qed

lemma upd_irq_facts:
  assumes "\<And>iq. handler (f iq) = handler iq"
  shows "map handler (irqlist (upd_irq k f m)) = map handler (irqlist m)" "chip (upd_irq k f m) = chip m"
proof -
  have "map handler ((irqlist m)[k := f (irqlist m ! k)]) = map handler ((irqlist m)[k := irqlist m ! k])"
    by (simp only: map_update assms)
  then show "map handler (irqlist (upd_irq k f m)) = map handler (irqlist m)" by (simp add: upd_irq_def)
qed (simp add: upd_irq_def)

lemma round_written:
  assumes r: "irq_round gicv3_irqchip run cpu iar (uint iar) m = Inr m'" and l: "length (irqlist m) = NIRQ"
    and run: "handlers_quiet run"
  shows "written eoi m' = written eoi m @ [ucast iar]"
    and "written dir m' = written dir m @ (if for_host m iar then [ucast (iar AND 0x3ff)] else [])"
    and "map handler (irqlist m') = map handler (irqlist m)" and "uint iar < int NIRQ"
proof -
  have "written eoi m' = written eoi m @ [ucast iar] \<and>
     written dir m' = written dir m @ (if for_host m iar then [ucast (iar AND 0x3ff)] else []) \<and>
     map handler (irqlist m') = map handler (irqlist m) \<and> uint iar < int NIRQ"
  proof (cases "is_ppi_spi (uint iar)")
    case True
    then obtain handled m1 where h: "handle_irq gicv3_irqchip run cpu (uint iar) m = Inr (handled, m1)"
        "m' = (if handled then host_done gicv3_irqchip cpu iar m1 else m1)"
      using r by (auto simp: irq_round_def bind_res_eq_Inr)
    obtain k where k: "irq_get (uint iar) = Some k" "k = nat (uint iar)" "uint iar < int NIRQ"
      using h(1) by (auto simp: handle_irq_def irq_get_def split: option.splits if_splits)
    let ?f = "\<lambda>iq. iq\<lparr>nhandle := (nhandle iq)(cpu := nhandle iq cpu + 1)\<rparr>"
    let ?m = "upd_irq k ?f m"
    have u: "map handler (irqlist ?m) = map handler (irqlist m)" "chip ?m = chip m" by (rule upd_irq_facts; simp)+
    have kl: "k < length (irqlist m)" unfolding l k(2) by (simp only: nat_less_iff [OF uint_ge_0] k(3))
    then have hk: "handler (irqlist ?m ! k) = handler (irqlist m ! k)" by (simp add: upd_irq_def)
    have w: "written x ?m = written x m" for x using u(2) by (simp add: written_def)
    have ge: "\<not> uint iar < 16" using True by (simp add: is_ppi_spi_def)
    show ?thesis
    proof (cases "handler (irqlist m ! k)")
      case None
      let ?g = "?m\<lparr>chip := gicv3_guest_eoi cpu (of_int (uint iar)) (chip ?m)\<rparr>"
      obtain rc where j: "vgic_inject_virq gicv3_irqchip cpu cpu (uint iar) ?g = Inr (rc, m1)" "\<not> handled"
        using h(1) k(1) hk None by (auto simp: handle_irq_def Let_def bind_res_eq_Inr gicv3_irqchip_def)
      have "written eoi ?g = written eoi m @ [ucast iar]" "written dir ?g = written dir m" "irqlist ?g = irqlist ?m"
        using w by (simp_all add: written_def gicv3_guest_eoi_def reg_write3_def eoi_def dir_def u(2))
      then show ?thesis using inject_quiet [OF j(1)] h(2) j(2) k(2,3) None u(1) ge by (simp add: quiet_def for_host_def)
    next
      case (Some hd)
      then have j: "run hd ?m = Inr m1" "handled"
        using h(1) k(1) hk by (auto simp: handle_irq_def Let_def bind_res_eq_Inr)
      then show ?thesis
        using run [unfolded handlers_quiet_def, rule_format, OF j(1)] w h(2) k(2,3) Some u(1) by (simp add: host_done_written for_host_def)
    qed
  next
    case False
    then obtain m1 where h: "is_sgi (uint iar)" "cpu_sgi_handler gicv3_irqchip cpu (uint iar) m = Inr m1" "m' = host_done gicv3_irqchip cpu iar m1"
      using r by (auto simp: irq_round_def bind_res_eq_Inr split: if_splits)
    then show ?thesis
      using sgi_quiet [OF h(2)] by (simp add: host_done_written quiet_def for_host_def is_sgi_def NIRQ_def)
  qed
  then show "written eoi m' = written eoi m @ [ucast iar]"
    and "written dir m' = written dir m @ (if for_host m iar then [ucast (iar AND 0x3ff)] else [])"
    and "map handler (irqlist m') = map handler (irqlist m)" and "uint iar < int NIRQ" by blast+
qed

lemma round_ids:
  assumes "gicv3_irq_handler run cpu iars m = Inr m'" and "length (irqlist m) = NIRQ" and "\<forall>iar \<in> set iars. uint iar \<noteq> 1023"
    and run: "handlers_quiet run"
    and "iar \<in> set iars"
  shows "uint iar < int NIRQ"
  using assms(1-3,5)
proof (induction iars arbitrary: m)
  case (Cons x iars)
  obtain m1 where m1: "irq_round gicv3_irqchip run cpu x (uint x) m = Inr m1" "gicv3_irq_handler run cpu iars m1 = Inr m'"
    using Cons.prems(1,3) by (auto simp: bind_res_eq_Inr)
  note r = round_written [OF m1(1) Cons.prems(2) run]
  have "length (irqlist m1) = NIRQ" using map_eq_imp_length_eq [OF r(3)] Cons.prems(2) by simp
  then show ?case using Cons.IH [OF m1(2)] Cons.prems(3,4) r(4) by auto
qed simp

section \<open>Property\<close>

text \<open>
  C11.  The GICv3 interrupt loop ends every acknowledged interrupt exactly once, in the order of
  acknowledgement, and deactivates exactly those that were for the hypervisor: the software-generated
  ones and those with a registered handler.  An interrupt for the guest stays active until the guest
  itself ends it.  The registered handlers are assumed not to touch these two registers and the table.
\<close>

theorem gicv3_every_irq_ended_once:
  assumes "gicv3_irq_handler run cpu iars m = Inr m'" and "length (irqlist m) = NIRQ" and "\<forall>iar \<in> set iars. uint iar \<noteq> 1023"
    and "handlers_quiet run"
  shows "written eoi m' = written eoi m @ map ucast iars \<and>
    written dir m' = written dir m @ map (\<lambda>iar. ucast (iar AND 0x3ff)) (filter (for_host m) iars)"
  using assms(1-3)
proof (induction iars arbitrary: m)
  case (Cons iar iars)
  obtain m1 where m1: "irq_round gicv3_irqchip run cpu iar (uint iar) m = Inr m1" "gicv3_irq_handler run cpu iars m1 = Inr m'"
    using Cons.prems(1,3) by (auto simp: bind_res_eq_Inr)
  note r = round_written [OF m1(1) Cons.prems(2) assms(4)]
  have l: "length (irqlist m1) = NIRQ" using map_eq_imp_length_eq [OF r(3)] Cons.prems(2) by simp
  have "iar' \<in> set iars \<Longrightarrow> for_host m1 iar' = for_host m iar'" for iar'
  proof (rule ccontr)
    assume a: "iar' \<in> set iars" "for_host m1 iar' \<noteq> for_host m iar'"
    have "uint iar' < int NIRQ" using round_ids [OF m1(2) l _ assms(4) a(1)] Cons.prems(3) by auto
    then show False using for_host_cong [OF r(3) Cons.prems(2)] a(2) by blast
  qed
  then have "filter (for_host m1) iars = filter (for_host m) iars" by (auto intro: filter_cong)
  then show ?case using Cons.IH [OF m1(2) l] Cons.prems(3) r(1,2) by simp
qed simp

definition example_irqs :: "gicv3 machine" where
  "example_irqs = example_machine\<lparr>irqlist := (replicate 256 \<lparr>icount = 0, handler = None, nhandle = (\<lambda>_. 0)\<rparr>)
     [30 := \<lparr>icount = 1, handler = Some 0, nhandle = (\<lambda>_. 0)\<rparr>]\<rparr>"

theorem gicv3_every_irq_ended_once_witness:
  "\<exists>m'. gicv3_irq_handler (\<lambda>h m. Inr m) 0 [27, 30, 2] example_irqs = Inr m' \<and> written eoi m' = [27, 30, 2] \<and> written dir m' = [30, 2]"
proof -
  have "\<not> isl (gicv3_irq_handler (\<lambda>h m. Inr m) 0 [27, 30, 2] example_irqs)" by code_simp
  then obtain m' where m': "gicv3_irq_handler (\<lambda>h m. Inr m) 0 [27, 30, 2] example_irqs = Inr m'"
    by (auto simp: isl_def) (metis obj_sumE)
  have l: "length (irqlist example_irqs) = NIRQ" by (simp add: example_irqs_def NIRQ_def)
  have f: "filter (for_host example_irqs) [27, 30, 2] = [30, 2]" by code_simp
  have w: "written eoi example_irqs = []" "written dir example_irqs = []" by code_simp+
  show ?thesis
    using m' gicv3_every_irq_ended_once [OF m' l] unfolding f w by (auto simp: handlers_quiet_def)
qed

end
