(* ===== verification/Vpsci.thy ===== *)
theory Vpsci
  imports Vgic
begin

text \<open>
  The emulated power-state calls of the guest, \<^verbatim>\<open>core/vpsci.c\<close>.  Switching on a vCPU that another node
  runs is a message to that node and its acknowledgement; \<open>PWait\<close> is the state in between, in which the
  CPU waits for its reply slot, and \<open>vpsci_wakeup_finish\<close> is the rest of the call.
\<close>

definition PSCI_VERSION :: u32 where "PSCI_VERSION = 0x84000000"
definition PSCI_MIGRATE_INFO_TYPE :: u32 where "PSCI_MIGRATE_INFO_TYPE = 0x84000006"
definition PSCI_SYSTEM_OFF :: u32 where "PSCI_SYSTEM_OFF = 0x84000008"
definition PSCI_SYSTEM_RESET :: u32 where "PSCI_SYSTEM_RESET = 0x84000009"
definition PSCI_FEATURES :: u32 where "PSCI_FEATURES = 0x8400000a"
definition PSCI_SYSTEM_CPUON :: u32 where "PSCI_SYSTEM_CPUON = 0xc4000003"
definition PSCI_VERSION_1_1 :: u32 where "PSCI_VERSION_1_1 = push_bit 16 1 OR 1"
definition PSCI_SUCCESS :: int where "PSCI_SUCCESS = 0"
definition PSCI_NOT_SUPPORTED :: int where "PSCI_NOT_SUPPORTED = -1"
definition PSCI_DENIED :: int where "PSCI_DENIED = -3"
definition PSCI_ALREADY_ON :: int where "PSCI_ALREADY_ON = -4"

record vpsci_argv =
  funcid :: u32
  px1 :: u64
  px2 :: u64
  px3 :: u64

datatype psci_out = PRet u64 | PWait

definition vpsci_remote_cpu_wakeup :: "nat \<Rightarrow> u32 \<Rightarrow> u64 \<Rightarrow> u64 \<Rightarrow> 'c machine \<Rightarrow> 'c machine res" where
  "vpsci_remote_cpu_wakeup cpu tgt ep ctx m =
     (let nid = vcpuid_to_nodeid (mclust m) (unat tgt) in
      if nid < 0 then Inl (Panic ''node'')
      else Inr (post m nid MSG_CPU_WAKEUP (CpuWakeupMsg tgt ep ctx) cpu Unicast))"

text \<open>The header of the reply is read as that of an acknowledgement, whatever type it has.\<close>

definition recv_wakeup_reply :: "vm_hdr msg \<Rightarrow> int res" where
  "recv_wakeup_reply reply = (case payload reply of CpuWakeupAck ret \<Rightarrow> Inr ret | _ \<Rightarrow> Inl (Undefined ''ack->ret''))"

text \<open>What \<^verbatim>\<open>vpsci_remote_cpu_wakeup\<close> returns when the reply is in the slot of its CPU, or the wait is over.\<close>

definition vpsci_wakeup_finish :: "nat \<Rightarrow> vm_hdr rx \<Rightarrow> (u64 \<times> vm_hdr rx) res" where
  "vpsci_wakeup_finish cpu r =
     bind_res (wait_reply cpu r) (\<lambda>(rep, r1). bind_res (recv_wakeup_reply rep) (\<lambda>ret. Inr (of_int ret, r1)))"

definition vpsci_vcpu_wakeup_local :: "nat option \<Rightarrow> u64 \<Rightarrow> 'c machine \<Rightarrow> (int \<times> 'c machine) res" where
  "vpsci_vcpu_wakeup_local tgt ep m =
     (case tgt of
        None \<Rightarrow> Inl (Panic ''no vcpu to wakeup in this node'')
      | Some v \<Rightarrow>
          let c = lvcpus m ! v in
          if online c then Inr (PSCI_ALREADY_ON, m)
          else
            let c1 = c\<lparr>elr := ep\<rparr>;
                status = (if pcpu_wakeup m (pcpu c) then PSCI_SUCCESS
                          else if bootable m (pcpu c) then PSCI_SUCCESS else PSCI_DENIED);
                c2 = (if status = PSCI_SUCCESS then c1\<lparr>online := True\<rparr> else c1)
            in Inr (status, set_vcpu v c2 m))"

definition cpu_wakeup_recv_intr :: "vm_hdr msg \<Rightarrow> 'c machine \<Rightarrow> 'c machine res" where
  "cpu_wakeup_recv_intr g m =
     (case payload g of
        CpuWakeupMsg vid ep ctx \<Rightarrow>
          (case node_vcpu m (sint vid) of
             None \<Rightarrow> Inl (Panic ''target'')
           | Some v \<Rightarrow>
               bind_res (vpsci_vcpu_wakeup_local (Some v) ep m) (\<lambda>(ret, m1).
                 Inr (m1\<lparr>msent := msent m1 @ [Unicast (msg_reply (me m1) g MSG_CPU_WAKEUP_ACK (CpuWakeupAck ret) None)]\<rparr>)))
      | _ \<Rightarrow> Inl (Undefined ''hdr->vcpuid''))"

definition vpsci_cpu_on :: "nat \<Rightarrow> vpsci_argv \<Rightarrow> 'c machine \<Rightarrow> (psci_out \<times> 'c machine) res" where
  "vpsci_cpu_on cpu a m =
     (let vid = ucast (px1 a) :: u32 in
      case node_vcpu m (sint vid) of
        None \<Rightarrow> bind_res (vpsci_remote_cpu_wakeup cpu vid (px2 a) (px3 a) m) (\<lambda>m1. Inr (PWait, m1))
      | Some v \<Rightarrow> bind_res (vpsci_vcpu_wakeup_local (Some v) (px2 a) m) (\<lambda>(r, m1). Inr (PRet (of_int r), m1)))"

definition vpsci_features :: "vpsci_argv \<Rightarrow> int" where
  "vpsci_features a =
     (if (ucast (px1 a) :: u32) \<in> {PSCI_VERSION, PSCI_FEATURES, PSCI_SYSTEM_OFF, PSCI_SYSTEM_RESET, PSCI_SYSTEM_CPUON, PSCI_MIGRATE_INFO_TYPE}
      then 0 else PSCI_NOT_SUPPORTED)"

definition vpsci_emulate :: "nat \<Rightarrow> vpsci_argv \<Rightarrow> 'c machine \<Rightarrow> (psci_out \<times> 'c machine) res" where
  "vpsci_emulate cpu a m =
     (if funcid a = PSCI_VERSION then Inr (PRet (ucast PSCI_VERSION_1_1), m)
      else if funcid a = PSCI_MIGRATE_INFO_TYPE then Inr (PRet (of_int PSCI_NOT_SUPPORTED), m)
      else if funcid a = PSCI_FEATURES then Inr (PRet (of_int (vpsci_features a)), m)
      else if funcid a = PSCI_SYSTEM_OFF then Inl (Panic ''PSCI_SYSTEM_OFF'')
      else if funcid a = PSCI_SYSTEM_RESET then Inl (Panic ''PSCI_SYSTEM_RESET'')
      else if funcid a = PSCI_SYSTEM_CPUON then vpsci_cpu_on cpu a m
      else Inl (Panic ''unknown funcid''))"

section \<open>Properties\<close>

text \<open>What a node answers to the request to start one of its vCPUs, and what becomes of the vCPU.\<close>

definition wakeup_status :: "'c machine \<Rightarrow> vcpu \<Rightarrow> int" where
  "wakeup_status m c =
     (if online c then PSCI_ALREADY_ON else if pcpu_wakeup m (pcpu c) \<or> bootable m (pcpu c) then PSCI_SUCCESS else PSCI_DENIED)"

definition woken :: "'c machine \<Rightarrow> u64 \<Rightarrow> vcpu \<Rightarrow> vcpu" where
  "woken m ep c =
     (if online c then c else if wakeup_status m c = PSCI_SUCCESS then c\<lparr>elr := ep, online := True\<rparr> else c\<lparr>elr := ep\<rparr>)"

lemma wakeup_local_result:
  "vpsci_vcpu_wakeup_local (Some v) ep m = Inr (wakeup_status m (lvcpus m ! v), set_vcpu v (woken m ep (lvcpus m ! v)) m)"
  by (auto simp: vpsci_vcpu_wakeup_local_def wakeup_status_def woken_def Let_def PSCI_SUCCESS_def PSCI_DENIED_def set_vcpu_def)

text \<open>
  C12.  The guest switches on a vCPU that another node runs.  The local node sends one request to that
  node and waits; the remote node sets the entry point of exactly that vCPU and marks it online if it
  was off and its processor runs or can be booted, and acknowledges to the requester with
  \<^verbatim>\<open>ALREADY_ON\<close> when the vCPU was on (which it leaves alone), \<^verbatim>\<open>DENIED\<close> when the processor does not
  boot, and \<^verbatim>\<open>SUCCESS\<close> otherwise.  The acknowledgement, whichever CPU of the requesting node takes it
  from the network, reaches the reply slot of the CPU that waits, and the call returns this status to
  the guest and clears the slot.
\<close>

theorem cpu_on_across_nodes:
  assumes "funcid a = PSCI_SYSTEM_CPUON" and "vid = (ucast (px1 a) :: u32)" and "node_vcpu m (sint vid) = None"
    and "vcpuid_to_nodeid (mclust m) (unat vid) = int (me n)"
    and "node_vcpu n (sint vid) = Some v" and "st = wakeup_status n (lvcpus n ! v)" and "cpu < 8"
    and "recv_waitq r cpu = []" and "reply_buf r cpu = None"
  shows "\<exists>m1 g n1 rep r1 r2 r3. vpsci_emulate cpu a m = Inr (PWait, m1) \<and> msent m1 = msent m @ [Unicast g] \<and>
    dst_id g = me n \<and> cpu_wakeup_recv_intr g n = Inr n1 \<and>
    lvcpus n1 = (lvcpus n)[v := (if online (lvcpus n ! v) then lvcpus n ! v
        else if st = PSCI_SUCCESS then (lvcpus n ! v)\<lparr>elr := px2 a, online := True\<rparr>
        else (lvcpus n ! v)\<lparr>elr := px2 a\<rparr>)] \<and>
    msent n1 = msent n @ [Unicast rep] \<and> dst_id rep = me m \<and>
    msg_recv r rcpu rep = (r1, rcpu \<noteq> cpu) \<and> do_recv_waitqueue node0 handle cpu t r1 = Inr (t, r2) \<and>
    vpsci_wakeup_finish cpu r2 = Inr (of_int st, r3) \<and> reply_buf r3 cpu = None"
proof -
  obtain g c where g: "msg_init_reqcpu (me m) (mconid m) (me n) MSG_CPU_WAKEUP (CpuWakeupMsg vid (px2 a) (px3 a)) None cpu = (g, c)"
    by (cases "msg_init_reqcpu (me m) (mconid m) (me n) MSG_CPU_WAKEUP (CpuWakeupMsg vid (px2 a) (px3 a)) None cpu")
  have gf: "dst_id g = me n" "src_id g = me m" "payload g = CpuWakeupMsg vid (px2 a) (px3 a)"
    using g by (auto simp: msg_init_reqcpu_def msginitcore_def split: prod.splits)
  have on: "vpsci_emulate cpu a m = Inr (PWait, m\<lparr>msent := msent m @ [Unicast g], mconid := c\<rparr>)"
    using assms(1-4) g
    by (simp add: vpsci_emulate_def vpsci_cpu_on_def vpsci_remote_cpu_wakeup_def post_def Let_def PSCI_SYSTEM_CPUON_def
        PSCI_VERSION_def PSCI_MIGRATE_INFO_TYPE_def PSCI_FEATURES_def PSCI_SYSTEM_OFF_def PSCI_SYSTEM_RESET_def)
  define rep where "rep = msg_reply (me n) g MSG_CPU_WAKEUP_ACK (CpuWakeupAck st) None"
  let ?n1 = "(set_vcpu v (woken n (px2 a) (lvcpus n ! v)) n)\<lparr>msent := msent n @ [Unicast rep]\<rparr>"
  have i1: "cpu_wakeup_recv_intr g n = Inr ?n1"
    using assms(5,6) wakeup_local_result [of v "px2 a" n] gf(3) by (simp add: cpu_wakeup_recv_intr_def rep_def)
  obtain r1 r2 r3 where r: "msg_recv r rcpu rep = (r1, rcpu \<noteq> cpu)" "do_recv_waitqueue node0 handle cpu t r1 = Inr (t, r2)"
      "wait_reply cpu r2 = Inr (rep, r3)" "reply_buf r3 cpu = None"
    using reply_delivered [OF assms(7) _ g rep_def assms(8,9), of rcpu node0 handle t] by (auto simp: msg_type_is_reply_def)
  have f: "vpsci_wakeup_finish cpu r2 = Inr (of_int st, r3)"
    using r(3) by (simp add: vpsci_wakeup_finish_def recv_wakeup_reply_def rep_def msg_reply_def msginitcore_def)
  show ?thesis
    by (rule exI, rule exI [of _ g], rule exI [of _ ?n1], rule exI [of _ rep], rule exI [of _ r1], rule exI [of _ r2],
        rule exI [of _ r3], intro conjI, rule on)
      (use gf i1 r f assms(6) in \<open>simp_all add: rep_def msg_reply_def msginitcore_def woken_def\<close>)
qed

definition empty_rx :: "vm_hdr rx" where
  "empty_rx = \<lparr>recv_waitq = (\<lambda>_. []), reply_buf = (\<lambda>_. None)\<rparr>"

theorem cpu_on_across_nodes_witness:
  "\<exists>m1 n1 r2 r3. vpsci_emulate 0 \<lparr>funcid = PSCI_SYSTEM_CPUON, px1 = 2, px2 = 0x40080000, px3 = 0\<rparr>
     (example_machine\<lparr>mclust := example_cluster\<rparr>) = Inr (PWait, m1) \<and> length (msent m1) = 1 \<and>
     elr (lvcpus (n1 :: gicv3 machine) ! 0) = 0x40080000 \<and> online (lvcpus n1 ! 0) \<and> vpsci_wakeup_finish 0 r2 = Inr (0, r3)"
proof -
  let ?a = "\<lparr>funcid = PSCI_SYSTEM_CPUON, px1 = 2, px2 = 0x40080000, px3 = 0\<rparr>"
  let ?m = "example_machine\<lparr>mclust := example_cluster\<rparr>"
  let ?n = "example_machine\<lparr>me := 1, lvcpus := [zero_vcpu\<lparr>vcpuid := 2\<rparr>, zero_vcpu\<lparr>vcpuid := 3, pcpu := 1\<rparr>]\<rparr>"
  have v: "(2 :: u32) = ucast (px1 ?a)" by simp
  have h: "node_vcpu ?m (sint (2 :: u32)) = None" "vcpuid_to_nodeid (mclust ?m) (unat (2 :: u32)) = int (me ?n)"
    "node_vcpu ?n (sint (2 :: u32)) = Some 0" "PSCI_SUCCESS = wakeup_status ?n (lvcpus ?n ! 0)" by code_simp+
  have e: "msent ?m = []" "\<not> online (lvcpus ?n ! 0)" "0 < length (lvcpus ?n)" by code_simp+
  have x: "recv_waitq empty_rx 0 = []" "reply_buf empty_rx 0 = None" by (simp_all add: empty_rx_def)
  have f: "funcid ?a = PSCI_SYSTEM_CPUON" and z: "(0::nat) < 8" by simp_all
  obtain m1 g n1 rep r1 r2 r3 where r: "vpsci_emulate 0 ?a ?m = Inr (PWait, m1)" "msent m1 = msent ?m @ [Unicast g]"
      "lvcpus (n1 :: gicv3 machine) = (lvcpus ?n)[0 := (if online (lvcpus ?n ! 0) then lvcpus ?n ! 0
        else if PSCI_SUCCESS = PSCI_SUCCESS then (lvcpus ?n ! 0)\<lparr>elr := px2 ?a, online := True\<rparr>
        else (lvcpus ?n ! 0)\<lparr>elr := px2 ?a\<rparr>)]"
      "vpsci_wakeup_finish 0 r2 = Inr (of_int PSCI_SUCCESS, r3)"
    using cpu_on_across_nodes [OF f v h z x, of 1 True "\<lambda>s _. Inr s" "()"] by (elim exE conjE) (rule that)
  show ?thesis
    by (rule exI [of _ m1], rule exI [of _ n1], rule exI [of _ r2], rule exI [of _ r3])
      (use r e in \<open>simp add: PSCI_SUCCESS_def\<close>)
qed

end
