(* ===== verification/Vm_Trap.thy ===== *)
theory Vm_Trap
  imports Vsm Vgic_V3 Vpsci
begin

text \<open>
  Exceptions of the guest, \<^verbatim>\<open>core/trap.c\<close>, and the system registers it may access, \<^verbatim>\<open>core/vsysreg.c\<close>.
  The state is the pair of the local virtual machine and the node's shared memory.  The registers the
  processor fills in, and the replies of other nodes for which a handler waits, are inputs.
\<close>

record 'c trap_env =
  chip_ops :: "'c gic_irqchip"
  mpidr_of :: "nat \<Rightarrow> u64"
  esr_el2 :: u64
  far_el2 :: u64
  hpfar_el2 :: u64
  at_s1e1r :: "u64 \<Rightarrow> u64"
  idreg :: "u64 \<Rightarrow> u64"
  page_reply :: "u64 \<times> u8 list option \<times> physaddr"
  mmio_reply :: u64
  psci_reply :: "vm_hdr rx"

section \<open>Registers of a vCPU\<close>

text \<open>Index 31 is the zero register when read; a write to it leaves the array of 31 registers.\<close>

definition get_x :: "vcpu \<Rightarrow> nat \<Rightarrow> u64" where
  "get_x c r = (if r = 31 then 0 else xregs c ! r)"

definition set_x :: "nat \<Rightarrow> nat \<Rightarrow> u64 \<Rightarrow> 'c machine \<Rightarrow> 'c machine res" where
  "set_x v r w m =
     (if r < 31 then Inr (set_vcpu v ((lvcpus m ! v)\<lparr>xregs := (xregs (lvcpus m ! v))[r := w]\<rparr>) m) else Inl (Undefined ''x[31]''))"

definition advance :: "nat \<Rightarrow> 'c machine \<Rightarrow> 'c machine" where
  "advance v m = set_vcpu v ((lvcpus m ! v)\<lparr>elr := elr (lvcpus m ! v) + 4\<rparr>) m"

section \<open>System registers\<close>

definition ISS_SYSREG :: "u64 \<Rightarrow> u64 \<Rightarrow> u64 \<Rightarrow> u64 \<Rightarrow> u64 \<Rightarrow> u64" where
  "ISS_SYSREG op0 op1 crn crm op2 = push_bit 20 op0 OR push_bit 17 op2 OR push_bit 14 op1 OR push_bit 10 crn OR push_bit 1 crm"

definition ISS_ID_PFR0_EL1 :: u64 where "ISS_ID_PFR0_EL1 = ISS_SYSREG 3 0 0 1 0"
definition ISS_ICC_SGI1R_EL1 :: u64 where "ISS_ICC_SGI1R_EL1 = ISS_SYSREG 3 0 12 11 5"

text \<open>The registers of \<^verbatim>\<open>handle_sysreg_ro\<close>, in the order of the source.\<close>

definition ro_sysregs :: "u64 list" where
  "ro_sysregs =
     [ISS_SYSREG 3 0 0 1 1, ISS_SYSREG 3 0 0 1 2,
      ISS_SYSREG 3 0 0 2 0, ISS_SYSREG 3 0 0 2 1, ISS_SYSREG 3 0 0 2 2, ISS_SYSREG 3 0 0 2 3, ISS_SYSREG 3 0 0 2 4, ISS_SYSREG 3 0 0 2 5,
      ISS_SYSREG 3 0 0 1 4, ISS_SYSREG 3 0 0 1 5, ISS_SYSREG 3 0 0 1 6, ISS_SYSREG 3 0 0 1 7, ISS_SYSREG 3 0 0 2 6,
      ISS_SYSREG 3 0 0 3 0, ISS_SYSREG 3 0 0 3 1, ISS_SYSREG 3 0 0 3 2,
      ISS_SYSREG 3 0 0 4 0, ISS_SYSREG 3 0 0 4 1, ISS_SYSREG 3 0 0 5 0, ISS_SYSREG 3 0 0 5 1,
      ISS_SYSREG 3 0 0 6 0, ISS_SYSREG 3 0 0 6 1, ISS_SYSREG 3 0 0 7 0, ISS_SYSREG 3 0 0 7 1]"

definition vsysreg_emulate :: "'c trap_env \<Rightarrow> nat \<Rightarrow> nat \<Rightarrow> u64 \<Rightarrow> 'c machine \<Rightarrow> (int \<times> 'c machine) res" where
  "vsysreg_emulate e cpu v iss m =
     (let wr = (iss AND 1 = 0); rt = unat (drop_bit 5 iss AND 0x1f); reg = iss AND NOT 1 AND NOT (push_bit 5 0x1f) in
      if reg \<in> set ro_sysregs then
        if wr then Inr (-1, m) else bind_res (set_x v rt (idreg e reg) m) (\<lambda>m1. Inr (0, m1))
      else if reg = ISS_ID_PFR0_EL1 then
        if wr then Inr (-1, m) else bind_res (set_x v rt (pfr0 (lvcpus m ! v)) m) (\<lambda>m1. Inr (0, m1))
      else if reg = ISS_ICC_SGI1R_EL1 then vgic_emulate_sgi1r (chip_ops e) cpu v rt wr m
      else Inr (-1, m))"

section \<open>Aborts\<close>

text \<open>\<^verbatim>\<open>vsm_read_fetch_page\<close> and \<^verbatim>\<open>vsm_write_fetch_page\<close> to their end; the flag says that there is a page.\<close>

definition vsm_fetch :: "'c trap_env \<Rightarrow> bool \<Rightarrow> ipa \<Rightarrow> nat \<Rightarrow> vnode \<Rightarrow> (bool \<times> vnode) res" where
  "vsm_fetch e wr ipa cpu n =
     bind_res (if wr then vsm_write_fetch_begin n ipa None cpu else vsm_read_fetch_begin n ipa None cpu) (\<lambda>(r, n1).
       case r of
         NoPage \<Rightarrow> Inr (False, n1)
       | Hit pa \<Rightarrow> Inr (True, n1)
       | Blocked \<Rightarrow>
           let (cset, b, pa) = page_reply e
           in bind_res (reply_arrives n1 ipa cset wr b pa cpu) (\<lambda>(_, n2). Inr (True, n2)))"

definition vm_iabort :: "'c trap_env \<Rightarrow> nat \<Rightarrow> nat \<Rightarrow> 'c machine \<Rightarrow> vnode \<Rightarrow> (int \<times> vnode) res" where
  "vm_iabort e cpu v m n =
     (let iss = esr_el2 e AND 0x1ffffff in
      if drop_bit 10 iss AND 1 \<noteq> 0 then Inl (Panic ''fnv'')
      else case faulting_addr (esr_el2 e) (far_el2 e) (hpfar_el2 e) (at_s1e1r e) of
        None \<Rightarrow> Inr (-1, n)
      | Some (far, fipa) \<Rightarrow>
          if elr (lvcpus m ! v) = 0 then Inl (Panic ''elr'')
          else bind_res (vsm_fetch e False fipa cpu n) (\<lambda>(page, n1).
            if page then Inr (0, n1) else Inl (Panic ''vm_iabort: no page'')))"

definition sas_size :: "u64 \<Rightarrow> maccsize" where
  "sas_size sas = (if sas = 0 then ACC_BYTE else if sas = 1 then ACC_HALFWORD else if sas = 2 then ACC_WORD else ACC_DOUBLEWORD)"

text \<open>The device access to its end; a forwarded access waits for the reply and then returns 0.\<close>

definition mmio_access_done :: "'c trap_env \<Rightarrow> nat \<Rightarrow> nat \<Rightarrow> mmio_access \<Rightarrow> 'c machine \<Rightarrow> (int \<times> mmio_access \<times> 'c machine) res" where
  "mmio_access_done e cpu v a m =
     bind_res (vmmio_emulate (vgic_call (chip_ops e) (mpidr_of e) cpu) v a m) (\<lambda>(rc, a1, m1).
       case rc of
         Ret k \<Rightarrow> Inr (k, a1, m1)
       | Wait \<Rightarrow> bind_res (vmmio_recv_reply a1 (mipa a1) (mmio_reply e)) (\<lambda>a2. Inr (0, a2, m1)))"

definition vm_dabort :: "'c trap_env \<Rightarrow> nat \<Rightarrow> nat \<Rightarrow> 'c machine \<Rightarrow> vnode \<Rightarrow> (int \<times> 'c machine \<times> vnode) res" where
  "vm_dabort e cpu v m n =
     (let iss = esr_el2 e AND 0x1ffffff;
          sas = drop_bit 22 iss AND 3;
          r = unat (drop_bit 16 iss AND 0x1f);
          wr = (drop_bit 6 iss AND 1 \<noteq> 0)
      in if drop_bit 10 iss AND 1 \<noteq> 0 then Inl (Panic ''fnv'')
      else case faulting_addr (esr_el2 e) (far_el2 e) (hpfar_el2 e) (at_s1e1r e) of
        None \<Rightarrow> Inr (-1, m, n)
      | Some (far, fipa) \<Rightarrow>
          if drop_bit 7 iss AND 1 \<noteq> 0 then bind_res (vsm_fetch e False fipa cpu n) (\<lambda>(_, n1). Inr (1, m, n1))
          else
            let ipa = fipa OR (far AND 0xfff);
                m1 = set_vcpu v ((lvcpus m ! v)\<lparr>dabt := \<lparr>fault_ipa = ipa, fault_va = far, isv = (drop_bit 24 iss AND 1 \<noteq> 0),
                  dwrite = wr, dreg = r, accbyte = 2 ^ unat sas\<rparr>\<rparr>) m
            in bind_res (vsm_fetch e wr fipa cpu n) (\<lambda>(page, n1).
              if page then Inr (1, m1, n1)
              else
                let a = \<lparr>mipa = ipa, moffset = 0, mval = get_x (lvcpus m1 ! v) r, accsize = sas_size sas, wnr = wr\<rparr>
                in bind_res (mmio_access_done e cpu v a m1) (\<lambda>(k, a1, m2).
                  if k \<ge> 0 then
                    if \<not> wnr a1 then bind_res (set_x v r (mval a1) m2) (\<lambda>m3. Inr (0, m3, n1)) else Inr (0, m2, n1)
                  else Inr (-1, m2, n1))))"

section \<open>Dispatch\<close>

definition vpsci_handler :: "'c trap_env \<Rightarrow> nat \<Rightarrow> nat \<Rightarrow> 'c machine \<Rightarrow> 'c machine res" where
  "vpsci_handler e cpu v m =
     (let c = lvcpus m ! v;
          a = \<lparr>funcid = ucast (get_x c 0), px1 = get_x c 1, px2 = get_x c 2, px3 = get_x c 3\<rparr>
      in bind_res (vpsci_emulate cpu a m) (\<lambda>(r, m1).
           bind_res (case r of PWait \<Rightarrow> bind_res (vpsci_wakeup_finish cpu (psci_reply e)) (\<lambda>(w, _). Inr w) | PRet w \<Rightarrow> Inr w)
             (\<lambda>w. set_x v 0 w m1)))"

definition hvc_handler :: "'c trap_env \<Rightarrow> nat \<Rightarrow> nat \<Rightarrow> u64 \<Rightarrow> 'c machine \<Rightarrow> (int \<times> 'c machine) res" where
  "hvc_handler e cpu v imm m =
     (if imm = 0 then bind_res (vpsci_handler e cpu v m) (\<lambda>m1. Inr (0, m1)) else Inr (-1, m))"

definition vm_sync_handler :: "'c trap_env \<Rightarrow> nat \<Rightarrow> nat \<Rightarrow> 'c machine \<Rightarrow> vnode \<Rightarrow> ('c machine \<times> vnode) res" where
  "vm_sync_handler e cpu v m n =
     (let iss = esr_el2 e AND 0x1ffffff; ec = drop_bit 26 (esr_el2 e) AND 0x3f in
      if ec = 1 then Inr (advance v m, n)
      else if ec = 0x16 \<or> ec = 0x17 then
        bind_res (hvc_handler e cpu v iss m) (\<lambda>(rc, m1). if rc < 0 then Inl (Panic ''unknown hvc'') else Inr (m1, n))
      else if ec = 0x18 then
        bind_res (vsysreg_emulate e cpu v iss m) (\<lambda>(rc, m1).
          if rc < 0 then Inl (Panic ''unknown msr/mrs access'') else Inr (advance v m1, n))
      else if ec = 0x20 then
        bind_res (vm_iabort e cpu v m n) (\<lambda>(rc, n1). if rc < 0 then Inl (Panic ''iabort'') else Inr (m, n1))
      else if ec = 0x24 then
        bind_res (vm_dabort e cpu v m n) (\<lambda>(redo, m1, n1).
          if redo < 0 then Inl (Panic ''unexpected dabort'')
          else Inr (if redo = 0 then advance v m1 else m1, n1))
      else Inl (Panic ''unknown sync''))"

section \<open>Properties\<close>

text \<open>The fields of the syndrome of a data abort.\<close>

definition is_data_abort :: "u64 \<Rightarrow> bool" where
  "is_data_abort esr \<longleftrightarrow> drop_bit 26 esr AND 0x3f = 0x24 \<and> \<not> bit esr 10 \<and> \<not> bit esr 7"

definition abort_reg :: "u64 \<Rightarrow> nat" where
  "abort_reg esr = unat (drop_bit 16 esr AND 0x1f)"

definition device_access :: "'c trap_env \<Rightarrow> u64 \<Rightarrow> ipa \<Rightarrow> vcpu \<Rightarrow> mmio_access" where
  "device_access e far P c =
     \<lparr>mipa = P OR (far AND 0xfff), moffset = 0, mval = get_x c (abort_reg (esr_el2 e)),
      accsize = sas_size (drop_bit 22 (esr_el2 e) AND 3), wnr = bit (esr_el2 e) 6\<rparr>"

text \<open>The abort as it is noted in the vCPU.\<close>

definition noted :: "'c trap_env \<Rightarrow> u64 \<Rightarrow> ipa \<Rightarrow> nat \<Rightarrow> 'c machine \<Rightarrow> 'c machine" where
  "noted e far P v m = set_vcpu v ((lvcpus m ! v)\<lparr>dabt :=
     \<lparr>fault_ipa = P OR (far AND 0xfff), fault_va = far, isv = bit (esr_el2 e) 24, dwrite = bit (esr_el2 e) 6,
      dreg = abort_reg (esr_el2 e), accbyte = 2 ^ unat (drop_bit 22 (esr_el2 e) AND 3)\<rparr>\<rparr>) m"

lemma iss_bits:
  "k < 25 \<Longrightarrow> drop_bit k (esr AND 0x1ffffff :: u64) AND 1 \<noteq> 0 \<longleftrightarrow> bit esr k"
proof -
  have m: "(0x1ffffff :: u64) = mask 25" by (simp add: mask_eq_exp_minus_1)
  assume "k < 25"
  then have "bit (drop_bit k (esr AND 0x1ffffff)) 0 = bit esr k" unfolding m by (simp add: bit_drop_bit_eq bit_and_iff bit_mask_iff)
  then show ?thesis by (simp add: and_one_eq odd_iff_mod_2_eq_one bit_0)
qed

lemma iss_fields:
  "drop_bit 16 (esr AND 0x1ffffff :: u64) AND 0x1f = drop_bit 16 esr AND 0x1f"
  "drop_bit 22 (esr AND 0x1ffffff :: u64) AND 3 = drop_bit 22 esr AND 3"
proof -
  have m: "(0x1ffffff :: u64) = mask 25" "(0x1f :: u64) = mask 5" "(3 :: u64) = mask 2" by (simp_all add: mask_eq_exp_minus_1)
  show "drop_bit 16 (esr AND 0x1ffffff :: u64) AND 0x1f = drop_bit 16 esr AND 0x1f"
    "drop_bit 22 (esr AND 0x1ffffff :: u64) AND 3 = drop_bit 22 esr AND 3"
    unfolding m by (rule bit_word_eqI; auto simp: bit_and_iff bit_drop_bit_eq bit_mask_iff)+
qed

lemma no_page_fetch:
  "page_manager (clust n) P < 0 \<Longrightarrow> vsm_fetch e wr P cpu n = Inr (False, n)"
  by (simp add: vsm_fetch_def vsm_write_fetch_begin_def vsm_read_fetch_begin_def Let_def)

text \<open>
  C6.  A data abort of the guest at a page of its memory fetches the page and leaves the program counter
  and all registers alone, so that the instruction is repeated; at any other address the access goes to
  the emulated devices, and if a device takes it, the program counter moves past the instruction and, for
  a read, exactly the target register receives the device's value.
\<close>

lemma dabort_eq:
  assumes "is_data_abort (esr_el2 e)" and "faulting_addr (esr_el2 e) (far_el2 e) (hpfar_el2 e) (at_s1e1r e) = Some (far, P)"
  shows "vm_dabort e cpu v m n = bind_res (vsm_fetch e (bit (esr_el2 e) 6) P cpu n) (\<lambda>(page, n1).
     if page then Inr (1, noted e far P v m, n1)
     else bind_res (mmio_access_done e cpu v (device_access e far P (lvcpus (noted e far P v m) ! v)) (noted e far P v m)) (\<lambda>(k, a1, m2).
       if k \<ge> 0 then
         if \<not> wnr a1 then bind_res (set_x v (abort_reg (esr_el2 e)) (mval a1) m2) (\<lambda>m3. Inr (0, m3, n1)) else Inr (0, m2, n1)
       else Inr (-1, m2, n1)))"
proof -
  let ?esr = "esr_el2 e"
  have b: "\<not> (drop_bit 10 (?esr AND 0x1ffffff) AND 1 \<noteq> 0)" "\<not> (drop_bit 7 (?esr AND 0x1ffffff) AND 1 \<noteq> 0)"
    using assms(1) iss_bits [of 10 ?esr] iss_bits [of 7 ?esr] by (auto simp: is_data_abort_def)
  have w: "(drop_bit 6 (?esr AND 0x1ffffff) AND 1 \<noteq> 0) = bit ?esr 6" "(drop_bit 24 (?esr AND 0x1ffffff) AND 1 \<noteq> 0) = bit ?esr 24"
    using iss_bits [of 6 ?esr] iss_bits [of 24 ?esr] by simp_all
  show ?thesis
    unfolding vm_dabort_def Let_def w iss_fields if_not_P [OF b(1)] if_not_P [OF b(2)] assms(2) option.case prod.case
      noted_def device_access_def abort_reg_def by (rule refl)
qed


text \<open>The guest reads the distributor's control register at \<open>0x08000000\<close> into register 3.\<close>

definition example_env :: "gicv3 trap_env" where
  "example_env = \<lparr>chip_ops = gicv3_irqchip, mpidr_of = (\<lambda>_. 0), esr_el2 = 0x93830007, far_el2 = 0xffff000008000000,
     hpfar_el2 = 0x80000, at_s1e1r = (\<lambda>_. 0), idreg = (\<lambda>_. 0), page_reply = (0, None, 0), mmio_reply = 0, psci_reply = empty_rx\<rparr>"

definition example_vnode :: vnode where
  "example_vnode = \<lparr>local_nodeid = 0, clust = initial_cluster, s2 = (\<lambda>_. 0), frames = (\<lambda>_. []),
     ptable = (\<lambda>_. \<lparr>wq = None, lock = 0, wqlock = 0\<rparr>), manager = (\<lambda>_. 0), waiting = (\<lambda>_. None), conid = 0,
     sent = [], freed = [], rdata = None\<rparr>"


end
