(* ===== verification/C_String.thy ===== *)
theory C_String
  imports Memory_Model
begin

text \<open>
  The string functions of \<^verbatim>\<open>core/lib.c\<close>.  The strings the hypervisor compares are never written, so a
  \<^verbatim>\<open>const char *\<close> is the list of bytes from its target to the end of the object it points into; reading
  past that end is undefined.  \<^verbatim>\<open>char\<close> is unsigned on this target.  \<^verbatim>\<open>strcpy\<close> and \<^verbatim>\<open>strtok\<close>, which write, work
  on the memory of \<open>Memory_Model\<close>.
\<close>

section \<open>Functions\<close>

fun strlen :: "u8 list \<Rightarrow> nat res" where
  "strlen [] = Inl (Undefined ''strlen'')"
| "strlen (c # s) = (if c = 0 then Inr 0 else bind_res (strlen s) (\<lambda>n. Inr (n + 1)))"

fun strcmp :: "u8 list \<Rightarrow> u8 list \<Rightarrow> int res" where
  "strcmp (a # s) (b # t) = (if a \<noteq> 0 \<and> a = b then strcmp s t else Inr (uint a - uint b))"
| "strcmp s t = Inl (Undefined ''strcmp'')"

fun strncmp :: "u8 list \<Rightarrow> u8 list \<Rightarrow> nat \<Rightarrow> int res" where
  "strncmp (a # s) (b # t) n =
     (if a \<noteq> 0 \<and> a = b \<and> n > 0 then strncmp s t (n - 1)
      else if n = 0 then Inr 0 else Inr (uint a - uint b))"
| "strncmp (a # s) [] n = (if a = 0 \<and> n = 0 then Inr 0 else Inl (Undefined ''strncmp''))"
| "strncmp [] t n = Inl (Undefined ''strncmp'')"

fun strchr :: "u8 list \<Rightarrow> u8 \<Rightarrow> u8 list option res" where
  "strchr [] c = Inl (Undefined ''strchr'')"
| "strchr (a # s) c = (if a = 0 then Inr None else if a = c then Inr (Some (a # s)) else strchr s c)"

fun strchrlen :: "u8 list \<Rightarrow> u8 \<Rightarrow> nat res" where
  "strchrlen [] c = Inl (Undefined ''strchrlen'')"
| "strchrlen (a # s) c = (if a = 0 \<or> a = c then Inr 0 else bind_res (strchrlen s c) (\<lambda>n. Inr (n + 1)))"

text \<open>The copying loop need not end, so it is partial.\<close>

partial_function (option) strcpy :: "u64 \<Rightarrow> u64 \<Rightarrow> heap \<Rightarrow> heap option" where
  "strcpy dst src h =
     (let c = load8 h src; h1 = store8 h dst c
      in if c \<noteq> 0 then strcpy (dst + 1) (src + 1) h1 else Some h1)"

text \<open>
  \<^verbatim>\<open>strtok\<close> keeps its position in the static variable \<^verbatim>\<open>save\<close>; the result is the token, if any, with the new
  value of \<^verbatim>\<open>save\<close> and the memory.
\<close>

partial_function (option) tok_loop ::
    "u8 list \<Rightarrow> u64 \<Rightarrow> u64 \<Rightarrow> u64 \<Rightarrow> heap \<Rightarrow> (u64 option \<times> u64 \<times> heap) res option" where
  "tok_loop delims s p save h =
     (let c = load8 h p in
      if c = 0 then Some (Inr (None, save, h))
      else case strchr delims c of
             Inl e \<Rightarrow> Some (Inl e)
           | Inr (Some _) \<Rightarrow> Some (Inr (Some s, p + 1, store8 h p 0))
           | Inr None \<Rightarrow> tok_loop delims s (p + 1) save h)"

definition strtok :: "u64 option \<Rightarrow> u8 list \<Rightarrow> u64 \<Rightarrow> heap \<Rightarrow> (u64 option \<times> u64 \<times> heap) res option" where
  "strtok s1 delims save h =
     (case s1 of Some s \<Rightarrow> tok_loop delims s s s h | None \<Rightarrow> tok_loop delims save save save h)"

section \<open>Strings as lists\<close>

text \<open>The string a pointer denotes, and that it is terminated; string literals.\<close>

definition cstr :: "u8 list \<Rightarrow> u8 list" where
  "cstr s = takeWhile (\<lambda>c. c \<noteq> 0) s"

definition terminated :: "u8 list \<Rightarrow> bool" where
  "terminated s \<longleftrightarrow> 0 \<in> set s"

definition lit :: "string \<Rightarrow> u8 list" where
  "lit s = map of_char s @ [0]"

lemma cstr_simps [simp]:
  "cstr [] = []"
  "cstr (c # s) = (if c = 0 then [] else c # cstr s)"
  by (simp_all add: cstr_def)

lemma terminated_simps [simp]:
  "terminated [] = False"
  "terminated (c # s) \<longleftrightarrow> c = 0 \<or> terminated s"
  by (auto simp: terminated_def)

lemma terminated_append [simp]: "terminated (s @ t) \<longleftrightarrow> terminated s \<or> terminated t"
  by (auto simp: terminated_def)

lemma cstr_append_nul [simp]: "0 \<notin> set s \<Longrightarrow> cstr (s @ 0 # t) = s"
  by (induction s) auto

lemma lit_terminated [simp]: "terminated (lit s)"
  by (simp add: lit_def)

lemma cstr_lit [simp]: "0 \<notin> set (map of_char s :: u8 list) \<Longrightarrow> cstr (lit s) = map of_char s"
  by (simp add: lit_def)

lemma strlen_spec: "terminated s \<Longrightarrow> strlen s = Inr (length (cstr s))"
  by (induction s) auto

lemma strcmp_spec:
  "\<lbrakk>terminated s; terminated t\<rbrakk> \<Longrightarrow> \<exists>d. strcmp s t = Inr d \<and> (d = 0 \<longleftrightarrow> cstr s = cstr t)"
  by (induction s t rule: strcmp.induct) (auto simp: word_uint_eq_iff)

lemma strcmp_eq_0: "\<lbrakk>terminated s; terminated t\<rbrakk> \<Longrightarrow> strcmp s t = Inr 0 \<longleftrightarrow> cstr s = cstr t"
  using strcmp_spec [of s t] by auto

lemma strcmp_ok: "\<lbrakk>terminated s; terminated t\<rbrakk> \<Longrightarrow> \<exists>d. strcmp s t = Inr d"
  using strcmp_spec [of s t] by auto

lemma strncmp_spec:
  "\<lbrakk>terminated s; terminated t\<rbrakk> \<Longrightarrow>
   \<exists>d. strncmp s t n = Inr d \<and> (d = 0 \<longleftrightarrow> take n (cstr s) = take n (cstr t))"
proof (induction s t n rule: strncmp.induct)
  case (1 a s b t n)
  show ?case
  proof (cases "a \<noteq> 0 \<and> a = b \<and> n > 0")
    case True
    then obtain m where "n = Suc m" by (cases n) auto
    with 1 True show ?thesis by auto
  next
    case False
    then show ?thesis by (cases n) (auto simp: word_uint_eq_iff)
  qed
qed auto

lemma strchr_spec:
  "terminated s \<Longrightarrow> strchr s c =
     Inr (if c \<noteq> 0 \<and> c \<in> set (cstr s) then Some (drop (length (takeWhile (\<lambda>x. x \<noteq> c) (cstr s))) s) else None)"
  by (induction s c rule: strchr.induct) auto

lemma strchrlen_spec:
  "\<lbrakk>terminated s; c \<noteq> 0\<rbrakk> \<Longrightarrow> strchrlen s c = Inr (length (takeWhile (\<lambda>x. x \<noteq> c) (cstr s)))"
  by (induction s c rule: strchrlen.induct) auto

section \<open>strcpy\<close>

text \<open>A string of \<open>n\<close> characters at address \<open>s\<close>, and ranges that share no address.\<close>

definition string_at :: "heap \<Rightarrow> u64 \<Rightarrow> nat \<Rightarrow> bool" where
  "string_at h s n \<longleftrightarrow>
     unat s + n < 2 ^ 64 \<and> (\<forall>i < n. load8 h (s + of_nat i) \<noteq> 0) \<and> load8 h (s + of_nat n) = 0"

definition apart :: "u64 \<Rightarrow> u64 \<Rightarrow> nat \<Rightarrow> bool" where
  "apart d s n \<longleftrightarrow> unat d + n \<le> unat s \<or> unat s + n \<le> unat d"

lemma succ_no_wrap: "unat (d :: u64) + Suc n < 2 ^ 64 \<Longrightarrow> unat (d + 1) = unat d + 1"
  using unat_add_of_nat [of d 1] by simp

lemma string_at_Suc:
  "string_at h s (Suc n) \<Longrightarrow> load8 h s \<noteq> 0 \<and> string_at h (s + 1) n"
  using succ_no_wrap [of s n]
  by (auto simp: string_at_def add.assoc of_nat_Suc [symmetric] simp del: of_nat_Suc dest: spec [of _ 0])

lemma string_at_store:
  assumes "string_at h s n" and "\<not> in_range s (Suc n) d"
  shows "string_at (store8 h d c) s n"
proof -
  have "load8 (store8 h d c) (s + of_nat i) = load8 h (s + of_nat i)" if "i \<le> n" for i
    using assms that unat_add_of_nat [of s i] by (auto simp: in_range_def string_at_def load8_store8)
  then show ?thesis
    using assms(1) by (simp add: string_at_def)
qed

lemma strcpy_loads:
  "\<lbrakk>string_at h s n; unat d + n < 2 ^ 64; apart d s (Suc n)\<rbrakk> \<Longrightarrow>
   \<exists>h'. strcpy d s h = Some h' \<and>
     (\<forall>a. load8 h' a = (if in_range d (Suc n) a then load8 h (s + (a - d)) else load8 h a))"
proof (induction n arbitrary: d s h)
  case 0
  then have "strcpy d s h = Some (store8 h d 0)"
    by (subst strcpy.simps) (simp add: string_at_def)
  moreover have "in_range d (Suc 0) a \<longleftrightarrow> a = d" for a
    by (auto simp: in_range_def word_unat_eq_iff)
  ultimately show ?case
    using "0.prems"(1) by (auto simp: load8_store8 string_at_def)
next
  case (Suc n)
  let ?h = "store8 h d (load8 h s)"
  have s: "load8 h s \<noteq> 0" "string_at h (s + 1) n"
    using string_at_Suc [OF Suc.prems(1)] by auto
  have s1: "unat (s + 1) = unat s + 1" and d1: "unat (d + 1) = unat d + 1"
    using Suc.prems succ_no_wrap [of s n] succ_no_wrap [of d n] by (auto simp: string_at_def)
  have out: "\<not> in_range (s + 1) (Suc n) d"
    using Suc.prems(3) s1 by (auto simp: in_range_def apart_def)
  have "apart (d + 1) (s + 1) (Suc n)" "unat (d + 1) + n < 2 ^ 64"
    using Suc.prems s1 d1 by (auto simp: apart_def)
  from Suc.IH [OF string_at_store [OF s(2) out] this(2,1)]
  obtain h' where h': "strcpy (d + 1) (s + 1) ?h = Some h'"
    "\<And>a. load8 h' a = (if in_range (d + 1) (Suc n) a then load8 ?h (s + 1 + (a - (d + 1))) else load8 ?h a)"
    by blast
  have "strcpy d s h = Some h'"
    using s(1) h'(1) by (subst strcpy.simps) (simp add: Let_def)
  moreover have "load8 h' a = (if in_range d (Suc (Suc n)) a then load8 h (s + (a - d)) else load8 h a)" for a
  proof (cases "in_range (d + 1) (Suc n) a")
    case True
    have "unat (s + (a - d)) = unat s + (unat a - unat d)"
      using True d1 Suc.prems(1) by (intro unat_rebase) (auto simp: in_range_def string_at_def)
    then have "in_range (s + 1) (Suc n) (s + (a - d))"
      using True d1 s1 by (auto simp: in_range_def)
    then have "d \<noteq> s + (a - d)" using out by metis
    then show ?thesis
      using True d1 by (auto simp: h'(2) load8_store8 in_range_def algebra_simps)
  next
    case False
    then have "in_range d (Suc (Suc n)) a \<longleftrightarrow> a = d"
      using d1 by (auto simp: in_range_def word_unat_eq_iff)
    with False show ?thesis by (auto simp: h'(2) load8_store8)
  qed
  ultimately show ?case by blast
qed

text \<open>
  \<^verbatim>\<open>strcpy\<close> of a string to a place that does not overlap it ends, and leaves the memory that
  \<^verbatim>\<open>memcpy\<close> of the string with its terminator leaves.
\<close>

lemma strcpy_is_memcpy:
  assumes "string_at h s n" and "unat d + n < 2 ^ 64" and "apart d s (Suc n)"
  shows "\<exists>h'. strcpy d s h = Some h' \<and> load8 h' = load8 (memcpy d s (Suc n) h)"
  using strcpy_loads [OF assms] memmove_bytes [of d "Suc n" s h] assms
  by (fastforce simp: memcpy_def string_at_def fun_eq_iff)

definition example_string :: heap where
  "example_string = (\<lambda>a. if a = 0x2000 then 0x6968 else 0)"

lemma strcpy_is_memcpy_witness:
  "\<exists>h'. strcpy 0x1000 0x2000 example_string = Some h' \<and> load8 h' = load8 (memcpy 0x1000 0x2000 (Suc 2) example_string)"
proof (rule strcpy_is_memcpy)
  have "load8 example_string 0x2000 \<noteq> 0" "load8 example_string (0x2000 + of_nat 1) \<noteq> 0"
    "load8 example_string (0x2000 + of_nat 2) = 0"
    by (simp_all add: load8_def cell_def lane_def byte_at_def example_string_def)
  then show "string_at example_string 0x2000 2"
    by (auto simp: string_at_def less_2_cases_iff)
  show "unat (0x1000 :: u64) + 2 < 2 ^ 64" by simp
  show "apart 0x1000 0x2000 (Suc 2)" by (simp add: apart_def)
qed

end
