(* ===== verification/Device_Tree.thy ===== *)
theory Device_Tree
  imports C_String System_Memory
begin

text \<open>
  The device tree: the parser of the flattened tree, \<^verbatim>\<open>core/fdt.c\<close> and \<^verbatim>\<open>include/fdt.h\<close>, and the queries of
  \<^verbatim>\<open>core/device.c\<close>.  A node is known by the number of its allocation; the linked list of the properties
  of a node is a list.  Pointers into the flattened tree are the bytes from there to its end, as in
  \<open>C_String\<close>.  \<open>mem_left\<close> counts the objects \<^verbatim>\<open>malloc\<close> can still provide, after which it returns NULL.
  The loops over parents and siblings have as fuel the number of nodes: a longer chain is a cycle, on
  which the C loop does not end.
\<close>

section \<open>Words of the flattened tree\<close>

definition fdt32_to_u32 :: "u32 \<Rightarrow> u32" where
  "fdt32_to_u32 x =
     push_bit 24 (x AND 0xff) OR push_bit 16 (drop_bit 8 x AND 0xff) OR
     push_bit 8 (drop_bit 16 x AND 0xff) OR (drop_bit 24 x AND 0xff)"

text \<open>A 32-bit load of this little-endian machine.\<close>

fun load32 :: "u8 list \<Rightarrow> u32 res" where
  "load32 (a # b # c # d # s) = Inr (ucast a OR push_bit 8 (ucast b) OR push_bit 16 (ucast c) OR push_bit 24 (ucast d))"
| "load32 s = Inl (Undefined ''read past the end'')"

definition fdt_word :: "u8 list \<Rightarrow> u32 res" where
  "fdt_word s = bind_res (load32 s) (\<lambda>x. Inr (fdt32_to_u32 x))"

definition FDT_MAGIC :: u32 where "FDT_MAGIC = 0xd00dfeed"
definition FDT_BEGIN_NODE :: u32 where "FDT_BEGIN_NODE = 1"
definition FDT_END_NODE :: u32 where "FDT_END_NODE = 2"
definition FDT_PROP :: u32 where "FDT_PROP = 3"
definition FDT_NOP :: u32 where "FDT_NOP = 4"
definition FDT_END :: u32 where "FDT_END = 9"

record fdt =
  fdata :: "u8 list"
  off_dt_struct :: u32
  size_dt_struct :: u32
  off_dt_strings :: u32
  size_dt_strings :: u32

definition fdt_probe :: "u8 list \<Rightarrow> fdt res" where
  "fdt_probe base =
     bind_res (fdt_word base) (\<lambda>magic.
       if magic \<noteq> FDT_MAGIC then Inl (Panic ''no fdt'')
       else bind_res (fdt_word (drop 20 base)) (\<lambda>version.
         if version \<noteq> 17 then Inl (Panic ''expected version 17'')
         else
           bind_res (fdt_word (drop 8 base)) (\<lambda>st.
           bind_res (fdt_word (drop 12 base)) (\<lambda>str.
           bind_res (fdt_word (drop 36 base)) (\<lambda>stz.
           bind_res (fdt_word (drop 32 base)) (\<lambda>strz.
             Inr \<lparr>fdata = base, off_dt_struct = st, size_dt_struct = stz, off_dt_strings = str, size_dt_strings = strz\<rparr>))))))"

section \<open>Nodes\<close>

record property =
  pname :: "u8 list"
  pdata :: "u8 list"
  data_len :: u32

record device_node =
  parent :: "nat option"
  child :: "nat option"
  sibling :: "nat option"
  phandle :: u32
  dname :: "u8 list option"
  device_type :: "u8 list option"
  props :: "property list"

record dt =
  nodes :: "device_node list"
  mem_left :: nat

abbreviation dn :: "dt \<Rightarrow> nat \<Rightarrow> device_node" where
  "dn d k \<equiv> nodes d ! k"

definition upd_node :: "nat \<Rightarrow> (device_node \<Rightarrow> device_node) \<Rightarrow> dt \<Rightarrow> dt" where
  "upd_node k f d = d\<lparr>nodes := (nodes d)[k := f (dn d k)]\<rparr>"

definition dt_node_alloc :: "nat option \<Rightarrow> dt \<Rightarrow> (nat \<times> dt) res" where
  "dt_node_alloc par d =
     (if mem_left d = 0 then Inl (Panic ''nomem'')
      else
        let k = length (nodes d);
            node = \<lparr>parent = par, child = None,
                    sibling = (case par of None \<Rightarrow> None | Some p \<Rightarrow> child (dn d p)),
                    phandle = 0, dname = None, device_type = None, props = []\<rparr>;
            d1 = (case par of None \<Rightarrow> d | Some p \<Rightarrow> upd_node p (\<lambda>x. x\<lparr>child := Some k\<rparr>) d)
        in Inr (k, d1\<lparr>nodes := nodes d1 @ [node], mem_left := mem_left d - 1\<rparr>))"

definition dt_prop_alloc :: "nat \<Rightarrow> property \<Rightarrow> dt \<Rightarrow> dt res" where
  "dt_prop_alloc k p d =
     (if mem_left d = 0 then Inl (Panic ''nomem'')
      else Inr ((upd_node k (\<lambda>x. x\<lparr>props := p # props x\<rparr>) d)\<lparr>mem_left := mem_left d - 1\<rparr>))"

section \<open>fdt_parse\<close>

definition fdt_string :: "fdt \<Rightarrow> u32 \<Rightarrow> u8 list" where
  "fdt_string f nameoff = drop (unat nameoff) (drop (unat (off_dt_strings f)) (fdata f))"

text \<open>Bytes of \<open>n\<close> rounded up to whole words, in 32-bit arithmetic.\<close>

definition words_of :: "u32 \<Rightarrow> nat" where
  "words_of n = unat (drop_bit 2 ((n + 4 - 1) AND NOT (4 - 1)))"

record parse =
  pnode :: "nat option"
  proot :: "nat option"
  pdepth :: int
  ptree :: dt

definition parse_begin :: "u8 list \<Rightarrow> parse \<Rightarrow> parse res" where
  "parse_begin nm p =
     bind_res (dt_node_alloc (pnode p) (ptree p)) (\<lambda>(k, d).
       Inr (p\<lparr>pnode := Some k, proot := (case proot p of None \<Rightarrow> Some k | Some r \<Rightarrow> Some r), pdepth := pdepth p + 1,
              ptree := upd_node k (\<lambda>x. x\<lparr>dname := Some nm\<rparr>) d\<rparr>))"

definition parse_end :: "parse \<Rightarrow> parse res" where
  "parse_end p =
     (if pdepth p = 0 then Inl (Panic ''depth'')
      else case pnode p of
             None \<Rightarrow> Inl (Undefined ''node->parent'')
           | Some k \<Rightarrow> Inr (p\<lparr>pnode := parent (dn (ptree p) k), pdepth := pdepth p - 1\<rparr>))"

definition parse_prop :: "u8 list \<Rightarrow> u8 list \<Rightarrow> u32 \<Rightarrow> parse \<Rightarrow> parse res" where
  "parse_prop name dat len p =
     (case pnode p of
        None \<Rightarrow> Inl (Undefined ''node->prop'')
      | Some k \<Rightarrow>
          bind_res (dt_prop_alloc k \<lparr>pname = name, pdata = dat, data_len = len\<rparr> (ptree p)) (\<lambda>d.
          bind_res (strcmp name (lit ''device_type'')) (\<lambda>c.
            if c = 0 then Inr (p\<lparr>ptree := upd_node k (\<lambda>x. x\<lparr>device_type := Some dat\<rparr>) d\<rparr>)
            else
              bind_res (strcmp name (lit ''phandle'')) (\<lambda>c.
                if c = 0 then bind_res (fdt_word dat) (\<lambda>w. Inr (p\<lparr>ptree := upd_node k (\<lambda>x. x\<lparr>phandle := w\<rparr>) d\<rparr>))
                else Inr (p\<lparr>ptree := d\<rparr>)))))"

lemma load32_length: "load32 s = Inr w \<Longrightarrow> length s \<ge> 4"
  by (induction s rule: load32.induct) auto

lemma fdt_word_length: "fdt_word s = Inr w \<Longrightarrow> length s \<ge> 4"
  by (auto simp: fdt_word_def bind_res_eq_Inr dest: load32_length)

text \<open>The loop; \<open>cur\<close> is the rest of the structure block.\<close>

function fdt_loop :: "fdt \<Rightarrow> u8 list \<Rightarrow> parse \<Rightarrow> parse res" where
  "fdt_loop f cur p =
     (case fdt_word cur of
        Inl e \<Rightarrow> Inl e
      | Inr token \<Rightarrow>
          if token = FDT_END then Inr p
          else if token = FDT_BEGIN_NODE then
            (case parse_begin (drop 4 cur) p of
               Inl e \<Rightarrow> Inl e
             | Inr p1 \<Rightarrow>
                 (case strlen (drop 4 cur) of
                    Inl e \<Rightarrow> Inl e
                  | Inr n \<Rightarrow> fdt_loop f (drop (4 * (words_of (of_nat n + 1) + 1)) cur) p1))
          else if token = FDT_END_NODE then
            (case parse_end p of Inl e \<Rightarrow> Inl e | Inr p1 \<Rightarrow> fdt_loop f (drop 4 cur) p1)
          else if token = FDT_PROP then
            (case fdt_word (drop 4 cur) of
               Inl e \<Rightarrow> Inl e
             | Inr len \<Rightarrow>
                 (case fdt_word (drop 8 cur) of
                    Inl e \<Rightarrow> Inl e
                  | Inr nameoff \<Rightarrow>
                      (case parse_prop (fdt_string f nameoff) (drop 12 cur) len p of
                         Inl e \<Rightarrow> Inl e
                       | Inr p1 \<Rightarrow> fdt_loop f (drop (4 * (3 + words_of len)) cur) p1)))
          else if token = FDT_NOP then fdt_loop f (drop 4 cur) p
          else Inl (Panic ''fdt parser error''))"
  by pat_completeness auto
termination
  by (relation "measure (\<lambda>(f, cur, p). length cur)") (auto dest!: fdt_word_length)

declare fdt_loop.simps [simp del]

definition fdt_parse :: "fdt \<Rightarrow> nat \<Rightarrow> (nat option \<times> dt) res" where
  "fdt_parse f mem =
     bind_res (fdt_loop f (drop (unat (off_dt_struct f)) (fdata f))
         \<lparr>pnode = None, proot = None, pdepth = 0, ptree = \<lparr>nodes = [], mem_left = mem\<rparr>\<rparr>) (\<lambda>p.
       if pnode p \<noteq> None then Inl (Panic ''?'') else Inr (proot p, ptree p))"

section \<open>Traversal\<close>

text \<open>\<open>climb\<close> is the loop of \<^verbatim>\<open>next_node\<close> over the ancestors.\<close>

fun climb :: "dt \<Rightarrow> nat \<Rightarrow> nat \<Rightarrow> nat option res" where
  "climb d 0 n = Inl (Hang ''next_node'')"
| "climb d (Suc fuel) n =
     (case parent (dn d n) of
        Some p \<Rightarrow> (if sibling (dn d n) = None then climb d fuel p else Inr (sibling (dn d n)))
      | None \<Rightarrow> Inr (sibling (dn d n)))"

definition next_node :: "dt \<Rightarrow> nat option \<Rightarrow> nat option \<Rightarrow> nat option res" where
  "next_node d root prev =
     (case prev of
        None \<Rightarrow> Inr root
      | Some n \<Rightarrow>
          if child (dn d n) \<noteq> None then Inr (child (dn d n))
          else if sibling (dn d n) = None then
            (case parent (dn d n) of
               None \<Rightarrow> Inl (Undefined ''n->parent'')
             | Some p \<Rightarrow> climb d (length (nodes d)) p)
          else Inr (sibling (dn d n)))"

text \<open>\<^verbatim>\<open>for(n = next_node(prev); n; n = next_node(n)) if(f(n)) return n;\<close>\<close>

fun search_nodes :: "dt \<Rightarrow> nat option \<Rightarrow> (nat \<Rightarrow> 'a option res) \<Rightarrow> nat \<Rightarrow> nat option \<Rightarrow> (nat \<times> 'a) option res" where
  "search_nodes d root f 0 prev = Inl (Hang ''search'')"
| "search_nodes d root f (Suc fuel) prev =
     bind_res (next_node d root prev) (\<lambda>n.
       case n of
         None \<Rightarrow> Inr None
       | Some k \<Rightarrow> bind_res (f k) (\<lambda>r. case r of Some x \<Rightarrow> Inr (Some (k, x)) | None \<Rightarrow> search_nodes d root f fuel (Some k)))"

text \<open>\<^verbatim>\<open>for(c = first; c; c = c->next) if(f(c)) return c;\<close>\<close>

fun search_siblings :: "dt \<Rightarrow> (nat \<Rightarrow> bool res) \<Rightarrow> nat \<Rightarrow> nat option \<Rightarrow> nat option res" where
  "search_siblings d f fuel None = Inr None"
| "search_siblings d f 0 (Some k) = Inl (Hang ''siblings'')"
| "search_siblings d f (Suc fuel) (Some k) =
     bind_res (f k) (\<lambda>b. if b then Inr (Some k) else search_siblings d f fuel (sibling (dn d k)))"

section \<open>Properties of a node\<close>

fun find_prop :: "property list \<Rightarrow> u8 list \<Rightarrow> property option res" where
  "find_prop [] name = Inr None"
| "find_prop (p # ps) name = bind_res (strcmp (pname p) name) (\<lambda>c. if c = 0 then Inr (Some p) else find_prop ps name)"

definition dt_node_prop_raw :: "dt \<Rightarrow> nat \<Rightarrow> u8 list \<Rightarrow> (u8 list \<times> u32) option res" where
  "dt_node_prop_raw d k name =
     bind_res (find_prop (props (dn d k)) name) (\<lambda>r. Inr (map_option (\<lambda>p. (pdata p, data_len p)) r))"

fun read_cells :: "u8 list \<Rightarrow> nat \<Rightarrow> u64 \<Rightarrow> u64 res" where
  "read_cells s 0 n = Inr n"
| "read_cells s (Suc k) n = bind_res (fdt_word s) (\<lambda>w. read_cells (drop 4 s) k (push_bit 32 n OR ucast w))"

definition prop_read_number :: "u8 list \<Rightarrow> int \<Rightarrow> u64 res" where
  "prop_read_number s ncell = read_cells s (nat ncell) 0"

text \<open>
  \<^verbatim>\<open>dt_node_propa\<close> and \<^verbatim>\<open>dt_node_propa64\<close> store every cell of the property into the caller's buffer, which has
  room for \<open>cap\<close> values; the result is what they stored.
\<close>

fun read_array :: "int \<Rightarrow> u8 list \<Rightarrow> nat \<Rightarrow> u64 list res" where
  "read_array ncell s 0 = Inr []"
| "read_array ncell s (Suc k) =
     bind_res (prop_read_number s ncell) (\<lambda>w. bind_res (read_array ncell (drop (4 * nat ncell) s) k) (\<lambda>ws. Inr (w # ws)))"

definition dt_node_propa :: "dt \<Rightarrow> nat \<Rightarrow> u8 list \<Rightarrow> nat \<Rightarrow> u32 list option res" where
  "dt_node_propa d k name cap =
     bind_res (find_prop (props (dn d k)) name) (\<lambda>r.
       case r of
         None \<Rightarrow> Inr None
       | Some p \<Rightarrow>
           if unat (data_len p div 4) > cap then Inl (Undefined ''buf[i]'')
           else bind_res (read_array 1 (pdata p) (unat (data_len p div 4))) (\<lambda>ws. Inr (Some (map ucast ws))))"

definition dt_node_propa64 :: "dt \<Rightarrow> nat \<Rightarrow> u8 list \<Rightarrow> nat \<Rightarrow> u64 list option res" where
  "dt_node_propa64 d k name cap =
     bind_res (find_prop (props (dn d k)) name) (\<lambda>r.
       case r of
         None \<Rightarrow> Inr None
       | Some p \<Rightarrow>
           if unat (data_len p div 8) > cap then Inl (Undefined ''buf[i]'')
           else bind_res (read_array 2 (pdata p) (unat (data_len p div 8))) (\<lambda>ws. Inr (Some ws)))"

definition dt_node_props :: "dt \<Rightarrow> nat \<Rightarrow> u8 list \<Rightarrow> u8 list option res" where
  "dt_node_props d k name = bind_res (find_prop (props (dn d k)) name) (\<lambda>r. Inr (map_option pdata r))"

definition dt_node_props_is :: "dt \<Rightarrow> nat \<Rightarrow> u8 list \<Rightarrow> u8 list \<Rightarrow> bool res" where
  "dt_node_props_is d k name str =
     bind_res (dt_node_props d k name) (\<lambda>r.
       case r of None \<Rightarrow> Inr False | Some s \<Rightarrow> bind_res (strcmp s str) (\<lambda>c. Inr (c = 0)))"

definition dt_node_propb :: "dt \<Rightarrow> nat \<Rightarrow> u8 list \<Rightarrow> bool res" where
  "dt_node_propb d k name = bind_res (find_prop (props (dn d k)) name) (\<lambda>r. Inr (r \<noteq> None))"

section \<open>Addresses and interrupts\<close>

text \<open>A property without cells leaves the variable unset, whose value is then not defined.\<close>

definition one_cell :: "u32 list \<Rightarrow> u32 res" where
  "one_cell ws = (if ws = [] then Inl (Undefined ''uninitialised'') else Inr (hd ws))"

definition dt_bus_ncells :: "dt \<Rightarrow> nat \<Rightarrow> (u32 \<times> u32) option res" where
  "dt_bus_ncells d bus =
     bind_res (dt_node_propa d bus (lit ''#address-cells'') 1) (\<lambda>a.
       case a of
         None \<Rightarrow> Inr None
       | Some as \<Rightarrow>
           bind_res (dt_node_propa d bus (lit ''#size-cells'') 1) (\<lambda>z.
             case z of
               None \<Rightarrow> Inr None
             | Some zs \<Rightarrow> bind_res (one_cell as) (\<lambda>na. bind_res (one_cell zs) (\<lambda>ns. Inr (Some (na, ns))))))"

text \<open>The entries of \<^verbatim>\<open>ranges\<close> are searched in order; \<open>i\<close> counts those left.\<close>

fun find_range :: "u8 list \<Rightarrow> u32 \<Rightarrow> u32 \<Rightarrow> u32 \<Rightarrow> nat \<Rightarrow> u64 \<Rightarrow> u64 option res" where
  "find_range s na npa ns 0 a = Inr None"
| "find_range s na npa ns (Suc i) a =
     bind_res (prop_read_number s (sint na)) (\<lambda>c_start.
     bind_res (prop_read_number (drop (4 * unat na) s) (sint npa)) (\<lambda>p_start.
     bind_res (prop_read_number (drop (4 * unat (na + npa)) s) (sint ns)) (\<lambda>tsize.
       if c_start \<le> a \<and> a < c_start + tsize then Inr (Some (p_start + (a - c_start)))
       else find_range (drop (4 * unat (na + ns + npa)) s) na npa ns i a)))"

definition dt_bus_addr_translate :: "dt \<Rightarrow> nat \<Rightarrow> u64 \<Rightarrow> u64 option res" where
  "dt_bus_addr_translate d bus a =
     bind_res (dt_node_prop_raw d bus (lit ''ranges'')) (\<lambda>r.
       case r of
         None \<Rightarrow> Inr (Some a)
       | Some (s, len) \<Rightarrow>
           if len = 0 then Inr (Some a)
           else bind_res (dt_bus_ncells d bus) (\<lambda>c.
             case c of
               None \<Rightarrow> Inr None
             | Some (na, ns) \<Rightarrow>
                 (case parent (dn d bus) of
                    None \<Rightarrow> Inr None
                  | Some p \<Rightarrow>
                      bind_res (dt_bus_ncells d p) (\<lambda>pc.
                        case pc of
                          None \<Rightarrow> Inr None
                        | Some (npa, _) \<Rightarrow>
                            if na + ns + npa = 0 then Inl (Undefined ''division by zero'')
                            else find_range s na npa ns (unat ((len div 4) div (na + ns + npa))) a))))"

definition dt_gic_intid_base :: "u32 \<Rightarrow> int" where
  "dt_gic_intid_base gic = (if gic = 0 then 32 else if gic = 1 then 16 else -1)"

definition dt_node_prop_intr :: "dt \<Rightarrow> nat \<Rightarrow> nat \<Rightarrow> (int \<times> u32) option res" where
  "dt_node_prop_intr d k index =
     bind_res (dt_node_prop_raw d k (lit ''interrupts'')) (\<lambda>r.
       case r of
         None \<Rightarrow> Inr None
       | Some (s, len) \<Rightarrow>
           if index * 3 + 3 > unat (len div 4) then Inr None
           else
             bind_res (prop_read_number (drop (4 * (index * 3)) s) 1) (\<lambda>gic.
             bind_res (prop_read_number (drop (4 * (index * 3 + 1)) s) 1) (\<lambda>i.
             bind_res (prop_read_number (drop (4 * (index * 3 + 2)) s) 1) (\<lambda>cfg.
               Inr (Some (sint (of_int (dt_gic_intid_base (ucast gic)) + ucast i :: u32), ucast cfg))))))"

text \<open>
  The test \<^verbatim>\<open>dt_bus_addr_translate(...) < 0\<close> compares an unsigned value, so a failed translation leaves the
  address unset.
\<close>

definition dt_node_prop_addr :: "dt \<Rightarrow> nat \<Rightarrow> u32 \<Rightarrow> (u64 \<times> u64) option res" where
  "dt_node_prop_addr d k index =
     (case parent (dn d k) of
        None \<Rightarrow> Inl (Undefined ''bus->prop'')
      | Some bus \<Rightarrow>
          bind_res (dt_bus_ncells d bus) (\<lambda>c.
            case c of
              None \<Rightarrow> Inr None
            | Some (na, ns) \<Rightarrow>
                bind_res (dt_node_prop_raw d k (lit ''reg'')) (\<lambda>r.
                  case r of
                    None \<Rightarrow> Inr None
                  | Some (s, len) \<Rightarrow>
                      let i = index * (na + ns) in
                      if i + na + ns > len div 4 then Inr None
                      else
                        bind_res (prop_read_number (drop (4 * unat i) s) (sint na)) (\<lambda>a.
                        bind_res (dt_bus_addr_translate d bus a) (\<lambda>t.
                          case t of
                            None \<Rightarrow> Inl (Undefined ''uninitialised'')
                          | Some ad \<Rightarrow>
                              bind_res (prop_read_number (drop (4 * unat (i + na)) s) (sint ns)) (\<lambda>sz.
                                Inr (Some (ad, sz))))))))"

section \<open>Lookup of nodes\<close>

text \<open>A pointer that may be NULL, passed to a function that reads it.\<close>

definition deref :: "u8 list option \<Rightarrow> u8 list res" where
  "deref s = (case s of None \<Rightarrow> Inl (Undefined ''null pointer'') | Some x \<Rightarrow> Inr x)"

definition dt_node_device_type_is :: "dt \<Rightarrow> nat \<Rightarrow> u8 list \<Rightarrow> bool res" where
  "dt_node_device_type_is d k type =
     (case device_type (dn d k) of None \<Rightarrow> Inr False | Some s \<Rightarrow> bind_res (strcmp s type) (\<lambda>c. Inr (c = 0)))"

definition dt_find_node_type_cont :: "dt \<Rightarrow> nat option \<Rightarrow> u8 list \<Rightarrow> nat option \<Rightarrow> nat option res" where
  "dt_find_node_type_cont d root type cont =
     bind_res (search_nodes d root (\<lambda>k. bind_res (deref (device_type (dn d k))) (\<lambda>s.
         bind_res (strcmp s type) (\<lambda>c. Inr (if c = 0 then Some () else None)))) (length (nodes d) + 1) cont)
       (\<lambda>r. Inr (map_option fst r))"

definition node_fullname_is :: "dt \<Rightarrow> nat \<Rightarrow> u8 list \<Rightarrow> bool res" where
  "node_fullname_is d k fullname =
     bind_res (deref (dname (dn d k))) (\<lambda>s. bind_res (strcmp s fullname) (\<lambda>c. Inr (c = 0)))"

definition node_name_is_len :: "dt \<Rightarrow> nat \<Rightarrow> u8 list \<Rightarrow> nat \<Rightarrow> bool res" where
  "node_name_is_len d k name len =
     bind_res (deref (dname (dn d k))) (\<lambda>s. bind_res (strncmp s name len) (\<lambda>c. Inr (c = 0)))"

definition node_name_is :: "dt \<Rightarrow> nat \<Rightarrow> u8 list \<Rightarrow> bool res" where
  "node_name_is d k name =
     bind_res (deref (dname (dn d k))) (\<lambda>s.
     bind_res (strchr s (of_char CHR ''@'')) (\<lambda>at.
       case at of
         Some a \<Rightarrow> bind_res (strncmp s name (length s - length a)) (\<lambda>c. Inr (c = 0))
       | None \<Rightarrow> bind_res (strcmp s name) (\<lambda>c. Inr (c = 0))))"

definition SLASH :: u8 where "SLASH = 0x2f"

text \<open>
  The loop of \<^verbatim>\<open>dt_find_node_path\<close> and \<^verbatim>\<open>dt_find_node_path_fullname\<close> over the components of the path, down from
  node \<open>left\<close>.  The end of the string is where only the terminator is left.
\<close>

function find_path :: "dt \<Rightarrow> nat \<Rightarrow> u8 list \<Rightarrow> nat option res" where
  "find_path d left path =
     (case strchrlen path SLASH of
        Inl e \<Rightarrow> Inl e
      | Inr len \<Rightarrow>
          (case search_siblings d (\<lambda>k. node_name_is_len d k path len) (length (nodes d)) (child (dn d left)) of
             Inl e \<Rightarrow> Inl e
           | Inr None \<Rightarrow> Inr None
           | Inr (Some k) \<Rightarrow>
               let rest = drop (len + 1) path in
               if length rest > 1 then find_path d k rest else Inr (Some k)))"
  by pat_completeness auto
termination
  by (relation "measure (\<lambda>(d, left, path). length path)") auto

declare find_path.simps [simp del]

definition strip :: "u8 list \<Rightarrow> u8 list" where
  "strip path = dropWhile (\<lambda>c. c = SLASH) path"

definition dt_find_node_path_fullname :: "dt \<Rightarrow> nat \<Rightarrow> u8 list \<Rightarrow> nat option res" where
  "dt_find_node_path_fullname d root fullname =
     bind_res (strcmp fullname (lit ''/'')) (\<lambda>c.
       if c = 0 then Inr (Some root) else find_path d root (strip fullname))"

text \<open>The absolute case of \<^verbatim>\<open>dt_find_node_path\<close>, with which \<^verbatim>\<open>alias\<close> looks up \<^verbatim>\<open>"/aliases"\<close>.\<close>

definition dt_find_node_abs :: "dt \<Rightarrow> nat \<Rightarrow> u8 list \<Rightarrow> nat option res" where
  "dt_find_node_abs d root path =
     bind_res (strcmp path (lit ''/'')) (\<lambda>c.
       if c = 0 then Inr (Some root) else find_path d root (strip path))"

definition dt_alias :: "dt \<Rightarrow> nat \<Rightarrow> u8 list \<Rightarrow> u8 list option res" where
  "dt_alias d root path =
     bind_res (dt_find_node_abs d root (lit ''/aliases'')) (\<lambda>a.
       case a of
         None \<Rightarrow> Inr None
       | Some k \<Rightarrow> bind_res (find_prop (props (dn d k)) path) (\<lambda>r. Inr (map_option pdata r)))"

definition dt_find_node_alias :: "dt \<Rightarrow> nat \<Rightarrow> u8 list \<Rightarrow> nat option res" where
  "dt_find_node_alias d root a =
     bind_res (dt_alias d root a) (\<lambda>t.
       case t of None \<Rightarrow> Inr None | Some truename \<Rightarrow> dt_find_node_path_fullname d root (cstr truename @ [0]))"

definition dt_find_node_path :: "dt \<Rightarrow> nat \<Rightarrow> u8 list \<Rightarrow> nat option res" where
  "dt_find_node_path d root path =
     (if path \<noteq> [] \<and> hd path \<noteq> SLASH then dt_find_node_alias d root path else dt_find_node_abs d root path)"

section \<open>Drivers\<close>

text \<open>A table of drivers ends at an entry without name and strings, which is not part of the list.\<close>

record 'i dt_device =
  dev_name :: "u8 list"
  compat :: "u8 list list"
  init :: "'i option"

fun compat_has :: "u8 list list \<Rightarrow> u8 list \<Rightarrow> bool res" where
  "compat_has [] s = Inr False"
| "compat_has (c # cs) s = bind_res (strcmp c s) (\<lambda>x. if x = 0 then Inr True else compat_has cs s)"

fun find_device :: "'i dt_device list \<Rightarrow> u8 list \<Rightarrow> 'i dt_device option res" where
  "find_device [] s = Inr None"
| "find_device (dev # tab) s = bind_res (compat_has (compat dev) s) (\<lambda>b. if b then Inr (Some dev) else find_device tab s)"

definition dt_compatible_device :: "dt \<Rightarrow> 'i dt_device list \<Rightarrow> nat \<Rightarrow> 'i dt_device option res" where
  "dt_compatible_device d table k =
     bind_res (dt_node_props d k (lit ''compatible'')) (\<lambda>r.
       case r of None \<Rightarrow> Inr None | Some s \<Rightarrow> find_device table s)"

definition next_match_node :: "dt \<Rightarrow> nat option \<Rightarrow> 'i dt_device list \<Rightarrow> nat option \<Rightarrow> (nat \<times> 'i dt_device) option res" where
  "next_match_node d root table prev = search_nodes d root (dt_compatible_device d table) (length (nodes d) + 1) prev"

definition dt_compatible_child :: "dt \<Rightarrow> nat \<Rightarrow> u8 list \<Rightarrow> nat option res" where
  "dt_compatible_child d par compatible =
     search_siblings d (\<lambda>k. bind_res (dt_node_props d k (lit ''compatible'')) (\<lambda>r.
         case r of None \<Rightarrow> Inr False | Some s \<Rightarrow> bind_res (strcmp s compatible) (\<lambda>c. Inr (c = 0))))
       (length (nodes d)) (child (dn d par))"

text \<open>
  The first driver that has the string and an \<^verbatim>\<open>init\<close> function is started; \<open>run\<close> is the call.  At the end of
  the table \<^verbatim>\<open>dev->dev_name[0]\<close> reads through the null pointer of the last entry.
\<close>

fun compat_dt_device_init :: "('i \<Rightarrow> nat \<Rightarrow> 's \<Rightarrow> 's res) \<Rightarrow> 'i dt_device list \<Rightarrow> nat \<Rightarrow> u8 list \<Rightarrow> 's \<Rightarrow> (int \<times> 's) res" where
  "compat_dt_device_init run [] k compatible s = Inl (Undefined ''dev_name[0]'')"
| "compat_dt_device_init run (dev # tab) k compatible s =
     bind_res (compat_has (compat dev) compatible) (\<lambda>b.
       case (b, init dev) of
         (True, Some i) \<Rightarrow> bind_res (run i k s) (\<lambda>s1. Inr (0, s1))
       | _ \<Rightarrow> compat_dt_device_init run tab k compatible s)"

fun init_loop :: "dt \<Rightarrow> nat option \<Rightarrow> 'i dt_device list \<Rightarrow> ('i \<Rightarrow> nat \<Rightarrow> 's \<Rightarrow> 's res) \<Rightarrow> nat \<Rightarrow> nat option \<Rightarrow> 's \<Rightarrow> 's res" where
  "init_loop d root table run 0 prev s = Inl (Hang ''peripheral_device_init'')"
| "init_loop d root table run (Suc fuel) prev s =
     bind_res (next_match_node d root table prev) (\<lambda>r.
       case r of
         None \<Rightarrow> Inr s
       | Some (k, dev) \<Rightarrow>
           bind_res (case init dev of Some i \<Rightarrow> run i k s | None \<Rightarrow> Inr s)
             (\<lambda>s1. init_loop d root table run fuel (Some k) s1))"

definition peripheral_device_init :: "dt \<Rightarrow> nat option \<Rightarrow> 'i dt_device list \<Rightarrow> ('i \<Rightarrow> nat \<Rightarrow> 's \<Rightarrow> 's res) \<Rightarrow> 's \<Rightarrow> 's res" where
  "peripheral_device_init d root table run s = init_loop d root table run (length (nodes d) + 1) None s"

section \<open>Memory and processors\<close>

fun reg_ranges :: "u8 list \<Rightarrow> u32 \<Rightarrow> u32 \<Rightarrow> nat \<Rightarrow> system_memory \<Rightarrow> system_memory res" where
  "reg_ranges s na ns 0 sm = Inr sm"
| "reg_ranges s na ns (Suc i) sm =
     bind_res (prop_read_number s (sint na)) (\<lambda>start.
     bind_res (prop_read_number (drop (4 * unat na) s) (sint ns)) (\<lambda>sz.
     bind_res (system_memory_reg sm start sz) (reg_ranges (drop (4 * unat (na + ns)) s) na ns i)))"

definition setup_system_memory :: "dt \<Rightarrow> nat \<Rightarrow> system_memory \<Rightarrow> system_memory res" where
  "setup_system_memory d root sm =
     bind_res (dt_find_node_path d root (lit ''/memory'')) (\<lambda>r.
       case r of
         None \<Rightarrow> Inl (Panic ''no memory device'')
       | Some k \<Rightarrow>
           bind_res (dt_node_device_type_is d k (lit ''memory'')) (\<lambda>b.
             if \<not> b then Inl (Panic ''memory device type'')
             else case parent (dn d k) of
                    None \<Rightarrow> Inl (Undefined ''bus->prop'')
                  | Some bus \<Rightarrow>
                      bind_res (dt_bus_ncells d bus) (\<lambda>c.
                        case c of
                          None \<Rightarrow> Inl (Panic ''memory err'')
                        | Some (na, ns) \<Rightarrow>
                            bind_res (dt_node_prop_raw d k (lit ''reg'')) (\<lambda>q.
                              case q of
                                None \<Rightarrow> Inl (Panic ''memory err'')
                              | Some (s, len) \<Rightarrow>
                                  if na + ns = 0 then Inl (Undefined ''division by zero'')
                                  else reg_ranges s na ns (unat (len div 4 div (na + ns))) sm))))"

definition dt_next_cpu_device :: "dt \<Rightarrow> nat \<Rightarrow> nat option \<Rightarrow> nat option res" where
  "dt_next_cpu_device d root prev =
     bind_res (case prev of None \<Rightarrow> dt_find_node_path d root (lit ''/cpus'') | Some k \<Rightarrow> Inr (parent (dn d k))) (\<lambda>r.
       case r of
         None \<Rightarrow> Inl (Panic ''cpus!?'')
       | Some cpus \<Rightarrow>
           search_siblings d (\<lambda>k. dt_node_device_type_is d k (lit ''cpu'')) (length (nodes d))
             (case prev of Some k \<Rightarrow> sibling (dn d k) | None \<Rightarrow> child (dn d cpus)))"

definition device_tree_init :: "u8 list \<Rightarrow> nat \<Rightarrow> system_memory \<Rightarrow> (nat option \<times> dt \<times> system_memory) res" where
  "device_tree_init fdt_base mem sm =
     bind_res (fdt_probe fdt_base) (\<lambda>f.
     bind_res (fdt_parse f mem) (\<lambda>(root, d).
       case root of
         None \<Rightarrow> Inl (Undefined ''root->prop'')
       | Some r \<Rightarrow>
           bind_res (dt_node_props d r (lit ''compatible'')) (\<lambda>_.
           bind_res (setup_system_memory d r sm) (\<lambda>sm1. Inr (root, d, sm1)))))"

end
