(* ===== verification/Flat_Tree.thy ===== *)
theory Flat_Tree
  imports Device_Tree
begin

text \<open>
  What the parser of \<open>Device_Tree\<close> builds.  A tree has named nodes with properties, each given by the
  offset of its name in the strings block and its value.  \<open>flat\<close> writes it the way the Devicetree
  Specification lays out the structure block, and \<open>layout\<close> is the table of nodes it stands for; the
  parser turns one into the other.  The traversal of the result then visits every node once.
\<close>

section \<open>Flattened trees\<close>

datatype tree = Tree (tname: "u8 list") (tprops: "(u32 \<times> u8 list) list") (kids: "tree list")

definition be32 :: "u32 \<Rightarrow> u8 list" where
  "be32 w = [ucast (drop_bit 24 w), ucast (drop_bit 16 w), ucast (drop_bit 8 w), ucast w]"

definition pad :: "nat \<Rightarrow> u8 list" where
  "pad n = replicate ((4 - n mod 4) mod 4) 0"

definition flat_prop :: "u32 \<times> u8 list \<Rightarrow> u8 list" where
  "flat_prop q = be32 FDT_PROP @ be32 (of_nat (length (snd q))) @ be32 (fst q) @ snd q @ pad (length (snd q))"

fun flat :: "tree \<Rightarrow> u8 list" where
  "flat (Tree nm ps ts) =
     be32 FDT_BEGIN_NODE @ nm @ [0] @ pad (length nm + 1) @ concat (map flat_prop ps) @ concat (map flat ts) @ be32 FDT_END_NODE"

fun tsize :: "tree \<Rightarrow> nat" where
  "tsize (Tree nm ps ts) = 1 + sum_list (map tsize ts)"

text \<open>The number of allocations for a tree.\<close>

fun tcost :: "tree \<Rightarrow> nat" where
  "tcost (Tree nm ps ts) = 1 + length ps + sum_list (map tcost ts)"

definition wf_prop :: "fdt \<Rightarrow> u32 \<times> u8 list \<Rightarrow> bool" where
  "wf_prop f q \<longleftrightarrow> terminated (fdt_string f (fst q)) \<and> length (snd q) + 4 < 2 ^ 32 \<and>
     (cstr (fdt_string f (fst q)) = map of_char ''phandle'' \<longrightarrow> length (snd q) \<ge> 4)"

fun wf_tree :: "fdt \<Rightarrow> tree \<Rightarrow> bool" where
  "wf_tree f (Tree nm ps ts) \<longleftrightarrow>
     0 \<notin> set nm \<and> length nm + 5 < 2 ^ 32 \<and> list_all (wf_prop f) ps \<and> list_all (wf_tree f) ts"

section \<open>The table of nodes\<close>

text \<open>What a node holds, with strings and values in place of pointers.\<close>

record anode =
  apar :: "nat option"
  achild :: "nat option"
  asib :: "nat option"
  aname :: "u8 list"
  aprops :: "(u8 list \<times> u8 list) list"

definition prop_val :: "property \<Rightarrow> u8 list \<times> u8 list" where
  "prop_val p = (pname p, take (unat (data_len p)) (pdata p))"

definition an :: "device_node \<Rightarrow> anode" where
  "an n = \<lparr>apar = parent n, achild = child n, asib = sibling n,
     aname = (case dname n of None \<Rightarrow> [] | Some s \<Rightarrow> cstr s), aprops = map prop_val (rev (props n))\<rparr>"

fun last_kid :: "nat \<Rightarrow> nat option \<Rightarrow> tree list \<Rightarrow> nat option" where
  "last_kid k prev [] = prev"
| "last_kid k prev (t # ts) = last_kid (k + tsize t) (Some k) ts"

fun layout :: "fdt \<Rightarrow> nat option \<Rightarrow> nat option \<Rightarrow> nat \<Rightarrow> tree \<Rightarrow> anode list"
  and layouts :: "fdt \<Rightarrow> nat option \<Rightarrow> nat option \<Rightarrow> nat \<Rightarrow> tree list \<Rightarrow> anode list" where
  "layout f par nx k (Tree nm ps ts) =
     \<lparr>apar = par, achild = last_kid (Suc k) None ts, asib = nx, aname = nm,
      aprops = map (\<lambda>q. (fdt_string f (fst q), snd q)) ps\<rparr> # layouts f (Some k) None (Suc k) ts"
| "layouts f par nx k [] = []"
| "layouts f par nx k (t # ts) = layout f par nx k t @ layouts f par (Some k) (k + tsize t) ts"

lemma layout_length:
  "length (layout f par nx k t) = tsize t"
  "length (layouts f par nx k ts) = sum_list (map tsize ts)"
  by (induction f par nx k t and f par nx k ts rule: layout_layouts.induct) auto

section \<open>Words\<close>

lemma byte_split:
  assumes "n < (32 :: nat)"
  obtains r where "r < 8" "n = r \<or> n = 8 + r \<or> n = 16 + r \<or> n = 24 + r"
proof
  show "n mod 8 < 8" by simp
  show "n = n mod 8 \<or> n = 8 + n mod 8 \<or> n = 16 + n mod 8 \<or> n = 24 + n mod 8" using assms by presburger
qed

lemma fdt32_bits:
  assumes "r < 8"
  shows "bit (fdt32_to_u32 x) r = bit x (24 + r)" "bit (fdt32_to_u32 x) (8 + r) = bit x (16 + r)"
    "bit (fdt32_to_u32 x) (16 + r) = bit x (8 + r)" "bit (fdt32_to_u32 x) (24 + r) = bit x r"
proof -
  have ff: "(y :: u32) AND 0xff = take_bit 8 y" for y
    by (simp add: take_bit_eq_mask mask_eq_exp_minus_1)
  have e: "fdt32_to_u32 x = push_bit 24 (take_bit 8 x) OR push_bit 16 (take_bit 8 (drop_bit 8 x)) OR
      push_bit 8 (take_bit 8 (drop_bit 16 x)) OR take_bit 8 (drop_bit 24 x)"
    by (simp only: fdt32_to_u32_def ff)
  show "bit (fdt32_to_u32 x) r = bit x (24 + r)" "bit (fdt32_to_u32 x) (8 + r) = bit x (16 + r)"
    "bit (fdt32_to_u32 x) (16 + r) = bit x (8 + r)" "bit (fdt32_to_u32 x) (24 + r) = bit x r"
    using assms by (simp_all add: e bit_or_iff bit_push_bit_iff bit_take_bit_iff bit_drop_bit_eq)
qed

lemma le32_bits:
  fixes a b c d :: u8
  defines "x \<equiv> ucast a OR push_bit 8 (ucast b) OR push_bit 16 (ucast c) OR push_bit 24 (ucast d) :: u32"
  assumes "r < 8"
  shows "bit x r = bit a r" "bit x (8 + r) = bit b r" "bit x (16 + r) = bit c r" "bit x (24 + r) = bit d r"
  using assms by (auto simp: x_def bit_or_iff bit_push_bit_iff bit_ucast_iff dest: bit_imp_le_length)

lemma fdt_word_be32 [simp]: "fdt_word (be32 w @ s) = Inr w"
proof -
  let ?x = "ucast (ucast (drop_bit 24 w) :: u8) OR push_bit 8 (ucast (ucast (drop_bit 16 w) :: u8)) OR
      push_bit 16 (ucast (ucast (drop_bit 8 w) :: u8)) OR push_bit 24 (ucast (ucast w :: u8)) :: u32"
  have "fdt32_to_u32 ?x = w"
  proof (rule bit_word_eqI)
    fix n :: nat
    assume "n < LENGTH(32)"
    then have "n < 32" by simp
    then obtain r where r: "r < 8" "n = r \<or> n = 8 + r \<or> n = 16 + r \<or> n = 24 + r" by (rule byte_split)
    note b = fdt32_bits [OF r(1)] le32_bits [OF r(1)]
    have "bit (fdt32_to_u32 ?x) r = bit w r" "bit (fdt32_to_u32 ?x) (8 + r) = bit w (8 + r)"
      "bit (fdt32_to_u32 ?x) (16 + r) = bit w (16 + r)" "bit (fdt32_to_u32 ?x) (24 + r) = bit w (24 + r)"
      unfolding b using r(1) by (simp_all add: bit_ucast_iff bit_drop_bit_eq)
    with r(2) show "bit (fdt32_to_u32 ?x) n = bit w n" by blast
  qed
  then show ?thesis by (simp add: fdt_word_def be32_def)
qed

lemma be32_length [simp]: "length (be32 w) = 4"
  by (simp add: be32_def)

lemma words_of_nat:
  assumes "n + 4 < 2 ^ 32"
  shows "words_of (of_nat n) = (n + 3) div 4"
proof -
  have m: "(4 - 1 :: u32) = mask 2" by (simp add: mask_eq_exp_minus_1)
  have d: "drop_bit 2 (x AND NOT (mask 2)) = drop_bit 2 x" for x :: u32
    by (rule bit_word_eqI) (auto simp: bit_simps dest: bit_imp_le_length)
  have e: "(of_nat n + 4 - 1 :: u32) = of_nat (n + 3)"
    by (simp add: algebra_simps)
  have u: "unat (of_nat (n + 3) :: u32) = n + 3"
    using assms by (simp only: unat_of_nat) (simp add: take_bit_nat_eq_self)
  show ?thesis
    unfolding words_of_def m d unfolding e unat_drop_bit_eq u by (simp add: drop_bit_eq_div)
qed

lemma words_of_pad: "n + 4 < 2 ^ 32 \<Longrightarrow> 4 * words_of (of_nat n) = n + length (pad n)"
proof -
  assume "n + 4 < 2 ^ 32"
  moreover have "4 * ((n + 3) div 4) = n + (4 - n mod 4) mod 4"
  proof -
    obtain q r where "n = 4 * q + r" "r = 0 \<or> r = 1 \<or> r = 2 \<or> r = 3"
    proof
      show "n = 4 * (n div 4) + n mod 4" by simp
      show "n mod 4 = 0 \<or> n mod 4 = 1 \<or> n mod 4 = 2 \<or> n mod 4 = 3" by linarith
    qed
    then show ?thesis by (elim disjE) (simp_all add: mod_Suc)
  qed
  ultimately show ?thesis by (simp only: words_of_nat pad_def length_replicate)
qed

section \<open>Steps of the parser\<close>

abbreviation table :: "parse \<Rightarrow> anode list" where
  "table p \<equiv> map an (nodes (ptree p))"

definition kid_of :: "nat option \<Rightarrow> anode list \<Rightarrow> nat option" where
  "kid_of par ns = (case par of None \<Rightarrow> None | Some q \<Rightarrow> achild (ns ! q))"

definition set_kid :: "nat option \<Rightarrow> nat option \<Rightarrow> anode list \<Rightarrow> anode list" where
  "set_kid par c ns = (case par of None \<Rightarrow> ns | Some q \<Rightarrow> ns[q := (ns ! q)\<lparr>achild := c\<rparr>])"

definition well_placed :: "parse \<Rightarrow> bool" where
  "well_placed p \<longleftrightarrow> pdepth p \<ge> 0 \<and> (\<forall>k. pnode p = Some k \<longrightarrow> k < length (nodes (ptree p)))"

text \<open>The parser is back at the same node, after \<open>c\<close> allocations.\<close>

definition rejoins :: "parse \<Rightarrow> parse \<Rightarrow> nat \<Rightarrow> bool" where
  "rejoins p p' c \<longleftrightarrow> pnode p' = pnode p \<and> pdepth p' = pdepth p \<and> proot p' = proot p \<and>
     mem_left (ptree p) = mem_left (ptree p') + c \<and> length (nodes (ptree p)) \<le> length (nodes (ptree p'))"

lemma set_kid_length [simp]: "length (set_kid par c ns) = length ns"
  by (simp add: set_kid_def split: option.split)

lemma rejoins_well_placed: "\<lbrakk>rejoins p p' c; well_placed p\<rbrakk> \<Longrightarrow> well_placed p'"
  by (auto simp: rejoins_def well_placed_def)

lemma rejoins_trans: "\<lbrakk>rejoins p p1 a; rejoins p1 p2 b\<rbrakk> \<Longrightarrow> rejoins p p2 (a + b)"
  by (auto simp: rejoins_def)

lemma table_upd:
  "\<lbrakk>k < length (nodes d); an (g (dn d k)) = h (an (dn d k))\<rbrakk> \<Longrightarrow>
   map an (nodes (upd_node k g d)) = (map an (nodes d))[k := h (map an (nodes d) ! k)]"
  by (simp add: upd_node_def map_update)

lemma parse_begin_step:
  assumes "well_placed p" and "mem_left (ptree p) > 0"
  shows "\<exists>p'. parse_begin s p = Inr p' \<and> pnode p' = Some (length (table p)) \<and> pdepth p' = pdepth p + 1 \<and>
     proot p' = (case proot p of None \<Rightarrow> Some (length (table p)) | Some r \<Rightarrow> Some r) \<and>
     mem_left (ptree p) = mem_left (ptree p') + 1 \<and>
     table p' = set_kid (pnode p) (Some (length (table p))) (table p) @
       [\<lparr>apar = pnode p, achild = None, asib = kid_of (pnode p) (table p), aname = cstr s, aprops = []\<rparr>]"
  using assms
  by (auto simp: parse_begin_def dt_node_alloc_def upd_node_def Let_def well_placed_def set_kid_def kid_of_def an_def
      map_update list_update_append nth_append split: option.split)

lemma parse_end_step:
  assumes "pnode p = Some k" and "pdepth p > 0" and "k < length (table p)"
  shows "parse_end p = Inr (p\<lparr>pnode := apar (table p ! k), pdepth := pdepth p - 1\<rparr>)"
  using assms by (simp add: parse_end_def an_def)

lemma fdt_word_ok: "length s \<ge> 4 \<Longrightarrow> \<exists>w. fdt_word s = Inr w"
  by (cases s rule: load32.cases) (auto simp: fdt_word_def)

lemma phandle_lit: "cstr (lit ''phandle'') = map of_char ''phandle''"
  by (rule cstr_lit) simp

lemma parse_prop_step:
  assumes "pnode p = Some k" and "k < length (nodes (ptree p))" and "mem_left (ptree p) > 0"
    and "wf_prop f q"
  shows "\<exists>p'. parse_prop (fdt_string f (fst q)) (snd q @ s) (of_nat (length (snd q))) p = Inr p' \<and> rejoins p p' 1 \<and>
     table p' = (table p)[k := (table p ! k)\<lparr>aprops := aprops (table p ! k) @ [(fdt_string f (fst q), snd q)]\<rparr>]"
proof -
  let ?n = "fdt_string f (fst q)"
  define d where "d = (upd_node k (\<lambda>x. x\<lparr>props := \<lparr>pname = ?n, pdata = snd q @ s, data_len = of_nat (length (snd q))\<rparr> # props x\<rparr>)
    (ptree p))\<lparr>mem_left := mem_left (ptree p) - 1\<rparr>"
  have t: "terminated ?n" using assms(4) by (simp add: wf_prop_def)
  obtain c where c: "strcmp ?n (lit ''device_type'') = Inr c" using strcmp_ok [OF t] lit_terminated by blast
  obtain c' where c': "strcmp ?n (lit ''phandle'') = Inr c'" "c' = 0 \<longleftrightarrow> cstr ?n = map of_char ''phandle''"
    using strcmp_spec [OF t lit_terminated [of "''phandle''"]] unfolding phandle_lit by blast
  have alloc: "dt_prop_alloc k \<lparr>pname = ?n, pdata = snd q @ s, data_len = of_nat (length (snd q))\<rparr> (ptree p) = Inr d"
    using assms(3) by (simp add: dt_prop_alloc_def d_def)
  have len: "unat (of_nat (length (snd q)) :: u32) = length (snd q)"
    using assms(4) by (simp add: wf_prop_def unat_of_nat take_bit_nat_eq_self)
  have tab: "map an (nodes d) = (table p)[k := (table p ! k)\<lparr>aprops := aprops (table p ! k) @ [(?n, snd q)]\<rparr>]"
    unfolding d_def using assms(2) len
    by (simp add: upd_node_def map_update an_def prop_val_def)
  have same: "map an (nodes (upd_node k g d)) = map an (nodes d)" if "\<And>x. an (g x) = an x" for g
    using assms(2) that by (simp add: upd_node_def map_update d_def)
  have rejoins: "rejoins p (p\<lparr>ptree := e\<rparr>) 1" if "mem_left e = mem_left d" "length (nodes e) = length (nodes d)" for e
    using that assms(3) by (simp add: rejoins_def d_def upd_node_def)
  consider "c = 0" | "c \<noteq> 0" "c' = 0" | "c \<noteq> 0" "c' \<noteq> 0" by blast
  then show ?thesis
  proof cases
    case 1
    then show ?thesis
      using assms(1) c alloc tab same [of "\<lambda>x. x\<lparr>device_type := Some (snd q @ s)\<rparr>"] rejoins [of "upd_node k (\<lambda>x. x\<lparr>device_type := Some (snd q @ s)\<rparr>) d"]
      by (simp add: parse_prop_def an_def upd_node_def)
  next
    case 2
    then have "length (snd q @ s) \<ge> 4" using c' assms(4) by (simp add: wf_prop_def)
    then obtain w where "fdt_word (snd q @ s) = Inr w" using fdt_word_ok by blast
    then show ?thesis
      using 2 assms(1) c c' alloc tab same [of "\<lambda>x. x\<lparr>phandle := w\<rparr>"] rejoins [of "upd_node k (\<lambda>x. x\<lparr>phandle := w\<rparr>) d"]
      by (simp add: parse_prop_def an_def upd_node_def)
  next
    case 3
    then show ?thesis
      using assms(1) c c' alloc tab rejoins [of d] by (simp add: parse_prop_def)
  qed
qed

section \<open>The loop on a flattened tree\<close>

lemma drop_be32 [simp]: "drop 4 (be32 w @ s) = s"
  by (simp add: be32_def)

lemma drop_4_mult: "drop (4 * (n + 1)) (be32 w @ s) = drop (4 * n) s"
proof -
  have "4 * (n + 1) = 4 * n + 4" by simp
  then show ?thesis by (simp only: drop_drop [symmetric] drop_be32)
qed

lemma token_neq [simp]:
  "FDT_BEGIN_NODE \<noteq> FDT_END" "FDT_END_NODE \<noteq> FDT_END" "FDT_PROP \<noteq> FDT_END"
  "FDT_END_NODE \<noteq> FDT_BEGIN_NODE" "FDT_PROP \<noteq> FDT_BEGIN_NODE" "FDT_PROP \<noteq> FDT_END_NODE"
  by (simp_all add: FDT_BEGIN_NODE_def FDT_END_NODE_def FDT_PROP_def FDT_END_def)

lemma loop_end: "fdt_loop f (be32 FDT_END @ s) p = Inr p"
  by (subst fdt_loop.simps) simp

lemma loop_end_node:
  "parse_end p = Inr p' \<Longrightarrow> fdt_loop f (be32 FDT_END_NODE @ s) p = fdt_loop f s p'"
  by (subst fdt_loop.simps) simp

lemma loop_begin:
  assumes "0 \<notin> set nm" and "length nm + 5 < 2 ^ 32" and "parse_begin (nm @ [0] @ pad (length nm + 1) @ s) p = Inr p'"
  shows "fdt_loop f (be32 FDT_BEGIN_NODE @ nm @ [0] @ pad (length nm + 1) @ s) p = fdt_loop f s p'"
proof -
  have l: "strlen (nm @ [0] @ pad (length nm + 1) @ s) = Inr (length nm)"
    using assms(1) by (simp add: strlen_spec)
  have w: "4 * words_of (of_nat (length nm) + 1) = length nm + 1 + length (pad (length nm + 1))"
    using words_of_pad [of "length nm + 1"] assms(2) by (simp add: add.commute)
  have "drop (4 * words_of (of_nat (length nm) + 1)) (nm @ [0] @ pad (length nm + 1) @ s) = s"
    unfolding w by simp
  then show ?thesis
    by (subst fdt_loop.simps) (simp add: assms(3) [simplified] l [simplified] drop_4_mult [simplified])
qed

lemma loop_prop:
  assumes "length (snd q) + 4 < 2 ^ 32"
    and "parse_prop (fdt_string f (fst q)) (snd q @ pad (length (snd q)) @ s) (of_nat (length (snd q))) p = Inr p'"
  shows "fdt_loop f (flat_prop q @ s) p = fdt_loop f s p'"
proof -
  let ?cur = "be32 FDT_PROP @ be32 (of_nat (length (snd q))) @ be32 (fst q) @ snd q @ pad (length (snd q)) @ s"
  have d: "drop 8 ?cur = be32 (fst q) @ snd q @ pad (length (snd q)) @ s" "drop 12 ?cur = snd q @ pad (length (snd q)) @ s"
    by (simp_all add: be32_def)
  have "drop (4 * (3 + words_of (of_nat (length (snd q))))) ?cur = drop (4 * words_of (of_nat (length (snd q)))) (drop 12 ?cur)"
    by (simp add: add.commute)
  also have "\<dots> = s"
    unfolding d words_of_pad [OF assms(1)] by simp
  finally show ?thesis
    unfolding flat_prop_def append_assoc
    by (subst fdt_loop.simps) (simp only: fdt_word_be32 drop_be32 d assms(2) token_neq sum.case if_False if_True simp_thms)
qed

lemma loop_props:
  "\<lbrakk>list_all (wf_prop f) ps; pnode p = Some k; k < length (nodes (ptree p)); length ps \<le> mem_left (ptree p)\<rbrakk> \<Longrightarrow>
   \<exists>p'. fdt_loop f (concat (map flat_prop ps) @ s) p = fdt_loop f s p' \<and> rejoins p p' (length ps) \<and>
     table p' = (table p)[k := (table p ! k)\<lparr>aprops := aprops (table p ! k) @ map (\<lambda>q. (fdt_string f (fst q), snd q)) ps\<rparr>]"
proof (induction ps arbitrary: p)
  case Nil
  then have "rejoins p p 0" by (simp add: rejoins_def)
  moreover have "table p = (table p)[k := table p ! k]" by (rule list_update_id [symmetric])
  ultimately show ?case by (intro exI [of _ p]) (simp del: nth_map)
next
  case (Cons q ps)
  let ?rest = "concat (map flat_prop ps) @ s"
  from Cons.prems have wf: "wf_prop f q" "list_all (wf_prop f) ps" and m: "mem_left (ptree p) > 0" by auto
  from parse_prop_step [OF Cons.prems(2,3) m wf(1), of "pad (length (snd q)) @ ?rest"]
  obtain p1 where p1: "parse_prop (fdt_string f (fst q)) (snd q @ pad (length (snd q)) @ ?rest) (of_nat (length (snd q))) p = Inr p1"
    "rejoins p p1 1" "table p1 = (table p)[k := (table p ! k)\<lparr>aprops := aprops (table p ! k) @ [(fdt_string f (fst q), snd q)]\<rparr>]"
    by blast
  have l: "fdt_loop f (flat_prop q @ ?rest) p = fdt_loop f ?rest p1"
    using wf(1) p1(1) by (intro loop_prop) (simp_all add: wf_prop_def)
  have "pnode p1 = Some k" "k < length (nodes (ptree p1))" "length ps \<le> mem_left (ptree p1)"
    using p1(2) Cons.prems by (auto simp: rejoins_def)
  from Cons.IH [OF wf(2) this] obtain p' where p': "fdt_loop f ?rest p1 = fdt_loop f s p'" "rejoins p1 p' (length ps)"
    "table p' = (table p1)[k := (table p1 ! k)\<lparr>aprops := aprops (table p1 ! k) @ map (\<lambda>q. (fdt_string f (fst q), snd q)) ps\<rparr>]"
    by blast
  have "rejoins p p' (length (q # ps))" using rejoins_trans [OF p1(2) p'(2)] by simp
  moreover have "fdt_loop f (concat (map flat_prop (q # ps)) @ s) p = fdt_loop f s p'" using l p'(1) by simp
  moreover have "table p' = (table p)[k := (table p ! k)\<lparr>aprops := aprops (table p ! k) @ map (\<lambda>q. (fdt_string f (fst q), snd q)) (q # ps)\<rparr>]"
    unfolding p'(3) p1(3) using Cons.prems(3) by simp
  ultimately show ?case by blast
qed

text \<open>The parser on a tree that stands at the front of the input.\<close>

definition parses :: "fdt \<Rightarrow> tree \<Rightarrow> bool" where
  "parses f t \<longleftrightarrow> (\<forall>s p. well_placed p \<longrightarrow> proot p \<noteq> None \<or> pnode p = None \<longrightarrow> tcost t \<le> mem_left (ptree p) \<longrightarrow>
     (\<exists>p'. fdt_loop f (flat t @ s) p = fdt_loop f s p' \<and>
        rejoins (p\<lparr>proot := (case proot p of None \<Rightarrow> Some (length (table p)) | Some r \<Rightarrow> Some r)\<rparr>) p' (tcost t) \<and>
        table p' = set_kid (pnode p) (Some (length (table p))) (table p) @
          layout f (pnode p) (kid_of (pnode p) (table p)) (length (table p)) t))"

lemma set_kid_id: "k < length ns \<Longrightarrow> set_kid (Some k) (achild (ns ! k)) ns = ns"
  by (simp add: set_kid_def)

lemma set_kid_append:
  "k < length ns \<Longrightarrow> set_kid (Some k) c (ns @ ms) = set_kid (Some k) c ns @ ms"
  by (simp add: set_kid_def list_update_append nth_append)

lemma set_kid_twice: "k < length ns \<Longrightarrow> set_kid (Some k) c (set_kid (Some k) b ns) = set_kid (Some k) c ns"
  by (simp add: set_kid_def)

lemma loop_kids:
  "\<lbrakk>\<forall>t \<in> set ts. parses f t; well_placed p; proot p \<noteq> None; pnode p = Some k; sum_list (map tcost ts) \<le> mem_left (ptree p)\<rbrakk> \<Longrightarrow>
   \<exists>p'. fdt_loop f (concat (map flat ts) @ s) p = fdt_loop f s p' \<and> rejoins p p' (sum_list (map tcost ts)) \<and>
     table p' = set_kid (Some k) (last_kid (length (table p)) (achild (table p ! k)) ts) (table p) @
       layouts f (Some k) (achild (table p ! k)) (length (table p)) ts"
proof (induction ts arbitrary: p)
  case Nil
  then have k: "k < length (table p)" by (simp add: well_placed_def)
  have "rejoins p p 0" by (simp add: rejoins_def)
  then show ?case using set_kid_id [OF k] by (intro exI [of _ p]) (simp del: nth_map)
next
  case (Cons t ts)
  have k: "k < length (table p)" using Cons.prems by (simp add: well_placed_def)
  have pr: "p\<lparr>proot := (case proot p of None \<Rightarrow> Some (length (table p)) | Some r \<Rightarrow> Some r)\<rparr> = p"
    using Cons.prems(3) by auto
  have "parses f t" "tcost t \<le> mem_left (ptree p)" using Cons.prems by auto
  then obtain p1 where p1: "fdt_loop f (flat t @ concat (map flat ts) @ s) p = fdt_loop f (concat (map flat ts) @ s) p1"
    "rejoins p p1 (tcost t)"
    "table p1 = set_kid (Some k) (Some (length (table p))) (table p) @ layout f (Some k) (achild (table p ! k)) (length (table p)) t"
    using Cons.prems(2,3,4) pr unfolding parses_def kid_of_def by (metis option.simps(5))
  have l: "length (table p1) = length (table p) + tsize t"
    unfolding p1(3) by (simp add: layout_length)
  have c: "achild (table p1 ! k) = Some (length (table p))"
    unfolding p1(3) using k by (simp add: nth_append set_kid_def del: nth_map)
  have "well_placed p1" "proot p1 \<noteq> None" "pnode p1 = Some k" "sum_list (map tcost ts) \<le> mem_left (ptree p1)"
    using p1(2) Cons.prems rejoins_well_placed [OF p1(2)] by (auto simp: rejoins_def)
  with Cons.IH [of p1] Cons.prems(1) obtain p' where p': "fdt_loop f (concat (map flat ts) @ s) p1 = fdt_loop f s p'"
    "rejoins p1 p' (sum_list (map tcost ts))"
    "table p' = set_kid (Some k) (last_kid (length (table p1)) (achild (table p1 ! k)) ts) (table p1) @
       layouts f (Some k) (achild (table p1 ! k)) (length (table p1)) ts" by auto
  have "rejoins p p' (sum_list (map tcost (t # ts)))" using rejoins_trans [OF p1(2) p'(2)] by simp
  moreover have "fdt_loop f (concat (map flat (t # ts)) @ s) p = fdt_loop f s p'" using p1(1) p'(1) by simp
  moreover have "table p' = set_kid (Some k) (last_kid (length (table p)) (achild (table p ! k)) (t # ts)) (table p) @
       layouts f (Some k) (achild (table p ! k)) (length (table p)) (t # ts)"
    unfolding p'(3) c l unfolding p1(3) using k by (simp add: set_kid_append set_kid_twice del: nth_map)
  ultimately show ?case by blast
qed

lemma wf_tree_parses: "wf_tree f t \<Longrightarrow> parses f t"
proof (induction t)
  case (Tree nm ps ts)
  then have ts: "\<forall>t \<in> set ts. parses f t" by (auto simp: list_all_iff)
  from Tree.prems have wf: "0 \<notin> set nm" "length nm + 5 < 2 ^ 32" "list_all (wf_prop f) ps" by auto
  show ?case unfolding parses_def
  proof (intro allI impI)
    fix s p
    assume p: "well_placed p" "proot p \<noteq> None \<or> pnode p = None" and cost: "tcost (Tree nm ps ts) \<le> mem_left (ptree p)"
    define k where "k = length (table p)"
    define ns where "ns = set_kid (pnode p) (Some k) (table p)"
    define q where "q = p\<lparr>proot := (case proot p of None \<Rightarrow> Some k | Some r \<Rightarrow> Some r)\<rparr>"
    let ?s3 = "be32 FDT_END_NODE @ s"
    let ?s2 = "concat (map flat ts) @ ?s3"
    let ?s1 = "concat (map flat_prop ps) @ ?s2"
    have nk: "length ns = k" by (simp add: ns_def k_def)
    have cs: "cstr (nm @ [0] @ pad (length nm + 1) @ ?s1) = nm" using wf(1) by simp
    have "mem_left (ptree p) > 0" using cost by simp
    from parse_begin_step [OF p(1) this, of "nm @ [0] @ pad (length nm + 1) @ ?s1", unfolded cs, folded k_def, folded ns_def]
    obtain p1 where p1: "parse_begin (nm @ [0] @ pad (length nm + 1) @ ?s1) p = Inr p1" "pnode p1 = Some k"
      "pdepth p1 = pdepth p + 1" "proot p1 = (case proot p of None \<Rightarrow> Some k | Some r \<Rightarrow> Some r)"
      "mem_left (ptree p) = mem_left (ptree p1) + 1"
      "table p1 = ns @ [\<lparr>apar = pnode p, achild = None, asib = kid_of (pnode p) (table p), aname = nm, aprops = []\<rparr>]"
      by blast
    have k1: "length (table p1) = Suc k" by (simp add: p1(6) nk)
    have "k < length (nodes (ptree p1))" "length ps \<le> mem_left (ptree p1)" using k1 cost p1(5) by auto
    from loop_props [OF wf(3) p1(2) this, of ?s2] obtain p2 where p2: "fdt_loop f ?s1 p1 = fdt_loop f ?s2 p2"
      "rejoins p1 p2 (length ps)"
      and t2: "table p2 = (table p1)[k := (table p1 ! k)\<lparr>aprops := aprops (table p1 ! k) @ map (\<lambda>q. (fdt_string f (fst q), snd q)) ps\<rparr>]"
      by blast
    have t2: "table p2 = ns @ [\<lparr>apar = pnode p, achild = None, asib = kid_of (pnode p) (table p),
         aname = nm, aprops = map (\<lambda>q. (fdt_string f (fst q), snd q)) ps\<rparr>]"
      unfolding t2 p1(6) nk [symmetric] by simp
    have k2: "length (table p2) = Suc k" "achild (table p2 ! k) = None" unfolding t2 by (simp_all add: nk nth_append)
    have "well_placed p1" using p(1) p1(2,3) k1 by (simp add: well_placed_def)
    then have "well_placed p2" "proot p2 \<noteq> None" "pnode p2 = Some k" "sum_list (map tcost ts) \<le> mem_left (ptree p2)"
      using rejoins_well_placed [OF p2(2)] p2(2) p1 cost by (auto simp: rejoins_def q_def split: option.splits)
    from loop_kids [OF ts this, of ?s3] obtain p3 where p3: "fdt_loop f ?s2 p2 = fdt_loop f ?s3 p3"
      "rejoins p2 p3 (sum_list (map tcost ts))"
      "table p3 = set_kid (Some k) (last_kid (Suc k) None ts) (table p2) @ layouts f (Some k) None (Suc k) ts"
      unfolding k2 by blast
    have t3: "table p3 = ns @ layout f (pnode p) (kid_of (pnode p) (table p)) k (Tree nm ps ts)"
      unfolding p3(3) t2 using nk by (simp add: set_kid_def nth_append list_update_append)
    have r: "rejoins p1 p3 (length ps + sum_list (map tcost ts))" using rejoins_trans [OF p2(2) p3(2)] .
    let ?p = "p3\<lparr>pnode := pnode p, pdepth := pdepth p\<rparr>"
    have "parse_end p3 = Inr (p3\<lparr>pnode := apar (table p3 ! k), pdepth := pdepth p3 - 1\<rparr>)"
      by (rule parse_end_step) (use r p1(2,3) p(1) nk in \<open>auto simp: rejoins_def well_placed_def t3 simp del: length_map\<close>)
    moreover have "apar (table p3 ! k) = pnode p" "pdepth p3 - 1 = pdepth p"
      using r p1(3) nk by (simp_all add: t3 nth_append rejoins_def del: nth_map)
    ultimately have e: "fdt_loop f ?s3 p3 = fdt_loop f s ?p"
      by (intro loop_end_node) simp
    have "fdt_loop f (flat (Tree nm ps ts) @ s) p = fdt_loop f s ?p"
      using loop_begin [OF wf(1,2) p1(1), of f] p2(1) p3(1) e by simp
    moreover have "rejoins q ?p (tcost (Tree nm ps ts))"
      using r p1(4,5) k1 by (auto simp: rejoins_def q_def k_def)
    moreover have "table ?p = ns @ layout f (pnode p) (kid_of (pnode p) (table p)) k (Tree nm ps ts)"
      using t3 by simp
    ultimately show "\<exists>p'. fdt_loop f (flat (Tree nm ps ts) @ s) p = fdt_loop f s p' \<and>
        rejoins (p\<lparr>proot := (case proot p of None \<Rightarrow> Some (length (table p)) | Some r \<Rightarrow> Some r)\<rparr>) p' (tcost (Tree nm ps ts)) \<and>
        table p' = set_kid (pnode p) (Some (length (table p))) (table p) @
          layout f (pnode p) (kid_of (pnode p) (table p)) (length (table p)) (Tree nm ps ts)"
      unfolding q_def k_def ns_def by blast
  qed
qed

lemma fdt_parse_layout:
  assumes "wf_tree f t" and "drop (unat (off_dt_struct f)) (fdata f) = flat t @ be32 FDT_END @ s" and "tcost t \<le> mem"
  shows "\<exists>d. fdt_parse f mem = Inr (Some 0, d) \<and> map an (nodes d) = layout f None None 0 t"
proof -
  let ?p = "\<lparr>pnode = None, proot = None, pdepth = 0, ptree = \<lparr>nodes = [], mem_left = mem\<rparr>\<rparr>"
  have "well_placed ?p" by (simp add: well_placed_def)
  with wf_tree_parses [OF assms(1)] assms(3)
  obtain p' where p': "fdt_loop f (flat t @ be32 FDT_END @ s) ?p = fdt_loop f (be32 FDT_END @ s) p'"
    "rejoins (?p\<lparr>proot := Some 0\<rparr>) p' (tcost t)" "table p' = layout f None None 0 t"
    unfolding parses_def by (fastforce simp: set_kid_def kid_of_def)
  then show ?thesis
    unfolding fdt_parse_def assms(2) by (simp add: loop_end rejoins_def)
qed

text \<open>
  C30.  The parser turns a well-formed flattened tree into the table of its nodes: every node has the name,
  the properties and the parent it has in the tree, and the links to its children and siblings lead
  through exactly its children, from the last to the first.
\<close>

theorem fdt_parse_flat:
  assumes "wf_tree f t" and "drop (unat (off_dt_struct f)) (fdata f) = flat t @ be32 FDT_END @ s" and "tcost t \<le> mem"
  shows "\<exists>d. fdt_parse f mem = Inr (Some 0, d) \<and> map an (nodes d) = layout f None None 0 t"
  using fdt_parse_layout [OF assms] .

definition example_tree :: tree where
  "example_tree = Tree [] [] [Tree (map of_char ''cpus'') [(0, [0, 0, 0, 1])] [], Tree (map of_char ''memory'') [] []]"

definition example_fdt :: fdt where
  "example_fdt = \<lparr>fdata = lit ''reg'' @ flat example_tree @ be32 FDT_END, off_dt_struct = 4, size_dt_struct = 0,
     off_dt_strings = 0, size_dt_strings = 4\<rparr>"

lemma example_fdt_wf: "wf_tree example_fdt example_tree"
  by (simp add: example_tree_def wf_prop_def fdt_string_def example_fdt_def lit_def)

lemma example_fdt_struct:
  "drop (unat (off_dt_struct example_fdt)) (fdata example_fdt) = flat example_tree @ be32 FDT_END @ []"
  by (simp add: example_fdt_def lit_def)

theorem fdt_parse_flat_witness:
  "\<exists>d. fdt_parse example_fdt 8 = Inr (Some 0, d) \<and> map an (nodes d) = layout example_fdt None None 0 example_tree"
  by (rule fdt_parse_flat [OF example_fdt_wf example_fdt_struct]) (simp add: example_tree_def)

section \<open>Traversal\<close>

text \<open>The order in which \<^verbatim>\<open>next_node\<close> visits the nodes: a node before its children, the last child first.\<close>

fun preorder :: "nat \<Rightarrow> tree \<Rightarrow> nat list" and preorders :: "nat \<Rightarrow> tree list \<Rightarrow> nat list" where
  "preorder k (Tree nm ps ts) = k # preorders (Suc k) ts"
| "preorders k [] = []"
| "preorders k (t # ts) = preorders (k + tsize t) ts @ preorder k t"

lemma preorder_all:
  "distinct (preorder k t) \<and> set (preorder k t) = {k ..< k + tsize t}"
  "distinct (preorders k ts) \<and> set (preorders k ts) = {k ..< k + sum_list (map tsize ts)}"
  by (induction k t and k ts rule: preorder_preorders.induct) (auto simp: add.assoc)

text \<open>The search along a list of nodes, with what follows it.\<close>

fun first :: "(nat \<Rightarrow> 'a option res) \<Rightarrow> nat list \<Rightarrow> (nat \<times> 'a) option res \<Rightarrow> (nat \<times> 'a) option res" where
  "first g [] r = r"
| "first g (k # ks) r = bind_res (g k) (\<lambda>x. case x of Some y \<Rightarrow> Inr (Some (k, y)) | None \<Rightarrow> first g ks r)"

lemma first_append: "first g (ks @ ls) r = first g ks (first g ls r)"
  by (induction ks) (auto intro!: arg_cong [where f = "bind_res _"] split: option.split)

text \<open>The rest of the loop of \<open>search_nodes\<close> at the node that \<^verbatim>\<open>next_node\<close> returned.\<close>

definition visit :: "dt \<Rightarrow> nat option \<Rightarrow> (nat \<Rightarrow> 'a option res) \<Rightarrow> nat \<Rightarrow> nat option \<Rightarrow> (nat \<times> 'a) option res" where
  "visit d root g fuel n =
     (case n of None \<Rightarrow> Inr None
      | Some k \<Rightarrow> bind_res (g k) (\<lambda>x. case x of Some y \<Rightarrow> Inr (Some (k, y)) | None \<Rightarrow> search_nodes d root g fuel (Some k)))"

text \<open>\<open>leads d n r\<close>: from the end of the subtree of \<open>n\<close> the traversal goes on at \<open>r\<close>.\<close>

definition leads :: "dt \<Rightarrow> nat \<Rightarrow> nat option \<Rightarrow> bool" where
  "leads d n r \<longleftrightarrow> (\<forall>fuel > n. climb d fuel n = Inr r)"

lemma search_visit: "search_nodes d root g (Suc fuel) prev = bind_res (next_node d root prev) (visit d root g fuel)"
  by (auto simp: visit_def intro!: arg_cong [where f = "bind_res _"] split: option.split)

lemma leads_sibling: "sibling (dn d n) = Some q \<Longrightarrow> leads d n (Some q)"
  unfolding leads_def by (intro allI impI, case_tac fuel) (auto split: option.split)

lemma leads_parent:
  "\<lbrakk>sibling (dn d n) = None; parent (dn d n) = Some p; p < n; leads d p r\<rbrakk> \<Longrightarrow> leads d n r"
  unfolding leads_def by (intro allI impI, case_tac fuel) auto

lemma leads_root: "\<lbrakk>sibling (dn d n) = None; parent (dn d n) = None\<rbrakk> \<Longrightarrow> leads d n None"
  unfolding leads_def by (intro allI impI, case_tac fuel) auto

lemma next_of_leaf:
  assumes "child (dn d n) = None" and "leads d n r" and "n < length (nodes d)"
    and "sibling (dn d n) = None \<Longrightarrow> parent (dn d n) \<noteq> None"
  shows "next_node d root (Some n) = Inr r"
proof -
  have c: "climb d (Suc (length (nodes d))) n = Inr r"
    using assms(2,3) unfolding leads_def by (metis less_SucI)
  show ?thesis
  proof (cases "sibling (dn d n)")
    case None
    with assms(4) obtain p where "parent (dn d n) = Some p" by auto
    with None c assms(1) show ?thesis by (simp add: next_node_def)
  next
    case (Some q)
    with c assms(1) show ?thesis by (simp add: next_node_def split: option.splits)
  qed
qed

text \<open>A part of the table at its place.\<close>

definition holds_at :: "dt \<Rightarrow> nat \<Rightarrow> anode list \<Rightarrow> bool" where
  "holds_at d k ns \<longleftrightarrow> (\<forall>i < length ns. k + i < length (nodes d) \<and> an (dn d (k + i)) = ns ! i)"

lemma holds_at_Cons: "holds_at d k (n # ns) \<longleftrightarrow> k < length (nodes d) \<and> an (dn d k) = n \<and> holds_at d (Suc k) ns"
  by (auto simp: holds_at_def less_Suc_eq_0_disj)

lemma holds_at_append: "holds_at d k (ns @ ms) \<longleftrightarrow> holds_at d k ns \<and> holds_at d (k + length ns) ms"
proof (induction ns arbitrary: k)
  case Nil
  then show ?case by (simp add: holds_at_def)
next
  case (Cons n ns)
  then show ?case by (simp add: holds_at_Cons)
qed

lemma an_eq: "an n = \<lparr>apar = p, achild = c, asib = x, aname = nm, aprops = ps\<rparr> \<Longrightarrow> parent n = p \<and> child n = c \<and> sibling n = x"
  by (simp add: an_def)

lemma holds_at_layout: "holds_at d k (layout f par nx k t) \<Longrightarrow>
   parent (dn d k) = par \<and> sibling (dn d k) = nx \<and> child (dn d k) = last_kid (Suc k) None (kids t) \<and> k < length (nodes d) \<and>
   holds_at d (Suc k) (layouts f (Some k) None (Suc k) (kids t))"
  by (cases t) (auto simp: holds_at_Cons dest: an_eq)

text \<open>Where the search goes on after the first of a list of siblings.\<close>

definition onward :: "dt \<Rightarrow> nat \<Rightarrow> nat option \<Rightarrow> nat option \<Rightarrow> bool" where
  "onward d par prev r \<longleftrightarrow> (case prev of None \<Rightarrow> leads d par r | Some q \<Rightarrow> r = Some q)"

definition visits :: "fdt \<Rightarrow> dt \<Rightarrow> nat option \<Rightarrow> (nat \<Rightarrow> 'a option res) \<Rightarrow> tree \<Rightarrow> bool" where
  "visits f d root g t \<longleftrightarrow> (\<forall>k par nx r fuel.
     holds_at d k (layout f par nx k t) \<longrightarrow> leads d k r \<longrightarrow> kids t \<noteq> [] \<or> par \<noteq> None \<longrightarrow>
     visit d root g (fuel + tsize t) (Some k) = first g (preorder k t) (visit d root g fuel r))"

lemma visit_kids:
  "\<lbrakk>\<forall>t \<in> set ts. visits f d root g t; holds_at d k (layouts f (Some par) prev k ts); par < k;
    onward d par prev r; ts \<noteq> [] \<or> prev \<noteq> None\<rbrakk> \<Longrightarrow>
   visit d root g (fuel + sum_list (map tsize ts)) (last_kid k prev ts) = first g (preorders k ts) (visit d root g fuel r)"
proof (induction ts arbitrary: k prev fuel r)
  case Nil
  then show ?case by (auto simp: onward_def)
next
  case (Cons t ts)
  have h: "holds_at d k (layout f (Some par) prev k t)" "holds_at d (k + tsize t) (layouts f (Some par) (Some k) (k + tsize t) ts)"
    using Cons.prems(2) by (simp_all add: holds_at_append layout_length)
  have n: "parent (dn d k) = Some par" "sibling (dn d k) = prev" using holds_at_layout [OF h(1)] by auto
  have "leads d k r"
    using Cons.prems(3,4) n leads_sibling leads_parent by (auto simp: onward_def split: option.splits)
  then have t: "visit d root g (fuel + tsize t) (Some k) = first g (preorder k t) (visit d root g fuel r)"
    using Cons.prems(1) h(1) unfolding visits_def by fastforce
  have "visit d root g (fuel + tsize t + sum_list (map tsize ts)) (last_kid (k + tsize t) (Some k) ts) =
      first g (preorders (k + tsize t) ts) (visit d root g (fuel + tsize t) (Some k))"
    using Cons.prems(1,3) h(2) by (intro Cons.IH) (auto simp: onward_def)
  then show ?case by (simp add: t first_append add.assoc)
qed

lemma tree_visits: "visits f d root g t"
proof (induction t)
  case (Tree nm ps ts)
  show ?case unfolding visits_def
  proof (intro allI impI)
    fix k par nx r and fuel :: nat
    assume h: "holds_at d k (layout f par nx k (Tree nm ps ts))" and l: "leads d k r"
      and ne: "kids (Tree nm ps ts) \<noteq> [] \<or> par \<noteq> None"
    note n = holds_at_layout [OF h, simplified]
    have "bind_res (next_node d root (Some k)) (visit d root g (fuel + sum_list (map tsize ts))) =
        first g (preorders (Suc k) ts) (visit d root g fuel r)"
    proof (cases "ts = []")
      case True
      then have "next_node d root (Some k) = Inr r"
        using n l ne by (intro next_of_leaf) auto
      with True show ?thesis by simp
    next
      case False
      have "visit d root g (fuel + sum_list (map tsize ts)) (last_kid (Suc k) None ts) =
          first g (preorders (Suc k) ts) (visit d root g fuel r)"
        using Tree.IH n l False by (intro visit_kids [where f = f and par = k]) (auto simp: onward_def)
      moreover have "last_kid j p ts \<noteq> None" if "ts \<noteq> [] \<or> p \<noteq> None" for j p
        using that by (induction ts arbitrary: j p) auto
      ultimately show ?thesis using n False by (auto simp: next_node_def)
    qed
    then show "visit d root g (fuel + tsize (Tree nm ps ts)) (Some k) =
        first g (preorder k (Tree nm ps ts)) (visit d root g fuel r)"
      unfolding tsize.simps preorder.simps first.simps
      by (simp add: visit_def [of d root g "Suc _"] search_visit del: search_nodes.simps)
  qed
qed

lemma search_nodes_preorder:
  assumes "map an (nodes d) = layout f None None 0 t" and "kids t \<noteq> []"
  shows "search_nodes d (Some 0) g (length (nodes d) + 1) None = first g (preorder 0 t) (Inr None)"
proof -
  have len: "length (nodes d) = tsize t"
    using arg_cong [OF assms(1), of length] by (simp add: layout_length)
  have h: "holds_at d 0 (layout f None None 0 t)"
    unfolding assms(1) [symmetric] by (simp add: holds_at_def)
  have "leads d 0 None"
    using holds_at_layout [OF h] by (intro leads_root) auto
  with h assms(2) have "visit d (Some 0) g (0 + tsize t) (Some 0) = first g (preorder 0 t) (visit d (Some 0) g 0 None)"
    using tree_visits [of f d "Some 0" g t] unfolding visits_def by blast
  then show ?thesis
    by (simp add: search_visit len next_node_def visit_def [of _ _ _ 0] del: search_nodes.simps)
qed

text \<open>
  C31.  The search for a device the drivers match ends on every parsed tree whose root has children: it looks
  at every node exactly once, a parent before its children, and returns the first that matches.
\<close>

theorem next_match_node_ends:
  assumes "wf_tree f t" and "drop (unat (off_dt_struct f)) (fdata f) = flat t @ be32 FDT_END @ s" and "tcost t \<le> mem"
    and "kids t \<noteq> []"
  shows "\<exists>d. fdt_parse f mem = Inr (Some 0, d) \<and>
     next_match_node d (Some 0) drivers None = first (dt_compatible_device d drivers) (preorder 0 t) (Inr None) \<and>
     distinct (preorder 0 t) \<and> set (preorder 0 t) = {0 ..< length (nodes d)}"
proof -
  obtain d where d: "fdt_parse f mem = Inr (Some 0, d)" "map an (nodes d) = layout f None None 0 t"
    using assms(1-3) wf_tree_parses by (metis fdt_parse_layout)
  moreover have "length (nodes d) = tsize t"
    using arg_cong [OF d(2), of length] by (simp add: layout_length)
  ultimately show ?thesis
    using search_nodes_preorder [OF d(2) assms(4)] preorder_all(1) [of 0 t] by (auto simp: next_match_node_def)
qed

theorem next_match_node_ends_witness:
  "\<exists>d. fdt_parse example_fdt 8 = Inr (Some 0, d) \<and>
     next_match_node d (Some 0) ([] :: nat dt_device list) None =
       first (dt_compatible_device d ([] :: nat dt_device list)) (preorder 0 example_tree) (Inr None) \<and>
     distinct (preorder 0 example_tree) \<and> set (preorder 0 example_tree) = {0 ..< length (nodes d)}"
  by (rule next_match_node_ends [OF example_fdt_wf example_fdt_struct]) (simp_all add: example_tree_def)

end
