(* ===== verification/Emul.thy ===== *)
theory Emul
  imports Vm_Trap
begin

text \<open>
  The emulator of load and store instructions, \<^verbatim>\<open>core/emul.c\<close>.  Its only call, in \<^verbatim>\<open>vm_dabort\<close>, is commented
  out.  The state is the vCPU whose instruction is emulated and the shared memory of the node; a fetch
  that has to wait ends with the reply in \<open>page_reply\<close>, as in \<open>Vm_Trap\<close>.
\<close>

section \<open>Memory and registers\<close>

datatype addressing = OFFSET | PRE_INDEX | POST_INDEX

definition addressing_wback :: "addressing \<Rightarrow> bool" where
  "addressing_wback ad \<longleftrightarrow> ad = PRE_INDEX \<or> ad = POST_INDEX"

definition addressing_postidx :: "addressing \<Rightarrow> bool" where
  "addressing_postidx ad \<longleftrightarrow> ad = POST_INDEX"

text \<open>The bytes of a value in memory, and the value of bytes.\<close>

definition to_bytes :: "nat \<Rightarrow> u64 \<Rightarrow> u8 list" where
  "to_bytes k w = map (\<lambda>i. ucast (drop_bit (8 * i) w)) [0..<k]"

definition of_bytes :: "u8 list \<Rightarrow> u64" where
  "of_bytes bs = foldr (\<lambda>b w. push_bit 8 w OR ucast b) bs 0"

text \<open>\<^verbatim>\<open>vsm_access\<close> to its end: the return value and what the buffer then holds.\<close>

definition vsm_access_done :: "'c trap_env \<Rightarrow> nat \<Rightarrow> u8 list \<Rightarrow> ipa \<Rightarrow> bool \<Rightarrow> vnode \<Rightarrow> (int \<times> u8 list \<times> vnode) res" where
  "vsm_access_done e cpu bytes ipa wr n =
     bind_res (vsm_access n (Some bytes) ipa wr cpu) (\<lambda>(r, n1).
       case r of
         NoPage \<Rightarrow> Inr (-1, bytes, n1)
       | Hit pa \<Rightarrow> Inr (0, bytes, n1)
       | Blocked \<Rightarrow>
           let (cset, b, pa) = page_reply e
           in bind_res (reply_arrives n1 (PAGE_ADDRESS ipa) cset wr b pa cpu) (\<lambda>(_, n2).
                Inr (0, if wr then bytes else (case rdata n2 of Some x \<Rightarrow> x | None \<Rightarrow> bytes), n2)))"

definition put_reg :: "nat \<Rightarrow> u64 \<Rightarrow> vcpu \<Rightarrow> vcpu res" where
  "put_reg r w c = (if r < 31 then Inr (c\<lparr>xregs := (xregs c)[r := w]\<rparr>) else Inl (Undefined ''x[31]''))"

text \<open>
  The value that reaches the register.  A value of type \<^verbatim>\<open>i32\<close> that is assigned to a 64-bit register is
  extended with its sign.
\<close>

definition extend :: "nat \<Rightarrow> bool \<Rightarrow> bool \<Rightarrow> u64 \<Rightarrow> u64" where
  "extend sz sign_extend sext32 w =
     (if sz = 0 then
        if sign_extend then if sext32 then scast (scast (ucast w :: u8) :: u32) else scast (ucast w :: u8) else ucast (ucast w :: u8)
      else if sz = 1 then
        if sign_extend then if sext32 then scast (scast (ucast w :: u16) :: u32) else scast (ucast w :: u16) else ucast (ucast w :: u16)
      else if sz = 2 then if sign_extend then scast (ucast w :: u32) else ucast (ucast w :: u32)
      else w)"

type_synonym emul_out = "(int \<times> vcpu \<times> vnode) res"

definition load_register :: "'c trap_env \<Rightarrow> nat \<Rightarrow> nat \<Rightarrow> u64 \<Rightarrow> nat \<Rightarrow> bool \<Rightarrow> bool \<Rightarrow> vcpu \<Rightarrow> vnode \<Rightarrow> emul_out" where
  "load_register e cpu rt ipa sz sign_extend sext32 c n =
     (if sz > 3 then Inl (Panic ''unreachable'')
      else bind_res (vsm_access_done e cpu (replicate (2 ^ sz) 0) ipa False n) (\<lambda>(rc, b, n1).
        if rc < 0 then Inr (-1, c, n1)
        else bind_res (put_reg rt (extend sz sign_extend sext32 (of_bytes b)) c) (\<lambda>c1. Inr (0, c1, n1))))"

definition store_register :: "'c trap_env \<Rightarrow> nat \<Rightarrow> nat \<Rightarrow> u64 \<Rightarrow> nat \<Rightarrow> vcpu \<Rightarrow> vnode \<Rightarrow> emul_out" where
  "store_register e cpu rt ipa sz c n =
     (if sz > 3 then Inl (Panic ''unreachable'')
      else bind_res (vsm_access_done e cpu (to_bytes (2 ^ sz) (get_x c rt)) ipa True n) (\<lambda>(rc, b, n1).
        if rc < 0 then Inr (-1, c, n1) else Inr (0, c, n1)))"

section \<open>Instructions\<close>

definition emul_fetch :: "'c trap_env \<Rightarrow> nat \<Rightarrow> bool \<Rightarrow> vcpu \<Rightarrow> vnode \<Rightarrow> emul_out" where
  "emul_fetch e cpu wr c n =
     bind_res (vsm_fetch e wr (PAGE_ADDRESS (fault_ipa (dabt c))) cpu n) (\<lambda>(_, n1). Inr (1, c, n1))"

definition emul_ldpstp :: "'c trap_env \<Rightarrow> nat \<Rightarrow> bool \<Rightarrow> vcpu \<Rightarrow> vnode \<Rightarrow> emul_out" where
  "emul_ldpstp e cpu load c n = emul_fetch e cpu (\<not> load) c n"

definition emul_ldst_pair :: "'c trap_env \<Rightarrow> nat \<Rightarrow> u32 \<Rightarrow> addressing \<Rightarrow> vcpu \<Rightarrow> vnode \<Rightarrow> emul_out" where
  "emul_ldst_pair e cpu inst ad c n =
     (if bit inst 26 then Inl (Panic ''ldp/stp simd&fp'')
      else if bit inst 30 then Inl (Panic ''unimplemented stgp/ldpsw'')
      else emul_ldpstp e cpu (bit inst 22) c n)"

definition emul_ldxr :: "'c trap_env \<Rightarrow> nat \<Rightarrow> vcpu \<Rightarrow> vnode \<Rightarrow> emul_out" where
  "emul_ldxr e cpu c n = emul_fetch e cpu False c n"

definition emul_stxr :: "'c trap_env \<Rightarrow> nat \<Rightarrow> vcpu \<Rightarrow> vnode \<Rightarrow> emul_out" where
  "emul_stxr e cpu c n = emul_fetch e cpu True c n"

definition emul_ldst_excl :: "'c trap_env \<Rightarrow> nat \<Rightarrow> u32 \<Rightarrow> vcpu \<Rightarrow> vnode \<Rightarrow> emul_out" where
  "emul_ldst_excl e cpu inst c n = (if bit inst 22 then emul_ldxr e cpu c n else emul_stxr e cpu c n)"

definition emul_ldr_roffset :: "'c trap_env \<Rightarrow> nat \<Rightarrow> nat \<Rightarrow> nat \<Rightarrow> bool \<Rightarrow> bool \<Rightarrow> vcpu \<Rightarrow> vnode \<Rightarrow> emul_out" where
  "emul_ldr_roffset e cpu rt sz sign_extend sext32 c n =
     load_register e cpu rt (fault_ipa (dabt c)) sz sign_extend sext32 c n"

definition emul_str_roffset :: "'c trap_env \<Rightarrow> nat \<Rightarrow> nat \<Rightarrow> nat \<Rightarrow> vcpu \<Rightarrow> vnode \<Rightarrow> emul_out" where
  "emul_str_roffset e cpu rt sz c n = store_register e cpu rt (fault_ipa (dabt c)) sz c n"

text \<open>The base register, where number 31 is the stack pointer, before and after the access.\<close>

definition base_addr :: "nat \<Rightarrow> int \<Rightarrow> addressing \<Rightarrow> vcpu \<Rightarrow> u64" where
  "base_addr rn imm ad c =
     (let addr = (if rn = 31 then sp c else xregs c ! rn) in if \<not> addressing_postidx ad then addr + of_int imm else addr)"

definition writeback :: "nat \<Rightarrow> u64 \<Rightarrow> int \<Rightarrow> addressing \<Rightarrow> vcpu \<Rightarrow> vcpu" where
  "writeback rn addr imm ad c =
     (if addressing_wback ad then
        let a = (if addressing_postidx ad then addr + of_int imm else addr)
        in if rn = 31 then c\<lparr>sp := a\<rparr> else c\<lparr>xregs := (xregs c)[rn := a]\<rparr>
      else c)"

definition emul_ldr_imm ::
    "'c trap_env \<Rightarrow> nat \<Rightarrow> nat \<Rightarrow> nat \<Rightarrow> int \<Rightarrow> nat \<Rightarrow> addressing \<Rightarrow> bool \<Rightarrow> bool \<Rightarrow> vcpu \<Rightarrow> vnode \<Rightarrow> emul_out" where
  "emul_ldr_imm e cpu rt rn imm sz ad sign_extend sext32 c n =
     (let ipa = fault_ipa (dabt c); addr = base_addr rn imm ad c in
      if addr AND 0xfff \<noteq> ipa AND 0xfff then Inl (Panic ''emul: bug'')
      else bind_res (load_register e cpu rt ipa sz sign_extend sext32 c n) (\<lambda>(rc, c1, n1).
        if rc < 0 then Inr (-1, c1, n1) else Inr (0, writeback rn addr imm ad c1, n1)))"

definition emul_str_imm :: "'c trap_env \<Rightarrow> nat \<Rightarrow> nat \<Rightarrow> nat \<Rightarrow> int \<Rightarrow> nat \<Rightarrow> addressing \<Rightarrow> vcpu \<Rightarrow> vnode \<Rightarrow> emul_out" where
  "emul_str_imm e cpu rt rn imm sz ad c n =
     (let ipa = fault_ipa (dabt c); addr = base_addr rn imm ad c in
      if addr AND 0xfff \<noteq> ipa AND 0xfff then Inl (Panic ''emul: bug'')
      else bind_res (store_register e cpu rt ipa sz c n) (\<lambda>(rc, c1, n1).
        if rc < 0 then Inr (-1, c1, n1) else Inr (0, writeback rn addr imm ad c1, n1)))"

text \<open>\<^verbatim>\<open>(inst >> k) & mask\<close>\<close>

definition field :: "u32 \<Rightarrow> nat \<Rightarrow> u32 \<Rightarrow> nat" where
  "field inst k m = unat (drop_bit k inst AND m)"

definition emul_ldst_roffset :: "'c trap_env \<Rightarrow> nat \<Rightarrow> u32 \<Rightarrow> vcpu \<Rightarrow> vnode \<Rightarrow> emul_out" where
  "emul_ldst_roffset e cpu inst c n =
     (let rt = field inst 0 0x1f; opc = field inst 22 3; sz = field inst 30 3 in
      if bit inst 26 then Inl (Panic ''vector'')
      else if opc \<noteq> 0 then emul_ldr_roffset e cpu rt sz (bit inst 23) (bit inst 22) c n
      else emul_str_roffset e cpu rt sz c n)"

definition imm9 :: "u32 \<Rightarrow> int" where
  "imm9 inst = sint (signed_drop_bit (32 - 9) (push_bit (32 - 12 - 9) inst))"

definition emul_ldst_reg_imm9 :: "'c trap_env \<Rightarrow> nat \<Rightarrow> u32 \<Rightarrow> addressing \<Rightarrow> vcpu \<Rightarrow> vnode \<Rightarrow> emul_out" where
  "emul_ldst_reg_imm9 e cpu inst ad c n =
     (let rt = field inst 0 0x1f; rn = field inst 5 0x1f; sz = field inst 30 3 in
      if bit inst 26 then Inl (Panic ''vector unsupported'')
      else if bit inst 22 then emul_ldr_imm e cpu rt rn (imm9 inst) sz ad (bit inst 23) (bit inst 22) c n
      else emul_str_imm e cpu rt rn (imm9 inst) sz ad c n)"

definition emul_ldst_reg_uimm :: "'c trap_env \<Rightarrow> nat \<Rightarrow> u32 \<Rightarrow> vcpu \<Rightarrow> vnode \<Rightarrow> emul_out" where
  "emul_ldst_reg_uimm e cpu inst c n =
     (let rt = field inst 0 0x1f; rn = field inst 5 0x1f; opc = field inst 22 3; sz = field inst 30 3;
          off = int (field inst 10 0xfff) * 2 ^ sz
      in if bit inst 26 then Inl (Panic ''vector unsupported'')
      else if sz = 3 \<and> opc = 2 then Inl (Panic ''pfrm'')
      else if opc \<noteq> 0 then emul_ldr_imm e cpu rt rn off sz OFFSET (bit inst 23) (bit inst 22) c n
      else emul_str_imm e cpu rt rn off sz OFFSET c n)"

text \<open>The value is a 64-bit variable of which the access reads or writes the first \<^verbatim>\<open>accbyte\<close> bytes.\<close>

definition load_var :: "'c trap_env \<Rightarrow> nat \<Rightarrow> nat \<Rightarrow> u64 \<Rightarrow> nat \<Rightarrow> vcpu \<Rightarrow> vnode \<Rightarrow> emul_out" where
  "load_var e cpu r ipa k c n =
     bind_res (vsm_access_done e cpu (replicate k 0) ipa False n) (\<lambda>(rc, b, n1).
       if rc < 0 then Inr (-1, c, n1) else bind_res (put_reg r (of_bytes b) c) (\<lambda>c1. Inr (0, c1, n1)))"

definition store_var :: "'c trap_env \<Rightarrow> nat \<Rightarrow> nat \<Rightarrow> u64 \<Rightarrow> nat \<Rightarrow> vcpu \<Rightarrow> vnode \<Rightarrow> emul_out" where
  "store_var e cpu r ipa k c n =
     bind_res (vsm_access_done e cpu (to_bytes k (get_x c r)) ipa True n) (\<lambda>(rc, b, n1).
       if rc < 0 then Inr (-1, c, n1) else Inr (0, c, n1))"

definition emul_ldst_reg_unscaled :: "'c trap_env \<Rightarrow> nat \<Rightarrow> vcpu \<Rightarrow> vnode \<Rightarrow> emul_out" where
  "emul_ldst_reg_unscaled e cpu c n =
     (let d = dabt c in
      if \<not> isv d then Inl (Panic ''isv'')
      else if dwrite d then store_var e cpu (dreg d) (fault_ipa d) (accbyte d) c n
      else load_var e cpu (dreg d) (fault_ipa d) (accbyte d) c n)"

definition emul_ldar_stlr :: "'c trap_env \<Rightarrow> nat \<Rightarrow> nat \<Rightarrow> nat \<Rightarrow> bool \<Rightarrow> vcpu \<Rightarrow> vnode \<Rightarrow> emul_out" where
  "emul_ldar_stlr e cpu sz rt load c n =
     (if load then load_var e cpu rt (fault_ipa (dabt c)) (2 ^ sz) c n
      else store_var e cpu rt (fault_ipa (dabt c)) (2 ^ sz) c n)"

definition emul_ldst_ordered :: "'c trap_env \<Rightarrow> nat \<Rightarrow> u32 \<Rightarrow> vcpu \<Rightarrow> vnode \<Rightarrow> emul_out" where
  "emul_ldst_ordered e cpu inst c n =
     (if \<not> bit inst 15 then Inl (Panic ''!o0'')
      else emul_ldar_stlr e cpu (field inst 30 3) (field inst 0 0x1f) (bit inst 22) c n)"

section \<open>Decoding\<close>

definition emul_load_store :: "'c trap_env \<Rightarrow> nat \<Rightarrow> u32 \<Rightarrow> vcpu \<Rightarrow> vnode \<Rightarrow> emul_out" where
  "emul_load_store e cpu inst c n =
     (let op0 = field inst 28 3; op2 = field inst 23 3; op4 = field inst 10 3 in
      if op0 = 0 then
        if bit inst 26 then Inr (-1, c, n)
        else if op2 = 0 then emul_ldst_excl e cpu inst c n
        else if op2 = 1 \<and> \<not> bit inst 21 then emul_ldst_ordered e cpu inst c n
        else Inr (-1, c, n)
      else if op0 = 1 then Inr (-1, c, n)
      else if op0 = 2 then
        emul_ldst_pair e cpu inst (if op2 = 1 then POST_INDEX else if op2 = 3 then PRE_INDEX else OFFSET) c n
      else if bit inst 24 then emul_ldst_reg_uimm e cpu inst c n
      else if \<not> bit inst 21 then
        if op4 = 0 then emul_ldst_reg_unscaled e cpu c n
        else if op4 = 1 then emul_ldst_reg_imm9 e cpu inst POST_INDEX c n
        else if op4 = 2 then Inl (Panic ''ldst unprivileged'')
        else emul_ldst_reg_imm9 e cpu inst PRE_INDEX c n
      else if op4 = 0 then Inl (Panic ''atomic'')
      else if op4 = 2 then emul_ldst_roffset e cpu inst c n
      else Inl (Panic ''emul_ldst_pac''))"

definition cpu_emulate :: "'c trap_env \<Rightarrow> nat \<Rightarrow> u32 \<Rightarrow> vcpu \<Rightarrow> vnode \<Rightarrow> emul_out" where
  "cpu_emulate e cpu inst c n =
     (let op1 = field inst 25 0xf in
      if op1 = 0 \<or> op1 = 2 then Inr (-1, c, n)
      else if op1 = 1 \<or> op1 = 3 then Inl (Panic ''unallocated'')
      else if op1 = 8 \<or> op1 = 9 then Inl (Panic ''data ?'')
      else if op1 = 0xa \<or> op1 = 0xb then Inl (Panic ''branch ?'')
      else if op1 = 4 \<or> op1 = 6 \<or> op1 = 0xc \<or> op1 = 0xe then emul_load_store e cpu inst c n
      else Inl (Panic ''data ?''))"

section \<open>Register with immediate offset\<close>

text \<open>
  The encoding of a load or store of register \<open>rt\<close> with the signed offset \<open>imm\<close> to the base register \<open>rn\<close>, as
  the architecture defines it: \<open>opc\<close> is 0 for a store and 1 for a load, \<open>idx\<close> is 1 for post-indexed and 3 for
  pre-indexed addressing.
\<close>

definition ldst_imm9 :: "2 word \<Rightarrow> 2 word \<Rightarrow> 9 word \<Rightarrow> 2 word \<Rightarrow> 5 word \<Rightarrow> 5 word \<Rightarrow> u32" where
  "ldst_imm9 sz opc imm idx rn rt =
     push_bit 30 (ucast sz) OR push_bit 27 7 OR push_bit 22 (ucast opc) OR push_bit 12 (ucast imm) OR
     push_bit 10 (ucast idx) OR push_bit 5 (ucast rn) OR ucast rt"

lemma bit_7: "bit (7 :: u32) k \<longleftrightarrow> k < 3"
proof -
  have "(7 :: u32) = mask 3" by (simp add: mask_eq_exp_minus_1)
  then show ?thesis by (simp only: bit_mask_iff) auto
qed

lemma bit_part: "bit (push_bit m (ucast (w :: 'a :: len word)) :: u32) k \<longleftrightarrow> k < 32 \<and> m \<le> k \<and> bit w (k - m)"
  by (auto simp: bit_push_bit_iff bit_ucast_iff)

lemma ldst_imm9_bit:
  "bit (ldst_imm9 sz opc imm idx rn rt) k \<longleftrightarrow> k < 32 \<and>
     (30 \<le> k \<and> bit sz (k - 30) \<or> 27 \<le> k \<and> k < 30 \<or> 22 \<le> k \<and> bit opc (k - 22) \<or> 12 \<le> k \<and> bit imm (k - 12) \<or>
      10 \<le> k \<and> bit idx (k - 10) \<or> 5 \<le> k \<and> bit rn (k - 5) \<or> bit rt k)"
proof -
  have s: "bit (push_bit 27 7 :: u32) k \<longleftrightarrow> k < 32 \<and> 27 \<le> k \<and> k < 30"
    unfolding bit_push_bit_iff bit_7 by auto
  have t: "bit (ucast rt :: u32) k \<longleftrightarrow> k < 32 \<and> bit rt k" by (simp add: bit_ucast_iff)
  show ?thesis unfolding ldst_imm9_def bit_or_iff bit_part s t by blast
qed

lemma high_bit_False: "LENGTH('a :: len) \<le> k \<Longrightarrow> \<not> bit (w :: 'a word) k"
  by (auto dest: bit_imp_le_length)

lemma mask_field: "drop_bit k inst AND mask j = (v :: u32) \<Longrightarrow> (m :: u32) = mask j \<Longrightarrow> field inst k m = unat v"
  by (simp add: field_def)

lemma unat_ucast_widen:
  assumes "LENGTH('a :: len) \<le> LENGTH('b :: len)"
  shows "unat (ucast (w :: 'a word) :: 'b word) = unat w"
proof -
  have "unat w < 2 ^ LENGTH('a)" by (rule unsigned_less)
  also have "\<dots> \<le> 2 ^ LENGTH('b)" using assms by (rule power_increasing) simp
  finally show ?thesis by (simp only: unsigned_ucast_eq take_bit_nat_eq_self)
qed

lemma masks: "(0x1f :: u32) = mask 5" "(3 :: u32) = mask 2" "(0xf :: u32) = mask 4"
  by (simp_all add: mask_eq_exp_minus_1)

lemma ldst_imm9_fields:
  fixes sz opc idx :: "2 word" and imm :: "9 word" and rn rt :: "5 word"
  defines "inst \<equiv> ldst_imm9 sz opc imm idx rn rt"
  shows "field inst 0 0x1f = unat rt" "field inst 5 0x1f = unat rn" "field inst 10 3 = unat idx"
    "field inst 30 3 = unat sz" "field inst 28 3 = 3" "field inst 25 0xf = 12"
proof -
  note b = bit_and_iff bit_drop_bit_eq bit_mask_iff bit_ucast_iff inst_def ldst_imm9_bit
  have "drop_bit 0 inst AND mask 5 = ucast rt"
    by (rule bit_word_eqI) (auto simp: b dest: bit_imp_le_length)
  from mask_field [OF this masks(1)] show "field inst 0 0x1f = unat rt" by (simp add: unat_ucast_widen)
  have "drop_bit 5 inst AND mask 5 = ucast rn"
    by (rule bit_word_eqI) (auto simp: b dest: bit_imp_le_length)
  from mask_field [OF this masks(1)] show "field inst 5 0x1f = unat rn" by (simp add: unat_ucast_widen)
  have "drop_bit 10 inst AND mask 2 = ucast idx"
    by (rule bit_word_eqI) (auto simp: b dest: bit_imp_le_length)
  from mask_field [OF this masks(2)] show "field inst 10 3 = unat idx" by (simp add: unat_ucast_widen)
  have "drop_bit 30 inst AND mask 2 = ucast sz"
    by (rule bit_word_eqI) (auto simp: b dest: bit_imp_le_length)
  from mask_field [OF this masks(2)] show "field inst 30 3 = unat sz" by (simp add: unat_ucast_widen)
  have "drop_bit 28 inst AND mask 2 = mask 2"
    by (rule bit_word_eqI) (auto simp: b dest: bit_imp_le_length)
  from mask_field [OF this masks(2)] show "field inst 28 3 = 3" by (simp add: mask_eq_exp_minus_1)
  have "drop_bit 25 inst AND mask 4 = push_bit 2 (mask 2)"
    by (rule bit_word_eqI) (auto simp: b bit_push_bit_iff dest: bit_imp_le_length)
  from mask_field [OF this masks(3)] show "field inst 25 0xf = 12" by (simp add: mask_eq_exp_minus_1)
qed

lemma ldst_imm9_imm: "imm9 (ldst_imm9 sz opc imm idx rn rt) = sint imm"
proof -
  have "signed_drop_bit 23 (push_bit 11 (ldst_imm9 sz opc imm idx rn rt)) = (scast imm :: u32)"
  proof (rule bit_word_eqI)
    fix k :: nat
    assume k: "k < LENGTH(32)"
    have up: "\<not> bit opc (8 + j)" "\<not> bit idx (2 + j)" "\<not> bit rn (7 + j)" "\<not> bit rt (12 + j)" for j
      by (rule high_bit_False, simp)+
    show "bit (signed_drop_bit 23 (push_bit 11 (ldst_imm9 sz opc imm idx rn rt))) k = bit (scast imm :: u32) k"
    proof (cases "k < 8")
      case True
      then show ?thesis
        using k up(1,2,3,4) [of k]
        by (auto simp: bit_signed_drop_bit_iff bit_push_bit_iff ldst_imm9_bit bit_signed_iff min_def dest: bit_imp_le_length)
    next
      case False
      then have i: "(if LENGTH(32) - 23 \<le> k \<and> k < LENGTH(32) then LENGTH(32) - 1 else 23 + k) = 31" using k by auto
      have "min 8 k = 8" using False by simp
      moreover have "bit (ldst_imm9 sz opc imm idx rn rt) 20 = bit imm 8"
        by (auto simp: ldst_imm9_bit dest: bit_imp_le_length)
      ultimately show ?thesis
        using k unfolding bit_signed_drop_bit_iff i by (simp add: bit_push_bit_iff bit_signed_iff)
    qed
  qed
  then show ?thesis by (simp add: imm9_def sint_up_scast is_up)
qed

lemma ldst_imm9_flags:
  fixes sz opc idx :: "2 word" and imm :: "9 word" and rn rt :: "5 word"
  defines "inst \<equiv> ldst_imm9 sz opc imm idx rn rt"
  shows "\<not> bit inst 24" "\<not> bit inst 21" "\<not> bit inst 26" "bit inst 22 = bit opc 0" "bit inst 23 = bit opc 1"
  by (auto simp: inst_def ldst_imm9_bit dest: bit_imp_le_length)

text \<open>What such an instruction does.\<close>

definition base_reg :: "nat \<Rightarrow> vcpu \<Rightarrow> u64" where
  "base_reg rn c = (if rn = 31 then sp c else xregs c ! rn)"

definition set_base :: "nat \<Rightarrow> u64 \<Rightarrow> vcpu \<Rightarrow> vcpu" where
  "set_base rn a c = (if rn = 31 then c\<lparr>sp := a\<rparr> else c\<lparr>xregs := (xregs c)[rn := a]\<rparr>)"

definition ldst_spec :: "'c trap_env \<Rightarrow> nat \<Rightarrow> bool \<Rightarrow> nat \<Rightarrow> nat \<Rightarrow> nat \<Rightarrow> int \<Rightarrow> vcpu \<Rightarrow> vnode \<Rightarrow> emul_out" where
  "ldst_spec e cpu load k rt rn imm c n =
     bind_res (vsm_access_done e cpu (if load then replicate k 0 else to_bytes k (get_x c rt)) (fault_ipa (dabt c)) (\<not> load) n)
       (\<lambda>(rc, b, n1).
         if rc < 0 then Inr (-1, c, n1)
         else Inr (0, set_base rn (base_reg rn c + of_int imm)
                (if load then c\<lparr>xregs := (xregs c)[rt := take_bit (8 * k) (of_bytes b)]\<rparr> else c), n1))"

lemma extend_unsigned: "sz < 4 \<Longrightarrow> extend sz False x w = take_bit (8 * 2 ^ sz) w"
proof -
  have u: "ucast (ucast w :: u8) = take_bit 8 w" "ucast (ucast w :: u16) = take_bit 16 w" "ucast (ucast w :: u32) = take_bit 32 w"
    by (rule bit_word_eqI; auto simp: bit_ucast_iff bit_take_bit_iff)+
  assume "sz < 4"
  then consider "sz = 0" | "sz = 1" | "sz = 2" | "sz = 3" by linarith
  then show ?thesis by cases (simp_all add: extend_def u take_bit_word_eq_self)
qed


definition example_load :: vcpu where
  "example_load = zero_vcpu\<lparr>xregs := (replicate 31 0)[2 := 0x40001008],
     dabt := \<lparr>fault_ipa = 0x40001008, fault_va = 0x40001008, isv = False, dwrite = False, dreg = 0, accbyte = 8\<rparr>\<rparr>"


section \<open>Sign-extending loads\<close>

text \<open>
  A load that is to extend the sign to 32 bits fills all 64 bits of the register, where the architecture
  clears the upper half.
\<close>

lemma sext32_fills_register: "extend 0 True True w = extend 0 True False w \<and> extend 1 True True w = extend 1 True False w"
proof -
  have "(scast (scast (a :: u8) :: u32) :: u64) = scast a" "(scast (scast (b :: u16) :: u32) :: u64) = scast b" for a b
    by (rule bit_word_eqI; auto simp: bit_signed_iff min_def)+
  then show ?thesis by (simp add: extend_def)
qed

text \<open>With write-back, a load that extends the sign to 64 bits is taken for a store.\<close>

lemma ldrs_imm9_is_store:
  "emul_ldst_reg_imm9 e cpu (ldst_imm9 sz 2 imm idx rn rt) ad c n =
     emul_str_imm e cpu (unat rt) (unat rn) (sint imm) (unat sz) ad c n"
proof -
  have "\<not> bit (2 :: 2 word) 0" by simp
  then show ?thesis
    unfolding emul_ldst_reg_imm9_def ldst_imm9_fields ldst_imm9_imm ldst_imm9_flags(4) by (simp add: ldst_imm9_flags(3))
qed

end
