(* ===== verification/Malloc.thy ===== *)
theory Malloc
  imports Alloc_Page
begin

text \<open>
  The allocator of small objects, \<^verbatim>\<open>core/malloc.c\<close>, on top of the page allocator.  A frame is a page with a
  header of two cells, the link to the next frame and the head of the list of its free blocks; the links of
  the free blocks are in their first cells.  There is one list of frames for each of the eight block sizes.
  \<open>heap_ok\<close> describes a well-formed heap by the frames of every size and the free blocks of every frame; the
  lemmas show that \<^verbatim>\<open>malloc\<close> and \<^verbatim>\<open>free\<close> keep it, and that a block handed out belongs to nobody else.
\<close>

section \<open>State and operations\<close>

record heap_state =
  zone :: mstate
  framelists :: "u64 list"

definition blocksize :: "nat list" where
  "blocksize = [16, 32, 64, 128, 248, 504, 1016, 2040]"

text \<open>The loop runs up to index 8, which is past the end of the table.\<close>

function get_order_from :: "nat \<Rightarrow> nat \<Rightarrow> nat res" where
  "get_order_from sz order =
     (if order < 9 then
        if order \<ge> length blocksize then Inl (Undefined ''blocksize[8]'')
        else if sz \<le> blocksize ! order then Inr order
        else get_order_from sz (order + 1)
      else Inr order)"
  by pat_completeness auto
termination
  by (relation "measure (\<lambda>(sz, order). 9 - order)") auto

declare get_order_from.simps [simp del]

definition get_order :: "nat \<Rightarrow> nat res" where
  "get_order sz = get_order_from sz 0"

text \<open>The list of free blocks of a new frame at \<open>f\<close>, from offset \<open>off\<close>; a block size is never 0.\<close>

function frame_loop :: "u64 \<Rightarrow> nat \<Rightarrow> nat \<Rightarrow> u64 \<Rightarrow> heap \<Rightarrow> u64 \<times> heap" where
  "frame_loop f b off fl h =
     (if 0 < b \<and> off + b < PAGESIZE then frame_loop f b (off + b) (f + of_nat off) (h(f + of_nat off := fl)) else (fl, h))"
  by pat_completeness auto
termination
  by (relation "measure (\<lambda>(f, b, off, fl, h). PAGESIZE - off)") auto

declare frame_loop.simps [simp del]

definition malloc_frame :: "mstate \<Rightarrow> nat \<Rightarrow> (u64 \<times> mstate) res" where
  "malloc_frame z order =
     bind_res (alloc_page z) (\<lambda>(f, z1).
       if f = 0 then Inr (0, z1)
       else
         let z2 = write_cell z1 f 0;
             (fl, h) = frame_loop f (blocksize ! order) 16 0 (mem z2)
         in Inr (f, z2\<lparr>mem := h(f + 8 := fl)\<rparr>))"

text \<open>The first frame of a list that has a free block; 0 when none has.\<close>

partial_function (option) search_frames :: "heap \<Rightarrow> u64 \<Rightarrow> u64 option" where
  "search_frames h f =
     (if f = 0 then Some 0 else if h (f + 8) \<noteq> 0 then Some f else search_frames h (h f))"

definition take_block :: "heap_state \<Rightarrow> u64 \<Rightarrow> nat \<Rightarrow> u64 \<times> heap_state" where
  "take_block hs f sz =
     (let h = mem (zone hs); p = h (f + 8); h1 = h(f + 8 := h p)
      in (p, hs\<lparr>zone := (zone hs)\<lparr>mem := memset p 0 sz h1\<rparr>\<rparr>))"

text \<open>\<open>k\<close> bounds the jumps to \<^verbatim>\<open>retry\<close>: a new frame has a free block, so one is enough.\<close>

fun malloc_retry :: "nat \<Rightarrow> heap_state \<Rightarrow> nat \<Rightarrow> nat \<Rightarrow> (u64 \<times> heap_state) res" where
  "malloc_retry k hs order sz =
     (case search_frames (mem (zone hs)) (framelists hs ! order) of
        None \<Rightarrow> Inl (Hang ''framelist'')
      | Some f \<Rightarrow>
          if f \<noteq> 0 then Inr (take_block hs f sz)
          else
            bind_res (malloc_frame (zone hs) order) (\<lambda>(nf, z1).
              if nf = 0 then Inr (0, hs\<lparr>zone := z1\<rparr>)
              else
                let hs1 = hs\<lparr>zone := write_cell z1 nf (framelists hs ! order), framelists := (framelists hs)[order := nf]\<rparr>
                in case k of 0 \<Rightarrow> Inl (Hang ''retry'') | Suc j \<Rightarrow> malloc_retry j hs1 order sz))"

declare malloc_retry.simps [simp del]

definition malloc_core :: "heap_state \<Rightarrow> nat \<Rightarrow> nat \<Rightarrow> (u64 \<times> heap_state) res" where
  "malloc_core hs order sz =
     bind_res
       (if framelists hs ! order = 0 then
          bind_res (malloc_frame (zone hs) order) (\<lambda>(f, z1).
            Inr (hs\<lparr>zone := z1, framelists := (framelists hs)[order := f]\<rparr>))
        else Inr hs)
       (\<lambda>hs1. malloc_retry 1 hs1 order sz)"

definition malloc :: "heap_state \<Rightarrow> nat \<Rightarrow> (u64 \<times> heap_state) res" where
  "malloc hs sz =
     (if sz = 0 then Inl (Panic ''0 malloc'')
      else bind_res (get_order sz) (\<lambda>order.
        if order \<ge> 8 then Inl (Panic ''too big'')
        else bind_res (malloc_core hs order sz) (\<lambda>(p, hs1).
          if p AND 7 \<noteq> 0 then Inl (Panic ''malloc: not aligned to 8 byte'') else Inr (p, hs1))))"

definition free :: "heap_state \<Rightarrow> u64 \<Rightarrow> heap_state res" where
  "free hs p =
     (if p = 0 then Inl (Panic ''null free'')
      else
        let f = PAGE_ADDRESS p; h = mem (zone hs)
        in Inr (hs\<lparr>zone := (zone hs)\<lparr>mem := h(p := h (f + 8), f + 8 := p)\<rparr>\<rparr>))"

section \<open>Blocks of a frame\<close>

text \<open>The blocks of size \<open>b\<close> of the frame at \<open>f\<close> from offset \<open>off\<close> on.\<close>

definition slots_from :: "u64 \<Rightarrow> nat \<Rightarrow> nat \<Rightarrow> u64 set" where
  "slots_from f b off = {f + of_nat (off + k * b) | k. off + k * b + b < PAGESIZE}"

abbreviation bs_of :: "nat \<Rightarrow> nat" where
  "bs_of order \<equiv> blocksize ! order"

abbreviation slots_of :: "u64 \<Rightarrow> nat \<Rightarrow> u64 set" where
  "slots_of f order \<equiv> slots_from f (bs_of order) 16"

lemma order_cases: "order < 8 \<Longrightarrow> order = 0 \<or> order = 1 \<or> order = 2 \<or> order = 3 \<or> order = 4 \<or> order = 5 \<or> order = 6 \<or> order = (7 :: nat)"
  by linarith

lemma blocksize_facts:
  "order < 8 \<Longrightarrow> 16 \<le> bs_of order \<and> bs_of order \<le> 2040 \<and> 8 dvd bs_of order"
  by (drule order_cases) (auto simp: blocksize_def)

lemma get_order_from_ok:
  assumes "sz \<le> 2040" and "order \<le> 7"
  shows "\<exists>k < 8. get_order_from sz order = Inr k \<and> sz \<le> bs_of k"
  using assms(2)
proof (induction order rule: inc_induct)
  case base
  show ?case by (rule exI [of _ 7], subst get_order_from.simps) (use assms(1) in \<open>simp add: blocksize_def\<close>)
next
  case (step n)
  then show ?case by (subst get_order_from.simps) (auto simp: blocksize_def)
qed

lemma get_order_ok: "sz \<le> 2040 \<Longrightarrow> \<exists>k < 8. get_order sz = Inr k \<and> sz \<le> bs_of k"
  using get_order_from_ok [of sz 0] by (simp add: get_order_def)

text \<open>For larger sizes the search reads past the end of the table of sizes.\<close>

lemma get_order_overrun: "2040 < sz \<Longrightarrow> get_order sz = Inl (Undefined ''blocksize[8]'')"
proof -
  assume sz: "2040 < sz"
  have "order \<le> 8 \<Longrightarrow> get_order_from sz order = Inl (Undefined ''blocksize[8]'')" for order
  proof (induction order rule: inc_induct)
    case base
    show ?case by (subst get_order_from.simps) (simp add: blocksize_def)
  next
    case (step n)
    then have "bs_of n < sz" using blocksize_facts [of n] sz by auto
    with step show ?case by (subst get_order_from.simps) (auto simp: blocksize_def)
  qed
  then show ?thesis by (simp add: get_order_def)
qed

lemma slots_from_step:
  "0 < b \<Longrightarrow> slots_from f b off = (if off + b < PAGESIZE then insert (f + of_nat off) (slots_from f b (off + b)) else {})"
proof (cases "off + b < PAGESIZE")
  case True
  assume "0 < b"
  show ?thesis
  proof (intro set_eqI iffI)
    fix x assume "x \<in> slots_from f b off"
    then obtain k where k: "x = f + of_nat (off + k * b)" "off + k * b + b < PAGESIZE" by (auto simp: slots_from_def)
    show "x \<in> (if off + b < PAGESIZE then insert (f + of_nat off) (slots_from f b (off + b)) else {})"
    proof (cases k)
      case 0
      then show ?thesis using True k by simp
    next
      case (Suc j)
      then have "x = f + of_nat (off + b + j * b)" "off + b + j * b + b < PAGESIZE" using k by (simp_all add: algebra_simps)
      then show ?thesis using True by (auto simp: slots_from_def)
    qed
  next
    fix x assume "x \<in> (if off + b < PAGESIZE then insert (f + of_nat off) (slots_from f b (off + b)) else {})"
    then consider "x = f + of_nat off" | j where "x = f + of_nat (off + b + j * b)" "off + b + j * b + b < PAGESIZE"
      using True by (auto simp: slots_from_def)
    then show "x \<in> slots_from f b off"
    proof cases
      case 1
      then show ?thesis using True unfolding slots_from_def by (intro CollectI exI [of _ 0]) simp
    next
      case 2
      then show ?thesis unfolding slots_from_def by (intro CollectI exI [of _ "Suc j"]) (simp add: algebra_simps)
    qed
  qed
next
  case False
  then show ?thesis by (auto simp: slots_from_def)
qed

lemma frame_offset:
  assumes "block_ok f 0" and "x < PAGESIZE"
  shows "unat (f + of_nat x) = unat f + x"
  using assms unat_add_of_nat [of f x] by (simp add: block_ok_def block_size_def)

lemma slots_from_unat:
  assumes "block_ok f 0" and "q \<in> slots_from f b off"
  obtains k where "unat q = unat f + (off + k * b)" "off + k * b + b < PAGESIZE"
proof -
  obtain k where k: "q = f + of_nat (off + k * b)" "off + k * b + b < PAGESIZE" using assms(2) by (auto simp: slots_from_def)
  show ?thesis
  proof (rule that)
    show "unat q = unat f + (off + k * b)" unfolding k(1) using k(2) by (intro frame_offset [OF assms(1)]) simp
  qed (rule k(2))
qed

lemma slots_from_inside:
  assumes "block_ok f 0" and "q \<in> slots_from f b off"
  shows "unat f + off \<le> unat q \<and> unat q + b < unat f + PAGESIZE"
  by (rule slots_from_unat [OF assms]) simp

text \<open>Different blocks of a frame do not overlap.\<close>

lemma slots_apart:
  assumes "block_ok f 0" and "q \<in> slots_from f b off" and "r \<in> slots_from f b off" and "q \<noteq> r"
  shows "unat q + b \<le> unat r \<or> unat r + b \<le> unat q"
proof -
  obtain k where k: "unat q = unat f + (off + k * b)" using slots_from_unat [OF assms(1,2)] by metis
  obtain j where j: "unat r = unat f + (off + j * b)" using slots_from_unat [OF assms(1,3)] by metis
  have "k \<noteq> j" using k j assms(4) by (auto simp: word_unat_eq_iff)
  then consider "k < j" | "j < k" by linarith
  then show ?thesis
  proof cases
    case 1
    then have "Suc k * b \<le> j * b" by (intro mult_right_mono) auto
    then show ?thesis using k j by simp
  next
    case 2
    then have "Suc j * b \<le> k * b" by (intro mult_right_mono) auto
    then show ?thesis using k j by simp
  qed
qed

section \<open>New frames\<close>

lemma chain_upd: "x \<notin> set bs \<Longrightarrow> chain (h(x := v)) p bs \<longleftrightarrow> chain h p bs"
  by (induction bs arbitrary: p) auto

lemma frame_loop_spec:
  assumes f: "block_ok f 0" and b: "0 < b"
  shows "\<lbrakk>16 \<le> off; chain h fl bs; distinct bs; \<forall>q \<in> set bs. unat f + 16 \<le> unat q \<and> unat q < unat f + off\<rbrakk> \<Longrightarrow>
    \<exists>fl' h' bs'. frame_loop f b off fl h = (fl', h') \<and> chain h' fl' bs' \<and> distinct bs' \<and>
      set bs' = set bs \<union> slots_from f b off \<and>
      (\<forall>a. unat a < unat f + 16 \<or> unat f + PAGESIZE \<le> unat a \<longrightarrow> h' a = h a)"
proof (induction "PAGESIZE - off" arbitrary: off fl h bs rule: less_induct)
  case less
  show ?case
  proof (cases "off + b < PAGESIZE")
    case False
    then have "frame_loop f b off fl h = (fl, h)" "slots_from f b off = {}"
      using slots_from_step [OF b] by (auto simp: frame_loop.simps)
    with less.prems show ?thesis by (intro exI [of _ fl] exI [of _ h] exI [of _ bs]) simp
  next
    case True
    let ?q = "f + of_nat off" and ?h = "h(f + of_nat off := fl)"
    have q: "unat ?q = unat f + off" using frame_offset [OF f] True by simp
    have nz: "?q \<noteq> 0" using q less.prems(1) by (metis add_is_0 not_numeral_le_zero unat_0)
    have "?q \<notin> set bs" using less.prems(4) q by force
    then have c: "chain ?h ?q (?q # bs)" using less.prems(2) nz by (simp add: chain_upd)
    have "distinct (?q # bs)" using \<open>?q \<notin> set bs\<close> less.prems(3) by simp
    moreover have "\<forall>r \<in> set (?q # bs). unat f + 16 \<le> unat r \<and> unat r < unat f + (off + b)"
      using less.prems(1,4) q b by force
    moreover have "PAGESIZE - (off + b) < PAGESIZE - off" "16 \<le> off + b" using True b less.prems(1) by auto
    ultimately obtain fl' h' bs' where r: "frame_loop f b (off + b) ?q ?h = (fl', h')" "chain h' fl' bs'" "distinct bs'"
      "set bs' = set (?q # bs) \<union> slots_from f b (off + b)"
      "\<forall>a. unat a < unat f + 16 \<or> unat f + PAGESIZE \<le> unat a \<longrightarrow> h' a = ?h a"
      using less.hyps [OF _ _ c] by blast
    have "frame_loop f b off fl h = (fl', h')" using r(1) True b by (subst frame_loop.simps) simp
    moreover have "set bs' = set bs \<union> slots_from f b off"
      using r(4) True slots_from_step [OF b, of f off] by auto
    moreover have "h' a = h a" if "unat a < unat f + 16 \<or> unat f + PAGESIZE \<le> unat a" for a
    proof -
      have "a \<noteq> ?q" using that q True less.prems(1) by auto
      then show ?thesis using r(5) that by (metis fun_upd_other)
    qed
    ultimately show ?thesis using r(2,3) by blast
  qed
qed

lemma frame_header:
  assumes "block_ok f 0"
  shows "unat (f + 8) = unat f + 8" "f + 8 \<noteq> f" "unat (f + 8) \<in> block f 0" "unat f \<in> block f 0"
proof -
  show u: "unat (f + 8) = unat f + 8" using frame_offset [OF assms, of 8] by (simp add: PAGESIZE_def)
  then show "f + 8 \<noteq> f" by auto
  show "unat (f + 8) \<in> block f 0" "unat f \<in> block f 0" using u by (simp_all add: block_def block_size_def PAGESIZE_def)
qed

lemma malloc_frame_spec:
  assumes "zone_free z A" and "order < 8"
  shows "\<exists>f z'. malloc_frame z order = Inr (f, z') \<and> (f = 0 \<longrightarrow> z' = z \<and> A = {}) \<and>
     (f \<noteq> 0 \<longrightarrow> block_ok f 0 \<and> block f 0 \<subseteq> A \<and> zone_free z' (A - block f 0) \<and>
        (\<forall>a. unat a \<notin> A \<longrightarrow> mem z' a = mem z a) \<and> mem z' f = 0 \<and>
        (\<exists>bs. bs \<noteq> [] \<and> chain (mem z') (mem z' (f + 8)) bs \<and> distinct bs \<and> set bs = slots_of f order))"
proof -
  obtain f z1 where al: "alloc_page z = Inr (f, z1)" using pa.alloc_returns [OF assms(1)] by blast
  show ?thesis
  proof (cases "f = 0")
    case True
    then show ?thesis using al pa.alloc_none [OF assms(1)] by (auto simp: malloc_frame_def)
  next
    case False
    note p = pa.alloc_some [OF assms(1) al False]
    then have f: "block_ok f 0" and zf: "zone_free z1 (A - block f 0)" and sub: "block f 0 \<subseteq> A" by auto
    note hd = frame_header [OF f]
    have b: "0 < bs_of order" "bs_of order \<le> 2040" using blocksize_facts [OF assms(2)] by auto
    let ?z2 = "write_cell z1 f 0"
    have "\<exists>fl h bs. frame_loop f (bs_of order) 16 0 (mem ?z2) = (fl, h) \<and> chain h fl bs \<and> distinct bs \<and>
        set bs = slots_of f order \<and> (\<forall>a. unat a < unat f + 16 \<or> unat f + PAGESIZE \<le> unat a \<longrightarrow> h a = mem ?z2 a)"
      using frame_loop_spec [OF f b(1), of 16 "mem ?z2" 0 "[]"] by simp
    then obtain fl h bs where l: "frame_loop f (bs_of order) 16 0 (mem ?z2) = (fl, h)"
      "chain h fl bs" "distinct bs" "set bs = slots_of f order"
      "\<forall>a. unat a < unat f + 16 \<or> unat f + PAGESIZE \<le> unat a \<longrightarrow> h a = mem ?z2 a"
      by blast
    have keep: "h a = mem z1 a" if "unat a \<notin> block f 0" for a
    proof -
      have "a \<noteq> f" "unat a < unat f + 16 \<or> unat f + PAGESIZE \<le> unat a"
        using that hd(4) by (auto simp: block_def block_size_def PAGESIZE_def)
      then show ?thesis using l(5) [rule_format, of a] by (simp add: write_cell_def)
    qed
    let ?z = "?z2\<lparr>mem := h(f + 8 := fl)\<rparr>"
    have r: "malloc_frame z order = Inr (f, ?z)" using al False l(1) by (simp add: malloc_frame_def)
    have far: "q \<noteq> f + 8" if "q \<in> set bs" for q
      using slots_from_inside [OF f, of q "bs_of order" 16] that l(4) hd(1) by auto
    have "chain (mem ?z) (mem ?z (f + 8)) bs"
      using l(2) far chain_upd [of "f + 8" bs h fl fl] by auto
    moreover have "bs \<noteq> []"
      using l(4) slots_from_step [OF b(1), of f 16] b by (auto simp: PAGESIZE_def)
    moreover have "mem ?z f = 0" using hd l(5) by (simp add: write_cell_def)
    moreover have "mem ?z a = mem z a" if "unat a \<notin> A" for a
    proof -
      have "unat a \<notin> block f 0" using sub that by blast
      moreover from this have "a \<noteq> f + 8" using hd(3) by auto
      ultimately show ?thesis using keep pa.alloc_frame [OF assms(1) al that] by simp
    qed
    moreover have "zone_free ?z (A - block f 0)"
    proof -
      obtain B where B: "zone_inv z1 B" "free_area B = A - block f 0" using zf by (auto simp: zone_free_def)
      have "zone_inv ?z B"
      proof (rule zone_frame [OF B(1)])
        fix a :: u64 assume "unat a \<in> free_area B"
        then have "unat a \<notin> block f 0" using B(2) by blast
        moreover from this have "a \<noteq> f + 8" using hd(3) by auto
        ultimately show "mem ?z a = mem z1 a" using keep by simp
      qed (simp add: write_cell_def)
      then show ?thesis using B(2) by (auto simp: zone_free_def)
    qed
    ultimately show ?thesis using r False f sub l(3,4) by blast
  qed
qed

section \<open>Well-formed heaps\<close>

text \<open>\<open>F\<close> are the frames of every order, \<open>B\<close> the free blocks of every frame.\<close>

definition frame_ok :: "heap \<Rightarrow> nat set \<Rightarrow> nat \<Rightarrow> u64 \<Rightarrow> u64 list \<Rightarrow> bool" where
  "frame_ok h A order f bs \<longleftrightarrow>
     block_ok f 0 \<and> block f 0 \<inter> A = {} \<and> chain h (h (f + 8)) bs \<and> distinct bs \<and> set bs \<subseteq> slots_of f order"

definition heap_ok :: "heap_state \<Rightarrow> nat set \<Rightarrow> (nat \<Rightarrow> u64 list) \<Rightarrow> (u64 \<Rightarrow> u64 list) \<Rightarrow> bool" where
  "heap_ok hs A F B \<longleftrightarrow> zone_free (zone hs) A \<and> length (framelists hs) = 8 \<and>
     (\<forall>i < 8. distinct (F i) \<and> chain (mem (zone hs)) (framelists hs ! i) (F i) \<and>
        (\<forall>f \<in> set (F i). frame_ok (mem (zone hs)) A i f (B f))) \<and>
     (\<forall>i < 8. \<forall>j < 8. i \<noteq> j \<longrightarrow> set (F i) \<inter> set (F j) = {})"

text \<open>The blocks of an order that are handed out.\<close>

definition live :: "(nat \<Rightarrow> u64 list) \<Rightarrow> (u64 \<Rightarrow> u64 list) \<Rightarrow> nat \<Rightarrow> u64 set" where
  "live F B order = (\<Union>f \<in> set (F order). slots_of f order - set (B f))"

lemma frames_apart:
  assumes "block_ok f 0" "block_ok g 0" "f \<noteq> g"
  shows "block f 0 \<inter> block g 0 = {}"
proof -
  obtain i j where ij: "unat f = 4096 * i" "unat g = 4096 * j"
    using assms by (auto simp: block_ok_def block_size_def PAGESIZE_def elim!: dvdE)
  then have "i \<noteq> j" using assms(3) by (auto simp: word_unat_eq_iff)
  then have "i < j \<or> j < i" by linarith
  then have "4096 * i + 4096 \<le> 4096 * j \<or> 4096 * j + 4096 \<le> 4096 * i" by auto
  then show ?thesis using ij by (auto simp: block_def block_size_def PAGESIZE_def)
qed

lemma slot_in_block: "\<lbrakk>block_ok f 0; q \<in> slots_from f b off\<rbrakk> \<Longrightarrow> unat q \<in> block f 0"
  using slots_from_inside [of f q b off] by (auto simp: block_def block_size_def)

lemma slot_range:
  "\<lbrakk>block_ok f 0; q \<in> slots_from f b off; in_range q b a\<rbrakk> \<Longrightarrow> unat a \<in> block f 0 \<and> unat f + off \<le> unat a"
  using slots_from_inside [of f q b off] by (auto simp: block_def block_size_def in_range_def)

lemma frame_ok_frame:
  assumes "frame_ok h A i f bs" and "\<And>a. unat a \<in> block f 0 \<Longrightarrow> h' a = h a" and "block f 0 \<inter> A' = {}"
  shows "frame_ok h' A' i f bs"
proof -
  have f: "block_ok f 0" and bs: "set bs \<subseteq> slots_of f i" "chain h (h (f + 8)) bs" using assms(1) by (auto simp: frame_ok_def)
  have "h' q = h q" if "q \<in> set bs" for q using assms(2) slot_in_block [OF f] bs(1) that by blast
  then have "chain h' (h' (f + 8)) bs" using chain_frame bs(2) assms(2) frame_header(3) [OF f] by metis
  then show ?thesis using assms(1,3) by (simp add: frame_ok_def)
qed

lemma memset_outside:
  assumes p: "8 dvd unat p" "8 dvd b" "unat p + b \<le> 2 ^ 64" and a: "\<not> in_range p b a"
  shows "\<lbrakk>unat p \<le> unat d; unat d + n \<le> unat p + b\<rbrakk> \<Longrightarrow> memset d c n h a = h a"
proof (induction n arbitrary: d h)
  case 0
  then show ?case by simp
next
  case (Suc n)
  have "cell d \<noteq> a"
  proof
    assume eq: "cell d = a"
    have "unat d = unat a + lane d" "8 dvd unat a"
      using aligned8_no_wrap [OF cell_aligned [of d] lane_less [of d]] cell_aligned [of d] cell_plus_lane [of d] eq
      by (simp_all add: aligned8_unat)
    then obtain i j where "unat p = 8 * i" "unat a = 8 * j" "unat d = 8 * j + lane d" using p(1) by (auto elim!: dvdE)
    with Suc.prems(1) lane_less [of d] have "i \<le> j" by linarith
    then show False using a Suc.prems \<open>unat p = 8 * i\<close> \<open>unat a = 8 * j\<close> \<open>unat d = 8 * j + lane d\<close> by (simp add: in_range_def)
  qed
  then have st: "store8 h d c a = h a" by (simp add: store8_def)
  show ?case
  proof (cases n)
    case 0
    then show ?thesis using st by simp
  next
    case (Suc m)
    then have "unat (d + 1) = unat d + 1" using Suc.prems p(3) unat_add_of_nat [of d 1] by simp
    then show ?thesis using Suc.prems Suc.IH [of "d + 1" "store8 h d c"] st by simp
  qed
qed

lemma zone_free_frame:
  assumes "zone_free z A" and "\<And>a. unat a \<in> A \<Longrightarrow> h a = mem z a"
  shows "zone_free (z\<lparr>mem := h\<rparr>) A"
proof -
  obtain C where C: "zone_inv z C" "free_area C = A" using assms(1) by (auto simp: zone_free_def)
  have "zone_inv (z\<lparr>mem := h\<rparr>) C" by (rule zone_frame [OF C(1)]) (use assms(2) C(2) in auto)
  then show ?thesis using C(2) by (auto simp: zone_free_def)
qed

text \<open>A change of memory inside one frame leaves the rest of the heap well-formed.\<close>

lemma heap_ok_change:
  assumes ok: "heap_ok hs A F B" and i: "i < 8" "f \<in> set (F i)"
    and same: "\<And>a. unat a \<notin> block f 0 \<or> a = f \<Longrightarrow> h a = mem (zone hs) a"
    and new: "frame_ok h A i f bs"
  shows "heap_ok (hs\<lparr>zone := (zone hs)\<lparr>mem := h\<rparr>\<rparr>) A F (B(f := bs))"
proof -
  have f: "block_ok f 0" "block f 0 \<inter> A = {}" using new by (auto simp: frame_ok_def)
  have "zone_free ((zone hs)\<lparr>mem := h\<rparr>) A"
    using ok f(2) same by (intro zone_free_frame) (auto simp: heap_ok_def)
  moreover have "chain h (framelists hs ! j) (F j)" if j: "j < 8" for j
  proof (rule chain_frame)
    show "chain (mem (zone hs)) (framelists hs ! j) (F j)" using ok j by (simp add: heap_ok_def)
    fix g assume "g \<in> set (F j)"
    then have g: "block_ok g 0" using ok j by (auto simp: heap_ok_def frame_ok_def)
    then have "unat g \<notin> block f 0 \<or> g = f" using frames_apart [OF g f(1)] frame_header(4) [OF g] by blast
    then show "h g = mem (zone hs) g" using same by blast
  qed
  moreover have "frame_ok h A j g ((B(f := bs)) g)" if j: "j < 8" "g \<in> set (F j)" for j g
  proof (cases "g = f")
    case True
    then have "j = i" using ok i j unfolding heap_ok_def by blast
    with True new show ?thesis by simp
  next
    case False
    have g: "frame_ok (mem (zone hs)) A j g (B g)" using ok j by (simp add: heap_ok_def)
    then have "block g 0 \<inter> block f 0 = {}" using frames_apart f(1) False by (auto simp: frame_ok_def)
    then have "frame_ok h A j g (B g)"
      using g by (intro frame_ok_frame [OF g] same) (auto simp: frame_ok_def)
    with False show ?thesis by simp
  qed
  ultimately show ?thesis using ok by (simp add: heap_ok_def)
qed

section \<open>Taking and returning a block\<close>

text \<open>Memory of the blocks that are handed out, and memory that is not the allocator's.\<close>

definition undisturbed :: "heap_state \<Rightarrow> heap_state \<Rightarrow> nat set \<Rightarrow> (nat \<Rightarrow> u64 list) \<Rightarrow> (u64 \<Rightarrow> u64 list) \<Rightarrow> bool" where
  "undisturbed hs hs' A F B \<longleftrightarrow>
     (\<forall>i < 8. \<forall>q \<in> live F B i. \<forall>a. in_range q (bs_of i) a \<longrightarrow> mem (zone hs') a = mem (zone hs) a) \<and>
     (\<forall>a. unat a \<notin> A \<and> (\<forall>i < 8. \<forall>f \<in> set (F i). unat a \<notin> block f 0) \<longrightarrow> mem (zone hs') a = mem (zone hs) a)"

lemma live_frame:
  assumes "heap_ok hs A F B" and "i < 8" and "q \<in> live F B i"
  obtains g where "g \<in> set (F i)" "block_ok g 0" "q \<in> slots_of g i" "q \<notin> set (B g)"
  using assms by (auto simp: live_def heap_ok_def frame_ok_def)

text \<open>Two blocks of the heap of which one is live and the other is free do not overlap.\<close>

lemma live_apart:
  assumes ok: "heap_ok hs A F B" and i: "i < 8" "f \<in> set (F i)" "p \<in> slots_of f i" "p \<notin> live F B i"
    and j: "j < 8" "q \<in> live F B j" "in_range q (bs_of j) a"
  shows "\<not> in_range p (bs_of i) a \<and> a \<noteq> f + 8 \<and> a \<noteq> f"
proof -
  have f: "block_ok f 0" using ok i by (auto simp: heap_ok_def frame_ok_def)
  obtain g where g: "g \<in> set (F j)" "block_ok g 0" "q \<in> slots_of g j" using live_frame [OF ok j(1,2)] by metis
  have a: "unat a \<in> block g 0" "unat g + 16 \<le> unat a" using slot_range [OF g(2,3) j(3)] by auto
  show ?thesis
  proof (cases "g = f")
    case True
    then have "j = i" using ok i g(1) j(1) unfolding heap_ok_def by blast
    moreover from this have "p \<noteq> q" using i(4) j(2) by blast
    ultimately have "unat p + bs_of i \<le> unat q \<or> unat q + bs_of i \<le> unat p"
      using slots_apart [OF f i(3), of q] g(3) True by blast
    then show ?thesis
      using j(3) \<open>j = i\<close> a True frame_header(1) [OF f] by (auto simp: in_range_def)
  next
    case False
    then have d: "block g 0 \<inter> block f 0 = {}" using frames_apart g(2) f by blast
    have "\<not> in_range p (bs_of i) a"
      using slot_range [OF f i(3), of a] a(1) d by blast
    then show ?thesis using a(1) d frame_header(3,4) [OF f] by blast
  qed
qed

lemma slot_aligned:
  assumes "block_ok f 0" and "i < 8" and "p \<in> slots_of f i"
  shows "8 dvd unat p" "p \<noteq> 0" "unat p + bs_of i \<le> 2 ^ 64"
proof -
  obtain k where k: "unat p = unat f + (16 + k * bs_of i)" "16 + k * bs_of i + bs_of i < PAGESIZE" using slots_from_unat [OF assms(1,3)] .
  have "8 dvd k * bs_of i" using blocksize_facts [OF assms(2)] by simp
  then show "8 dvd unat p" using k block_ok_8 [OF assms(1)] by simp
  show "p \<noteq> 0" using k(1) by auto
  show "unat p + bs_of i \<le> 2 ^ 64" using k assms(1) by (simp add: block_ok_def block_size_def)
qed

lemma take_block_spec:
  assumes ok: "heap_ok hs A F B" and i: "i < 8" "f \<in> set (F i)" and b: "B f = p # bs" and sz: "sz \<le> bs_of i"
  shows "\<exists>hs'. take_block hs f sz = (p, hs') \<and> heap_ok hs' A F (B(f := bs)) \<and> undisturbed hs hs' A F B \<and>
     (\<forall>k < sz. load8 (mem (zone hs')) (p + of_nat k) = 0)"
proof -
  let ?h = "mem (zone hs)"
  have fo: "frame_ok ?h A i f (B f)" using ok i by (simp add: heap_ok_def)
  then have f: "block_ok f 0" and c: "?h (f + 8) = p" "chain ?h (?h p) bs" "p \<notin> set bs" "distinct bs"
    and sl: "p \<in> slots_of f i" "set bs \<subseteq> slots_of f i" by (auto simp: frame_ok_def b)
  note hd = frame_header [OF f] and al = slot_aligned [OF f i(1) sl(1)]
  have b8: "8 dvd bs_of i" using blocksize_facts [OF i(1)] by simp
  let ?h1 = "?h(f + 8 := ?h p)"
  let ?h' = "memset p 0 sz ?h1"
  have out: "?h' a = ?h1 a" if "\<not> in_range p (bs_of i) a" for a
    using memset_outside [OF al(1) b8 al(3) that, of p sz] sz by simp
  have hdr: "\<not> in_range p (bs_of i) (f + 8)" "\<not> in_range p (bs_of i) f"
    using slots_from_inside [OF f sl(1)] hd(1) by (auto simp: in_range_def)
  have "?h' q = ?h q" if "q \<in> set bs" for q
  proof -
    have "q \<in> slots_of f i" "q \<noteq> p" using that sl(2) c(3) by auto
    then have "\<not> in_range p (bs_of i) q" "q \<noteq> f + 8"
      using slots_apart [OF f sl(1), of q] slots_from_inside [OF f, of q "bs_of i" 16] hd(1) blocksize_facts [OF i(1)] by (auto simp: in_range_def)
    then show ?thesis using out by simp
  qed
  then have "chain ?h' (?h' (f + 8)) bs" using c(2) out [OF hdr(1)] chain_frame [of bs ?h' ?h] by simp
  then have new: "frame_ok ?h' A i f bs" using fo c sl by (simp add: frame_ok_def)
  have same: "?h' a = ?h a" if "unat a \<notin> block f 0 \<or> a = f" for a
  proof -
    have "\<not> in_range p (bs_of i) a" "a \<noteq> f + 8" using that hdr hd slot_range [OF f sl(1), of a] by auto
    then show ?thesis using out by simp
  qed
  let ?hs = "hs\<lparr>zone := (zone hs)\<lparr>mem := ?h'\<rparr>\<rparr>"
  have "take_block hs f sz = (p, ?hs)" using c(1) by (simp add: take_block_def Let_def)
  moreover have "heap_ok ?hs A F (B(f := bs))" using heap_ok_change [OF ok i same new] by simp
  moreover have "p \<notin> live F B i"
  proof
    assume "p \<in> live F B i"
    then obtain g where g: "g \<in> set (F i)" "block_ok g 0" "p \<in> slots_of g i" "p \<notin> set (B g)" using live_frame [OF ok i(1)] by metis
    then have "g \<noteq> f" using b by auto
    then show False using frames_apart [OF g(2) f] slot_in_block [OF g(2,3)] slot_in_block [OF f sl(1)] by blast
  qed
  then have "undisturbed hs ?hs A F B"
    using live_apart [OF ok i sl(1)] out same i unfolding undisturbed_def by auto
  moreover have "load8 ?h' (p + of_nat k) = 0" if "k < sz" for k
    using that load8_memset [of p sz 0 ?h1 "p + of_nat k"] al(3) sz unat_add_of_nat [of p k] by (simp add: in_range_def)
  ultimately show ?thesis by auto
qed

lemma page_address_unat: "unat (PAGE_ADDRESS p) = unat p div 4096 * 4096"
proof -
  have "unat (PAGE_OFFSET p) = unat p mod 4096" by (simp add: page_offset_mod unat_mod)
  moreover have "unat p = unat (PAGE_ADDRESS p) + unat (PAGE_OFFSET p)"
  proof -
    have "PAGE_ADDRESS p = p - PAGE_OFFSET p" using page_address_offset [of p] by (metis add_diff_cancel_right')
    moreover have "PAGE_OFFSET p \<le> p" by (simp add: page_offset_mod word_le_nat_alt unat_mod)
    ultimately show ?thesis by (simp add: unat_sub word_le_nat_alt)
  qed
  ultimately show ?thesis by (metis add_right_cancel div_mult_mod_eq)
qed

lemma page_of_slot:
  assumes "block_ok f 0" and "p \<in> slots_from f b off"
  shows "PAGE_ADDRESS p = f"
proof -
  obtain i where i: "unat f = 4096 * i" using assms(1) by (auto simp: block_ok_def block_size_def PAGESIZE_def elim!: dvdE)
  have "unat f \<le> unat p" "unat p < unat f + 4096" using slots_from_inside [OF assms] by (auto simp: PAGESIZE_def)
  then have "unat p div 4096 = i" using i by (simp add: div_nat_eqI)
  then show ?thesis using i by (simp add: word_unat_eq_iff page_address_unat)
qed

lemma free_spec:
  assumes ok: "heap_ok hs A F B" and i: "i < 8" "f \<in> set (F i)" and p: "p \<in> slots_of f i" "p \<notin> set (B f)"
  shows "\<exists>hs'. free hs p = Inr hs' \<and> heap_ok hs' A F (B(f := p # B f)) \<and> undisturbed hs hs' A F (B(f := p # B f))"
proof -
  let ?h = "mem (zone hs)"
  have fo: "frame_ok ?h A i f (B f)" using ok i by (simp add: heap_ok_def)
  then have f: "block_ok f 0" and c: "chain ?h (?h (f + 8)) (B f)" "distinct (B f)" "set (B f) \<subseteq> slots_of f i"
    by (auto simp: frame_ok_def)
  note hd = frame_header [OF f] and al = slot_aligned [OF f i(1) p(1)]
  let ?h' = "?h(p := ?h (f + 8), f + 8 := p)"
  have in16: "unat f + 16 \<le> unat q" if "q \<in> slots_of f i" for q using slots_from_inside [OF f that] by simp
  have ne: "p \<noteq> f + 8" "p \<noteq> f" "f + 8 \<notin> set (B f)" using in16 [OF p(1)] in16 c(3) hd(1) by force+
  have "chain ?h' p (p # B f)" using c(1) ne p(2) al(2) by (simp add: chain_upd)
  then have new: "frame_ok ?h' A i f (p # B f)" using fo p by (simp add: frame_ok_def)
  have same: "?h' a = ?h a" if "unat a \<notin> block f 0 \<or> a = f" for a
    using that slot_in_block [OF f p(1)] hd ne by auto
  let ?hs = "hs\<lparr>zone := (zone hs)\<lparr>mem := ?h'\<rparr>\<rparr>"
  have "free hs p = Inr ?hs" using al(2) page_of_slot [OF f p(1)] by (simp add: free_def Let_def)
  moreover have ok': "heap_ok ?hs A F (B(f := p # B f))" by (rule heap_ok_change [OF ok i same new])
  moreover have "p \<notin> live F (B(f := p # B f)) i"
  proof
    assume "p \<in> live F (B(f := p # B f)) i"
    then obtain g where g: "g \<in> set (F i)" "block_ok g 0" "p \<in> slots_of g i" "p \<notin> set ((B(f := p # B f)) g)"
      using live_frame [OF ok' i(1)] by metis
    then have "g \<noteq> f" by auto
    then show False using frames_apart [OF g(2) f] slot_in_block [OF g(2,3)] slot_in_block [OF f p(1)] by blast
  qed
  then have "undisturbed hs ?hs A F (B(f := p # B f))"
    using live_apart [OF ok' i p(1)] same i blocksize_facts [OF i(1)] unfolding undisturbed_def
    by (fastforce simp: in_range_def)
  ultimately show ?thesis by blast
qed

section \<open>A new frame in the heap\<close>

lemma live_fresh:
  "f \<notin> set (F j) \<Longrightarrow> (\<Union>g \<in> set (F j). slots_of g j - set ((B(f := bs)) g)) = (\<Union>g \<in> set (F j). slots_of g j - set (B g))"
  by (rule SUP_cong) auto

lemma heap_ok_new_frame:
  assumes ok: "heap_ok hs A F B" and i: "i < 8"
    and f: "block_ok f 0" "block f 0 \<subseteq> A" and z: "zone_free z (A - block f 0)"
    and same: "\<And>a. unat a \<notin> A \<Longrightarrow> mem z a = mem (zone hs) a"
    and bs: "chain (mem z) (mem z (f + 8)) bs" "distinct bs" "set bs = slots_of f i"
    and link: "mem z f = framelists hs ! i"
  shows "heap_ok (hs\<lparr>zone := z, framelists := (framelists hs)[i := f]\<rparr>) (A - block f 0) (F(i := f # F i)) (B(f := bs))"
    "undisturbed hs (hs\<lparr>zone := z, framelists := (framelists hs)[i := f]\<rparr>) A F B"
    "j < 8 \<Longrightarrow> live (F(i := f # F i)) (B(f := bs)) j = live F B j"
proof -
  have old: "block_ok g 0 \<and> block g 0 \<inter> A = {} \<and> g \<noteq> f" if "j < 8" "g \<in> set (F j)" for j g
  proof -
    have "block_ok g 0" "block g 0 \<inter> A = {}" using ok that by (auto simp: heap_ok_def frame_ok_def)
    then show ?thesis using f frame_header(4) [OF f(1)] by blast
  qed
  have fresh: "f \<notin> set (F j)" if "j < 8" for j using old that by blast
  have fr: "frame_ok (mem z) (A - block f 0) j g (B g)" if "j < 8" "g \<in> set (F j)" for j g
  proof (rule frame_ok_frame)
    show "frame_ok (mem (zone hs)) A j g (B g)" using ok that by (simp add: heap_ok_def)
    show "mem z a = mem (zone hs) a" if "unat a \<in> block g 0" for a
      using same old [OF \<open>j < 8\<close> \<open>g \<in> set (F j)\<close>] that by blast
    show "block g 0 \<inter> (A - block f 0) = {}" using old [OF that] by blast
  qed
  have ch: "chain (mem z) (framelists hs ! j) (F j)" if "j < 8" for j
  proof (rule chain_frame)
    show "chain (mem (zone hs)) (framelists hs ! j) (F j)" using ok that by (simp add: heap_ok_def)
    show "mem z g = mem (zone hs) g" if "g \<in> set (F j)" for g
      using same old [OF \<open>j < 8\<close> that] frame_header(4) by blast
  qed
  have "frame_ok (mem z) (A - block f 0) i f bs" using f bs by (auto simp: frame_ok_def)
  moreover have "f \<noteq> 0" using f(1) by (simp add: block_ok_def)
  ultimately show "heap_ok (hs\<lparr>zone := z, framelists := (framelists hs)[i := f]\<rparr>) (A - block f 0) (F(i := f # F i)) (B(f := bs))"
    using ok i z fr ch link fresh unfolding heap_ok_def by (auto simp: nth_list_update)
  show "undisturbed hs (hs\<lparr>zone := z, framelists := (framelists hs)[i := f]\<rparr>) A F B"
    unfolding undisturbed_def
  proof (intro conjI allI impI ballI)
    fix j q a assume j: "j < 8" "q \<in> live F B j" "in_range q (bs_of j) a"
    then obtain g where g: "g \<in> set (F j)" "block_ok g 0" "q \<in> slots_of g j" using live_frame [OF ok] by metis
    then have "unat a \<notin> A" using slot_range [OF g(2,3) j(3)] old [OF j(1) g(1)] by blast
    then show "mem (zone (hs\<lparr>zone := z, framelists := (framelists hs)[i := f]\<rparr>)) a = mem (zone hs) a" using same by simp
  qed (use same in auto)
  assume "j < 8"
  then show "live (F(i := f # F i)) (B(f := bs)) j = live F B j"
    using bs(3) live_fresh [OF fresh] by (cases "j = i") (simp_all add: live_def)
qed

section \<open>malloc\<close>

lemma search_frames_spec:
  "chain h f fs \<Longrightarrow> \<exists>g. search_frames h f = Some g \<and> (g = 0 \<longrightarrow> (\<forall>x \<in> set fs. h (x + 8) = 0)) \<and>
     (g \<noteq> 0 \<longrightarrow> g \<in> set fs \<and> h (g + 8) \<noteq> 0)"
proof (induction fs arbitrary: f)
  case Nil
  then show ?case by (subst search_frames.simps) simp
next
  case (Cons x fs)
  then have x: "f = x" "x \<noteq> 0" "chain h (h x) fs" by auto
  show ?case
  proof (cases "h (x + 8) = 0")
    case False
    then show ?thesis using x by (subst search_frames.simps) simp
  next
    case True
    then have "search_frames h f = search_frames h (h x)" using x by (subst search_frames.simps) simp
    with Cons.IH [OF x(3)] True show ?thesis by auto
  qed
qed

text \<open>
  What \<^verbatim>\<open>malloc\<close> promises: NULL only when there is no free page, and otherwise a new block of the order, of
  which \<open>sz\<close> bytes are cleared.
\<close>

definition malloc_gives ::
    "heap_state \<Rightarrow> nat set \<Rightarrow> (nat \<Rightarrow> u64 list) \<Rightarrow> (u64 \<Rightarrow> u64 list) \<Rightarrow> nat \<Rightarrow> nat \<Rightarrow> u64 \<Rightarrow> heap_state \<Rightarrow>
       nat set \<Rightarrow> (nat \<Rightarrow> u64 list) \<Rightarrow> (u64 \<Rightarrow> u64 list) \<Rightarrow> bool" where
  "malloc_gives hs A F B order sz p hs' A' F' B' \<longleftrightarrow>
     heap_ok hs' A' F' B' \<and> undisturbed hs hs' A F B \<and>
     (p = 0 \<longrightarrow> A = {} \<and> (\<forall>j < 8. live F' B' j = live F B j)) \<and>
     (p \<noteq> 0 \<longrightarrow> p \<notin> live F B order \<and> live F' B' order = insert p (live F B order) \<and>
        (\<forall>j < 8. j \<noteq> order \<longrightarrow> live F' B' j = live F B j) \<and>
        (\<forall>k < sz. load8 (mem (zone hs')) (p + of_nat k) = 0))"

text \<open>At most one page is taken from the page allocator.\<close>

definition one_page_less :: "nat set \<Rightarrow> nat set \<Rightarrow> bool" where
  "one_page_less A A' \<longleftrightarrow> A' = A \<or> (\<exists>f. block_ok f 0 \<and> block f 0 \<subseteq> A \<and> A' = A - block f 0)"

definition malloc_post ::
    "heap_state \<Rightarrow> nat set \<Rightarrow> (nat \<Rightarrow> u64 list) \<Rightarrow> (u64 \<Rightarrow> u64 list) \<Rightarrow> nat \<Rightarrow> nat \<Rightarrow> u64 \<Rightarrow> heap_state \<Rightarrow> bool" where
  "malloc_post hs A F B order sz p hs' \<longleftrightarrow>
     (\<exists>A' F' B'. one_page_less A A' \<and> (\<forall>j < 8. \<forall>f \<in> set (F' j). f \<in> set (F j) \<or> block f 0 \<subseteq> A) \<and>
        malloc_gives hs A F B order sz p hs' A' F' B')"

lemma live_take:
  assumes ok: "heap_ok hs A F B" and i: "i < 8" "f \<in> set (F i)" and b: "B f = p # bs"
  shows "p \<notin> live F B i" "live F (B(f := bs)) i = insert p (live F B i)"
    "j < 8 \<Longrightarrow> j \<noteq> i \<Longrightarrow> live F (B(f := bs)) j = live F B j"
proof -
  have "frame_ok (mem (zone hs)) A i f (p # bs)" using ok i b unfolding heap_ok_def by metis
  then have fo: "block_ok f 0" "p \<in> slots_of f i" "p \<notin> set bs" by (auto simp: frame_ok_def)
  have other: "p \<notin> slots_of g i" if "g \<in> set (F i)" "g \<noteq> f" for g
  proof
    assume p: "p \<in> slots_of g i"
    have g: "block_ok g 0" using ok i that by (auto simp: heap_ok_def frame_ok_def)
    show False using frames_apart [OF g fo(1) that(2)] slot_in_block [OF g p] slot_in_block [OF fo(1,2)] by blast
  qed
  have "p \<in> set (B g)" if "g \<in> set (F i)" "p \<in> slots_of g i" for g using other that b by (cases "g = f") auto
  then show "p \<notin> live F B i" by (auto simp: live_def)
  show "live F (B(f := bs)) i = insert p (live F B i)"
  proof -
    have split: "live F C i = (\<Union>g \<in> set (F i) - {f}. slots_of g i - set (C g)) \<union> (slots_of f i - set (C f))" for C
      using i(2) by (auto simp: live_def)
    have "(\<Union>g \<in> set (F i) - {f}. slots_of g i - set ((B(f := bs)) g)) = (\<Union>g \<in> set (F i) - {f}. slots_of g i - set (B g))"
      by (rule SUP_cong) auto
    then show ?thesis unfolding split using fo(2,3) b by auto
  qed
  assume "j < 8" "j \<noteq> i"
  then have "f \<notin> set (F j)" using ok i unfolding heap_ok_def by blast
  then show "live F (B(f := bs)) j = live F B j" using live_fresh [of f F j B bs] by (simp add: live_def)
qed

text \<open>When a frame of the order has a free block it is taken, in whatever round.\<close>

lemma retry_found:
  assumes ok: "heap_ok hs A F B" and i: "i < 8" and sz: "sz \<le> bs_of i" and f: "f \<in> set (F i)" "B f \<noteq> []"
  shows "\<exists>p hs' B'. malloc_retry k hs i sz = Inr (p, hs') \<and> p \<noteq> 0 \<and> 8 dvd unat p \<and> malloc_gives hs A F B i sz p hs' A F B'"
proof -
  let ?h = "mem (zone hs)"
  have "chain ?h (framelists hs ! i) (F i)" using ok i by (simp add: heap_ok_def)
  then obtain g where g: "search_frames ?h (framelists hs ! i) = Some g" "g = 0 \<longrightarrow> (\<forall>x \<in> set (F i). ?h (x + 8) = 0)"
    "g \<noteq> 0 \<longrightarrow> g \<in> set (F i) \<and> ?h (g + 8) \<noteq> 0" using search_frames_spec by blast
  have fr: "frame_ok ?h A i x (B x)" if "x \<in> set (F i)" for x using ok i that by (simp add: heap_ok_def)
  have "?h (f + 8) \<noteq> 0" using fr [OF f(1)] f(2) by (cases "B f") (auto simp: frame_ok_def)
  then have g0: "g \<noteq> 0" "g \<in> set (F i)" "?h (g + 8) \<noteq> 0" using g f(1) by auto
  obtain p bs where b: "B g = p # bs" using fr [OF g0(2)] g0(3) by (cases "B g") (auto simp: frame_ok_def)
  have p: "block_ok g 0" "p \<in> slots_of g i" using fr [OF g0(2)] b by (auto simp: frame_ok_def)
  obtain hs' where t: "take_block hs g sz = (p, hs')" "heap_ok hs' A F (B(g := bs))" "undisturbed hs hs' A F B"
    "\<forall>k < sz. load8 (mem (zone hs')) (p + of_nat k) = 0" using take_block_spec [OF ok i g0(2) b sz] by blast
  have "malloc_retry k hs i sz = Inr (p, hs')" using g(1) g0(1) t(1) by (subst malloc_retry.simps) simp
  moreover have "malloc_gives hs A F B i sz p hs' A F (B(g := bs))"
    unfolding malloc_gives_def using t live_take [OF ok i g0(2) b] slot_aligned(2) [OF p(1) i p(2)] by blast
  ultimately show ?thesis using slot_aligned [OF p(1) i p(2)] by blast
qed

lemma live_0:
  assumes ok: "heap_ok hs A F B" and i: "i < 8" "q \<in> live F B i"
  shows "q \<noteq> 0"
proof -
  obtain g where "block_ok g 0" "q \<in> slots_of g i" using live_frame [OF ok i] by metis
  then show ?thesis using slot_aligned(2) i(1) by blast
qed

lemma undisturbed_trans:
  assumes "undisturbed hs hs1 A F B" and "undisturbed hs1 hs2 A1 F1 B1" and "A1 \<subseteq> A"
    and "\<forall>j < 8. live F1 B1 j = live F B j" and "\<forall>j < 8. \<forall>f \<in> set (F1 j). f \<in> set (F j) \<or> block f 0 \<subseteq> A"
  shows "undisturbed hs hs2 A F B"
  unfolding undisturbed_def
proof (intro conjI allI impI ballI)
  fix j q a assume "j < 8" "q \<in> live F B j" "in_range q (bs_of j) a"
  then show "mem (zone hs2) a = mem (zone hs) a" using assms(1,2,4) by (simp add: undisturbed_def)
next
  fix a :: u64 assume a: "unat a \<notin> A \<and> (\<forall>i<8. \<forall>f\<in>set (F i). unat a \<notin> block f 0)"
  then have "\<forall>i<8. \<forall>f\<in>set (F1 i). unat a \<notin> block f 0" using assms(5) by blast
  moreover have "unat a \<notin> A1" using a assms(3) by blast
  ultimately show "mem (zone hs2) a = mem (zone hs) a" using a assms(1,2) unfolding undisturbed_def by metis
qed

lemma malloc_post_trans:
  assumes "undisturbed hs hs1 A F B" and "malloc_gives hs1 A1 F1 B1 i sz p hs2 A1 F1 B'" and "one_page_less A A1" and "p \<noteq> 0"
    and "i < 8" and "\<forall>j < 8. live F1 B1 j = live F B j" and "\<forall>j < 8. \<forall>f \<in> set (F1 j). f \<in> set (F j) \<or> block f 0 \<subseteq> A"
  shows "malloc_post hs A F B i sz p hs2"
proof -
  have r: "heap_ok hs2 A1 F1 B'" "undisturbed hs1 hs2 A1 F1 B1"
    "p \<notin> live F1 B1 i" "live F1 B' i = insert p (live F1 B1 i)" "\<forall>j < 8. j \<noteq> i \<longrightarrow> live F1 B' j = live F1 B1 j"
    "\<forall>k < sz. load8 (mem (zone hs2)) (p + of_nat k) = 0"
    using assms(2,4) unfolding malloc_gives_def by blast+
  have "A1 \<subseteq> A" using assms(3) by (auto simp: one_page_less_def)
  then have "undisturbed hs hs2 A F B" by (rule undisturbed_trans [OF assms(1) r(2) _ assms(6,7)])
  then have "malloc_gives hs A F B i sz p hs2 A1 F1 B'"
    unfolding malloc_gives_def using r assms(4-6) by auto
  then show ?thesis unfolding malloc_post_def using assms(3,7) by blast
qed

text \<open>The step that adds a frame when the list of the order has none with a free block.\<close>

lemma add_frame:
  assumes ok: "heap_ok hs A F B" and i: "i < 8" and sz: "sz \<le> bs_of i" and m: "malloc_frame (zone hs) i = Inr (f, z)" and f: "f \<noteq> 0"
  shows "\<exists>p hs'. malloc_retry k (hs\<lparr>zone := write_cell z f (framelists hs ! i), framelists := (framelists hs)[i := f]\<rparr>) i sz = Inr (p, hs') \<and>
     p \<noteq> 0 \<and> 8 dvd unat p \<and> malloc_post hs A F B i sz p hs'"
proof -
  have "zone_free (zone hs) A" using ok by (simp add: heap_ok_def)
  from malloc_frame_spec [OF this i] m f obtain bs where s: "block_ok f 0" "block f 0 \<subseteq> A" "zone_free z (A - block f 0)"
    "\<forall>a. unat a \<notin> A \<longrightarrow> mem z a = mem (zone hs) a" "bs \<noteq> []" "chain (mem z) (mem z (f + 8)) bs" "distinct bs" "set bs = slots_of f i"
    by auto
  note hd = frame_header [OF s(1)]
  let ?z = "write_cell z f (framelists hs ! i)"
  let ?hs = "hs\<lparr>zone := ?z, framelists := (framelists hs)[i := f]\<rparr>"
  let ?F = "F(i := f # F i)" and ?B = "B(f := bs)"
  have "f \<notin> set bs" using slots_from_inside [OF s(1), of f "bs_of i" 16] s(8) by auto
  then have ch: "chain (mem ?z) (mem ?z (f + 8)) bs" using s(6) hd(2) by (simp add: write_cell_def chain_upd)
  have zf: "zone_free ?z (A - block f 0)" using pa.wr_wf [OF s(3), of f] hd(4) by simp
  have same: "mem ?z a = mem (zone hs) a" if "unat a \<notin> A" for a
    using that s(4) subsetD [OF s(2) hd(4)] by (auto simp: write_cell_def)
  have link: "mem ?z f = framelists hs ! i" by (simp add: write_cell_def)
  note new = heap_ok_new_frame [OF ok i s(1,2) zf same ch s(7,8) link]
  obtain p hs' B' where r: "malloc_retry k ?hs i sz = Inr (p, hs')" "p \<noteq> 0" "8 dvd unat p"
      "malloc_gives ?hs (A - block f 0) ?F ?B i sz p hs' (A - block f 0) ?F B'"
    using retry_found [OF new(1) i sz, of f k] s(5) by auto
  have "one_page_less A (A - block f 0)" using s(1,2) unfolding one_page_less_def by blast
  then have "malloc_post hs A F B i sz p hs'"
    using new(3) s(2) by (intro malloc_post_trans [OF new(2) r(4)]) (use r(2) i in auto)
  with r show ?thesis by blast
qed

lemma malloc_retry_spec:
  assumes ok: "heap_ok hs A F B" and i: "i < 8" and sz: "sz \<le> bs_of i"
  shows "\<exists>p hs'. malloc_retry 1 hs i sz = Inr (p, hs') \<and> 8 dvd unat p \<and> malloc_post hs A F B i sz p hs'"
proof (cases "\<exists>f \<in> set (F i). B f \<noteq> []")
  case True
  then obtain p hs' B' where "malloc_retry 1 hs i sz = Inr (p, hs')" "8 dvd unat p" "malloc_gives hs A F B i sz p hs' A F B'"
    using retry_found [OF ok i sz] by blast
  then show ?thesis unfolding malloc_post_def one_page_less_def by blast
next
  case False
  let ?h = "mem (zone hs)"
  have "chain ?h (framelists hs ! i) (F i)" using ok i by (simp add: heap_ok_def)
  moreover have "?h (f + 8) = 0" if "f \<in> set (F i)" for f
  proof -
    have "frame_ok ?h A i f (B f)" "B f = []" using ok i that False by (auto simp: heap_ok_def)
    then show ?thesis by (simp add: frame_ok_def)
  qed
  ultimately have s: "search_frames ?h (framelists hs ! i) = Some 0" using search_frames_spec by blast
  have zf: "zone_free (zone hs) A" using ok by (simp add: heap_ok_def)
  obtain f z where m: "malloc_frame (zone hs) i = Inr (f, z)" "f = 0 \<longrightarrow> z = zone hs \<and> A = {}"
    using malloc_frame_spec [OF zf i] by blast
  show ?thesis
  proof (cases "f = 0")
    case True
    then have "malloc_retry 1 hs i sz = Inr (0, hs)" using s m by (subst malloc_retry.simps) simp
    moreover have "malloc_post hs A F B i sz 0 hs"
      unfolding malloc_post_def malloc_gives_def one_page_less_def using ok m(2) True
      by (intro exI [of _ A] exI [of _ F] exI [of _ B]) (simp add: undisturbed_def)
    ultimately show ?thesis by auto
  next
    case False
    then have "malloc_retry 1 hs i sz =
        malloc_retry 0 (hs\<lparr>zone := write_cell z f (framelists hs ! i), framelists := (framelists hs)[i := f]\<rparr>) i sz"
      using s m by (subst malloc_retry.simps) (simp add: Let_def)
    then show ?thesis using add_frame [OF ok i sz m(1) False, of 0] by auto
  qed
qed

lemma malloc_core_spec:
  assumes ok: "heap_ok hs A F B" and i: "i < 8" and sz: "sz \<le> bs_of i"
  shows "\<exists>p hs'. malloc_core hs i sz = Inr (p, hs') \<and> 8 dvd unat p \<and> malloc_post hs A F B i sz p hs'"
proof (cases "framelists hs ! i = 0")
  case False
  then show ?thesis using malloc_retry_spec [OF ok i sz] by (simp add: malloc_core_def)
next
  case True
  have zf: "zone_free (zone hs) A" using ok by (simp add: heap_ok_def)
  obtain f z where m: "malloc_frame (zone hs) i = Inr (f, z)" "f = 0 \<longrightarrow> z = zone hs" "f \<noteq> 0 \<longrightarrow> mem z f = 0"
    using malloc_frame_spec [OF zf i] by blast
  show ?thesis
  proof (cases "f = 0")
    case f: True
    then have "hs\<lparr>zone := z, framelists := (framelists hs)[i := f]\<rparr> = hs"
      using m(2) True list_update_id [of "framelists hs" i] by simp
    then show ?thesis using True m(1) malloc_retry_spec [OF ok i sz] by (simp add: malloc_core_def)
  next
    case False
    then have "write_cell z f (framelists hs ! i) = z" using m(3) True fun_upd_idem [of "mem z" f 0] by (simp add: write_cell_def)
    then show ?thesis
      using add_frame [OF ok i sz m(1) False, of 1] True m(1) by (auto simp: malloc_core_def)
  qed
qed

lemma malloc_ok:
  assumes "heap_ok hs A F B" and "0 < sz" and "sz \<le> 2040"
  shows "\<exists>order p hs'. order < 8 \<and> sz \<le> blocksize ! order \<and> get_order sz = Inr order \<and> malloc hs sz = Inr (p, hs') \<and>
     malloc_post hs A F B order sz p hs'"
proof -
  obtain i where i: "i < 8" "get_order sz = Inr i" "sz \<le> bs_of i" using get_order_ok [OF assms(3)] by blast
  obtain p hs' where r: "malloc_core hs i sz = Inr (p, hs')" "8 dvd unat p" "malloc_post hs A F B i sz p hs'"
    using malloc_core_spec [OF assms(1) i(1,3)] by blast
  have "p AND 7 = 0" using r(2) by (simp add: aligned8_unat [symmetric] aligned8_def)
  then have "malloc hs sz = Inr (p, hs')" using assms(2) i(1,2) r(1) by (simp add: malloc_def)
  with i r(3) show ?thesis by blast
qed

lemma free_ok:
  assumes ok: "heap_ok hs A F B" and i: "i < 8" "p \<in> live F B i"
  shows "\<exists>hs' B'. free hs p = Inr hs' \<and> heap_ok hs' A F B' \<and> live F B' i = live F B i - {p} \<and>
     (\<forall>j < 8. j \<noteq> i \<longrightarrow> live F B' j = live F B j) \<and> undisturbed hs hs' A F B'"
proof -
  obtain f where f: "f \<in> set (F i)" "p \<in> slots_of f i" "p \<notin> set (B f)" using live_frame [OF ok i] by metis
  obtain hs' where r: "free hs p = Inr hs'" "heap_ok hs' A F (B(f := p # B f))" "undisturbed hs hs' A F (B(f := p # B f))"
    using free_spec [OF ok i(1) f] by blast
  have l: "p \<notin> live F (B(f := p # B f)) i" "live F ((B(f := p # B f))(f := B f)) i = insert p (live F (B(f := p # B f)) i)"
    "\<And>j. j < 8 \<Longrightarrow> j \<noteq> i \<Longrightarrow> live F ((B(f := p # B f))(f := B f)) j = live F (B(f := p # B f)) j"
    using live_take [OF r(2) i(1) f(1), of p "B f"] by auto
  moreover have "(B(f := p # B f))(f := B f) = B" by auto
  ultimately show ?thesis using r by (intro exI [of _ hs'] exI [of _ "B(f := p # B f)"]) auto
qed

section \<open>Properties\<close>

text \<open>
  C33.  On a well-formed heap \<^verbatim>\<open>malloc\<close> of 1 to 2040 bytes returns.  It returns NULL only when there is no free
  page left; otherwise the block is new, large enough and cleared, no block that is in use and no memory
  outside the allocator is changed, at most one page is taken from the page allocator, and the heap stays well-formed with exactly this block more in use.
\<close>

theorem malloc_correct:
  assumes "heap_ok hs A F B" and "0 < sz" and "sz \<le> 2040"
  shows "\<exists>order p hs'. order < 8 \<and> sz \<le> blocksize ! order \<and> malloc hs sz = Inr (p, hs') \<and> malloc_post hs A F B order sz p hs'"
  using malloc_ok [OF assms] by blast

text \<open>The heap before the first call.\<close>

definition empty_heap :: "mstate \<Rightarrow> heap_state" where
  "empty_heap z = \<lparr>zone = z, framelists = replicate 8 0\<rparr>"

lemma empty_heap_ok: "zone_free z A \<Longrightarrow> heap_ok (empty_heap z) A (\<lambda>_. []) (\<lambda>_. [])"
  by (simp add: heap_ok_def empty_heap_def del: replicate_Suc)

theorem malloc_correct_witness:
  "\<exists>order p hs'. order < 8 \<and> 100 \<le> blocksize ! order \<and> malloc (empty_heap one_block_zone) 100 = Inr (p, hs') \<and>
     malloc_post (empty_heap one_block_zone) (free_area one_block) (\<lambda>_. []) (\<lambda>_. []) order 100 p hs'"
  by (rule malloc_correct [OF empty_heap_ok]) (use one_block_inv in \<open>auto simp: zone_free_def\<close>)

text \<open>
  Sequences of calls in which every block that is freed is in use; \<open>L\<close> are the blocks in use, with the
  order of their size.
\<close>

inductive heap_run :: "mstate \<Rightarrow> heap_state \<Rightarrow> (u64 \<times> nat) set \<Rightarrow> bool" for z where
  start: "heap_run z (empty_heap z) {}"
| failed: "\<lbrakk>heap_run z hs L; 0 < sz; sz \<le> 2040; malloc hs sz = Inr (0, hs')\<rbrakk> \<Longrightarrow> heap_run z hs' L"
| got: "\<lbrakk>heap_run z hs L; 0 < sz; sz \<le> 2040; malloc hs sz = Inr (p, hs'); p \<noteq> 0; get_order sz = Inr i\<rbrakk> \<Longrightarrow>
     heap_run z hs' (insert (p, i) L)"
| freed: "\<lbrakk>heap_run z hs L; (p, i) \<in> L; free hs p = Inr hs'\<rbrakk> \<Longrightarrow> heap_run z hs' (L - {(p, i)})"

definition in_use :: "(nat \<Rightarrow> u64 list) \<Rightarrow> (u64 \<Rightarrow> u64 list) \<Rightarrow> (u64 \<times> nat) set" where
  "in_use F B = {(q, i). i < 8 \<and> q \<in> live F B i}"

lemma heap_run_ok:
  assumes "zone_free z A0" and "heap_run z hs L"
  shows "\<exists>A F B. heap_ok hs A F B \<and> L = in_use F B"
  using assms(2)
proof induction
  case start
  then show ?case using empty_heap_ok [OF assms(1)] by (force simp: in_use_def live_def)
next
  case (failed hs L sz hs')
  then obtain A F B where ok: "heap_ok hs A F B" "L = in_use F B" by blast
  from malloc_ok [OF ok(1) failed.hyps(2,3)] failed.hyps(4) obtain A' F' B' where
    "heap_ok hs' A' F' B'" "\<forall>j < 8. live F' B' j = live F B j"
    by (auto simp: malloc_post_def malloc_gives_def)
  then show ?case using ok(2) by (force simp: in_use_def)
next
  case (got hs L sz p hs' i)
  then obtain A F B where ok: "heap_ok hs A F B" "L = in_use F B" by blast
  from malloc_ok [OF ok(1) got.hyps(2,3)] got.hyps(4-6) obtain A' F' B' where
    r: "i < 8" "heap_ok hs' A' F' B'" "live F' B' i = insert p (live F B i)" "\<forall>j < 8. j \<noteq> i \<longrightarrow> live F' B' j = live F B j"
    by (auto simp: malloc_post_def malloc_gives_def)
  have "insert (p, i) L = in_use F' B'"
  proof (rule set_eqI)
    fix x show "x \<in> insert (p, i) L \<longleftrightarrow> x \<in> in_use F' B'"
      using r(1,3,4) ok(2) by (cases x; cases "snd x = i") (auto simp: in_use_def)
  qed
  then show ?case using r(2) by blast
next
  case (freed hs L p i hs')
  then obtain A F B where ok: "heap_ok hs A F B" "L = in_use F B" by blast
  then have i: "i < 8" "p \<in> live F B i" using freed.hyps(2) by (auto simp: in_use_def)
  from free_ok [OF ok(1) i] freed.hyps(3) obtain B' where
    r: "heap_ok hs' A F B'" "live F B' i = live F B i - {p}" "\<forall>j < 8. j \<noteq> i \<longrightarrow> live F B' j = live F B j" by auto
  have "L - {(p, i)} = in_use F B'"
  proof (rule set_eqI)
    fix x show "x \<in> L - {(p, i)} \<longleftrightarrow> x \<in> in_use F B'"
      using i(1) r(2,3) ok(2) by (cases x; cases "snd x = i") (auto simp: in_use_def)
  qed
  then show ?case using r(1) by blast
qed

text \<open>
  C34.  After any sequence of calls of \<^verbatim>\<open>malloc\<close> and \<^verbatim>\<open>free\<close> that frees only blocks in use, the heap is
  well-formed, and the blocks that were returned and not yet freed are exactly those that are on no free list.
\<close>

theorem heap_run_well_formed:
  assumes "zone_free z A0" and "heap_run z hs L"
  shows "\<exists>A F B. heap_ok hs A F B \<and> L = in_use F B"
  by (rule heap_run_ok [OF assms])

theorem heap_run_well_formed_witness:
  "\<exists>p hs A F B. malloc (empty_heap one_block_zone) 24 = Inr (p, hs) \<and> heap_ok hs A F B"
proof -
  have z: "zone_free one_block_zone (free_area one_block)" using one_block_inv by (auto simp: zone_free_def)
  obtain i p hs where r: "get_order 24 = Inr i" "malloc (empty_heap one_block_zone) 24 = Inr (p, hs)"
    using malloc_ok [OF empty_heap_ok [OF z], of 24] by auto
  have "heap_run one_block_zone hs (if p = 0 then {} else {(p, i)})"
    using heap_run.start [of one_block_zone] r
      heap_run.failed [of one_block_zone "empty_heap one_block_zone" "{}" 24] heap_run.got [of one_block_zone "empty_heap one_block_zone" "{}" 24]
    by auto
  from heap_run_well_formed [OF z this] r(2) show ?thesis by blast
qed

end
