(* ===== verification/Heap_View.thy ===== *)
theory Heap_View
  imports Malloc
begin

text \<open>
  What the clients of \<^verbatim>\<open>malloc\<close> and of the page allocator rely on.  \<open>heap_view hs A L D\<close> says of a heap that \<open>A\<close> is
  the free memory of the page allocator, \<open>L\<close> the small blocks in use, each with the order of its size, and \<open>D\<close> memory
  that belongs to somebody else, such as a page that was allocated.  The locale states the laws: an allocation
  succeeds while a page is free, gives memory of its own and leaves the contents of everybody else's alone, and
  a client may write what it owns.  The heap of \<open>Malloc\<close> is shown to obey them.
\<close>

definition set_heap :: "heap \<Rightarrow> heap_state \<Rightarrow> heap_state" where
  "set_heap h hs = hs\<lparr>zone := (zone hs)\<lparr>mem := h\<rparr>\<rparr>"

definition heap_view :: "heap_state \<Rightarrow> nat set \<Rightarrow> (u64 \<times> nat) set \<Rightarrow> nat set \<Rightarrow> bool" where
  "heap_view hs A L D \<longleftrightarrow>
     (\<exists>F B. heap_ok hs A F B \<and> L = in_use F B \<and> (\<forall>j < 8. \<forall>f \<in> set (F j). block f 0 \<inter> D = {})) \<and>
     D \<inter> A = {} \<and> (\<forall>a. unat a \<in> D \<longrightarrow> unat (cell a) \<in> D)"

text \<open>The bytes of a block.\<close>

definition bytes_of :: "u64 \<times> nat \<Rightarrow> nat set" where
  "bytes_of b = {unat (fst b) ..< unat (fst b) + bs_of (snd b)}"

definition owned :: "(u64 \<times> nat) set \<Rightarrow> nat set \<Rightarrow> nat set" where
  "owned L D = (\<Union>b \<in> L. bytes_of b) \<union> D"

definition same_on :: "nat set \<Rightarrow> heap \<Rightarrow> heap \<Rightarrow> bool" where
  "same_on S h h' \<longleftrightarrow> (\<forall>a. unat a \<in> S \<longrightarrow> load8 h' a = load8 h a)"

lemma cell_le: "unat (cell a) \<le> unat a" "unat a < unat (cell a) + 8" "8 dvd unat (cell a)"
proof -
  have "unat a = unat (cell a) + lane a"
    using aligned8_no_wrap [OF cell_aligned [of a] lane_less [of a]] cell_plus_lane [of a] by simp
  then show "unat (cell a) \<le> unat a" "unat a < unat (cell a) + 8" using lane_less [of a] by simp_all
  show "8 dvd unat (cell a)" using cell_aligned [of a] by (simp add: aligned8_unat)
qed

lemma aligned_range_cell:
  assumes "8 dvd m" "8 dvd n" "unat a \<in> {m ..< m + n}"
  shows "unat (cell a) \<in> {m ..< m + n}"
proof -
  obtain i j k where ijk: "m = 8 * i" "n = 8 * j" "unat (cell a) = 8 * k"
    using assms(1,2) cell_le(3) [of a] by (auto elim!: dvdE)
  with assms(3) cell_le [of a] have "8 * i < 8 * k + 8" by auto
  then have "i \<le> k" by linarith
  with ijk assms(3) cell_le(1) [of a] show ?thesis by auto
qed

lemma block_cell: "block_ok p 0 \<Longrightarrow> unat a \<in> block p 0 \<Longrightarrow> unat (cell a) \<in> block p 0"
  using aligned_range_cell [of "unat p" PAGESIZE a] block_ok_8 [of p] by (simp add: block_def block_size_def PAGESIZE_def)

lemma live_facts:
  assumes "heap_ok hs A F B" "(p, i) \<in> in_use F B"
  shows "i < 8" "8 dvd unat p" "8 dvd bs_of i" "unat p + bs_of i \<le> 2 ^ 64" "p \<noteq> 0"
    "\<exists>f \<in> set (F i). block_ok f 0 \<and> p \<in> slots_of f i \<and> p \<notin> set (B f) \<and> bytes_of (p, i) \<subseteq> block f 0"
proof -
  have i: "i < 8" "p \<in> live F B i" using assms(2) by (auto simp: in_use_def)
  then show "i < 8" by simp
  obtain f where f: "f \<in> set (F i)" "block_ok f 0" "p \<in> slots_of f i" "p \<notin> set (B f)" using live_frame [OF assms(1) i] .
  show "8 dvd unat p" "unat p + bs_of i \<le> 2 ^ 64" "p \<noteq> 0" using slot_aligned [OF f(2) i(1) f(3)] by auto
  show "8 dvd bs_of i" using blocksize_facts [OF i(1)] by simp
  have "bytes_of (p, i) \<subseteq> block f 0"
    using slots_from_inside [OF f(2,3)] by (auto simp: bytes_of_def block_def block_size_def)
  with f show "\<exists>f \<in> set (F i). block_ok f 0 \<and> p \<in> slots_of f i \<and> p \<notin> set (B f) \<and> bytes_of (p, i) \<subseteq> block f 0" by blast
qed

lemma live_below_top:
  assumes "heap_ok hs A F B" "(p, i) \<in> in_use F B"
  shows "unat p + bs_of i < 2 ^ 64"
proof -
  obtain f where f: "block_ok f 0" "p \<in> slots_of f i" using live_facts(6) [OF assms] by blast
  obtain k where "unat p = unat f + (16 + k * bs_of i)" "16 + k * bs_of i + bs_of i < PAGESIZE" using slots_from_unat [OF f] .
  then show ?thesis using f(1) by (simp add: block_ok_def block_size_def)
qed

lemma live_disjoint:
  assumes ok: "heap_ok hs A F B" and p: "(p, i) \<in> in_use F B" and q: "(q, j) \<in> in_use F B" and ne: "(p, i) \<noteq> (q, j)"
  shows "bytes_of (p, i) \<inter> bytes_of (q, j) = {}"
proof -
  obtain f where f: "f \<in> set (F i)" "block_ok f 0" "p \<in> slots_of f i" "bytes_of (p, i) \<subseteq> block f 0" using live_facts(6) [OF ok p] by blast
  obtain g where g: "g \<in> set (F j)" "block_ok g 0" "q \<in> slots_of g j" "bytes_of (q, j) \<subseteq> block g 0" using live_facts(6) [OF ok q] by blast
  have ij: "i < 8" "j < 8" using live_facts(1) [OF ok] p q by auto
  show ?thesis
  proof (cases "f = g")
    case True
    then have "i = j" using ok ij f(1) g(1) unfolding heap_ok_def by blast
    then have "unat p + bs_of i \<le> unat q \<or> unat q + bs_of i \<le> unat p"
      using slots_apart [OF f(2,3), of q] g(3) True ne by blast
    with \<open>i = j\<close> show ?thesis by (auto simp: bytes_of_def)
  next
    case False
    then show ?thesis using frames_apart [OF f(2) g(2)] f(4) g(4) by blast
  qed
qed

lemma view_apart:
  assumes "heap_view hs A L D"
  shows "p \<in> L \<Longrightarrow> q \<in> L \<Longrightarrow> p \<noteq> q \<Longrightarrow> bytes_of p \<inter> bytes_of q = {}"
    "p \<in> L \<Longrightarrow> bytes_of p \<inter> A = {}" "p \<in> L \<Longrightarrow> bytes_of p \<inter> D = {}" "D \<inter> A = {}" "finite A"
proof -
  obtain F B where v: "heap_ok hs A F B" "L = in_use F B" "\<forall>j < 8. \<forall>f \<in> set (F j). block f 0 \<inter> D = {}" "D \<inter> A = {}"
    using assms by (auto simp: heap_view_def)
  show "p \<in> L \<Longrightarrow> q \<in> L \<Longrightarrow> p \<noteq> q \<Longrightarrow> bytes_of p \<inter> bytes_of q = {}"
    using live_disjoint [OF v(1)] v(2) by (cases p; cases q) auto
  have "\<exists>f. bytes_of p \<subseteq> block f 0 \<and> block f 0 \<inter> A = {} \<and> block f 0 \<inter> D = {}" if pL: "p \<in> L"
  proof -
    obtain q i where [simp]: "p = (q, i)" by (cases p)
    obtain f where f: "f \<in> set (F i)" "bytes_of (q, i) \<subseteq> block f 0" "i < 8" using live_facts(1,6) [OF v(1), of q i] pL v(2) by auto
    then have "block f 0 \<inter> A = {}" using v(1) unfolding heap_ok_def frame_ok_def by blast
    with f v(3) show ?thesis by (metis \<open>p = (q, i)\<close>)
  qed
  then show "p \<in> L \<Longrightarrow> bytes_of p \<inter> A = {}" "p \<in> L \<Longrightarrow> bytes_of p \<inter> D = {}" by blast+
  show "D \<inter> A = {}" by (rule v(4))
  show "finite A" using v(1) finite_free_area by (auto simp: heap_ok_def zone_free_def)
qed

lemma owned_cell: "heap_view hs A L D \<Longrightarrow> unat a \<in> owned L D \<Longrightarrow> unat (cell a) \<in> owned L D"
proof -
  assume v: "heap_view hs A L D" and "unat a \<in> owned L D"
  then consider b where "b \<in> L" "unat a \<in> bytes_of b" | "unat a \<in> D" by (auto simp: owned_def)
  then show ?thesis
  proof cases
    case 1
    then obtain p i where b: "b = (p, i)" by (cases b)
    have "8 dvd unat p" "8 dvd bs_of i" using v 1(1) b live_facts(2,3) unfolding heap_view_def by blast+
    then have "unat (cell a) \<in> bytes_of b" using 1(2) b aligned_range_cell [of "unat p" "bs_of i" a] by (simp add: bytes_of_def)
    with 1(1) show ?thesis by (auto simp: owned_def)
  next
    case 2
    then show ?thesis using v by (auto simp: owned_def heap_view_def)
  qed
qed

lemma same_on_cells:
  assumes "heap_view hs A L D" "\<And>a. unat a \<in> owned L D \<Longrightarrow> h' a = mem (zone hs) a"
  shows "same_on (owned L D) (mem (zone hs)) h'"
  using owned_cell [OF assms(1)] assms(2) by (simp add: same_on_def load8_def)

lemma view_malloc:
  assumes v: "heap_view hs A L D" and "A \<noteq> {}" "0 < sz" "sz \<le> 2040"
  shows "\<exists>p i hs' A'. malloc hs sz = Inr (p, hs') \<and> p \<noteq> 0 \<and> sz \<le> bs_of i \<and> (p, i) \<notin> L \<and>
    heap_view hs' A' (insert (p, i) L) D \<and> one_page_less A A' \<and> (\<forall>k < sz. load8 (mem (zone hs')) (p + of_nat k) = 0) \<and>
    same_on (owned L D) (mem (zone hs)) (mem (zone hs'))"
proof -
  obtain F B where FB: "heap_ok hs A F B" "L = in_use F B" "\<forall>j < 8. \<forall>f \<in> set (F j). block f 0 \<inter> D = {}" "D \<inter> A = {}"
    using v by (auto simp: heap_view_def)
  obtain i p hs' where m: "i < 8" "sz \<le> bs_of i" "malloc hs sz = Inr (p, hs')" "malloc_post hs A F B i sz p hs'"
    using malloc_ok [OF FB(1) assms(3,4)] by blast
  then obtain A' F' B' where g: "one_page_less A A'" "\<forall>j < 8. \<forall>f \<in> set (F' j). f \<in> set (F j) \<or> block f 0 \<subseteq> A"
    "malloc_gives hs A F B i sz p hs' A' F' B'" unfolding malloc_post_def by blast
  have p: "p \<noteq> 0" using g(3) assms(2) by (auto simp: malloc_gives_def)
  have r: "heap_ok hs' A' F' B'" "undisturbed hs hs' A F B" "p \<notin> live F B i" "live F' B' i = insert p (live F B i)"
    "\<forall>j < 8. j \<noteq> i \<longrightarrow> live F' B' j = live F B j" "\<forall>k < sz. load8 (mem (zone hs')) (p + of_nat k) = 0"
    using g(3) p by (auto simp: malloc_gives_def)
  have iu: "in_use F' B' = insert (p, i) L"
    unfolding FB(2) in_use_def using r(4,5) m(1) by (auto split: if_splits)
  have "A' \<subseteq> A" using g(1) by (auto simp: one_page_less_def)
  have "\<forall>j < 8. \<forall>f \<in> set (F' j). block f 0 \<inter> D = {}" using g(2) FB(3,4) by blast
  moreover have "D \<inter> A' = {}" using FB(4) \<open>A' \<subseteq> A\<close> by blast
  ultimately have view: "heap_view hs' A' (insert (p, i) L) D"
    using v r(1) iu unfolding heap_view_def by blast
  have "mem (zone hs') a = mem (zone hs) a" if "unat a \<in> owned L D" for a
  proof (cases "unat a \<in> D")
    case True
    then have "unat a \<notin> A" "\<forall>j < 8. \<forall>f \<in> set (F j). unat a \<notin> block f 0" using FB(3,4) by blast+
    then show ?thesis using r(2) by (simp add: undisturbed_def)
  next
    case False
    then show ?thesis using that r(2) FB(2) by (auto simp: owned_def bytes_of_def undisturbed_def in_use_def in_range_def)
  qed
  then have "same_on (owned L D) (mem (zone hs)) (mem (zone hs'))" by (rule same_on_cells [OF v])
  with m p g(1) r view show ?thesis using FB(2) by (auto simp: in_use_def)
qed


lemma view_page:
  assumes v: "heap_view hs A L D" and "A \<noteq> {}"
  shows "\<exists>p z. alloc_page (zone hs) = Inr (p, z) \<and> p \<noteq> 0 \<and> block_ok p 0 \<and> block p 0 \<subseteq> A \<and>
    heap_view (hs\<lparr>zone := z\<rparr>) (A - block p 0) L (D \<union> block p 0) \<and>
    (\<forall>a. unat a \<in> block p 0 \<longrightarrow> load8 (mem z) a = 0) \<and> same_on (owned L D) (mem (zone hs)) (mem z)"
proof -
  obtain F B where FB: "heap_ok hs A F B" "L = in_use F B" "\<forall>j < 8. \<forall>f \<in> set (F j). block f 0 \<inter> D = {}"
    using v by (auto simp: heap_view_def)
  have zf: "zone_free (zone hs) A" using FB(1) by (simp add: heap_ok_def)
  obtain p z where r: "alloc_page (zone hs) = Inr (p, z)" using pa.alloc_returns [OF zf] by blast
  note a = zone_free_alloc [OF zf r]
  have p: "p \<noteq> 0" "block_ok p 0" "block p 0 \<subseteq> A" "zone_free z (A - block p 0)" using a(1,2) assms(2) by blast+
  have frames: "block f 0 \<inter> A = {}" "frame_ok (mem (zone hs)) A j f (B f)" if "j < 8" "f \<in> set (F j)" for j f
    using FB(1) that by (auto simp: heap_ok_def frame_ok_def)
  have out: "mem z a = mem (zone hs) a" if "unat a \<notin> A" for a using a(3) that by blast
  have "chain (mem z) (framelists hs ! j) (F j)" if j: "j < 8" for j
  proof (rule chain_frame)
    show "chain (mem (zone hs)) (framelists hs ! j) (F j)" using FB(1) j by (simp add: heap_ok_def)
    fix g assume "g \<in> set (F j)"
    then have "block g 0 \<inter> A = {}" "block_ok g 0" using frames [OF j] by (auto simp: frame_ok_def)
    then show "mem z g = mem (zone hs) g" using frame_header(4) out by blast
  qed
  moreover have "frame_ok (mem z) (A - block p 0) j f (B f)" if "j < 8" "f \<in> set (F j)" for j f
    using frames [OF that] by (intro frame_ok_frame [OF frames(2) [OF that]]) (auto intro: out)
  ultimately have ok: "heap_ok (hs\<lparr>zone := z\<rparr>) (A - block p 0) F B"
    using FB(1) p(4) by (simp add: heap_ok_def)
  have "\<forall>j < 8. \<forall>f \<in> set (F j). block f 0 \<inter> (D \<union> block p 0) = {}" using FB(3) frames(1) p(3) by blast
  moreover have "(D \<union> block p 0) \<inter> (A - block p 0) = {}" using view_apart(4) [OF v] by blast
  moreover have "\<forall>a. unat a \<in> D \<union> block p 0 \<longrightarrow> unat (cell a) \<in> D \<union> block p 0"
    using v block_cell [OF p(2)] by (auto simp: heap_view_def)
  ultimately have "heap_view (hs\<lparr>zone := z\<rparr>) (A - block p 0) L (D \<union> block p 0)"
    using ok FB(2) unfolding heap_view_def by blast
  moreover have "load8 (mem z) a = 0" if "unat a \<in> block p 0" for a
    using a(4) block_cell [OF p(2) that] p(1) cell_aligned by (simp add: load8_def byte_at_def)
  moreover have "mem z a = mem (zone hs) a" if "unat a \<in> owned L D" for a
    using that view_apart(2,4) [OF v] unfolding owned_def by (intro out) blast
  ultimately show ?thesis using r p same_on_cells [OF v, of "mem z"] by blast
qed

text \<open>A client may change what it owns.\<close>

lemma view_write_foreign:
  assumes v: "heap_view hs A L D" and "\<And>a. unat a \<notin> D \<Longrightarrow> h a = mem (zone hs) a"
  shows "heap_view (set_heap h hs) A L D"
proof -
  obtain F B where FB: "heap_ok hs A F B" "L = in_use F B" "\<forall>j < 8. \<forall>f \<in> set (F j). block f 0 \<inter> D = {}"
    using v by (auto simp: heap_view_def)
  have out: "h a = mem (zone hs) a" if "j < 8" "f \<in> set (F j)" "unat a \<in> block f 0" for j f a
    using assms(2) FB(3) that by blast
  have fr: "frame_ok (mem (zone hs)) A j f (B f)" if "j < 8" "f \<in> set (F j)" for j f using FB(1) that by (simp add: heap_ok_def)
  have "zone_free ((zone hs)\<lparr>mem := h\<rparr>) A"
    using FB(1) view_apart(4) [OF v] assms(2) by (intro zone_free_frame) (auto simp: heap_ok_def)
  moreover have "chain h (framelists hs ! j) (F j)" if j: "j < 8" for j
  proof (rule chain_frame)
    show "chain (mem (zone hs)) (framelists hs ! j) (F j)" using FB(1) j by (simp add: heap_ok_def)
    fix g assume g: "g \<in> set (F j)"
    then show "h g = mem (zone hs) g" using out [OF j g] frame_header(4) fr [OF j g] by (auto simp: frame_ok_def)
  qed
  moreover have "frame_ok h A j f (B f)" if "j < 8" "f \<in> set (F j)" for j f
    using fr [OF that] by (intro frame_ok_frame [OF fr [OF that]] out [OF that]) (auto simp: frame_ok_def)
  ultimately have "heap_ok (set_heap h hs) A F B" using FB(1) by (simp add: heap_ok_def set_heap_def)
  with v FB(2,3) show ?thesis unfolding heap_view_def by blast
qed

lemma view_write_block:
  assumes v: "heap_view hs A L D" and p: "b \<in> L" and same: "\<And>a. unat a \<notin> bytes_of b \<Longrightarrow> h a = mem (zone hs) a"
  shows "heap_view (set_heap h hs) A L D"
proof -
  obtain F B where FB: "heap_ok hs A F B" "L = in_use F B" "\<forall>j < 8. \<forall>f \<in> set (F j). block f 0 \<inter> D = {}"
    using v by (auto simp: heap_view_def)
  obtain q i where b: "b = (q, i)" by (cases b)
  have qi: "(q, i) \<in> in_use F B" using p FB(2) b by simp
  obtain f where f: "f \<in> set (F i)" "block_ok f 0" "q \<in> slots_of f i" "q \<notin> set (B f)" "bytes_of b \<subseteq> block f 0"
    using live_facts(6) [OF FB(1) qi] b by blast
  have i: "i < 8" using live_facts(1) [OF FB(1) qi] .
  have fr: "frame_ok (mem (zone hs)) A i f (B f)" using FB(1) i f(1) by (simp add: heap_ok_def)
  have low: "unat f + 16 \<le> unat q" using slots_from_inside [OF f(2,3)] by simp
  have hdr: "unat (f + 8) \<notin> bytes_of b" "unat f \<notin> bytes_of b"
    using low frame_header(1) [OF f(2)] b by (auto simp: bytes_of_def)
  have "h x = mem (zone hs) x" if "x \<in> set (B f)" for x
  proof (rule same)
    have x: "x \<in> slots_of f i" "x \<noteq> q" using that fr f(4) by (auto simp: frame_ok_def)
    then have "unat q + bs_of i \<le> unat x \<or> unat x + bs_of i \<le> unat q" using slots_apart [OF f(2,3), of x] by blast
    moreover have "0 < bs_of i" using blocksize_facts [OF i] by simp
    ultimately show "unat x \<notin> bytes_of b" using b by (auto simp: bytes_of_def)
  qed
  then have "frame_ok h A i f (B f)"
    using fr chain_frame [of "B f" h "mem (zone hs)"] same [OF hdr(1)] by (simp add: frame_ok_def)
  then have "heap_ok (set_heap h hs) A F (B(f := B f))"
    unfolding set_heap_def using hdr(2) f(5) by (intro heap_ok_change [OF FB(1) i f(1)] same) auto
  with v FB(2,3) show ?thesis unfolding heap_view_def by auto
qed


section \<open>The interface\<close>

definition heap_page :: "heap_state \<Rightarrow> (u64 \<times> heap_state) res" where
  "heap_page hs = bind_res (alloc_page (zone hs)) (\<lambda>(p, z). Inr (p, hs\<lparr>zone := z\<rparr>))"

definition hmem :: "heap_state \<Rightarrow> heap" where
  "hmem hs = mem (zone hs)"

lemma same_on_trans: "same_on S h h1 \<Longrightarrow> same_on T h1 h2 \<Longrightarrow> S \<subseteq> T \<Longrightarrow> same_on S h h2"
  by (auto simp: same_on_def)

lemma same_on_mono: "same_on T h h1 \<Longrightarrow> S \<subseteq> T \<Longrightarrow> same_on S h h1"
  by (auto simp: same_on_def)

lemma owned_mono: "L \<subseteq> L' \<Longrightarrow> D \<subseteq> D' \<Longrightarrow> owned L D \<subseteq> owned L' D'"
  by (auto simp: owned_def)

lemma page_card: "card (block p 0) = PAGESIZE"
  by (simp add: block_def block_size_def)

lemma one_page_less_card: "one_page_less A A' \<Longrightarrow> finite A \<Longrightarrow> A' \<subseteq> A \<and> card A \<le> card A' + PAGESIZE"
  using page_card by (auto simp: one_page_less_def card_Diff_subset finite_subset)

locale object_heap =
  fixes vw :: "'h \<Rightarrow> nat set \<Rightarrow> (u64 \<times> nat) set \<Rightarrow> nat set \<Rightarrow> bool"
    and content :: "'h \<Rightarrow> heap"
    and get_block :: "'h \<Rightarrow> nat \<Rightarrow> (u64 \<times> 'h) res"
    and get_page :: "'h \<Rightarrow> (u64 \<times> 'h) res"
  assumes block_law: "\<lbrakk>vw h A L D; A \<noteq> {}; 0 < sz; sz \<le> 2040\<rbrakk> \<Longrightarrow>
      \<exists>p i h' A'. get_block h sz = Inr (p, h') \<and> p \<noteq> 0 \<and> sz \<le> bs_of i \<and> (p, i) \<notin> L \<and>
        vw h' A' (insert (p, i) L) D \<and> one_page_less A A' \<and> (\<forall>k < sz. load8 (content h') (p + of_nat k) = 0) \<and>
        same_on (owned L D) (content h) (content h')"
    and page_law: "\<lbrakk>vw h A L D; A \<noteq> {}\<rbrakk> \<Longrightarrow>
      \<exists>p h'. get_page h = Inr (p, h') \<and> p \<noteq> 0 \<and> block_ok p 0 \<and> block p 0 \<subseteq> A \<and> vw h' (A - block p 0) L (D \<union> block p 0) \<and>
        (\<forall>a. unat a \<in> block p 0 \<longrightarrow> load8 (content h') a = 0) \<and> same_on (owned L D) (content h) (content h')"
    and finite_law: "vw h A L D \<Longrightarrow> finite A"
    and apart_law: "vw h A L D \<Longrightarrow> D \<inter> A = {}"
begin

lemma two_blocks:
  assumes v: "vw h A L D" and room: "PAGESIZE < card A" and sz: "0 < sz1" "sz1 \<le> 2040" "0 < sz2" "sz2 \<le> 2040"
  shows "\<exists>p i h1 q j h2 A'. get_block h sz1 = Inr (p, h1) \<and> p \<noteq> 0 \<and> get_block h1 sz2 = Inr (q, h2) \<and> q \<noteq> 0 \<and>
    sz1 \<le> bs_of i \<and> sz2 \<le> bs_of j \<and> (p, i) \<noteq> (q, j) \<and> (p, i) \<notin> L \<and> (q, j) \<notin> L \<and>
    vw h2 A' (insert (q, j) (insert (p, i) L)) D \<and> card A \<le> card A' + 2 * PAGESIZE \<and>
    (\<forall>k < sz2. load8 (content h2) (q + of_nat k) = 0) \<and> same_on (owned L D) (content h) (content h2)"
proof -
  have "A \<noteq> {}" using room by auto
  then obtain p i h1 A1 where 1: "get_block h sz1 = Inr (p, h1)" "p \<noteq> 0" "sz1 \<le> bs_of i" "(p, i) \<notin> L" "vw h1 A1 (insert (p, i) L) D"
      "one_page_less A A1" "same_on (owned L D) (content h) (content h1)"
    using block_law [OF v _ sz(1,2)] by blast
  have c1: "card A \<le> card A1 + PAGESIZE" using one_page_less_card [OF 1(6) finite_law [OF v]] by simp
  then have "A1 \<noteq> {}" using room by auto
  then obtain q j h2 A2 where 2: "get_block h1 sz2 = Inr (q, h2)" "q \<noteq> 0" "sz2 \<le> bs_of j" "(q, j) \<notin> insert (p, i) L"
      "vw h2 A2 (insert (q, j) (insert (p, i) L)) D" "one_page_less A1 A2" "\<forall>k < sz2. load8 (content h2) (q + of_nat k) = 0"
      "same_on (owned (insert (p, i) L) D) (content h1) (content h2)"
    using block_law [OF 1(5) _ sz(3,4)] by blast
  have "card A1 \<le> card A2 + PAGESIZE" using one_page_less_card [OF 2(6) finite_law [OF 1(5)]] by simp
  with c1 have c: "card A \<le> card A2 + 2 * PAGESIZE" by simp
  have "same_on (owned L D) (content h) (content h2)"
    using same_on_trans [OF 1(7) 2(8)] owned_mono [of L "insert (p, i) L" D D] by auto
  with 1(1-4) 2 c show ?thesis by blast
qed

lemma one_page_more:
  assumes "vw h A L D" and "n + PAGESIZE \<le> card A"
  shows "\<exists>p h'. get_page h = Inr (p, h') \<and> p \<noteq> 0 \<and> block_ok p 0 \<and> block p 0 \<inter> D = {} \<and> vw h' (A - block p 0) L (D \<union> block p 0) \<and>
    n \<le> card (A - block p 0) \<and> (\<forall>a. unat a \<in> block p 0 \<longrightarrow> load8 (content h') a = 0) \<and> same_on (owned L D) (content h) (content h')"
proof -
  have "A \<noteq> {}" using assms(2) by (auto simp: PAGESIZE_def)
  then obtain p h' where p: "get_page h = Inr (p, h')" "p \<noteq> 0" "block_ok p 0" "block p 0 \<subseteq> A" "vw h' (A - block p 0) L (D \<union> block p 0)"
      "\<forall>a. unat a \<in> block p 0 \<longrightarrow> load8 (content h') a = 0" "same_on (owned L D) (content h) (content h')"
    using page_law [OF assms(1)] by blast
  have "n \<le> card (A - block p 0)"
    using assms(2) p(4) page_card [of p] finite_law [OF assms(1)] by (simp add: card_Diff_subset finite_subset)
  moreover have "block p 0 \<inter> D = {}" using p(4) apart_law [OF assms(1)] by blast
  ultimately show ?thesis using p by blast
qed

end

interpretation oh: object_heap heap_view hmem malloc heap_page
proof (unfold_locales, goal_cases)
  case (1 h A L D sz)
  then show ?case using view_malloc unfolding hmem_def by blast
next
  case (2 h A L D)
  then obtain p z where "alloc_page (zone h) = Inr (p, z)" "p \<noteq> 0" "block_ok p 0" "block p 0 \<subseteq> A"
      "heap_view (h\<lparr>zone := z\<rparr>) (A - block p 0) L (D \<union> block p 0)"
      "\<forall>a. unat a \<in> block p 0 \<longrightarrow> load8 (mem z) a = 0" "same_on (owned L D) (mem (zone h)) (mem z)"
    using view_page by blast
  then show ?case by (intro exI [of _ p] exI [of _ "h\<lparr>zone := z\<rparr>"]) (simp add: heap_page_def hmem_def)
next
  case (3 h A L D)
  then show ?case using view_apart(5) by blast
next
  case (4 h A L D)
  then show ?case using view_apart(4) by blast
qed

end
