(* ===== verification/Virtq.thy ===== *)
theory Virtq
  imports Alloc_Page Memory_Model
begin

text \<open>
  The virtqueues of \<^verbatim>\<open>drivers/virtio/virtq.c\<close>: a table of 256 descriptors that the driver chains
  to describe a buffer, a ring of available chains the driver writes and a ring of used chains the device
  writes.  Descriptors that describe no buffer form a list linked by their \<^verbatim>\<open>next\<close> fields.
  The pages of the queue are zero when they are allocated, so that a new queue starts from zeroes; after
  that the queue is a record with the fields of \<^verbatim>\<open>struct virtq\<close>.  The device is not part of the
  program: its stores to the used ring are the arguments of \<open>device_used\<close>.

  \<open>vq_ok\<close> relates a queue to the list of its free descriptors and the chains that are in flight.  The lemmas
  show that every operation keeps this partition of the table, and the properties at the end that a buffer
  is described by descriptors of its own until it is handed back.
\<close>

section \<open>Data\<close>

definition NQUEUE :: nat where
  "NQUEUE = 256"

definition VIRTQ_DESC_F_NEXT :: u16 where
  "VIRTQ_DESC_F_NEXT = 1"

definition VIRTQ_DESC_F_WRITE :: u16 where
  "VIRTQ_DESC_F_WRITE = 2"

definition VIRTQ_USED_F_NO_NOTIFY :: u16 where
  "VIRTQ_USED_F_NO_NOTIFY = 1"

record virtq_desc =
  d_addr :: u64
  d_len :: u32
  d_flags :: u16
  d_next :: u16

record virtq_avail =
  a_flags :: u16
  a_idx :: u16
  a_ring :: "u16 list"

record virtq_used_elem =
  u_id :: u32
  u_len :: u32

record virtq_used =
  us_flags :: u16
  us_idx :: u16
  us_ring :: "virtq_used_elem list"

record virtq =
  vdesc :: "virtq_desc list"
  vavail :: virtq_avail
  vused :: virtq_used
  vnum :: u16
  free_head :: u16
  nfree :: u16
  last_used_idx :: u16
  vq_sel :: int
  xdata :: "u64 list"
  p_desc :: u64
  p_avail :: u64
  p_used :: u64

text \<open>A \<^verbatim>\<open>struct qlist\<close>: the address and the length of a part of a buffer.\<close>

record qlist =
  q_buf :: u64
  q_len :: u32

section \<open>Operations\<close>

text \<open>The last descriptor of the chain that starts at \<open>n\<close>.  A chain that loops has no last descriptor.\<close>

partial_function (option) chain_end :: "virtq_desc list \<Rightarrow> u16 \<Rightarrow> u16 res option" where
  "chain_end ds n =
     (if unat n \<ge> length ds then Some (Inl (Undefined ''desc''))
      else if d_flags (ds ! unat n) AND VIRTQ_DESC_F_NEXT \<noteq> 0 then chain_end ds (d_next (ds ! unat n))
      else Some (Inr n))"

definition virtq_free_chain :: "virtq \<Rightarrow> u16 \<Rightarrow> virtq res" where
  "virtq_free_chain vq n =
     (case chain_end (vdesc vq) n of
        None \<Rightarrow> Inl (Hang ''virtq_free_chain'')
      | Some r \<Rightarrow> bind_res r (\<lambda>l.
          Inr (vq\<lparr>vdesc := (vdesc vq)[unat l := (vdesc vq ! unat l)\<lparr>d_next := free_head vq\<rparr>], free_head := n\<rparr>)))"

text \<open>
  The loop of \<^verbatim>\<open>virtq_enqueue\<close>; \<open>pv\<close> is the offset of the kernel image, which the translation of
  an address needs.
\<close>

fun enqueue_loop :: "u64 \<Rightarrow> bool \<Rightarrow> qlist list \<Rightarrow> virtq_desc list \<Rightarrow> u16 \<Rightarrow> (virtq_desc list \<times> u16) res" where
  "enqueue_loop pv inn [] ds idx = Inr (ds, idx)"
| "enqueue_loop pv inn (q # qs) ds idx =
     (if idx = 0xffff then Inl (Panic ''no desc'')
      else if unat idx \<ge> length ds then Inl (Undefined ''desc'')
      else
        let d = ds ! unat idx;
            d' = d\<lparr>d_addr := virt2phys pv (q_buf q), d_len := q_len q,
                   d_flags := (if qs \<noteq> [] then VIRTQ_DESC_F_NEXT else 0) OR (if inn then VIRTQ_DESC_F_WRITE else 0)\<rparr>
        in enqueue_loop pv inn qs (ds[unat idx := d']) (d_next d'))"

definition virtq_enqueue :: "u64 \<Rightarrow> virtq \<Rightarrow> qlist list \<Rightarrow> u64 \<Rightarrow> bool \<Rightarrow> virtq res" where
  "virtq_enqueue pv vq qs x inn =
     (if x = 0 then Inl (Panic ''enqueue: xdata'')
      else
        let hd_idx = free_head vq
        in bind_res (enqueue_loop pv inn qs (vdesc vq) hd_idx) (\<lambda>(ds, idx).
             if unat hd_idx \<ge> length (xdata vq) then Inl (Undefined ''xdata'')
             else
               let av = vavail vq
               in Inr (vq\<lparr>vdesc := ds, xdata := (xdata vq)[unat hd_idx := x], free_head := idx,
                          vavail := av\<lparr>a_ring := (a_ring av)[unat (a_idx av mod vnum vq) := hd_idx], a_idx := a_idx av + 1\<rparr>\<rparr>)))"

definition virtq_enqueue_in :: "u64 \<Rightarrow> virtq \<Rightarrow> qlist list \<Rightarrow> u64 \<Rightarrow> virtq res" where
  "virtq_enqueue_in pv vq qs x = virtq_enqueue pv vq qs x True"

definition virtq_enqueue_out :: "u64 \<Rightarrow> virtq \<Rightarrow> qlist list \<Rightarrow> u64 \<Rightarrow> virtq res" where
  "virtq_enqueue_out pv vq qs x = virtq_enqueue pv vq qs x False"

text \<open>\<^verbatim>\<open>NULL\<close> is 0; the length is returned beside the pointer.\<close>

definition virtq_dequeue :: "virtq \<Rightarrow> (u64 \<times> u32 \<times> virtq) res" where
  "virtq_dequeue vq =
     (let idx = last_used_idx vq
      in if idx = us_idx (vused vq) then Inr (0, 0, vq)
         else
           let e = us_ring (vused vq) ! unat (idx mod vnum vq); d = u_id e
           in if unat d \<ge> length (xdata vq) then Inl (Undefined ''xdata'')
              else
                let x = xdata vq ! unat d
                in if x = 0 then Inl (Panic ''dequeue: xdata'')
                   else
                     bind_res
                       (virtq_free_chain (vq\<lparr>xdata := (xdata vq)[unat d := 0], last_used_idx := idx + 1\<rparr>) (ucast d))
                       (\<lambda>vq'. Inr (x, u_len e, vq')))"

text \<open>Whether the device wants to be told about the new chains.\<close>

definition virtq_kick :: "virtq \<Rightarrow> int option" where
  "virtq_kick vq = (if us_flags (vused vq) AND VIRTQ_USED_F_NO_NOTIFY = 0 then Some (vq_sel vq) else None)"

definition zero_desc :: virtq_desc where
  "zero_desc = \<lparr>d_addr = 0, d_len = 0, d_flags = 0, d_next = 0\<rparr>"

definition link_descs :: "virtq_desc list" where
  "link_descs = map (\<lambda>i. zero_desc\<lparr>d_next := of_nat (i + 1)\<rparr>) [0..<NQUEUE - 1] @ [zero_desc\<lparr>d_next := 0xffff\<rparr>]"

definition virtq_create :: "mstate \<Rightarrow> int \<Rightarrow> (virtq \<times> mstate) res" where
  "virtq_create s qsel =
     bind_res (alloc_page s) (\<lambda>(vq, s0).
       if vq = 0 then Inl (Panic ''vq'')
       else bind_res (alloc_page s0) (\<lambda>(de, s1).
         bind_res (alloc_page s1) (\<lambda>(av, s2).
           bind_res (alloc_page s2) (\<lambda>(us, s3).
             if de = 0 then Inl (Undefined ''desc'')
             else Inr (\<lparr>vdesc = link_descs,
                        vavail = \<lparr>a_flags = 0, a_idx = 0, a_ring = replicate NQUEUE 0\<rparr>,
                        vused = \<lparr>us_flags = 0, us_idx = 0, us_ring = replicate NQUEUE \<lparr>u_id = 0, u_len = 0\<rparr>\<rparr>,
                        vnum = of_nat NQUEUE, free_head = 0, nfree = of_nat NQUEUE, last_used_idx = 0, vq_sel = qsel,
                        xdata = replicate NQUEUE 0, p_desc = de, p_avail = av, p_used = us\<rparr>, s3)))))"

text \<open>The device adds a chain to the used ring, with the number of bytes it wrote.\<close>

definition device_used :: "virtq \<Rightarrow> u32 \<Rightarrow> u32 \<Rightarrow> virtq" where
  "device_used vq d n =
     (let us = vused vq
      in vq\<lparr>vused := us\<lparr>us_ring := (us_ring us)[unat (us_idx us mod vnum vq) := \<lparr>u_id = d, u_len = n\<rparr>],
                       us_idx := us_idx us + 1\<rparr>\<rparr>)"

section \<open>Free descriptors and chains\<close>

text \<open>\<open>path ds i xs j\<close>: the \<^verbatim>\<open>next\<close> fields lead from \<open>i\<close> through the descriptors \<open>xs\<close> to \<open>j\<close>.\<close>

fun path :: "virtq_desc list \<Rightarrow> u16 \<Rightarrow> nat list \<Rightarrow> u16 \<Rightarrow> bool" where
  "path ds i [] j \<longleftrightarrow> i = j"
| "path ds i (x # xs) j \<longleftrightarrow> unat i = x \<and> x < length ds \<and> path ds (d_next (ds ! x)) xs j"

text \<open>The descriptors of a chain: all but the last carry the flag that says that another one follows.\<close>

fun dchain :: "virtq_desc list \<Rightarrow> nat list \<Rightarrow> bool" where
  "dchain ds [] \<longleftrightarrow> False"
| "dchain ds [x] \<longleftrightarrow> x < length ds \<and> d_flags (ds ! x) AND VIRTQ_DESC_F_NEXT = 0"
| "dchain ds (x # y # r) \<longleftrightarrow>
     x < length ds \<and> d_flags (ds ! x) AND VIRTQ_DESC_F_NEXT \<noteq> 0 \<and> unat (d_next (ds ! x)) = y \<and> dchain ds (y # r)"

text \<open>What a chain says: the parts of the buffer it describes.\<close>

definition described :: "u64 \<Rightarrow> virtq_desc list \<Rightarrow> nat list \<Rightarrow> qlist list \<Rightarrow> bool" where
  "described pv ds c qs \<longleftrightarrow>
     map (\<lambda>i. (d_addr (ds ! i), d_len (ds ! i))) c = map (\<lambda>q. (virt2phys pv (q_buf q), q_len q)) qs"

text \<open>The chains in flight, each with its cookie and the buffer it describes.\<close>

type_synonym flight = "(nat list \<times> u64 \<times> qlist list) list"

definition vq_shape :: "virtq \<Rightarrow> bool" where
  "vq_shape vq \<longleftrightarrow>
     length (vdesc vq) = NQUEUE \<and> length (xdata vq) = NQUEUE \<and> vnum vq = of_nat NQUEUE \<and>
     length (a_ring (vavail vq)) = NQUEUE \<and> length (us_ring (vused vq)) = NQUEUE"

definition in_flight :: "u64 \<Rightarrow> virtq \<Rightarrow> nat list \<times> u64 \<times> qlist list \<Rightarrow> bool" where
  "in_flight pv vq = (\<lambda>(c, x, qs). dchain (vdesc vq) c \<and> x \<noteq> 0 \<and> xdata vq ! hd c = x \<and> described pv (vdesc vq) c qs)"

definition vq_ok :: "u64 \<Rightarrow> virtq \<Rightarrow> nat list \<Rightarrow> flight \<Rightarrow> bool" where
  "vq_ok pv vq fl cs \<longleftrightarrow>
     vq_shape vq \<and> path (vdesc vq) (free_head vq) fl 0xffff \<and>
     distinct (fl @ concat (map fst cs)) \<and> set (fl @ concat (map fst cs)) = {..<NQUEUE} \<and>
     (\<forall>b \<in> set cs. in_flight pv vq b) \<and>
     (\<forall>i < NQUEUE. i \<notin> (hd \<circ> fst) ` set cs \<longrightarrow> xdata vq ! i = 0)"

lemma path_append: "path ds i (xs @ ys) k \<longleftrightarrow> (\<exists>j. path ds i xs j \<and> path ds j ys k)"
  by (induction xs arbitrary: i) auto

lemma path_cong:
  "path ds i xs j \<Longrightarrow> length ds' = length ds \<Longrightarrow> \<forall>x \<in> set xs. d_next (ds' ! x) = d_next (ds ! x) \<Longrightarrow> path ds' i xs j"
  by (induction xs arbitrary: i) auto

lemma dchain_cong: "dchain ds c \<Longrightarrow> length ds' = length ds \<Longrightarrow> \<forall>x \<in> set c. ds' ! x = ds ! x \<Longrightarrow> dchain ds' c"
  by (induction ds c rule: dchain.induct) auto

lemma path_not_end: "path ds i (x # xs) j \<Longrightarrow> length ds \<le> 0xffff \<Longrightarrow> i \<noteq> 0xffff"
  by auto

lemma chain_bounds: "dchain ds c \<Longrightarrow> \<forall>x \<in> set c. x < length ds"
  by (induction ds c rule: dchain.induct) auto

lemma chain_end_chain: "dchain ds c \<Longrightarrow> unat n = hd c \<Longrightarrow> \<exists>l. chain_end ds n = Some (Inr l) \<and> unat l = last c"
proof (induction ds c arbitrary: n rule: dchain.induct)
  case (2 ds x)
  then show ?case by (subst chain_end.simps) auto
next
  case (3 ds x y r)
  then obtain l where "chain_end ds (d_next (ds ! x)) = Some (Inr l)" "unat l = last (y # r)"
    by fastforce
  with 3 show ?case by (subst chain_end.simps) auto
qed simp

lemma chain_relinked:
  "dchain ds c \<Longrightarrow> unat n = hd c \<Longrightarrow> distinct c \<Longrightarrow> path (ds[last c := (ds ! last c)\<lparr>d_next := e\<rparr>]) n c e"
proof (induction ds c arbitrary: n rule: dchain.induct)
  case (3 ds x y r)
  then have "last (y # r) \<noteq> x" by (metis distinct.simps(2) last_in_set list.distinct(1))
  moreover have "path (ds[last (y # r) := (ds ! last (y # r))\<lparr>d_next := e\<rparr>]) (d_next (ds ! x)) (y # r) e"
    by (rule 3(1)) (use 3 in auto)
  ultimately show ?case using 3(2,3)
    by (simp only: path.simps(2) [of _ n] last_ConsR list.sel length_list_update dchain.simps) (simp del: path.simps)
qed auto

lemma virtq_free_chain_eq:
  assumes "dchain (vdesc vq) c" and "unat n = hd c"
  shows "virtq_free_chain vq n =
    Inr (vq\<lparr>vdesc := (vdesc vq)[last c := (vdesc vq ! last c)\<lparr>d_next := free_head vq\<rparr>], free_head := n\<rparr>)"
  using chain_end_chain [OF assms] by (auto simp: virtq_free_chain_def)

lemma path_freed:
  assumes "dchain ds c" "unat n = hd c" "distinct (c @ fl)" "path ds fh fl e"
  shows "path (ds[last c := (ds ! last c)\<lparr>d_next := fh\<rparr>]) n (c @ fl) e"
proof -
  have "c \<noteq> []" using assms(1) by auto
  then have "last c \<notin> set fl" using assms(3) last_in_set [of c] by (meson disjoint_iff distinct_append)
  then have "path (ds[last c := (ds ! last c)\<lparr>d_next := fh\<rparr>]) fh fl e"
    by (intro path_cong [OF assms(4)]) (auto, metis nth_list_update_neq)
  with chain_relinked [OF assms(1,2)] assms(3) show ?thesis
    by (auto simp: path_append)
qed

section \<open>The loop that fills a chain\<close>

definition desc_for :: "u64 \<Rightarrow> bool \<Rightarrow> qlist list \<Rightarrow> qlist \<Rightarrow> virtq_desc \<Rightarrow> virtq_desc" where
  "desc_for pv inn qs q d =
     d\<lparr>d_addr := virt2phys pv (q_buf q), d_len := q_len q,
       d_flags := (if qs \<noteq> [] then VIRTQ_DESC_F_NEXT else 0) OR (if inn then VIRTQ_DESC_F_WRITE else 0)\<rparr>"

lemma desc_for_simps [simp]:
  "d_next (desc_for pv inn qs q d) = d_next d"
  "d_addr (desc_for pv inn qs q d) = virt2phys pv (q_buf q)"
  "d_len (desc_for pv inn qs q d) = q_len q"
  "d_flags (desc_for pv inn qs q d) AND VIRTQ_DESC_F_NEXT = 0 \<longleftrightarrow> qs = []"
  by (auto simp: desc_for_def VIRTQ_DESC_F_NEXT_def VIRTQ_DESC_F_WRITE_def)

lemma enqueue_loop_Cons:
  "enqueue_loop pv inn (q # qs) ds idx =
     (if idx = 0xffff then Inl (Panic ''no desc'') else if unat idx \<ge> length ds then Inl (Undefined ''desc'')
      else enqueue_loop pv inn qs (ds[unat idx := desc_for pv inn qs q (ds ! unat idx)]) (d_next (ds ! unat idx)))"
  by (simp add: desc_for_def Let_def)

declare enqueue_loop.simps(2) [simp del]

lemma enqueue_loop_takes:
  assumes "path ds idx (xs @ ys) 0xffff" "length xs = length qs" "distinct (xs @ ys)" "length ds \<le> 0xffff"
  shows "\<exists>ds' idx'. enqueue_loop pv inn qs ds idx = Inr (ds', idx') \<and> length ds' = length ds \<and>
    path ds' idx xs idx' \<and> path ds' idx' ys 0xffff \<and> (qs \<noteq> [] \<longrightarrow> dchain ds' xs) \<and> described pv ds' xs qs \<and>
    (\<forall>i. i \<notin> set xs \<longrightarrow> ds' ! i = ds ! i)"
  using assms
proof (induction qs arbitrary: ds idx xs)
  case Nil
  then show ?case by (simp add: described_def)
next
  case (Cons q qs)
  then obtain x r where xs: "xs = x # r" by (cases xs) auto
  let ?ds = "ds[x := desc_for pv inn qs q (ds ! x)]"
  have x: "unat idx = x" "x < length ds" "idx \<noteq> 0xffff" using Cons.prems xs by auto
  have "path ?ds (d_next (ds ! x)) (r @ ys) 0xffff"
    by (rule path_cong [of ds]) (use Cons.prems xs in \<open>auto simp: nth_list_update\<close>)
  from Cons.IH [OF this] Cons.prems xs obtain ds' idx' where
    IH: "enqueue_loop pv inn qs ?ds (d_next (ds ! x)) = Inr (ds', idx')" "length ds' = length ?ds"
      "path ds' (d_next (ds ! x)) r idx'" "path ds' idx' ys 0xffff" "qs \<noteq> [] \<longrightarrow> dchain ds' r"
      "described pv ds' r qs" "\<forall>i. i \<notin> set r \<longrightarrow> ds' ! i = ?ds ! i"
    by auto
  have dx: "ds' ! x = desc_for pv inn qs q (ds ! x)" using IH(7) Cons.prems xs x by auto
  have len: "length r = length qs" using Cons.prems xs by simp
  have "dchain ds' xs"
  proof (cases qs)
    case Nil
    then show ?thesis using xs dx len IH(2) x by simp
  next
    case (Cons q' qs')
    then obtain y r' where r: "r = y # r'" using len by (cases r) auto
    have "desc_for pv inn qs q (ds ! x) = ds' ! x" using dx by simp
    then have "d_flags (ds' ! x) AND VIRTQ_DESC_F_NEXT \<noteq> 0" using Cons by (metis desc_for_simps(4) list.distinct(1))
    then show ?thesis using xs r dx IH(2,3,5) Cons x by simp
  qed
  moreover have "described pv ds' xs (q # qs)" using IH(6) dx xs by (simp add: described_def)
  ultimately show ?case using IH x dx xs
    by (auto simp: enqueue_loop_Cons)
qed

lemma enqueue_loop_short:
  assumes "path ds idx xs 0xffff" "length xs < length qs" "distinct xs" "length ds \<le> 0xffff"
  shows "enqueue_loop pv inn qs ds idx = Inl (Panic ''no desc'')"
  using assms
proof (induction qs arbitrary: ds idx xs)
  case (Cons q qs)
  show ?case
  proof (cases xs)
    case Nil
    then show ?thesis using Cons.prems by (simp add: enqueue_loop_Cons)
  next
    case (Cons x r)
    have "path (ds[x := desc_for pv inn qs q (ds ! x)]) (d_next (ds ! x)) r 0xffff"
      by (rule path_cong [of ds]) (use Cons.prems Cons in \<open>auto simp: nth_list_update\<close>)
    then show ?thesis using Cons.IH [of _ _ r] Cons.prems Cons
      by (auto simp: enqueue_loop_Cons)
  qed
qed simp


section \<open>Every operation keeps the partition\<close>

lemma link_descs_nth:
  "length link_descs = 256" "i < 255 \<Longrightarrow> d_next (link_descs ! i) = of_nat (i + 1)" "d_next (link_descs ! 255) = 0xffff"
  by (auto simp: link_descs_def NQUEUE_def nth_append)

lemma link_descs_path: "i \<le> 255 \<Longrightarrow> path link_descs (of_nat i) [i..<256] 0xffff"
proof (induction i rule: inc_induct)
  case base
  then show ?case by (simp add: upt_rec [of 255] link_descs_nth)
next
  case (step n)
  then show ?case
    by (simp add: upt_rec [of n] link_descs_nth unat_of_nat take_bit_nat_eq_self)
qed

lemma virtq_create_ok: "virtq_create s q = Inr (vq, s') \<Longrightarrow> vq_ok pv vq [0..<256] []"
  using link_descs_path [of 0]
  by (auto simp: virtq_create_def bind_res_eq_Inr vq_ok_def vq_shape_def link_descs_nth NQUEUE_def split: if_splits)

lemma in_flight_cong:
  assumes "in_flight pv vq (c, x, qs)" "length (vdesc vq') = length (vdesc vq)"
    "\<forall>i \<in> set c. vdesc vq' ! i = vdesc vq ! i" "xdata vq' ! hd c = xdata vq ! hd c"
  shows "in_flight pv vq' (c, x, qs)"
  using assms dchain_cong [of "vdesc vq" c "vdesc vq'"]
  by (auto simp: in_flight_def described_def cong: map_cong)

lemma in_flight_nonempty: "in_flight pv vq (c, x, qs) \<Longrightarrow> c \<noteq> [] \<and> hd c \<in> set c \<and> last c \<in> set c"
  by (cases c) (auto simp: in_flight_def)

lemma member_of: "(c, y) \<in> set cs \<Longrightarrow> i \<in> set c \<Longrightarrow> i \<in> (\<Union>b \<in> set cs. set (fst b))"
  by force

lemma vq_ok_split:
  assumes "vq_ok pv vq fl (cs1 @ (c, x, qs) # cs2)"
  shows "in_flight pv vq (c, x, qs)" "distinct c" "distinct (c @ fl)" "set c \<subseteq> {..<NQUEUE}"
    "\<forall>(c', y) \<in> set (cs1 @ cs2). set c \<inter> set c' = {} \<and> in_flight pv vq (c', y)"
proof -
  have "distinct (concat (map fst (cs1 @ (c, x, qs) # cs2)))"
    using assms by (simp only: vq_ok_def distinct_append)
  then have "set c \<inter> (\<Union>b \<in> set cs1. set (fst b)) = {}" "set c \<inter> (\<Union>b \<in> set cs2. set (fst b)) = {}"
    by auto
  then have "\<forall>(c', y) \<in> set (cs1 @ cs2). set c \<inter> set c' = {}"
    using member_of by fastforce
  moreover have "\<forall>b \<in> set (cs1 @ cs2). in_flight pv vq b"
    using assms by (simp add: vq_ok_def)
  ultimately show "\<forall>(c', y) \<in> set (cs1 @ cs2). set c \<inter> set c' = {} \<and> in_flight pv vq (c', y)"
    by blast
qed (use assms in \<open>auto simp: vq_ok_def\<close>)

lemma heads_distinct:
  assumes "vq_ok pv vq fl (cs1 @ (c, x, qs) # cs2)"
  shows "\<forall>(c', y) \<in> set (cs1 @ cs2). hd c' \<noteq> hd c"
proof clarify
  fix c' y qs' assume b: "(c', y, qs') \<in> set (cs1 @ cs2)" "hd c' = hd c"
  have "set c \<inter> set c' = {}" "hd c \<in> set c" "hd c' \<in> set c'"
    using vq_ok_split [OF assms] b(1) in_flight_nonempty by blast+
  with b(2) show False by auto
qed

lemma partition_take:
  assumes "distinct (fl @ X)" "set (fl @ X) = S"
  shows "distinct (drop n fl @ take n fl @ X)" "set (drop n fl @ take n fl @ X) = S"
proof -
  have "distinct ((take n fl @ drop n fl) @ X)" "set ((take n fl @ drop n fl) @ X) = S"
    using assms by simp_all
  then show "distinct (drop n fl @ take n fl @ X)" "set (drop n fl @ take n fl @ X) = S"
    by (simp_all only: distinct_append set_append) blast+
qed

lemma partition_give:
  assumes "distinct (fl @ X @ c @ Y)" "set (fl @ X @ c @ Y) = S"
  shows "distinct ((c @ fl) @ X @ Y)" "set ((c @ fl) @ X @ Y) = S"
  using assms by (simp_all only: distinct_append set_append) blast+

lemma virtq_enqueue_ok:
  assumes ok: "vq_ok pv vq fl cs" and x: "x \<noteq> 0" and n: "qs \<noteq> []" "length qs \<le> length fl"
  shows "\<exists>vq'. virtq_enqueue pv vq qs x inn = Inr vq' \<and>
    vq_ok pv vq' (drop (length qs) fl) ((take (length qs) fl, x, qs) # cs) \<and>
    vused vq' = vused vq \<and> last_used_idx vq' = last_used_idx vq \<and> vq_sel vq' = vq_sel vq \<and>
    a_idx (vavail vq') = a_idx (vavail vq) + 1 \<and>
    a_ring (vavail vq') ! unat (a_idx (vavail vq) mod 256) = of_nat (hd fl)"
proof -
  let ?c = "take (length qs) fl" and ?r = "drop (length qs) fl"
  have sh: "length (vdesc vq) = 256" "length (xdata vq) = 256" "vnum vq = 256"
      "length (a_ring (vavail vq)) = 256" "length (us_ring (vused vq)) = 256"
    using ok by (auto simp: vq_ok_def vq_shape_def NQUEUE_def)
  have "path (vdesc vq) (free_head vq) (?c @ ?r) 0xffff" "distinct (?c @ ?r)"
    using ok by (auto simp: vq_ok_def)
  from enqueue_loop_takes [OF this(1) _ this(2), of qs pv inn] n(2) sh obtain ds idx where
    loop: "enqueue_loop pv inn qs (vdesc vq) (free_head vq) = Inr (ds, idx)" "length ds = length (vdesc vq)"
      "path ds (free_head vq) ?c idx" "path ds idx ?r 0xffff" "dchain ds ?c" "described pv ds ?c qs"
      "\<forall>i. i \<notin> set ?c \<longrightarrow> ds ! i = vdesc vq ! i"
    using n(1) by auto
  have h: "hd ?c = unat (free_head vq)" "hd fl = unat (free_head vq)" "unat (free_head vq) < 256"
    using loop(2,3) n sh by (cases fl; cases qs; auto)+
  have old: "\<forall>(c, y) \<in> set cs. set c \<inter> set fl = {} \<and> in_flight pv vq (c, y)"
    using ok by (auto simp: vq_ok_def) (blast dest: member_of)
  let ?vq = "vq\<lparr>vdesc := ds, xdata := (xdata vq)[unat (free_head vq) := x], free_head := idx,
      vavail := (vavail vq)\<lparr>a_ring := (a_ring (vavail vq))[unat (a_idx (vavail vq) mod 256) := free_head vq],
                            a_idx := a_idx (vavail vq) + 1\<rparr>\<rparr>"
  have "unat (a_idx (vavail vq) mod 256) < 256"
    by (simp add: unat_mod)
  moreover have "virtq_enqueue pv vq qs x inn = Inr ?vq"
    using x loop(1) h(3) sh by (simp add: virtq_enqueue_def Let_def)
  moreover have new: "in_flight pv ?vq (?c, x, qs)"
    using x loop(5,6) h sh by (simp add: in_flight_def)
  have kept: "in_flight pv ?vq (c, y, q)" if "(c, y, q) \<in> set cs" for c y q
  proof (rule in_flight_cong)
    show "in_flight pv vq (c, y, q)" using old that by auto
    then have "hd c \<in> set c" by (simp add: in_flight_nonempty)
    moreover have d: "set c \<inter> set fl = {}" using old that by auto
    ultimately have "hd c \<noteq> unat (free_head vq)"
      using h n by (metis disjoint_iff hd_in_set length_0_conv length_greater_0_conv less_le_trans not_less0)
    then show "xdata ?vq ! hd c = xdata vq ! hd c" by simp
    show "\<forall>i\<in>set c. vdesc ?vq ! i = vdesc vq ! i" using loop(7) d set_take_subset [of "length qs" fl] by auto
  qed (use loop in simp)
  have "\<forall>b \<in> set ((?c, x, qs) # cs). in_flight pv ?vq b"
    using new kept by auto
  moreover have "\<forall>i < NQUEUE. i \<notin> (hd \<circ> fst) ` set ((?c, x, qs) # cs) \<longrightarrow> xdata ?vq ! i = 0"
    using ok h(1) by (auto simp: vq_ok_def)
  ultimately have "vq_ok pv ?vq ?r ((?c, x, qs) # cs)"
    using ok partition_take [of fl "concat (map fst cs)"] loop(2,4) sh
    unfolding vq_ok_def vq_shape_def by (simp add: NQUEUE_def)
  with \<open>unat (a_idx (vavail vq) mod 256) < 256\<close> \<open>virtq_enqueue pv vq qs x inn = Inr ?vq\<close> show ?thesis
    using h(2) sh by (intro exI [of _ ?vq]) simp
qed

lemma virtq_enqueue_full:
  assumes "vq_ok pv vq fl cs" "x \<noteq> 0" "length fl < length qs"
  shows "virtq_enqueue pv vq qs x inn = Inl (Panic ''no desc'')"
  using assms enqueue_loop_short [of "vdesc vq" "free_head vq" fl qs]
  by (simp add: virtq_enqueue_def vq_ok_def vq_shape_def NQUEUE_def Let_def)

lemma virtq_dequeue_ok:
  assumes ok: "vq_ok pv vq fl (cs1 @ (c, x, qs) # cs2)" and "last_used_idx vq \<noteq> us_idx (vused vq)"
    and e: "us_ring (vused vq) ! unat (last_used_idx vq mod 256) = e" "unat (u_id e) = hd c"
  shows "\<exists>vq'. virtq_dequeue vq = Inr (x, u_len e, vq') \<and> vq_ok pv vq' (c @ fl) (cs1 @ cs2) \<and>
    vused vq' = vused vq \<and> last_used_idx vq' = last_used_idx vq + 1 \<and> vavail vq' = vavail vq \<and> vq_sel vq' = vq_sel vq"
proof -
  note sp = vq_ok_split [OF ok]
  have sh: "length (vdesc vq) = 256" "length (xdata vq) = 256" "vnum vq = 256"
      "length (a_ring (vavail vq)) = 256" "length (us_ring (vused vq)) = 256"
    using ok by (auto simp: vq_ok_def vq_shape_def NQUEUE_def)
  have c: "dchain (vdesc vq) c" "x \<noteq> 0" "xdata vq ! hd c = x" "c \<noteq> []" "hd c \<in> set c" "last c \<in> set c"
    using sp(1) in_flight_nonempty by (auto simp: in_flight_def)
  have lt: "hd c < 256" using c(5) sp(4) by (auto simp: NQUEUE_def)
  then have u: "unat (ucast (u_id e) :: u16) = hd c"
    using e(2) by (simp add: unsigned_ucast_eq take_bit_nat_eq_self)
  let ?ds = "(vdesc vq)[last c := (vdesc vq ! last c)\<lparr>d_next := free_head vq\<rparr>]"
  let ?vq = "vq\<lparr>xdata := (xdata vq)[hd c := 0], last_used_idx := last_used_idx vq + 1, vdesc := ?ds, free_head := ucast (u_id e)\<rparr>"
  have "virtq_free_chain (vq\<lparr>xdata := (xdata vq)[hd c := 0], last_used_idx := last_used_idx vq + 1\<rparr>) (ucast (u_id e)) = Inr ?vq"
    using virtq_free_chain_eq [OF _ u, of "vq\<lparr>xdata := (xdata vq)[hd c := 0], last_used_idx := last_used_idx vq + 1\<rparr>"] c(1)
    by simp
  then have run: "virtq_dequeue vq = Inr (x, u_len e, ?vq)"
    using assms(2) e c lt sh by (simp add: virtq_dequeue_def Let_def)
  have "path ?ds (ucast (u_id e)) (c @ fl) 0xffff"
    using path_freed [OF c(1) u sp(3)] ok by (simp add: vq_ok_def)
  moreover have "in_flight pv ?vq b" if "b \<in> set (cs1 @ cs2)" for b
  proof -
    obtain c' y q where b: "b = (c', y, q)" by (cases b)
    have d: "set c \<inter> set c' = {}" "in_flight pv vq (c', y, q)" using sp(5) that b by auto
    then have "hd c' \<in> set c'" using in_flight_nonempty by blast
    then have "hd c' \<noteq> hd c" "last c \<notin> set c'" using d(1) c(5,6) by auto
    then show ?thesis unfolding b
      by (intro in_flight_cong [OF d(2)]) (auto intro: nth_list_update_neq)
  qed
  moreover have "\<forall>i < NQUEUE. i \<notin> (hd \<circ> fst) ` set (cs1 @ cs2) \<longrightarrow> xdata ?vq ! i = 0"
    using ok sh lt by (auto simp: vq_ok_def nth_list_update)
  ultimately have "vq_ok pv ?vq (c @ fl) (cs1 @ cs2)"
    using ok sh partition_give [of fl "concat (map fst cs1)" c "concat (map fst cs2)"]
    unfolding vq_ok_def vq_shape_def by (simp add: NQUEUE_def)
  with run show ?thesis by (intro exI [of _ ?vq]) simp
qed

lemma virtq_dequeue_empty: "last_used_idx vq = us_idx (vused vq) \<Longrightarrow> virtq_dequeue vq = Inr (0, 0, vq)"
  by (simp add: virtq_dequeue_def)


section \<open>Runs of a queue\<close>

text \<open>
  A run interleaves the driver and the device in any order.  \<open>busy\<close> are the buffers in flight, each with the index
  of its first descriptor and its cookie; \<open>used\<close> are the completions the driver has not seen yet.  The device
  completes a buffer that is in flight, once.
\<close>

inductive vq_run :: "u64 \<Rightarrow> virtq \<Rightarrow> (nat \<times> u64 \<times> qlist list) list \<Rightarrow> (nat \<times> u32) list \<Rightarrow> bool" for pv where
  create: "virtq_create s q = Inr (vq, s') \<Longrightarrow> vq_run pv vq [] []"
| enqueue: "vq_run pv vq busy used \<Longrightarrow> qs \<noteq> [] \<Longrightarrow> virtq_enqueue pv vq qs x inn = Inr vq' \<Longrightarrow>
    vq_run pv vq' ((unat (free_head vq), x, qs) # busy) used"
| device: "vq_run pv vq busy used \<Longrightarrow> h \<in> fst ` set busy \<Longrightarrow> h \<notin> fst ` set used \<Longrightarrow>
    vq_run pv (device_used vq (of_nat h) n) busy (used @ [(h, n)])"
| dequeue: "vq_run pv vq busy ((h, n) # used) \<Longrightarrow> virtq_dequeue vq = Inr (x, m, vq') \<Longrightarrow>
    vq_run pv vq' (filter (\<lambda>b. fst b \<noteq> h) busy) used"

definition used_ok :: "virtq \<Rightarrow> (nat \<times> u32) list \<Rightarrow> bool" where
  "used_ok vq used \<longleftrightarrow>
     us_idx (vused vq) = last_used_idx vq + of_nat (length used) \<and>
     (\<forall>k < length used. us_ring (vused vq) ! unat ((last_used_idx vq + of_nat k) mod 256) =
        \<lparr>u_id = of_nat (fst (used ! k)), u_len = snd (used ! k)\<rparr>)"

definition heads :: "flight \<Rightarrow> (nat \<times> u64 \<times> qlist list) list" where
  "heads cs = map (\<lambda>(c, y). (hd c, y)) cs"

definition vq_inv :: "u64 \<Rightarrow> virtq \<Rightarrow> (nat \<times> u64 \<times> qlist list) list \<Rightarrow> (nat \<times> u32) list \<Rightarrow> bool" where
  "vq_inv pv vq busy used \<longleftrightarrow>
     (\<exists>fl cs. vq_ok pv vq fl cs \<and> busy = heads cs) \<and> used_ok vq used \<and>
     distinct (map fst used) \<and> fst ` set used \<subseteq> fst ` set busy"

lemma busy_bound: "vq_ok pv vq fl cs \<Longrightarrow> h \<in> fst ` set (heads cs) \<Longrightarrow> h < 256"
proof -
  assume ok: "vq_ok pv vq fl cs" and "h \<in> fst ` set (heads cs)"
  then obtain c x qs where b: "(c, x, qs) \<in> set cs" "h = hd c" by (auto simp: heads_def)
  obtain cs1 cs2 where "cs = cs1 @ (c, x, qs) # cs2" using split_list [OF b(1)] by blast
  with vq_ok_split [of pv vq fl cs1 c x qs cs2] ok show ?thesis
    using in_flight_nonempty b(2) by (fastforce simp: NQUEUE_def)
qed

lemma indices_bound: "distinct (map fst xs) \<Longrightarrow> fst ` set xs \<subseteq> {..<256 :: nat} \<Longrightarrow> length xs \<le> 256"
  using distinct_card [of "map fst xs"] card_mono [of "{..<256 :: nat}" "fst ` set xs"] by simp

lemma vq_inv_bound: "vq_inv pv vq busy used \<Longrightarrow> fst ` set busy \<subseteq> {..<256}"
  using busy_bound unfolding vq_inv_def by blast

lemma used_short:
  assumes "vq_inv pv vq busy used" "h \<in> fst ` set busy" "h \<notin> fst ` set used"
  shows "length used < 256"
proof -
  have "length ((h, n) # used) \<le> 256" for n
    using assms vq_inv_bound [OF assms(1)] unfolding vq_inv_def
    by (intro indices_bound) (simp_all, blast)
  then show ?thesis by simp
qed

lemma unat16_mod256: "unat ((a + of_nat k :: u16) mod 256) = (unat a + k) mod 256"
proof -
  have "(256 :: nat) dvd 65536" by simp
  then show ?thesis
    by (simp add: unat_mod unat_word_ariths unat_of_nat take_bit_nat_def mod_mod_cancel mod_add_right_eq)
qed

lemma ring_slots: "i < j \<Longrightarrow> j < 256 \<Longrightarrow> unat ((a + of_nat i :: u16) mod 256) \<noteq> unat ((a + of_nat j) mod 256)"
proof
  assume ij: "i < j" "j < 256" and "unat ((a + of_nat i :: u16) mod 256) = unat ((a + of_nat j) mod 256)"
  then have "(unat a + i) mod 256 = (unat a + j) mod 256" by (simp only: unat16_mod256)
  then have "(256 :: nat) dvd (unat a + j) - (unat a + i)" by (metis mod_eq_dvd_iff_nat ij(1) add_le_mono1 add_left_mono less_imp_le)
  then show False using ij by (auto dest: dvd_imp_le)
qed

lemma device_used_ok:
  assumes "used_ok vq used" "length used < 256" "vnum vq = 256" "length (us_ring (vused vq)) = 256" "h < 256"
  shows "used_ok (device_used vq (of_nat h) n) (used @ [(h, n)])"
proof -
  have slot: "unat (us_idx (vused vq) mod 256) = unat ((last_used_idx vq + of_nat (length used)) mod 256)"
    "unat (us_idx (vused vq) mod 256) < 256"
    using assms(1) by (simp_all add: used_ok_def unat_mod)
  then show ?thesis
    using assms ring_slots [of _ "length used" "last_used_idx vq"]
    by (auto simp: used_ok_def device_used_def nth_append nth_list_update Let_def less_Suc_eq) metis+
qed

lemma used_ok_tl:
  "used_ok vq (u # used) \<Longrightarrow> vused vq' = vused vq \<Longrightarrow> last_used_idx vq' = last_used_idx vq + 1 \<Longrightarrow> used_ok vq' used"
  by (auto simp: used_ok_def add.assoc [symmetric] dest: spec [of _ "Suc _"])


lemma vq_ok_device: "vq_ok pv vq fl cs \<Longrightarrow> vq_ok pv (device_used vq d n) fl cs"
  by (simp add: vq_ok_def vq_shape_def device_used_def in_flight_def Let_def)

lemma vq_inv_enqueue:
  assumes inv: "vq_inv pv vq busy used" and "qs \<noteq> []" and run: "virtq_enqueue pv vq qs x inn = Inr vq'"
  shows "vq_inv pv vq' ((unat (free_head vq), x, qs) # busy) used"
proof -
  obtain fl cs where ok: "vq_ok pv vq fl cs" "busy = heads cs" using inv by (auto simp: vq_inv_def)
  have x: "x \<noteq> 0" using run by (auto simp: virtq_enqueue_def)
  then have le: "length qs \<le> length fl"
    using virtq_enqueue_full [OF ok(1)] run by (cases "length fl < length qs") auto
  have "hd fl = unat (free_head vq)"
    using ok(1) le assms(2) by (cases fl) (auto simp: vq_ok_def)
  moreover have "hd (take (length qs) fl) = hd fl" using assms(2) by simp
  moreover obtain "vq_ok pv vq' (drop (length qs) fl) ((take (length qs) fl, x, qs) # cs)"
      "vused vq' = vused vq" "last_used_idx vq' = last_used_idx vq"
    using virtq_enqueue_ok [OF ok(1) x assms(2) le, of inn] run by auto
  moreover have "used_ok vq' used"
    using inv calculation by (simp add: vq_inv_def used_ok_def)
  ultimately show ?thesis using inv ok(2)
    unfolding vq_inv_def by (auto simp: heads_def intro!: exI [of _ "drop (length qs) fl"] exI [of _ "(take (length qs) fl, x, qs) # cs"])
qed

lemma used_pending:
  assumes "used_ok vq used" "used \<noteq> []" "length used \<le> 256"
  shows "last_used_idx vq \<noteq> us_idx (vused vq)"
proof -
  have "unat (of_nat (length used) :: u16) = length used"
    using assms(3) by (simp add: unat_of_nat take_bit_nat_eq_self)
  then have "(of_nat (length used) :: u16) \<noteq> 0" using assms(2) by (metis length_0_conv unat_0)
  then show ?thesis using assms(1) by (simp add: used_ok_def)
qed

lemma vq_inv_dequeue:
  assumes inv: "vq_inv pv vq busy ((h, n) # used)"
  shows "\<exists>x qs vq'. (h, x, qs) \<in> set busy \<and> virtq_dequeue vq = Inr (x, n, vq') \<and>
    vq_inv pv vq' (filter (\<lambda>b. fst b \<noteq> h) busy) used"
proof -
  obtain fl cs where ok: "vq_ok pv vq fl cs" "busy = heads cs" using inv by (auto simp: vq_inv_def)
  then have "h \<in> fst ` set (heads cs)" using inv by (simp add: vq_inv_def)
  then obtain c x qs where "h = hd c" "(c, x, qs) \<in> set cs" by (auto simp: heads_def)
  then obtain cs1 cs2 where b: "h = hd c" "cs = cs1 @ (c, x, qs) # cs2" by (meson split_list)
  have rest: "heads (cs1 @ cs2) = filter (\<lambda>b. fst b \<noteq> h) busy"
    using heads_distinct [of pv vq fl cs1 c x qs cs2] ok b
    by (auto simp: heads_def filter_map o_def filter_id_conv split_def intro!: arg_cong2 [where f = "(@)"])
  have "h < 256" using vq_inv_bound [OF inv] inv by (auto simp: vq_inv_def)
  then have "unat (of_nat h :: u32) = h" by (simp add: unat_of_nat take_bit_nat_eq_self)
  moreover have uo: "used_ok vq ((h, n) # used)" and dis: "distinct (map fst ((h, n) # used))"
    and sub: "fst ` set ((h, n) # used) \<subseteq> fst ` set busy"
    using inv unfolding vq_inv_def by blast+
  moreover have "length ((h, n) # used) \<le> 256"
    by (rule indices_bound [OF dis]) (use sub vq_inv_bound [OF inv] in blast)
  moreover have "us_ring (vused vq) ! unat (last_used_idx vq mod 256) = \<lparr>u_id = of_nat h, u_len = n\<rparr>"
    using uo by (force simp: used_ok_def)
  ultimately obtain vq' where "virtq_dequeue vq = Inr (x, n, vq')" "vq_ok pv vq' (c @ fl) (cs1 @ cs2)"
      "vused vq' = vused vq" "last_used_idx vq' = last_used_idx vq + 1"
    using virtq_dequeue_ok [of pv vq fl cs1 c x qs cs2] ok b used_pending by fastforce
  moreover have "fst ` set used \<subseteq> fst ` set (filter (\<lambda>b. fst b \<noteq> h) busy)"
  proof
    fix i assume i: "i \<in> fst ` set used"
    then have "i \<noteq> h" "i \<in> fst ` set busy" using dis sub i by (simp_all only: list.map distinct.simps fst_conv set_map) (blast, auto)
    then show "i \<in> fst ` set (filter (\<lambda>b. fst b \<noteq> h) busy)" by auto
  qed
  moreover have "distinct (map fst used)" using dis by simp
  moreover have "(h, x, qs) \<in> set busy" using ok b by (simp add: heads_def)
  ultimately show ?thesis using used_ok_tl [OF uo] rest unfolding vq_inv_def by metis
qed

lemma vq_run_inv: "vq_run pv vq busy used \<Longrightarrow> vq_inv pv vq busy used"
proof (induction rule: vq_run.induct)
  case (create s q vq s')
  then show ?case using virtq_create_ok [OF create, of pv]
    by (auto simp: vq_inv_def heads_def used_ok_def virtq_create_def bind_res_eq_Inr split: if_splits intro!: exI)
next
  case (enqueue vq busy used qs x inn vq')
  then show ?case using vq_inv_enqueue by blast
next
  case (device vq busy used h n)
  have "h < 256" using vq_inv_bound [OF device.IH] device.hyps by blast
  moreover have "used_ok vq used" "vnum vq = 256" "length (us_ring (vused vq)) = 256"
    using device.IH unfolding vq_inv_def vq_ok_def vq_shape_def NQUEUE_def by (blast, force, blast)
  ultimately have "used_ok (device_used vq (of_nat h) n) (used @ [(h, n)])"
    using used_short [OF device.IH device.hyps(2,3)] by (intro device_used_ok)
  moreover obtain fl cs where ok: "vq_ok pv vq fl cs" "busy = heads cs"
    using device.IH unfolding vq_inv_def by blast
  moreover note vq_ok_device [OF ok(1)]
  moreover have "distinct (map fst (used @ [(h, n)]))" "fst ` set (used @ [(h, n)]) \<subseteq> fst ` set busy"
    using device.IH device.hyps(2,3) by (simp_all add: vq_inv_def)
  ultimately show ?case unfolding vq_inv_def by blast
next
  case (dequeue vq busy h n used x m vq')
  then show ?case using vq_inv_dequeue [OF dequeue.IH] by auto
qed


lemma descriptors_counted:
  assumes ok: "vq_ok pv vq fl cs"
  shows "length fl + sum_list (map (length \<circ> snd \<circ> snd) (heads cs)) = 256"
proof -
  have "length (fl @ concat (map fst cs)) = card {..<NQUEUE}"
    using ok distinct_card [of "fl @ concat (map fst cs)"] by (simp add: vq_ok_def)
  moreover have "map (length \<circ> fst) cs = map (length \<circ> snd \<circ> snd) (heads cs)"
  proof -
    have "length c = length qs" if "(c, x, qs) \<in> set cs" for c x qs
    proof -
      have "in_flight pv vq (c, x, qs)" using ok that by (simp add: vq_ok_def)
      then show ?thesis using map_eq_imp_length_eq by (fastforce simp: in_flight_def described_def)
    qed
    then show ?thesis unfolding heads_def list.map_comp by (intro map_cong) auto
  qed
  ultimately show ?thesis by (simp add: length_concat NQUEUE_def)
qed

lemma enqueue_capacity:
  assumes "vq_inv pv vq busy used" "x \<noteq> 0" "qs \<noteq> []"
  shows "if sum_list (map (length \<circ> snd \<circ> snd) busy) + length qs \<le> 256
    then \<exists>vq'. virtq_enqueue pv vq qs x inn = Inr vq' else virtq_enqueue pv vq qs x inn = Inl (Panic ''no desc'')"
proof -
  obtain fl cs where "vq_ok pv vq fl cs" "busy = heads cs" using assms(1) by (auto simp: vq_inv_def)
  with descriptors_counted [of pv vq fl cs] show ?thesis
    using virtq_enqueue_ok [of pv vq fl cs x qs inn] virtq_enqueue_full [of pv vq fl cs x qs inn] assms(2,3) by auto
qed

lemma alloc_page_room:
  assumes "zone_free s A" "n + PAGESIZE \<le> card A"
  shows "\<exists>p s'. alloc_page s = Inr (p, s') \<and> p \<noteq> 0 \<and> zone_free s' (A - block p 0) \<and> n \<le> card (A - block p 0)"
proof -
  obtain p s' where r: "alloc_page s = Inr (p, s')" using pa.alloc_returns [OF assms(1)] by blast
  note z = zone_free_alloc [OF assms(1) r]
  have "p \<noteq> 0" using z(1) assms(2) by (auto simp: PAGESIZE_def)
  moreover have "card (block p 0) = PAGESIZE" by (simp add: block_def block_size_def)
  moreover have "block p 0 \<subseteq> A" "zone_free s' (A - block p 0)" using z(2) calculation(1) by blast+
  ultimately show ?thesis using r assms(2) card_Diff_subset [of "block p 0" A] by (auto simp: block_def)
qed

lemma virtq_create_returns:
  assumes "zone_free s A" "4 * PAGESIZE \<le> card A"
  shows "\<exists>vq s'. virtq_create s q = Inr (vq, s')"
proof -
  obtain p0 s0 where 0: "alloc_page s = Inr (p0, s0)" "p0 \<noteq> 0" "zone_free s0 (A - block p0 0)" "3 * PAGESIZE \<le> card (A - block p0 0)"
    using alloc_page_room [OF assms(1), of "3 * PAGESIZE"] assms(2) by auto
  obtain p1 s1 where 1: "alloc_page s0 = Inr (p1, s1)" "p1 \<noteq> 0" "zone_free s1 (A - block p0 0 - block p1 0)"
    using alloc_page_room [OF 0(3), of "2 * PAGESIZE"] 0(4) by auto
  obtain p2 s2 where 2: "alloc_page s1 = Inr (p2, s2)" using pa.alloc_returns [OF 1(3)] by blast
  have "\<exists>A. zone_free s2 A" using zone_free_alloc(1,2) [OF 1(3) 2] 1(3) by blast
  then obtain p3 s3 where "alloc_page s2 = Inr (p3, s3)" using pa.alloc_returns by blast
  with 0 1 2 show ?thesis by (simp add: virtq_create_def)
qed


section \<open>Properties\<close>

text \<open>
  C35.  In every run of a queue, however the driver and the device interleave, the buffers in flight have
  disjoint chains of descriptors that describe exactly the parts the driver gave, and all other descriptors
  are on the free list.  The next buffer the driver takes out is the one the device completed first, with
  its cookie and the length the device reported; taking it out neither panics nor loops.
\<close>

theorem virtq_completions:
  assumes "vq_run pv vq busy ((h, n) # used)"
  shows "\<exists>fl cs x qs vq'. vq_ok pv vq fl cs \<and> heads cs = busy \<and> (h, x, qs) \<in> set busy \<and>
     virtq_dequeue vq = Inr (x, n, vq')"
proof -
  have inv: "vq_inv pv vq busy ((h, n) # used)" by (rule vq_run_inv [OF assms])
  then obtain fl cs where "vq_ok pv vq fl cs" "heads cs = busy" by (auto simp: vq_inv_def)
  with vq_inv_dequeue [OF inv] show ?thesis by blast
qed

lemma one_block_pages: "zone_free one_block_zone (free_area one_block)" "4 * PAGESIZE \<le> card (free_area one_block)"
proof -
  show "zone_free one_block_zone (free_area one_block)" using one_block_inv by (auto simp: zone_free_def)
  have "free_area one_block = block 0xc0200000 9" by (auto simp: free_area_def one_block_def MAX_ORDER_def)
  then show "4 * PAGESIZE \<le> card (free_area one_block)" by (simp add: block_def block_size_def PAGESIZE_def)
qed

text \<open>A queue with one buffer of two parts, which the device has completed.\<close>

theorem virtq_completions_witness:
  "\<exists>vq x qs vq'. vq_run 0 vq [(0, 7, [\<lparr>q_buf = 0xc0300000, q_len = 8\<rparr>, \<lparr>q_buf = 0xc0301000, q_len = 9\<rparr>])] [(0, 17)] \<and>
     (0, x, qs) \<in> set [(0 :: nat, 7, [\<lparr>q_buf = 0xc0300000, q_len = 8\<rparr>, \<lparr>q_buf = 0xc0301000, q_len = 9\<rparr>])] \<and>
     virtq_dequeue vq = Inr (x, 17, vq')"
proof -
  let ?qs = "[\<lparr>q_buf = 0xc0300000, q_len = 8\<rparr>, \<lparr>q_buf = 0xc0301000, q_len = 9\<rparr>]"
  obtain vq s where c: "virtq_create one_block_zone 0 = Inr (vq, s)"
    using virtq_create_returns [OF one_block_pages] by blast
  have run: "vq_run 0 vq [] []" by (rule vq_run.create [OF c])
  have z: "free_head vq = 0" using c by (auto simp: virtq_create_def bind_res_eq_Inr split: if_splits)
  obtain vq1 where e: "virtq_enqueue 0 vq ?qs 7 True = Inr vq1"
    using enqueue_capacity [OF vq_run_inv [OF run], of 7 ?qs True] by auto
  have "vq_run 0 vq1 [(0, 7, ?qs)] []" using vq_run.enqueue [OF run _ e] z by simp
  from vq_run.device [OF this, of 0 17] have "vq_run 0 (device_used vq1 0 17) [(0, 7, ?qs)] [(0, 17)]" by simp
  with virtq_completions [OF this] show ?thesis by blast
qed

text \<open>
  A chain is added exactly when the table has enough descriptors left, counting those of the buffers
  in flight; otherwise the hypervisor panics.
\<close>

lemma virtq_capacity:
  assumes "vq_run pv vq busy used" and "x \<noteq> 0" and "qs \<noteq> []"
  shows "if sum_list (map (length \<circ> snd \<circ> snd) busy) + length qs \<le> NQUEUE
    then \<exists>vq'. virtq_enqueue pv vq qs x inn = Inr vq' else virtq_enqueue pv vq qs x inn = Inl (Panic ''no desc'')"
  using enqueue_capacity [OF vq_run_inv [OF assms(1)] assms(2,3)] by (simp add: NQUEUE_def)

lemma virtq_capacity_witness:
  "\<exists>vq. vq_run 0 vq [] [] \<and> virtq_enqueue 0 vq (replicate 257 \<lparr>q_buf = 0xc0300000, q_len = 8\<rparr>) 7 True = Inl (Panic ''no desc'')"
proof -
  obtain vq s where c: "virtq_create one_block_zone 0 = Inr (vq, s)"
    using virtq_create_returns [OF one_block_pages] by blast
  have run: "vq_run 0 vq [] []" by (rule vq_run.create [OF c])
  show ?thesis
    using virtq_capacity [OF run, of 7 "replicate 257 \<lparr>q_buf = 0xc0300000, q_len = 8\<rparr>" True] run
    by (auto simp: NQUEUE_def)
qed

end
