(* ===== verification/Net.thy ===== *)
theory Net
  imports Heap_View Virtq
begin

text \<open>
  The network path between a message and the wire: the buffers of \<^verbatim>\<open>drivers/net.c\<close>, the Ethernet layer of
  \<^verbatim>\<open>drivers/ethernet.c\<close>, the part of \<^verbatim>\<open>core/msg.c\<close> that builds and takes apart frames and the driver
  \<^verbatim>\<open>drivers/virtio/virtio-net.c\<close>.  Buffers are allocated with the model of \<^verbatim>\<open>malloc\<close> and of the page
  allocator; their bytes are in the same memory.  The structures \<^verbatim>\<open>struct iobuf\<close> are records in a table
  indexed by their addresses, the virtqueues are those of \<open>Virtq\<close>.
\<close>

section \<open>Buffers\<close>

record iobuf =
  ib_head :: u64
  ib_data :: u64
  ib_tail :: u64
  ib_eth :: u64
  ib_body :: u64
  ib_len :: u32
  ib_body_len :: u32
  ib_npages :: nat

record net_state =
  nheap :: heap_state
  iobufs :: "u64 \<Rightarrow> iobuf"

definition nmem :: "net_state \<Rightarrow> heap" where
  "nmem ns = mem (zone (nheap ns))"

definition set_mem :: "heap \<Rightarrow> net_state \<Rightarrow> net_state" where
  "set_mem h ns = ns\<lparr>nheap := (nheap ns)\<lparr>zone := (zone (nheap ns))\<lparr>mem := h\<rparr>\<rparr>\<rparr>"

definition set_buf :: "u64 \<Rightarrow> iobuf \<Rightarrow> net_state \<Rightarrow> net_state" where
  "set_buf p b ns = ns\<lparr>iobufs := (iobufs ns)(p := b)\<rparr>"

text \<open>\<^verbatim>\<open>sizeof(struct iobuf)\<close>\<close>

definition SIZEOF_IOBUF :: nat where
  "SIZEOF_IOBUF = 56"

text \<open>\<^verbatim>\<open>fls\<close> is the number of significant bits.\<close>

fun fls :: "nat \<Rightarrow> nat" where
  "fls n = (if n = 0 then 0 else Suc (fls (n div 2)))"

declare fls.simps [simp del]

definition ilog2 :: "nat \<Rightarrow> nat" where
  "ilog2 n = fls n - 1"

definition new_iobuf :: "u64 \<Rightarrow> u32 \<Rightarrow> u32 \<Rightarrow> nat \<Rightarrow> iobuf" where
  "new_iobuf hd_ptr sz headsize npages =
     \<lparr>ib_head = hd_ptr, ib_data = hd_ptr + ucast headsize, ib_tail = hd_ptr + ucast sz, ib_eth = 0, ib_body = 0,
      ib_len = sz - headsize, ib_body_len = 0, ib_npages = npages\<rparr>"

definition alloc_iobuf_pages :: "net_state \<Rightarrow> u32 \<Rightarrow> u32 \<Rightarrow> (u64 \<times> net_state) res" where
  "alloc_iobuf_pages ns sz headsize =
     (let npages = unat sz div PAGESIZE
      in bind_res (malloc (nheap ns) SIZEOF_IOBUF) (\<lambda>(buf, hs1).
           if buf = 0 then Inr (0, ns\<lparr>nheap := hs1\<rparr>)
           else bind_res (alloc_pages (zone hs1) (int (ilog2 npages))) (\<lambda>(hd_ptr, z).
             let ns1 = ns\<lparr>nheap := hs1\<lparr>zone := z\<rparr>\<rparr>
             in if hd_ptr = 0 then Inr (0, ns1) else Inr (buf, set_buf buf (new_iobuf hd_ptr sz headsize npages) ns1))))"

definition alloc_iobuf_headsize :: "net_state \<Rightarrow> u32 \<Rightarrow> u32 \<Rightarrow> (u64 \<times> net_state) res" where
  "alloc_iobuf_headsize ns sz headsize =
     (if sz < headsize then Inr (0, ns)
      else if unat sz \<ge> PAGESIZE then alloc_iobuf_pages ns sz headsize
      else bind_res (malloc (nheap ns) SIZEOF_IOBUF) (\<lambda>(buf, hs1).
        if buf = 0 then Inr (0, ns\<lparr>nheap := hs1\<rparr>)
        else bind_res (malloc hs1 (unat sz)) (\<lambda>(hd_ptr, hs2).
          let ns1 = ns\<lparr>nheap := hs2\<rparr>
          in if hd_ptr = 0 then Inr (0, ns1) else Inr (buf, set_buf buf (new_iobuf hd_ptr sz headsize 0) ns1))))"

definition alloc_iobuf :: "net_state \<Rightarrow> u32 \<Rightarrow> (u64 \<times> net_state) res" where
  "alloc_iobuf ns sz = alloc_iobuf_headsize ns sz 0"

definition free_iobuf :: "net_state \<Rightarrow> u64 \<Rightarrow> net_state res" where
  "free_iobuf ns buf =
     (if buf = 0 then Inl (Panic ''assert buf'')
      else
        let b = iobufs ns buf; hs = nheap ns
        in bind_res
             (if ib_npages b \<noteq> 0
              then bind_res (free_pages (zone hs) (ib_head b) (int (ilog2 (ib_npages b)))) (\<lambda>z. Inr (hs\<lparr>zone := z\<rparr>))
              else free hs (ib_head b))
             (\<lambda>hs1. bind_res
                (if ib_body b \<noteq> 0 then bind_res (free_page (zone hs1) (ib_body b)) (\<lambda>z. Inr (hs1\<lparr>zone := z\<rparr>)) else Inr hs1)
                (\<lambda>hs2. bind_res (free hs2 buf) (\<lambda>hs3. Inr (ns\<lparr>nheap := hs3\<rparr>)))))"

definition iobuf_set_len :: "net_state \<Rightarrow> u64 \<Rightarrow> u32 \<Rightarrow> net_state" where
  "iobuf_set_len ns buf n = set_buf buf ((iobufs ns buf)\<lparr>ib_len := n\<rparr>) ns"

definition iobuf_push :: "net_state \<Rightarrow> u64 \<Rightarrow> u32 \<Rightarrow> u64 \<times> net_state" where
  "iobuf_push ns buf sz =
     (let b = iobufs ns buf; d = ib_data b - ucast sz
      in if d < ib_head b then (0, ns) else (d, set_buf buf (b\<lparr>ib_data := d, ib_len := ib_len b + sz\<rparr>) ns))"

definition iobuf_pull :: "net_state \<Rightarrow> u64 \<Rightarrow> u32 \<Rightarrow> u64 \<times> net_state" where
  "iobuf_pull ns buf sz =
     (let b = iobufs ns buf; d = ib_data b + ucast sz
      in if d \<ge> ib_tail b then (0, ns) else (ib_data b, set_buf buf (b\<lparr>ib_data := d, ib_len := ib_len b - sz\<rparr>) ns))"

section \<open>Ethernet\<close>

definition bcast_mac :: "u8 list" where
  "bcast_mac = replicate 6 0xff"

definition zeromac :: "u8 list" where
  "zeromac = replicate 6 0"

definition SIZEOF_ETHERHEADER :: u32 where
  "SIZEOF_ETHERHEADER = 14"

text \<open>
  Copies between memory and an object that is a value in the model, such as the address of a node:
  the bytes of the object are stored at, or loaded from, an address.
\<close>

fun store_bytes :: "u64 \<Rightarrow> u8 list \<Rightarrow> heap \<Rightarrow> heap" where
  "store_bytes a [] h = h"
| "store_bytes a (b # bs) h = store_bytes (a + 1) bs (store8 h a b)"

definition load_bytes :: "heap \<Rightarrow> u64 \<Rightarrow> nat \<Rightarrow> u8 list" where
  "load_bytes h a n = map (\<lambda>i. load8 h (a + of_nat i)) [0..<n]"

definition u16_bytes :: "u16 \<Rightarrow> u8 list" where
  "u16_bytes w = [ucast w, ucast (drop_bit 8 w)]"

text \<open>The frame is handed to the driver by \<open>xmit\<close>, the function in the operations of the network device.\<close>

definition ether_send_packet ::
    "('d \<Rightarrow> net_state \<Rightarrow> u64 \<Rightarrow> ('d \<times> net_state) res) \<Rightarrow> u8 list \<Rightarrow> 'd \<Rightarrow> net_state \<Rightarrow> u8 list \<Rightarrow> u16 \<Rightarrow> u64 \<Rightarrow>
       ('d \<times> net_state) res" where
  "ether_send_packet xmit mymac dev ns dst_mac type buf =
     (let (eth, ns1) = iobuf_push ns buf SIZEOF_ETHERHEADER
      in if eth = 0 then Inl (Panic ''eth'')
         else
           let h1 = store_bytes eth dst_mac (nmem ns1);
               h2 = store_bytes (eth + 6) mymac h1;
               h3 = store_bytes (eth + 12) (u16_bytes type) h2;
               ns2 = set_mem h3 ns1
           in xmit dev (set_buf buf ((iobufs ns2 buf)\<lparr>ib_eth := eth\<rparr>) ns2) buf)"

section \<open>Messages\<close>

text \<open>A received \<^verbatim>\<open>struct msg\<close>: the header is in the frame, the body in a page of its own.\<close>

record raw_msg =
  rm_hdr :: u64
  rm_body :: u64
  rm_body_len :: u32
  rm_data :: u64

definition SIZEOF_MSG :: nat where
  "SIZEOF_MSG = 48"

text \<open>
  The first half of \<^verbatim>\<open>msg_recv\<close>, up to the choice of the CPU, which is \<open>msg_recv\<close> of the theory of messages.
  Neither allocation is checked; a null pointer is written through in both cases.
\<close>

definition msg_recv_frame :: "net_state \<Rightarrow> u64 \<Rightarrow> (u64 \<times> raw_msg \<times> net_state) res" where
  "msg_recv_frame ns buf =
     bind_res (malloc (nheap ns) SIZEOF_MSG) (\<lambda>(msg, hs1).
       if msg = 0 then Inl (Undefined ''msg'')
       else
         let b = iobufs ns buf; ns1 = ns\<lparr>nheap := hs1\<rparr>;
             (bdy, blen) = (if ib_len b > 64 then (ib_data b + 50, ib_len b - 54)
                            else if ib_body b \<noteq> 0 then (ib_body b, ib_body_len b) else (0, 0))
         in if bdy = 0 then Inr (msg, \<lparr>rm_hdr = ib_data b, rm_body = 0, rm_body_len = 0, rm_data = buf\<rparr>, ns1)
            else bind_res (alloc_page (zone hs1)) (\<lambda>(pg, z).
              if pg = 0 then Inl (Undefined ''body'')
              else
                let ns2 = ns1\<lparr>nheap := hs1\<lparr>zone := z\<lparr>mem := memcpy pg bdy (unat blen) (mem z)\<rparr>\<rparr>\<rparr>
                in Inr (msg, \<lparr>rm_hdr = ib_data b, rm_body = pg, rm_body_len = blen, rm_data = buf\<rparr>, ns2)))"

definition msg_free :: "net_state \<Rightarrow> u64 \<Rightarrow> raw_msg \<Rightarrow> net_state res" where
  "msg_free ns msg m =
     (if msg = 0 then Inl (Panic ''assert msg'')
      else bind_res (free_iobuf ns (rm_data m)) (\<lambda>ns1. bind_res (free (nheap ns1) msg) (\<lambda>hs. Inr (ns1\<lparr>nheap := hs\<rparr>))))"

text \<open>\<open>None\<close>: the frame was not a message for this node and its buffer was freed.\<close>

definition ethernet_recv_intr :: "u8 list \<Rightarrow> net_state \<Rightarrow> u64 \<Rightarrow> ((u64 \<times> raw_msg) option \<times> net_state) res" where
  "ethernet_recv_intr nic_mac ns buf =
     (let (eth, ns1) = iobuf_pull ns buf SIZEOF_ETHERHEADER
      in if eth = 0 then Inl (Undefined ''eth'')
         else
           let ns2 = set_buf buf ((iobufs ns1 buf)\<lparr>ib_eth := eth\<rparr>) ns1;
               dst = load_bytes (nmem ns2) eth 6
           in if (dst = bcast_mac \<or> dst = nic_mac) \<and> load8 (nmem ns2) (eth + 12) = 0x19
              then bind_res (msg_recv_frame ns2 buf) (\<lambda>(p, m, ns3). Inr (Some (p, m), ns3))
              else if dst \<noteq> bcast_mac \<and> dst \<noteq> nic_mac \<and> dst = zeromac then Inl (Panic ''packet from hell!'')
              else bind_res (free_iobuf ns2 buf) (\<lambda>ns3. Inr (None, ns3)))"

text \<open>The body of a message, in a page of its own.\<close>

definition attach_body :: "net_state \<Rightarrow> u64 \<Rightarrow> u8 list option \<Rightarrow> net_state res" where
  "attach_body ns buf bdy =
     (case bdy of
        None \<Rightarrow> Inr ns
      | Some bs \<Rightarrow>
          bind_res (alloc_page (zone (nheap ns))) (\<lambda>(pg, z).
            if pg = 0 then Inl (Undefined ''body'')
            else
              let ns3 = ns\<lparr>nheap := (nheap ns)\<lparr>zone := z\<rparr>\<rparr>; ns4 = set_mem (store_bytes pg bs (nmem ns3)) ns3
              in Inr (set_buf buf ((iobufs ns4 buf)\<lparr>ib_body := pg, ib_body_len := of_nat (length bs)\<rparr>) ns4)))"

text \<open>
  The sending half of \<^verbatim>\<open>__send_msg\<close>.  \<open>hdr\<close> and \<open>bdy\<close> are the bytes of the header structure and of the body, if
  there is one; \<open>type\<close> is the message type, \<open>dst_mac\<close> the address of the destination or the broadcast address.
\<close>

definition send_msg_frame ::
    "('d \<Rightarrow> net_state \<Rightarrow> u64 \<Rightarrow> ('d \<times> net_state) res) \<Rightarrow> u8 list \<Rightarrow> 'd \<Rightarrow> net_state \<Rightarrow> u8 list \<Rightarrow> u16 \<Rightarrow> u8 list \<Rightarrow>
       u8 list option \<Rightarrow> ('d \<times> net_state) res" where
  "send_msg_frame xmit mymac dev ns dst_mac type hdr bdy =
     bind_res (alloc_iobuf_headsize ns 64 SIZEOF_ETHERHEADER) (\<lambda>(buf, ns1).
       if buf = 0 then Inl (Undefined ''buf'')
       else bind_res (attach_body (set_mem (store_bytes (ib_data (iobufs ns1 buf)) hdr (nmem ns1)) ns1) buf bdy)
              (\<lambda>ns2. ether_send_packet xmit mymac dev ns2 dst_mac (0x0019 OR push_bit 8 type) buf))"

section \<open>The virtio network driver\<close>

record virtio_net =
  vn_tx :: virtq
  vn_rx :: virtq
  n_rxbuf :: u32
  vn_notified :: "int list"

definition SIZEOF_VIRTIO_NET_HDR :: u32 where
  "SIZEOF_VIRTIO_NET_HDR = 10"

definition SIZEOF_VIRTIO_TX_HDR :: nat where
  "SIZEOF_VIRTIO_TX_HDR = 24"

definition virtio_tx_hdr_alloc :: "net_state \<Rightarrow> u64 \<Rightarrow> (u64 \<times> net_state) res" where
  "virtio_tx_hdr_alloc ns p =
     bind_res (malloc (nheap ns) SIZEOF_VIRTIO_TX_HDR) (\<lambda>(hdr, hs1).
       if hdr = 0 then Inl (Undefined ''hdr'')
       else
         let ns1 = ns\<lparr>nheap := hs1\<rparr>; h1 = store_bytes hdr (replicate 10 0) (nmem ns1)
         in Inr (hdr, set_mem (h1(hdr + 16 := p)) ns1))"

definition virtio_net_xmit :: "u64 \<Rightarrow> virtio_net \<Rightarrow> net_state \<Rightarrow> u64 \<Rightarrow> (virtio_net \<times> net_state) res" where
  "virtio_net_xmit pv dev ns buf =
     bind_res (virtio_tx_hdr_alloc ns buf) (\<lambda>(hdr, ns1).
       let b = iobufs ns1 buf;
           qs = [\<lparr>q_buf = hdr, q_len = SIZEOF_VIRTIO_NET_HDR\<rparr>, \<lparr>q_buf = ib_data b, q_len = ib_len b\<rparr>,
                 \<lparr>q_buf = ib_body b, q_len = ib_body_len b\<rparr>];
           np = (if ib_body b \<noteq> 0 then 3 else 2)
       in bind_res (virtq_enqueue_out pv (vn_tx dev) (take np qs) hdr) (\<lambda>tx.
            Inr (dev\<lparr>vn_tx := tx,
                     vn_notified := (case virtq_kick tx of Some q \<Rightarrow> q # vn_notified dev | None \<Rightarrow> vn_notified dev)\<rparr>, ns1)))"

text \<open>The completions of transmitted frames; every round takes one element of the used ring.\<close>

definition pending_used :: "virtq \<Rightarrow> nat" where
  "pending_used vq = unat (us_idx (vused vq) - last_used_idx vq)"

function txintr :: "virtq \<Rightarrow> net_state \<Rightarrow> (virtq \<times> net_state) res" where
  "txintr txq ns =
     (case virtq_dequeue txq of
        Inl e \<Rightarrow> Inl e
      | Inr (hdr, n, txq1) \<Rightarrow>
          if hdr = 0 then Inr (txq1, ns)
          else
            let buf = nmem ns (hdr + 16)
            in bind_res (free (nheap ns) hdr) (\<lambda>hs.
                 bind_res (free_iobuf (ns\<lparr>nheap := hs\<rparr>) buf) (\<lambda>ns1. txintr txq1 ns1)))"
  by pat_completeness auto

lemma pending_used_decreases:
  assumes "virtq_dequeue vq = Inr (x, n, vq')" "x \<noteq> 0"
  shows "pending_used vq' < pending_used vq"
proof -
  have ne: "last_used_idx vq \<noteq> us_idx (vused vq)" using assms by (auto simp: virtq_dequeue_def)
  have same: "vused vq' = vused vq" "last_used_idx vq' = last_used_idx vq + 1"
    using assms ne by (auto simp: virtq_dequeue_def virtq_free_chain_def Let_def bind_res_eq_Inr split: if_splits option.splits)
  have "us_idx (vused vq) - last_used_idx vq \<noteq> 0" using ne by simp
  then have "unat (us_idx (vused vq) - last_used_idx vq - 1) < unat (us_idx (vused vq) - last_used_idx vq)"
    by (simp add: unat_minus_one unat_gt_0)
  then show ?thesis by (simp add: pending_used_def same diff_diff_eq)
qed

termination txintr
  by (relation "measure (\<lambda>(vq, ns). pending_used vq)") (auto intro: pending_used_decreases)

declare txintr.simps [simp del]

definition ETH_POCV2_MSG_HDR_SIZE :: u32 where
  "ETH_POCV2_MSG_HDR_SIZE = 64"

function fill_recv_queue :: "u64 \<Rightarrow> virtio_net \<Rightarrow> net_state \<Rightarrow> (virtio_net \<times> net_state) res" where
  "fill_recv_queue pv dev ns =
     (if n_rxbuf dev < of_nat (NQUEUE div 2) then
        bind_res (alloc_iobuf ns (SIZEOF_VIRTIO_NET_HDR + ETH_POCV2_MSG_HDR_SIZE)) (\<lambda>(buf, ns1).
          if buf = 0 then Inl (Undefined ''iobuf'')
          else bind_res (alloc_page (zone (nheap ns1))) (\<lambda>(pg, z).
            let ns2 = ns1\<lparr>nheap := (nheap ns1)\<lparr>zone := z\<rparr>\<rparr>;
                b = (iobufs ns2 buf)\<lparr>ib_body := pg, ib_body_len := 4096\<rparr>;
                qs = [\<lparr>q_buf = ib_data b, q_len = ib_len b\<rparr>, \<lparr>q_buf = ib_body b, q_len = ib_body_len b\<rparr>]
            in bind_res (virtq_enqueue_in pv (vn_rx dev) qs buf) (\<lambda>rx.
                 fill_recv_queue pv (dev\<lparr>vn_rx := rx, n_rxbuf := n_rxbuf dev + 1\<rparr>) (set_buf buf b ns2))))
      else Inr (dev, ns))"
  by pat_completeness auto
termination
proof (relation "measure (\<lambda>(pv, dev, ns). 128 - unat (n_rxbuf dev))", goal_cases)
  case (2 pv dev ns)
  then have lt: "unat (n_rxbuf dev) < 128" by (simp add: NQUEUE_def word_less_nat_alt)
  then have "unat (n_rxbuf dev + 1) = unat (n_rxbuf dev) + 1" by (simp add: unat_word_ariths)
  with lt show ?case by auto
qed simp

declare fill_recv_queue.simps [simp del]


text \<open>A received frame of \<open>n\<close> bytes, counting the header of the device in front of it.\<close>

definition rx_frame :: "u8 list \<Rightarrow> net_state \<Rightarrow> u64 \<Rightarrow> u32 \<Rightarrow> ((u64 \<times> raw_msg) option \<times> net_state) res" where
  "rx_frame mac ns buf n =
     (let b = iobufs ns buf;
          ns1 = set_buf buf (b\<lparr>ib_body_len := n - ib_len b\<rparr>) ns;
          ns2 = snd (iobuf_pull ns1 buf SIZEOF_VIRTIO_NET_HDR)
      in ethernet_recv_intr mac ns2 buf)"

text \<open>
  The receive interrupt.  The messages that \<^verbatim>\<open>netdev_recv\<close> finds in the frames are returned in the order in
  which they were received, which is the order in which \<^verbatim>\<open>msg_recv\<close> queues them.
\<close>

function rx_loop ::
    "u8 list \<Rightarrow> virtio_net \<Rightarrow> net_state \<Rightarrow> ((u64 \<times> raw_msg) list \<times> virtio_net \<times> net_state) res" where
  "rx_loop mac dev ns =
     (case virtq_dequeue (vn_rx dev) of
        Inl e \<Rightarrow> Inl e
      | Inr (buf, n, rx) \<Rightarrow>
          if buf = 0 then Inr ([], dev\<lparr>vn_rx := rx\<rparr>, ns)
          else
            bind_res (rx_frame mac ns buf n) (\<lambda>(m, ns1).
              bind_res (rx_loop mac (dev\<lparr>vn_rx := rx, n_rxbuf := n_rxbuf dev - 1\<rparr>) ns1) (\<lambda>(ms, dev', ns').
                Inr ((case m of Some x \<Rightarrow> x # ms | None \<Rightarrow> ms), dev', ns'))))"
  by pat_completeness auto
termination
  by (relation "measure (\<lambda>(mac, dev, ns). pending_used (vn_rx dev))") (auto intro: pending_used_decreases)

declare rx_loop.simps [simp del]

definition rxintr ::
    "u64 \<Rightarrow> u8 list \<Rightarrow> virtio_net \<Rightarrow> net_state \<Rightarrow> ((u64 \<times> raw_msg) list \<times> virtio_net \<times> net_state) res" where
  "rxintr pv mac dev ns =
     bind_res (rx_loop mac dev ns) (\<lambda>(ms, dev1, ns1).
       bind_res (fill_recv_queue pv dev1 ns1) (\<lambda>(dev2, ns2). Inr (ms, dev2, ns2)))"


section \<open>Bytes in memory\<close>

lemma length_u16_bytes [simp]: "length (u16_bytes w) = 2"
  by (simp add: u16_bytes_def)

lemma unat_offset: "unat (a :: u64) + n \<le> 2 ^ 64 \<Longrightarrow> i < n \<Longrightarrow> unat (a + of_nat i) = unat a + i"
  by (rule unat_add_of_nat) simp

lemma load8_store_bytes:
  "unat a + length bs \<le> 2 ^ 64 \<Longrightarrow>
     load8 (store_bytes a bs h) x = (if in_range a (length bs) x then bs ! (unat x - unat a) else load8 h x)"
proof (induction bs arbitrary: a h)
  case (Cons b bs)
  show ?case
  proof (cases bs)
    case Nil
    then show ?thesis by (auto simp: load8_store8 in_range_def word_unat_eq_iff)
  next
    case (Cons c cs)
    then have s: "unat (a + 1) = unat a + 1" using Cons.prems unat_add_of_nat [of a 1] by simp
    then have "load8 (store_bytes (a + 1) bs (store8 h a b)) x =
        (if in_range (a + 1) (length bs) x then bs ! (unat x - unat (a + 1)) else load8 (store8 h a b) x)"
      using Cons.prems by (intro Cons.IH) simp
    then show ?thesis using s
      by (auto simp: load8_store8 in_range_def nth_Cons' word_unat_eq_iff)
  qed
qed simp

lemma store_bytes_outside:
  assumes "\<And>a. unat a \<in> S \<Longrightarrow> unat (cell a) \<in> S" "unat x \<notin> S"
  shows "{unat a ..< unat a + length bs} \<subseteq> S \<Longrightarrow> unat a + length bs \<le> 2 ^ 64 \<Longrightarrow> store_bytes a bs h x = h x"
proof (induction bs arbitrary: a h)
  case (Cons b bs)
  have "unat a \<in> S" using Cons.prems by auto
  then have "cell a \<noteq> x" using assms by auto
  then have st: "store8 h a b x = h x" by (simp add: store8_def)
  show ?case
  proof (cases bs)
    case Nil
    then show ?thesis using st by simp
  next
    case (Cons c cs)
    then have "unat (a + 1) = unat a + 1" using Cons.prems unat_add_of_nat [of a 1] by simp
    then have "store_bytes (a + 1) bs (store8 h a b) x = store8 h a b x" using Cons.prems by (intro Cons.IH) auto
    then show ?thesis using st by simp
  qed
qed simp

lemma length_load_bytes [simp]: "length (load_bytes h a n) = n"
  by (simp add: load_bytes_def)

lemma load_bytes_add: "load_bytes h a (m + n) = load_bytes h a m @ load_bytes h (a + of_nat m) n"
  by (rule nth_equalityI) (auto simp: load_bytes_def nth_append add.assoc)

lemma load_bytes_cong:
  assumes "unat a + n \<le> 2 ^ 64" "\<And>x. in_range a n x \<Longrightarrow> load8 h' x = load8 h x"
  shows "load_bytes h' a n = load_bytes h a n"
  using assms(2) unat_offset [OF assms(1)] by (auto simp: load_bytes_def in_range_def)

lemma load_bytes_stored: "unat a + length bs \<le> 2 ^ 64 \<Longrightarrow> load_bytes (store_bytes a bs h) a (length bs) = bs"
  by (rule nth_equalityI) (auto simp: load_bytes_def load8_store_bytes in_range_def unat_offset)

lemma load_bytes_kept:
  assumes "unat a + length bs \<le> 2 ^ 64" "unat b + n \<le> 2 ^ 64" "unat b + n \<le> unat a \<or> unat a + length bs \<le> unat b"
  shows "load_bytes (store_bytes a bs h) b n = load_bytes h b n"
  using assms(3) by (intro load_bytes_cong [OF assms(2)]) (auto simp: load8_store_bytes [OF assms(1)] in_range_def)

lemma load_bytes_same_on:
  "same_on S h h' \<Longrightarrow> {unat a ..< unat a + n} \<subseteq> S \<Longrightarrow> unat a + n \<le> 2 ^ 64 \<Longrightarrow> load_bytes h' a n = load_bytes h a n"
  by (rule load_bytes_cong) (auto simp: same_on_def in_range_def subset_iff)

lemma load_bytes_zero:
  "\<forall>k < n. load8 h (a + of_nat k) = 0 \<Longrightarrow> load_bytes h a n = replicate n 0"
  by (rule nth_equalityI) (auto simp: load_bytes_def)

lemma load_bytes_zero_sub:
  assumes "load_bytes h a n = replicate n 0" "m + k \<le> n"
  shows "load_bytes h (a + of_nat m) k = replicate k 0"
proof (rule load_bytes_zero, intro allI impI)
  fix i assume "i < k"
  then have "m + i < n" using assms(2) by simp
  then have "load_bytes h a n ! (m + i) = 0" unfolding assms(1) by simp
  then have "load8 h (a + of_nat (m + i)) = 0" using \<open>m + i < n\<close> by (simp add: load_bytes_def)
  then show "load8 h (a + of_nat m + of_nat i) = 0" by (simp add: add.assoc)
qed

text \<open>A header stored at the start of a cleared area.\<close>

lemma header_stored:
  assumes "load_bytes h a n = replicate n 0" "length hdr \<le> n" "unat a + n \<le> 2 ^ 64"
  shows "load_bytes (store_bytes a hdr h) a n = hdr @ replicate (n - length hdr) 0"
proof -
  let ?m = "length hdr"
  have "load_bytes (store_bytes a hdr h) a n =
      load_bytes (store_bytes a hdr h) a ?m @ load_bytes (store_bytes a hdr h) (a + of_nat ?m) (n - ?m)"
    using load_bytes_add [of "store_bytes a hdr h" a ?m "n - ?m"] assms(2) by simp
  moreover have "load_bytes (store_bytes a hdr h) (a + of_nat ?m) (n - ?m) = load_bytes h (a + of_nat ?m) (n - ?m)"
  proof (cases "?m = n")
    case False
    then have "unat (a + of_nat ?m) = unat a + ?m" using unat_offset [OF assms(3), of ?m] assms(2) by simp
    then show ?thesis using assms(2,3) by (intro load_bytes_kept) auto
  qed (simp add: load_bytes_def)
  ultimately show ?thesis
    using load_bytes_zero_sub [OF assms(1), of ?m "n - ?m"] assms(2,3) load_bytes_stored [of a hdr h] by simp
qed

section \<open>Sending\<close>

text \<open>The bytes that leave the node for the buffer \<open>buf\<close>: its data and its body.\<close>

definition frame_of :: "net_state \<Rightarrow> u64 \<Rightarrow> u8 list" where
  "frame_of ns buf =
     (let b = iobufs ns buf
      in load_bytes (nmem ns) (ib_data b) (unat (ib_len b)) @
         (if ib_body b = 0 then [] else load_bytes (nmem ns) (ib_body b) (unat (ib_body_len b))))"

lemma view_facts:
  assumes "heap_view hs A L D" "(p, i) \<in> L"
  shows "unat p + bs_of i \<le> 2 ^ 64" "p \<noteq> 0" "8 dvd unat p" "8 dvd bs_of i" "unat a \<in> bytes_of (p, i) \<Longrightarrow> unat (cell a) \<in> bytes_of (p, i)"
    "unat p + bs_of i < 2 ^ 64"
proof -
  obtain F B where iu: "heap_ok hs A F B" "(p, i) \<in> in_use F B" using assms by (auto simp: heap_view_def)
  note f = live_facts [OF iu]
  show "unat p + bs_of i < 2 ^ 64" by (rule live_below_top [OF iu])
  show "unat p + bs_of i \<le> 2 ^ 64" "p \<noteq> 0" "8 dvd unat p" "8 dvd bs_of i" using f by auto
  then show "unat a \<in> bytes_of (p, i) \<Longrightarrow> unat (cell a) \<in> bytes_of (p, i)"
    using aligned_range_cell [of "unat p" "bs_of i" a] by (simp add: bytes_of_def)
qed

lemma set_mem_view: "nheap (set_mem h ns) = set_heap h (nheap ns)" "nmem (set_mem h ns) = h" "iobufs (set_mem h ns) = iobufs ns"
  by (simp_all add: set_mem_def set_heap_def nmem_def)

lemma set_buf_simps [simp]: "nheap (set_buf p b ns) = nheap ns" "nmem (set_buf p b ns) = nmem ns" "iobufs (set_buf p b ns) p = b"
  by (simp_all add: set_buf_def nmem_def)

text \<open>A buffer of at most 2040 bytes: a block for the structure and one for the data.\<close>

lemma alloc_iobuf_small:
  assumes v: "heap_view (nheap ns) A L D" and room: "PAGESIZE < card A" and sz: "0 < sz" "sz \<le> 2040" "headsize \<le> sz"
  shows "\<exists>buf q i j A' ns'. alloc_iobuf_headsize ns sz headsize = Inr (buf, ns') \<and> buf \<noteq> 0 \<and>
    iobufs ns' = (iobufs ns)(buf := new_iobuf q sz headsize 0) \<and>
    heap_view (nheap ns') A' (insert (q, j) (insert (buf, i) L)) D \<and> card A \<le> card A' + 2 * PAGESIZE \<and>
    unat sz \<le> bs_of j \<and> (q, j) \<notin> L \<and> (buf, i) \<notin> L \<and> (q, j) \<noteq> (buf, i) \<and>
    load_bytes (nmem ns') q (unat sz) = replicate (unat sz) 0 \<and> same_on (owned L D) (nmem ns) (nmem ns')"
proof -
  have s: "0 < unat sz" "unat sz \<le> 2040" using sz by (simp_all add: word_less_nat_alt word_le_nat_alt)
  obtain p i h1 q j h2 A' where r: "malloc (nheap ns) 56 = Inr (p, h1)" "p \<noteq> 0" "malloc h1 (unat sz) = Inr (q, h2)" "q \<noteq> 0"
    "56 \<le> bs_of i" "unat sz \<le> bs_of j" "(p, i) \<noteq> (q, j)" "(p, i) \<notin> L" "(q, j) \<notin> L"
    "heap_view h2 A' (insert (q, j) (insert (p, i) L)) D" "card A \<le> card A' + 2 * PAGESIZE"
    "\<forall>k < unat sz. load8 (hmem h2) (q + of_nat k) = 0" "same_on (owned L D) (hmem (nheap ns)) (hmem h2)"
    using oh.two_blocks [OF v room _ _ s, of 56] by auto
  let ?ns = "set_buf p (new_iobuf q sz headsize 0) (ns\<lparr>nheap := h2\<rparr>)"
  have "alloc_iobuf_headsize ns sz headsize = Inr (p, ?ns)"
    using r(1-4) sz(3) s(2) by (simp add: alloc_iobuf_headsize_def SIZEOF_IOBUF_def PAGESIZE_def Let_def not_less)
  moreover have "load_bytes (nmem ?ns) q (unat sz) = replicate (unat sz) 0"
    using load_bytes_zero [OF r(12)] by (simp add: nmem_def hmem_def set_buf_def)
  ultimately show ?thesis using r
    by (intro exI [of _ p] exI [of _ q] exI [of _ i] exI [of _ j] exI [of _ A'] exI [of _ ?ns])
      (auto simp: nmem_def hmem_def set_buf_def)
qed


lemma view_store_block:
  assumes v: "heap_view (nheap ns) A L D" and p: "(p, i) \<in> L" and sub: "{unat a ..< unat a + length bs} \<subseteq> bytes_of (p, i)"
    and no_wrap: "unat a + length bs \<le> 2 ^ 64"
  shows "heap_view (nheap (set_mem (store_bytes a bs (nmem ns)) ns)) A L D"
  unfolding set_mem_view(1) using store_bytes_outside [OF view_facts(5) [OF v p] _ sub no_wrap]
  by (intro view_write_block [OF v p]) (simp add: nmem_def)

lemma view_store_page:
  assumes v: "heap_view (nheap ns) A L D" and sub: "{unat a ..< unat a + length bs} \<subseteq> D" and no_wrap: "unat a + length bs \<le> 2 ^ 64"
  shows "heap_view (nheap (set_mem (store_bytes a bs (nmem ns)) ns)) A L D"
proof -
  have "\<And>a. unat a \<in> D \<Longrightarrow> unat (cell a) \<in> D" using v by (simp add: heap_view_def)
  then show ?thesis
    unfolding set_mem_view(1) using store_bytes_outside [of D, OF _ _ sub no_wrap]
    by (intro view_write_foreign [OF v]) (simp add: nmem_def)
qed

definition wire_header :: "u8 list \<Rightarrow> u8 list \<Rightarrow> u16 \<Rightarrow> u8 list \<Rightarrow> u8 list" where
  "wire_header dst mac ty hdr = dst @ mac @ u16_bytes (0x0019 OR push_bit 8 ty) @ hdr @ replicate (50 - length hdr) 0"

text \<open>The Ethernet header in front of a buffer that was allocated with room for it.\<close>

lemma ether_send_packet_frame:
  assumes v: "heap_view (nheap ns) A L D" and q: "(q, j) \<in> L" "64 \<le> bs_of j"
    and b: "ib_head (iobufs ns buf) = q" "ib_data (iobufs ns buf) = q + 14" "ib_len (iobufs ns buf) = 50"
    and len: "length dst = 6" "length mac = 6"
  shows "\<exists>ns'. ether_send_packet xmit mac dev ns dst ty buf = xmit dev ns' buf \<and> heap_view (nheap ns') A L D \<and>
    iobufs ns' = (iobufs ns)(buf := (iobufs ns buf)\<lparr>ib_data := q, ib_len := 64, ib_eth := q\<rparr>) \<and>
    load_bytes (nmem ns') q 64 = dst @ mac @ u16_bytes ty @ load_bytes (nmem ns) (q + 14) 50 \<and>
    same_on (- bytes_of (q, j)) (nmem ns) (nmem ns')"
proof -
  note vf = view_facts [OF v q(1)]
  have nw: "unat q + 64 \<le> 2 ^ 64" using vf(1) q(2) by simp
  have off: "unat (q + of_nat k) = unat q + k" if "k < 64" for k using unat_offset [OF nw that] .
  have offs: "unat (q + 6) = unat q + 6" "unat (q + 12) = unat q + 12" "unat (q + 14) = unat q + 14"
    using off [of 6] off [of 12] off [of 14] by simp_all
  have tl: "length (u16_bytes ty) = 2" by (simp add: u16_bytes_def)
  let ?b1 = "(iobufs ns buf)\<lparr>ib_data := q, ib_len := 64\<rparr>"
  have push: "iobuf_push ns buf SIZEOF_ETHERHEADER = (q, set_buf buf ?b1 ns)"
    using b by (simp add: iobuf_push_def SIZEOF_ETHERHEADER_def)
  let ?n1 = "set_buf buf ?b1 ns"
  let ?h1 = "store_bytes q dst (nmem ns)" let ?h2 = "store_bytes (q + 6) mac ?h1" let ?h3 = "store_bytes (q + 12) (u16_bytes ty) ?h2"
  let ?ns = "set_buf buf (?b1\<lparr>ib_eth := q\<rparr>) (set_mem ?h3 ?n1)"
  have sub: "{unat q + k ..< unat q + k + n} \<subseteq> bytes_of (q, j)" if "k + n \<le> 64" for k n
    using that q(2) by (auto simp: bytes_of_def)
  have run: "ether_send_packet xmit mac dev ns dst ty buf = xmit dev ?ns buf"
    using vf(2) push by (simp add: ether_send_packet_def Let_def set_mem_view)
  have v1: "heap_view (nheap (set_mem ?h1 ns)) A L D"
    using sub [of 0 6] nw len by (intro view_store_block [OF v q(1)]) auto
  have v2: "heap_view (nheap (set_mem ?h2 ns)) A L D"
    using view_store_block [OF v1 q(1), of "q + 6" mac] sub [of 6 6] nw len offs by (simp add: set_mem_view set_heap_def)
  have v3: "heap_view (nheap (set_mem ?h3 ns)) A L D"
    using view_store_block [OF v2 q(1), of "q + 12" "u16_bytes ty"] sub [of 12 2] nw tl offs by (simp add: set_mem_view set_heap_def)
  have view: "heap_view (nheap ?ns) A L D" using v3 by (simp add: set_mem_view)
  have same: "same_on (- bytes_of (q, j)) (nmem ns) ?h3"
    using nw offs len tl sub [of 0 6] sub [of 6 6] sub [of 12 2]
    by (auto simp: same_on_def load8_store_bytes in_range_def subset_iff)
  have split: "load_bytes h q 64 = load_bytes h q 6 @ load_bytes h (q + 6) 6 @ load_bytes h (q + 12) 2 @ load_bytes h (q + 14) 50" for h
    using load_bytes_add [of h q 6 58] load_bytes_add [of h "q + 6" 6 52] load_bytes_add [of h "q + 12" 2 50] by (simp add: add.assoc)
  have "load_bytes ?h3 q 6 = dst" "load_bytes ?h3 (q + 6) 6 = mac" "load_bytes ?h3 (q + 12) 2 = u16_bytes ty"
      "load_bytes ?h3 (q + 14) 50 = load_bytes (nmem ns) (q + 14) 50"
    using nw offs len tl load_bytes_stored [of q dst] load_bytes_stored [of "q + 6" mac] load_bytes_stored [of "q + 12" "u16_bytes ty"]
    by (simp_all add: load_bytes_kept)
  then have "load_bytes (nmem ?ns) q 64 = dst @ mac @ u16_bytes ty @ load_bytes (nmem ns) (q + 14) 50"
    by (simp add: split set_mem_view)
  with run view same show ?thesis
    by (intro exI [of _ ?ns]) (simp add: set_mem_view, simp add: set_buf_def set_mem_def)
qed


lemma page_range: "block_ok p 0 \<Longrightarrow> n \<le> PAGESIZE \<Longrightarrow> {unat p ..< unat p + n} \<subseteq> block p 0 \<and> unat p + n \<le> 2 ^ 64"
  by (auto simp: block_ok_def block_def block_size_def)

definition attached ::
    "net_state \<Rightarrow> (u64 \<times> nat) set \<Rightarrow> nat set \<Rightarrow> u64 \<Rightarrow> u8 list option \<Rightarrow> net_state \<Rightarrow> nat set \<Rightarrow> nat set \<Rightarrow> u64 \<Rightarrow> bool" where
  "attached ns L D buf bdy ns' A' D' pg \<longleftrightarrow>
     heap_view (nheap ns') A' L D' \<and> D \<subseteq> D' \<and>
     iobufs ns' = (iobufs ns)(buf := (iobufs ns buf)\<lparr>ib_body := pg,
       ib_body_len := (case bdy of Some bs \<Rightarrow> of_nat (length bs) | None \<Rightarrow> ib_body_len (iobufs ns buf))\<rparr>) \<and>
     same_on (owned L D) (nmem ns) (nmem ns') \<and>
     (case bdy of None \<Rightarrow> pg = 0
      | Some bs \<Rightarrow> pg \<noteq> 0 \<and> load_bytes (nmem ns') pg (length bs) = bs \<and> {unat pg ..< unat pg + length bs} \<subseteq> D' \<and>
          unat pg + length bs \<le> 2 ^ 64)"

lemma attachedD:
  assumes "attached ns L D buf bdy ns' A' D' pg"
  shows "heap_view (nheap ns') A' L D'" "D \<subseteq> D'"
    "iobufs ns' = (iobufs ns)(buf := (iobufs ns buf)\<lparr>ib_body := pg,
       ib_body_len := (case bdy of Some bs \<Rightarrow> of_nat (length bs) | None \<Rightarrow> ib_body_len (iobufs ns buf))\<rparr>)"
    "same_on (owned L D) (nmem ns) (nmem ns')" "bdy = None \<Longrightarrow> pg = 0"
    "bdy = Some bs \<Longrightarrow> pg \<noteq> 0 \<and> load_bytes (nmem ns') pg (length bs) = bs \<and>
       {unat pg ..< unat pg + length bs} \<subseteq> D' \<and> unat pg + length bs \<le> 2 ^ 64"
  using assms unfolding attached_def by (blast, blast, blast, blast, simp, simp)

lemma attach_body_frame:
  assumes v: "heap_view (nheap ns) A L D" and room: "PAGESIZE \<le> card A" and none: "ib_body (iobufs ns buf) = 0"
    and bdy: "\<forall>bs. bdy = Some bs \<longrightarrow> length bs \<le> PAGESIZE"
  shows "\<exists>ns' A' D' pg. attach_body ns buf bdy = Inr ns' \<and> attached ns L D buf bdy ns' A' D' pg"
proof (cases bdy)
  case None
  then have "attach_body ns buf bdy = Inr ns" by (simp add: attach_body_def)
  moreover have "(iobufs ns)(buf := (iobufs ns buf)\<lparr>ib_body := 0, ib_body_len := ib_body_len (iobufs ns buf)\<rparr>) = iobufs ns"
    using none by (intro fun_upd_idem) simp
  ultimately show ?thesis using v None by (intro exI [of _ ns] exI [of _ A] exI [of _ D] exI [of _ 0]) (simp add: attached_def same_on_def)
next
  case (Some bs)
  then have lb: "length bs \<le> PAGESIZE" using bdy by simp
  obtain pg h' where g: "heap_page (nheap ns) = Inr (pg, h')" "pg \<noteq> 0" "block_ok pg 0" "block pg 0 \<inter> D = {}"
      "heap_view h' (A - block pg 0) L (D \<union> block pg 0)" "same_on (owned L D) (hmem (nheap ns)) (hmem h')"
    using oh.one_page_more [OF v, of 0] room by auto
  obtain z where z: "alloc_page (zone (nheap ns)) = Inr (pg, z)" "h' = (nheap ns)\<lparr>zone := z\<rparr>"
    using g(1) by (auto simp: heap_page_def bind_res_eq_Inr)
  let ?n3 = "ns\<lparr>nheap := h'\<rparr>" let ?n4 = "set_mem (store_bytes pg bs (nmem ?n3)) ?n3"
  let ?ns = "set_buf buf ((iobufs ?n4 buf)\<lparr>ib_body := pg, ib_body_len := of_nat (length bs)\<rparr>) ?n4"
  have run: "attach_body ns buf bdy = Inr ?ns"
    using z g(2) Some by (simp add: attach_body_def Let_def)
  note pr = page_range [OF g(3) lb]
  have "heap_view (nheap ?n4) (A - block pg 0) L (D \<union> block pg 0)"
    using g(5) pr by (intro view_store_page) auto
  moreover have "load_bytes (nmem ?n4) pg (length bs) = bs"
    using pr load_bytes_stored by (simp add: set_mem_view)
  moreover have "same_on (owned L D) (nmem ns) (nmem ?n4)"
  proof -
    have "owned L D \<inter> block pg 0 = {}"
      using view_apart(3) [OF g(5)] g(4) unfolding owned_def by blast
    then have "same_on (owned L D) (nmem ?n3) (nmem ?n4)"
      using pr by (auto simp: same_on_def set_mem_view load8_store_bytes in_range_def subset_iff)
    moreover have "same_on (owned L D) (nmem ns) (nmem ?n3)" using g(6) by (simp add: nmem_def hmem_def)
    ultimately show ?thesis by (auto intro: same_on_trans)
  qed
  ultimately show ?thesis using run g(2) pr Some
    by (intro exI [of _ ?ns] exI [of _ "A - block pg 0"] exI [of _ "D \<union> block pg 0"] exI [of _ pg])
      (auto simp: attached_def set_mem_view set_buf_def nmem_def)
qed

lemma send_frame:
  assumes v: "heap_view (nheap ns) A L D" and room: "3 * PAGESIZE \<le> card A"
    and len: "length dst = 6" "length mac = 6" "length hdr \<le> 50" and bdy: "\<forall>bs. bdy = Some bs \<longrightarrow> length bs \<le> PAGESIZE"
  shows "\<exists>buf ns' A' L' D'. send_msg_frame xmit mac dev ns dst ty hdr bdy = xmit dev ns' buf \<and> buf \<noteq> 0 \<and>
    frame_of ns' buf = wire_header dst mac ty hdr @ (case bdy of Some bs \<Rightarrow> bs | None \<Rightarrow> []) \<and>
    heap_view (nheap ns') A' L' D' \<and> L \<subseteq> L' \<and> D \<subseteq> D' \<and> same_on (owned L D) (nmem ns) (nmem ns')"
proof -
  have "PAGESIZE < card A" using room by (simp add: PAGESIZE_def)
  from alloc_iobuf_small [OF v this, of 64 SIZEOF_ETHERHEADER] obtain buf q i j A1 n1 where
    a: "alloc_iobuf_headsize ns 64 SIZEOF_ETHERHEADER = Inr (buf, n1)" "buf \<noteq> 0"
      "iobufs n1 = (iobufs ns)(buf := new_iobuf q 64 14 0)" "heap_view (nheap n1) A1 (insert (q, j) (insert (buf, i) L)) D"
      "card A \<le> card A1 + 2 * PAGESIZE" "64 \<le> bs_of j" "(q, j) \<notin> L" "(q, j) \<noteq> (buf, i)"
      "load_bytes (nmem n1) q 64 = replicate 64 0" "same_on (owned L D) (nmem ns) (nmem n1)"
    by (auto simp: SIZEOF_ETHERHEADER_def)
  let ?L = "insert (q, j) (insert (buf, i) L)"
  have nw: "unat q + 64 \<le> 2 ^ 64" using view_facts(1) [OF a(4)] a(6) by (meson add_left_mono insertI1 le_trans)
  have off: "unat (q + of_nat k) = unat q + k" if "k < 64" for k using unat_offset [OF nw that] .
  have q14: "unat (q + 14) = unat q + 14" using off [of 14] by simp
  let ?n2 = "set_mem (store_bytes (q + 14) hdr (nmem n1)) n1"
  have v2: "heap_view (nheap ?n2) A1 ?L D"
    using nw q14 len(3) a(6) by (intro view_store_block [OF a(4), of q j]) (auto simp: bytes_of_def)
  have hdr_bytes: "load_bytes (nmem ?n2) (q + 14) 50 = hdr @ replicate (50 - length hdr) 0"
    using header_stored [of "nmem n1" "q + 14" 50 hdr] load_bytes_zero_sub [OF a(9), of 14 50] nw q14 len(3) by (simp add: set_mem_view)
  have "PAGESIZE \<le> card A1" using room a(5) by simp
  moreover have "ib_body (iobufs ?n2 buf) = 0" using a(3) by (simp add: set_mem_view new_iobuf_def)
  ultimately obtain n3 A3 D3 pg where att: "attach_body ?n2 buf bdy = Inr n3" "attached ?n2 ?L D buf bdy n3 A3 D3 pg"
    using attach_body_frame [OF v2 _ _ bdy, of buf] by blast
  note t = attachedD [OF att(2)]
  have b3: "ib_head (iobufs n3 buf) = q" "ib_data (iobufs n3 buf) = q + 14" "ib_len (iobufs n3 buf) = 50" "ib_body (iobufs n3 buf) = pg"
      "ib_body_len (iobufs n3 buf) = (case bdy of Some bs \<Rightarrow> of_nat (length bs) | None \<Rightarrow> 0)"
    using t(3) a(3) by (simp_all add: set_mem_view new_iobuf_def split: option.splits)
  obtain n4 where e: "ether_send_packet xmit mac dev n3 dst (0x0019 OR push_bit 8 ty) buf = xmit dev n4 buf"
      "heap_view (nheap n4) A3 ?L D3"
      "iobufs n4 = (iobufs n3)(buf := (iobufs n3 buf)\<lparr>ib_data := q, ib_len := 64, ib_eth := q\<rparr>)"
      "load_bytes (nmem n4) q 64 = dst @ mac @ u16_bytes (0x0019 OR push_bit 8 ty) @ load_bytes (nmem n3) (q + 14) 50"
      "same_on (- bytes_of (q, j)) (nmem n3) (nmem n4)"
    using ether_send_packet_frame [OF t(1) insertI1 a(6) b3(1-3) len(1,2), where xmit = xmit and dev = dev and ty = "0x0019 OR push_bit 8 ty"] by blast
  have own: "owned L D \<inter> bytes_of (q, j) = {}"
    using view_apart(1,3) [OF a(4)] a(7) unfolding owned_def by blast
  have kept: "load_bytes (nmem n3) (q + 14) 50 = load_bytes (nmem ?n2) (q + 14) 50"
    using t(4) nw q14 a(6) by (rule_tac load_bytes_same_on) (auto simp: owned_def bytes_of_def)
  have "frame_of n4 buf = wire_header dst mac ty hdr @ (case bdy of Some bs \<Rightarrow> bs | None \<Rightarrow> [])"
  proof (cases bdy)
    case None
    then show ?thesis using e(3,4) b3(4) t(5) kept hdr_bytes by (simp add: frame_of_def wire_header_def)
  next
    case (Some bs)
    note p = t(6) [OF Some]
    have "load_bytes (nmem n4) pg (length bs) = bs"
    proof -
      have "{unat pg ..< unat pg + length bs} \<subseteq> - bytes_of (q, j)"
        using view_apart(3) [OF t(1) insertI1] p [THEN conjunct2, THEN conjunct2, THEN conjunct1] by fast
      then show ?thesis using load_bytes_same_on [OF e(5)] p by simp
    qed
    moreover have "unat (of_nat (length bs) :: u32) = length bs"
      using bdy Some by (simp add: unat_of_nat take_bit_nat_eq_self PAGESIZE_def)
    ultimately show ?thesis using Some e(3,4) b3(4,5) p kept hdr_bytes by (simp add: frame_of_def wire_header_def)
  qed
  moreover have "same_on (owned L D) (nmem ns) (nmem n4)"
  proof -
    have "same_on (owned L D) (nmem n1) (nmem ?n2)"
      using own nw q14 len(3) a(6) by (auto simp: same_on_def set_mem_view load8_store_bytes in_range_def bytes_of_def)
    moreover have "same_on (owned L D) (nmem ?n2) (nmem n3)" using t(4) by (rule same_on_mono) (auto simp: owned_def)
    moreover have "same_on (owned L D) (nmem n3) (nmem n4)" using e(5) own by (auto intro: same_on_mono)
    ultimately show ?thesis using a(10) by (meson order_refl same_on_trans)
  qed
  moreover have "send_msg_frame xmit mac dev ns dst ty hdr bdy = xmit dev n4 buf"
    using a(1-3) att(1) e(1) by (simp add: send_msg_frame_def new_iobuf_def)
  ultimately show ?thesis using a(2) e(2) t(2) by blast
qed


section \<open>Receiving\<close>

text \<open>
  A buffer as \<^verbatim>\<open>fill_recv_queue\<close> prepares it: a block \<open>q\<close> of 74 bytes for the headers and a page \<open>pg\<close> for the body.
\<close>

definition rx_buffer ::
    "net_state \<Rightarrow> u64 \<Rightarrow> nat set \<Rightarrow> (u64 \<times> nat) set \<Rightarrow> nat set \<Rightarrow> u64 \<Rightarrow> nat \<Rightarrow> u64 \<Rightarrow> bool" where
  "rx_buffer ns buf A L D q j pg \<longleftrightarrow>
     heap_view (nheap ns) A L D \<and> 2 * PAGESIZE \<le> card A \<and> (q, j) \<in> L \<and> 74 \<le> bs_of j \<and>
     iobufs ns buf = (new_iobuf q 74 0 0)\<lparr>ib_body := pg, ib_body_len := 4096\<rparr> \<and> pg \<noteq> 0 \<and> block_ok pg 0 \<and> block pg 0 \<subseteq> D"

text \<open>What the device stored: the first 64 bytes of the frame after its own header, the rest in the page.\<close>

definition holds_frame :: "net_state \<Rightarrow> u64 \<Rightarrow> u64 \<Rightarrow> u8 list \<Rightarrow> bool" where
  "holds_frame ns q pg f \<longleftrightarrow>
     load_bytes (nmem ns) (q + 10) 64 = take 64 f \<and> load_bytes (nmem ns) pg (length f - 64) = drop 64 f"

lemma memcpy_loads:
  assumes "unat d + n \<le> 2 ^ 64" "unat s + n \<le> 2 ^ 64"
  shows "load_bytes (memcpy d s n h) d n = load_bytes h s n"
    "\<not> in_range d n a \<Longrightarrow> load8 (memcpy d s n h) a = load8 h a"
  using memmove_bytes [OF assms] unat_offset [OF assms(1)]
  by (auto simp: memcpy_def load_bytes_def in_range_def)

lemma proto_byte: "(ucast (0x0019 OR push_bit 8 (ty :: u16)) :: u8) = 0x19"
proof (rule bit_word_eqI)
  fix n assume "n < LENGTH(8)"
  then have n: "n < 8" by simp
  have "bit (0x19 :: u16) n \<longleftrightarrow> bit (0x19 :: u8) n" using n by (auto simp: less_Suc_eq numeral_eq_Suc)
  then show "bit (ucast (0x0019 OR push_bit 8 ty) :: u8) n = bit (0x19 :: u8) n" using n by (simp add: bit_simps)
qed


lemma msg_recv_frame_body:
  assumes v: "heap_view (nheap ns) A L D" and room: "2 * PAGESIZE \<le> card A"
    and b: "ib_len (iobufs ns buf) \<le> 64" "ib_body (iobufs ns buf) = pg" "pg \<noteq> 0" "block_ok pg 0" "block pg 0 \<subseteq> D"
    and n: "unat (ib_body_len (iobufs ns buf)) \<le> PAGESIZE"
  shows "\<exists>p m ns'. msg_recv_frame ns buf = Inr (p, m, ns') \<and> rm_hdr m = ib_data (iobufs ns buf) \<and> rm_data m = buf \<and>
    rm_body_len m = ib_body_len (iobufs ns buf) \<and>
    load_bytes (nmem ns') (rm_body m) (unat (rm_body_len m)) = load_bytes (nmem ns) pg (unat (rm_body_len m)) \<and>
    same_on (owned L D) (nmem ns) (nmem ns')"
proof -
  let ?n = "unat (ib_body_len (iobufs ns buf))"
  have ne: "A \<noteq> {}" using room by (auto simp: PAGESIZE_def)
  obtain p i h1 A1 where a: "malloc (nheap ns) 48 = Inr (p, h1)" "p \<noteq> 0" "heap_view h1 A1 (insert (p, i) L) D" "one_page_less A A1"
      "same_on (owned L D) (hmem (nheap ns)) (hmem h1)"
    using oh.block_law [OF v ne, of 48] by auto
  have "PAGESIZE \<le> card A1" using one_page_less_card [OF a(4) oh.finite_law [OF v]] room by simp
  then obtain g h2 where g: "heap_page h1 = Inr (g, h2)" "g \<noteq> 0" "block_ok g 0" "block g 0 \<inter> D = {}"
      "heap_view h2 (A1 - block g 0) (insert (p, i) L) (D \<union> block g 0)" "same_on (owned (insert (p, i) L) D) (hmem h1) (hmem h2)"
    using oh.one_page_more [OF a(3), of 0] by auto
  obtain z where z: "alloc_page (zone h1) = Inr (g, z)" "h2 = h1\<lparr>zone := z\<rparr>" using g(1) by (auto simp: heap_page_def bind_res_eq_Inr)
  note r1 = page_range [OF g(3) n] and r2 = page_range [OF b(4) n]
  let ?h = "memcpy g pg ?n (mem z)"
  let ?m = "\<lparr>rm_hdr = ib_data (iobufs ns buf), rm_body = g, rm_body_len = ib_body_len (iobufs ns buf), rm_data = buf\<rparr>"
  let ?ns = "ns\<lparr>nheap := h1\<lparr>zone := z\<lparr>mem := ?h\<rparr>\<rparr>\<rparr>"
  have run: "msg_recv_frame ns buf = Inr (p, ?m, ?ns)"
    using a(1,2) z(1) g(2) b(1-3) by (simp add: msg_recv_frame_def SIZEOF_MSG_def not_less [symmetric] Let_def)
  have s12: "same_on (owned L D) (nmem ns) (mem z)"
  proof -
    have "same_on (owned L D) (hmem h1) (mem z)" using g(6) z(2) by (auto simp: hmem_def same_on_def owned_def)
    then show ?thesis using a(5) by (auto simp: nmem_def hmem_def same_on_def)
  qed
  have out: "owned L D \<inter> block g 0 = {}"
    using view_apart(3) [OF g(5)] g(4) unfolding owned_def by blast
  have "same_on (owned L D) (mem z) ?h"
    using out r1 r2 memcpy_loads(2) [of g ?n pg] by (auto simp: same_on_def in_range_def subset_iff)
  then have "same_on (owned L D) (nmem ns) (nmem ?ns)" using s12 by (auto simp: nmem_def same_on_def)
  moreover have "load_bytes (nmem ?ns) g ?n = load_bytes (nmem ns) pg ?n"
    using memcpy_loads(1) [of g ?n pg "mem z"] r1 r2 b(5) load_bytes_same_on [OF s12, of pg ?n] by (auto simp: nmem_def owned_def)
  ultimately show ?thesis using run by (intro exI [of _ p] exI [of _ ?m] exI [of _ ?ns]) simp
qed

lemma rx_frame_message:
  assumes rb: "rx_buffer ns buf A L D q j pg" and f: "holds_frame ns q pg (wire_header dst mac ty hdr @ bs)"
    and len: "length dst = 6" "length mac = 6" "length hdr \<le> 50" "length bs \<le> PAGESIZE" and me: "dst = bcast_mac \<or> dst = nic_mac"
  shows "\<exists>p m ns'. rx_frame nic_mac ns buf (of_nat (74 + length bs)) = Inr (Some (p, m), ns') \<and> rm_data m = buf \<and>
    load_bytes (nmem ns') (rm_hdr m) (length hdr) = hdr \<and> unat (rm_body_len m) = length bs \<and>
    load_bytes (nmem ns') (rm_body m) (length bs) = bs"
proof -
  have v: "heap_view (nheap ns) A L D" "2 * PAGESIZE \<le> card A" "(q, j) \<in> L" "74 \<le> bs_of j" "pg \<noteq> 0" "block_ok pg 0" "block pg 0 \<subseteq> D"
    and b: "iobufs ns buf = (new_iobuf q 74 0 0)\<lparr>ib_body := pg, ib_body_len := 4096\<rparr>"
    using rb by (auto simp: rx_buffer_def)
  have nw: "unat q + 74 \<le> 2 ^ 64" using view_facts(1) [OF v(1,3)] v(4) by simp
  have off: "unat (q + of_nat k) = unat q + k" if "k < 74" for k using unat_offset [OF nw that] .
  have offs: "unat (q + 10) = unat q + 10" "unat (q + 24) = unat q + 24" using off [of 10] off [of 24] by simp_all
  have lh: "length (wire_header dst mac ty hdr) = 64" using len by (simp add: wire_header_def u16_bytes_def)
  have cont: "load_bytes (nmem ns) (q + 10) 64 = wire_header dst mac ty hdr" "load_bytes (nmem ns) pg (length bs) = bs"
    using f lh by (simp_all add: holds_frame_def)
  have cuts: "load_bytes h (q + 10) 64 = load_bytes h (q + 10) 6 @ load_bytes h (q + 16) 6 @ load_bytes h (q + 22) 2 @
      load_bytes h (q + 24) (length hdr) @ load_bytes h (q + 24 + of_nat (length hdr)) (50 - length hdr)" for h
    using load_bytes_add [of h "q + 10" 6 58] load_bytes_add [of h "q + 16" 6 52] load_bytes_add [of h "q + 22" 2 50]
      load_bytes_add [of h "q + 24" "length hdr" "50 - length hdr"] len(3) by (simp add: add.assoc)
  have parts: "load_bytes (nmem ns) (q + 10) 6 = dst" "load_bytes (nmem ns) (q + 22) 2 = u16_bytes (0x0019 OR push_bit 8 ty)"
      "load_bytes (nmem ns) (q + 24) (length hdr) = hdr"
    using cont(1) len unfolding cuts wire_header_def by auto
  have ty: "load8 (nmem ns) (q + 22) = 0x19"
    using parts(2) proto_byte [of ty] by (simp add: load_bytes_def u16_bytes_def numeral_2_eq_2)
  have n: "unat (of_nat (length bs) :: u32) = length bs" using len(4) by (simp add: unat_of_nat take_bit_nat_eq_self PAGESIZE_def)
  let ?b = "(new_iobuf q 74 0 0)\<lparr>ib_body := pg, ib_body_len := of_nat (length bs), ib_data := q + 24, ib_len := 50, ib_eth := q + 10\<rparr>"
  let ?n2 = "set_buf buf ?b ns"
  have q10: "q + 10 \<noteq> 0" using offs(1) by auto
  have below: "\<not> q + 74 \<le> q + 10" "\<not> q + 74 \<le> q + 24"
    using offs unat_add_of_nat [of q 74] view_facts(6) [OF v(1,3)] v(4) by (simp_all add: word_le_nat_alt)
  have pulls: "iobuf_pull (set_buf buf ((iobufs ns buf)\<lparr>ib_body_len := of_nat (length bs)\<rparr>) ns) buf 10 =
      (q, set_buf buf ((new_iobuf q 74 0 0)\<lparr>ib_body := pg, ib_body_len := of_nat (length bs), ib_data := q + 10, ib_len := 64\<rparr>) ns)"
      "iobuf_pull (set_buf buf ((new_iobuf q 74 0 0)\<lparr>ib_body := pg, ib_body_len := of_nat (length bs), ib_data := q + 10, ib_len := 64\<rparr>) ns) buf 14 =
      (q + 10, set_buf buf ((new_iobuf q 74 0 0)\<lparr>ib_body := pg, ib_body_len := of_nat (length bs), ib_data := q + 24, ib_len := 50\<rparr>) ns)"
    using below b by (simp_all add: iobuf_pull_def new_iobuf_def set_buf_def add.assoc Let_def)
  have eth: "rx_frame nic_mac ns buf (of_nat (74 + length bs)) = bind_res (msg_recv_frame ?n2 buf) (\<lambda>(p, m, ns3). Inr (Some (p, m), ns3))"
    using pulls q10 parts(1) me ty b
    by (simp add: rx_frame_def ethernet_recv_intr_def SIZEOF_VIRTIO_NET_HDR_def SIZEOF_ETHERHEADER_def Let_def new_iobuf_def add.assoc)
       (simp add: set_buf_def)
  obtain p m ns' where r: "msg_recv_frame ?n2 buf = Inr (p, m, ns')" "rm_hdr m = q + 24" "rm_data m = buf"
      "rm_body_len m = of_nat (length bs)"
      "load_bytes (nmem ns') (rm_body m) (unat (rm_body_len m)) = load_bytes (nmem ns) pg (unat (rm_body_len m))"
      "same_on (owned L D) (nmem ns) (nmem ns')"
    using msg_recv_frame_body [of ?n2 A L D buf pg] v len(4) n by auto
  have "load_bytes (nmem ns') (q + 24) (length hdr) = load_bytes (nmem ns) (q + 24) (length hdr)"
    using nw offs(2) v(3,4) len(3) by (intro load_bytes_same_on [OF r(6)]) (auto simp: owned_def bytes_of_def intro!: bexI [of _ "(q, j)"])
  then show ?thesis using eth r n parts(3) cont(2) by simp
qed


section \<open>The receive ring\<close>

text \<open>The buffers on the receive ring: two descriptors each, counted by \<^verbatim>\<open>n_rxbuf\<close>.\<close>

definition rx_ok :: "u64 \<Rightarrow> virtio_net \<Rightarrow> (nat \<times> u64 \<times> qlist list) list \<Rightarrow> (nat \<times> u32) list \<Rightarrow> bool" where
  "rx_ok pv dev busy used \<longleftrightarrow>
     vq_inv pv (vn_rx dev) busy used \<and> (\<forall>b \<in> set busy. length (snd (snd b)) = 2) \<and>
     unat (n_rxbuf dev) = length busy \<and> length busy \<le> 128"

lemma sum_twos: "\<forall>b \<in> set xs. length (snd (snd b)) = 2 \<Longrightarrow> sum_list (map (length \<circ> snd \<circ> snd) xs) = 2 * length xs"
  by (induction xs) auto

lemma rx_ok_enqueue:
  assumes ok: "rx_ok pv dev busy used" and "length busy < 128" "x \<noteq> 0" "length qs = 2"
  shows "\<exists>rx. virtq_enqueue_in pv (vn_rx dev) qs x = Inr rx \<and>
    rx_ok pv (dev\<lparr>vn_rx := rx, n_rxbuf := n_rxbuf dev + 1\<rparr>) ((unat (free_head (vn_rx dev)), x, qs) # busy) used"
proof -
  have r: "vq_inv pv (vn_rx dev) busy used" "\<forall>b \<in> set busy. length (snd (snd b)) = 2" "unat (n_rxbuf dev) = length busy"
    using ok by (auto simp: rx_ok_def)
  have qs: "qs \<noteq> []" using assms(4) by auto
  obtain rx where e: "virtq_enqueue pv (vn_rx dev) qs x True = Inr rx"
    using enqueue_capacity [OF r(1) assms(3) qs, of True] sum_twos [OF r(2)] assms(2,4) by auto
  have "unat (n_rxbuf dev + 1) = Suc (length busy)" using r(3) assms(2) by (simp add: unat_word_ariths)
  then show ?thesis
    using e vq_inv_enqueue [OF r(1) qs e] r(2) assms(2,4) by (intro exI [of _ rx]) (simp add: rx_ok_def virtq_enqueue_in_def)
qed

lemma fill_recv_queue_step:
  assumes ok: "rx_ok pv dev busy used" and lt: "length busy < 128"
    and v: "heap_view (nheap ns) A L D" and room: "n + 3 * PAGESIZE \<le> card A"
  shows "\<exists>dev' ns' A' L' D' b. fill_recv_queue pv dev ns = fill_recv_queue pv dev' ns' \<and> rx_ok pv dev' (b # busy) used \<and>
    heap_view (nheap ns') A' L' D' \<and> n \<le> card A'"
proof -
  have "PAGESIZE < card A" using room by (simp add: PAGESIZE_def)
  moreover have "(0 :: u32) < 74" "(74 :: u32) \<le> 2040" "(0 :: u32) \<le> 74" by simp_all
  ultimately obtain buf q i j A1 and n1 :: net_state where
    a: "alloc_iobuf_headsize ns 74 0 = Inr (buf, n1)" "buf \<noteq> 0"
      "heap_view (nheap n1) A1 (insert (q, j) (insert (buf, i) L)) D" "card A \<le> card A1 + 2 * PAGESIZE"
    using alloc_iobuf_small [OF v, where sz = 74 and headsize = 0] by blast
  have "n + PAGESIZE \<le> card A1" using a(4) room by simp
  then obtain pg h where g: "heap_page (nheap n1) = Inr (pg, h)" "n \<le> card (A1 - block pg 0)"
      "heap_view h (A1 - block pg 0) (insert (q, j) (insert (buf, i) L)) (D \<union> block pg 0)"
    using oh.one_page_more [OF a(3)] by blast
  obtain z where z: "alloc_page (zone (nheap n1)) = Inr (pg, z)" "h = (nheap n1)\<lparr>zone := z\<rparr>"
    using g(1) by (auto simp: heap_page_def bind_res_eq_Inr)
  let ?b = "(iobufs n1 buf)\<lparr>ib_body := pg, ib_body_len := 4096\<rparr>"
  let ?qs = "[\<lparr>q_buf = ib_data ?b, q_len = ib_len ?b\<rparr>, \<lparr>q_buf = ib_body ?b, q_len = ib_body_len ?b\<rparr>]"
  obtain rx where e: "virtq_enqueue_in pv (vn_rx dev) ?qs buf = Inr rx"
      "rx_ok pv (dev\<lparr>vn_rx := rx, n_rxbuf := n_rxbuf dev + 1\<rparr>) ((unat (free_head (vn_rx dev)), buf, ?qs) # busy) used"
    using rx_ok_enqueue [OF ok lt a(2), of ?qs] by auto
  have "n_rxbuf dev < of_nat (NQUEUE div 2)" using ok lt by (simp add: rx_ok_def NQUEUE_def word_less_nat_alt)
  then have "fill_recv_queue pv dev ns =
      fill_recv_queue pv (dev\<lparr>vn_rx := rx, n_rxbuf := n_rxbuf dev + 1\<rparr>) (set_buf buf ?b (n1\<lparr>nheap := h\<rparr>))"
    using a(1,2) z e(1)
    by (subst fill_recv_queue.simps) (simp add: alloc_iobuf_def SIZEOF_VIRTIO_NET_HDR_def ETH_POCV2_MSG_HDR_SIZE_def Let_def)
  moreover have "heap_view (nheap (set_buf buf ?b (n1\<lparr>nheap := h\<rparr>))) (A1 - block pg 0) (insert (q, j) (insert (buf, i) L)) (D \<union> block pg 0)"
    using g(3) by simp
  ultimately show ?thesis using e(2) g(2) by blast
qed

lemma fill_recv_queue_fills:
  assumes "rx_ok pv dev busy used" "heap_view (nheap ns) A L D" "(128 - length busy) * (3 * PAGESIZE) \<le> card A"
  shows "\<exists>dev' ns' new. fill_recv_queue pv dev ns = Inr (dev', ns') \<and> rx_ok pv dev' (new @ busy) used \<and> length (new @ busy) = 128"
  using assms
proof (induction "128 - length busy" arbitrary: dev busy ns A L D)
  case 0
  then have full: "length busy = 128" "unat (n_rxbuf dev) = 128" by (auto simp: rx_ok_def)
  then have "fill_recv_queue pv dev ns = Inr (dev, ns)"
    by (subst fill_recv_queue.simps) (simp add: NQUEUE_def word_less_nat_alt)
  with 0 full show ?case by (intro exI [of _ dev] exI [of _ ns] exI [of _ "[]"]) simp
next
  case (Suc k)
  then have lt: "length busy < 128" by simp
  have "k * (3 * PAGESIZE) + 3 * PAGESIZE \<le> card A" using Suc(2,5) by (metis add.commute mult_Suc)
  then obtain dev1 ns1 A1 L1 D1 b where s: "fill_recv_queue pv dev ns = fill_recv_queue pv dev1 ns1"
      "rx_ok pv dev1 (b # busy) used" "heap_view (nheap ns1) A1 L1 D1" "k * (3 * PAGESIZE) \<le> card A1"
    using fill_recv_queue_step [OF Suc(3) lt Suc(4)] by blast
  have "k = 128 - length (b # busy)" using Suc(2) by simp
  then obtain dev' ns' new where "fill_recv_queue pv dev1 ns1 = Inr (dev', ns')" "rx_ok pv dev' (new @ b # busy) used"
      "length (new @ b # busy) = 128"
    using Suc(1) [of "b # busy" dev1 ns1 A1 L1 D1] s(2-4) by metis
  then show ?case using s(1) by (intro exI [of _ dev'] exI [of _ ns'] exI [of _ "new @ [b]"]) simp
qed

section \<open>Properties\<close>

text \<open>
  C36.  A message survives the way to another node.  Sending a header of at most 50 bytes and a body of at most a
  page hands the driver one frame, and does not touch memory that belongs to anybody else.  When the device of
  the receiver, a node with that address or any node for a broadcast, stores this frame in a buffer prepared by
  the driver, the receive interrupt delivers a message with the same header and the same body.
\<close>

theorem message_roundtrip:
  assumes "heap_view (nheap ns) A L D" and "3 * PAGESIZE \<le> card A"
    and "length dst = 6" and "length mac = 6" and "length hdr \<le> 50" and "\<forall>bs. bdy = Some bs \<longrightarrow> length bs \<le> PAGESIZE"
  shows "\<exists>buf ns'. send_msg_frame xmit mac dev ns dst ty hdr bdy = xmit dev ns' buf \<and>
    same_on (owned L D) (nmem ns) (nmem ns') \<and>
    frame_of ns' buf = wire_header dst mac ty hdr @ (case bdy of Some bs \<Rightarrow> bs | None \<Rightarrow> []) \<and>
    (\<forall>rs rbuf A2 L2 D2 q j pg nic_mac.
       rx_buffer rs rbuf A2 L2 D2 q j pg \<and> holds_frame rs q pg (frame_of ns' buf) \<and> (dst = bcast_mac \<or> dst = nic_mac) \<longrightarrow>
       (\<exists>p m rs'. rx_frame nic_mac rs rbuf (of_nat (10 + length (frame_of ns' buf))) = Inr (Some (p, m), rs') \<and>
          load_bytes (nmem rs') (rm_hdr m) (length hdr) = hdr \<and>
          load_bytes (nmem rs') (rm_body m) (unat (rm_body_len m)) = (case bdy of Some bs \<Rightarrow> bs | None \<Rightarrow> [])))"
proof -
  let ?bs = "case bdy of Some bs \<Rightarrow> bs | None \<Rightarrow> []"
  obtain buf ns' where s: "send_msg_frame xmit mac dev ns dst ty hdr bdy = xmit dev ns' buf"
      "frame_of ns' buf = wire_header dst mac ty hdr @ ?bs" "same_on (owned L D) (nmem ns) (nmem ns')"
    using send_frame [OF assms, where xmit = xmit and dev = dev and ty = ty] by blast
  have lb: "length ?bs \<le> PAGESIZE" using assms(6) by (auto split: option.split)
  have lf: "10 + length (frame_of ns' buf) = 74 + length ?bs"
    using s(2) assms(3-5) by (simp add: wire_header_def)
  have "\<exists>p m rs'. rx_frame nic_mac rs rbuf (of_nat (10 + length (frame_of ns' buf))) = Inr (Some (p, m), rs') \<and>
      load_bytes (nmem rs') (rm_hdr m) (length hdr) = hdr \<and> load_bytes (nmem rs') (rm_body m) (unat (rm_body_len m)) = ?bs"
    if "rx_buffer rs rbuf A2 L2 D2 q j pg \<and> holds_frame rs q pg (frame_of ns' buf) \<and> (dst = bcast_mac \<or> dst = nic_mac)"
    for rs rbuf A2 L2 D2 q j pg nic_mac
  proof -
    have rb: "rx_buffer rs rbuf A2 L2 D2 q j pg" "holds_frame rs q pg (wire_header dst mac ty hdr @ ?bs)" "dst = bcast_mac \<or> dst = nic_mac"
      using that [unfolded s(2)] by blast+
    obtain p m rs' where "rx_frame nic_mac rs rbuf (of_nat (74 + length ?bs)) = Inr (Some (p, m), rs')"
        "load_bytes (nmem rs') (rm_hdr m) (length hdr) = hdr" "unat (rm_body_len m) = length ?bs"
        "load_bytes (nmem rs') (rm_body m) (length ?bs) = ?bs"
      using rx_frame_message [OF rb(1,2) assms(3-5) lb rb(3)] by blast
    then show ?thesis unfolding lf by (intro exI [of _ p] exI [of _ m] exI [of _ rs']) simp
  qed
  with s show ?thesis by blast
qed

definition fresh_net :: net_state where
  "fresh_net = \<lparr>nheap = empty_heap one_block_zone, iobufs = (\<lambda>_. new_iobuf 0 0 0 0)\<rparr>"

lemma fresh_net_view: "heap_view (nheap fresh_net) (free_area one_block) {} {}" "8 * PAGESIZE \<le> card (free_area one_block)"
proof -
  have "in_use (\<lambda>_. []) (\<lambda>_. []) = {}" by (auto simp: in_use_def live_def)
  then show "heap_view (nheap fresh_net) (free_area one_block) {} {}"
    using empty_heap_ok [OF one_block_pages(1)] by (auto simp: heap_view_def fresh_net_def intro!: exI [of _ "\<lambda>_. []"])
  have "free_area one_block = block 0xc0200000 9" by (auto simp: free_area_def one_block_def MAX_ORDER_def)
  then show "8 * PAGESIZE \<le> card (free_area one_block)" by (simp add: block_def block_size_def PAGESIZE_def)
qed

lemma rx_buffer_exists:
  assumes "64 \<le> length f" "length f \<le> 64 + PAGESIZE"
  shows "\<exists>rs rbuf A L D q j pg. rx_buffer rs rbuf A L D q j pg \<and> holds_frame rs q pg f"
proof -
  have "PAGESIZE < card (free_area one_block)" using fresh_net_view(2) by (simp add: PAGESIZE_def)
  moreover have "(0 :: u32) < 74" "(74 :: u32) \<le> 2040" "(0 :: u32) \<le> 74" by simp_all
  ultimately obtain rbuf q i j A1 and n1 :: net_state where
    "iobufs n1 = (iobufs fresh_net)(rbuf := new_iobuf q 74 0 0)" "heap_view (nheap n1) A1 {(q, j), (rbuf, i)} {}"
      "card (free_area one_block) \<le> card A1 + 2 * PAGESIZE" "unat (74 :: u32) \<le> bs_of j"
    using alloc_iobuf_small [OF fresh_net_view(1), where sz = 74 and headsize = 0] by blast
  then have a: "iobufs n1 = (iobufs fresh_net)(rbuf := new_iobuf q 74 0 0)" "heap_view (nheap n1) A1 {(q, j), (rbuf, i)} {}"
      "card (free_area one_block) \<le> card A1 + 2 * PAGESIZE" "74 \<le> bs_of j"
    by simp_all
  have "3 * PAGESIZE \<le> card A1" using a(3) fresh_net_view(2) by (simp add: PAGESIZE_def)
  then obtain pg h where g: "pg \<noteq> 0" "block_ok pg 0" "heap_view h (A1 - block pg 0) {(q, j), (rbuf, i)} (block pg 0)"
      "2 * PAGESIZE \<le> card (A1 - block pg 0)"
    using oh.one_page_more [OF a(2), of "2 * PAGESIZE"] by auto
  let ?b = "(new_iobuf q 74 0 0)\<lparr>ib_body := pg, ib_body_len := 4096\<rparr>"
  let ?n2 = "set_buf rbuf ?b (n1\<lparr>nheap := h\<rparr>)"
  let ?n3 = "set_mem (store_bytes (q + 10) (take 64 f) (nmem ?n2)) ?n2"
  let ?n4 = "set_mem (store_bytes pg (drop 64 f) (nmem ?n3)) ?n3"
  have nw: "unat q + 74 \<le> 2 ^ 64" using view_facts(1) [OF g(3), of q j] a(4) by simp
  have q10: "unat (q + 10) = unat q + 10" using unat_offset [OF nw, of 10] by simp
  have lb: "length (drop 64 f) \<le> PAGESIZE" using assms by simp
  note pr = page_range [OF g(2) lb]
  have v3: "heap_view (nheap ?n3) (A1 - block pg 0) {(q, j), (rbuf, i)} (block pg 0)"
    using g(3) nw q10 assms a(4) by (intro view_store_block [of _ _ _ _ q j]) (auto simp: bytes_of_def)
  have v4: "heap_view (nheap ?n4) (A1 - block pg 0) {(q, j), (rbuf, i)} (block pg 0)"
    using view_store_page [OF v3, of pg "drop 64 f"] pr by simp
  have apart: "{unat q + 10 ..< unat q + 74} \<inter> block pg 0 = {}"
  proof -
    have "{unat q + 10 ..< unat q + 74} \<subseteq> bytes_of (q, j)" using a(4) by (auto simp: bytes_of_def)
    then show ?thesis using view_apart(3) [OF v3, of "(q, j)"] by blast
  qed
  have "load_bytes (nmem ?n4) (q + 10) 64 = load_bytes (nmem ?n3) (q + 10) 64"
  proof (rule load_bytes_cong)
    fix x assume "in_range (q + 10) 64 x"
    then have "unat x \<in> {unat q + 10 ..< unat q + 74}" using q10 by (simp add: in_range_def)
    then have "unat x \<notin> block pg 0" using apart by blast
    then have "\<not> in_range pg (length (drop 64 f)) x" using pr unfolding in_range_def by (metis atLeastLessThan_iff subsetD)
    then show "load8 (nmem ?n4) x = load8 (nmem ?n3) x"
      using load8_store_bytes [of pg "drop 64 f" "nmem ?n3" x] pr by (simp add: set_mem_view)
  qed (use nw q10 in simp)
  then have "holds_frame ?n4 q pg f"
    using load_bytes_stored [of "q + 10" "take 64 f"] load_bytes_stored [of pg "drop 64 f"] nw q10 pr assms
    by (simp add: holds_frame_def set_mem_view)
  moreover have "rx_buffer ?n4 rbuf (A1 - block pg 0) {(q, j), (rbuf, i)} (block pg 0) q j pg"
    using v4 g a(4) by (simp add: rx_buffer_def set_mem_view)
  ultimately show ?thesis by blast
qed

theorem message_roundtrip_witness:
  "\<exists>buf ns' rs rbuf m rs'. send_msg_frame (\<lambda>d n b. Inr (d, n)) [2, 0, 0, 0, 0, 1] () fresh_net bcast_mac 10 [1, 2, 3, 4, 5, 6, 7, 8] (Some [42, 43]) =
       Inr ((), ns') \<and>
     rx_frame [2, 0, 0, 0, 0, 2] rs rbuf (of_nat (10 + length (frame_of ns' buf))) = Inr (Some m, rs') \<and>
     load_bytes (nmem rs') (rm_body (snd m)) (unat (rm_body_len (snd m))) = [42, 43]"
proof -
  let ?mac = "[2, 0, 0, 0, 0, 1] :: u8 list" and ?hdr = "[1, 2, 3, 4, 5, 6, 7, 8] :: u8 list"
  have room: "3 * PAGESIZE \<le> card (free_area one_block)" using fresh_net_view(2) by (simp add: PAGESIZE_def)
  have bd: "\<forall>bs. Some [42, 43 :: u8] = Some bs \<longrightarrow> length bs \<le> PAGESIZE" by (auto simp: PAGESIZE_def)
  obtain buf ns' where s: "send_msg_frame (\<lambda>d n b. Inr (d, n)) ?mac () fresh_net bcast_mac 10 ?hdr (Some [42, 43]) = Inr ((), ns')"
    and f: "frame_of ns' buf = wire_header bcast_mac ?mac 10 ?hdr @ [42, 43]"
    and r: "\<forall>rs rbuf A2 L2 D2 q j pg nic_mac.
       rx_buffer rs rbuf A2 L2 D2 q j pg \<and> holds_frame rs q pg (frame_of ns' buf) \<and> (bcast_mac = bcast_mac \<or> bcast_mac = nic_mac) \<longrightarrow>
       (\<exists>p m rs'. rx_frame nic_mac rs rbuf (of_nat (10 + length (frame_of ns' buf))) = Inr (Some (p, m), rs') \<and>
          load_bytes (nmem rs') (rm_hdr m) (length ?hdr) = ?hdr \<and>
          load_bytes (nmem rs') (rm_body m) (unat (rm_body_len m)) = [42, 43])"
    using message_roundtrip [OF fresh_net_view(1) room _ _ _ bd, of bcast_mac ?mac ?hdr "\<lambda>d n b. Inr (d, n)" "()" 10]
    by (auto simp: bcast_mac_def)
  have "64 \<le> length (frame_of ns' buf)" "length (frame_of ns' buf) \<le> 64 + PAGESIZE"
    unfolding f by (simp_all add: wire_header_def bcast_mac_def PAGESIZE_def)
  then obtain rs rbuf A L D q j pg where "rx_buffer rs rbuf A L D q j pg" "holds_frame rs q pg (frame_of ns' buf)"
    using rx_buffer_exists by blast
  with r s show ?thesis by fastforce
qed


text \<open>
  C37.  The receive ring never runs out of descriptors: with memory for the missing buffers, filling the ring
  returns, every buffer that was on it stays there, and afterwards it holds 128 buffers of two descriptors each,
  which is the whole table.
\<close>

theorem receive_ring_filled:
  assumes "rx_ok pv dev busy used" and "heap_view (nheap ns) A L D" and "(128 - length busy) * (3 * PAGESIZE) \<le> card A"
  shows "\<exists>dev' ns' new. fill_recv_queue pv dev ns = Inr (dev', ns') \<and> rx_ok pv dev' (new @ busy) used \<and> length (new @ busy) = 128"
  by (rule fill_recv_queue_fills [OF assms])

lemma fresh_rx_ok:
  assumes "virtq_create s q = Inr (vq, s')"
  shows "rx_ok pv \<lparr>vn_tx = vq, vn_rx = vq, n_rxbuf = 0, vn_notified = []\<rparr> [] []"
  using vq_run_inv [OF vq_run.create [OF assms]] by (simp add: rx_ok_def)

theorem receive_ring_filled_witness:
  "\<exists>vq ns A dev' ns' new. heap_view (nheap ns) A {} {} \<and>
     fill_recv_queue 0 \<lparr>vn_tx = vq, vn_rx = vq, n_rxbuf = 0, vn_notified = []\<rparr> ns = Inr (dev', ns') \<and> rx_ok 0 dev' new [] \<and> length new = 128"
proof -
  obtain vq s where c: "virtq_create one_block_zone 0 = Inr (vq, s)"
    using virtq_create_returns [OF one_block_pages] by blast
  have "128 * (3 * PAGESIZE) \<le> card (free_area one_block)"
  proof -
    have "free_area one_block = block 0xc0200000 9" by (auto simp: free_area_def one_block_def MAX_ORDER_def)
    then show ?thesis by (simp add: block_def block_size_def PAGESIZE_def)
  qed
  then show ?thesis
    using receive_ring_filled [OF fresh_rx_ok [OF c] fresh_net_view(1), of 0] fresh_net_view(1) by (auto simp: exI)
qed

end
