(* ===== verification/Printf.thy ===== *)
theory Printf
  imports Prelude
begin

text \<open>
  Formatted output, \<^verbatim>\<open>core/printf.c\<close>: numbers in any base up to 16 with a width, the directives of the format
  string and the buffer of the log.  The characters that reach \<^verbatim>\<open>putc\<close> are collected in a list.  The variable arguments
  are a list of values; \<^verbatim>\<open>va_arg\<close> of the wrong type or past the end is undefined.
\<close>

section \<open>Numbers\<close>

record printopt =
  pr_0x :: bool
  zero_pad :: bool

definition no_opt :: printopt where
  "no_opt = \<lparr>pr_0x = False, zero_pad = False\<rparr>"

definition hexdigits :: string where
  "hexdigits = ''0123456789abcdef''"

text \<open>The digits of a number, most significant first; the loop stores them from the last to the first.\<close>

function digit_loop :: "nat \<Rightarrow> nat \<Rightarrow> string \<Rightarrow> string" where
  "digit_loop base unum acc =
     (let acc' = hexdigits ! (unum mod base) # acc
      in if 2 \<le> base \<and> unum div base \<noteq> 0 then digit_loop base (unum div base) acc' else acc')"
  by pat_completeness auto
termination
proof (relation "measure (\<lambda>(base, unum, acc). unum)", goal_cases)
  case (2 base unum acc acc')
  then have "1 < base" "0 < unum" by (auto intro: gr0I)
  then show ?case by simp
qed simp

declare digit_loop.simps [simp del]

text \<open>
  The characters are stored from the end of \<^verbatim>\<open>char buf[sizeof(num) * 8 + 1]\<close> downwards, behind them the
  terminator, so that there is room for 64; a 65th is written in front of the buffer.  The callers pass
  10 and 16 as the base.  With 0 the code divides by zero, with 1 it never stops storing digits, and above 16
  it indexes the digits out of bounds; all these are \<open>Undefined\<close>.
\<close>

definition PRINT_BUF :: nat where
  "PRINT_BUF = 8 * 8 + 1"

definition printiu64 :: "u64 \<Rightarrow> nat \<Rightarrow> bool \<Rightarrow> int \<Rightarrow> printopt \<Rightarrow> string res" where
  "printiu64 num base sign digit opt =
     (if base < 2 \<or> 16 < base then Inl (Undefined ''unum % base'')
      else
        let neg = (sign \<and> num <s 0);
            unum = (if neg then (- (num + 1)) + 1 else num);
            s1 = digit_loop base (unat unum) [];
            s2 = (if pr_0x opt then ''0x'' @ s1 else s1);
            s3 = (if neg then CHR ''-'' # s2 else s2);
            len = int (length s3);
            padl = (if digit > 0 then replicate (nat (digit - len)) (if zero_pad opt then CHR ''0'' else CHR '' '') else []);
            digit' = (if digit > 0 then min digit len - 1 else digit);
            padr = (if digit' < 0 then replicate (nat (- digit' - len)) (CHR '' '') else [])
        in if PRINT_BUF < Suc (length s3) then Inl (Undefined ''*--cur'') else Inr (padl @ s3 @ padr))"

section \<open>Format strings\<close>

definition isdigit :: "char \<Rightarrow> bool" where
  "isdigit c \<longleftrightarrow> of_char (CHR ''0'') \<le> (of_char c :: nat) \<and> (of_char c :: nat) \<le> of_char (CHR ''9'')"

fun read_digits :: "string \<Rightarrow> int \<Rightarrow> int \<times> string" where
  "read_digits [] n = (n, [])"
| "read_digits (c # cs) n = (if isdigit c then read_digits cs (n * 10 + (of_char c - 48)) else (n, c # cs))"

definition fetch_digit :: "string \<Rightarrow> int \<times> printopt \<times> string" where
  "fetch_digit fmt =
     (case fmt of
        c # cs \<Rightarrow>
          if c = CHR ''-'' then (let (n, r) = read_digits cs 0 in (- n, no_opt, r))
          else if c = CHR ''0'' then (let (n, r) = read_digits cs 0 in (n, no_opt\<lparr>zero_pad := True\<rparr>, r))
          else (let (n, r) = read_digits fmt 0 in (n, no_opt, r))
      | [] \<Rightarrow> (0, no_opt, []))"

text \<open>The arguments; a string or a hardware address is a pointer that may be null.\<close>

datatype varg = VI32 u32 | VU32 u32 | VU64 u64 | VPtr u64 | VChar char | VStr "string option" | VMac "u8 list option"

fun prmacaddr :: "u8 list \<Rightarrow> string res" where
  "prmacaddr [] = Inr []"
| "prmacaddr [b] = printiu64 (ucast b) 16 False 2 (no_opt\<lparr>zero_pad := True\<rparr>)"
| "prmacaddr (b # bs) =
     bind_res (printiu64 (ucast b) 16 False 2 (no_opt\<lparr>zero_pad := True\<rparr>)) (\<lambda>s.
       bind_res (prmacaddr bs) (\<lambda>t. Inr (s @ '':'' @ t)))"

definition with_args :: "string res \<Rightarrow> varg list \<Rightarrow> (string \<times> varg list) res" where
  "with_args s ap = bind_res s (\<lambda>t. Inr (t, ap))"

definition NUL :: char where
  "NUL = CHR 0x00"

text \<open>
  One directive: the text it prints and the arguments that are left.  A directive that is not known is printed
  as it is.
\<close>

definition directive :: "char \<Rightarrow> int \<Rightarrow> printopt \<Rightarrow> varg list \<Rightarrow> (string \<times> varg list) res" where
  "directive c digit opt ap =
     (if c = CHR ''d'' then (case ap of VI32 w # r \<Rightarrow> with_args (printiu64 (scast w) 10 True digit opt) r | _ \<Rightarrow> Inl (Undefined ''va_arg''))
      else if c = CHR ''u'' then (case ap of VU32 w # r \<Rightarrow> with_args (printiu64 (ucast w) 10 False digit opt) r | _ \<Rightarrow> Inl (Undefined ''va_arg''))
      else if c = CHR ''x'' then (case ap of VU64 w # r \<Rightarrow> with_args (printiu64 w 16 False digit opt) r | _ \<Rightarrow> Inl (Undefined ''va_arg''))
      else if c = CHR ''p'' then
        (case ap of VPtr w # r \<Rightarrow> with_args (printiu64 w 16 False digit (no_opt\<lparr>pr_0x := True\<rparr>)) r | _ \<Rightarrow> Inl (Undefined ''va_arg''))
      else if c = CHR ''c'' then (case ap of VChar x # r \<Rightarrow> Inr ([x], r) | _ \<Rightarrow> Inl (Undefined ''va_arg''))
      else if c = CHR ''s'' then
        (case ap of VStr s # r \<Rightarrow> Inr ((case s of Some t \<Rightarrow> t | None \<Rightarrow> ''(null)''), r) | _ \<Rightarrow> Inl (Undefined ''va_arg''))
      else if c = CHR ''m'' then
        (case ap of VMac m # r \<Rightarrow> with_args (case m of Some t \<Rightarrow> prmacaddr (take 6 t) | None \<Rightarrow> Inr []) r | _ \<Rightarrow> Inl (Undefined ''va_arg''))
      else if c = CHR 0x25 then Inr ([CHR 0x25], ap)
      else Inr ([CHR 0x25, c], ap))"

lemma read_digits_length: "length (snd (read_digits cs n)) \<le> length cs"
  by (induction cs n rule: read_digits.induct) auto

lemma fetch_digit_length: "fetch_digit fmt = (d, opt, r) \<Longrightarrow> length r \<le> length fmt"
proof (cases fmt)
  case (Cons c cs)
  assume "fetch_digit fmt = (d, opt, r)"
  then show ?thesis
    using Cons read_digits_length [of cs 0] read_digits_length [of fmt 0]
    by (auto simp: fetch_digit_def split: if_splits prod.splits)
qed (simp add: fetch_digit_def)

text \<open>
  The loop over the format string, without its terminator.  A \<^verbatim>\<open>%\<close> at the end makes the loop run past the terminator.
\<close>

function vprintf_loop :: "string \<Rightarrow> varg list \<Rightarrow> string res" where
  "vprintf_loop fmt ap =
     (case fmt of
        [] \<Rightarrow> Inr []
      | c # cs \<Rightarrow>
          if c = CHR 0x25 then
            (case fetch_digit cs of (digit, opt, r) \<Rightarrow>
               (case r of
                  [] \<Rightarrow> Inl (Undefined ''fmt'')
                | d # rest \<Rightarrow>
                    bind_res (directive d digit opt ap) (\<lambda>(out, ap'). bind_res (vprintf_loop rest ap') (\<lambda>out'. Inr (out @ out')))))
          else
            bind_res (vprintf_loop cs ap) (\<lambda>out. Inr ((if c = CHR 0x0a then [CHR 0x0d, c] else [c]) @ out)))"
  by pat_completeness auto
termination
proof (relation "measure (\<lambda>(fmt, ap). length fmt)", goal_cases)
  case (2 fmt ap c cs digit x opt r d rest)
  then have "length (d # rest) \<le> length cs" using fetch_digit_length by metis
  with 2 show ?case by simp
qed auto

declare vprintf_loop.simps [simp del]

definition vprintf_core :: "string \<Rightarrow> varg list \<Rightarrow> string res" where
  "vprintf_core fmt ap = bind_res (vprintf_loop fmt ap) (\<lambda>out. Inr (out @ [NUL]))"

section \<open>Destinations\<close>

definition PRINT_NBUF :: nat where
  "PRINT_NBUF = 32 * 1024"

record log_state =
  printbuf :: "char list"
  pbuf_head :: nat
  pbuf_tail :: nat

definition lputc :: "char \<Rightarrow> log_state \<Rightarrow> log_state" where
  "lputc c l = l\<lparr>printbuf := (printbuf l)[pbuf_tail l := c], pbuf_tail := (pbuf_tail l + 1) mod PRINT_NBUF\<rparr>"

text \<open>What \<^verbatim>\<open>logflush\<close> writes to the serial port.\<close>

function flush_from :: "log_state \<Rightarrow> nat \<Rightarrow> nat \<Rightarrow> string" where
  "flush_from l i 0 = []"
| "flush_from l i (Suc k) = (if i = pbuf_tail l then [] else printbuf l ! i # flush_from l ((i + 1) mod PRINT_NBUF) k)"
  by pat_completeness auto
termination
  by (relation "measure (\<lambda>(l, i, k). k)") auto

definition logflush :: "log_state \<Rightarrow> string" where
  "logflush l = flush_from l (pbuf_head l) PRINT_NBUF"

definition LWARN :: int where "LWARN = 1"
definition LLOG :: int where "LLOG = 2"

definition levelprefix :: "int \<Rightarrow> u32 \<Rightarrow> u32 \<Rightarrow> string res" where
  "levelprefix level nodeid cpu =
     (if level = LWARN then vprintf_core ''[warning]: Node%d:cpu%d: '' [VI32 nodeid, VI32 cpu]
      else if level = LLOG then vprintf_core ''[log]: Node%d:cpu%d: '' [VI32 nodeid, VI32 cpu]
      else Inr [])"

text \<open>
  \<^verbatim>\<open>printf\<close>: the text, and the log with it when the level says that it goes there rather than to the serial port.
\<close>

definition printf :: "u32 \<Rightarrow> u32 \<Rightarrow> string \<Rightarrow> varg list \<Rightarrow> log_state \<Rightarrow> (string \<times> log_state) res" where
  "printf nodeid cpu fmt ap l =
     bind_res
       (case fmt of
          a # r \<Rightarrow> if a = CHR 0x01 then (case r of b # r' \<Rightarrow> Inr (of_char b - 48, r') | [] \<Rightarrow> Inl (Undefined ''fmt'')) else Inr (0 :: int, fmt)
        | [] \<Rightarrow> Inr (0, fmt))
       (\<lambda>(level, fmt1).
          bind_res (if level \<noteq> 0 then levelprefix level nodeid cpu else Inr []) (\<lambda>pre.
            bind_res (vprintf_core fmt1 ap) (\<lambda>out.
              if level \<le> LLOG then Inr (pre @ out, l) else Inr ([], fold lputc (pre @ out) l))))"


section \<open>Reading numbers back\<close>

definition digit_value :: "char \<Rightarrow> nat" where
  "digit_value c = (let n = of_char c in if n < 58 then n - 48 else n - 87)"

definition value_of :: "nat \<Rightarrow> string \<Rightarrow> nat" where
  "value_of base s = foldl (\<lambda>n c. n * base + digit_value c) 0 s"

text \<open>The value of a printed number, with an optional sign.\<close>

definition read_number :: "nat \<Rightarrow> string \<Rightarrow> int" where
  "read_number base s = (case s of c # r \<Rightarrow> if c = CHR ''-'' then - int (value_of base r) else int (value_of base s) | [] \<Rightarrow> 0)"

lemma hexdigit_facts:
  assumes "d < 16"
  shows "digit_value (hexdigits ! d) = d" "hexdigits ! d \<noteq> CHR ''-''"
proof -
  have "list_all (\<lambda>d. digit_value (hexdigits ! d) = d \<and> hexdigits ! d \<noteq> CHR ''-'') [0..<16]" by code_simp
  then show "digit_value (hexdigits ! d) = d" "hexdigits ! d \<noteq> CHR ''-''" using assms by (auto simp: list_all_iff)
qed

lemma value_of_append: "value_of base (s @ t) = value_of base s * base ^ length t + value_of base t"
proof -
  have "foldl (\<lambda>n c. n * base + digit_value c) m t = m * base ^ length t + foldl (\<lambda>n c. n * base + digit_value c) 0 t" for m
  proof (induction t arbitrary: m)
    case (Cons c t)
    show ?case using Cons [of "m * base + digit_value c"] Cons [of "digit_value c"] by (simp add: distrib_right mult.assoc)
  qed simp
  then show ?thesis unfolding value_of_def foldl_append by blast
qed

lemma digit_loop_append: "digit_loop base n acc = digit_loop base n [] @ acc"
proof (induction n arbitrary: acc rule: less_induct)
  case (less n)
  let ?d = "hexdigits ! (n mod base)"
  show ?case
  proof (cases "2 \<le> base \<and> n div base \<noteq> 0")
    case True
    then have "n div base < n" by (intro div_less_dividend) (auto intro: gr0I)
    then have "digit_loop base (n div base) (?d # acc) = digit_loop base (n div base) [?d] @ acc"
      using less [of "n div base" "?d # acc"] less [of "n div base" "[?d]"] by simp
    with True show ?thesis by (subst (1 2) digit_loop.simps) (simp add: Let_def)
  next
    case False
    then show ?thesis by (subst (1 2) digit_loop.simps) (auto simp: Let_def)
  qed
qed

text \<open>The digits of a number: the last one after those of the quotient.\<close>

lemma digit_loop_step:
  assumes "2 \<le> base"
  shows "digit_loop base n [] = (if n div base = 0 then [] else digit_loop base (n div base) []) @ [hexdigits ! (n mod base)]"
  using assms digit_loop_append [of base "n div base" "[hexdigits ! (n mod base)]"]
  by (subst digit_loop.simps) (simp add: Let_def)

lemma digit_loop_reads:
  assumes "2 \<le> base" "base \<le> 16"
  shows "value_of base (digit_loop base n []) = n \<and> digit_loop base n [] \<noteq> [] \<and> hd (digit_loop base n []) \<noteq> CHR ''-''"
proof (induction n rule: less_induct)
  case (less n)
  have "n mod base < base" using assms by simp
  then have lt: "n mod base < 16" using assms by linarith
  note d = hexdigit_facts [OF lt]
  have one: "value_of base [hexdigits ! (n mod base)] = n mod base" using d(1) by (simp add: value_of_def)
  show ?case
  proof (cases "n div base = 0")
    case True
    then have "n mod base = n" using div_mult_mod_eq [of n base] by simp
    then show ?thesis using True d one digit_loop_step [OF assms(1), of n] by simp
  next
    case False
    moreover have "n div base < n" using False assms by (intro div_less_dividend) (auto intro: gr0I)
    ultimately show ?thesis using less one digit_loop_step [OF assms(1), of n] by (simp add: value_of_append)
  qed
qed

lemma magnitude:
  assumes "(num :: u64) <s 0"
  shows "int (unat ((- (num + 1)) + 1)) = - sint num"
proof -
  have "(- (num + 1)) + 1 = - num" by simp
  moreover have "sint num < 0" using assms by (simp add: word_sless_alt)
  then have "uint (- num) = - sint num"
  proof -
    have "- (2 ^ 63) \<le> sint num" using sint_ge [of num] by simp
    moreover have "(- num) = word_of_int (- sint num)" by simp
    ultimately show ?thesis using \<open>sint num < 0\<close> by (simp only: uint_word_of_int) (simp add: mod_pos_pos_trivial)
  qed
  ultimately show ?thesis by simp
qed

text \<open>The digits of a 64 bit number fit into the buffer in every base.\<close>

lemma digit_loop_fits: "2 \<le> base \<Longrightarrow> n < base ^ k \<Longrightarrow> 0 < k \<Longrightarrow> length (digit_loop base n []) \<le> k"
proof (induction k arbitrary: n)
  case (Suc k)
  have "n div base < base ^ k" using Suc.prems by (metis less_mult_imp_div_less mult.commute power_Suc)
  then show ?case using Suc digit_loop_step [OF Suc.prems(1), of n] by (cases "k = 0") auto
qed simp

text \<open>Zeroes are put in front of the sign of a negative number.\<close>

lemma zero_pad_before_sign: "printiu64 (- 5) 10 True 5 (no_opt\<lparr>zero_pad := True\<rparr>) = Inr ''000-5''"
  by code_simp

section \<open>Property\<close>

lemma digits_of_u64:
  fixes n :: u64
  shows "2 \<le> base \<Longrightarrow> length (digit_loop base (unat n) []) \<le> 64"
proof (rule digit_loop_fits)
  assume "2 \<le> base"
  then have "(2 :: nat) ^ 64 \<le> base ^ 64" by (rule power_mono) simp
  then show "unat n < base ^ 64" using unat_less_64 [of n] by linarith
qed simp_all

text \<open>The magnitude of a negative number leaves room for the sign, but for \<open>2 ^ 63\<close> in base 2.\<close>

lemma digits_of_magnitude:
  assumes "2 \<le> base" and "m \<le> 2 ^ 63" and "base \<noteq> 2 \<or> m \<noteq> 2 ^ 63"
  shows "length (digit_loop base m []) \<le> 63"
proof (cases "base = 2")
  case True
  then show ?thesis using digit_loop_fits [of 2 m 63] assms(2,3) by simp
next
  case False
  then have "(3 :: nat) ^ 63 \<le> base ^ 63" using assms(1) by (intro power_mono) simp_all
  then have "m < base ^ 63" using assms(2) by simp
  then show ?thesis using digit_loop_fits [OF assms(1), of m 63] by simp
qed

lemma digits_of_power: "length (digit_loop 2 (2 ^ k) []) = Suc k"
proof (induction k)
  case 0
  show ?case by (subst digit_loop_step) simp_all
next
  case (Suc k)
  then show ?case by (subst digit_loop_step) simp_all
qed



end
