(* ===== verification/Bring_Up.thy ===== *)
theory Bring_Up
  imports Vsm_Cluster Local_Vm
begin

text \<open>
  How the cluster comes up, \<^verbatim>\<open>core/node.c\<close> with \<^verbatim>\<open>main/node.c\<close> and \<^verbatim>\<open>sub/node.c\<close>: node 0 broadcasts an
  initialisation request, the sub-nodes answer with what they contribute, node 0 enters them in its
  table and broadcasts it, every node sets up its part of the guest, the sub-nodes report, and node 0
  boots the guest.  The machines are a list whose head runs the code of node 0.  A function that waits
  is cut where it waits, and the parts are steps; message handlers run between them.  Frames on the
  wire are delivered in any order, none is lost or duplicated.  In every reachable state the table is
  well-formed and the messages in flight match the states of the machines; when node 0 is ready, all
  machines have the same table and an entry of their own in it, and hold the pages of their slice.
\<close>

section \<open>State\<close>

datatype boot_hdr =
    InitReq
  | InitAck nat u64
  | ClusterInfo nat nat "cluster_node list"
  | SetupDone u8
  | BootSig

text \<open>
  Where \<^verbatim>\<open>cluster_init\<close> and \<^verbatim>\<open>subnode_cluster_init\<close> are: before the start, in one of the three waits, or
  past the end.
\<close>

datatype place = Start | WaitOnline | WaitReady | WaitAcked | Up

text \<open>
  \<^verbatim>\<open>localnode\<close>, as far as it concerns the start.  \<open>mynode\<close> is the index of \<^verbatim>\<open>localnode.node\<close> in the
  cluster table; on a sub-node it is set together with \<^verbatim>\<open>localnode.acked\<close>.
\<close>

record bnode =
  nic :: "u8 list option"
  vm_nvcpu :: nat
  vm_nalloc :: u64
  vm_vcpus :: "vcpu list"
  mynode :: "nat option"
  vsm :: vnode
  bootclk :: u64
  place :: place

text \<open>A frame: the machines it goes from and to, the source address in its header, the message.\<close>

type_synonym frame = "nat \<times> nat \<times> u8 list \<times> boot_hdr msg"

text \<open>What a function sends: the destination address, \<open>None\<close> for a broadcast, and the message.\<close>

type_synonym sends = "(u8 list option \<times> boot_hdr msg) list"

record boot =
  nodes :: "bnode list"
  wire :: "frame list"

definition btable :: "bnode \<Rightarrow> cluster_state" where
  "btable n = clust (vsm n)"

definition set_btable :: "cluster_state \<Rightarrow> bnode \<Rightarrow> bnode" where
  "set_btable c n = n\<lparr>vsm := (vsm n)\<lparr>clust := c\<rparr>\<rparr>"

section \<open>Messages\<close>

definition boot_msg :: "bnode \<Rightarrow> nat \<Rightarrow> msgtype \<Rightarrow> boot_hdr \<Rightarrow> boot_hdr msg \<times> bnode" where
  "boot_msg n dst ty h =
     (let (g, c) = msg_init_reqcpu (local_nodeid (vsm n)) (conid (vsm n)) dst ty h None 0
      in (g, n\<lparr>vsm := (vsm n)\<lparr>conid := c\<rparr>\<rparr>))"

definition send_msg_bcast :: "bnode \<Rightarrow> msgtype \<Rightarrow> boot_hdr \<Rightarrow> bnode \<times> sends" where
  "send_msg_bcast n ty h = (let (g, n1) = boot_msg n 0 ty h in (n1, [(None, g)]))"

text \<open>\<^verbatim>\<open>send_msg\<close> to node 0, whose address is the one in the table.\<close>

definition send_msg_node0 :: "bnode \<Rightarrow> msgtype \<Rightarrow> boot_hdr \<Rightarrow> bnode \<times> sends" where
  "send_msg_node0 n ty h =
     (let (g, n1) = boot_msg n 0 ty h in (n1, [(Some (mac (cluster (btable n1) ! 0)), g)]))"

definition broadcast_init_request :: "bnode \<Rightarrow> bnode \<times> sends" where
  "broadcast_init_request n = send_msg_bcast n MSG_INIT InitReq"

definition broadcast_cluster_info :: "bnode \<Rightarrow> bnode \<times> sends" where
  "broadcast_cluster_info n =
     (let c = btable n
      in send_msg_bcast n MSG_CLUSTER_INFO (ClusterInfo (nr_cluster_nodes c) (nr_cluster_vcpus c) (cluster c)))"

definition send_setup_done_notify :: "bnode \<Rightarrow> u8 \<Rightarrow> bnode \<times> sends" where
  "send_setup_done_notify n status = send_msg_node0 n MSG_SETUP_DONE (SetupDone status)"

definition init_ack :: "bnode \<Rightarrow> u8 list \<Rightarrow> nat \<Rightarrow> u64 \<Rightarrow> bnode \<times> sends" where
  "init_ack n node0_mac nv allocated =
     (let c = btable n;
          n1 = set_btable (c\<lparr>cluster := (cluster c)[0 := (cluster c ! 0)\<lparr>mac := node0_mac\<rparr>]\<rparr>) n
      in send_msg_node0 n1 MSG_INIT_ACK (InitAck nv allocated))"

definition setup_node0_bootclock :: "bnode \<Rightarrow> u64 \<Rightarrow> bnode" where
  "setup_node0_bootclock n now = n\<lparr>bootclk := now\<rparr>"

definition broadcast_boot_signal :: "bnode \<Rightarrow> bnode \<times> sends" where
  "broadcast_boot_signal n = send_msg_bcast n MSG_BOOT_SIG BootSig"

section \<open>Setting up a node\<close>

definition vcpuid_to_vaff :: "nat \<Rightarrow> u64" where
  "vcpuid_to_vaff v = of_nat v"

definition vcpuid_set :: "nat \<Rightarrow> vcpu \<Rightarrow> nat \<Rightarrow> vcpu" where
  "vcpuid_set nr v i =
     v\<lparr>vcpuid := i, vmpidr := vcpuid_to_vaff i, last_vcpu := (int i = int nr - 1)\<rparr>"

definition vcpuid_init :: "nat \<Rightarrow> vcpu list \<Rightarrow> nat list \<Rightarrow> nat \<Rightarrow> vcpu list res" where
  "vcpuid_init nr vs ids n =
     (if length vs < n \<or> length ids < n then Inl (Undefined ''vcpus[8]'')
      else Inr (map2 (vcpuid_set nr) (take n vs) (take n ids) @ drop n vs))"

text \<open>\<open>fr\<close> gives the pages the allocator returns, as in \<^const>\<open>vsm_node_init\<close>.\<close>

definition cluster_node_me_setup :: "(nat \<Rightarrow> physaddr) \<Rightarrow> bnode \<Rightarrow> bnode res" where
  "cluster_node_me_setup fr n =
     (case mynode n of
        None \<Rightarrow> Inl (Undefined ''cluster_me'')
      | Some i \<Rightarrow>
          let me = cluster (btable n) ! i in
          bind_res (vsm_node_init (vsm n) (cmem me) fr) (\<lambda>v.
          bind_res (vcpuid_init (nr_cluster_vcpus (clust v)) (vm_vcpus n) (vcpus me) (nvcpu me)) (\<lambda>vs.
            Inr (n\<lparr>vsm := v\<lparr>clust := node_set_active (clust v) (nodeid me) True\<rparr>, vm_vcpus := vs\<rparr>))))"

section \<open>Node 0\<close>

text \<open>\<^verbatim>\<open>node0_init\<close> and \<^verbatim>\<open>cluster_init\<close> up to the first wait; without a network card the function returns.\<close>

definition cluster_init_begin :: "bnode \<Rightarrow> (bnode \<times> sends) res" where
  "cluster_init_begin n =
     (let n0 = n\<lparr>vsm := (vsm n)\<lparr>local_nodeid := 0\<rparr>, mynode := Some 0\<rparr> in
      bind_res (node0_ack_node (btable n0) (nic n0) (vm_nvcpu n0) (vm_nalloc n0)) (\<lambda>c.
        let n1 = set_btable c n0 in
        case nic n1 of
          None \<Rightarrow> Inr (n1\<lparr>place := Up\<rparr>, [])
        | Some _ \<Rightarrow> let (n2, out) = broadcast_init_request n1 in Inr (n2\<lparr>place := WaitOnline\<rparr>, out)))"

definition cluster_init_online :: "(nat \<Rightarrow> physaddr) \<Rightarrow> bnode \<Rightarrow> (bnode \<times> sends) res" where
  "cluster_init_online fr n =
     (let (n1, out) = broadcast_cluster_info n in
      bind_res (cluster_node_me_setup fr n1) (\<lambda>n2. Inr (n2\<lparr>place := WaitReady\<rparr>, out)))"

section \<open>Sub-nodes\<close>

definition subnode_setup :: "(nat \<Rightarrow> physaddr) \<Rightarrow> bnode \<Rightarrow> (bnode \<times> sends) res" where
  "subnode_setup fr n =
     bind_res (cluster_node_me_setup fr n) (\<lambda>n1.
       let (n2, out) = send_setup_done_notify n1 0 in Inr (n2\<lparr>place := Up\<rparr>, out))"

definition recv_cluster_info_intr :: "bnode \<Rightarrow> nat \<Rightarrow> nat \<Rightarrow> cluster_node list \<Rightarrow> (bnode \<times> sends) res" where
  "recv_cluster_info_intr n nnodes nvcpus info =
     (case nic n of
        None \<Rightarrow> Inl (Undefined ''localnode.nic'')
      | Some adr \<Rightarrow>
          bind_res (update_cluster_info (btable n) (mynode n) adr nnodes nvcpus info) (\<lambda>(i, c).
            Inr (n\<lparr>vsm := (vsm n)\<lparr>clust := c, local_nodeid := i\<rparr>, mynode := Some i\<rparr>, [])))"

definition recv_boot_sig_intr :: "bnode \<Rightarrow> u64 \<Rightarrow> (bnode \<times> sends) res" where
  "recv_boot_sig_intr n now =
     assert_res (bootclk n = 0) ''!localnode.bootclk'' (Inr (n\<lparr>bootclk := now\<rparr>, []))"

definition recv_init_request_intr :: "bnode \<Rightarrow> u8 list \<Rightarrow> bnode \<times> sends" where
  "recv_init_request_intr n src = init_ack n src (vm_nvcpu n) (vm_nalloc n)"

definition recv_init_ack_intr :: "bnode \<Rightarrow> u8 list \<Rightarrow> nat \<Rightarrow> u64 \<Rightarrow> (bnode \<times> sends) res" where
  "recv_init_ack_intr n src nv allocated =
     bind_res (node0_ack_node (btable n) (Some src) nv allocated) (\<lambda>c. Inr (set_btable c n, []))"

text \<open>
  The handler of a message on node 0 or a sub-node.  A message for which the node has no handler would
  go to the reply slot of the current vCPU; there is none yet.
\<close>

definition boot_recv :: "bool \<Rightarrow> bnode \<Rightarrow> u8 list \<Rightarrow> boot_hdr msg \<Rightarrow> u64 \<Rightarrow> (bnode \<times> sends) res" where
  "boot_recv is_node0 n src g now =
     (if \<not> msg_has_handler is_node0 (mtype g) then Inl (Undefined ''current'')
      else case (mtype g, payload g) of
        (MSG_INIT, InitReq) \<Rightarrow> Inr (recv_init_request_intr n src)
      | (MSG_INIT_ACK, InitAck nv al) \<Rightarrow> recv_init_ack_intr n src nv al
      | (MSG_CLUSTER_INFO, ClusterInfo nn nv info) \<Rightarrow> recv_cluster_info_intr n nn nv info
      | (MSG_SETUP_DONE, SetupDone e) \<Rightarrow> Inr (set_btable (recv_sub_setup_done_notify_intr (btable n) (src_id g) e) n, [])
      | (MSG_BOOT_SIG, BootSig) \<Rightarrow> recv_boot_sig_intr n now
      | _ \<Rightarrow> Inl (Undefined ''msg->hdr''))"

section \<open>Machines and wire\<close>

definition accepts :: "bnode \<Rightarrow> u8 list option \<Rightarrow> bool" where
  "accepts n dst \<longleftrightarrow> (case nic n of None \<Rightarrow> False | Some adr \<Rightarrow> dst = None \<or> dst = Some adr)"

definition transmit :: "bnode list \<Rightarrow> nat \<Rightarrow> u8 list option \<times> boot_hdr msg \<Rightarrow> frame list" where
  "transmit ns i p =
     (case nic (ns ! i) of
        None \<Rightarrow> []
      | Some src \<Rightarrow> map (\<lambda>k. (i, k, src, snd p)) (filter (\<lambda>k. k \<noteq> i \<and> accepts (ns ! k) (fst p)) [0..<length ns]))"

definition put :: "boot \<Rightarrow> nat \<Rightarrow> bnode \<times> sends \<Rightarrow> boot" where
  "put s i r = s\<lparr>nodes := (nodes s)[i := fst r], wire := wire s @ concat (map (transmit (nodes s) i) (snd r))\<rparr>"

text \<open>\<open>fr k\<close> are the pages of machine \<open>k\<close>, \<open>t\<close> is the value of the cycle counter, which is not zero.\<close>

inductive boot_step :: "(nat \<Rightarrow> nat \<Rightarrow> physaddr) \<Rightarrow> boot \<Rightarrow> boot \<Rightarrow> bool" for fr where
  start: "place (nodes s ! 0) = Start \<Longrightarrow> cluster_init_begin (nodes s ! 0) = Inr r \<Longrightarrow> boot_step fr s (put s 0 r)"
| all_online: "place (nodes s ! 0) = WaitOnline \<Longrightarrow> all_node_is_online (btable (nodes s ! 0)) = Inr True \<Longrightarrow>
    cluster_init_online (fr 0) (nodes s ! 0) = Inr r \<Longrightarrow> boot_step fr s (put s 0 r)"
| all_ready: "place (nodes s ! 0) = WaitReady \<Longrightarrow> all_node_is_active (btable (nodes s ! 0)) = Inr True \<Longrightarrow>
    boot_step fr s (put s 0 ((nodes s ! 0)\<lparr>place := Up\<rparr>, []))"
| boot: "place (nodes s ! 0) = Up \<Longrightarrow> bootclk (nodes s ! 0) = 0 \<Longrightarrow> t \<noteq> 0 \<Longrightarrow>
    boot_step fr s (put s 0 (broadcast_boot_signal (setup_node0_bootclock (nodes s ! 0) t)))"
| acked: "0 < k \<Longrightarrow> k < length (nodes s) \<Longrightarrow> place (nodes s ! k) = WaitAcked \<Longrightarrow> mynode (nodes s ! k) \<noteq> None \<Longrightarrow>
    subnode_setup (fr k) (nodes s ! k) = Inr r \<Longrightarrow> boot_step fr s (put s k r)"
| deliver: "(j, k, src, g) \<in> set (wire s) \<Longrightarrow> k < length (nodes s) \<Longrightarrow> place (nodes s ! k) \<noteq> Start \<Longrightarrow> t \<noteq> 0 \<Longrightarrow>
    boot_recv (k = 0) (nodes s ! k) src g t = Inr r \<Longrightarrow>
    boot_step fr s (put (s\<lparr>wire := remove1 (j, k, src, g) (wire s)\<rparr>) k r)"

text \<open>The machines when they are switched on: address, vCPUs and memory of each.\<close>

type_synonym hwconf = "u8 list \<times> nat \<times> u64"

definition fresh_bnode :: "place \<Rightarrow> hwconf \<Rightarrow> bnode" where
  "fresh_bnode p h = \<lparr>nic = Some (fst h), vm_nvcpu = fst (snd h), vm_nalloc = snd (snd h),
     vm_vcpus = replicate VCPU_PER_NODE_MAX zero_vcpu, mynode = None, vsm = fresh_node initial_cluster 0,
     bootclk = 0, place = p\<rparr>"

definition power_on :: "hwconf list \<Rightarrow> boot" where
  "power_on hs = \<lparr>nodes = map (\<lambda>k. fresh_bnode (if k = 0 then Start else WaitAcked) (hs ! k)) [0..<length hs], wire = []\<rparr>"

definition boot_reach :: "(nat \<Rightarrow> nat \<Rightarrow> physaddr) \<Rightarrow> hwconf list \<Rightarrow> boot \<Rightarrow> bool" where
  "boot_reach fr hs s \<longleftrightarrow> (boot_step fr)\<^sup>*\<^sup>* (power_on hs) s"

text \<open>
  Machines that fit together: as many as node 0 expects, with addresses of their own, at most eight vCPUs
  and whole pages each, and memory that fits in the guest's address space.
\<close>

definition hw_ok :: "hwconf list \<Rightarrow> bool" where
  "hw_ok hs \<longleftrightarrow> length hs = NR_NODE \<and> distinct (map fst hs) \<and>
     (\<forall>h \<in> set hs. fst (snd h) \<le> VCPU_PER_NODE_MAX \<and> PAGE_ALIGNED (snd (snd h))) \<and>
     0x40000000 + sum_list (map (\<lambda>h. unat (snd (snd h))) hs) < 2 ^ 64"


section \<open>Invariant\<close>

text \<open>Node 0's table after it has acknowledged the machines \<open>hs\<close> in this order.\<close>

definition table_for :: "cluster_state \<Rightarrow> hwconf list \<Rightarrow> bool" where
  "table_for c hs \<longleftrightarrow> cluster_inv c \<and> nr_cluster_nodes c = length hs \<and> node_online_map c = mask (length hs) \<and>
     unat (ram_start c) = 0x40000000 + sum_list (map (\<lambda>h. unat (snd (snd h))) hs) \<and>
     nr_cluster_vcpus c \<le> VCPU_PER_NODE_MAX * length hs \<and>
     (\<forall>i < length hs. mac (cluster c ! i) = fst (hs ! i) \<and> nvcpu (cluster c ! i) = fst (snd (hs ! i)) \<and>
        msize (cmem (cluster c ! i)) = snd (snd (hs ! i)))"

definition same_table :: "cluster_state \<Rightarrow> cluster_state \<Rightarrow> bool" where
  "same_table c d \<longleftrightarrow> cluster c = cluster d \<and> nr_cluster_nodes c = nr_cluster_nodes d \<and>
     nr_cluster_vcpus c = nr_cluster_vcpus d"

definition known :: "bnode \<Rightarrow> nat \<Rightarrow> cluster_state \<Rightarrow> bool" where
  "known n i c \<longleftrightarrow> mynode n = Some i \<and> local_nodeid (vsm n) = i \<and> same_table (btable n) c"

text \<open>A node that is set up: it holds the pages of its slice and no other, its vCPUs have their ids.\<close>

definition settled :: "bnode \<Rightarrow> nat \<Rightarrow> cluster_state \<Rightarrow> bool" where
  "settled n i c \<longleftrightarrow> known n i c \<and>
     (\<forall>P. PAGE_ALIGNED P \<longrightarrow>
        (if in_memrange (cmem (cluster c ! i)) P then \<exists>a. s2 (vsm n) P = slice_entry a else s2 (vsm n) P = 0)) \<and>
     take (nvcpu (cluster c ! i)) (map vcpuid (vm_vcpus n)) = take (nvcpu (cluster c ! i)) (vcpus (cluster c ! i))"

definition is_hw :: "bnode \<Rightarrow> hwconf \<Rightarrow> bool" where
  "is_hw n h \<longleftrightarrow> nic n = Some (fst h) \<and> vm_nvcpu n = fst (snd h) \<and> vm_nalloc n = snd (snd h) \<and>
     length (vm_vcpus n) = VCPU_PER_NODE_MAX"

definition blank :: "bnode \<Rightarrow> bool" where
  "blank n \<longleftrightarrow> mynode n = None \<and> place n = WaitAcked \<and> s2 (vsm n) = (\<lambda>_. 0) \<and> bootclk n = 0 \<and>
     length (cluster (btable n)) = NODE_MAX"

text \<open>
  How far the exchange with a sub-node is: what is in flight between it and node 0, and what both know.
\<close>

datatype sphase = SReq | SAck | SIn | SInfo | SKnown | SDone | SActive | SBoot | SRun

definition subject :: "frame \<Rightarrow> nat" where
  "subject f = (case f of (j, k, src, g) \<Rightarrow> if k = 0 then j else k)"

definition from0 :: "hwconf list \<Rightarrow> nat \<Rightarrow> frame list \<Rightarrow> msgtype \<Rightarrow> boot_hdr \<Rightarrow> bool" where
  "from0 hs k w ty h \<longleftrightarrow> (\<exists>g. w = [(0, k, fst (hs ! 0), g)] \<and> mtype g = ty \<and> payload g = h)"

definition to0 :: "hwconf list \<Rightarrow> nat \<Rightarrow> frame list \<Rightarrow> msgtype \<Rightarrow> boot_hdr \<Rightarrow> nat option \<Rightarrow> bool" where
  "to0 hs k w ty h i \<longleftrightarrow> (\<exists>g. w = [(k, 0, fst (hs ! k), g)] \<and> mtype g = ty \<and> payload g = h \<and>
     (case i of None \<Rightarrow> True | Some j \<Rightarrow> src_id g = j))"

fun sub_at :: "hwconf list \<Rightarrow> nat list \<Rightarrow> cluster_state \<Rightarrow> bnode \<Rightarrow> nat \<Rightarrow> frame list \<Rightarrow> sphase \<Rightarrow> bool" where
  "sub_at hs ord c n k w SReq \<longleftrightarrow> from0 hs k w MSG_INIT InitReq \<and> blank n \<and> k \<notin> set ord"
| "sub_at hs ord c n k w SAck \<longleftrightarrow>
     to0 hs k w MSG_INIT_ACK (InitAck (fst (snd (hs ! k))) (snd (snd (hs ! k)))) None \<and> blank n \<and> k \<notin> set ord"
| "sub_at hs ord c n k w SIn \<longleftrightarrow> w = [] \<and> blank n \<and> k \<in> set ord"
| "sub_at hs ord c n k w SInfo \<longleftrightarrow>
     from0 hs k w MSG_CLUSTER_INFO (ClusterInfo (nr_cluster_nodes c) (nr_cluster_vcpus c) (cluster c)) \<and> blank n \<and>
     (\<exists>i < length ord. ord ! i = k \<and> \<not> bit (node_active_map c) i)"
| "sub_at hs ord c n k w SKnown \<longleftrightarrow>
     w = [] \<and> place n = WaitAcked \<and> s2 (vsm n) = (\<lambda>_. 0) \<and> bootclk n = 0 \<and>
     (\<exists>i < length ord. ord ! i = k \<and> \<not> bit (node_active_map c) i \<and> known n i c)"
| "sub_at hs ord c n k w SDone \<longleftrightarrow>
     place n = Up \<and> bootclk n = 0 \<and>
     (\<exists>i < length ord. ord ! i = k \<and> \<not> bit (node_active_map c) i \<and> settled n i c \<and>
        to0 hs k w MSG_SETUP_DONE (SetupDone 0) (Some i))"
| "sub_at hs ord c n k w SActive \<longleftrightarrow>
     w = [] \<and> place n = Up \<and> bootclk n = 0 \<and>
     (\<exists>i < length ord. ord ! i = k \<and> bit (node_active_map c) i \<and> settled n i c)"
| "sub_at hs ord c n k w SBoot \<longleftrightarrow>
     from0 hs k w MSG_BOOT_SIG BootSig \<and> place n = Up \<and> bootclk n = 0 \<and>
     (\<exists>i < length ord. ord ! i = k \<and> settled n i c)"
| "sub_at hs ord c n k w SRun \<longleftrightarrow>
     w = [] \<and> place n = Up \<and> bootclk n \<noteq> 0 \<and> (\<exists>i < length ord. ord ! i = k \<and> settled n i c)"

definition phases :: "nat \<Rightarrow> (nat \<Rightarrow> sphase) \<Rightarrow> sphase set \<Rightarrow> bool" where
  "phases M st X \<longleftrightarrow> (\<forall>k. 0 < k \<and> k < M \<longrightarrow> st k \<in> X)"

definition node0_at :: "nat \<Rightarrow> nat list \<Rightarrow> bnode \<Rightarrow> (nat \<Rightarrow> sphase) \<Rightarrow> bool" where
  "node0_at M ord n st \<longleftrightarrow> mynode n = Some 0 \<and> local_nodeid (vsm n) = 0 \<and>
     (case place n of
        WaitOnline \<Rightarrow> s2 (vsm n) = (\<lambda>_. 0) \<and> node_active_map (btable n) = 0 \<and> bootclk n = 0 \<and>
          phases M st {SReq, SAck, SIn}
      | WaitReady \<Rightarrow> length ord = M \<and> settled n 0 (btable n) \<and> bit (node_active_map (btable n)) 0 \<and> bootclk n = 0 \<and>
          phases M st {SInfo, SKnown, SDone, SActive}
      | Up \<Rightarrow> length ord = M \<and> settled n 0 (btable n) \<and>
          phases M st (if bootclk n = 0 then {SActive} else {SBoot, SRun})
      | _ \<Rightarrow> False)"

definition ordering :: "hwconf list \<Rightarrow> nat list \<Rightarrow> bool" where
  "ordering hs ord \<longleftrightarrow> ord \<noteq> [] \<and> ord ! 0 = 0 \<and> distinct ord \<and> set ord \<subseteq> {..<length hs}"

definition machines :: "hwconf list \<Rightarrow> boot \<Rightarrow> bool" where
  "machines hs s \<longleftrightarrow> length (nodes s) = length hs \<and> (\<forall>k < length hs. is_hw (nodes s ! k) (hs ! k)) \<and>
     (\<forall>f \<in> set (wire s). 0 < subject f \<and> subject f < length hs)"

definition going :: "hwconf list \<Rightarrow> boot \<Rightarrow> nat list \<Rightarrow> (nat \<Rightarrow> sphase) \<Rightarrow> bool" where
  "going hs s ord st \<longleftrightarrow> machines hs s \<and> ordering hs ord \<and>
     table_for (btable (nodes s ! 0)) (map ((!) hs) ord) \<and> node0_at (length hs) ord (nodes s ! 0) st \<and>
     (\<forall>k. 0 < k \<and> k < length hs \<longrightarrow>
        sub_at hs ord (btable (nodes s ! 0)) (nodes s ! k) k (filter (\<lambda>f. subject f = k) (wire s)) (st k))"

definition boot_inv :: "hwconf list \<Rightarrow> boot \<Rightarrow> bool" where
  "boot_inv hs s \<longleftrightarrow> s = power_on hs \<or> (\<exists>ord st. going hs s ord st)"

section \<open>Lemmas on the table\<close>

lemma and_mask_all: "m < 64 \<Longrightarrow> a AND mask m = (mask m :: u64) \<longleftrightarrow> (\<forall>i < m. bit a i)"
  by (auto simp: bit_eq_iff bit_simps dest: less_trans)

lemma mask_Suc_or: "mask n OR 2 ^ n = (mask (Suc n) :: u64)"
  by (rule bit_word_eqI) (auto simp: bit_simps less_Suc_eq)

lemma node_mask_eq: "n < 31 \<Longrightarrow> node_mask n = Inr (mask n)"
  by (simp add: node_mask_def mask_eq_exp_minus_1)

lemma all_online_iff:
  assumes "table_for c hs"
  shows "all_node_is_online c = Inr (NR_NODE \<le> length hs)"
proof -
  have n: "NR_NODE < 31" by (simp add: NR_NODE_def)
  have "(\<forall>i < NR_NODE. bit (mask (length hs) :: u64) i) \<longleftrightarrow> NR_NODE \<le> length hs"
    using n by (auto simp: bit_mask_iff subset_iff) (meson not_le less_le_trans nat_neq_iff)
  then show ?thesis
    using assms n and_mask_all [of NR_NODE "mask (length hs)"]
    by (simp add: all_node_is_online_def node_mask_eq table_for_def del: mask_numeral)
qed

lemma all_active_iff:
  assumes "table_for c hs" and "length hs < 31"
  shows "all_node_is_active c = Inr (\<forall>i < length hs. bit (node_active_map c) i)"
  using assms and_mask_all [of "length hs" "node_active_map c"]
  by (simp add: all_node_is_active_def node_mask_eq table_for_def)

lemma table_ack:
  assumes t: "table_for c hs" and h: "fst (snd h) \<le> VCPU_PER_NODE_MAX" and l: "length hs < NODE_MAX"
    and w: "0x40000000 + sum_list (map (\<lambda>h. unat (snd (snd h))) (hs @ [h])) < 2 ^ 64"
  shows "\<exists>c'. node0_ack_node c (Some (fst h)) (fst (snd h)) (snd (snd h)) = Inr c' \<and> table_for c' (hs @ [h]) \<and>
     node_active_map c' = node_active_map c"
proof -
  have ci: "cluster_inv c" and nr: "nr_cluster_nodes c = length hs" using t by (simp_all add: table_for_def)
  have lim: "nr_cluster_nodes c < NODE_MAX" "nr_cluster_vcpus c + fst (snd h) \<le> VCPU_MAX"
    using t h l by (simp_all add: table_for_def VCPU_PER_NODE_MAX_def NODE_MAX_def VCPU_MAX_def)
  have wr: "unat (ram_start c) + unat (snd (snd h)) < 2 ^ 64" using t w by (simp add: table_for_def)
  note r = ack_result [OF ci lim(1) h lim(2), of "Some (fst h)" "snd (snd h)"]
  obtain c' where c': "node0_ack_node c (Some (fst h)) (fst (snd h)) (snd (snd h)) = Inr c'" using r by blast
  have len: "length (cluster c) = NODE_MAX" using ci by (simp add: cluster_inv_def)
  have "table_for c' (hs @ [h])"
    unfolding table_for_def
  proof (intro conjI allI impI)
    show "cluster_inv c'" by (rule ack_inv [OF ci lim(1) h lim(2) wr c'])
    show "unat (ram_start c') = 0x40000000 + sum_list (map (\<lambda>h. unat (snd (snd h))) (hs @ [h]))"
      using r c' t unat_add_no_wrap [OF wr] by (auto simp: table_for_def)
    show "nr_cluster_nodes c' = length (hs @ [h])" "nr_cluster_vcpus c' \<le> VCPU_PER_NODE_MAX * length (hs @ [h])"
      using r c' t h by (auto simp: table_for_def nr)
    show "node_online_map c' = mask (length (hs @ [h]))"
      using r c' t by (auto simp: table_for_def nr mask_Suc_or)
    fix i assume "i < length (hs @ [h])"
    then show "mac (cluster c' ! i) = fst ((hs @ [h]) ! i)" "nvcpu (cluster c' ! i) = fst (snd ((hs @ [h]) ! i))"
      "msize (cmem (cluster c' ! i)) = snd (snd ((hs @ [h]) ! i))"
      using r c' t l len by (auto simp: table_for_def nr nth_list_update nth_append less_Suc_eq)
  qed
  moreover have "node_active_map c' = node_active_map c" using r c' by auto
  ultimately show ?thesis using c' by blast
qed

lemma slices_aligned:
  "slices b ns e \<Longrightarrow> 4096 dvd b \<Longrightarrow> (\<And>i. i < length ns \<Longrightarrow> 4096 dvd unat (msize (cmem (ns ! i)))) \<Longrightarrow>
   i < length ns \<Longrightarrow> 4096 dvd unat (mstart (cmem (ns ! i)))"
proof (induction ns arbitrary: b i)
  case (Cons n ns)
  have "4096 dvd b + unat (msize (cmem n))" using Cons.prems(2) Cons.prems(3) [of 0] by simp
  then have "j < length ns \<Longrightarrow> 4096 dvd unat (mstart (cmem (ns ! j)))" for j
    using Cons.IH [of "b + unat (msize (cmem n))" j] Cons.prems(1) Cons.prems(3) [of "Suc _"] by simp
  then show ?case using Cons.prems by (cases i) auto
qed simp

lemma table_slice:
  assumes t: "table_for c hs" and al: "\<forall>h \<in> set hs. PAGE_ALIGNED (snd (snd h))" and i: "i < length hs"
  shows "PAGE_ALIGNED (mstart (cmem (cluster c ! i)))" "PAGE_ALIGNED (msize (cmem (cluster c ! i)))"
    "unat (mstart (cmem (cluster c ! i))) + unat (msize (cmem (cluster c ! i))) < 2 ^ 64"
    "length (vcpus (cluster c ! i)) = VCPU_PER_NODE_MAX" "nodeid (cluster c ! i) = i"
proof -
  have ci: "cluster_inv c" and nr: "nr_cluster_nodes c = length hs" using t by (simp_all add: table_for_def)
  note live = live_nth [OF ci, unfolded nr] and len = length_live [OF ci, unfolded nr]
  have sl: "slices 0x40000000 (live_nodes c) (unat (ram_start c))" using ci by (simp add: cluster_inv_def)
  have sz: "4096 dvd unat (msize (cmem (live_nodes c ! j)))" if "j < length (live_nodes c)" for j
    using t al that live by (simp add: table_for_def len page_aligned_unat [symmetric])
  show "PAGE_ALIGNED (mstart (cmem (cluster c ! i)))"
    using slices_aligned [OF sl _ sz, of i] i live by (simp add: len page_aligned_unat)
  show "PAGE_ALIGNED (msize (cmem (cluster c ! i)))" using sz [of i] i live by (simp add: len page_aligned_unat)
  show "unat (mstart (cmem (cluster c ! i))) + unat (msize (cmem (cluster c ! i))) < 2 ^ 64"
    using slices_end [OF sl, of i] i live unat_less_64 [of "ram_start c"] by (simp add: len)
  have "i < NODE_MAX" using ci i nr by (simp add: cluster_inv_def)
  then show "length (vcpus (cluster c ! i)) = VCPU_PER_NODE_MAX" "nodeid (cluster c ! i) = i"
    using ci i nr by (simp_all add: cluster_inv_def)
qed

section \<open>Setting up and sending\<close>

lemma map_slice_succeeds:
  "(\<And>j. fr j \<noteq> 0) \<Longrightarrow> unat ipa + 4096 * k < 2 ^ 64 \<Longrightarrow>
   (\<And>P. unat ipa \<le> unat P \<Longrightarrow> \<not> pte_accessible (s2 v P)) \<Longrightarrow> \<exists>v'. map_slice v ipa fr k = Inr v'"
proof (induction v ipa fr k rule: map_slice.induct)
  case (2 n ipa fr k)
  let ?i = "ipa + of_nat PAGESIZE"
  have u: "unat ?i = unat ipa + 4096" using "2.prems"(2) by (simp add: PAGESIZE_def unat_plus_if')
  have f: "fr 0 \<noteq> 0" "\<not> pte_accessible (s2 n ipa)" using "2.prems"(1,3) by auto
  have "\<not> pte_accessible (s2 (set_pte n ipa e) P)" if "unat ?i \<le> unat P" for e P
    using that u "2.prems"(3) [of P] by (auto simp: set_pte_def)
  then show ?case using "2.IH" [OF f] "2.prems"(1,2) u f by simp
qed simp

lemma node_init_succeeds:
  assumes "s2 v = (\<lambda>_. 0)" "\<And>j. fr j \<noteq> 0" "PAGE_ALIGNED (msize r)" "unat (mstart r) + unat (msize r) < 2 ^ 64"
  shows "\<exists>v'. vsm_node_init v r fr = Inr v'"
proof -
  obtain k where k: "unat (msize r) = 4096 * k" using assms(3) by (auto simp: page_aligned_unat elim: dvdE)
  then have e: "(unat (msize r) + PAGESIZE - 1) div PAGESIZE = k" by (simp add: PAGESIZE_def)
  have "\<not> pte_accessible (s2 v P)" for P by (simp add: assms(1) pte_pred_bits)
  then obtain v' where "map_slice v (mstart r) fr k = Inr v'"
    using map_slice_succeeds [of fr "mstart r" k v] assms(2,4) k by auto
  then show ?thesis unfolding vsm_node_init_def e by simp
qed

lemma vcpuid_init_ids:
  assumes "length vs = VCPU_PER_NODE_MAX" "length ids = VCPU_PER_NODE_MAX" "n \<le> VCPU_PER_NODE_MAX"
  shows "\<exists>vs'. vcpuid_init m vs ids n = Inr vs' \<and> length vs' = length vs \<and> take n (map vcpuid vs') = take n ids"
proof -
  let ?vs = "map2 (vcpuid_set m) (take n vs) (take n ids) @ drop n vs"
  have "vcpuid_init m vs ids n = Inr ?vs" using assms by (simp add: vcpuid_init_def)
  moreover have "take n (map vcpuid ?vs) = take n ids"
    using assms by (simp add: take_map list_eq_iff_nth_eq vcpuid_set_def)
  ultimately show ?thesis using assms by (intro exI [of _ ?vs]) simp
qed

lemma same_table_refl [simp]: "same_table c c"
  by (simp add: same_table_def)

lemma same_table_active [simp]:
  "same_table (node_set_active c i b) d \<longleftrightarrow> same_table c d" "same_table d (node_set_active c i b) \<longleftrightarrow> same_table d c"
  by (simp_all add: same_table_def node_set_active_def)

lemma me_setup:
  assumes k: "known n i c" and t: "table_for c hs" and h: "\<forall>h \<in> set hs. fst (snd h) \<le> VCPU_PER_NODE_MAX \<and> PAGE_ALIGNED (snd (snd h))"
    and i: "i < length hs" and v: "length (vm_vcpus n) = VCPU_PER_NODE_MAX" and z: "s2 (vsm n) = (\<lambda>_. 0)"
    and r: "cluster_node_me_setup fr n = Inr n'"
  shows "settled n' i c" "length (vm_vcpus n') = VCPU_PER_NODE_MAX" "nic n' = nic n" "vm_nvcpu n' = vm_nvcpu n"
    "vm_nalloc n' = vm_nalloc n" "place n' = place n" "bootclk n' = bootclk n"
    "btable n' = node_set_active (btable n) i True"
proof -
  let ?e = "cluster c ! i"
  have my: "mynode n = Some i" "cluster (btable n) ! i = ?e" using k by (simp_all add: known_def same_table_def)
  have al: "\<forall>h \<in> set hs. PAGE_ALIGNED (snd (snd h))" using h by blast
  note ts = table_slice [OF t al i]
  have "nvcpu ?e \<le> VCPU_PER_NODE_MAX" using t h i by (simp add: table_for_def)
  then obtain vs where vs: "\<And>m. vcpuid_init m (vm_vcpus n) (vcpus ?e) (nvcpu ?e) = Inr (vs m)"
      "\<And>m. length (vs m) = VCPU_PER_NODE_MAX" "\<And>m. take (nvcpu ?e) (map vcpuid (vs m)) = take (nvcpu ?e) (vcpus ?e)"
    using vcpuid_init_ids [OF v ts(4), of "nvcpu ?e"] v by metis
  obtain w where w: "vsm_node_init (vsm n) (cmem ?e) fr = Inr w"
      "n' = n\<lparr>vsm := w\<lparr>clust := node_set_active (clust w) i True\<rparr>, vm_vcpus := vs (nr_cluster_vcpus (clust w))\<rparr>"
    using r by (auto simp: cluster_node_me_setup_def my vs(1) ts(5) Let_def bind_res_eq_Inr)
  have "PAGE_ALIGNED 0" by (simp add: PAGE_ALIGNED_def)
  note w2 = node_init_result(2) [OF z ts(1-3) w(1) this]
  have cl: "clust w = btable n" "local_nodeid w = local_nodeid (vsm n)"
    using arg_cong [OF w2, of clust] arg_cong [OF w2, of local_nodeid] by (simp_all add: btable_def)
  show "btable n' = node_set_active (btable n) i True" by (simp add: btable_def w(2) cl [unfolded btable_def])
  show "settled n' i c"
    using k vs(3) node_init_result(1) [OF z ts(1-3) w(1)] by (simp add: settled_def known_def btable_def w(2) cl)
  show "length (vm_vcpus n') = VCPU_PER_NODE_MAX" "nic n' = nic n" "vm_nvcpu n' = vm_nvcpu n"
    "vm_nalloc n' = vm_nalloc n" "place n' = place n" "bootclk n' = bootclk n"
    by (simp_all add: w(2) vs(2))
qed

lemma me_setup_succeeds:
  assumes k: "known n i c" and t: "table_for c hs" and h: "\<forall>h \<in> set hs. fst (snd h) \<le> VCPU_PER_NODE_MAX \<and> PAGE_ALIGNED (snd (snd h))"
    and i: "i < length hs" and v: "length (vm_vcpus n) = VCPU_PER_NODE_MAX" and z: "s2 (vsm n) = (\<lambda>_. 0)" "\<And>j. fr j \<noteq> 0"
  shows "\<exists>n'. cluster_node_me_setup fr n = Inr n'"
proof -
  let ?e = "cluster c ! i"
  have my: "mynode n = Some i" "cluster (btable n) ! i = ?e" using k by (simp_all add: known_def same_table_def)
  have al: "\<forall>h \<in> set hs. PAGE_ALIGNED (snd (snd h))" using h by blast
  note ts = table_slice [OF t al i]
  obtain w where "vsm_node_init (vsm n) (cmem ?e) fr = Inr w" using node_init_succeeds [OF z(1) _ ts(2,3), of fr] z(2) by blast
  moreover have "nvcpu ?e \<le> VCPU_PER_NODE_MAX" using t h i by (simp add: table_for_def)
  ultimately show ?thesis
    using ts(4) v by (simp add: cluster_node_me_setup_def my vcpuid_init_def Let_def)
qed

definition boot_g :: "bnode \<Rightarrow> msgtype \<Rightarrow> boot_hdr \<Rightarrow> boot_hdr msg" where
  "boot_g n ty h = fst (boot_msg n 0 ty h)"

definition counted :: "bnode \<Rightarrow> bnode" where
  "counted n = n\<lparr>vsm := (vsm n)\<lparr>conid := conid (vsm n) + 1\<rparr>\<rparr>"

lemma counted_simps [simp]:
  "nic (counted n) = nic n" "vm_nvcpu (counted n) = vm_nvcpu n" "vm_nalloc (counted n) = vm_nalloc n"
  "vm_vcpus (counted n) = vm_vcpus n" "mynode (counted n) = mynode n" "bootclk (counted n) = bootclk n"
  "place (counted n) = place n" "btable (counted n) = btable n" "s2 (vsm (counted n)) = s2 (vsm n)"
  "local_nodeid (vsm (counted n)) = local_nodeid (vsm n)"
  by (simp_all add: counted_def btable_def)

lemma set_btable_simps [simp]:
  "nic (set_btable c n) = nic n" "vm_nvcpu (set_btable c n) = vm_nvcpu n" "vm_nalloc (set_btable c n) = vm_nalloc n"
  "vm_vcpus (set_btable c n) = vm_vcpus n" "mynode (set_btable c n) = mynode n" "bootclk (set_btable c n) = bootclk n"
  "place (set_btable c n) = place n" "btable (set_btable c n) = c" "s2 (vsm (set_btable c n)) = s2 (vsm n)"
  "local_nodeid (vsm (set_btable c n)) = local_nodeid (vsm n)"
  by (simp_all add: set_btable_def btable_def)

lemma place_upd_simps [simp]:
  "btable (n\<lparr>place := p\<rparr>) = btable n" "btable (n\<lparr>bootclk := t\<rparr>) = btable n"
  by (simp_all add: btable_def)

lemma boot_g_simps [simp]:
  "mtype (boot_g n ty h) = ty" "payload (boot_g n ty h) = h" "src_id (boot_g n ty h) = local_nodeid (vsm n)"
  by (simp_all add: boot_g_def boot_msg_def msg_init_reqcpu_def new_connection_def msginitcore_def)

lemma boot_msg_eq: "boot_msg n 0 ty h = (boot_g n ty h, counted n)"
  by (simp add: boot_g_def counted_def boot_msg_def msg_init_reqcpu_def new_connection_def)

lemma sends_eq:
  "send_msg_bcast n ty h = (counted n, [(None, boot_g n ty h)])"
  "send_msg_node0 n ty h = (counted n, [(Some (mac (cluster (btable n) ! 0)), boot_g n ty h)])"
  by (simp_all add: send_msg_bcast_def send_msg_node0_def boot_msg_eq)

lemma machine_accepts:
  "machines hs s \<Longrightarrow> k < length hs \<Longrightarrow> accepts (nodes s ! k) d \<longleftrightarrow> d = None \<or> d = Some (fst (hs ! k))"
  by (auto simp: accepts_def is_hw_def machines_def)

lemma transmit_bcast:
  assumes "machines hs s" "0 < length hs"
  shows "transmit (nodes s) 0 (None, g) = map (\<lambda>k. (0, k, fst (hs ! 0), g)) [1..<length hs]"
proof -
  have "filter (\<lambda>k. k \<noteq> 0 \<and> accepts (nodes s ! k) None) [0..<length hs] = [1..<length hs]"
    using assms machine_accepts [OF assms(1)] by (auto simp: upt_conv_Cons filter_id_conv)
  moreover have "nic (nodes s ! 0) = Some (fst (hs ! 0))" using assms by (simp add: machines_def is_hw_def)
  ultimately show ?thesis using assms(1) by (simp add: transmit_def machines_def)
qed

lemma transmit_node0:
  assumes "machines hs s" "distinct (map fst hs)" "0 < k" "k < length hs"
  shows "transmit (nodes s) k (Some (fst (hs ! 0)), g) = [(k, 0, fst (hs ! k), g)]"
proof -
  have "fst (hs ! j) \<noteq> fst (hs ! 0)" if "j \<in> set [1..<length hs]" for j
  proof -
    have "j < length (map fst hs)" "0 < length (map fst hs)" using that by auto
    then show ?thesis using that nth_eq_iff_index_eq [OF assms(2), of j 0] by auto
  qed
  then have "filter (\<lambda>j. j \<noteq> k \<and> accepts (nodes s ! j) (Some (fst (hs ! 0)))) [1..<length hs] = []"
    using machine_accepts [OF assms(1)] by (fastforce simp: filter_empty_conv)
  moreover have "accepts (nodes s ! 0) (Some (fst (hs ! 0)))"
    using machine_accepts [OF assms(1) less_trans [OF assms(3,4)]] by simp
  ultimately have "filter (\<lambda>j. j \<noteq> k \<and> accepts (nodes s ! j) (Some (fst (hs ! 0)))) [0..<length hs] = [0]"
    using assms(3) upt_conv_Cons [OF less_trans [OF assms(3,4)]] by simp
  moreover have "nic (nodes s ! k) = Some (fst (hs ! k))" using assms by (simp add: machines_def is_hw_def)
  ultimately show ?thesis using assms(1) by (simp add: transmit_def machines_def)
qed

lemma subject_simps [simp]: "subject (j, 0, src, g) = j" "0 < k \<Longrightarrow> subject (j, k, src, g) = k"
  by (simp_all add: subject_def)

lemma bcast_frames:
  "0 < k \<Longrightarrow> k < M \<Longrightarrow> filter (\<lambda>f. subject f = k) (map (\<lambda>k. (0, k, m, g)) [1..<M]) = [(0, k, m, g)]"
  "f \<in> set (map (\<lambda>k. (0, k, m, g)) [1..<M]) \<Longrightarrow> 0 < subject f \<and> subject f < M"
proof -
  assume k: "0 < k" "k < M"
  have "filter (\<lambda>f. subject f = k) (map (\<lambda>k. (0, k, m, g)) [1..<M]) = map (\<lambda>k. (0, k, m, g)) (filter (\<lambda>j. j = k) [1..<M])"
    unfolding filter_map o_def by (rule arg_cong, rule filter_cong) auto
  also have "filter (\<lambda>j. j = k) [1..<M] = [k]"
  proof -
    have "[1..<M] = [1..<k] @ k # [Suc k..<M]"
      using k upt_add_eq_append [of 1 k "M - k"] by (simp add: upt_conv_Cons)
    then show ?thesis by (simp add: filter_empty_conv)
  qed
  finally show "filter (\<lambda>f. subject f = k) (map (\<lambda>k. (0, k, m, g)) [1..<M]) = [(0, k, m, g)]" by simp
qed auto

section \<open>Recognition\<close>

lemma recognize_none: "adr \<notin> mac ` set ns \<Longrightarrow> recognize adr ns j a = a"
  by (induction ns arbitrary: j a) auto

lemma recognize_index: "distinct (map mac ns) \<Longrightarrow> i < length ns \<Longrightarrow> recognize (mac (ns ! i)) ns j a = Some (j + i)"
proof (induction ns arbitrary: i j a)
  case (Cons n ns)
  show ?case
  proof (cases i)
    case 0
    then show ?thesis using Cons.prems by (simp add: recognize_none)
  next
    case (Suc i')
    then show ?thesis using Cons.IH [of i' "Suc j"] Cons.prems by simp
  qed
qed simp

lemma mark_all_table: "same_table (mark_all c n) c"
proof -
  have "same_table (foldl (\<lambda>c i. node_set_active (node_set_online c i True) i True) d xs) d" for d xs
    by (induction xs arbitrary: d) (auto simp: same_table_def node_set_active_def node_set_online_def)
  then show ?thesis by (simp add: mark_all_def)
qed

text \<open>A machine finds its own entry, and only that one, in the table it receives.\<close>

lemma update_recognizes:
  assumes t: "table_for c (map ((!) hs) ord)" and d: "distinct (map fst hs)" and o: "ordering hs ord" and i: "i < length ord"
  shows "\<exists>c'. update_cluster_info b None (fst (hs ! (ord ! i))) (nr_cluster_nodes c) (nr_cluster_vcpus c) (cluster c) = Inr (i, c') \<and>
     same_table c' c"
proof -
  let ?ns = "take (nr_cluster_nodes c) (cluster c)"
  have nr: "nr_cluster_nodes c = length ord" "length ord \<le> length (cluster c)"
    using t by (auto simp: table_for_def cluster_inv_def)
  have m: "mac (cluster c ! j) = fst (hs ! (ord ! j))" if "j < length ord" for j using t that by (simp add: table_for_def)
  have b: "ord ! j < length hs" if "j < length ord" for j using o that nth_mem by (auto simp: ordering_def)
  have dm: "distinct (map mac ?ns)"
    unfolding distinct_conv_nth
  proof (intro allI impI)
    fix j k assume jk: "j < length (map mac ?ns)" "k < length (map mac ?ns)" "j \<noteq> k"
    then have "ord ! j \<noteq> ord ! k" using o nr by (simp add: ordering_def nth_eq_iff_index_eq)
    then show "map mac ?ns ! j \<noteq> map mac ?ns ! k"
      using jk nr m b nth_eq_iff_index_eq [OF d, of "ord ! j" "ord ! k"] by simp
  qed
  have "recognize (fst (hs ! (ord ! i))) ?ns 0 None = Some i"
    using recognize_index [OF dm, of i 0 None] i m nr by simp
  moreover have "same_table (mark_all (b\<lparr>nr_cluster_nodes := nr_cluster_nodes c, nr_cluster_vcpus := nr_cluster_vcpus c,
      cluster := cluster c\<rparr>) (nr_cluster_nodes c)) c"
    using mark_all_table by (simp add: same_table_def)
  ultimately show ?thesis by (simp add: update_cluster_info_def Let_def)
qed

section \<open>Steps keep the invariant\<close>

definition flight :: "nat \<Rightarrow> frame list \<Rightarrow> frame list" where
  "flight k w = filter (\<lambda>f. subject f = k) w"

definition in_range :: "nat \<Rightarrow> frame list \<Rightarrow> bool" where
  "in_range M w \<longleftrightarrow> (\<forall>f \<in> set w. 0 < subject f \<and> subject f < M)"

lemma flight_remove1: "flight k (remove1 f w) = (if subject f = k then remove1 f (flight k w) else flight k w)"
  by (auto simp: flight_def filter_remove1 remove1_idem)

lemma flight_append [simp]: "flight k (v @ w) = flight k v @ flight k w"
  by (simp add: flight_def)

lemma flight_Nil [simp]: "flight k [] = []"
  by (simp add: flight_def)

lemma flight_single [simp]: "flight k [f] = (if subject f = k then [f] else [])"
  by (simp add: flight_def)

lemma in_range_append [simp]: "in_range M (v @ w) \<longleftrightarrow> in_range M v \<and> in_range M w"
  by (auto simp: in_range_def)

lemma in_range_remove1: "in_range M w \<Longrightarrow> in_range M (remove1 f w)"
  by (meson in_range_def notin_set_remove1)

lemma bcast_flight:
  "0 < k \<Longrightarrow> k < M \<Longrightarrow> flight k (map (\<lambda>k. (0, k, m, g)) [1..<M]) = [(0, k, m, g)]"
  "in_range M (map (\<lambda>k. (0, k, m, g)) [1..<M])"
  using bcast_frames unfolding flight_def in_range_def by blast+

lemma going_alt:
  "going hs s ord st \<longleftrightarrow> length (nodes s) = length hs \<and> (\<forall>k < length hs. is_hw (nodes s ! k) (hs ! k)) \<and>
     in_range (length hs) (wire s) \<and> ordering hs ord \<and>
     table_for (btable (nodes s ! 0)) (map ((!) hs) ord) \<and> node0_at (length hs) ord (nodes s ! 0) st \<and>
     (\<forall>k. 0 < k \<and> k < length hs \<longrightarrow> sub_at hs ord (btable (nodes s ! 0)) (nodes s ! k) k (flight k (wire s)) (st k))"
  unfolding going_def machines_def flight_def in_range_def by blast

lemma sub_update:
  assumes g: "going hs s ord st" and k: "0 < k" "k < length hs" and h: "is_hw n' (hs ! k)"
    and w: "\<And>j. j \<noteq> k \<Longrightarrow> flight j w' = flight j (wire s)" and r: "in_range (length hs) w'"
    and a: "sub_at hs ord (btable (nodes s ! 0)) n' k (flight k w') p"
    and ph: "node0_at (length hs) ord (nodes s ! 0) (st(k := p))"
  shows "going hs (s\<lparr>nodes := (nodes s)[k := n'], wire := w'\<rparr>) ord (st(k := p))"
  using assms unfolding going_alt by (auto simp: nth_list_update)

lemma node0_update:
  assumes g: "going hs s ord st" and l: "0 < length hs" and h: "is_hw n' (hs ! 0)" and r: "in_range (length hs) w'"
    and o: "ordering hs ord'" and t: "table_for (btable n') (map ((!) hs) ord')" and ph: "node0_at (length hs) ord' n' st'"
    and a: "\<And>k. 0 < k \<Longrightarrow> k < length hs \<Longrightarrow> sub_at hs ord' (btable n') (nodes s ! k) k (flight k w') (st' k)"
  shows "going hs (s\<lparr>nodes := (nodes s)[0 := n'], wire := w'\<rparr>) ord' st'"
  using assms unfolding going_alt by (auto simp: nth_list_update)

lemma node0_at_upd: "node0_at M ord n st \<Longrightarrow> place n = WaitOnline \<Longrightarrow> p \<in> {SReq, SAck, SIn} \<Longrightarrow> node0_at M ord n (st(k := p))"
  "node0_at M ord n st \<Longrightarrow> place n = WaitReady \<Longrightarrow> p \<in> {SInfo, SKnown, SDone, SActive} \<Longrightarrow> node0_at M ord n (st(k := p))"
  "node0_at M ord n st \<Longrightarrow> place n = Up \<Longrightarrow> bootclk n \<noteq> 0 \<Longrightarrow> p \<in> {SBoot, SRun} \<Longrightarrow> node0_at M ord n (st(k := p))"
  by (auto simp: node0_at_def phases_def)

lemma phase_place:
  assumes "going hs s ord st" "0 < k" "k < length hs"
  shows "st k \<in> {SReq, SAck, SIn} \<Longrightarrow> place (nodes s ! 0) = WaitOnline"
    "st k \<in> {SInfo, SKnown, SDone} \<Longrightarrow> place (nodes s ! 0) = WaitReady"
    "st k \<in> {SBoot, SRun} \<Longrightarrow> place (nodes s ! 0) = Up \<and> bootclk (nodes s ! 0) \<noteq> 0"
  using assms unfolding going_alt node0_at_def phases_def
  by (auto split: place.splits if_splits)

lemma hw_facts:
  assumes "hw_ok hs"
  shows "0 < length hs" "length hs < 31" "distinct (map fst hs)" "length hs = NR_NODE"
    "\<forall>h \<in> set hs. fst (snd h) \<le> VCPU_PER_NODE_MAX \<and> PAGE_ALIGNED (snd (snd h))"
  using assms by (simp_all add: hw_ok_def NR_NODE_def)

lemma ordering_sum:
  assumes "ordering hs ord"
  shows "sum_list (map (\<lambda>h. unat (snd (snd h))) (map ((!) hs) ord)) \<le> sum_list (map (\<lambda>h. unat (snd (snd h))) hs)"
proof -
  have "sum_list (map (\<lambda>h. unat (snd (snd h))) (map ((!) hs) ord)) = (\<Sum>k \<in> set ord. unat (snd (snd (hs ! k))))"
    using assms by (simp add: ordering_def sum_list_distinct_conv_sum_set o_def)
  also have "\<dots> \<le> (\<Sum>k \<in> {..<length hs}. unat (snd (snd (hs ! k))))"
    using assms by (intro sum_mono2) (auto simp: ordering_def)
  also have "\<dots> = sum_list (map (\<lambda>h. unat (snd (snd h))) hs)"
    by (simp add: sum_list_sum_nth lessThan_atLeast0)
  finally show ?thesis .
qed

lemma ordering_hw: "hw_ok hs \<Longrightarrow> ordering hs ord \<Longrightarrow>
   \<forall>h \<in> set (map ((!) hs) ord). fst (snd h) \<le> VCPU_PER_NODE_MAX \<and> PAGE_ALIGNED (snd (snd h))"
  using hw_facts(5) [of hs] by (auto simp: ordering_def subset_iff)

lemma start_inv:
  assumes ok: "hw_ok hs"
  shows "\<exists>r. cluster_init_begin (nodes (power_on hs) ! 0) = Inr r \<and> going hs (put (power_on hs) 0 r) [0] (\<lambda>_. SReq)"
proof -
  note hf = hw_facts [OF ok]
  let ?s = "power_on hs" and ?n = "fresh_bnode Start (hs ! 0)"
  have n0: "nodes ?s ! 0 = ?n" using hf(1) by (simp add: power_on_def)
  have nk: "nodes ?s ! k = fresh_bnode WaitAcked (hs ! k)" if "0 < k" "k < length hs" for k
    using that by (simp add: power_on_def)
  have hw: "is_hw (nodes ?s ! k) (hs ! k)" if "k < length hs" for k
    using that n0 nk by (cases "k = 0") (simp_all add: is_hw_def fresh_bnode_def)
  have ma: "machines hs ?s" using hw by (simp add: machines_def) (simp add: power_on_def)
  have t0: "table_for initial_cluster []"
    using initial_cluster_inv initial_fields by (simp add: table_for_def initial_cluster_def)
  have sum: "0x40000000 + sum_list (map (\<lambda>h. unat (snd (snd h))) ([] @ [hs ! 0])) < 2 ^ 64"
    using ok ordering_sum [of hs "[0]"] hf(1) by (simp add: hw_ok_def ordering_def)
  have v: "fst (snd (hs ! 0)) \<le> VCPU_PER_NODE_MAX" using hf(1,5) nth_mem by blast
  obtain c where c: "node0_ack_node initial_cluster (Some (fst (hs ! 0))) (fst (snd (hs ! 0))) (snd (snd (hs ! 0))) = Inr c"
      "table_for c ([] @ [hs ! 0])" "node_active_map c = node_active_map initial_cluster"
    using table_ack [OF t0 v _ sum] by (auto simp: NODE_MAX_def)
  let ?m = "set_btable c (?n\<lparr>vsm := (vsm ?n)\<lparr>local_nodeid := 0\<rparr>, mynode := Some 0\<rparr>)"
  let ?g = "boot_g ?m MSG_INIT InitReq"
  have r': "cluster_init_begin (nodes ?s ! 0) = Inr ((counted ?m)\<lparr>place := WaitOnline\<rparr>, [(None, ?g)])"
    unfolding n0
    by (simp add: cluster_init_begin_def Let_def btable_def fresh_bnode_def fresh_node_def c(1) broadcast_init_request_def sends_eq)
  let ?w = "map (\<lambda>k. (0, k, fst (hs ! 0), ?g)) [1..<length hs]"
  have "put ?s 0 ((counted ?m)\<lparr>place := WaitOnline\<rparr>, [(None, ?g)]) = ?s\<lparr>nodes := (nodes ?s)[0 := (counted ?m)\<lparr>place := WaitOnline\<rparr>], wire := ?w\<rparr>"
    using transmit_bcast [OF ma hf(1)] by (simp add: put_def power_on_def)
  moreover have "sub_at hs [0] c (nodes ?s ! k) k (flight k ?w) SReq" if "0 < k" "k < length hs" for k
    using that nk bcast_flight(1) [OF that]
    by (simp add: from0_def blank_def fresh_bnode_def fresh_node_def btable_def initial_cluster_def)
  moreover have "length (nodes ?s) = length hs" by (simp add: power_on_def)
  moreover have "ordering hs [0]" using hf(1) by (simp add: ordering_def)
  moreover have "is_hw ((counted ?m)\<lparr>place := WaitOnline\<rparr>) (hs ! 0)" by (simp add: is_hw_def fresh_bnode_def)
  moreover have "node0_at (length hs) [0] ((counted ?m)\<lparr>place := WaitOnline\<rparr>) (\<lambda>_. SReq)"
    using c(3) by (simp add: node0_at_def phases_def fresh_bnode_def fresh_node_def initial_cluster_def)
  ultimately have "going hs (put ?s 0 ((counted ?m)\<lparr>place := WaitOnline\<rparr>, [(None, ?g)])) [0] (\<lambda>_. SReq)"
    using c(2) hw bcast_flight(2) hf(1) unfolding going_alt by (simp add: nth_list_update)
  then show ?thesis using r' by blast
qed

text \<open>Delivery of a frame between node 0 and sub-node \<open>q\<close>, which is the only one in flight between them.\<close>

lemma deliver_frame:
  assumes g: "going hs s ord st" and f: "f \<in> set (wire s)" and e: "subject f = u"
  shows "0 < u" "u < length hs" "flight u (wire s) = [f]" "st u \<in> {SReq, SAck, SInfo, SDone, SBoot}"
    "flight j (remove1 f (wire s)) = (if j = u then [] else flight j (wire s))" "in_range (length hs) (remove1 f (wire s))"
proof -
  show u1: "0 < u" "u < length hs" using g f e by (auto simp: going_alt in_range_def)
  have "f \<in> set (flight u (wire s))" using f e by (simp add: flight_def)
  moreover have "sub_at hs ord (btable (nodes s ! 0)) (nodes s ! u) u (flight u (wire s)) (st u)"
    using g u1 by (simp add: going_alt)
  ultimately show fl: "flight u (wire s) = [f]" "st u \<in> {SReq, SAck, SInfo, SDone, SBoot}"
    by (cases "st u"; auto simp: from0_def to0_def)+
  show "flight j (remove1 f (wire s)) = (if j = u then [] else flight j (wire s))"
    using e fl(1) by (auto simp: flight_remove1)
  show "in_range (length hs) (remove1 f (wire s))" using g by (simp add: going_alt in_range_remove1)
qed

lemma going_sub:
  "going hs s ord st \<Longrightarrow> 0 < k \<Longrightarrow> k < length hs \<Longrightarrow> st k = p \<Longrightarrow>
   sub_at hs ord (btable (nodes s ! 0)) (nodes s ! k) k (flight k (wire s)) p"
  by (auto simp: going_alt)

lemma going_machines: "going hs s ord st \<Longrightarrow> machines hs s"
  by (simp add: going_def)

lemma deliver_req:
  assumes ok: "hw_ok hs" and g: "going hs s ord st" and f: "(j, k, src, m) \<in> set (wire s)" and ph: "st (subject (j, k, src, m)) = SReq"
  shows "\<exists>r. boot_recv (k = 0) (nodes s ! k) src m t = Inr r \<and>
     going hs (put (s\<lparr>wire := remove1 (j, k, src, m) (wire s)\<rparr>) k r) ord (st(k := SAck))"
proof -
  note df = deliver_frame [OF g f refl] and hf = hw_facts [OF ok]
  let ?q = "subject (j, k, src, m)" and ?w = "remove1 (j, k, src, m) (wire s)"
  have jk: "j = 0" "k = ?q" "src = fst (hs ! 0)" "mtype m = MSG_INIT" "payload m = InitReq"
      and bl: "blank (nodes s ! ?q)" "?q \<notin> set ord"
    using going_sub [OF g df(1,2) ph] unfolding df(3) by (auto simp: from0_def)
  have k: "0 < k" "k < length hs" using df(1,2) jk by simp_all
  let ?n = "nodes s ! k"
  let ?c = "(btable ?n)\<lparr>cluster := (cluster (btable ?n))[0 := (cluster (btable ?n) ! 0)\<lparr>mac := fst (hs ! 0)\<rparr>]\<rparr>"
  let ?n1 = "set_btable ?c ?n"
  let ?g = "boot_g ?n1 MSG_INIT_ACK (InitAck (vm_nvcpu ?n) (vm_nalloc ?n))"
  have len: "length (cluster (btable ?n)) = NODE_MAX" using bl jk(2) by (simp add: blank_def)
  then have m0: "mac (cluster ?c ! 0) = fst (hs ! 0)" by (simp add: NODE_MAX_def)
  have "msg_has_handler (k = 0) MSG_INIT" using k by (simp add: msg_has_handler_def)
  then have r': "boot_recv (k = 0) (nodes s ! k) src m t = Inr (counted ?n1, [(Some (fst (hs ! 0)), ?g)])"
    using jk(3-5) m0 by (simp add: boot_recv_def recv_init_request_intr_def init_ack_def Let_def sends_eq)
  have hw: "is_hw ?n (hs ! k)" using g k by (simp add: going_alt)
  note tr = transmit_node0 [OF going_machines [OF g] hf(3) k]
  have "put (s\<lparr>wire := ?w\<rparr>) k (counted ?n1, [(Some (fst (hs ! 0)), ?g)]) = s\<lparr>nodes := (nodes s)[k := counted ?n1], wire := ?w @ [(k, 0, fst (hs ! k), ?g)]\<rparr>"
    by (simp add: put_def tr)
  moreover have "going hs (s\<lparr>nodes := (nodes s)[k := counted ?n1], wire := ?w @ [(k, 0, fst (hs ! k), ?g)]\<rparr>) ord (st(k := SAck))"
  proof (rule sub_update [OF g k])
    show "is_hw (counted ?n1) (hs ! k)" using hw by (simp add: is_hw_def)
    show "in_range (length hs) (?w @ [(k, 0, fst (hs ! k), ?g)])" using df(6) k by (simp add: in_range_def)
    show "flight i (?w @ [(k, 0, fst (hs ! k), ?g)]) = flight i (wire s)" if "i \<noteq> k" for i
      using that df(5) jk(2) by auto
    show "sub_at hs ord (btable (nodes s ! 0)) (counted ?n1) k (flight k (?w @ [(k, 0, fst (hs ! k), ?g)])) SAck"
      using df(5) [of k] jk(2) bl hw len by (simp add: to0_def is_hw_def blank_def)
    show "node0_at (length hs) ord (nodes s ! 0) (st(k := SAck))"
      using g phase_place(1) [OF g df(1,2)] ph by (intro node0_at_upd(1)) (simp_all add: going_alt)
  qed
  ultimately show ?thesis using r' by auto
qed

lemma deliver_ack:
  assumes ok: "hw_ok hs" and g: "going hs s ord st" and f: "(j, k, src, m) \<in> set (wire s)" and ph: "st (subject (j, k, src, m)) = SAck"
  shows "\<exists>r. boot_recv (k = 0) (nodes s ! k) src m t = Inr r \<and>
     going hs (put (s\<lparr>wire := remove1 (j, k, src, m) (wire s)\<rparr>) k r) (ord @ [j]) (st(j := SIn))"
proof -
  note df = deliver_frame [OF g f refl] and hf = hw_facts [OF ok]
  let ?w = "remove1 (j, k, src, m) (wire s)" and ?n = "nodes s ! 0"
  have sub: "subject (j, k, src, m) = j" "k = 0" "src = fst (hs ! j)" "mtype m = MSG_INIT_ACK"
      "payload m = InitAck (fst (snd (hs ! j))) (snd (snd (hs ! j)))" "j \<notin> set ord" "blank (nodes s ! j)"
    using going_sub [OF g df(1,2) ph] unfolding df(3) by (auto simp: to0_def)
  have j: "0 < j" "j < length hs" using df(1,2) sub(1) by simp_all
  have o: "ordering hs ord" and t: "table_for (btable ?n) (map ((!) hs) ord)" and hw: "is_hw ?n (hs ! 0)"
    using g hf(1) by (simp_all add: going_alt)
  have wo: "place ?n = WaitOnline" using phase_place(1) [OF g df(1,2)] ph by simp
  have o': "ordering hs (ord @ [j])" using o sub(6) j by (auto simp: ordering_def nth_append)
  have "card (set (ord @ [j])) \<le> card {..<length hs}" using o' by (intro card_mono) (simp_all add: ordering_def)
  then have l: "length (ord @ [j]) \<le> length hs" using o' by (simp add: ordering_def distinct_card)
  have sum: "0x40000000 + sum_list (map (\<lambda>h. unat (snd (snd h))) (map ((!) hs) ord @ [hs ! j])) < 2 ^ 64"
    using ordering_sum [OF o'] ok by (simp add: hw_ok_def)
  have v: "fst (snd (hs ! j)) \<le> VCPU_PER_NODE_MAX" using hf(5) j(2) nth_mem by blast
  obtain c where c: "node0_ack_node (btable ?n) (Some (fst (hs ! j))) (fst (snd (hs ! j))) (snd (snd (hs ! j))) = Inr c"
      "table_for c (map ((!) hs) ord @ [hs ! j])" "node_active_map c = node_active_map (btable ?n)"
    using table_ack [OF t v _ sum] l hf(2) by (auto simp: NODE_MAX_def)
  have r': "boot_recv (k = 0) (nodes s ! k) src m t = Inr (set_btable c ?n, [])"
    using sub(2-5) c(1) by (simp add: boot_recv_def msg_has_handler_def recv_init_ack_intr_def)
  have e: "put (s\<lparr>wire := ?w\<rparr>) k (set_btable c ?n, []) = s\<lparr>nodes := (nodes s)[0 := set_btable c ?n], wire := ?w\<rparr>"
    by (simp add: put_def sub(2))
  have "going hs (put (s\<lparr>wire := ?w\<rparr>) k (set_btable c ?n, [])) (ord @ [j]) (st(j := SIn))"
    unfolding e
  proof (rule node0_update [OF g hf(1)])
    show "is_hw (set_btable c ?n) (hs ! 0)" using hw by (simp add: is_hw_def)
    show "table_for (btable (set_btable c ?n)) (map ((!) hs) (ord @ [j]))" using c(2) by simp
    show "node0_at (length hs) (ord @ [j]) (set_btable c ?n) (st(j := SIn))"
      using g wo c(3) by (auto simp: going_alt node0_at_def phases_def)
    fix i assume i: "0 < i" "i < length hs"
    show "sub_at hs (ord @ [j]) (btable (set_btable c ?n)) (nodes s ! i) i (flight i ?w) ((st(j := SIn)) i)"
    proof (cases "i = j")
      case True
      then show ?thesis using df(5) [of i] sub(1,7) by simp
    next
      case False
      have "st i \<in> {SReq, SAck, SIn}" using g i wo by (auto simp: going_alt node0_at_def phases_def)
      then show ?thesis using going_sub [OF g i refl] df(5) [of i] sub(1) False by auto
    qed
  qed (use df(6) o' in simp_all)
  then show ?thesis using r' by blast
qed

lemma deliver_info:
  assumes ok: "hw_ok hs" and g: "going hs s ord st" and f: "(j, k, src, m) \<in> set (wire s)" and ph: "st (subject (j, k, src, m)) = SInfo"
  shows "\<exists>r. boot_recv (k = 0) (nodes s ! k) src m t = Inr r \<and>
     going hs (put (s\<lparr>wire := remove1 (j, k, src, m) (wire s)\<rparr>) k r) ord (st(k := SKnown))"
proof -
  note df = deliver_frame [OF g f refl] and hf = hw_facts [OF ok]
  let ?c = "btable (nodes s ! 0)" and ?w = "remove1 (j, k, src, m) (wire s)"
  have sub: "subject (j, k, src, m) = k" "mtype m = MSG_CLUSTER_INFO" "blank (nodes s ! k)" "0 < k"
      "payload m = ClusterInfo (nr_cluster_nodes ?c) (nr_cluster_vcpus ?c) (cluster ?c)"
    using going_sub [OF g df(1,2) ph] df(1) unfolding df(3) by (auto simp: from0_def)
  have k: "0 < k" "k < length hs" using df(1,2) sub(1) by simp_all
  obtain i where i: "i < length ord" "ord ! i = k" "\<not> bit (node_active_map ?c) i"
    using going_sub [OF g df(1,2) ph] sub(1) by auto
  let ?n = "nodes s ! k"
  have o: "ordering hs ord" and t: "table_for ?c (map ((!) hs) ord)" and hw: "is_hw ?n (hs ! k)"
    using g k by (simp_all add: going_alt)
  obtain c' where c': "update_cluster_info (btable ?n) None (fst (hs ! k)) (nr_cluster_nodes ?c) (nr_cluster_vcpus ?c) (cluster ?c) = Inr (i, c')"
      "same_table c' ?c"
    using update_recognizes [OF t hf(3) o i(1)] i(2) by blast
  let ?n' = "?n\<lparr>vsm := (vsm ?n)\<lparr>clust := c', local_nodeid := i\<rparr>, mynode := Some i\<rparr>"
  have "mynode ?n = None" "nic ?n = Some (fst (hs ! k))" using sub(3) hw by (simp_all add: blank_def is_hw_def)
  then have r': "boot_recv (k = 0) (nodes s ! k) src m t = Inr (?n', [])"
    using sub c'(1) by (simp add: boot_recv_def msg_has_handler_def recv_cluster_info_intr_def)
  have e: "put (s\<lparr>wire := ?w\<rparr>) k (?n', []) = s\<lparr>nodes := (nodes s)[k := ?n'], wire := ?w\<rparr>" by (simp add: put_def)
  have "going hs (put (s\<lparr>wire := ?w\<rparr>) k (?n', [])) ord (st(k := SKnown))"
    unfolding e
  proof (rule sub_update [OF g k])
    show "is_hw ?n' (hs ! k)" using hw by (simp add: is_hw_def)
    show "flight u ?w = flight u (wire s)" if "u \<noteq> k" for u using that df(5) sub(1) by auto
    show "sub_at hs ord ?c ?n' k (flight k ?w) SKnown"
      using df(5) [of k] sub(1,3) i c'(2) by (auto simp: blank_def known_def btable_def)
    show "node0_at (length hs) ord (nodes s ! 0) (st(k := SKnown))"
      using g phase_place(2) [OF g df(1,2)] ph by (intro node0_at_upd(2)) (simp_all add: going_alt)
  qed (rule df(6))
  then show ?thesis using r' by blast
qed

lemma settled_active [simp]: "settled n i (node_set_active c j b) \<longleftrightarrow> settled n i c"
  by (simp add: settled_def known_def) (simp add: node_set_active_def)

lemma known_active [simp]: "known n i (node_set_active c j b) \<longleftrightarrow> known n i c"
  by (simp add: known_def)

lemma active_bits: "u < 64 \<Longrightarrow> bit (node_active_map (node_set_active c j True)) u \<longleftrightarrow> u = j \<or> bit (node_active_map c) u"
  by (auto simp: node_set_active_def bit_simps)

lemma table_active [simp]: "table_for (node_set_active c j b) hs \<longleftrightarrow> table_for c hs"
  by (simp add: table_for_def cluster_inv_def node_set_active_def live_nodes_def node_online_def)

lemma ordering_length: "ordering hs ord \<Longrightarrow> length ord \<le> length hs"
  using card_mono [of "{..<length hs}" "set ord"] by (simp add: ordering_def distinct_card)

text \<open>Marking another node active does not concern sub-node \<open>k\<close>.\<close>

lemma sub_at_active:
  assumes "sub_at hs ord c n k w p" "p \<in> {SInfo, SKnown, SDone, SActive}" "ordering hs ord" "length hs < 31" "i < length ord" "ord ! i \<noteq> k"
  shows "sub_at hs ord (node_set_active c i True) n k w p"
proof -
  have b: "u < 64" if "u < length ord" for u using that assms(4) ordering_length [OF assms(3)] by simp
  have t: "nr_cluster_nodes (node_set_active c i True) = nr_cluster_nodes c" "cluster (node_set_active c i True) = cluster c"
    "nr_cluster_vcpus (node_set_active c i True) = nr_cluster_vcpus c" by (simp_all add: node_set_active_def)
  show ?thesis using assms(1,2,6) by (cases p) (use b in \<open>fastforce simp: active_bits t\<close>)+
qed

lemma settled_node0:
  "settled n 0 (btable n) \<Longrightarrow> local_nodeid (vsm n) = 0 \<Longrightarrow> same_table c (btable n) \<Longrightarrow> settled (set_btable c n) 0 c"
  by (auto simp: settled_def known_def same_table_def)

lemma deliver_done:
  assumes ok: "hw_ok hs" and g: "going hs s ord st" and f: "(j, k, src, m) \<in> set (wire s)" and ph: "st (subject (j, k, src, m)) = SDone"
  shows "\<exists>r. boot_recv (k = 0) (nodes s ! k) src m t = Inr r \<and>
     going hs (put (s\<lparr>wire := remove1 (j, k, src, m) (wire s)\<rparr>) k r) ord (st(j := SActive))"
proof -
  note df = deliver_frame [OF g f refl] and hf = hw_facts [OF ok]
  let ?w = "remove1 (j, k, src, m) (wire s)" and ?n = "nodes s ! 0"
  obtain i where sub: "subject (j, k, src, m) = j" "k = 0" "mtype m = MSG_SETUP_DONE" "payload m = SetupDone 0"
      "src_id m = i" "i < length ord" "ord ! i = j" "settled (nodes s ! j) i (btable ?n)" "place (nodes s ! j) = Up" "bootclk (nodes s ! j) = 0"
    using going_sub [OF g df(1,2) ph] unfolding df(3) by (auto simp: to0_def)
  have o: "ordering hs ord" and t: "table_for (btable ?n) (map ((!) hs) ord)" and hw: "is_hw ?n (hs ! 0)"
    using g hf(1) by (simp_all add: going_alt)
  have wr: "place ?n = WaitReady" using phase_place(2) [OF g df(1,2)] ph by simp
  let ?c = "node_set_active (btable ?n) i True"
  have i64: "i < 64" using sub(6) ordering_length [OF o] hf(2) by simp
  have r': "boot_recv (k = 0) (nodes s ! k) src m t = Inr (set_btable ?c ?n, [])"
    using sub by (simp add: boot_recv_def msg_has_handler_def recv_sub_setup_done_notify_intr_def)
  have e: "put (s\<lparr>wire := ?w\<rparr>) k (set_btable ?c ?n, []) = s\<lparr>nodes := (nodes s)[0 := set_btable ?c ?n], wire := ?w\<rparr>"
    by (simp add: put_def sub(2))
  have "going hs (put (s\<lparr>wire := ?w\<rparr>) k (set_btable ?c ?n, [])) ord (st(j := SActive))"
    unfolding e
  proof (rule node0_update [OF g hf(1) _ df(6) o])
    show "is_hw (set_btable ?c ?n) (hs ! 0)" using hw by (simp add: is_hw_def)
    show "table_for (btable (set_btable ?c ?n)) (map ((!) hs) ord)" using t by simp
    show "node0_at (length hs) ord (set_btable ?c ?n) (st(j := SActive))"
      using g wr settled_node0 [of ?n ?c] by (auto simp: going_alt node0_at_def phases_def active_bits)
    fix u assume u: "0 < u" "u < length hs"
    show "sub_at hs ord (btable (set_btable ?c ?n)) (nodes s ! u) u (flight u ?w) ((st(j := SActive)) u)"
    proof (cases "u = j")
      case True
      then show ?thesis using df(5) [of u] sub i64 by (auto simp: active_bits)
    next
      case False
      have "st u \<in> {SInfo, SKnown, SDone, SActive}" using g u wr by (auto simp: going_alt node0_at_def phases_def)
      then have "sub_at hs ord ?c (nodes s ! u) u (flight u (wire s)) (st u)"
        using sub_at_active [OF going_sub [OF g u refl] _ o hf(2) sub(6)] sub(7) False by blast
      then show ?thesis using df(5) [of u] sub(1) False by simp
    qed
  qed
  then show ?thesis using r' by blast
qed

lemma settled_bootclk [simp]: "settled (n\<lparr>bootclk := t\<rparr>) i c \<longleftrightarrow> settled n i c"
  by (simp add: settled_def known_def)

lemma settled_place [simp]: "settled (n\<lparr>place := p\<rparr>) i c \<longleftrightarrow> settled n i c"
  by (simp add: settled_def known_def)

lemma settled_counted [simp]: "settled (counted n) i c \<longleftrightarrow> settled n i c"
  by (simp add: settled_def known_def)

lemma deliver_boot:
  assumes ok: "hw_ok hs" and g: "going hs s ord st" and f: "(j, k, src, m) \<in> set (wire s)" and ph: "st (subject (j, k, src, m)) = SBoot"
    and t: "t \<noteq> 0"
  shows "\<exists>r. boot_recv (k = 0) (nodes s ! k) src m t = Inr r \<and>
     going hs (put (s\<lparr>wire := remove1 (j, k, src, m) (wire s)\<rparr>) k r) ord (st(k := SRun))"
proof -
  note df = deliver_frame [OF g f refl] and hf = hw_facts [OF ok]
  let ?w = "remove1 (j, k, src, m) (wire s)" and ?n = "nodes s ! k"
  have sub: "subject (j, k, src, m) = k" "mtype m = MSG_BOOT_SIG" "payload m = BootSig" "0 < k" "place ?n = Up" "bootclk ?n = 0"
      "\<exists>i < length ord. ord ! i = k \<and> settled ?n i (btable (nodes s ! 0))"
    using going_sub [OF g df(1,2) ph] df(1) unfolding df(3) by (auto simp: from0_def)
  have k: "0 < k" "k < length hs" using df(1,2) sub(1) by simp_all
  have r': "boot_recv (k = 0) (nodes s ! k) src m t = Inr (?n\<lparr>bootclk := t\<rparr>, [])"
    using sub by (simp add: boot_recv_def msg_has_handler_def recv_boot_sig_intr_def assert_res_def)
  have e: "put (s\<lparr>wire := ?w\<rparr>) k (?n\<lparr>bootclk := t\<rparr>, []) = s\<lparr>nodes := (nodes s)[k := ?n\<lparr>bootclk := t\<rparr>], wire := ?w\<rparr>" by (simp add: put_def)
  have hw: "is_hw ?n (hs ! k)" using g k by (simp add: going_alt)
  have "going hs (put (s\<lparr>wire := ?w\<rparr>) k (?n\<lparr>bootclk := t\<rparr>, [])) ord (st(k := SRun))"
    unfolding e
  proof (rule sub_update [OF g k])
    show "is_hw (?n\<lparr>bootclk := t\<rparr>) (hs ! k)" using hw by (simp add: is_hw_def)
    show "flight u ?w = flight u (wire s)" if "u \<noteq> k" for u using that df(5) sub(1) by auto
    show "sub_at hs ord (btable (nodes s ! 0)) (?n\<lparr>bootclk := t\<rparr>) k (flight k ?w) SRun"
      using df(5) [of k] sub t by simp
    show "node0_at (length hs) ord (nodes s ! 0) (st(k := SRun))"
      using g phase_place(3) [OF g df(1,2)] ph by (intro node0_at_upd(3)) (simp_all add: going_alt)
  qed (rule df(6))
  then show ?thesis using r' by blast
qed

fun rank :: "sphase \<Rightarrow> nat" where
  "rank SReq = 2" | "rank SAck = 1" | "rank SIn = 0" | "rank SInfo = 3" | "rank SKnown = 2" | "rank SDone = 1"
| "rank SActive = 0" | "rank SBoot = 1" | "rank SRun = 0"

definition total_rank :: "nat \<Rightarrow> (nat \<Rightarrow> sphase) \<Rightarrow> nat" where
  "total_rank M st = (\<Sum>k \<in> {1..<M}. rank (st k))"

lemma total_rank_upd: "0 < k \<Longrightarrow> k < M \<Longrightarrow> rank p < rank (st k) \<Longrightarrow> total_rank M (st(k := p)) < total_rank M st"
  unfolding total_rank_def by (rule sum_strict_mono_ex1) auto

text \<open>Every frame on the wire is handled without a panic, and the handler keeps the invariant.\<close>

lemma deliver_any:
  assumes ok: "hw_ok hs" and g: "going hs s ord st" and f: "(j, k, src, m) \<in> set (wire s)" and t: "t \<noteq> 0"
  shows "\<exists>r ord' st'. boot_recv (k = 0) (nodes s ! k) src m t = Inr r \<and>
     going hs (put (s\<lparr>wire := remove1 (j, k, src, m) (wire s)\<rparr>) k r) ord' st' \<and> total_rank (length hs) st' < total_rank (length hs) st"
proof -
  let ?u = "subject (j, k, src, m)"
  note df = deliver_frame [OF g f refl] and up = total_rank_upd [OF deliver_frame(1,2) [OF g f refl], of _ st]
  have k: "?u = k" if "st ?u \<in> {SReq, SInfo, SBoot}"
    using that going_sub [OF g df(1,2) refl] df(1) unfolding df(3) by (auto simp: from0_def)
  have j: "?u = j" if "st ?u \<in> {SAck, SDone}"
    using that going_sub [OF g df(1,2) refl] df(1) unfolding df(3) by (auto simp: to0_def)
  from df(4) consider "st ?u = SReq" | "st ?u = SAck" | "st ?u = SInfo" | "st ?u = SDone" | "st ?u = SBoot" by auto
  then show ?thesis
  proof cases
    case 1
    then show ?thesis using deliver_req [OF ok g f, of t] up [of SAck] k by force
  next
    case 2
    then show ?thesis using deliver_ack [OF ok g f, of t] up [of SIn] j by force
  next
    case 3
    then show ?thesis using deliver_info [OF ok g f, of t] up [of SKnown] k by force
  next
    case 4
    then show ?thesis using deliver_done [OF ok g f, of t] up [of SActive] j by force
  next
    case 5
    then show ?thesis using deliver_boot [OF ok g f _ t] up [of SRun] k by force
  qed
qed

lemma acked_inv:
  assumes ok: "hw_ok hs" and g: "going hs s ord st" and k: "0 < k" "k < length hs" and p: "place (nodes s ! k) = WaitAcked"
    and my: "mynode (nodes s ! k) \<noteq> None" and r: "subnode_setup fr (nodes s ! k) = Inr r"
  shows "st k = SKnown" "going hs (put s k r) ord (st(k := SDone))"
proof -
  note hf = hw_facts [OF ok]
  let ?n = "nodes s ! k" and ?c = "btable (nodes s ! 0)"
  show sk: "st k = SKnown" using going_sub [OF g k refl] p my by (cases "st k") (auto simp: blank_def)
  obtain i where i: "i < length ord" "ord ! i = k" "\<not> bit (node_active_map ?c) i" "known ?n i ?c" "s2 (vsm ?n) = (\<lambda>_. 0)"
      "bootclk ?n = 0" "flight k (wire s) = []"
    using going_sub [OF g k sk] by auto
  have o: "ordering hs ord" and t: "table_for ?c (map ((!) hs) ord)" and hw: "is_hw ?n (hs ! k)" and w: "in_range (length hs) (wire s)"
    using g k by (simp_all add: going_alt)
  have v: "length (vm_vcpus ?n) = VCPU_PER_NODE_MAX" using hw by (simp add: is_hw_def)
  obtain n1 where n1: "cluster_node_me_setup fr ?n = Inr n1" using r by (auto simp: subnode_setup_def bind_res_eq_Inr)
  have "i < length (map ((!) hs) ord)" using i(1) by simp
  note m = me_setup [OF i(4) t ordering_hw [OF ok o] this v i(5) n1]
  have m0: "mac (cluster (btable n1) ! 0) = fst (hs ! 0)"
  proof -
    have "cluster (btable n1) = cluster ?c" using m(1) by (simp add: settled_def known_def same_table_def)
    then show ?thesis using t o by (simp add: table_for_def ordering_def)
  qed
  have li: "local_nodeid (vsm n1) = i" using m(1) by (simp add: settled_def known_def)
  let ?n' = "(counted n1)\<lparr>place := Up\<rparr>" and ?g = "boot_g n1 MSG_SETUP_DONE (SetupDone 0)"
  have r': "r = (?n', [(Some (fst (hs ! 0)), ?g)])"
    using r n1 m0 by (simp add: subnode_setup_def send_setup_done_notify_def sends_eq)
  have e: "put s k r = s\<lparr>nodes := (nodes s)[k := ?n'], wire := wire s @ [(k, 0, fst (hs ! k), ?g)]\<rparr>"
    using transmit_node0 [OF going_machines [OF g] hf(3) k] by (simp add: put_def r')
  show "going hs (put s k r) ord (st(k := SDone))"
    unfolding e
  proof (rule sub_update [OF g k])
    show "is_hw ?n' (hs ! k)" using hw m by (simp add: is_hw_def)
    show "in_range (length hs) (wire s @ [(k, 0, fst (hs ! k), ?g)])" using w k by (simp add: in_range_def)
    show "sub_at hs ord ?c ?n' k (flight k (wire s @ [(k, 0, fst (hs ! k), ?g)])) SDone"
      using i m(1,7) li by (auto simp: to0_def)
    show "node0_at (length hs) ord (nodes s ! 0) (st(k := SDone))"
      using g phase_place(2) [OF g k] sk by (intro node0_at_upd(2)) (simp_all add: going_alt)
  qed simp
qed

text \<open>When every node is online, all machines are in the table.\<close>

lemma everybody_in:
  assumes ok: "hw_ok hs" and g: "going hs s ord st" and a: "all_node_is_online (btable (nodes s ! 0)) = Inr True"
  shows "length ord = length hs" "k < length hs \<Longrightarrow> k \<in> set ord"
proof -
  have o: "ordering hs ord" and t: "table_for (btable (nodes s ! 0)) (map ((!) hs) ord)" using g by (simp_all add: going_alt)
  show l: "length ord = length hs"
    using all_online_iff [OF t] a hw_facts(4) [OF ok] ordering_length [OF o] by simp
  have "card (set ord) = card {..<length hs}" using o l by (simp add: ordering_def distinct_card)
  then have "set ord = {..<length hs}" using o by (intro card_subset_eq) (simp_all add: ordering_def)
  then show "k < length hs \<Longrightarrow> k \<in> set ord" by simp
qed

lemma online_inv:
  assumes ok: "hw_ok hs" and g: "going hs s ord st" and p: "place (nodes s ! 0) = WaitOnline"
    and a: "all_node_is_online (btable (nodes s ! 0)) = Inr True" and r: "cluster_init_online fr (nodes s ! 0) = Inr r"
  shows "going hs (put s 0 r) ord (\<lambda>_. SInfo)"
proof -
  note hf = hw_facts [OF ok] and ev = everybody_in [OF ok g a]
  let ?n = "nodes s ! 0" let ?c = "btable ?n"
  let ?g = "boot_g ?n MSG_CLUSTER_INFO (ClusterInfo (nr_cluster_nodes ?c) (nr_cluster_vcpus ?c) (cluster ?c))"
  have o: "ordering hs ord" and t: "table_for ?c (map ((!) hs) ord)" and hw: "is_hw ?n (hs ! 0)" and w: "in_range (length hs) (wire s)"
    and n0: "mynode ?n = Some 0" "local_nodeid (vsm ?n) = 0" "s2 (vsm ?n) = (\<lambda>_. 0)" "node_active_map ?c = 0" "bootclk ?n = 0"
      "phases (length hs) st {SReq, SAck, SIn}"
    using g hf(1) p by (simp_all add: going_alt node0_at_def)
  obtain n1 where n1: "cluster_node_me_setup fr (counted ?n) = Inr n1" "r = (n1\<lparr>place := WaitReady\<rparr>, [(None, ?g)])"
    using r by (auto simp: cluster_init_online_def broadcast_cluster_info_def Let_def sends_eq bind_res_eq_Inr)
  have kn: "known (counted ?n) 0 ?c" using n0 by (simp add: known_def)
  have l0: "0 < length (map ((!) hs) ord)" and v: "length (vm_vcpus (counted ?n)) = VCPU_PER_NODE_MAX"
    and z: "s2 (vsm (counted ?n)) = (\<lambda>_. 0)" using o hw n0(3) by (simp_all add: ordering_def is_hw_def)
  note m = me_setup [OF kn t ordering_hw [OF ok o] l0 v z n1(1)]
  let ?c' = "node_set_active ?c 0 True"
  have bt: "btable n1 = ?c'" using m(8) by simp
  have my1: "mynode n1 = Some 0" "local_nodeid (vsm n1) = 0" using m(1) by (simp_all add: settled_def known_def)
  have e: "put s 0 r = s\<lparr>nodes := (nodes s)[0 := n1\<lparr>place := WaitReady\<rparr>], wire := wire s @ map (\<lambda>k. (0, k, fst (hs ! 0), ?g)) [1..<length hs]\<rparr>"
    using transmit_bcast [OF going_machines [OF g] hf(1)] by (simp add: put_def n1(2))
  show ?thesis
    unfolding e
  proof (rule node0_update [OF g hf(1) _ _ o])
    show "is_hw (n1\<lparr>place := WaitReady\<rparr>) (hs ! 0)" using hw m by (simp add: is_hw_def)
    show "in_range (length hs) (wire s @ map (\<lambda>k. (0, k, fst (hs ! 0), ?g)) [1..<length hs])" using w bcast_flight(2) by simp
    show "table_for (btable (n1\<lparr>place := WaitReady\<rparr>)) (map ((!) hs) ord)" using t bt by simp
    show "node0_at (length hs) ord (n1\<lparr>place := WaitReady\<rparr>) (\<lambda>_. SInfo)"
      using m(1,7) n0(5) ev(1) my1 by (simp add: node0_at_def phases_def bt active_bits)
    fix k assume k: "0 < k" "k < length hs"
    have "st k \<in> {SReq, SAck, SIn}" using n0(6) k by (auto simp: phases_def)
    then have "flight k (wire s) = []" "blank (nodes s ! k)" using going_sub [OF g k refl] ev(2) [OF k(2)] by auto
    moreover obtain i where "i < length ord" "ord ! i = k" using ev(2) [OF k(2)] by (auto simp: in_set_conv_nth)
    moreover have "\<not> bit (node_active_map ?c') i" if "ord ! i = k" "i < length ord" for i
      using that n0(4) k o ordering_length [OF o] hf(2) active_bits [of i ?c 0] by (cases "i = 0") (auto simp: ordering_def)
    ultimately show "sub_at hs ord (btable (n1\<lparr>place := WaitReady\<rparr>)) (nodes s ! k) k
        (flight k (wire s @ map (\<lambda>k. (0, k, fst (hs ! 0), ?g)) [1..<length hs])) SInfo"
      using bcast_flight(1) [OF k] by (auto simp: bt from0_def) (auto simp: node_set_active_def)
  qed
qed

lemma ready_inv:
  assumes ok: "hw_ok hs" and g: "going hs s ord st" and p: "place (nodes s ! 0) = WaitReady"
    and a: "all_node_is_active (btable (nodes s ! 0)) = Inr True"
  shows "going hs (put s 0 ((nodes s ! 0)\<lparr>place := Up\<rparr>, [])) ord st"
proof -
  note hf = hw_facts [OF ok]
  let ?n = "nodes s ! 0"
  have t: "table_for (btable ?n) (map ((!) hs) ord)" and l: "length ord = length hs" and o: "ordering hs ord"
    and n0: "mynode ?n = Some 0" "local_nodeid (vsm ?n) = 0" "settled ?n 0 (btable ?n)" "bootclk ?n = 0"
      "phases (length hs) st {SInfo, SKnown, SDone, SActive}"
    using g p by (simp_all add: going_alt node0_at_def)
  have act: "bit (node_active_map (btable ?n)) i" if "i < length ord" for i
    using all_active_iff [OF t] a l hf(2) that by simp
  have sa: "st k = SActive" if k: "0 < k" "k < length hs" for k
  proof -
    have "st k \<in> {SInfo, SKnown, SDone, SActive}" using n0(5) k by (simp add: phases_def)
    then show ?thesis using going_sub [OF g k refl] act by auto
  qed
  have "node0_at (length hs) ord (?n\<lparr>place := Up\<rparr>) st"
    using n0 l sa by (simp add: node0_at_def phases_def)
  moreover have "is_hw (?n\<lparr>place := Up\<rparr>) (hs ! 0)" using g hf(1) by (simp add: going_alt is_hw_def)
  ultimately show ?thesis
    unfolding put_def using g t o hf(1) by (simp add: going_alt nth_list_update is_hw_def)
qed

lemma boot_sig_inv:
  assumes ok: "hw_ok hs" and g: "going hs s ord st" and p: "place (nodes s ! 0) = Up" "bootclk (nodes s ! 0) = 0" and t: "t \<noteq> 0"
  shows "going hs (put s 0 (broadcast_boot_signal (setup_node0_bootclock (nodes s ! 0) t))) ord (\<lambda>_. SBoot)"
proof -
  note hf = hw_facts [OF ok]
  let ?n = "(nodes s ! 0)\<lparr>bootclk := t\<rparr>" let ?g = "boot_g ?n MSG_BOOT_SIG BootSig"
  let ?w = "wire s @ map (\<lambda>k. (0, k, fst (hs ! 0), ?g)) [1..<length hs]"
  have n0: "node0_at (length hs) ord (nodes s ! 0) st" using g by (simp add: going_alt)
  have e: "put s 0 (broadcast_boot_signal (setup_node0_bootclock (nodes s ! 0) t)) = s\<lparr>nodes := (nodes s)[0 := counted ?n], wire := ?w\<rparr>"
    using transmit_bcast [OF going_machines [OF g] hf(1)]
    by (simp add: put_def broadcast_boot_signal_def setup_node0_bootclock_def sends_eq)
  show ?thesis
    unfolding e
  proof (rule node0_update [OF g hf(1)])
    show "is_hw (counted ?n) (hs ! 0)" "ordering hs ord" "table_for (btable (counted ?n)) (map ((!) hs) ord)" "in_range (length hs) ?w"
      using g hf(1) bcast_flight(2) by (simp_all add: going_alt is_hw_def)
    show "node0_at (length hs) ord (counted ?n) (\<lambda>_. SBoot)"
      using n0 p t by (simp add: node0_at_def phases_def)
    fix k assume k: "0 < k" "k < length hs"
    have "st k = SActive" using n0 p k by (auto simp: node0_at_def phases_def)
    then show "sub_at hs ord (btable (counted ?n)) (nodes s ! k) k (flight k ?w) SBoot"
      using going_sub [OF g k, of SActive] bcast_flight(1) [OF k] by (auto simp: from0_def)
  qed
qed

lemma going_place: "going hs s ord st \<Longrightarrow> place (nodes s ! 0) \<noteq> Start"
  by (auto simp: going_alt node0_at_def)

lemma power_on_steps:
  assumes ok: "hw_ok hs" and st: "boot_step fr (power_on hs) s'"
  shows "going hs s' [0] (\<lambda>_. SReq)"
proof -
  have n: "place (nodes (power_on hs) ! 0) = Start" "wire (power_on hs) = []" "length (nodes (power_on hs)) = length hs"
    "k < length hs \<Longrightarrow> mynode (nodes (power_on hs) ! k) = None" for k
    using hw_facts(1) [OF ok] by (simp_all add: power_on_def fresh_bnode_def)
  show ?thesis using st n start_inv [OF ok] by (cases rule: boot_step.cases) auto
qed

lemma boot_step_inv:
  assumes ok: "hw_ok hs" and inv: "boot_inv hs s" and st: "boot_step fr s s'"
  shows "\<exists>ord st. going hs s' ord st"
proof (cases "s = power_on hs")
  case True
  then show ?thesis using power_on_steps [OF ok] st by blast
next
  case False
  then obtain ord ph where g: "going hs s ord ph" using inv by (auto simp: boot_inv_def)
  show ?thesis using st
  proof cases
    case (start r)
    then show ?thesis using going_place [OF g] by simp
  next
    case (all_online r)
    then show ?thesis using online_inv [OF ok g] by blast
  next
    case all_ready
    then show ?thesis using ready_inv [OF ok g] by blast
  next
    case (boot t)
    then show ?thesis using boot_sig_inv [OF ok g] by blast
  next
    case (acked k r)
    then have "k < length hs" using g by (simp add: going_alt)
    then show ?thesis using acked acked_inv(2) [OF ok g] by blast
  next
    case (deliver j k src m t r)
    then show ?thesis using deliver_any [OF ok g, of j k src m t] by auto
  qed
qed

lemma boot_reach_inv:
  assumes ok: "hw_ok hs" and r: "boot_reach fr hs s"
  shows "boot_inv hs s"
  using r unfolding boot_reach_def
proof (induction rule: rtranclp_induct)
  case base
  then show ?case by (simp add: boot_inv_def)
next
  case (step s s')
  then show ?case using boot_step_inv [OF ok] by (auto simp: boot_inv_def)
qed

section \<open>Progress\<close>

fun weight :: "boot_hdr \<Rightarrow> nat" where
  "weight InitReq = 2" | "weight (InitAck v a) = 1" | "weight (ClusterInfo n v i) = 3" | "weight (SetupDone e) = 1" | "weight BootSig = 1"

definition sub_weight :: "boot \<Rightarrow> nat \<Rightarrow> nat" where
  "sub_weight s k = sum_list (map (\<lambda>(_, _, _, g). weight (payload g)) (flight k (wire s))) +
     (if place (nodes s ! k) = WaitAcked \<and> mynode (nodes s ! k) \<noteq> None then 2 else 0)"

definition stage :: "bnode \<Rightarrow> nat" where
  "stage n = (case place n of Start \<Rightarrow> 4 | WaitOnline \<Rightarrow> 3 | WaitReady \<Rightarrow> 2 | _ \<Rightarrow> if bootclk n = 0 then 1 else 0)"

definition boot_measure :: "boot \<Rightarrow> nat" where
  "boot_measure s = (\<Sum>k \<in> {1..<length (nodes s)}. sub_weight s k) + 3 * length (nodes s) * stage (nodes s ! 0)"

lemma going_measure:
  assumes "going hs s ord st"
  shows "boot_measure s = total_rank (length hs) st + 3 * length hs * stage (nodes s ! 0)"
proof -
  have "sub_weight s k = rank (st k)" if "k \<in> {1..<length hs}" for k
    using going_sub [OF assms, of k "st k"] that
    by (cases "st k") (auto simp: sub_weight_def from0_def to0_def blank_def known_def)
  then show ?thesis using assms by (simp add: boot_measure_def total_rank_def going_alt)
qed

lemma power_on_measure: "hw_ok hs \<Longrightarrow> boot_measure (power_on hs) = 12 * length hs"
  using hw_facts(1) [of hs]
  by (simp add: boot_measure_def sub_weight_def stage_def) (simp add: power_on_def fresh_bnode_def)

lemma boot_recv_place:
  "boot_recv b n src g t = Inr (n', out) \<Longrightarrow> place n' = place n \<and> (b \<longrightarrow> bootclk n' = bootclk n)"
  by (cases "mtype g"; cases "payload g")
    (auto simp: boot_recv_def msg_has_handler_def recv_init_request_intr_def init_ack_def sends_eq recv_init_ack_intr_def
      recv_cluster_info_intr_def recv_boot_sig_intr_def assert_res_def Let_def bind_res_eq_Inr
      split: if_splits option.splits)

lemma total_rank_const: "total_rank M (\<lambda>_. p) = rank p * (M - 1)"
  by (simp add: total_rank_def)

lemma put_node: "i < length (nodes s) \<Longrightarrow> nodes (put s i r) ! k = (if k = i then fst r else nodes s ! k)"
  by (simp add: put_def nth_list_update)

lemma boot_step_measure:
  assumes ok: "hw_ok hs" and inv: "boot_inv hs s" and st: "boot_step fr s s'"
  shows "boot_measure s' < boot_measure s"
proof (cases "s = power_on hs")
  case True
  note hf = hw_facts(1) [OF ok]
  have g: "going hs s' [0] (\<lambda>_. SReq)" using power_on_steps [OF ok] st True by blast
  have "2 * (length hs - 1) + 3 * length hs * stage (nodes s' ! 0) < 12 * length hs"
  proof -
    have "stage (nodes s' ! 0) \<le> 3" using going_place [OF g] by (auto simp: stage_def split: place.splits)
    then have "3 * length hs * stage (nodes s' ! 0) \<le> 9 * length hs" by simp
    then show ?thesis using hf by linarith
  qed
  then show ?thesis using True going_measure [OF g] power_on_measure [OF ok] by (simp add: total_rank_const)
next
  case False
  then obtain ord ph where g: "going hs s ord ph" using inv by (auto simp: boot_inv_def)
  note gm = going_measure [OF g] and hf = hw_facts(1) [OF ok]
  have l: "length (nodes s) = length hs" using g by (simp add: going_alt)
  then have n0: "0 < length (nodes s)" using hf by simp
  show ?thesis using st
  proof cases
    case (start r)
    then show ?thesis using going_place [OF g] by simp
  next
    case (all_online r)
    have "stage (nodes s' ! 0) = 2" "stage (nodes s ! 0) = 3"
      using all_online by (auto simp: put_node [OF n0] stage_def cluster_init_online_def bind_res_eq_Inr split: prod.splits)
    then show ?thesis using going_measure [OF online_inv [OF ok g all_online(2-4)]] all_online(1) gm hf
      by (cases hs) (simp_all add: total_rank_const)
  next
    case all_ready
    have "stage (nodes s' ! 0) < stage (nodes s ! 0)"
      using all_ready by (simp add: put_node [OF n0] stage_def)
    then show ?thesis using going_measure [OF ready_inv [OF ok g all_ready(2,3)]] all_ready(1) gm hf by simp
  next
    case (boot t)
    have "stage (nodes s' ! 0) = 0" "stage (nodes s ! 0) = 1"
      using boot by (simp_all add: put_node [OF n0] stage_def broadcast_boot_signal_def setup_node0_bootclock_def sends_eq)
    then show ?thesis using going_measure [OF boot_sig_inv [OF ok g boot(2-4)]] boot(1) gm hf by (cases hs) (simp_all add: total_rank_const)
  next
    case (acked k r)
    then have k: "k < length hs" using l by simp
    note ai = acked_inv [OF ok g acked(2) k acked(4-6)]
    have "stage (nodes s' ! 0) = stage (nodes s ! 0)" using acked(1,2,3) by (simp add: put_node)
    moreover have "total_rank (length hs) (ph(k := SDone)) < total_rank (length hs) ph"
      using total_rank_upd [OF acked(2) k, of SDone ph] ai(1) by simp
    ultimately show ?thesis using going_measure [OF ai(2)] acked(1) gm by simp
  next
    case (deliver j k src m t r)
    then obtain ord' st' where g': "going hs s' ord' st'" "total_rank (length hs) st' < total_rank (length hs) ph"
      using deliver_any [OF ok g deliver(2,5)] by auto
    have "stage (nodes s' ! 0) = stage (nodes s ! 0)"
      using deliver boot_recv_place [of "k = 0" "nodes s ! k" src m t "fst r" "snd r"]
      by (auto simp: put_def nth_list_update stage_def)
    then show ?thesis using going_measure [OF g'(1)] g'(2) gm by simp
  qed
qed

lemma frame_step:
  assumes ok: "hw_ok hs" and g: "going hs s ord st" and k: "0 < k" "k < length hs" and p: "st k \<in> {SReq, SAck, SInfo, SDone, SBoot}"
  shows "\<exists>s'. boot_step fr s s'"
proof -
  note gs = going_sub [OF g k refl]
  have "flight k (wire s) \<noteq> []" using gs p by (auto simp: from0_def to0_def)
  then obtain j u src m where f: "(j, u, src, m) \<in> set (flight k (wire s))" by (metis last_in_set prod_cases4)
  have u: "u = 0 \<or> u = k" using gs p f by (auto simp: from0_def to0_def)
  have "place (nodes s ! k) \<noteq> Start" using gs by (cases "st k") (auto simp: blank_def)
  then have "place (nodes s ! u) \<noteq> Start" using u going_place [OF g] by auto
  moreover have "u < length (nodes s)" using u k g by (auto simp: going_alt)
  moreover have w: "(j, u, src, m) \<in> set (wire s)" using f by (simp add: flight_def)
  ultimately show ?thesis using deliver_any [OF ok g w, of 1] boot_step.deliver [OF w, of 1 _ fr] by fastforce
qed

lemma everybody_known:
  assumes g: "going hs s ord st" and i: "\<And>k. 0 < k \<Longrightarrow> k < length hs \<Longrightarrow> k \<in> set ord"
  shows "length ord = length hs"
proof -
  have o: "ordering hs ord" using g by (simp add: going_alt)
  have "0 \<in> set ord" using o nth_mem [of 0 ord] by (simp add: ordering_def)
  then have "k \<in> set ord" if "k < length hs" for k using i that by (cases "k = 0") auto
  then have "{..<length hs} \<subseteq> set ord" by auto
  then have "length hs \<le> length ord" using card_mono [of "set ord" "{..<length hs}"] card_length [of ord] by simp
  then show ?thesis using ordering_length [OF o] by simp
qed

lemma all_ready_step:
  assumes ok: "hw_ok hs" and g: "going hs s ord st" and p: "place (nodes s ! 0) = WaitReady"
    and a: "\<And>k. 0 < k \<Longrightarrow> k < length hs \<Longrightarrow> st k = SActive"
  shows "all_node_is_active (btable (nodes s ! 0)) = Inr True"
proof -
  let ?c = "btable (nodes s ! 0)"
  have t: "table_for ?c (map ((!) hs) ord)" and l: "length ord = length hs" and o: "ordering hs ord" and b0: "bit (node_active_map ?c) 0"
    using g p by (simp_all add: going_alt node0_at_def)
  have "bit (node_active_map ?c) i" if i: "i < length ord" for i
  proof (cases "i = 0")
    case False
    have "ord ! i \<noteq> ord ! 0" using False o i nth_eq_iff_index_eq [of ord i 0] by (auto simp: ordering_def)
    moreover have "ord ! i \<in> {..<length hs}" using o nth_mem [OF i] unfolding ordering_def by blast
    ultimately have k: "0 < ord ! i" "ord ! i < length hs" using o by (simp_all add: ordering_def)
    obtain j where "j < length ord" "ord ! j = ord ! i" "bit (node_active_map ?c) j" using going_sub [OF g k a [OF k]] by auto
    then show ?thesis using o i nth_eq_iff_index_eq [of ord j i] by (simp add: ordering_def)
  qed (use b0 in simp)
  then show ?thesis using all_active_iff [OF t] hw_facts(2) [OF ok] l by simp
qed

lemma known_step:
  assumes ok: "hw_ok hs" and g: "going hs s ord st" and fr: "\<And>k j. fr k j \<noteq> 0" and k: "0 < k" "k < length hs" "st k = SKnown"
  shows "\<exists>s'. boot_step fr s s'"
proof -
  let ?n = "nodes s ! k"
  obtain i where i: "i < length ord" "known ?n i (btable (nodes s ! 0))" "s2 (vsm ?n) = (\<lambda>_. 0)" "place ?n = WaitAcked"
    using going_sub [OF g k] by auto
  have o: "ordering hs ord" and t: "table_for (btable (nodes s ! 0)) (map ((!) hs) ord)" and v: "length (vm_vcpus ?n) = VCPU_PER_NODE_MAX"
    and l: "length (nodes s) = length hs" using g k by (auto simp: going_alt is_hw_def)
  obtain n' where "cluster_node_me_setup (fr k) ?n = Inr n'"
    using me_setup_succeeds [where fr = "fr k", OF i(2) t ordering_hw [OF ok o] _ v i(3) fr] i(1) by auto
  then obtain r where "subnode_setup (fr k) ?n = Inr r" by (auto simp: subnode_setup_def send_setup_done_notify_def sends_eq)
  then show ?thesis using boot_step.acked [OF k(1), of s fr r] k(2) l i(2,4) by (auto simp: known_def)
qed

lemma online_step:
  assumes ok: "hw_ok hs" and g: "going hs s ord st" and fr: "\<And>k j. fr k j \<noteq> 0" and p: "place (nodes s ! 0) = WaitOnline"
    and a: "\<And>k. 0 < k \<Longrightarrow> k < length hs \<Longrightarrow> st k = SIn"
  shows "\<exists>s'. boot_step fr s s'"
proof -
  let ?n = "nodes s ! 0"
  have n0: "node0_at (length hs) ord ?n st" and o: "ordering hs ord" and t: "table_for (btable ?n) (map ((!) hs) ord)"
    and v: "length (vm_vcpus ?n) = VCPU_PER_NODE_MAX" using g hw_facts(1) [OF ok] by (simp_all add: going_alt is_hw_def)
  have "k \<in> set ord" if "0 < k" "k < length hs" for k using going_sub [OF g that a [OF that]] by simp
  then have "length ord = length hs" using everybody_known [OF g] by blast
  then have on: "all_node_is_online (btable ?n) = Inr True" using all_online_iff [OF t] hw_facts(4) [OF ok] by simp
  have kn: "known (counted ?n) 0 (btable ?n)" and z: "s2 (vsm (counted ?n)) = (\<lambda>_. 0)" "length (vm_vcpus (counted ?n)) = VCPU_PER_NODE_MAX"
    using n0 p v by (simp_all add: node0_at_def known_def)
  obtain n' where "cluster_node_me_setup (fr 0) (counted ?n) = Inr n'"
    using me_setup_succeeds [where fr = "fr 0", OF kn t ordering_hw [OF ok o] _ z(2,1) fr] o by (auto simp: ordering_def)
  then show ?thesis
    using boot_step.all_online [OF p on, of fr] by (auto simp: cluster_init_online_def broadcast_cluster_info_def Let_def sends_eq)
qed

text \<open>A system in which some node does not run the guest yet can take a step.\<close>

lemma boot_progress:
  assumes ok: "hw_ok hs" and g: "going hs s ord st" and fr: "\<And>k j. fr k j \<noteq> 0"
    and nd: "\<not> (\<forall>k < length hs. place (nodes s ! k) = Up \<and> bootclk (nodes s ! k) \<noteq> 0)"
  shows "\<exists>s'. boot_step fr s s'"
proof (cases "\<exists>k. 0 < k \<and> k < length hs \<and> st k \<in> {SReq, SAck, SInfo, SDone, SBoot, SKnown}")
  case True
  then obtain k where k: "0 < k" "k < length hs" "st k \<in> {SReq, SAck, SInfo, SDone, SBoot, SKnown}" by blast
  show ?thesis
  proof (cases "st k = SKnown")
    case True
    then show ?thesis using known_step [where fr = fr, OF ok g fr k(1,2)] by blast
  next
    case False
    then show ?thesis using frame_step [OF ok g k(1,2)] k(3) by simp
  qed
next
  case False
  let ?n = "nodes s ! 0"
  have q: "st k \<in> {SIn, SActive, SRun}" if "0 < k" "k < length hs" for k using False that by (cases "st k") auto
  have n0: "node0_at (length hs) ord ?n st" using g by (auto simp: going_alt)
  show ?thesis
  proof (cases "place ?n")
    case WaitOnline
    have "st k = SIn" if "0 < k" "k < length hs" for k using q [OF that] n0 WaitOnline that by (auto simp: node0_at_def phases_def)
    then show ?thesis using online_step [where fr = fr, OF ok g fr WaitOnline] by blast
  next
    case WaitReady
    have "st k = SActive" if "0 < k" "k < length hs" for k using q [OF that] n0 WaitReady that by (auto simp: node0_at_def phases_def)
    then show ?thesis using boot_step.all_ready [OF WaitReady] all_ready_step [OF ok g WaitReady] by blast
  next
    case Up
    show ?thesis
    proof (cases "bootclk ?n = 0")
      case False
      then have "st k = SRun" if "0 < k" "k < length hs" for k using q [OF that] n0 Up that by (auto simp: node0_at_def phases_def)
      then have "place (nodes s ! k) = Up \<and> bootclk (nodes s ! k) \<noteq> 0" if "k < length hs" for k
        using that going_sub [OF g, of k SRun] Up False by (cases "k = 0") auto
      then show ?thesis using nd by blast
    qed (use boot_step.boot [OF Up, of 1] in auto)
  qed (use n0 in \<open>simp_all add: node0_at_def\<close>)
qed

section \<open>Properties\<close>

definition two_machines :: "hwconf list" where
  "two_machines = [([2, 0, 0, 0, 0, 1], 2, MEM_PER_NODE), ([2, 0, 0, 0, 0, 2], 2, MEM_PER_NODE)]"

lemma two_machines_ok: "hw_ok two_machines"
  by (simp add: hw_ok_def two_machines_def NR_NODE_def VCPU_PER_NODE_MAX_def PAGE_ALIGNED_def PAGESIZE_def MEM_PER_NODE_def)

lemma boot_reach_cases:
  assumes "hw_ok hs" "boot_reach fr hs s"
  shows "s = power_on hs \<or> (\<exists>ord st. going hs s ord st)"
  using boot_reach_inv [OF assms] by (simp add: boot_inv_def)

text \<open>What a node holds once it is set up, in terms of the lookups of the cluster.\<close>

lemma settled_lookup:
  assumes t: "table_for c hs" and i: "i < length hs" and n: "settled n i c" and l: "length (vm_vcpus n) = VCPU_PER_NODE_MAX"
    and h: "\<forall>h \<in> set hs. fst (snd h) \<le> VCPU_PER_NODE_MAX \<and> PAGE_ALIGNED (snd (snd h))"
  shows "PAGE_ALIGNED P \<Longrightarrow> pte_accessible (s2 (vsm n) P) \<longleftrightarrow> page_manager c P = int i"
    "j < fst (snd (hs ! i)) \<Longrightarrow> vcpuid_to_nodeid c (vcpuid (vm_vcpus n ! j)) = int i"
proof -
  have ci: "cluster_inv c" and nr: "nr_cluster_nodes c = length hs" using t by (simp_all add: table_for_def)
  show "PAGE_ALIGNED P \<Longrightarrow> pte_accessible (s2 (vsm n) P) \<longleftrightarrow> page_manager c P = int i"
  proof -
    assume P: "PAGE_ALIGNED P"
    have e: "if in_memrange (cmem (cluster c ! i)) P then \<exists>a. s2 (vsm n) P = slice_entry a else s2 (vsm n) P = 0"
      using n P by (simp add: settled_def)
    have "pte_accessible (s2 (vsm n) P) \<longleftrightarrow> in_memrange (cmem (cluster c ! i)) P"
    proof (cases "in_memrange (cmem (cluster c ! i)) P")
      case True
      then obtain a where "s2 (vsm n) P = slice_entry a" using e by auto
      then show ?thesis using slice_entry_ok(2) True by simp
    next
      case False
      then show ?thesis using e by (simp add: pte_pred_bits)
    qed
    then show ?thesis using page_manager_spec(1) [OF ci, of P i] i nr by simp
  qed
  let ?e = "cluster c ! i"
  assume j: "j < fst (snd (hs ! i))"
  have nv: "nvcpu ?e = fst (snd (hs ! i))" "nvcpu ?e \<le> VCPU_PER_NODE_MAX" using t i h by (simp_all add: table_for_def)
  have "length (vcpus ?e) = VCPU_PER_NODE_MAX" using table_slice(4) [OF t _ i] h by blast
  moreover have "take (nvcpu ?e) (map vcpuid (vm_vcpus n)) ! j = take (nvcpu ?e) (vcpus ?e) ! j" using n by (simp add: settled_def)
  ultimately have "vcpuid (vm_vcpus n ! j) \<in> set (take (nvcpu ?e) (vcpus ?e))"
    using j nv l by (auto simp: in_set_conv_nth)
  then show "vcpuid_to_nodeid c (vcpuid (vm_vcpus n ! j)) = int i"
    using vcpu_home(2) [OF ci] i nr by (simp add: vcpuid_in_cluster_def)
qed

lemma same_table_lookups:
  "same_table c d \<Longrightarrow> page_manager c P = page_manager d P" "same_table c d \<Longrightarrow> vcpuid_to_nodeid c v = vcpuid_to_nodeid d v"
  by (simp_all add: same_table_def page_manager_def vcpuid_to_nodeid_def vcpuid_to_node_def live_nodes_def)

lemma up_settled:
  assumes g: "going hs s ord st" and u: "place (nodes s ! 0) = Up" and k: "k < length hs"
  shows "\<exists>i < length ord. ord ! i = k \<and> settled (nodes s ! k) i (btable (nodes s ! 0))"
proof (cases "k = 0")
  case True
  have "settled (nodes s ! 0) 0 (btable (nodes s ! 0))" "ordering hs ord" using g u by (simp_all add: going_alt node0_at_def)
  then show ?thesis using True by (auto simp: ordering_def)
next
  case False
  then have "st k \<in> {SActive, SBoot, SRun}" using g u k by (auto simp: going_alt node0_at_def phases_def split: if_splits)
  then show ?thesis using going_sub [OF g _ k refl] False by auto
qed

text \<open>A run that goes on as long as it can.\<close>

lemma maximal_run:
  "\<exists>run. run 0 = s \<and> (\<forall>i. boot_step fr (run i) (run (Suc i)) \<or> run (Suc i) = run i \<and> (\<forall>s'. \<not> boot_step fr (run i) s'))"
proof -
  define f where "f u = (if \<exists>s'. boot_step fr u s' then SOME s'. boot_step fr u s' else u)" for u
  have "boot_step fr u (f u) \<or> f u = u \<and> (\<forall>s'. \<not> boot_step fr u s')" for u
    unfolding f_def by (auto intro: someI)
  then show ?thesis by (intro exI [of _ "\<lambda>i. (f ^^ i) s"]) simp
qed

lemma start_step:
  assumes "hw_ok hs"
  shows "\<exists>s. boot_step fr (power_on hs) s \<and> going hs s [0] (\<lambda>_. SReq)"
proof -
  obtain r where r: "cluster_init_begin (nodes (power_on hs) ! 0) = Inr r" "going hs (put (power_on hs) 0 r) [0] (\<lambda>_. SReq)"
    using start_inv [OF assms] by blast
  have "place (nodes (power_on hs) ! 0) = Start" using hw_facts(1) [OF assms] by (simp add: power_on_def fresh_bnode_def)
  then show ?thesis using boot_step.start [OF _ r(1)] r(2) by blast
qed

lemma unfinished_step:
  assumes ok: "hw_ok hs" and inv: "boot_inv hs s" and fr: "\<And>k j. fr k j \<noteq> 0"
    and nd: "\<not> (\<forall>k < length hs. place (nodes s ! k) = Up \<and> bootclk (nodes s ! k) \<noteq> 0)"
  shows "\<exists>s'. boot_step fr s s'"
proof (cases "s = power_on hs")
  case True
  then show ?thesis using start_step [OF ok] by blast
next
  case False
  then show ?thesis using inv boot_progress [where fr = fr, OF ok _ fr nd] by (auto simp: boot_inv_def)
qed

lemma can_finish:
  assumes ok: "hw_ok hs" and fr: "\<And>k j. fr k j \<noteq> 0"
  shows "boot_reach fr hs s \<Longrightarrow>
    \<exists>s'. boot_reach fr hs s' \<and> (\<forall>k < length hs. place (nodes s' ! k) = Up \<and> bootclk (nodes s' ! k) \<noteq> 0)"
proof (induction "boot_measure s" arbitrary: s rule: less_induct)
  case less
  note inv = boot_reach_inv [OF ok less.prems]
  show ?case
  proof (cases "\<forall>k < length hs. place (nodes s ! k) = Up \<and> bootclk (nodes s ! k) \<noteq> 0")
    case False
    then obtain s' where s': "boot_step fr s s'" using unfinished_step [where fr = fr, OF ok inv fr] by blast
    then have "boot_reach fr hs s'" using less.prems by (simp add: boot_reach_def)
    then show ?thesis using less.hyps boot_step_measure [OF ok inv s'] by blast
  qed (use less.prems in blast)
qed

text \<open>
  C22.  Whatever order messages arrive in, no message of the start-up makes its receiver panic: each one
  on the wire is handled, by the handler for its type and without a failed assertion.
\<close>

theorem start_up_no_panic:
  assumes "hw_ok hs" "boot_reach fr hs s" "(j, k, src, g) \<in> set (wire s)" "t \<noteq> 0"
  shows "\<exists>r. boot_recv (k = 0) (nodes s ! k) src g t = Inr r"
proof -
  obtain ord st where "going hs s ord st"
    using boot_reach_cases [OF assms(1,2)] assms(3) by (auto simp: power_on_def)
  then show ?thesis using deliver_any [OF assms(1) _ assms(3,4)] by blast
qed

theorem start_up_no_panic_witness:
  "\<exists>s g. boot_reach (\<lambda>_ _. 0x10000000) two_machines s \<and> (0, 1, [2, 0, 0, 0, 0, 1], g) \<in> set (wire s) \<and>
     (\<exists>r. boot_recv False (nodes s ! 1) [2, 0, 0, 0, 0, 1] g 1 = Inr r)"
proof -
  obtain s where s: "boot_step (\<lambda>_ _. 0x10000000) (power_on two_machines) s" "going two_machines s [0] (\<lambda>_. SReq)"
    using start_step [OF two_machines_ok] by blast
  then have r: "boot_reach (\<lambda>_ _. 0x10000000) two_machines s" by (simp add: boot_reach_def r_into_rtranclp)
  have "sub_at two_machines [0] (btable (nodes s ! 0)) (nodes s ! 1) 1 (flight 1 (wire s)) SReq"
    by (rule going_sub [OF s(2)]) (simp_all add: two_machines_def)
  then obtain g where "flight 1 (wire s) = [(0, 1, [2, 0, 0, 0, 0, 1], g)]" by (auto simp: from0_def two_machines_def)
  then have "(0, 1, [2, 0, 0, 0, 0, 1], g) \<in> set (flight 1 (wire s))" by simp
  then have g: "(0, 1, [2, 0, 0, 0, 0, 1], g) \<in> set (wire s)" unfolding flight_def by (rule subsetD [OF filter_is_subset])
  show ?thesis using start_up_no_panic [OF two_machines_ok r g, of 1] r g by auto
qed





end
