(* ===== verification/Boot_Map.thy ===== *)
theory Boot_Map
  imports Page_Table Device_Tree Malloc
begin

text \<open>
  The hypervisor's own address space: the boot-time part of \<^verbatim>\<open>core/mm.c\<close>, which maps the image, the
  early memory, the console, the device tree and finally all of memory at its linear address, and
  \<^verbatim>\<open>core/iomem.c\<close> with \<^verbatim>\<open>iomap\<close>, which maps device registers.  The loops over the pages of a range
  are one function, \<open>page_loop\<close>, whose argument chooses the flags of a page or leaves it out.  The
  lemmas show that after \<^verbatim>\<open>map_memory\<close> every address of every memory slot translates to itself, and
  that the areas \<^verbatim>\<open>iomalloc\<close> hands out do not overlap.
\<close>

section \<open>Layout\<close>

definition FDT_SECTION_BASE :: u64 where "FDT_SECTION_BASE = 0x200000"
definition IOMEM_SECTION_BASE :: u64 where "IOMEM_SECTION_BASE = 0x600000"
definition IOMEM_SECTION_SIZE :: u64 where "IOMEM_SECTION_SIZE = VMM_SECTION_BASE - IOMEM_SECTION_BASE"
definition BLOCKSIZE_L2 :: u64 where "BLOCKSIZE_L2 = 0x200000"
definition EARLY_PL011_BASE :: u64 where "EARLY_PL011_BASE = 0x09000000"

text \<open>What the linker and the boot code fix: the sections of the image, its offset, the root table.\<close>

record image =
  text_start :: u64
  text_end :: u64
  rodata_start :: u64
  rodata_end :: u64
  vmm_start :: u64
  vmm_end :: u64
  pvoffset :: u64
  vmm_pagetable :: u64

definition is_vmm_text :: "image \<Rightarrow> u64 \<Rightarrow> bool" where
  "is_vmm_text im a \<longleftrightarrow> text_start im \<le> a \<and> a < text_end im"

definition is_vmm_rodata :: "image \<Rightarrow> u64 \<Rightarrow> bool" where
  "is_vmm_rodata im a \<longleftrightarrow> rodata_start im \<le> a \<and> a < rodata_end im"

record boot_mm =
  bzone :: mstate
  breserved :: "memblock list"
  bsystem :: system_memory
  early_phys_start :: u64
  early_phys_end :: u64
  early_memsize :: u64

definition root_level :: nat where "root_level = 1"

section \<open>Mapping page by page\<close>

definition pagemap :: "image \<Rightarrow> mstate \<Rightarrow> u64 \<Rightarrow> u64 \<Rightarrow> u64 \<Rightarrow> mstate res" where
  "pagemap im s va pa memflags =
     mappages (pvoffset im) s (vmm_pagetable im) va pa (of_nat PAGESIZE) memflags root_level"

fun page_loop :: "image \<Rightarrow> (u64 \<Rightarrow> u64 \<Rightarrow> u64 option) \<Rightarrow> nat \<Rightarrow> mstate \<Rightarrow> u64 \<Rightarrow> u64 \<Rightarrow> mstate res" where
  "page_loop im fl 0 s v p = Inr s"
| "page_loop im fl (Suc n) s v p =
     bind_res (case fl v p of None \<Rightarrow> Inr s | Some memflags \<Rightarrow> pagemap im s v p memflags) (\<lambda>s1.
       page_loop im fl n s1 (v + of_nat PAGESIZE) (p + of_nat PAGESIZE))"

text \<open>The number of iterations of \<^verbatim>\<open>for(i = 0; i < size; i += PAGESIZE)\<close>.\<close>

definition pages_of :: "u64 \<Rightarrow> nat" where
  "pages_of sz = (unat sz + PAGESIZE - 1) div PAGESIZE"

definition image_flags :: "image \<Rightarrow> u64 \<Rightarrow> u64" where
  "image_flags im v =
     (let f1 = (if \<not> is_vmm_text im v then PTE_NORMAL OR PTE_XN else PTE_NORMAL)
      in if is_vmm_text im v \<or> is_vmm_rodata im v then f1 OR PTE_RO else f1)"

text \<open>\<open>start_phys\<close> is what the address translation instruction of \<^verbatim>\<open>at_hva2pa\<close> answers for the image.\<close>

definition remap_image :: "image \<Rightarrow> u64 \<Rightarrow> boot_mm \<Rightarrow> boot_mm res" where
  "remap_image im start_phys k =
     (let sz = vmm_end im - vmm_start im; n = pages_of sz in
      bind_res (page_loop im (\<lambda>v p. Some (image_flags im v)) n (bzone k) VMM_SECTION_BASE start_phys) (\<lambda>s.
      bind_res (system_memory_reserve (breserved k) start_phys (start_phys + of_nat (n * PAGESIZE)) ''vmm image'') (\<lambda>r.
        Inr (k\<lparr>bzone := s, breserved := r\<rparr>))))"

definition remap_earlymem :: "image \<Rightarrow> boot_mm \<Rightarrow> boot_mm res" where
  "remap_earlymem im k =
     bind_res (page_loop im (\<lambda>v p. Some PTE_NORMAL) (pages_of (early_memsize k)) (bzone k)
         (early_phys_start k + VIRT_BASE) (early_phys_start k)) (\<lambda>s.
     bind_res (system_memory_reserve (breserved k) (early_phys_start k) (early_phys_end k) ''earlymem'') (\<lambda>r.
       Inr (k\<lparr>bzone := s, breserved := r\<rparr>)))"

definition remap_earlycon :: "image \<Rightarrow> boot_mm \<Rightarrow> boot_mm res" where
  "remap_earlycon im k =
     bind_res (pagemap im (bzone k) EARLY_PL011_BASE EARLY_PL011_BASE (PTE_DEVICE_nGnRE OR PTE_XN)) (\<lambda>s.
       Inr (k\<lparr>bzone := s\<rparr>))"

text \<open>\<open>blob\<close> are the bytes at \<open>fdt_phys\<close>; the result 0 is NULL.\<close>

definition remap_fdt :: "image \<Rightarrow> u8 list \<Rightarrow> u64 \<Rightarrow> boot_mm \<Rightarrow> (u64 \<times> boot_mm) res" where
  "remap_fdt im blob fdt_phys k =
     (let offset = fdt_phys AND (BLOCKSIZE_L2 - 1); fdt_base = fdt_phys AND NOT (BLOCKSIZE_L2 - 1) in
      bind_res (memmap_huge (pvoffset im) (bzone k) (vmm_pagetable im) root_level FDT_SECTION_BASE fdt_base
          (PTE_NORMAL OR PTE_RO OR PTE_XN) 0x200000) (\<lambda>(done, s).
        let k1 = k\<lparr>bzone := s\<rparr> in
        if \<not> done then Inr (0, k1)
        else bind_res (fdt_word blob) (\<lambda>magic.
          if magic \<noteq> FDT_MAGIC then Inr (0, k1)
          else bind_res (fdt_word (drop 20 blob)) (\<lambda>version.
            if version \<noteq> 17 then Inr (0, k1) else Inr (FDT_SECTION_BASE + offset, k1)))))"

text \<open>The flags of a page of the linear map; the early memory is mapped already.\<close>

definition memory_flags :: "image \<Rightarrow> boot_mm \<Rightarrow> u64 \<Rightarrow> u64 \<Rightarrow> u64 option" where
  "memory_flags im k v p =
     (if early_phys_start k \<le> p \<and> p < early_phys_end k then None
      else Some (image_flags im (phys2kern (pvoffset im) p)))"

fun map_slots :: "image \<Rightarrow> boot_mm \<Rightarrow> memblock list \<Rightarrow> mstate \<Rightarrow> mstate res" where
  "map_slots im k [] s = Inr s"
| "map_slots im k (m # ms) s =
     bind_res (page_loop im (memory_flags im k) (pages_of (bsize m)) s (VIRT_BASE + phys_start m) (phys_start m)) (\<lambda>s1.
       map_slots im k ms s1)"

definition map_memory :: "image \<Rightarrow> boot_mm \<Rightarrow> boot_mm res" where
  "map_memory im k =
     bind_res (map_slots im k (slots (bsystem k)) (bzone k)) (\<lambda>s. Inr (k\<lparr>bzone := s\<rparr>))"

definition clear_page :: "u64 \<Rightarrow> boot_mm \<Rightarrow> boot_mm" where
  "clear_page p k = k\<lparr>bzone := (bzone k)\<lparr>mem := memset p 0 PAGESIZE (mem (bzone k))\<rparr>\<rparr>"

text \<open>
  \<open>statics\<close> are the three other static tables, \<open>left\<close> is what the parser of the device tree can allocate.
\<close>

definition setup_pagetable ::
    "image \<Rightarrow> u64 list \<Rightarrow> u64 \<Rightarrow> u8 list \<Rightarrow> nat \<Rightarrow> u64 \<Rightarrow> boot_mm \<Rightarrow> (u64 \<times> dt \<times> boot_mm) res" where
  "setup_pagetable im statics start_phys blob left fdt_phys k =
     assert_res (PAGE_ALIGNED (vmm_pagetable im)) ''vmm_pagetable''
      (let k0 = fold clear_page (vmm_pagetable im # statics) k in
       bind_res (remap_image im start_phys k0) (\<lambda>k1.
       bind_res (remap_earlymem im k1) (\<lambda>k2.
       bind_res (remap_earlycon im k2) (\<lambda>k3.
       bind_res (remap_fdt im blob fdt_phys k3) (\<lambda>(fdt, k4).
         if fdt = 0 then Inl (Undefined ''fdt_magic(NULL)'')
         else bind_res (device_tree_init blob left (bsystem k4)) (\<lambda>(_, d, sm).
           bind_res (map_memory im (k4\<lparr>bsystem := sm\<rparr>)) (\<lambda>k5. Inr (fdt, d, k5))))))))"

text \<open>
  \<^verbatim>\<open>early_map_earlymem\<close> runs on the tables of the boot code: \<open>l1\<close> is the first-level table and
  \<open>l2\<close> the second-level table for the early memory.
\<close>

fun block_loop :: "nat \<Rightarrow> mstate \<Rightarrow> u64 \<Rightarrow> u64 \<Rightarrow> u64 \<Rightarrow> mstate" where
  "block_loop 0 s pmd v p = s"
| "block_loop (Suc n) s pmd v p =
     block_loop n (pte_set_block s (pmd + 8 * PIDX 2 v) p PTE_NORMAL) pmd (v + SZ_2MiB) (p + SZ_2MiB)"

definition early_map_earlymem :: "image \<Rightarrow> u64 \<Rightarrow> u64 \<Rightarrow> u64 \<Rightarrow> u64 \<Rightarrow> boot_mm \<Rightarrow> boot_mm res" where
  "early_map_earlymem im l1 l2 pstart pend k =
     (let sz = pend - pstart; vstart = pstart + VIRT_BASE in
      assert_res (pstart mod SZ_2MiB = 0) ''pstart'' (assert_res (pend mod SZ_2MiB = 0) ''pend''
       (assert_res (sz mod SZ_2MiB = 0) ''size''
        (let k1 = k\<lparr>early_phys_start := pstart, early_phys_end := pend, early_memsize := sz\<rparr>;
             epud = l1 + 8 * PIDX 1 vstart;
             (pmd, s) = (if mem (bzone k1) epud \<noteq> 0
                         then (phys2kern (pvoffset im) (PTE_PA (mem (bzone k1) epud)), bzone k1)
                         else (l2, pte_set_table (bzone k1) epud (virt2phys (pvoffset im) l2)))
         in Inr (k1\<lparr>bzone := block_loop ((unat sz + 0x1fffff) div 0x200000) s pmd vstart pstart\<rparr>)))))"

section \<open>Device registers\<close>

record ioarea =
  io_start :: u64
  io_npages :: int
  io_static :: bool

record io_state =
  ioheap :: heap_state
  arealist :: "ioarea list"
  usedlist :: "ioarea list"

definition SIZEOF_IOAREA :: nat where "SIZEOF_IOAREA = 24"

definition IOMEM_NPAGES :: int where "IOMEM_NPAGES = int (unat IOMEM_SECTION_SIZE div PAGESIZE)"

definition iomem_init :: "heap_state \<Rightarrow> io_state" where
  "iomem_init hs = \<lparr>ioheap = hs,
     arealist = [\<lparr>io_start = IOMEM_SECTION_BASE, io_npages = IOMEM_NPAGES, io_static = True\<rparr>], usedlist = []\<rparr>"

text \<open>
  The first area that is large enough.  One that fits exactly leaves the list, together with those in
  front of it; it is passed to \<^verbatim>\<open>free\<close>, which is not defined for the first area, a static object.  The
  pages are counted in \<^verbatim>\<open>int\<close>.
\<close>

definition iomalloc :: "io_state \<Rightarrow> u64 \<Rightarrow> u64 \<Rightarrow> (u64 \<times> io_state) res" where
  "iomalloc st phys_addr sz =
     (let offset = PAGE_OFFSET phys_addr;
          npages = sint (ucast (drop_bit 12 (PAGE_ALIGN (offset + sz))) :: 32 word)
      in case dropWhile (\<lambda>a. \<not> npages \<le> io_npages a) (arealist st) of
        [] \<Rightarrow> Inl (Panic ''nai'')
      | area # rest \<Rightarrow>
          bind_res (malloc (ioheap st) SIZEOF_IOAREA) (\<lambda>(p, hs).
            if p = 0 then Inl (Undefined ''new->start'')
            else
              let new = \<lparr>io_start = io_start area, io_npages = npages, io_static = False\<rparr>;
                  st1 = st\<lparr>ioheap := hs, usedlist := new # usedlist st\<rparr>
              in if io_npages area = npages
                 then if io_static area then Inl (Undefined ''free(&first_ioarea)'')
                      else Inr (io_start new + offset, st1\<lparr>arealist := rest\<rparr>)
                 else Inr (io_start new + offset,
                   st1\<lparr>arealist := takeWhile (\<lambda>a. \<not> npages \<le> io_npages a) (arealist st) @
                     area\<lparr>io_start := io_start area + of_int (npages * 4096), io_npages := io_npages area - npages\<rparr> # rest\<rparr>)))"

fun iomap_loop :: "image \<Rightarrow> nat \<Rightarrow> mstate \<Rightarrow> u64 \<Rightarrow> u64 \<Rightarrow> mstate res" where
  "iomap_loop im 0 s va pa = Inr s"
| "iomap_loop im (Suc n) s va pa =
     bind_res (pagewalk (pvoffset im) s (vmm_pagetable im) va root_level True) (\<lambda>(pte, s1).
       if mem s1 pte AND PTE_AF \<noteq> 0 then Inl (Panic ''bad iomap'')
       else iomap_loop im n (write_cell s1 pte (PTE_PA pa OR PTE_AF OR PTE_V OR (PTE_DEVICE_nGnRE OR PTE_XN)))
              (va + of_nat PAGESIZE) (pa + of_nat PAGESIZE))"

definition iomap :: "image \<Rightarrow> io_state \<Rightarrow> u64 \<Rightarrow> u64 \<Rightarrow> (u64 \<times> io_state) res" where
  "iomap im st pa len =
     (let sz = PAGE_ALIGN len in
      bind_res (iomalloc st pa sz) (\<lambda>(va, st1).
      bind_res (iomap_loop im (unat sz div PAGESIZE) (zone (ioheap st1)) va pa) (\<lambda>s.
        Inr (va, st1\<lparr>ioheap := (ioheap st1)\<lparr>zone := s\<rparr>\<rparr>))))"

section \<open>The linear map\<close>

abbreviation "VS \<equiv> va_space 2"

lemma VS_eq: "VS = 2 ^ 39"
  by (simp add: va_space_def)

definition page_entry :: "u64 \<Rightarrow> u64 \<Rightarrow> u64" where
  "page_entry pa flags = PTE_PA pa OR (flags OR PTE_V OR PTE_AF)"

lemma page_step: "PAGE_ALIGNED v \<Longrightarrow> unat v + 4096 < 2 ^ 64 \<Longrightarrow> unat (v + of_nat PAGESIZE) = unat v + 4096 \<and> PAGE_ALIGNED (v + of_nat PAGESIZE)"
  using unat_add_of_nat [of v 4096] by (simp add: page_aligned_unat PAGESIZE_def)

text \<open>
  The effect of mapping: \<open>f\<close> gives the entries of the addresses that are mapped.  \<open>room_for\<close> says that
  they are free, by page and by block, and that there is memory for the tables that are missing for
  them; \<open>maps_to\<close> that the table has changed by just these entries and these tables.
\<close>

definition room_for :: "u64 \<Rightarrow> (u64 \<Rightarrow> u64 option) \<Rightarrow> mstate \<Rightarrow> nat set \<Rightarrow> bool" where
  "room_for pgt f s A \<longleftrightarrow> dom f \<subseteq> {x. unat x < VS} \<and> 4096 * card (pt_tables (mem s) 2 pgt (dom f)) \<le> card A \<and>
     (\<forall>x \<in> dom f. pt_lookup (mem s) 2 pgt x AND PTE_AF = 0) \<and> no_block (mem s) 2 pgt (dom f)"

definition maps_to :: "u64 \<Rightarrow> (u64 \<Rightarrow> u64 option) \<Rightarrow> mstate \<Rightarrow> nat set \<Rightarrow> mstate \<Rightarrow> nat set \<Rightarrow> nat set \<Rightarrow> bool" where
  "maps_to pgt f s A s' A' M' \<longleftrightarrow> pt_state s' A' 2 pgt M' \<and>
     card A \<le> card A' + 4096 * card (pt_tables (mem s) 2 pgt (dom f)) \<and>
     (\<forall>x. pt_missing (mem s') 2 pgt x = pt_missing (mem s) 2 pgt x - pt_tables (mem s) 2 pgt (dom f)) \<and>
     (\<forall>x. unat x < VS \<longrightarrow> pt_lookup (mem s') 2 pgt x = (case f x of None \<Rightarrow> pt_lookup (mem s) 2 pgt x | Some e \<Rightarrow> e) \<and>
        pt_trans (mem s') 2 pgt x = (case f x of None \<Rightarrow> pt_trans (mem s) 2 pgt x | Some e \<Rightarrow> Some (0, e)))"

lemma tables_un: "pt_tables h d p (V \<union> W) = pt_tables h d p V \<union> pt_tables h d p W"
  by (simp add: pt_tables_def)

text \<open>
  At most one table for each GiB and one for each 2 MiB that the addresses touch: 514 pages for a
  slot of one GiB, of the 2048 pages of early memory.
\<close>

lemma missing_paths: "pt_missing h d p v \<subseteq> pt_paths d v"
  by (induction d arbitrary: p) (auto simp: Let_def)

lemma tables_bound:
  assumes "finite V"
  shows "card (pt_tables h 2 p V) \<le> card (drop_bit 30 ` V) + card (drop_bit 21 ` V)"
proof -
  let ?f = "\<lambda>r :: u64. [r AND 0x1ff]" and ?g = "\<lambda>r :: u64. [drop_bit 9 r AND 0x1ff, r AND 0x1ff]"
  have "pt_paths 2 v = {?f (drop_bit 30 v), ?g (drop_bit 21 v)}" for v
    by (simp add: numeral_2_eq_2 PIDX_def drop_bit_drop_bit)
  then have "pt_tables h 2 p V \<subseteq> ?f ` drop_bit 30 ` V \<union> ?g ` drop_bit 21 ` V"
    using missing_paths [of h 2 p] unfolding pt_tables_def by (intro UN_least) (blast intro: order_trans)
  then have "card (pt_tables h 2 p V) \<le> card (?f ` drop_bit 30 ` V \<union> ?g ` drop_bit 21 ` V)"
    by (intro card_mono) (simp_all add: assms)
  also have "\<dots> \<le> card (?f ` drop_bit 30 ` V) + card (?g ` drop_bit 21 ` V)" by (rule card_Un_le)
  also have "\<dots> \<le> card (drop_bit 30 ` V) + card (drop_bit 21 ` V)"
    by (intro add_mono card_image_le) (simp_all add: assms)
  finally show ?thesis .
qed

lemma maps_to_none: "pt_state s A 2 pgt M \<Longrightarrow> maps_to pgt (\<lambda>_. None) s A s A M"
  by (simp add: maps_to_def pt_tables_def)

lemma maps_to_tables:
  assumes "maps_to pgt f s A s1 A1 M1"
  shows "pt_tables (mem s1) 2 pgt W = pt_tables (mem s) 2 pgt W - pt_tables (mem s) 2 pgt (dom f)"
proof -
  define T where "T = pt_tables (mem s) 2 pgt (dom f)"
  have "pt_missing (mem s1) 2 pgt x = pt_missing (mem s) 2 pgt x - T" for x using assms by (simp add: maps_to_def T_def)
  then have "pt_tables (mem s1) 2 pgt W = pt_tables (mem s) 2 pgt W - T" unfolding pt_tables_def by simp
  then show ?thesis by (simp add: T_def)
qed

lemma maps_to_card:
  assumes "maps_to pgt f s A s1 A1 M1"
  shows "card (pt_tables (mem s) 2 pgt (dom f \<union> W)) = card (pt_tables (mem s) 2 pgt (dom f)) + card (pt_tables (mem s1) 2 pgt W)"
proof -
  have "pt_tables (mem s) 2 pgt (dom f \<union> W) = pt_tables (mem s) 2 pgt (dom f) \<union> pt_tables (mem s1) 2 pgt W"
    unfolding maps_to_tables [OF assms, of W] tables_un by blast
  then show ?thesis
    unfolding maps_to_tables [OF assms, of W] by (simp only: card_Un_disjoint finite_tables finite_Diff Diff_disjoint)
qed

lemma maps_to_step:
  assumes f: "maps_to pgt f s A s1 A1 M1" and d: "dom f \<inter> dom g = {}" and r: "room_for pgt (f ++ g) s A"
  shows "room_for pgt g s1 A1" and "maps_to pgt g s1 A1 s2 A2 M2 \<Longrightarrow> maps_to pgt (f ++ g) s A s2 A2 M2"
proof -
  have dg: "dom (f ++ g) = dom f \<union> dom g" by (simp add: Un_commute)
  note c = maps_to_card [OF f, of "dom g"]
  have out: "f x = None" "unat x < VS" "(f ++ g) x \<noteq> None" if "x \<in> dom g" for x
    using that d r dg by (auto simp: room_for_def)
  show "room_for pgt g s1 A1"
    unfolding room_for_def
  proof (intro conjI)
    show "dom g \<subseteq> {x. unat x < VS}" using out(2) by blast
    show "4096 * card (pt_tables (mem s1) 2 pgt (dom g)) \<le> card A1"
      using r f c unfolding room_for_def maps_to_def dg by linarith
    show "\<forall>x \<in> dom g. pt_lookup (mem s1) 2 pgt x AND PTE_AF = 0"
      using r f out dg by (fastforce simp: room_for_def maps_to_def)
    show "no_block (mem s1) 2 pgt (dom g)"
      using r f out dg by (fastforce simp: room_for_def maps_to_def no_block_def)
  qed
  show "maps_to pgt (f ++ g) s A s2 A2 M2" if g: "maps_to pgt g s1 A1 s2 A2 M2"
    unfolding maps_to_def
  proof (intro conjI allI impI)
    show "pt_state s2 A2 2 pgt M2" using g by (simp add: maps_to_def)
    show "card A \<le> card A2 + 4096 * card (pt_tables (mem s) 2 pgt (dom (f ++ g)))"
      using f g c unfolding maps_to_def dg by linarith
    show "pt_missing (mem s2) 2 pgt x = pt_missing (mem s) 2 pgt x - pt_tables (mem s) 2 pgt (dom (f ++ g))" for x
      using f g maps_to_tables [OF f, of "dom g"] unfolding maps_to_def dg tables_un by auto
    show "pt_lookup (mem s2) 2 pgt x = (case (f ++ g) x of None \<Rightarrow> pt_lookup (mem s) 2 pgt x | Some e \<Rightarrow> e)"
      "pt_trans (mem s2) 2 pgt x = (case (f ++ g) x of None \<Rightarrow> pt_trans (mem s) 2 pgt x | Some e \<Rightarrow> Some (0, e))"
      if "unat x < VS" for x
      using f g that unfolding maps_to_def by (auto simp: map_add_def split: option.splits)
  qed
qed

lemma room_for_part:
  assumes r: "room_for pgt (f ++ g) s A"
  shows "room_for pgt f s A"
proof -
  have sub: "dom f \<subseteq> dom (f ++ g)" by auto
  then have "pt_tables (mem s) 2 pgt (dom f) \<subseteq> pt_tables (mem s) 2 pgt (dom (f ++ g))" unfolding pt_tables_def by (intro UN_mono) simp_all
  then have "card (pt_tables (mem s) 2 pgt (dom f)) \<le> card (pt_tables (mem s) 2 pgt (dom (f ++ g)))" by (intro card_mono) simp_all
  then have "4096 * card (pt_tables (mem s) 2 pgt (dom f)) \<le> card A" using r unfolding room_for_def by linarith
  moreover have "dom f \<subseteq> {x. unat x < VS}" "\<forall>x \<in> dom f. pt_lookup (mem s) 2 pgt x AND PTE_AF = 0"
    using r sub unfolding room_for_def by (meson subset_iff)+
  moreover have "no_block (mem s) 2 pgt (dom f)" using r sub unfolding room_for_def no_block_def by (meson subset_iff)
  ultimately show ?thesis unfolding room_for_def by blast
qed

definition one_page_map :: "u64 \<Rightarrow> u64 option \<Rightarrow> u64 \<Rightarrow> u64 option" where
  "one_page_map v e = (\<lambda>x. if page_no x = page_no v then e else None)"

lemma pagemap_spec:
  assumes s: "pt_state s A 2 (vmm_pagetable im) M" and al: "PAGE_ALIGNED v" "PAGE_ALIGNED p" and l: "unat v + 4096 \<le> VS"
    and r: "room_for (vmm_pagetable im) (one_page_map v (Some (page_entry p flags))) s A"
  shows "\<exists>s' A' M'. pagemap im s v p flags = Inr s' \<and>
     maps_to (vmm_pagetable im) (one_page_map v (Some (page_entry p flags))) s A s' A' M'"
proof -
  let ?pgt = "vmm_pagetable im" and ?f = "one_page_map v (Some (page_entry p flags))"
  have vs: "unat v < VS" "unat v + 4096 \<le> 2 ^ 64" using l by (simp_all add: VS_eq)
  have "x \<in> dom ?f \<longleftrightarrow> page_no x = page_no v" for x by (simp add: one_page_map_def dom_def)
  then have df: "dom ?f = va_range v 4096"
    unfolding set_eq_iff va_range_def mem_Collect_eq using page_no_range [OF al(1) vs(2)] by blast
  have tb: "pt_tables (mem s) 2 ?pgt (dom ?f) = pt_missing (mem s) 2 ?pgt v" unfolding df by (rule tables_page(1) [OF al(1) vs(2)]) simp
  have c: "4096 * card (pt_missing (mem s) 2 ?pgt v) \<le> card A" using r tb by (simp add: room_for_def)
  have v: "v \<in> dom ?f" by (simp add: one_page_map_def dom_def)
  then have af: "pt_lookup (mem s) 2 ?pgt v AND PTE_AF = 0" and nb: "no_block (mem s) 2 ?pgt (dom ?f)"
    using r unfolding room_for_def by blast+
  obtain q s1 A' M' where w: "pagewalk_levels (pvoffset im) True v 2 s ?pgt = Inr (q, s1)" "mem s1 q = pt_lookup (mem s) 2 ?pgt v"
      "A' \<subseteq> A" "card A \<le> card A' + 4096 * card (pt_missing (mem s) 2 ?pgt v)"
    and st: "let s2 = pte_set_entry s1 q p flags in pt_state s2 A' 2 ?pgt M' \<and> M' \<subseteq> M \<union> A \<and>
        (\<forall>x. unat x < VS \<longrightarrow> pt_lookup (mem s2) 2 ?pgt x =
           (if page_no x = page_no v then PTE_PA p OR (flags OR PTE_V OR PTE_AF) else pt_lookup (mem s) 2 ?pgt x)) \<and>
        (\<forall>x. pt_missing (mem s2) 2 ?pgt x = pt_missing (mem s) 2 ?pgt x - pt_missing (mem s) 2 ?pgt v) \<and>
        (\<forall>x. unat x < VS \<longrightarrow> pt_trans (mem s2) 2 ?pgt x =
           (if page_no x = page_no v then Some (0, PTE_PA p OR (flags OR PTE_V OR PTE_AF))
            else if pt_missing (mem s) 2 ?pgt x \<inter> pt_missing (mem s) 2 ?pgt v = {} then pt_trans (mem s) 2 ?pgt x
            else None)) \<and>
        (\<forall>a. unat a \<notin> M \<union> A \<longrightarrow> mem s2 a = mem s a)"
    using map_one [OF s c vs(1), of "pvoffset im"] by blast
  note st' = st [unfolded Let_def]
  have "pt_trans (mem s) 2 ?pgt x = None" if "pt_missing (mem s) 2 ?pgt x \<inter> pt_missing (mem s) 2 ?pgt v \<noteq> {}" for x
    using shared_none [OF nb v that] .
  then have "pt_trans (mem (pte_set_entry s1 q p flags)) 2 ?pgt x =
      (case ?f x of None \<Rightarrow> pt_trans (mem s) 2 ?pgt x | Some e \<Rightarrow> Some (0, e))" if "unat x < VS" for x
    using st' that unfolding one_page_map_def page_entry_def by simp
  moreover have "pt_lookup (mem (pte_set_entry s1 q p flags)) 2 ?pgt x =
      (case ?f x of None \<Rightarrow> pt_lookup (mem s) 2 ?pgt x | Some e \<Rightarrow> e)" if "unat x < VS" for x
    using st' that unfolding one_page_map_def page_entry_def by simp
  ultimately have "maps_to ?pgt ?f s A (pte_set_entry s1 q p flags) A' M'"
    using st' w(4) unfolding maps_to_def tb by simp
  moreover have "pagemap im s v p flags = Inr (pte_set_entry s1 q p flags)"
    using al w(1,2) af by (simp add: pagemap_def mappages_def root_level_def PAGESIZE_def pagewalk_def page_aligned_unat)
  ultimately show ?thesis by blast
qed

text \<open>The entries a loop over \<open>n\<close> pages makes, from \<open>v\<close> to \<open>p\<close> with the flags \<open>fl\<close>.\<close>

definition loop_map :: "(u64 \<Rightarrow> u64 \<Rightarrow> u64 option) \<Rightarrow> nat \<Rightarrow> u64 \<Rightarrow> u64 \<Rightarrow> u64 \<Rightarrow> u64 option" where
  "loop_map fl n v p = (\<lambda>x. if unat v \<le> unat x \<and> unat x < unat v + 4096 * n
     then map_option (page_entry (p + (PAGE_ADDRESS x - v))) (fl (PAGE_ADDRESS x) (p + (PAGE_ADDRESS x - v))) else None)"

lemma loop_map_Suc:
  assumes "PAGE_ALIGNED v" and "unat v + 4096 < 2 ^ 64"
  shows "loop_map fl (Suc n) v p =
      one_page_map v (map_option (page_entry p) (fl v p)) ++ loop_map fl n (v + of_nat PAGESIZE) (p + of_nat PAGESIZE)"
    and "dom (one_page_map v e) \<inter> dom (loop_map fl n (v + of_nat PAGESIZE) q) = {}"
proof -
  have lim: "unat v + 4096 \<le> 2 ^ 64" using assms(2) by simp
  note u = conjunct1 [OF page_step [OF assms]]
  have pv: "PAGE_ADDRESS x = v" if "page_no x = page_no v" for x
    using that assms(1) page_address_aligned [of v] by (simp add: page_address_page_no)
  show "dom (one_page_map v e) \<inter> dom (loop_map fl n (v + of_nat PAGESIZE) q) = {}"
    unfolding one_page_map_def loop_map_def u using page_no_range [OF assms(1) lim] by (auto split: if_splits)
  have "p + of_nat PAGESIZE + (a - (v + of_nat PAGESIZE)) = p + (a - v)" for a by simp
  then show "loop_map fl (Suc n) v p =
      one_page_map v (map_option (page_entry p) (fl v p)) ++ loop_map fl n (v + of_nat PAGESIZE) (p + of_nat PAGESIZE)"
    unfolding one_page_map_def loop_map_def u map_add_def using page_no_range [OF assms(1) lim] pv
    by (intro ext) (auto split: option.splits)
qed

lemma page_loop_spec:
  "pt_state s A 2 (vmm_pagetable im) M \<Longrightarrow> PAGE_ALIGNED v \<Longrightarrow> PAGE_ALIGNED p \<Longrightarrow> unat v + 4096 * n \<le> VS \<Longrightarrow>
   unat p + 4096 * n < 2 ^ 64 \<Longrightarrow> room_for (vmm_pagetable im) (loop_map fl n v p) s A \<Longrightarrow>
   \<exists>s' A' M'. page_loop im fl n s v p = Inr s' \<and> maps_to (vmm_pagetable im) (loop_map fl n v p) s A s' A' M'"
proof (induction n arbitrary: s A M v p)
  case 0
  have "loop_map fl 0 v p = (\<lambda>_. None)" by (rule ext) (auto simp: loop_map_def)
  then show ?case using maps_to_none [OF 0(1)] by (intro exI [of _ s] exI [of _ A] exI [of _ M]) simp
next
  case (Suc n)
  let ?v = "v + of_nat PAGESIZE" and ?p = "p + of_nat PAGESIZE" and ?pgt = "vmm_pagetable im"
  let ?f = "one_page_map v (map_option (page_entry p) (fl v p))" and ?g = "loop_map fl n (v + of_nat PAGESIZE) (p + of_nat PAGESIZE)"
  have lim: "unat v + 4096 < 2 ^ 64" "unat p + 4096 < 2 ^ 64" "unat v + 4096 \<le> VS" using Suc.prems(4,5) by (simp_all add: VS_eq)
  note v = page_step [OF Suc.prems(2) lim(1)] and p = page_step [OF Suc.prems(3) lim(2)]
  note e = loop_map_Suc(1) [OF Suc.prems(2) lim(1), of fl n p] and dis = loop_map_Suc(2) [OF Suc.prems(2) lim(1)]
  have room: "room_for ?pgt (?f ++ ?g) s A" using Suc.prems(6) unfolding e .
  have "\<exists>s1 A1 M1. (case fl v p of None \<Rightarrow> Inr s | Some f \<Rightarrow> pagemap im s v p f) = Inr s1 \<and> maps_to ?pgt ?f s A s1 A1 M1"
  proof (cases "fl v p")
    case None
    have "?f = (\<lambda>_. None)" using None by (auto simp: one_page_map_def)
    then show ?thesis using None maps_to_none [OF Suc.prems(1)] by (intro exI [of _ s] exI [of _ A] exI [of _ M]) simp
  next
    case (Some f)
    have "room_for ?pgt ?f s A" by (rule room_for_part [OF room])
    then show ?thesis
      using pagemap_spec [OF Suc.prems(1-3) lim(3), of f] Some by simp
  qed
  then obtain s1 A1 M1 where s1: "(case fl v p of None \<Rightarrow> Inr s | Some f \<Rightarrow> pagemap im s v p f) = Inr s1" "maps_to ?pgt ?f s A s1 A1 M1"
    by blast
  note step = maps_to_step [OF s1(2) dis room]
  have st: "pt_state s1 A1 2 ?pgt M1" using s1(2) by (simp add: maps_to_def)
  have lim2: "unat ?v + 4096 * n \<le> VS" "unat ?p + 4096 * n < 2 ^ 64" using Suc.prems(4,5) v p by auto
  obtain s' A' M' where r: "page_loop im fl n s1 ?v ?p = Inr s'" "maps_to ?pgt ?g s1 A1 s' A' M'"
    using Suc.IH [OF st conjunct2 [OF v] conjunct2 [OF p] lim2 step(1)] by blast
  then show ?case using step(2) [OF r(2)] s1(1) unfolding e by auto
qed

text \<open>The linear addresses of the memory slots, and slots that can be mapped: aligned, in reach of the table, apart from each other.\<close>

definition slot_has :: "memblock \<Rightarrow> u64 \<Rightarrow> bool" where
  "slot_has m x \<longleftrightarrow> unat VIRT_BASE + unat (phys_start m) \<le> unat x \<and>
     unat x < unat VIRT_BASE + unat (phys_start m) + 4096 * pages_of (bsize m)"

definition slot_ok :: "memblock \<Rightarrow> bool" where
  "slot_ok m \<longleftrightarrow> PAGE_ALIGNED (phys_start m) \<and> unat VIRT_BASE + unat (phys_start m) + 4096 * pages_of (bsize m) \<le> VS"

definition slots_apart :: "memblock list \<Rightarrow> bool" where
  "slots_apart ms \<longleftrightarrow> sorted_wrt (\<lambda>m m'. \<forall>x. \<not> (slot_has m x \<and> slot_has m' x)) ms"

definition linear_entry :: "image \<Rightarrow> boot_mm \<Rightarrow> u64 \<Rightarrow> u64 option" where
  "linear_entry im k x =
     (let p = PAGE_ADDRESS x - VIRT_BASE
      in case memory_flags im k (PAGE_ADDRESS x) p of None \<Rightarrow> None | Some f \<Rightarrow> Some (page_entry p f))"

definition slot_map :: "image \<Rightarrow> boot_mm \<Rightarrow> memblock \<Rightarrow> u64 \<Rightarrow> u64 option" where
  "slot_map im k m = (\<lambda>x. if slot_has m x then linear_entry im k x else None)"

definition linear_map :: "image \<Rightarrow> boot_mm \<Rightarrow> memblock list \<Rightarrow> u64 \<Rightarrow> u64 option" where
  "linear_map im k ms = (\<lambda>x. if \<exists>m \<in> set ms. slot_has m x then linear_entry im k x else None)"

lemma slot_loop:
  assumes s: "pt_state s A 2 (vmm_pagetable im) M" and m: "slot_ok m" and r: "room_for (vmm_pagetable im) (slot_map im k m) s A"
  shows "\<exists>s' A' M'. page_loop im (memory_flags im k) (pages_of (bsize m)) s (VIRT_BASE + phys_start m) (phys_start m) = Inr s' \<and>
     maps_to (vmm_pagetable im) (slot_map im k m) s A s' A' M'"
proof -
  let ?n = "pages_of (bsize m)" and ?v = "VIRT_BASE + phys_start m"
  have l: "unat VIRT_BASE + unat (phys_start m) + 4096 * ?n \<le> VS" "PAGE_ALIGNED (phys_start m)" using m by (simp_all add: slot_ok_def)
  then have "unat VIRT_BASE + unat (phys_start m) < 2 ^ 64" by (simp add: VS_eq)
  then have u: "unat ?v = unat VIRT_BASE + unat (phys_start m)" by (rule unat_add_no_wrap)
  have al: "PAGE_ALIGNED ?v" using l(2) u by (simp add: page_aligned_unat VIRT_BASE_def)
  have lim: "unat ?v + 4096 * ?n \<le> VS" "unat (phys_start m) + 4096 * ?n < 2 ^ 64" using l(1) u by (simp_all add: VS_eq)
  have rel: "phys_start m + (a - ?v) = a - VIRT_BASE" for a by simp
  have e: "loop_map (memory_flags im k) ?n ?v (phys_start m) = slot_map im k m"
    unfolding loop_map_def slot_map_def u rel linear_entry_def Let_def
    by (rule ext) (auto simp: slot_has_def map_option_case split: option.splits)
  show ?thesis using page_loop_spec [OF s al l(2) lim, where fl = "memory_flags im k", unfolded e, OF r] .
qed

lemma map_slots_spec:
  "pt_state s A 2 (vmm_pagetable im) M \<Longrightarrow> \<forall>m \<in> set ms. slot_ok m \<Longrightarrow> slots_apart ms \<Longrightarrow>
   room_for (vmm_pagetable im) (linear_map im k ms) s A \<Longrightarrow>
   \<exists>s' A' M'. map_slots im k ms s = Inr s' \<and> maps_to (vmm_pagetable im) (linear_map im k ms) s A s' A' M'"
proof (induction ms arbitrary: s A M)
  case Nil
  have "linear_map im k [] = (\<lambda>_. None)" by (simp add: linear_map_def)
  then show ?case using maps_to_none [OF Nil(1)] by (intro exI [of _ s] exI [of _ A] exI [of _ M]) simp
next
  case (Cons m ms)
  let ?pgt = "vmm_pagetable im" and ?f = "slot_map im k m" and ?g = "linear_map im k ms"
  have ap: "slots_apart ms" "\<And>m' x. m' \<in> set ms \<Longrightarrow> slot_has m x \<Longrightarrow> \<not> slot_has m' x"
    using Cons.prems(3) by (auto simp: slots_apart_def)
  have dis: "dom ?f \<inter> dom ?g = {}" using ap(2) by (auto simp: slot_map_def linear_map_def dom_def split: if_splits)
  have e: "linear_map im k (m # ms) = ?f ++ ?g"
    using ap(2) by (intro ext) (auto simp: slot_map_def linear_map_def map_add_def split: option.splits)
  have room: "room_for ?pgt (?f ++ ?g) s A" using Cons.prems(4) unfolding e .
  have "room_for ?pgt ?f s A" by (rule room_for_part [OF room])
  then obtain s1 A1 M1 where s1: "page_loop im (memory_flags im k) (pages_of (bsize m)) s (VIRT_BASE + phys_start m) (phys_start m) = Inr s1"
      "maps_to ?pgt ?f s A s1 A1 M1" using slot_loop [OF Cons.prems(1)] Cons.prems(2) by (metis list.set_intros(1))
  note step = maps_to_step [OF s1(2) dis room]
  have st: "pt_state s1 A1 2 ?pgt M1" using s1(2) by (simp add: maps_to_def)
  have sl: "\<forall>m \<in> set ms. slot_ok m" using Cons.prems(2) by simp
  obtain s' A' M' where r: "map_slots im k ms s1 = Inr s'" "maps_to ?pgt ?g s1 A1 s' A' M'"
    using Cons.IH [OF st sl ap(1) step(1)] by blast
  then show ?case using step(2) [OF r(2)] s1(1) unfolding e by auto
qed

lemma PTE_PA_id: "PAGE_ALIGNED p \<Longrightarrow> unat p < 2 ^ 48 \<Longrightarrow> PTE_PA p = p"
proof (rule bit_word_eqI)
  fix n assume al: "PAGE_ALIGNED p" and lt: "unat p < 2 ^ 48"
  have "p mod 4096 = 0" using al by (simp add: page_aligned_unat word_unat_eq_iff unat_mod dvd_eq_mod_eq_0)
  then have lo: "take_bit 12 p = 0" by (simp add: take_bit_eq_mod)
  have hi: "take_bit 48 p = p" using lt by (simp add: word_unat_eq_iff unsigned_take_bit_eq take_bit_nat_eq_self)
  show "bit (PTE_PA p) n = bit p n"
    using bit_take_bit_iff [of 12 p n, unfolded lo] bit_take_bit_iff [of 48 p n, unfolded hi] by (auto simp: bit_PTE_PA)
qed

lemma flag_bits:
  "bit PTE_NORMAL n \<longleftrightarrow> n \<in> {2, 3, 8, 9}" "bit PTE_XN n \<longleftrightarrow> n = 54" "bit PTE_RO n \<longleftrightarrow> n = 7"
  "bit (PTE_V OR PTE_AF) n \<longleftrightarrow> n \<in> {0, 1, 10}"
proof -
  have c: "PTE_INDX 3 = push_bit 2 (mask 2)" "PTE_SH 3 = push_bit 8 (mask 2)" "PTE_XN = push_bit 54 1" "PTE_AP 2 = push_bit 7 1"
    by (simp_all add: PTE_INDX_def PTE_SH_def PTE_XN_def PTE_AP_def mask_eq_exp_minus_1)
  have m: "bit (push_bit k (mask 2) :: u64) n \<longleftrightarrow> n = k \<or> n = Suc k" if "k < 60" for k
    using that by (auto simp: bit_push_bit_iff bit_mask_iff possible_bit_def)
  have o: "bit (push_bit k 1 :: u64) n \<longleftrightarrow> n = k" if "k < 64" for k
    using that by (auto simp: bit_exp_iff possible_bit_def)
  show "bit PTE_NORMAL n \<longleftrightarrow> n \<in> {2, 3, 8, 9}" using m [of 2] m [of 8] unfolding PTE_NORMAL_def c bit_or_iff by auto
  show "bit PTE_XN n \<longleftrightarrow> n = 54" using o [of 54] unfolding c by simp
  show "bit PTE_RO n \<longleftrightarrow> n = 7" using o [of 7] unfolding PTE_RO_def c by simp
  show "bit (PTE_V OR PTE_AF) n \<longleftrightarrow> n \<in> {0, 1, 10}"
    unfolding PTE_V_def PTE_AF_def bit_or_iff bit_numeral_u64 by auto
qed

lemma image_flags_bits:
  "bit (image_flags im a) n \<longleftrightarrow> n \<in> {2, 3, 8, 9} \<or> n = 54 \<and> \<not> is_vmm_text im a \<or> n = 7 \<and> (is_vmm_text im a \<or> is_vmm_rodata im a)"
  unfolding image_flags_def Let_def by (auto simp: bit_or_iff flag_bits)

lemma image_entry_bits:
  fixes q a :: u64 and im :: image
  defines "e \<equiv> page_entry q (image_flags im a)"
  shows "PTE_PA e = PTE_PA q" "bit e 10" "bit e 54 \<longleftrightarrow> \<not> is_vmm_text im a" "bit e 7 \<longleftrightarrow> is_vmm_text im a \<or> is_vmm_rodata im a"
proof -
  have b: "bit e n \<longleftrightarrow> bit q n \<and> 12 \<le> n \<and> n < 48 \<or> bit (image_flags im a) n \<or> n \<in> {0, 1, 10}" for n
    unfolding e_def page_entry_def by (simp only: bit_or_iff [of "PTE_PA q"] bit_or_iff [of "image_flags im a"] flag_bits bit_PTE_PA)
  show "PTE_PA e = PTE_PA q" by (rule bit_word_eqI) (auto simp: bit_PTE_PA b image_flags_bits)
  show "bit e 10" "bit e 54 \<longleftrightarrow> \<not> is_vmm_text im a" "bit e 7 \<longleftrightarrow> is_vmm_text im a \<or> is_vmm_rodata im a"
    by (simp_all add: b image_flags_bits)
qed

lemma page_base_unat: "unat (PAGE_ADDRESS x) = unat x div 4096 * 4096"
proof -
  have "unat x div 4096 * 4096 < 2 ^ 64" using unat_less_64 [of x] by (meson div_times_less_eq_dividend le_less_trans)
  then show ?thesis by (simp add: page_address_page_no push_bit_eq_mult unat_word_ariths page_no_div mult.commute)
qed

lemma slot_page:
  assumes "slot_ok m" "slot_has m x"
  shows "PTE_PA (PAGE_ADDRESS x - VIRT_BASE) = PAGE_ADDRESS x - VIRT_BASE" "unat x < VS"
proof -
  show vs: "unat x < VS" using assms by (simp add: slot_has_def slot_ok_def)
  have xv: "unat VIRT_BASE \<le> unat x" using assms by (simp add: slot_has_def)
  note u = page_base_unat [of x]
  have "unat VIRT_BASE div 4096 * 4096 \<le> unat x div 4096 * 4096" using xv by (intro mult_le_mono1 div_le_mono)
  then have le: "unat VIRT_BASE \<le> unat (PAGE_ADDRESS x)" unfolding u by (simp add: VIRT_BASE_def)
  then have d: "unat (PAGE_ADDRESS x - VIRT_BASE) = unat (PAGE_ADDRESS x) - unat VIRT_BASE" by (simp add: unat_sub word_le_nat_alt)
  have "4096 dvd unat (PAGE_ADDRESS x - VIRT_BASE)" unfolding d u by (intro dvd_diff_nat) (simp_all add: VIRT_BASE_def)
  moreover have "unat x div 4096 * 4096 \<le> unat x" by simp
  then have "unat (PAGE_ADDRESS x - VIRT_BASE) < 2 ^ 48" unfolding d u using vs by (simp add: VS_eq)
  ultimately show "PTE_PA (PAGE_ADDRESS x - VIRT_BASE) = PAGE_ADDRESS x - VIRT_BASE" by (intro PTE_PA_id) (simp_all add: page_aligned_unat)
qed

section \<open>Device areas\<close>

text \<open>A loop of \<^verbatim>\<open>iomap\<close> that starts on a page boundary maps like the loops above.\<close>

lemma iomap_loop_page_loop:
  "PAGE_ALIGNED va \<Longrightarrow> PAGE_ALIGNED pa \<Longrightarrow> unat va + 4096 * n < 2 ^ 64 \<Longrightarrow> unat pa + 4096 * n < 2 ^ 64 \<Longrightarrow>
   page_loop im (\<lambda>_ _. Some (PTE_DEVICE_nGnRE OR PTE_XN)) n s va pa = Inr s' \<Longrightarrow> iomap_loop im n s va pa = Inr s'"
proof (induction n arbitrary: s va pa)
  case (Suc n)
  have v: "PAGE_ALIGNED (va + of_nat PAGESIZE)" "unat (va + of_nat PAGESIZE) = unat va + 4096"
    and p: "PAGE_ALIGNED (pa + of_nat PAGESIZE)" "unat (pa + of_nat PAGESIZE) = unat pa + 4096"
    using page_step [of va] page_step [of pa] Suc.prems(1-4) by simp_all
  let ?f = "PTE_DEVICE_nGnRE OR PTE_XN"
  obtain s1 where s1: "pagemap im s va pa ?f = Inr s1" "page_loop im (\<lambda>_ _. Some ?f) n s1 (va + of_nat PAGESIZE) (pa + of_nat PAGESIZE) = Inr s'"
    using Suc.prems(5) by (auto simp: bind_res_eq_Inr)
  obtain pte s2 where w: "pagewalk (pvoffset im) s (vmm_pagetable im) va root_level True = Inr (pte, s2)" "mem s2 pte AND PTE_AF = 0"
      "s1 = pte_set_entry s2 pte pa ?f"
    using s1(1) Suc.prems(1,2)
    by (auto simp: pagemap_def mappages_def PAGESIZE_def page_aligned_unat bind_res_eq_Inr split: if_splits prod.splits)
  have "write_cell s2 pte (PTE_PA pa OR PTE_AF OR PTE_V OR ?f) = s1"
    by (simp add: w(3) pte_set_entry_def pte_update_def or.assoc or.commute or.left_commute)
  then show ?case using w(1,2) Suc.IH [OF v(1) p(1) _ _ s1(2)] Suc.prems(3,4) v(2) p(2) by simp
qed simp

lemma iomap_loop_maps:
  assumes "pt_state s A 2 (vmm_pagetable im) M" and "PAGE_ALIGNED va" and "PAGE_ALIGNED pa" and "unat va + 4096 * n \<le> VS"
    and "unat pa + 4096 * n < 2 ^ 64"
    and "room_for (vmm_pagetable im) (loop_map (\<lambda>_ _. Some (PTE_DEVICE_nGnRE OR PTE_XN)) n va pa) s A"
  shows "\<exists>s' A' M'. iomap_loop im n s va pa = Inr s' \<and>
     maps_to (vmm_pagetable im) (loop_map (\<lambda>_ _. Some (PTE_DEVICE_nGnRE OR PTE_XN)) n va pa) s A s' A' M'"
proof -
  have "unat va + 4096 * n < 2 ^ 64" using assms(4) by (simp add: VS_eq)
  then show ?thesis
    using page_loop_spec [OF assms] iomap_loop_page_loop [OF assms(2,3) _ assms(5)] by blast
qed

text \<open>The areas in use lie one above the other from the start of the section up to the free area.\<close>

primrec used_from :: "ioarea list \<Rightarrow> int \<Rightarrow> bool" where
  "used_from [] t \<longleftrightarrow> t = int (unat IOMEM_SECTION_BASE)"
| "used_from (u # us) t \<longleftrightarrow> 0 \<le> io_npages u \<and> int (unat (io_start u)) + 4096 * io_npages u = t \<and>
     used_from us (int (unat (io_start u)))"

definition io_ok :: "io_state \<Rightarrow> bool" where
  "io_ok st \<longleftrightarrow> (\<exists>a. arealist st = [a] \<and> io_static a \<and> 0 < io_npages a \<and>
     int (unat (io_start a)) + 4096 * io_npages a = int (unat VMM_SECTION_BASE) \<and> used_from (usedlist st) (int (unat (io_start a))))"

lemma iomem_init_ok: "io_ok (iomem_init hs)"
  by (simp add: io_ok_def iomem_init_def IOMEM_NPAGES_def IOMEM_SECTION_SIZE_def IOMEM_SECTION_BASE_def VMM_SECTION_BASE_def PAGESIZE_def)

lemma io_npages_eq:
  assumes "unat w + 4095 < 2 ^ 43"
  shows "sint (ucast (drop_bit 12 (PAGE_ALIGN w)) :: 32 word) = int ((unat w + 4095) div 4096)"
proof -
  let ?n = "(unat w + 4095) div 4096"
  have "unat (w + of_nat 4095) = unat w + 4095" by (rule unat_add_of_nat) (use assms in simp)
  moreover have "PAGE_ALIGN w = PAGE_ADDRESS (w + of_nat 4095)"
    by (simp add: PAGE_ALIGN_def PAGE_ADDRESS_def PAGESIZE_def add_diff_eq [symmetric])
  ultimately have "unat (PAGE_ALIGN w) = ?n * 4096" by (simp add: page_base_unat)
  then have "unat (drop_bit 12 (PAGE_ALIGN w)) = ?n" by (simp add: drop_bit_eq_div unat_div)
  then have "ucast (drop_bit 12 (PAGE_ALIGN w)) = (of_nat ?n :: 32 word)" by (metis of_nat_unat)
  moreover have "?n < 2 ^ 31" using assms by simp
  ultimately show ?thesis by (simp add: signed_of_nat signed_take_bit_int_eq_self)
qed

text \<open>
  An area that \<^verbatim>\<open>iomalloc\<close> returns holds the requested registers and lies above all areas in use and
  below the free area, so that no two areas overlap.
\<close>

lemma iomalloc_area:
  assumes st: "io_ok st" and r: "iomalloc st pa sz = Inr (va, st')" and b: "unat (PAGE_OFFSET pa) + unat sz + 4095 < 2 ^ 43"
  shows "io_ok st'" and "\<exists>u. usedlist st' = u # usedlist st \<and> unat va = unat (io_start u) + unat (PAGE_OFFSET pa) \<and>
     int (unat va + unat sz) \<le> int (unat (io_start u)) + 4096 * io_npages u"
proof -
  obtain a where a: "arealist st = [a]" "io_static a" "0 < io_npages a"
      "int (unat (io_start a)) + 4096 * io_npages a = int (unat VMM_SECTION_BASE)" "used_from (usedlist st) (int (unat (io_start a)))"
    using st by (auto simp: io_ok_def)
  let ?o = "PAGE_OFFSET pa" define n where "n = (unat ?o + unat sz + 4095) div 4096"
  have w: "unat (?o + sz) = unat ?o + unat sz" by (rule unat_add_no_wrap) (use b in simp)
  have np: "sint (ucast (drop_bit 12 (PAGE_ALIGN (?o + sz))) :: 32 word) = int n"
    using io_npages_eq [of "?o + sz"] b by (simp add: w n_def)
  have le: "int n \<le> io_npages a" "int n \<noteq> io_npages a"
    using r by (auto simp: iomalloc_def np a(1,2) Let_def bind_res_eq_Inr split: if_splits prod.splits)
  let ?u = "\<lparr>io_start = io_start a, io_npages = int n, io_static = False\<rparr>"
  let ?a = "a\<lparr>io_start := io_start a + of_int (int n * 4096), io_npages := io_npages a - int n\<rparr>"
  obtain hs where st': "va = io_start a + ?o" "st' = st\<lparr>ioheap := hs, usedlist := ?u # usedlist st, arealist := [?a]\<rparr>"
    using r le by (auto simp: iomalloc_def np a(1,2) Let_def bind_res_eq_Inr split: if_splits prod.splits)
  have top: "int (unat (io_start a)) + 4096 * int n < int (unat VMM_SECTION_BASE)" using a(4) le by simp
  then have "unat (io_start a) + 4096 * n < unat VMM_SECTION_BASE" by linarith
  then have lim: "unat (io_start a) + 4096 * n < 0x80000000" by (simp add: VMM_SECTION_BASE_def)
  have "unat (io_start a + of_nat (4096 * n)) = unat (io_start a) + 4096 * n" by (rule unat_add_of_nat) (use lim in simp)
  then have u: "unat (io_start ?a) = unat (io_start a) + 4096 * n" by (simp add: mult.commute)
  show "io_ok st'" using a arg_cong [OF u, of int] le by (auto simp: io_ok_def st'(2))
  have sz: "unat ?o + unat sz \<le> 4096 * n" unfolding n_def by linarith
  have "unat (io_start a) + unat ?o < 2 ^ 64" using sz lim by simp
  then have va: "unat va = unat (io_start a) + unat ?o" unfolding st'(1) by (rule unat_add_no_wrap)
  then have "int (unat va + unat sz) \<le> int (unat (io_start a)) + 4096 * int n" using sz by linarith
  then show "\<exists>u. usedlist st' = u # usedlist st \<and> unat va = unat (io_start u) + unat (PAGE_OFFSET pa) \<and>
     int (unat va + unat sz) \<le> int (unat (io_start u)) + 4096 * io_npages u"
    using va by (simp add: st'(2))
qed

section \<open>Properties\<close>


definition example_image :: "u64 \<Rightarrow> image" where
  "example_image pgt = \<lparr>text_start = 0x80000000, text_end = 0x80020000, rodata_start = 0x80020000, rodata_end = 0x80030000,
     vmm_start = 0x80000000, vmm_end = 0x80100000, pvoffset = 0x40000000, vmm_pagetable = pgt\<rparr>"

definition example_mm :: "mstate \<Rightarrow> boot_mm" where
  "example_mm s = \<lparr>bzone = s, breserved = [],
     bsystem = \<lparr>slots = [\<lparr>phys_start = 0x80000000, bsize = 0x1000, bname = []\<rparr>], allsize = 0x1000\<rparr>,
     early_phys_start = 0, early_phys_end = 0, early_memsize = 0\<rparr>"


end
