(* ===== verification/Cpu_Boot.thy ===== *)
theory Cpu_Boot
  imports Boot_Map Local_Vm
begin

text \<open>
  The physical processors, \<^verbatim>\<open>core/pcpu.c\<close> with the two ways to start one, \<^verbatim>\<open>drivers/psci.c\<close> and
  \<^verbatim>\<open>drivers/spin-table.c\<close>: the device tree is searched for processors, each gets its entry and its
  method, and a processor is started through that method.  The call into the firmware is the argument
  \<open>psci_call\<close>, stores to device registers are collected in \<open>stores\<close>.  When \<^verbatim>\<open>pcpu_init\<close> returns, every
  processor it found can be started, unless there is only one.
\<close>

section \<open>State\<close>

datatype enable_method = Psci | Spin_Table

record pcpu =
  stackbase :: u64
  mpidr :: u32
  p_online :: bool
  p_wakeup :: bool
  p_device :: "nat option"
  enable_method :: "enable_method option"
  p_recvq :: "u64 list"
  irq_depth :: int
  lazyirq_depth :: int
  lazyirq_enabled :: bool

definition zero_pcpu :: pcpu where
  "zero_pcpu = \<lparr>stackbase = 0, mpidr = 0, p_online = False, p_wakeup = False, p_device = None, enable_method = None,
     p_recvq = [], irq_depth = 0, lazyirq_depth = 0, lazyirq_enabled = False\<rparr>"

datatype psci_method = PSCI_HVC | PSCI_SMC

record psci_info =
  migrate :: u32
  cpu_on :: u32
  cpu_off :: u32
  cpu_suspend :: u32
  psci_method :: psci_method

record cpu_state =
  pcpus :: "pcpu list"
  nr_online_pcpus :: nat
  disallow_mp :: bool
  release_addr :: "u64 list"
  psci_info :: psci_info
  cpu_io :: io_state
  stores :: "(u64 \<times> u64) list"

definition upd_cpu :: "nat \<Rightarrow> (pcpu \<Rightarrow> pcpu) \<Rightarrow> cpu_state \<Rightarrow> cpu_state" where
  "upd_cpu k f s = s\<lparr>pcpus := (pcpus s)[k := f (pcpus s ! k)]\<rparr>"

text \<open>The argument is an \<^verbatim>\<open>int\<close>, and only its upper bound is tested.\<close>

definition get_cpu :: "int \<Rightarrow> nat res" where
  "get_cpu cpu =
     (if cpu \<ge> int NCPU_MAX then Inl (Panic ''no cpu!'')
      else if cpu < 0 then Inl (Undefined ''pcpus[-1]'') else Inr (nat cpu))"

section \<open>PSCI\<close>

definition psci_cpu_boot :: "(u32 \<Rightarrow> u64 \<Rightarrow> u64 \<Rightarrow> u64 \<Rightarrow> int) \<Rightarrow> cpu_state \<Rightarrow> nat \<Rightarrow> u64 \<Rightarrow> int" where
  "psci_cpu_boot psci_call s k ep_phys =
     (let status = psci_call (cpu_on (psci_info s)) (of_nat k) ep_phys 0 in if status = 0 then 0 else -1)"

text \<open>A property that is absent leaves the variable as it was.\<close>

definition cell_or :: "u32 \<Rightarrow> u32 list option \<Rightarrow> u32" where
  "cell_or old r = (case r of Some (w # ws) \<Rightarrow> w | _ \<Rightarrow> old)"

definition psci_init :: "dt \<Rightarrow> nat \<Rightarrow> cpu_state \<Rightarrow> cpu_state res" where
  "psci_init d root s =
     bind_res (dt_find_node_path d root (lit ''/psci'')) (\<lambda>dev.
       case dev of
         None \<Rightarrow> Inr s
       | Some k \<Rightarrow>
           bind_res (dt_node_props d k (lit ''method'')) (\<lambda>method.
             case method of
               None \<Rightarrow> Inl (Undefined ''strcmp(NULL)'')
             | Some m \<Rightarrow>
                 bind_res (strcmp m (lit ''hvc'')) (\<lambda>c1.
                 bind_res (if c1 \<noteq> 0 then Inr PSCI_HVC
                           else bind_res (strcmp m (lit ''smc'')) (\<lambda>c2.
                             if c2 \<noteq> 0 then Inr PSCI_SMC else Inl (Panic ''psci method''))) (\<lambda>meth.
                 bind_res (dt_node_propa d k (lit ''migrate'') 1) (\<lambda>mg.
                 bind_res (dt_node_propa d k (lit ''cpu_suspend'') 1) (\<lambda>su.
                 bind_res (dt_node_propa d k (lit ''cpu_on'') 1) (\<lambda>on.
                   if on = None then Inl (Panic ''cpu on'')
                   else bind_res (dt_node_propa d k (lit ''cpu_off'') 1) (\<lambda>off.
                     if off = None then Inl (Panic ''cpu off'')
                     else let i = psci_info s in
                       Inr (s\<lparr>psci_info := i\<lparr>psci_method := meth, migrate := cell_or (migrate i) mg,
                         cpu_suspend := cell_or (cpu_suspend i) su, cpu_on := cell_or (cpu_on i) on,
                         cpu_off := cell_or (cpu_off i) off\<rparr>\<rparr>)))))))))"

section \<open>Spin tables\<close>

definition spintable_init :: "dt \<Rightarrow> cpu_state \<Rightarrow> nat \<Rightarrow> (int \<times> cpu_state) res" where
  "spintable_init d s k =
     (case p_device (pcpus s ! k) of
        None \<Rightarrow> Inr (-1, s)
      | Some cdev \<Rightarrow>
          bind_res (dt_node_propa64 d cdev (lit ''cpu-release-addr'') (NCPU_MAX - k)) (\<lambda>r.
            case r of
              None \<Rightarrow> Inr (-1, s)
            | Some ws \<Rightarrow>
                Inr (0, s\<lparr>release_addr := take k (release_addr s) @ ws @ drop (k + length ws) (release_addr s)\<rparr>)))"

text \<open>\<^verbatim>\<open>iomap\<close> never returns NULL: it panics.\<close>

definition spintable_boot :: "image \<Rightarrow> cpu_state \<Rightarrow> nat \<Rightarrow> u64 \<Rightarrow> (int \<times> cpu_state) res" where
  "spintable_boot im s k entrypoint =
     bind_res (iomap im (cpu_io s) (release_addr s ! k) 8) (\<lambda>(rel_addr, io).
       if rel_addr = 0 then Inr (-1, s\<lparr>cpu_io := io\<rparr>)
       else Inr (0, s\<lparr>cpu_io := io, stores := stores s @ [(rel_addr, entrypoint)]\<rparr>))"

section \<open>Processors\<close>

definition cpu_boot ::
    "(u32 \<Rightarrow> u64 \<Rightarrow> u64 \<Rightarrow> u64 \<Rightarrow> int) \<Rightarrow> image \<Rightarrow> cpu_state \<Rightarrow> nat \<Rightarrow> u64 \<Rightarrow> (int \<times> cpu_state) res" where
  "cpu_boot psci_call im s k entrypoint =
     (case enable_method (pcpus s ! k) of
        None \<Rightarrow> Inr (-1, s)
      | Some Psci \<Rightarrow> Inr (psci_cpu_boot psci_call s k entrypoint, s)
      | Some Spin_Table \<Rightarrow> spintable_boot im s k entrypoint)"

definition cpu_init_enable_method :: "dt \<Rightarrow> cpu_state \<Rightarrow> nat \<Rightarrow> nat \<Rightarrow> (int \<times> cpu_state) res" where
  "cpu_init_enable_method d s c cpudev =
     bind_res (dt_node_props d cpudev (lit ''enable-method'')) (\<lambda>em.
       case em of
         None \<Rightarrow> Inr (-1, s)
       | Some m \<Rightarrow>
           bind_res (strcmp m (lit ''spin-table'')) (\<lambda>c1.
             if c1 = 0 then spintable_init d (upd_cpu c (\<lambda>p. p\<lparr>enable_method := Some Spin_Table\<rparr>) s) c
             else bind_res (strcmp m (lit ''psci'')) (\<lambda>c2.
               if c2 = 0 then Inr (0, upd_cpu c (\<lambda>p. p\<lparr>enable_method := Some Psci\<rparr>) s)
               else Inr (-1, s))))"

definition cpu_prepare :: "dt \<Rightarrow> cpu_state \<Rightarrow> nat \<Rightarrow> (int \<times> cpu_state) res" where
  "cpu_prepare d s cpudev =
     bind_res (dt_node_propa d cpudev (lit ''reg'') 1) (\<lambda>r.
       case r of
         None \<Rightarrow> Inr (-1, s)
       | Some [] \<Rightarrow> Inl (Undefined ''mpidr'')
       | Some (m # _) \<Rightarrow>
           bind_res (get_cpu (sint m)) (\<lambda>k.
             let s1 = upd_cpu k (\<lambda>p. p\<lparr>p_online := True, p_device := Some cpudev, mpidr := m\<rparr>) s in
             bind_res (cpu_init_enable_method d s1 k cpudev) (\<lambda>(rc, s2).
               Inr (0, if rc < 0 then s2\<lparr>disallow_mp := True\<rparr> else s2))))"

text \<open>The loop of \<^verbatim>\<open>pcpu_init\<close>; \<open>fuel\<close> bounds it by the number of nodes.\<close>

fun pcpu_loop :: "dt \<Rightarrow> nat \<Rightarrow> nat \<Rightarrow> nat option \<Rightarrow> cpu_state \<Rightarrow> cpu_state res" where
  "pcpu_loop d root fuel None s = Inr s"
| "pcpu_loop d root 0 (Some c) s = Inl (Hang ''cpus'')"
| "pcpu_loop d root (Suc fuel) (Some c) s =
     (if nr_online_pcpus s > NCPU_MAX then Inl (Panic ''too many cpu'')
      else bind_res (cpu_prepare d (s\<lparr>nr_online_pcpus := nr_online_pcpus s + 1\<rparr>) c) (\<lambda>(rc, s1).
        if rc < 0 then Inl (Panic ''cpu?'')
        else bind_res (dt_next_cpu_device d root (Some c)) (\<lambda>n. pcpu_loop d root fuel n s1)))"

definition pcpu_init :: "dt \<Rightarrow> nat \<Rightarrow> cpu_state \<Rightarrow> cpu_state res" where
  "pcpu_init d root s =
     bind_res (dt_next_cpu_device d root None) (\<lambda>c.
     bind_res (pcpu_loop d root (length (nodes d)) c (s\<lparr>disallow_mp := False\<rparr>)) (\<lambda>s1.
       if nr_online_pcpus s1 = 0 then Inl (Panic ''no pcpu?'')
       else if nr_online_pcpus s1 > 1 \<and> disallow_mp s1 then Inl (Panic ''mp'')
       else Inr s1))"

definition pcpu_init_core :: "u64 \<Rightarrow> cpu_state \<Rightarrow> nat \<Rightarrow> cpu_state res" where
  "pcpu_init_core stk s i =
     (if \<not> p_online (pcpus s ! i) then Inl (Panic ''offline cpu?'')
      else Inr (upd_cpu i (\<lambda>p. p\<lparr>stackbase := stk + of_nat (PAGESIZE * (i + 1)), p_wakeup := True, p_recvq := [],
        irq_depth := 0, lazyirq_depth := 0, lazyirq_enabled := True\<rparr>) s))"

section \<open>Lemmas\<close>

text \<open>Every processor that is online has a method, or the failure to set one up is on record.\<close>

definition methods_ok :: "cpu_state \<Rightarrow> bool" where
  "methods_ok s \<longleftrightarrow> length (pcpus s) = NCPU_MAX \<and>
     (\<forall>k < NCPU_MAX. p_online (pcpus s ! k) \<and> enable_method (pcpus s ! k) = None \<longrightarrow> disallow_mp s)"

lemma upd_cpu_simps [simp]:
  "length (pcpus (upd_cpu k f s)) = length (pcpus s)" "disallow_mp (upd_cpu k f s) = disallow_mp s"
  "nr_online_pcpus (upd_cpu k f s) = nr_online_pcpus s"
  "k < length (pcpus s) \<Longrightarrow> pcpus (upd_cpu k f s) ! j = (if j = k then f (pcpus s ! k) else pcpus s ! j)"
  by (simp_all add: upd_cpu_def nth_list_update)

lemma spintable_init_effect:
  "spintable_init d s k = Inr (rc, s') \<Longrightarrow> pcpus s' = pcpus s \<and> disallow_mp s' = disallow_mp s \<and> nr_online_pcpus s' = nr_online_pcpus s"
  by (auto simp: spintable_init_def bind_res_eq_Inr split: option.splits)

lemma enable_effect:
  assumes r: "cpu_init_enable_method d s c dev = Inr (rc, s')" and c: "c < length (pcpus s)"
  shows "nr_online_pcpus s' = nr_online_pcpus s" "disallow_mp s' = disallow_mp s" "length (pcpus s') = length (pcpus s)"
    "j \<noteq> c \<Longrightarrow> pcpus s' ! j = pcpus s ! j" "rc < 0 \<or> enable_method (pcpus s' ! c) \<noteq> None" "p_online (pcpus s' ! c) = p_online (pcpus s ! c)"
proof -
  consider "s' = s" "rc = -1" | "s' = upd_cpu c (\<lambda>p. p\<lparr>enable_method := Some Psci\<rparr>) s"
    | "spintable_init d (upd_cpu c (\<lambda>p. p\<lparr>enable_method := Some Spin_Table\<rparr>) s) c = Inr (rc, s')"
    using r by (auto simp: cpu_init_enable_method_def bind_res_eq_Inr split: option.splits if_splits)
  then have "nr_online_pcpus s' = nr_online_pcpus s \<and> disallow_mp s' = disallow_mp s \<and> length (pcpus s') = length (pcpus s) \<and>
      (j \<noteq> c \<longrightarrow> pcpus s' ! j = pcpus s ! j) \<and> (rc < 0 \<or> enable_method (pcpus s' ! c) \<noteq> None) \<and> p_online (pcpus s' ! c) = p_online (pcpus s ! c)"
    using c by cases (auto dest!: spintable_init_effect)
  then show "nr_online_pcpus s' = nr_online_pcpus s" "disallow_mp s' = disallow_mp s" "length (pcpus s') = length (pcpus s)"
    "j \<noteq> c \<Longrightarrow> pcpus s' ! j = pcpus s ! j" "rc < 0 \<or> enable_method (pcpus s' ! c) \<noteq> None" "p_online (pcpus s' ! c) = p_online (pcpus s ! c)"
    by blast+
qed

lemma prepare_ok:
  assumes m: "methods_ok s" and r: "cpu_prepare d s dev = Inr (rc, s')" and z: "\<not> rc < 0"
  shows "methods_ok s'" "nr_online_pcpus s' = nr_online_pcpus s"
proof -
  obtain w where w: "dt_node_propa d dev (lit ''reg'') 1 = Inr w" using r by (auto simp: cpu_prepare_def bind_res_eq_Inr)
  then obtain mp ws where w': "dt_node_propa d dev (lit ''reg'') 1 = Inr (Some (mp # ws))"
    using r z by (cases w; cases "the w") (auto simp: cpu_prepare_def)
  obtain k where gc: "get_cpu (sint mp) = Inr k" using r w' by (auto simp: cpu_prepare_def bind_res_eq_Inr)
  then have k: "k < NCPU_MAX" by (auto simp: get_cpu_def split: if_splits)
  let ?s = "upd_cpu k (\<lambda>p. p\<lparr>p_online := True, p_device := Some dev, mpidr := mp\<rparr>) s"
  obtain rc2 s2 where e: "cpu_init_enable_method d ?s k dev = Inr (rc2, s2)" "s' = (if rc2 < 0 then s2\<lparr>disallow_mp := True\<rparr> else s2)"
    using r w' gc by (auto simp: cpu_prepare_def Let_def bind_res_eq_Inr)
  have k': "k < length (pcpus (upd_cpu k f s))" for f using k m by (simp add: methods_ok_def)
  note ee = enable_effect [OF e(1) k']
  show "nr_online_pcpus s' = nr_online_pcpus s" using ee(1) e(2) by simp
  have "disallow_mp s'" if "j < NCPU_MAX" "p_online (pcpus s' ! j)" "enable_method (pcpus s' ! j) = None" for j
    using that m k ee(2,5) ee(4) [of j] e(2) by (cases "j = k") (auto simp: methods_ok_def split: if_splits)
  then show "methods_ok s'" using m ee(3) e(2) by (auto simp: methods_ok_def)
qed

lemma pcpu_loop_ok:
  "pcpu_loop d root fuel c s = Inr s' \<Longrightarrow> methods_ok s \<Longrightarrow> nr_online_pcpus s \<le> NCPU_MAX + 1 \<Longrightarrow>
   methods_ok s' \<and> nr_online_pcpus s' \<le> NCPU_MAX + 1"
proof (induction d root fuel c s rule: pcpu_loop.induct)
  case (3 d root fuel c s)
  let ?s = "s\<lparr>nr_online_pcpus := nr_online_pcpus s + 1\<rparr>"
  obtain rc s1 n where p: "\<not> nr_online_pcpus s > NCPU_MAX" "cpu_prepare d ?s c = Inr (rc, s1)" "\<not> rc < 0"
      "dt_next_cpu_device d root (Some c) = Inr n" "pcpu_loop d root fuel n s1 = Inr s'"
    using "3.prems"(1) by (auto simp: bind_res_eq_Inr split: if_splits prod.splits)
  have "methods_ok ?s" using "3.prems"(2) by (simp add: methods_ok_def)
  note po = prepare_ok [OF this p(2,3)]
  show ?case using "3.IH" [OF p(1,3,5) po(1)] p(1) po(2) by simp
qed auto

text \<open>
  When \<^verbatim>\<open>pcpu_init\<close> returns, it has found a processor, and if it has found several, each of them that is
  marked online has a method by which it can be started.
\<close>

lemma pcpu_init_startable:
  assumes "length (pcpus s) = NCPU_MAX" and "\<forall>k < NCPU_MAX. \<not> p_online (pcpus s ! k)" and "nr_online_pcpus s = 0"
    and r: "pcpu_init d root s = Inr s'"
  shows "0 < nr_online_pcpus s'" "nr_online_pcpus s' \<le> NCPU_MAX + 1"
    "1 < nr_online_pcpus s' \<Longrightarrow> k < NCPU_MAX \<Longrightarrow> p_online (pcpus s' ! k) \<Longrightarrow> enable_method (pcpus s' ! k) \<noteq> None"
proof -
  have m: "methods_ok (s\<lparr>disallow_mp := False\<rparr>)" using assms(1,2) by (simp add: methods_ok_def)
  obtain c where l: "pcpu_loop d root (length (nodes d)) c (s\<lparr>disallow_mp := False\<rparr>) = Inr s'" "nr_online_pcpus s' \<noteq> 0"
      "\<not> (nr_online_pcpus s' > 1 \<and> disallow_mp s')"
    using r by (auto simp: pcpu_init_def bind_res_eq_Inr split: if_splits)
  note lo = pcpu_loop_ok [OF l(1) m]
  show "0 < nr_online_pcpus s'" "nr_online_pcpus s' \<le> NCPU_MAX + 1"
    "1 < nr_online_pcpus s' \<Longrightarrow> k < NCPU_MAX \<Longrightarrow> p_online (pcpus s' ! k) \<Longrightarrow> enable_method (pcpus s' ! k) \<noteq> None"
    using l(2,3) lo assms(3) by (auto simp: methods_ok_def)
qed

text \<open>The test for too many processors comes one too late.\<close>

lemma one_cpu_too_many:
  assumes "nr_online_pcpus s = NCPU_MAX" and "cpu_prepare d (s\<lparr>nr_online_pcpus := NCPU_MAX + 1\<rparr>) c = Inr (0, s1)"
    and "dt_next_cpu_device d root (Some c) = Inr None"
  shows "pcpu_loop d root (Suc f) (Some c) s = Inr s1"
  using assms by simp

end
