(* ===== verification/Device_Bus.thy ===== *)
theory Device_Bus
  imports Prelude
begin

text \<open>
  Access to device registers.  A device is not part of the program, so the drivers take it as an argument: a
  state that only the device knows, and what a read and a write of a register do with it.  A read may change
  the state, since registers such as an interrupt acknowledge register do.  The drivers wait for a device by
  reading a register until it has some value; a wait is given a number of reads after which the machine is
  taken to hang.
\<close>

record ('r, 'v, 's) bus =
  rd :: "'r \<Rightarrow> 's \<Rightarrow> 'v \<times> 's"
  wr :: "'r \<Rightarrow> 'v \<Rightarrow> 's \<Rightarrow> 's"

fun poll :: "('r, 'v, 's) bus \<Rightarrow> 'r \<Rightarrow> ('v \<Rightarrow> bool) \<Rightarrow> nat \<Rightarrow> 's \<Rightarrow> 's res" where
  "poll b r busy 0 s = Inl (Hang ''poll'')"
| "poll b r busy (Suc n) s = (let (v, s1) = rd b r s in if busy v then poll b r busy n s1 else Inr s1)"

text \<open>The state after \<open>k\<close> reads, and a wait that ends as soon as a read finds the device ready.\<close>

fun reads :: "('r, 'v, 's) bus \<Rightarrow> 'r \<Rightarrow> nat \<Rightarrow> 's \<Rightarrow> 's" where
  "reads b r 0 s = s"
| "reads b r (Suc k) s = reads b r k (snd (rd b r s))"

lemma poll_returns:
  "\<not> busy (fst (rd b r (reads b r k s))) \<Longrightarrow> k < n \<Longrightarrow>
     \<exists>j \<le> k. poll b r busy n s = Inr (reads b r (Suc j) s) \<and> \<not> busy (fst (rd b r (reads b r j s)))"
proof (induction k arbitrary: n s)
  case 0
  then show ?case by (cases n) (auto simp: split_beta Let_def)
next
  case (Suc k)
  then obtain m where n: "n = Suc m" "k < m" by (cases n) auto
  show ?case
  proof (cases "busy (fst (rd b r s))")
    case True
    obtain j where "j \<le> k" "poll b r busy m (snd (rd b r s)) = Inr (reads b r (Suc j) (snd (rd b r s)))"
        "\<not> busy (fst (rd b r (reads b r j (snd (rd b r s)))))"
      using Suc.IH [of "snd (rd b r s)" m] Suc.prems(1) n(2) by auto
    then show ?thesis using True n(1) by (intro exI [of _ "Suc j"]) (simp add: split_beta Let_def)
  next
    case False
    then show ?thesis using n(1) by (intro exI [of _ 0]) (simp add: split_beta Let_def)
  qed
qed

end
