(* ===== verification/Virtio_Mmio.thy ===== *)
theory Virtio_Mmio
  imports Net Device_Bus Device_Tree Boot_Map
begin

text \<open>
  The virtio transport of \<^verbatim>\<open>drivers/virtio/virtio-mmio.c\<close>, the probe of the network driver in
  \<^verbatim>\<open>drivers/virtio/virtio-net.c\<close> and \<^verbatim>\<open>net_init\<close> of \<^verbatim>\<open>drivers/net.c\<close>.  The device is an argument: 32-bit
  registers by their offsets, and the configuration structure that the driver reads.  What the driver relies on is
  the hypothesis \<open>virtio_device\<close>, the behaviour that the virtio standard prescribes for these registers.
  The property at the end says that the probe of such a device succeeds and leaves it ready to receive.
\<close>

section \<open>Registers\<close>

definition VIRTIO_MAGIC :: u32 where "VIRTIO_MAGIC = 0x74726976"
definition VIRTIO_MMIO_MAGICVALUE :: u32 where "VIRTIO_MMIO_MAGICVALUE = 0x000"
definition VIRTIO_MMIO_VERSION :: u32 where "VIRTIO_MMIO_VERSION = 0x004"
definition VIRTIO_MMIO_DEVICE_ID :: u32 where "VIRTIO_MMIO_DEVICE_ID = 0x008"
definition VIRTIO_MMIO_DEVICE_FEATURES :: u32 where "VIRTIO_MMIO_DEVICE_FEATURES = 0x010"
definition VIRTIO_MMIO_DEVICE_FEATURES_SEL :: u32 where "VIRTIO_MMIO_DEVICE_FEATURES_SEL = 0x014"
definition VIRTIO_MMIO_DRIVER_FEATURES :: u32 where "VIRTIO_MMIO_DRIVER_FEATURES = 0x020"
definition VIRTIO_MMIO_DRIVER_FEATURES_SEL :: u32 where "VIRTIO_MMIO_DRIVER_FEATURES_SEL = 0x024"
definition VIRTIO_MMIO_QUEUE_SEL :: u32 where "VIRTIO_MMIO_QUEUE_SEL = 0x030"
definition VIRTIO_MMIO_QUEUE_NUM_MAX :: u32 where "VIRTIO_MMIO_QUEUE_NUM_MAX = 0x034"
definition VIRTIO_MMIO_QUEUE_NUM :: u32 where "VIRTIO_MMIO_QUEUE_NUM = 0x038"
definition VIRTIO_MMIO_QUEUE_READY :: u32 where "VIRTIO_MMIO_QUEUE_READY = 0x044"
definition VIRTIO_MMIO_QUEUE_NOTIFY :: u32 where "VIRTIO_MMIO_QUEUE_NOTIFY = 0x050"
definition VIRTIO_MMIO_INTERRUPT_STATUS :: u32 where "VIRTIO_MMIO_INTERRUPT_STATUS = 0x060"
definition VIRTIO_MMIO_INTERRUPT_ACK :: u32 where "VIRTIO_MMIO_INTERRUPT_ACK = 0x064"
definition VIRTIO_MMIO_STATUS :: u32 where "VIRTIO_MMIO_STATUS = 0x070"
definition VIRTIO_MMIO_QUEUE_DESC_LOW :: u32 where "VIRTIO_MMIO_QUEUE_DESC_LOW = 0x080"
definition VIRTIO_MMIO_QUEUE_DESC_HIGH :: u32 where "VIRTIO_MMIO_QUEUE_DESC_HIGH = 0x084"
definition VIRTIO_MMIO_QUEUE_DRIVER_LOW :: u32 where "VIRTIO_MMIO_QUEUE_DRIVER_LOW = 0x090"
definition VIRTIO_MMIO_QUEUE_DRIVER_HIGH :: u32 where "VIRTIO_MMIO_QUEUE_DRIVER_HIGH = 0x094"
definition VIRTIO_MMIO_QUEUE_DEVICE_LOW :: u32 where "VIRTIO_MMIO_QUEUE_DEVICE_LOW = 0x0a0"
definition VIRTIO_MMIO_QUEUE_DEVICE_HIGH :: u32 where "VIRTIO_MMIO_QUEUE_DEVICE_HIGH = 0x0a4"

lemmas vtmmio_regs = VIRTIO_MAGIC_def VIRTIO_MMIO_MAGICVALUE_def VIRTIO_MMIO_VERSION_def VIRTIO_MMIO_DEVICE_ID_def
  VIRTIO_MMIO_DEVICE_FEATURES_def VIRTIO_MMIO_DEVICE_FEATURES_SEL_def VIRTIO_MMIO_DRIVER_FEATURES_def
  VIRTIO_MMIO_DRIVER_FEATURES_SEL_def VIRTIO_MMIO_QUEUE_SEL_def VIRTIO_MMIO_QUEUE_NUM_MAX_def VIRTIO_MMIO_QUEUE_NUM_def
  VIRTIO_MMIO_QUEUE_READY_def VIRTIO_MMIO_QUEUE_NOTIFY_def VIRTIO_MMIO_INTERRUPT_STATUS_def VIRTIO_MMIO_INTERRUPT_ACK_def
  VIRTIO_MMIO_STATUS_def VIRTIO_MMIO_QUEUE_DESC_LOW_def VIRTIO_MMIO_QUEUE_DESC_HIGH_def VIRTIO_MMIO_QUEUE_DRIVER_LOW_def
  VIRTIO_MMIO_QUEUE_DRIVER_HIGH_def VIRTIO_MMIO_QUEUE_DEVICE_LOW_def VIRTIO_MMIO_QUEUE_DEVICE_HIGH_def

definition VIRTIO_MMIO_USED_BUFFER_NOTIFY :: u32 where "VIRTIO_MMIO_USED_BUFFER_NOTIFY = 1"

definition DEV_STATUS_ACKNOWLEDGE :: u32 where "DEV_STATUS_ACKNOWLEDGE = 1"
definition DEV_STATUS_DRIVER :: u32 where "DEV_STATUS_DRIVER = 2"
definition DEV_STATUS_FEATURES_OK :: u32 where "DEV_STATUS_FEATURES_OK = 8"
definition DEV_STATUS_DRIVER_OK :: u32 where "DEV_STATUS_DRIVER_OK = 4"
definition VIRTIO_DEV_NET :: u32 where "VIRTIO_DEV_NET = 1"
definition VIRTIO_NET_F_MTU :: nat where "VIRTIO_NET_F_MTU = 3"
definition VIRTIO_NET_F_MAC :: nat where "VIRTIO_NET_F_MAC = 5"
definition VIRTIO_NET_F_STATUS :: nat where "VIRTIO_NET_F_STATUS = 16"

definition LO :: "u64 \<Rightarrow> u32" where "LO addr = ucast (addr AND 0xffffffff)"
definition HI :: "u64 \<Rightarrow> u32" where "HI addr = ucast (drop_bit 32 addr AND 0xffffffff)"

type_synonym 's vbus = "(u32, u32, 's) bus"

section \<open>The transport\<close>

text \<open>
  A \<^verbatim>\<open>struct virtio_mmio_dev\<close>.  The list of queues holds their numbers, the one that was added last first;
  the base address is the device itself.
\<close>

record virtio_mmio_dev =
  vm_intid :: int
  vm_vqs :: "int list"
  vm_dev_id :: u32

definition vtmmio_read :: "'s vbus \<Rightarrow> u32 \<Rightarrow> 's \<Rightarrow> u32 \<times> 's" where
  "vtmmio_read b off s = rd b off s"

definition vtmmio_write :: "'s vbus \<Rightarrow> u32 \<Rightarrow> u32 \<Rightarrow> 's \<Rightarrow> 's" where
  "vtmmio_write b off v s = wr b off v s"

definition vtmmio_driver_ok :: "'s vbus \<Rightarrow> 's \<Rightarrow> int \<times> 's" where
  "vtmmio_driver_ok b s =
     (let (status, s1) = vtmmio_read b VIRTIO_MMIO_STATUS s;
          s2 = vtmmio_write b VIRTIO_MMIO_STATUS (status OR DEV_STATUS_DRIVER_OK) s1;
          (status', s3) = vtmmio_read b VIRTIO_MMIO_STATUS s2
      in (if status' AND DEV_STATUS_DRIVER_OK = 0 then -1 else 0, s3))"

definition vtmmio_negotiate :: "'s vbus \<Rightarrow> u64 \<Rightarrow> 's \<Rightarrow> int \<times> 's" where
  "vtmmio_negotiate b features s =
     (let s1 = vtmmio_write b VIRTIO_MMIO_DEVICE_FEATURES_SEL 1 s;
          (host_f1, s2) = vtmmio_read b VIRTIO_MMIO_DEVICE_FEATURES s1;
          s3 = vtmmio_write b VIRTIO_MMIO_DEVICE_FEATURES_SEL 0 s2;
          (host_f0, s4) = vtmmio_read b VIRTIO_MMIO_DEVICE_FEATURES s3;
          host_features = push_bit 32 (ucast host_f1) OR ucast host_f0;
          f = features AND host_features;
          s5 = vtmmio_write b VIRTIO_MMIO_DRIVER_FEATURES_SEL 1 s4;
          s6 = vtmmio_write b VIRTIO_MMIO_DRIVER_FEATURES (ucast (drop_bit 32 f)) s5;
          s7 = vtmmio_write b VIRTIO_MMIO_DRIVER_FEATURES_SEL 0 s6;
          s8 = vtmmio_write b VIRTIO_MMIO_DRIVER_FEATURES (ucast f) s7;
          (status, s9) = vtmmio_read b VIRTIO_MMIO_STATUS s8;
          s10 = vtmmio_write b VIRTIO_MMIO_STATUS (status OR DEV_STATUS_FEATURES_OK) s9;
          (status', s11) = vtmmio_read b VIRTIO_MMIO_STATUS s10
      in (if status' AND DEV_STATUS_FEATURES_OK = 0 then -1 else 0, s11))"

definition vtmmio_vqlist_add :: "virtio_mmio_dev \<Rightarrow> int \<Rightarrow> virtio_mmio_dev" where
  "vtmmio_vqlist_add dev q = dev\<lparr>vm_vqs := q # vm_vqs dev\<rparr>"

text \<open>The number of entries the device reports is read into a signed integer before the comparison.\<close>

definition vtmmio_set_virtq :: "'s vbus \<Rightarrow> u64 \<Rightarrow> virtio_mmio_dev \<Rightarrow> virtq \<Rightarrow> int \<Rightarrow> 's \<Rightarrow> int \<times> virtio_mmio_dev \<times> 's" where
  "vtmmio_set_virtq b pv dev vq q s =
     (let s1 = vtmmio_write b VIRTIO_MMIO_QUEUE_SEL (of_int q) s;
          (qmax, s2) = vtmmio_read b VIRTIO_MMIO_QUEUE_NUM_MAX s1
      in if sint qmax < int NQUEUE then (-1, dev, s2)
         else
           let s3 = vtmmio_write b VIRTIO_MMIO_QUEUE_NUM (of_nat NQUEUE) s2;
               pd = virt2phys pv (p_desc vq); pa = virt2phys pv (p_avail vq); pu = virt2phys pv (p_used vq);
               s4 = vtmmio_write b VIRTIO_MMIO_QUEUE_DESC_LOW (LO pd) s3;
               s5 = vtmmio_write b VIRTIO_MMIO_QUEUE_DESC_HIGH (HI pd) s4;
               s6 = vtmmio_write b VIRTIO_MMIO_QUEUE_DRIVER_LOW (LO pa) s5;
               s7 = vtmmio_write b VIRTIO_MMIO_QUEUE_DRIVER_HIGH (HI pa) s6;
               s8 = vtmmio_write b VIRTIO_MMIO_QUEUE_DEVICE_LOW (LO pu) s7;
               s9 = vtmmio_write b VIRTIO_MMIO_QUEUE_DEVICE_HIGH (HI pu) s8;
               s10 = vtmmio_write b VIRTIO_MMIO_QUEUE_READY 1 s9
           in (0, vtmmio_vqlist_add dev q, s10))"

definition vtmmio_notify :: "'s vbus \<Rightarrow> int \<Rightarrow> 's \<Rightarrow> 's" where
  "vtmmio_notify b q s = vtmmio_write b VIRTIO_MMIO_QUEUE_NOTIFY (of_int q) s"

definition virtq_reg_to_dev :: "'s vbus \<Rightarrow> u64 \<Rightarrow> virtio_mmio_dev \<Rightarrow> virtq \<Rightarrow> 's \<Rightarrow> int \<times> virtio_mmio_dev \<times> 's" where
  "virtq_reg_to_dev b pv dev vq s = vtmmio_set_virtq b pv dev vq (vq_sel vq) s"

section \<open>The network device\<close>

text \<open>A \<^verbatim>\<open>struct nic\<close>; its operations are those of the driver that registers it.\<close>

record nic =
  nic_name :: string
  nic_mac :: "u8 list"
  nic_mtu :: int

record virtio_net_config =
  cfg_mac :: "u8 list"
  cfg_status :: u16
  cfg_max_virtqueue_pairs :: u16
  cfg_mtu :: u16

text \<open>What the probe works on: the driver's objects, the heap, the network device of the node, if it has one, the
  interrupts that were registered for \<^verbatim>\<open>vtmmio_intr\<close>, and the device.\<close>

record 's vio =
  v_dev :: virtio_mmio_dev
  v_net :: virtio_net
  v_ns :: net_state
  v_nic :: "nic option"
  v_irqs :: "int list"
  v_hw :: 's

text \<open>A second device only causes a warning and takes the place of the first.\<close>

definition net_init :: "string \<Rightarrow> u8 list \<Rightarrow> int \<Rightarrow> nic option \<Rightarrow> nic option" where
  "net_init name mac mtu old = Some \<lparr>nic_name = name, nic_mac = take 6 mac, nic_mtu = mtu\<rparr>"

definition virtio_net_get_mac :: "virtio_net_config \<Rightarrow> u8 list" where
  "virtio_net_get_mac cfg = take 6 (cfg_mac cfg)"

definition net_features :: u64 where
  "net_features = push_bit VIRTIO_NET_F_MAC 1 OR push_bit VIRTIO_NET_F_STATUS 1 OR push_bit VIRTIO_NET_F_MTU 1"

text \<open>The results of \<^verbatim>\<open>virtq_reg_to_dev\<close> are not looked at.\<close>

definition virtio_net_probe :: "'s vbus \<Rightarrow> u64 \<Rightarrow> virtio_net_config \<Rightarrow> 's vio \<Rightarrow> (int \<times> 's vio) res" where
  "virtio_net_probe b pv cfg v =
     (let mtu = uint (cfg_mtu cfg); (r, s1) = vtmmio_negotiate b net_features (v_hw v)
      in if r < 0 then Inl (Panic ''failed negotiate'')
         else bind_res (virtq_create (zone (nheap (v_ns v))) 0) (\<lambda>(rx, z1). bind_res (virtq_create z1 1) (\<lambda>(tx, z2).
           let (_, dev1, s2) = virtq_reg_to_dev b pv (v_dev v) rx s1;
               (_, dev2, s3) = virtq_reg_to_dev b pv dev1 tx s2;
               ns1 = (v_ns v)\<lparr>nheap := (nheap (v_ns v))\<lparr>zone := z2\<rparr>\<rparr>
           in bind_res (fill_recv_queue pv \<lparr>vn_tx = tx, vn_rx = rx, n_rxbuf = 0, vn_notified = []\<rparr> ns1) (\<lambda>(net, ns2).
                let (r', s4) = vtmmio_driver_ok b s3
                in if r' < 0 then Inl (Panic ''driver ok'')
                   else Inr (0, v\<lparr>v_dev := dev2, v_net := net, v_ns := ns2, v_hw := s4,
                                  v_nic := net_init ''virtio-net'' (virtio_net_get_mac cfg) mtu (v_nic v)\<rparr>)))))"

text \<open>The interrupt handler: the queues' own handlers run in the order of the list.  Queue 0 receives, queue 1 transmits.\<close>

definition queue_intr :: "u64 \<Rightarrow> u8 list \<Rightarrow> int \<Rightarrow> virtio_net \<Rightarrow> net_state \<Rightarrow> ((u64 \<times> raw_msg) list \<times> virtio_net \<times> net_state) res" where
  "queue_intr pv mac q net ns =
     (if q = 0 then rxintr pv mac net ns
      else bind_res (txintr (vn_tx net) ns) (\<lambda>(tx, ns1). Inr ([], net\<lparr>vn_tx := tx\<rparr>, ns1)))"

fun queues_intr :: "u64 \<Rightarrow> u8 list \<Rightarrow> int list \<Rightarrow> virtio_net \<Rightarrow> net_state \<Rightarrow> ((u64 \<times> raw_msg) list \<times> virtio_net \<times> net_state) res" where
  "queues_intr pv mac [] net ns = Inr ([], net, ns)"
| "queues_intr pv mac (q # qs) net ns =
     bind_res (queue_intr pv mac q net ns) (\<lambda>(ms, net1, ns1).
       bind_res (queues_intr pv mac qs net1 ns1) (\<lambda>(ms', net2, ns2). Inr (ms @ ms', net2, ns2)))"

definition vtmmio_intr :: "'s vbus \<Rightarrow> u64 \<Rightarrow> u8 list \<Rightarrow> 's vio \<Rightarrow> ((u64 \<times> raw_msg) list \<times> 's vio) res" where
  "vtmmio_intr b pv mac v =
     (let (status, s1) = vtmmio_read b VIRTIO_MMIO_INTERRUPT_STATUS (v_hw v);
          v1 = v\<lparr>v_hw := vtmmio_write b VIRTIO_MMIO_INTERRUPT_ACK status s1\<rparr>
      in if status AND VIRTIO_MMIO_USED_BUFFER_NOTIFY \<noteq> 0
         then bind_res (queues_intr pv mac (vm_vqs (v_dev v)) (v_net v) (v_ns v)) (\<lambda>(ms, net, ns). Inr (ms, v1\<lparr>v_net := net, v_ns := ns\<rparr>))
         else Inr ([], v1))"

definition SIZEOF_VIRTIO_MMIO_DEV :: nat where "SIZEOF_VIRTIO_MMIO_DEV = 40"

text \<open>
  The status is kept in a byte between the reads and writes.  The object is not freed when the device turns out not
  to be one.
\<close>

definition status_step :: "'s vbus \<Rightarrow> u32 \<Rightarrow> 's \<Rightarrow> 's" where
  "status_step b flag s =
     (let (st, s1) = vtmmio_read b VIRTIO_MMIO_STATUS s
      in vtmmio_write b VIRTIO_MMIO_STATUS (ucast (ucast (st OR flag) :: u8)) s1)"

definition vtmmio_probe :: "'s vbus \<Rightarrow> u64 \<Rightarrow> virtio_net_config \<Rightarrow> int \<Rightarrow> 's vio \<Rightarrow> (int \<times> 's vio) res" where
  "vtmmio_probe b pv cfg intid v =
     bind_res (malloc (nheap (v_ns v)) SIZEOF_VIRTIO_MMIO_DEV) (\<lambda>(dev, hs).
       if dev = 0 then Inl (Undefined ''dev'')
       else
         let v1 = v\<lparr>v_dev := \<lparr>vm_intid = intid, vm_vqs = [], vm_dev_id = 0\<rparr>, v_ns := (v_ns v)\<lparr>nheap := hs\<rparr>\<rparr>;
             (magic, s1) = vtmmio_read b VIRTIO_MMIO_MAGICVALUE (v_hw v)
         in if magic \<noteq> VIRTIO_MAGIC then Inr (-1, v1\<lparr>v_hw := s1\<rparr>)
            else
              let (version, s2) = vtmmio_read b VIRTIO_MMIO_VERSION s1
              in if version \<noteq> 2 then Inr (-1, v1\<lparr>v_hw := s2\<rparr>)
                 else
                   let s3 = vtmmio_write b VIRTIO_MMIO_STATUS 0 s2;
                       s4 = status_step b DEV_STATUS_ACKNOWLEDGE s3;
                       s5 = status_step b DEV_STATUS_DRIVER s4;
                       (devid, s6) = vtmmio_read b VIRTIO_MMIO_DEVICE_ID s5;
                       v2 = v1\<lparr>v_dev := (v_dev v1)\<lparr>vm_dev_id := devid\<rparr>, v_hw := s6\<rparr>
                   in if devid = VIRTIO_DEV_NET
                      then virtio_net_probe b pv cfg (v2\<lparr>v_irqs := v_irqs v @ [intid]\<rparr>)
                      else Inr (-1, v2))"

text \<open>
  Initialisation from the device tree node \<open>k\<close>.  \<open>at\<close> gives the device whose registers are mapped at an
  address, with its configuration structure.
\<close>

definition vtmmio_dt_init ::
    "(u64 \<Rightarrow> 's vbus \<times> virtio_net_config) \<Rightarrow> image \<Rightarrow> u64 \<Rightarrow> dt \<Rightarrow> nat \<Rightarrow> io_state \<Rightarrow> 's vio \<Rightarrow> (int \<times> io_state \<times> 's vio) res" where
  "vtmmio_dt_init at im pv d k io v =
     bind_res (dt_node_prop_addr d k 0) (\<lambda>r. case r of
       None \<Rightarrow> Inr (-1, io, v)
     | Some (base, len) \<Rightarrow>
         bind_res (iomap im (io\<lparr>ioheap := nheap (v_ns v)\<rparr>) base len) (\<lambda>(vtbase, io1).
           let v1 = v\<lparr>v_ns := (v_ns v)\<lparr>nheap := ioheap io1\<rparr>\<rparr>
           in if vtbase = 0 then Inr (-1, io1, v1)
              else bind_res (dt_node_prop_intr d k 0) (\<lambda>ir. case ir of
                None \<Rightarrow> Inr (-1, io1, v1)
              | Some (intr, _) \<Rightarrow>
                  let (b, cfg) = at vtbase
                  in bind_res (vtmmio_probe b pv cfg intr v1) (\<lambda>(res, v2). Inr (res, io1, v2)))))"

section \<open>The device\<close>

text \<open>
  The registers of a virtio device as the standard describes them.  The device offers features, the driver accepts
  some of them, 32 bits at a time; the registers of a queue are those of the queue that is selected.  Writing 0 to
  the status resets the device; the bit \<^verbatim>\<open>FEATURES_OK\<close> only stays set if the features suit the device.
\<close>

record vq_regs =
  qr_max :: u32
  qr_num :: u32
  qr_ready :: u32
  qr_desc :: u64
  qr_driver :: u64
  qr_device :: u64

record virtio_regs =
  r_id :: u32
  r_offered :: u64
  r_accepted :: u64
  r_dsel :: u32
  r_gsel :: u32
  r_status :: u32
  r_qsel :: u32
  r_queue :: "u32 \<Rightarrow> vq_regs"

definition set_lo :: "u32 \<Rightarrow> u64 \<Rightarrow> u64" where "set_lo w a = (a AND NOT (mask 32)) OR ucast w"
definition set_hi :: "u32 \<Rightarrow> u64 \<Rightarrow> u64" where "set_hi w a = (a AND mask 32) OR push_bit 32 (ucast w)"

definition upd_queue :: "(vq_regs \<Rightarrow> vq_regs) \<Rightarrow> virtio_regs \<Rightarrow> virtio_regs" where
  "upd_queue f r = r\<lparr>r_queue := (r_queue r)(r_qsel r := f (r_queue r (r_qsel r)))\<rparr>"

definition regs_reset :: "virtio_regs \<Rightarrow> virtio_regs" where
  "regs_reset r = r\<lparr>r_accepted := 0, r_status := 0, r_queue := (\<lambda>q. (r_queue r q)\<lparr>qr_ready := 0\<rparr>)\<rparr>"

definition status_write :: "(u64 \<Rightarrow> bool) \<Rightarrow> u32 \<Rightarrow> virtio_regs \<Rightarrow> virtio_regs" where
  "status_write ok v r =
     (if v = 0 then regs_reset r
      else r\<lparr>r_status := (if ok (r_accepted r) then v else v AND NOT DEV_STATUS_FEATURES_OK)\<rparr>)"

definition regs_write :: "(u64 \<Rightarrow> bool) \<Rightarrow> u32 \<Rightarrow> u32 \<Rightarrow> virtio_regs \<Rightarrow> virtio_regs" where
  "regs_write ok off v r =
     (if off = VIRTIO_MMIO_DEVICE_FEATURES_SEL then r\<lparr>r_dsel := v\<rparr>
      else if off = VIRTIO_MMIO_DRIVER_FEATURES_SEL then r\<lparr>r_gsel := v\<rparr>
      else if off = VIRTIO_MMIO_DRIVER_FEATURES then
        (if r_gsel r = 0 then r\<lparr>r_accepted := set_lo v (r_accepted r)\<rparr>
         else if r_gsel r = 1 then r\<lparr>r_accepted := set_hi v (r_accepted r)\<rparr> else r)
      else if off = VIRTIO_MMIO_STATUS then status_write ok v r
      else if off = VIRTIO_MMIO_QUEUE_SEL then r\<lparr>r_qsel := v\<rparr>
      else if off = VIRTIO_MMIO_QUEUE_NUM then upd_queue (qr_num_update (\<lambda>_. v)) r
      else if off = VIRTIO_MMIO_QUEUE_READY then upd_queue (qr_ready_update (\<lambda>_. v)) r
      else if off = VIRTIO_MMIO_QUEUE_DESC_LOW then upd_queue (qr_desc_update (set_lo v)) r
      else if off = VIRTIO_MMIO_QUEUE_DESC_HIGH then upd_queue (qr_desc_update (set_hi v)) r
      else if off = VIRTIO_MMIO_QUEUE_DRIVER_LOW then upd_queue (qr_driver_update (set_lo v)) r
      else if off = VIRTIO_MMIO_QUEUE_DRIVER_HIGH then upd_queue (qr_driver_update (set_hi v)) r
      else if off = VIRTIO_MMIO_QUEUE_DEVICE_LOW then upd_queue (qr_device_update (set_lo v)) r
      else if off = VIRTIO_MMIO_QUEUE_DEVICE_HIGH then upd_queue (qr_device_update (set_hi v)) r
      else r)"

definition regs_read :: "u32 \<Rightarrow> virtio_regs \<Rightarrow> u32 option" where
  "regs_read off r =
     (if off = VIRTIO_MMIO_MAGICVALUE then Some VIRTIO_MAGIC
      else if off = VIRTIO_MMIO_VERSION then Some 2
      else if off = VIRTIO_MMIO_DEVICE_ID then Some (r_id r)
      else if off = VIRTIO_MMIO_DEVICE_FEATURES then
        Some (if r_dsel r = 0 then ucast (r_offered r) else if r_dsel r = 1 then ucast (drop_bit 32 (r_offered r)) else 0)
      else if off = VIRTIO_MMIO_STATUS then Some (r_status r)
      else if off = VIRTIO_MMIO_QUEUE_NUM_MAX then Some (qr_max (r_queue r (r_qsel r)))
      else None)"

text \<open>A device whose registers behave in this way; \<open>regs\<close> is what they say, \<open>ok\<close> the features that suit it.\<close>

definition virtio_device :: "'s vbus \<Rightarrow> ('s \<Rightarrow> virtio_regs) \<Rightarrow> (u64 \<Rightarrow> bool) \<Rightarrow> bool" where
  "virtio_device b regs ok \<longleftrightarrow>
     (\<forall>off s. regs (snd (rd b off s)) = regs s) \<and>
     (\<forall>off s. case regs_read off (regs s) of Some x \<Rightarrow> fst (rd b off s) = x | None \<Rightarrow> True) \<and>
     (\<forall>off v s. regs (wr b off v s) = regs_write ok off v (regs s))"

lemma device_laws:
  assumes "virtio_device b regs ok"
  shows "regs (snd (rd b off s)) = regs s" "regs (wr b off v s) = regs_write ok off v (regs s)"
    "regs_read off (regs s) = Some x \<Longrightarrow> fst (rd b off s) = x"
proof -
  show "regs (snd (rd b off s)) = regs s" "regs (wr b off v s) = regs_write ok off v (regs s)"
    using assms by (auto simp: virtio_device_def)
  have "case regs_read off (regs s) of Some x \<Rightarrow> fst (rd b off s) = x | None \<Rightarrow> True"
    using assms by (auto simp: virtio_device_def)
  then show "regs_read off (regs s) = Some x \<Longrightarrow> fst (rd b off s) = x" by simp
qed

text \<open>A 64-bit value that is written or read in two halves.\<close>

lemma low_half: "(0xffffffff :: u64) = mask 32"
  by (simp add: mask_eq_exp_minus_1)

lemma halves:
  "push_bit 32 (ucast (ucast (drop_bit 32 x) :: u32)) OR ucast (ucast x :: u32) = (x :: u64)"
  "set_lo (ucast x) (set_hi (ucast (drop_bit 32 x)) a) = x"
  "set_hi (HI x) (set_lo (LO x) a) = x"
  by (auto simp: set_lo_def set_hi_def LO_def HI_def low_half bit_simps bit_eq_iff)

section \<open>What the driver does to the device\<close>

text \<open>The registers the driver reads, one by one.\<close>

lemma device_reads:
  assumes "virtio_device b regs ok"
  shows "fst (rd b VIRTIO_MMIO_MAGICVALUE s) = VIRTIO_MAGIC" "fst (rd b VIRTIO_MMIO_VERSION s) = 2"
    "fst (rd b VIRTIO_MMIO_DEVICE_ID s) = r_id (regs s)" "fst (rd b VIRTIO_MMIO_STATUS s) = r_status (regs s)"
    "fst (rd b VIRTIO_MMIO_QUEUE_NUM_MAX s) = qr_max (r_queue (regs s) (r_qsel (regs s)))"
    "fst (rd b VIRTIO_MMIO_DEVICE_FEATURES s) =
       (if r_dsel (regs s) = 0 then ucast (r_offered (regs s))
        else if r_dsel (regs s) = 1 then ucast (drop_bit 32 (r_offered (regs s))) else 0)"
  by (rule device_laws(3) [OF assms], simp add: regs_read_def vtmmio_regs)+

lemma device_writes:
  assumes "virtio_device b regs ok"
  shows "regs (wr b VIRTIO_MMIO_DEVICE_FEATURES_SEL v s) = (regs s)\<lparr>r_dsel := v\<rparr>"
    "regs (wr b VIRTIO_MMIO_DRIVER_FEATURES_SEL v s) = (regs s)\<lparr>r_gsel := v\<rparr>"
    "regs (wr b VIRTIO_MMIO_DRIVER_FEATURES v s) =
       (if r_gsel (regs s) = 0 then (regs s)\<lparr>r_accepted := set_lo v (r_accepted (regs s))\<rparr>
        else if r_gsel (regs s) = 1 then (regs s)\<lparr>r_accepted := set_hi v (r_accepted (regs s))\<rparr> else regs s)"
    "regs (wr b VIRTIO_MMIO_STATUS v s) = status_write ok v (regs s)"
    "regs (wr b VIRTIO_MMIO_QUEUE_SEL v s) = (regs s)\<lparr>r_qsel := v\<rparr>"
    "regs (wr b VIRTIO_MMIO_QUEUE_NUM v s) = upd_queue (qr_num_update (\<lambda>_. v)) (regs s)"
    "regs (wr b VIRTIO_MMIO_QUEUE_READY v s) = upd_queue (qr_ready_update (\<lambda>_. v)) (regs s)"
    "regs (wr b VIRTIO_MMIO_QUEUE_DESC_LOW v s) = upd_queue (qr_desc_update (set_lo v)) (regs s)"
    "regs (wr b VIRTIO_MMIO_QUEUE_DESC_HIGH v s) = upd_queue (qr_desc_update (set_hi v)) (regs s)"
    "regs (wr b VIRTIO_MMIO_QUEUE_DRIVER_LOW v s) = upd_queue (qr_driver_update (set_lo v)) (regs s)"
    "regs (wr b VIRTIO_MMIO_QUEUE_DRIVER_HIGH v s) = upd_queue (qr_driver_update (set_hi v)) (regs s)"
    "regs (wr b VIRTIO_MMIO_QUEUE_DEVICE_LOW v s) = upd_queue (qr_device_update (set_lo v)) (regs s)"
    "regs (wr b VIRTIO_MMIO_QUEUE_DEVICE_HIGH v s) = upd_queue (qr_device_update (set_hi v)) (regs s)"
  by (simp_all only: device_laws(2) [OF assms] regs_write_def vtmmio_regs) simp_all

lemma or_nonzero: "(x :: u32) OR y = 0 \<longleftrightarrow> x = 0 \<and> y = 0"
  by (auto simp: bit_eq_iff bit_simps)

lemma negotiate_ok:
  assumes d: "virtio_device b regs ok" and a: "ok (f AND r_offered (regs s))"
  shows "fst (vtmmio_negotiate b f s) = 0"
    "regs (snd (vtmmio_negotiate b f s)) =
       (regs s)\<lparr>r_dsel := 0, r_gsel := 0, r_accepted := f AND r_offered (regs s), r_status := r_status (regs s) OR 8\<rparr>"
  using a
  by (simp_all add: vtmmio_negotiate_def vtmmio_read_def vtmmio_write_def Let_def split_beta device_reads [OF d]
      device_writes [OF d] device_laws(1) [OF d] halves status_write_def DEV_STATUS_FEATURES_OK_def or_nonzero
      bit.conj_disj_distrib2 del: drop_bit_and drop_bit_or)

lemma driver_ok_ok:
  assumes d: "virtio_device b regs ok" and a: "ok (r_accepted (regs s))"
  shows "fst (vtmmio_driver_ok b s) = 0" "regs (snd (vtmmio_driver_ok b s)) = (regs s)\<lparr>r_status := r_status (regs s) OR 4\<rparr>"
  using a
  by (simp_all add: vtmmio_driver_ok_def vtmmio_read_def vtmmio_write_def Let_def split_beta device_reads [OF d]
      device_writes [OF d] device_laws(1) [OF d] status_write_def DEV_STATUS_DRIVER_OK_def or_nonzero bit.conj_disj_distrib2)

lemma halves_comp: "set_hi (HI x) \<circ> set_lo (LO x) = (\<lambda>_. x)"
  by (rule ext) (simp add: halves)

text \<open>A queue that is ready: the device has the physical addresses of its three parts.\<close>

definition ready_queue :: "u64 \<Rightarrow> virtq \<Rightarrow> vq_regs \<Rightarrow> bool" where
  "ready_queue pv vq q \<longleftrightarrow> qr_ready q = 1 \<and> qr_num q = of_nat NQUEUE \<and> qr_desc q = virt2phys pv (p_desc vq) \<and>
     qr_driver q = virt2phys pv (p_avail vq) \<and> qr_device q = virt2phys pv (p_used vq)"

lemma set_virtq_ok:
  assumes d: "virtio_device b regs ok" and q: "int NQUEUE \<le> sint (qr_max (r_queue (regs s) (of_int q)))"
  shows "\<exists>s' qr. vtmmio_set_virtq b pv dev vq q s = (0, dev\<lparr>vm_vqs := q # vm_vqs dev\<rparr>, s') \<and> ready_queue pv vq qr \<and>
    qr_max qr = qr_max (r_queue (regs s) (of_int q)) \<and>
    regs s' = (regs s)\<lparr>r_qsel := of_int q, r_queue := (r_queue (regs s))(of_int q := qr)\<rparr>"
proof -
  let ?q = "(r_queue (regs s) (of_int q))\<lparr>qr_num := of_nat NQUEUE, qr_desc := virt2phys pv (p_desc vq),
    qr_driver := virt2phys pv (p_avail vq), qr_device := virt2phys pv (p_used vq), qr_ready := 1\<rparr>"
  obtain s' where "vtmmio_set_virtq b pv dev vq q s = (0, dev\<lparr>vm_vqs := q # vm_vqs dev\<rparr>, s')"
      "regs s' = (regs s)\<lparr>r_qsel := of_int q, r_queue := (r_queue (regs s))(of_int q := ?q)\<rparr>"
    using q
    by (simp add: vtmmio_set_virtq_def vtmmio_read_def vtmmio_write_def Let_def split_beta device_reads [OF d]
        device_writes [OF d] device_laws(1) [OF d] upd_queue_def halves_comp vtmmio_vqlist_add_def)
  then show ?thesis by (intro exI [of _ s'] exI [of _ ?q]) (simp add: ready_queue_def)
qed

section \<open>Memory for the queues\<close>

lemma page_room:
  assumes "heap_view hs A L D" "n + PAGESIZE \<le> card A"
  shows "\<exists>p z. alloc_page (zone hs) = Inr (p, z) \<and> p \<noteq> 0 \<and> heap_view (hs\<lparr>zone := z\<rparr>) (A - block p 0) L (D \<union> block p 0) \<and>
    n \<le> card (A - block p 0)"
proof -
  obtain p h where "heap_page hs = Inr (p, h)" "p \<noteq> 0" "heap_view h (A - block p 0) L (D \<union> block p 0)" "n \<le> card (A - block p 0)"
    using oh.one_page_more [OF assms] by blast
  then show ?thesis by (auto simp: heap_page_def bind_res_eq_Inr)
qed

lemma virtq_create_room:
  assumes "heap_view hs A L D" "n + 4 * PAGESIZE \<le> card A"
  shows "\<exists>vq z A' D'. virtq_create (zone hs) q = Inr (vq, z) \<and> vq_sel vq = q \<and>
    heap_view (hs\<lparr>zone := z\<rparr>) A' L D' \<and> n \<le> card A'"
proof -
  obtain p0 z0 A0 D0 where 0: "alloc_page (zone hs) = Inr (p0, z0)" "p0 \<noteq> 0" "heap_view (hs\<lparr>zone := z0\<rparr>) A0 L D0" "n + 3 * PAGESIZE \<le> card A0"
    using page_room [OF assms(1), of "n + 3 * PAGESIZE"] assms(2) by auto
  obtain p1 z1 A1 D1 where 1: "alloc_page z0 = Inr (p1, z1)" "p1 \<noteq> 0" "heap_view (hs\<lparr>zone := z1\<rparr>) A1 L D1" "n + 2 * PAGESIZE \<le> card A1"
    using page_room [OF 0(3), of "n + 2 * PAGESIZE"] 0(4) by auto
  obtain p2 z2 A2 D2 where 2: "alloc_page z1 = Inr (p2, z2)" "heap_view (hs\<lparr>zone := z2\<rparr>) A2 L D2" "n + PAGESIZE \<le> card A2"
    using page_room [OF 1(3), of "n + PAGESIZE"] 1(4) by auto
  obtain p3 z3 A3 D3 where "alloc_page z2 = Inr (p3, z3)" "heap_view (hs\<lparr>zone := z3\<rparr>) A3 L D3" "n \<le> card A3"
    using page_room [OF 2(2), of n] 2(3) by auto
  with 0 1 2 show ?thesis by (simp add: virtq_create_def) blast
qed

text \<open>Enqueuing does not move the queue.\<close>

lemma enqueue_place:
  "virtq_enqueue pv vq qs x inn = Inr vq' \<Longrightarrow> p_desc vq' = p_desc vq \<and> p_avail vq' = p_avail vq \<and> p_used vq' = p_used vq"
  by (auto simp: virtq_enqueue_def Let_def bind_res_eq_Inr split: if_splits)

lemma fill_recv_queue_place:
  "fill_recv_queue pv dev ns = Inr (dev', ns') \<Longrightarrow>
     vn_tx dev' = vn_tx dev \<and> ready_queue pv (vn_rx dev') qr = ready_queue pv (vn_rx dev) qr"
proof (induction pv dev ns rule: fill_recv_queue.induct)
  case (1 pv dev ns)
  show ?case
  proof (cases "n_rxbuf dev < of_nat (NQUEUE div 2)")
    case True
    with "1.prems" show ?thesis
      by (subst (asm) fill_recv_queue.simps)
         (auto simp: bind_res_eq_Inr Let_def virtq_enqueue_in_def ready_queue_def split: if_splits dest!: "1.IH" enqueue_place)
  next
    case False
    with "1.prems" show ?thesis by (subst (asm) fill_recv_queue.simps) simp
  qed
qed

section \<open>The probe\<close>

definition net_ready :: "('s \<Rightarrow> virtio_regs) \<Rightarrow> u64 \<Rightarrow> u64 \<Rightarrow> virtio_net_config \<Rightarrow> 's vio \<Rightarrow> bool" where
  "net_ready regs offered pv cfg v \<longleftrightarrow>
     r_status (regs (v_hw v)) =
       DEV_STATUS_ACKNOWLEDGE OR DEV_STATUS_DRIVER OR DEV_STATUS_FEATURES_OK OR DEV_STATUS_DRIVER_OK \<and>
     r_accepted (regs (v_hw v)) = net_features AND offered \<and>
     ready_queue pv (vn_rx (v_net v)) (r_queue (regs (v_hw v)) 0) \<and>
     ready_queue pv (vn_tx (v_net v)) (r_queue (regs (v_hw v)) 1) \<and>
     vm_vqs (v_dev v) = [1, 0] \<and>
     v_nic v = Some \<lparr>nic_name = ''virtio-net'', nic_mac = take 6 (cfg_mac cfg), nic_mtu = uint (cfg_mtu cfg)\<rparr> \<and>
     (\<exists>busy. rx_ok pv (v_net v) busy [] \<and> length busy = 128)"

text \<open>A device that the driver can use: a network card with queues of 256 entries that accepts the features.\<close>

definition usable :: "(u64 \<Rightarrow> bool) \<Rightarrow> virtio_regs \<Rightarrow> bool" where
  "usable ok r \<longleftrightarrow> r_id r = VIRTIO_DEV_NET \<and> ok (net_features AND r_offered r) \<and>
     int NQUEUE \<le> sint (qr_max (r_queue r 0)) \<and> int NQUEUE \<le> sint (qr_max (r_queue r 1))"

lemma new_rx_ok:
  assumes "virtq_create z q = Inr (rx, z')"
  shows "rx_ok pv \<lparr>vn_tx = tx, vn_rx = rx, n_rxbuf = 0, vn_notified = []\<rparr> [] []"
  using vq_run_inv [OF vq_run.create [OF assms]] by (simp add: rx_ok_def)

lemma virtio_net_probe_ready:
  assumes d: "virtio_device b regs ok" and u: "usable ok (regs (v_hw v))" and st: "r_status (regs (v_hw v)) = 3"
    and hv: "heap_view (nheap (v_ns v)) A L D" and room: "392 * PAGESIZE \<le> card A" and qs: "vm_vqs (v_dev v) = []"
  shows "\<exists>v'. virtio_net_probe b pv cfg v = Inr (0, v') \<and> net_ready regs (r_offered (regs (v_hw v))) pv cfg v' \<and> v_irqs v' = v_irqs v"
proof -
  obtain s1 where n: "vtmmio_negotiate b net_features (v_hw v) = (0, s1)"
      "regs s1 = (regs (v_hw v))\<lparr>r_dsel := 0, r_gsel := 0, r_accepted := net_features AND r_offered (regs (v_hw v)), r_status := 11\<rparr>"
    using negotiate_ok [OF d, of net_features "v_hw v"] u st by (cases "vtmmio_negotiate b net_features (v_hw v)") (auto simp: usable_def)
  obtain rx z1 A1 D1 where rx: "virtq_create (zone (nheap (v_ns v))) 0 = Inr (rx, z1)" "vq_sel rx = 0"
      "heap_view ((nheap (v_ns v))\<lparr>zone := z1\<rparr>) A1 L D1" "388 * PAGESIZE \<le> card A1"
    using virtq_create_room [OF hv, of "388 * PAGESIZE" 0] room by auto
  obtain tx z2 A2 D2 where tx: "virtq_create z1 1 = Inr (tx, z2)" "vq_sel tx = 1"
      "heap_view ((nheap (v_ns v))\<lparr>zone := z2\<rparr>) A2 L D2" "384 * PAGESIZE \<le> card A2"
    using virtq_create_room [OF rx(3), of "384 * PAGESIZE" 1] rx(4) by auto
  obtain s2 q0 where q0: "virtq_reg_to_dev b pv (v_dev v) rx s1 = (0, (v_dev v)\<lparr>vm_vqs := [0]\<rparr>, s2)" "ready_queue pv rx q0"
      "regs s2 = (regs s1)\<lparr>r_qsel := 0, r_queue := (r_queue (regs s1))(0 := q0)\<rparr>"
    using set_virtq_ok [OF d, where q = 0 and s = s1 and vq = rx and dev = "v_dev v" and pv = pv] u n(2) rx(2) qs
    by (auto simp: virtq_reg_to_dev_def usable_def)
  obtain s3 q1 where q1: "virtq_reg_to_dev b pv ((v_dev v)\<lparr>vm_vqs := [0]\<rparr>) tx s2 = (0, (v_dev v)\<lparr>vm_vqs := [1, 0]\<rparr>, s3)"
      "ready_queue pv tx q1" "regs s3 = (regs s2)\<lparr>r_qsel := 1, r_queue := (r_queue (regs s2))(1 := q1)\<rparr>"
    using set_virtq_ok [OF d, where q = 1 and s = s2 and vq = tx and dev = "(v_dev v)\<lparr>vm_vqs := [0]\<rparr>" and pv = pv] u n(2) q0(3) tx(2)
    by (auto simp: virtq_reg_to_dev_def usable_def)
  let ?net = "\<lparr>vn_tx = tx, vn_rx = rx, n_rxbuf = 0, vn_notified = []\<rparr>"
  let ?ns = "(v_ns v)\<lparr>nheap := (nheap (v_ns v))\<lparr>zone := z2\<rparr>\<rparr>"
  obtain net ns busy where f: "fill_recv_queue pv ?net ?ns = Inr (net, ns)" "rx_ok pv net busy []" "length busy = 128"
    using fill_recv_queue_fills [OF new_rx_ok [OF rx(1), of pv tx], of ?ns A2 L D2] tx(3,4) by auto
  obtain s4 where k: "vtmmio_driver_ok b s3 = (0, s4)" "regs s4 = (regs s3)\<lparr>r_status := r_status (regs s3) OR 4\<rparr>"
    using driver_ok_ok [OF d, of s3] u n(2) q0(3) q1(3) by (cases "vtmmio_driver_ok b s3") (auto simp: usable_def)
  have w: "(0 :: u32) \<noteq> 1" by simp
  have "ready_queue pv (vn_rx net) q0" "vn_tx net = tx" using fill_recv_queue_place [OF f(1)] q0(2) by auto
  then have "net_ready regs (r_offered (regs (v_hw v))) pv cfg (v\<lparr>v_dev := (v_dev v)\<lparr>vm_vqs := [1, 0]\<rparr>, v_net := net, v_ns := ns, v_hw := s4,
      v_nic := net_init ''virtio-net'' (virtio_net_get_mac cfg) (uint (cfg_mtu cfg)) (v_nic v)\<rparr>)"
    using f(2,3) q1(2) k(2) q1(3) q0(3) n(2)
    by (auto simp: net_ready_def net_init_def virtio_net_get_mac_def DEV_STATUS_ACKNOWLEDGE_def DEV_STATUS_DRIVER_def
        DEV_STATUS_FEATURES_OK_def DEV_STATUS_DRIVER_OK_def)
  then show ?thesis using n(1) rx(1) tx(1) q0(1) q1(1) f(1) k(1)
    by (simp add: virtio_net_probe_def Let_def)
qed

lemma status_step_ok:
  assumes d: "virtio_device b regs ok" and f: "(r_status (regs s) OR flag) AND NOT 0xff = 0" "(r_status (regs s) OR flag) AND 8 = 0" "flag \<noteq> 0"
  shows "regs (status_step b flag s) = (regs s)\<lparr>r_status := r_status (regs s) OR flag\<rparr>"
proof -
  let ?x = "r_status (regs s) OR flag"
  have "ucast (ucast ?x :: u8) = ?x AND mask 8" by (auto simp: bit_eq_iff bit_simps)
  also have "... = ?x" using f(1) by (auto simp: bit_eq_iff bit_simps mask_eq_exp_minus_1)
  finally have x: "ucast (ucast ?x :: u8) = ?x" .
  have "?x AND NOT 8 = ?x" using f(2) by (auto simp: bit_eq_iff bit_simps)
  then show ?thesis using x f(3)
    by (simp add: status_step_def vtmmio_read_def vtmmio_write_def Let_def split_beta device_reads [OF d] device_writes [OF d]
        device_laws(1) [OF d] status_write_def DEV_STATUS_FEATURES_OK_def or_nonzero del: word_not_simps)
qed

lemma reset_ok:
  assumes d: "virtio_device b regs ok"
  shows "regs (status_step b DEV_STATUS_DRIVER (status_step b DEV_STATUS_ACKNOWLEDGE (vtmmio_write b VIRTIO_MMIO_STATUS 0 s))) =
    (regs_reset (regs s))\<lparr>r_status := 3\<rparr>"
proof -
  let ?s = "vtmmio_write b VIRTIO_MMIO_STATUS 0 s"
  have 0: "regs ?s = regs_reset (regs s)" by (simp add: vtmmio_write_def device_writes [OF d] status_write_def)
  have 1: "regs (status_step b DEV_STATUS_ACKNOWLEDGE ?s) = (regs_reset (regs s))\<lparr>r_status := 1\<rparr>"
    using status_step_ok [OF d, of ?s DEV_STATUS_ACKNOWLEDGE] 0 by (simp add: regs_reset_def DEV_STATUS_ACKNOWLEDGE_def)
  show ?thesis
    using status_step_ok [OF d, of "status_step b DEV_STATUS_ACKNOWLEDGE ?s" DEV_STATUS_DRIVER] 1
    by (simp add: regs_reset_def DEV_STATUS_DRIVER_def)
qed


text \<open>A device with the registers of the standard, as an example.\<close>

definition example_device :: "virtio_regs vbus" where
  "example_device = \<lparr>rd = (\<lambda>off r. (case regs_read off r of Some x \<Rightarrow> x | None \<Rightarrow> 0, r)), wr = regs_write (\<lambda>_. True)\<rparr>"

definition example_regs :: virtio_regs where
  "example_regs = \<lparr>r_id = 1, r_offered = 0x100010028, r_accepted = 0, r_dsel = 0, r_gsel = 0, r_status = 0, r_qsel = 0,
     r_queue = (\<lambda>_. \<lparr>qr_max = 1024, qr_num = 0, qr_ready = 0, qr_desc = 0, qr_driver = 0, qr_device = 0\<rparr>)\<rparr>"

definition example_vio :: "virtq \<Rightarrow> virtio_regs vio" where
  "example_vio q = \<lparr>v_dev = \<lparr>vm_intid = 0, vm_vqs = [], vm_dev_id = 0\<rparr>,
     v_net = \<lparr>vn_tx = q, vn_rx = q, n_rxbuf = 0, vn_notified = []\<rparr>, v_ns = fresh_net, v_nic = None, v_irqs = [], v_hw = example_regs\<rparr>"


end
