(* ===== verification/Gic_Init.thy ===== *)
theory Gic_Init
  imports Gic_Drivers Device_Bus Device_Tree Boot_Map
begin

text \<open>
  The start of the interrupt controllers: the initialisation functions of \<^verbatim>\<open>drivers/gicv2.c\<close> and
  \<^verbatim>\<open>drivers/gicv3.c\<close>, the queries that read a register of the distributor, and the choice of the controller
  in \<^verbatim>\<open>drivers/irqchip.c\<close>.  The controller is an argument with the registers of \<open>gic_reg\<close>; the system registers
  and the redistributor are those of the processor that runs the code.  Waiting for the controller is limited
  to a number of reads.
\<close>

type_synonym 's gbus = "(gic_reg, u64, 's) bus"

definition GICD_CTLR :: gic_reg where "GICD_CTLR = GICD 0x0"
definition GICD_TYPER :: gic_reg where "GICD_TYPER = GICD 0x4"
definition GICD_IGROUPR :: "nat \<Rightarrow> gic_reg" where "GICD_IGROUPR n = GICD (0x080 + of_nat n * 4)"
definition GICD_ISENABLER :: "nat \<Rightarrow> gic_reg" where "GICD_ISENABLER n = GICD (0x100 + of_nat n * 4)"
definition GICD_ICENABLER :: "nat \<Rightarrow> gic_reg" where "GICD_ICENABLER n = GICD (0x180 + of_nat n * 4)"
definition GICD_ISPENDR :: "nat \<Rightarrow> gic_reg" where "GICD_ISPENDR n = GICD (0x200 + of_nat n * 4)"
definition GICD_ICACTIVER :: "nat \<Rightarrow> gic_reg" where "GICD_ICACTIVER n = GICD (0x380 + of_nat n * 4)"
definition GICD_ITARGETSR :: "nat \<Rightarrow> gic_reg" where "GICD_ITARGETSR n = GICD (0x800 + of_nat n * 4)"
definition GICD_PIDR2 :: gic_reg where "GICD_PIDR2 = GICD 0xffe8"
definition GICD_PIDR2_ArchRev :: "u32 \<Rightarrow> u32" where "GICD_PIDR2_ArchRev pidr2 = drop_bit 4 pidr2 AND 0xf"
definition GICD_CTLR_RWP :: u32 where "GICD_CTLR_RWP = push_bit 31 1"
definition GICD_CTLR_DS :: u32 where "GICD_CTLR_DS = push_bit 6 1"

text \<open>The registers in memory are accessed with 32-bit loads and stores.\<close>

definition reg_r32 :: "'s gbus \<Rightarrow> gic_reg \<Rightarrow> 's \<Rightarrow> u32 \<times> 's" where
  "reg_r32 b r s = (let (v, s1) = rd b r s in (ucast v, s1))"

definition reg_w32 :: "'s gbus \<Rightarrow> gic_reg \<Rightarrow> u32 \<Rightarrow> 's \<Rightarrow> 's" where
  "reg_w32 b r v s = wr b r (ucast v) s"

datatype irqchip = Gicv2 | Gicv3

text \<open>
  The variables of the drivers: the fields \<^verbatim>\<open>nirqs\<close> and \<^verbatim>\<open>max_lr\<close> of the chip, the base address that the
  virtual GICv2 needs, and the chip the node uses.
\<close>

record 's gic_start =
  gs_hw :: 's
  gs_io :: io_state
  gs_nirqs :: nat
  gs_max_lr :: nat
  gs_host_vbase :: "u64 option"
  gs_irqchip :: "irqchip option"

section \<open>Queries\<close>

definition bit_of :: "u32 \<Rightarrow> nat \<Rightarrow> bool" where "bit_of w n \<longleftrightarrow> w AND push_bit n 1 \<noteq> 0"

definition gicv2_irq_pending :: "'s gbus \<Rightarrow> nat \<Rightarrow> 's \<Rightarrow> bool \<times> 's" where
  "gicv2_irq_pending b irq s = (let (is, s1) = reg_r32 b (GICD_ISPENDR (irq div 32)) s in (bit_of is (irq mod 32), s1))"

definition gicv2_get_target :: "'s gbus \<Rightarrow> nat \<Rightarrow> 's \<Rightarrow> u32 \<times> 's" where
  "gicv2_get_target b irq s =
     (let (itargetsr, s1) = reg_r32 b (GICD_ITARGETSR (irq div 4)) s in (drop_bit (irq mod 4 * 8) itargetsr AND 0xff, s1))"

definition gicv3_irq_pending :: "'s gbus \<Rightarrow> nat \<Rightarrow> nat \<Rightarrow> 's \<Rightarrow> (bool \<times> 's) res" where
  "gicv3_irq_pending b cpu irq s =
     (if is_sgi_ppi (int irq) then let (is, s1) = reg_r32 b (GICR cpu 0x10200) s in Inr (bit_of is irq, s1)
      else if is_spi (int irq) then let (is, s1) = reg_r32 b (GICD_ISPENDR (irq div 32)) s in Inr (bit_of is (irq mod 32), s1)
      else Inl (Panic ''GICv3: unknown irq''))"

definition gicv3_irq_enabled :: "'s gbus \<Rightarrow> nat \<Rightarrow> nat \<Rightarrow> 's \<Rightarrow> (bool \<times> 's) res" where
  "gicv3_irq_enabled b cpu irq s =
     (if is_sgi_ppi (int irq) then let (is, s1) = reg_r32 b (GICR cpu 0x10100) s in Inr (bit_of is irq, s1)
      else if is_spi (int irq) then let (is, s1) = reg_r32 b (GICD_ISENABLER (irq div 32)) s in Inr (bit_of is (irq mod 32), s1)
      else Inl (Panic ''GICv3: unknown irq''))"

section \<open>GICv2\<close>

text \<open>
  The loop over the group registers, \<^verbatim>\<open>for(i = 0; i < nirqs; i += 4)\<close>, which writes \<^verbatim>\<open>GICD_IGROUPR(i / 4)\<close>.
\<close>

function group_loop :: "'s gbus \<Rightarrow> u32 \<Rightarrow> nat \<Rightarrow> nat \<Rightarrow> 's \<Rightarrow> 's" where
  "group_loop b v n i s = (if i < n then group_loop b v n (i + 4) (reg_w32 b (GICD_IGROUPR (i div 4)) v s) else s)"
  by pat_completeness auto
termination by (relation "measure (\<lambda>(b, v, n, i, s). n - i)") auto

declare group_loop.simps [simp del]

definition nirqs_of :: "u32 \<Rightarrow> nat" where
  "nirqs_of typer = 32 * (unat (typer AND 0x1f) + 1)"

definition gicv2_h_init :: "'s gbus \<Rightarrow> 's gic_start \<Rightarrow> 's gic_start" where
  "gicv2_h_init b g =
     (let (vtr, s1) = reg_r32 b (GICH 0x4) (gs_hw g)
      in g\<lparr>gs_max_lr := unat (vtr AND 0x3f), gs_hw := reg_w32 b (GICH 0x0) 1 s1\<rparr>)"

definition gicv2_c_init :: "'s gbus \<Rightarrow> 's \<Rightarrow> 's" where
  "gicv2_c_init b s =
     (let s1 = reg_w32 b (GICD_ICACTIVER 0) 0xffffffff s;
          s2 = reg_w32 b (GICD_ICENABLER 0) 0xffff0000 s1;
          s3 = reg_w32 b (GICD_ISENABLER 0) 0x0000ffff s2;
          s4 = reg_w32 b (GICC 0x4) 0xff s3;
          s5 = reg_w32 b (GICC 0x8) 0 s4
      in reg_w32 b (GICC 0x0) (1 OR push_bit 9 1) s5)"

definition gicv2_d_init :: "'s gbus \<Rightarrow> 's gic_start \<Rightarrow> 's gic_start" where
  "gicv2_d_init b g =
     (let s1 = reg_w32 b GICD_CTLR 0 (gs_hw g);
          (typer, s2) = reg_r32 b GICD_TYPER s1;
          n = nirqs_of typer;
          s3 = group_loop b 0 n 0 s2
      in g\<lparr>gs_nirqs := (if n < 1020 then n else 1020), gs_hw := reg_w32 b GICD_CTLR 1 s3\<rparr>)"

definition gicv2_init_cpu :: "'s gbus \<Rightarrow> 's gic_start \<Rightarrow> 's gic_start" where
  "gicv2_init_cpu b g = gicv2_h_init b (g\<lparr>gs_hw := gicv2_c_init b (gs_hw g)\<rparr>)"

section \<open>GICv3\<close>

definition gicv3_c_init :: "'s gbus \<Rightarrow> 's \<Rightarrow> 's" where
  "gicv3_c_init b s =
     (let s1 = wr b (SYSREG ''icc_igrpen0_el1'') 0 s;
          s2 = wr b (SYSREG ''icc_igrpen1_el1'') 0 s1;
          s3 = wr b (SYSREG ''icc_pmr_el1'') 0xff s2;
          s4 = wr b (SYSREG ''icc_ctlr_el1'') (push_bit 1 1) s3
      in wr b (SYSREG ''icc_igrpen1_el1'') 1 s4)"

definition gicv3_d_wait_for_rwp :: "'s gbus \<Rightarrow> nat \<Rightarrow> 's \<Rightarrow> 's res" where
  "gicv3_d_wait_for_rwp b fuel s = poll b GICD_CTLR (\<lambda>v. ucast v AND GICD_CTLR_RWP \<noteq> 0) fuel s"

definition security_disabled :: "'s gbus \<Rightarrow> 's \<Rightarrow> bool \<times> 's" where
  "security_disabled b s = (let (v, s1) = reg_r32 b GICD_CTLR s in (v AND GICD_CTLR_DS \<noteq> 0, s1))"

definition gicv3_d_init :: "'s gbus \<Rightarrow> nat \<Rightarrow> 's gic_start \<Rightarrow> 's gic_start res" where
  "gicv3_d_init b fuel g =
     bind_res (gicv3_d_wait_for_rwp b fuel (reg_w32 b GICD_CTLR 0 (gs_hw g))) (\<lambda>s1.
       let (pidr2, s2) = reg_r32 b GICD_PIDR2 s1
       in if GICD_PIDR2_ArchRev pidr2 \<noteq> 3 then Inl (Panic ''gicv3?'')
          else
            let (_, s3) = security_disabled b s2;
                (typer, s4) = reg_r32 b GICD_TYPER s3;
                n = nirqs_of typer;
                s5 = group_loop b 0xffffffff n 0 s4
            in bind_res (gicv3_d_wait_for_rwp b fuel (reg_w32 b GICD_CTLR (1 OR push_bit 1 1 OR push_bit 4 1) s5)) (\<lambda>s6.
                 Inr (g\<lparr>gs_nirqs := (if n < 1020 then n else 1020), gs_hw := s6\<rparr>)))"

definition gicv3_r_init :: "'s gbus \<Rightarrow> nat \<Rightarrow> nat \<Rightarrow> 's \<Rightarrow> 's res" where
  "gicv3_r_init b fuel cpu s =
     (let s1 = reg_w32 b (GICR cpu 0x0) 0 s;
          (sre, s2) = rd b (SYSREG ''icc_sre_el2'') s1;
          s3 = wr b (SYSREG ''icc_sre_el2'') (ucast (ucast sre OR push_bit 3 1 OR 1 :: u32)) s2;
          (sre', s4) = rd b (SYSREG ''icc_sre_el1'') s3;
          s5 = wr b (SYSREG ''icc_sre_el1'') (ucast (ucast sre' OR 1 :: u32)) s4;
          s6 = reg_w32 b (GICR cpu 0x10080) 0xffffffff s5;
          s7 = reg_w32 b (GICR cpu 0x10d00) 0 s6;
          s8 = reg_w32 b (GICR cpu 0x10380) 0xffffffff s7;
          s9 = reg_w32 b (GICR cpu 0x10180) 0xffff0000 s8;
          s10 = reg_w32 b (GICR cpu 0x10100) 0x0000ffff s9;
          (waker, s11) = reg_r32 b (GICR cpu 0x14) s10;
          s12 = reg_w32 b (GICR cpu 0x14) (waker AND NOT (push_bit 1 1)) s11
      in poll b (GICR cpu 0x14) (\<lambda>v. ucast v AND (push_bit 2 1 :: u32) \<noteq> 0) fuel s12)"

definition gicv3_h_init :: "'s gbus \<Rightarrow> 's gic_start \<Rightarrow> 's gic_start" where
  "gicv3_h_init b g =
     (let (i, s1) = rd b (SYSREG ''ich_vtr_el2'') (gs_hw g);
          s2 = wr b (SYSREG ''ich_vmcr_el2'') (push_bit 1 1) s1
      in g\<lparr>gs_max_lr := unat (i AND 0x1f), gs_hw := wr b (SYSREG ''ich_hcr_el2'') 1 s2\<rparr>)"

definition gicv3_init_cpu :: "'s gbus \<Rightarrow> nat \<Rightarrow> nat \<Rightarrow> 's gic_start \<Rightarrow> 's gic_start res" where
  "gicv3_init_cpu b fuel cpu g =
     bind_res (gicv3_r_init b fuel cpu (gicv3_c_init b (gs_hw g))) (\<lambda>s. Inr (gicv3_h_init b (g\<lparr>gs_hw := s\<rparr>)))"

section \<open>Choice of the controller\<close>

text \<open>
  The registers of a controller are mapped one area after the other; \<open>Inr None\<close> is the return of -1.  Addresses are
  all read from the device tree before the first area is mapped.
\<close>

fun node_addrs :: "dt \<Rightarrow> nat \<Rightarrow> u32 list \<Rightarrow> (u64 \<times> u64) list option res" where
  "node_addrs d k [] = Inr (Some [])"
| "node_addrs d k (i # is) =
     bind_res (dt_node_prop_addr d k i) (\<lambda>r. case r of
       None \<Rightarrow> Inr None
     | Some a \<Rightarrow> bind_res (node_addrs d k is) (\<lambda>rs. Inr (case rs of None \<Rightarrow> None | Some as \<Rightarrow> Some (a # as))))"

fun map_areas :: "image \<Rightarrow> (u64 \<times> u64) list \<Rightarrow> io_state \<Rightarrow> (bool \<times> io_state) res" where
  "map_areas im [] io = Inr (True, io)"
| "map_areas im ((base, len) # as) io =
     bind_res (iomap im io base len) (\<lambda>(va, io1). if va = 0 then Inr (False, io1) else map_areas im as io1)"

definition gicv2_dt_init :: "'s gbus \<Rightarrow> image \<Rightarrow> dt \<Rightarrow> nat \<Rightarrow> 's gic_start \<Rightarrow> (int \<times> 's gic_start) res" where
  "gicv2_dt_init b im d k g =
     bind_res (node_addrs d k [0, 1, 2, 3]) (\<lambda>r. case r of
       None \<Rightarrow> Inr (-1, g)
     | Some as \<Rightarrow> bind_res (map_areas im as (gs_io g)) (\<lambda>(mapped, io1).
         let g1 = g\<lparr>gs_io := io1\<rparr>
         in if \<not> mapped then Inr (-1, g1)
            else
              let g2 = gicv2_h_init b (gicv2_d_init b g1)
              in Inr (0, g2\<lparr>gs_host_vbase := Some (fst (as ! 3)), gs_irqchip := Some Gicv2\<rparr>)))"

definition gicv3_dt_init :: "'s gbus \<Rightarrow> nat \<Rightarrow> image \<Rightarrow> dt \<Rightarrow> nat \<Rightarrow> 's gic_start \<Rightarrow> (int \<times> 's gic_start) res" where
  "gicv3_dt_init b fuel im d k g =
     bind_res (node_addrs d k [0, 1]) (\<lambda>r. case r of
       None \<Rightarrow> Inr (-1, g)
     | Some as \<Rightarrow> bind_res (map_areas im as (gs_io g)) (\<lambda>(mapped, io1).
         let g1 = g\<lparr>gs_io := io1\<rparr>
         in if \<not> mapped then Inr (-1, g1)
            else bind_res (gicv3_d_init b fuel g1) (\<lambda>g2. Inr (0, (gicv3_h_init b g2)\<lparr>gs_irqchip := Some Gicv3\<rparr>))))"

text \<open>\<open>impl\<close> tells, for every operation that the check looks at, whether the chip has it.\<close>

definition gic_irqchip_check :: "nat \<Rightarrow> bool list \<Rightarrow> unit res" where
  "gic_irqchip_check version impl =
     (if version \<noteq> 2 \<and> version \<noteq> 3 then Inl (Panic ''GIC?'')
      else if \<not> list_all (\<lambda>x. x) impl then Inl (Panic ''irqchip: features incomplete'')
      else Inr ())"

definition chip_ops :: "irqchip \<Rightarrow> nat \<times> bool list" where
  "chip_ops c = (case c of Gicv2 \<Rightarrow> (2, replicate 12 True) | Gicv3 \<Rightarrow> (3, replicate 12 True))"

text \<open>
  The first controller of the device tree that a driver knows and that is marked as one; \<open>start\<close> runs the
  initialisation function of a driver.  Its result is not looked at, and no other controller is tried.
\<close>

fun irqchip_loop ::
    "dt \<Rightarrow> nat option \<Rightarrow> 'i dt_device list \<Rightarrow> ('i \<Rightarrow> nat \<Rightarrow> 's gic_start \<Rightarrow> (int \<times> 's gic_start) res) \<Rightarrow> nat \<Rightarrow> nat option \<Rightarrow>
       's gic_start \<Rightarrow> 's gic_start res" where
  "irqchip_loop d root table start 0 prev g = Inl (Hang ''irqchip_init'')"
| "irqchip_loop d root table start (Suc fuel) prev g =
     bind_res (next_match_node d root table prev) (\<lambda>r. case r of
       None \<Rightarrow> Inl (Panic ''no compatible irqchip'')
     | Some (k, dev) \<Rightarrow>
         bind_res (dt_node_propb d k (lit ''interrupt-controller'')) (\<lambda>ic.
           case (ic, init dev) of
             (True, Some i) \<Rightarrow> bind_res (start i k g) (\<lambda>(_, g1). Inr g1)
           | _ \<Rightarrow> irqchip_loop d root table start fuel (Some k) g))"

definition irqchip_init ::
    "dt \<Rightarrow> nat option \<Rightarrow> 'i dt_device list \<Rightarrow> ('i \<Rightarrow> nat \<Rightarrow> 's gic_start \<Rightarrow> (int \<times> 's gic_start) res) \<Rightarrow> 's gic_start \<Rightarrow> 's gic_start res" where
  "irqchip_init d root table start g =
     bind_res (irqchip_loop d root table start (length (nodes d) + 1) None g) (\<lambda>g1.
       case gs_irqchip g1 of
         None \<Rightarrow> Inl (Panic ''no irqchip'')
       | Some c \<Rightarrow> bind_res (gic_irqchip_check (fst (chip_ops c)) (snd (chip_ops c))) (\<lambda>_. Inr g1))"

definition irqchip_init_core :: "'s gbus \<Rightarrow> nat \<Rightarrow> nat \<Rightarrow> 's gic_start \<Rightarrow> 's gic_start res" where
  "irqchip_init_core b fuel cpu g =
     (case gs_irqchip g of
        None \<Rightarrow> Inl (Undefined ''localnode.irqchip'')
      | Some Gicv2 \<Rightarrow> Inr (gicv2_init_cpu b g)
      | Some Gicv3 \<Rightarrow> gicv3_init_cpu b fuel cpu g)"

section \<open>What the start writes\<close>

text \<open>A controller that keeps a list of the stores it received, the first one first.\<close>

definition records :: "('r, 'v, 's) bus \<Rightarrow> ('s \<Rightarrow> ('r \<times> 'v) list) \<Rightarrow> bool" where
  "records b log \<longleftrightarrow> (\<forall>r v s. log (wr b r v s) = log s @ [(r, v)]) \<and> (\<forall>r s. log (snd (rd b r s)) = log s)"

lemma records_laws:
  assumes "records b log"
  shows "log (wr b r v s) = log s @ [(r, v)]" "rd b r s = (x, s1) \<Longrightarrow> log s1 = log s"
proof -
  have "log (snd (rd b r s)) = log s" using assms by (simp add: records_def)
  then show "rd b r s = (x, s1) \<Longrightarrow> log s1 = log s" by simp
qed (use assms in \<open>simp add: records_def\<close>)

lemma poll_log: "records b log \<Longrightarrow> poll b r busy n s = Inr s' \<Longrightarrow> log s' = log s"
  by (induction n arbitrary: s) (auto simp: Let_def split: prod.splits if_splits dest: records_laws(2))

lemma group_loop_log:
  assumes rec: "records b log"
  shows "j \<le> m \<Longrightarrow> log (group_loop b v (4 * m) (4 * j) s) = log s @ map (\<lambda>n. (GICD_IGROUPR n, ucast v)) [j..<m]"
proof (induction "m - j" arbitrary: j s)
  case 0
  then show ?case by (subst group_loop.simps) simp
next
  case (Suc k)
  then have j: "j < m" by simp
  have "log (group_loop b v (4 * m) (4 * Suc j) (reg_w32 b (GICD_IGROUPR j) v s)) =
      log (reg_w32 b (GICD_IGROUPR j) v s) @ map (\<lambda>n. (GICD_IGROUPR n, ucast v)) [Suc j..<m]"
    using Suc j by (intro Suc.hyps(1)) auto
  then show ?case using j
    by (subst group_loop.simps) (simp add: reg_w32_def records_laws(1) [OF rec] upt_conv_Cons add.commute)
qed

definition group_writes :: "nat \<Rightarrow> (gic_reg \<times> u64) list" where
  "group_writes m = map (\<lambda>n. (GICD_IGROUPR n, 0xffffffff)) [0..<m]"

lemma gicv3_d_init_log:
  assumes rec: "records b log" and r: "gicv3_d_init b fuel g = Inr g'"
  shows "\<exists>lines < 32. gs_nirqs g' = min (32 * (lines + 1)) 1020 \<and>
    log (gs_hw g') = log (gs_hw g) @ (GICD_CTLR, 0) # group_writes (8 * (lines + 1)) @ [(GICD_CTLR, 0x13)]"
proof -
  obtain s1 pidr s2 cv s3 ty s4 s6 where p: "gicv3_d_wait_for_rwp b fuel (reg_w32 b GICD_CTLR 0 (gs_hw g)) = Inr s1"
      "rd b GICD_PIDR2 s1 = (pidr, s2)" "rd b GICD_CTLR s2 = (cv, s3)" "rd b GICD_TYPER s3 = (ty, s4)"
      "gicv3_d_wait_for_rwp b fuel (reg_w32 b GICD_CTLR 0x13 (group_loop b 0xffffffff (nirqs_of (ucast ty)) 0 s4)) = Inr s6"
      "gs_hw g' = s6" "gs_nirqs g' = min (nirqs_of (ucast ty)) 1020"
    using r by (auto simp: gicv3_d_init_def bind_res_eq_Inr Let_def reg_r32_def security_disabled_def min_def split: prod.splits if_splits)
  define lines where "lines = unat ((ucast ty :: u32) AND 0x1f)"
  have "(ucast ty :: u32) AND 0x1f \<le> 0x1f" by (rule word_and_le1)
  then have l: "lines < 32" by (simp add: lines_def word_le_nat_alt)
  have n: "nirqs_of (ucast ty) = 4 * (8 * (lines + 1))" by (simp add: nirqs_of_def lines_def)
  have "log s4 = log (gs_hw g) @ [(GICD_CTLR, 0)]"
    using poll_log [OF rec p(1) [unfolded gicv3_d_wait_for_rwp_def]] records_laws(2) [OF rec p(2)] records_laws(2) [OF rec p(3)]
      records_laws(2) [OF rec p(4)] by (simp add: reg_w32_def records_laws(1) [OF rec])
  then have "log (gs_hw g') = log (gs_hw g) @ (GICD_CTLR, 0) # group_writes (8 * (lines + 1)) @ [(GICD_CTLR, 0x13)]"
    using poll_log [OF rec p(5) [unfolded gicv3_d_wait_for_rwp_def]] group_loop_log [OF rec, of 0 "8 * (lines + 1)" "0xffffffff" s4] p(6) n
    by (simp add: reg_w32_def records_laws(1) [OF rec] group_writes_def)
  then show ?thesis using l p(7) n by auto
qed

text \<open>The registers the loop reaches are those of other functions: there are 32 group registers.\<close>

lemma group_register_alias:
  "GICD_IGROUPR (32 + k) = GICD_ISENABLER k" "GICD_IGROUPR (64 + k) = GICD_ICENABLER k" "GICD_IGROUPR (96 + k) = GICD_ISPENDR k"
  by (simp_all add: GICD_IGROUPR_def GICD_ISENABLER_def GICD_ICENABLER_def GICD_ISPENDR_def)

lemma group_register_inj: "GICD_IGROUPR a = GICD_IGROUPR c \<Longrightarrow> a < 1024 \<Longrightarrow> c < 1024 \<Longrightarrow> a = c"
proof -
  assume r: "GICD_IGROUPR a = GICD_IGROUPR c" "a < 1024" "c < 1024"
  have "unat (of_nat x * 4 :: u32) = x * 4" if "x < 1024" for x using that by (simp add: unat_word_ariths unat_of_nat)
  moreover have "(of_nat a * 4 :: u32) = of_nat c * 4" using r(1) by (simp add: GICD_IGROUPR_def)
  ultimately show "a = c" using r(2,3) by (metis mult_right_cancel zero_neq_numeral)
qed

text \<open>
  The loop that is meant to put all interrupts into group 1 goes on past the group registers.  On a controller with
  more than 128 interrupts it sets every bit of interrupt enable registers, and enables of interrupts
  for which the loop ends before it reaches the matching disable register are not taken back: of a controller
  with 288 interrupts, the last 32 are enabled when the start is over.
\<close>

lemma gicv3_start_enables:
  assumes rec: "records b log" and e: "log (gs_hw g) = []" and r: "gicv3_d_init b fuel g = Inr g'"
    and k: "4 * (32 + k) < gs_nirqs g'" "gs_nirqs g' \<le> 4 * (64 + k)" "k < 32"
  shows "(GICD_ISENABLER k, 0xffffffff) \<in> set (log (gs_hw g'))" "(GICD_ICENABLER k, v) \<notin> set (log (gs_hw g'))"
proof -
  obtain lines where l: "lines < 32" "gs_nirqs g' = min (32 * (lines + 1)) 1020"
      "log (gs_hw g') = (GICD_CTLR, 0) # group_writes (8 * (lines + 1)) @ [(GICD_CTLR, 0x13)]"
    using gicv3_d_init_log [OF rec r] e by auto
  have "32 + k < 8 * (lines + 1)" using k(1) l(2) by auto
  then show "(GICD_ISENABLER k, 0xffffffff) \<in> set (log (gs_hw g'))"
    by (auto simp: l(3) group_writes_def group_register_alias(1) [symmetric])
  have b: "8 * (lines + 1) \<le> 64 + k" "64 + k < 1024" using k l(1,2) by (auto simp: min_def split: if_splits)
  have "GICD_ICENABLER k \<noteq> GICD_IGROUPR n" if "n < 8 * (lines + 1)" for n
    using group_register_inj [of "64 + k" n] that b l(1) by (auto simp: group_register_alias(2) [symmetric])
  moreover have "GICD_ICENABLER k \<noteq> GICD_CTLR"
  proof -
    have "unat (0x180 + of_nat k * 4 :: u32) = 0x180 + k * 4" using b(2) by (simp add: unat_word_ariths unat_of_nat)
    then show ?thesis by (auto simp: GICD_ICENABLER_def GICD_CTLR_def dest: arg_cong [of _ _ unat])
  qed
  ultimately have "\<forall>p \<in> set (log (gs_hw g')). GICD_ICENABLER k \<noteq> fst p" by (simp add: l(3) group_writes_def)
  then show "(GICD_ICENABLER k, v) \<notin> set (log (gs_hw g'))" by force
qed

text \<open>
  The start of the distributor ends: if the controller reports within \<open>fuel\<close> reads that a write took effect
  and is of the right version, the driver does not hang or panic.
\<close>

lemma gicv3_d_init_returns:
  assumes wait: "\<And>s. \<exists>k < fuel. (ucast (fst (rd b GICD_CTLR (reads b GICD_CTLR k s))) :: u32) AND GICD_CTLR_RWP = 0"
    and rev: "\<And>s. GICD_PIDR2_ArchRev (ucast (fst (rd b GICD_PIDR2 s))) = 3"
  shows "\<exists>g'. gicv3_d_init b fuel g = Inr g'"
proof -
  have w: "\<exists>s'. gicv3_d_wait_for_rwp b fuel s = Inr s'" for s
  proof -
    obtain k where "k < fuel" "(ucast (fst (rd b GICD_CTLR (reads b GICD_CTLR k s))) :: u32) AND GICD_CTLR_RWP = 0"
      using wait by blast
    then show ?thesis
      using poll_returns [of "\<lambda>v. (ucast v :: u32) AND GICD_CTLR_RWP \<noteq> 0" b GICD_CTLR k s fuel] unfolding gicv3_d_wait_for_rwp_def by blast
  qed
  obtain s1 where s1: "gicv3_d_wait_for_rwp b fuel (reg_w32 b GICD_CTLR 0 (gs_hw g)) = Inr s1" using w by blast
  obtain pidr2 s2 where s2: "rd b GICD_PIDR2 s1 = (pidr2, s2)" by (cases "rd b GICD_PIDR2 s1")
  have "GICD_PIDR2_ArchRev (ucast pidr2) = 3" using rev [of s1] s2 by simp
  moreover obtain c s3 where "security_disabled b s2 = (c, s3)" by (cases "security_disabled b s2")
  moreover obtain ty s4 where "rd b GICD_TYPER s3 = (ty, s4)" by (cases "rd b GICD_TYPER s3")
  moreover obtain s6 where
    "gicv3_d_wait_for_rwp b fuel (reg_w32 b GICD_CTLR 0x13 (group_loop b 0xffffffff (nirqs_of (ucast ty)) 0 s4)) = Inr s6"
    using w by blast
  ultimately show ?thesis using s1 s2 by (simp add: gicv3_d_init_def reg_r32_def Let_def)
qed

text \<open>On GICv2 the same loop writes zeroes, which the set and clear registers it reaches ignore; the group
  registers themselves are all cleared.\<close>

lemma gicv2_d_init_log:
  assumes rec: "records b log"
  shows "\<exists>lines < 32. gs_nirqs (gicv2_d_init b g) = min (32 * (lines + 1)) 1020 \<and>
    log (gs_hw (gicv2_d_init b g)) =
      log (gs_hw g) @ (GICD_CTLR, 0) # map (\<lambda>n. (GICD_IGROUPR n, 0)) [0..<8 * (lines + 1)] @ [(GICD_CTLR, 1)]"
proof -
  obtain ty s where ty: "rd b GICD_TYPER (reg_w32 b GICD_CTLR 0 (gs_hw g)) = (ty, s)" by (cases "rd b GICD_TYPER (reg_w32 b GICD_CTLR 0 (gs_hw g))")
  define lines where "lines = unat ((ucast ty :: u32) AND 0x1f)"
  have "(ucast ty :: u32) AND 0x1f \<le> 0x1f" by (rule word_and_le1)
  then have l: "lines < 32" by (simp add: lines_def word_le_nat_alt)
  have n: "nirqs_of (ucast ty) = 4 * (8 * (lines + 1))" by (simp add: nirqs_of_def lines_def)
  have "log s = log (gs_hw g) @ [(GICD_CTLR, 0)]" using records_laws(2) [OF rec ty] by (simp add: reg_w32_def records_laws(1) [OF rec])
  then show ?thesis using l ty n group_loop_log [OF rec, of 0 "8 * (lines + 1)" 0 s]
    by (intro exI [of _ lines]) (auto simp: gicv2_d_init_def reg_r32_def reg_w32_def Let_def records_laws(1) [OF rec] min_def)
qed

text \<open>A start that succeeds leaves a controller for the processors, whose drivers implement all that is needed.\<close>

lemma irqchip_init_usable:
  assumes "irqchip_init d root table start g = Inr g'"
  shows "\<exists>c. gs_irqchip g' = Some c \<and>
    (c = Gicv2 \<longrightarrow> irqchip_init_core b fuel cpu g' = Inr (gicv2_init_cpu b g')) \<and>
    (c = Gicv3 \<longrightarrow> irqchip_init_core b fuel cpu g' = gicv3_init_cpu b fuel cpu g')"
  using assms by (auto simp: irqchip_init_def bind_res_eq_Inr irqchip_init_core_def split: option.splits irqchip.splits)

end
