(* ===== verification/Vsm_Log.thy ===== *)
theory Vsm_Log
  imports Prelude
begin

text \<open>
  The trace of the shared memory, \<^verbatim>\<open>core/vsm-log.c\<close>: a ring of 4096 entries that is written at every event and
  printed when something went wrong.  What is printed is the list of the lines, each with its format and its
  values.  The lemmas show that a dump prints the events that were logged last, in the order in which they happened.
\<close>

datatype vsmlog_type = READ_SENDER | READ_RECEIVER | WRITE_SENDER | WRITE_RECEIVER | INV_SENDER | INV_RECEIVER | VSM_INFO

record vsmlog =
  vl_type :: vsmlog_type
  vl_from_node :: int
  vl_to_node :: int
  vl_cpu :: int
  vl_ipa :: u64
  vl_msg :: "string option"
  vl_daif :: u64

record vsmlog_ring =
  vsmlog :: "nat \<Rightarrow> vsmlog"
  ring_idx :: nat
  loop :: bool

definition VSMLOG_SIZE :: nat where "VSMLOG_SIZE = 4096"

text \<open>A line: the kind of event, the processor, the two nodes unless the event has none, the address and the message.\<close>

datatype line = Line vsmlog_type int "(int \<times> int) option" u64 string u64

fun tyfmt :: "vsmlog_type \<Rightarrow> string" where
  "tyfmt READ_SENDER = ''[read-req]''"
| "tyfmt READ_RECEIVER = ''[read-recv]''"
| "tyfmt WRITE_SENDER = ''[write-req]''"
| "tyfmt WRITE_RECEIVER = ''[write-recv]''"
| "tyfmt INV_SENDER = ''[inv-req]''"
| "tyfmt INV_RECEIVER = ''[inv-recv]''"
| "tyfmt VSM_INFO = ''[info]''"

definition msg_text :: "string option \<Rightarrow> string" where
  "msg_text m = (case m of None \<Rightarrow> '''' | Some t \<Rightarrow> t)"

definition log_line :: "vsmlog \<Rightarrow> line" where
  "log_line vl = Line (vl_type vl) (vl_cpu vl)
     (if vl_type vl = VSM_INFO \<or> vl_from_node vl < 0 then None else Some (vl_from_node vl, vl_to_node vl))
     (vl_ipa vl) (msg_text (vl_msg vl)) (vl_daif vl)"

text \<open>The loop of the dump, which also replaces missing messages in the ring.\<close>

fun dump_loop :: "nat \<Rightarrow> nat \<Rightarrow> (nat \<Rightarrow> vsmlog) \<Rightarrow> line list \<times> (nat \<Rightarrow> vsmlog)" where
  "dump_loop 0 start ring = ([], ring)"
| "dump_loop (Suc n) start ring =
     (let vl = (ring start)\<lparr>vl_msg := Some (msg_text (vl_msg (ring start)))\<rparr>;
          (ls, ring') = dump_loop n ((start + 1) mod VSMLOG_SIZE) (ring(start := vl))
      in (log_line vl # ls, ring'))"

definition vsm_logdump :: "nat \<Rightarrow> vsmlog_ring \<Rightarrow> (line list \<times> vsmlog_ring) res" where
  "vsm_logdump n r =
     (if \<not> n < VSMLOG_SIZE then Inl (Panic ''n < 4096'')
      else
        let (start, n') = (if ring_idx r < n
                           then if loop r then (ring_idx r + VSMLOG_SIZE - n, n) else (0, ring_idx r)
                           else (ring_idx r - n, n));
            (ls, ring) = dump_loop n' start (vsmlog r)
        in Inr (ls, r\<lparr>vsmlog := ring\<rparr>))"

text \<open>The processor and the interrupt mask are those of the caller.\<close>

definition vsm_logging :: "int \<Rightarrow> u64 \<Rightarrow> vsmlog_type \<Rightarrow> int \<Rightarrow> int \<Rightarrow> u64 \<Rightarrow> string option \<Rightarrow> vsmlog_ring \<Rightarrow> vsmlog_ring" where
  "vsm_logging cpu flags type from_node to_node ipa msg r =
     (let idx = (ring_idx r + 1) mod VSMLOG_SIZE
      in r\<lparr>vsmlog := (vsmlog r)(ring_idx r := \<lparr>vl_type = type, vl_from_node = from_node, vl_to_node = to_node, vl_cpu = cpu,
             vl_ipa = ipa, vl_msg = msg, vl_daif = flags\<rparr>),
           ring_idx := idx, loop := (loop r \<or> idx = 0)\<rparr>)"

text \<open>Printing an event at once, without the interrupt mask.\<close>

definition vsm_log_out :: "int \<Rightarrow> vsmlog_type \<Rightarrow> int \<Rightarrow> int \<Rightarrow> u64 \<Rightarrow> string option \<Rightarrow> string \<times> int \<times> (int \<times> int) option \<times> u64 \<times> string" where
  "vsm_log_out cpu type from_node to_node ipa msg =
     (tyfmt type, cpu, (if type = VSM_INFO \<or> from_node < 0 then None else Some (from_node, to_node)), ipa, msg_text msg)"

section \<open>The events in the ring\<close>

text \<open>\<open>es\<close> are all events so far, as the lines they print.\<close>

definition holds_events :: "vsmlog_ring \<Rightarrow> line list \<Rightarrow> bool" where
  "holds_events r es \<longleftrightarrow>
     ring_idx r = length es mod VSMLOG_SIZE \<and> loop r = (VSMLOG_SIZE \<le> length es) \<and>
     (\<forall>i < length es. length es \<le> i + VSMLOG_SIZE \<longrightarrow> log_line (vsmlog r (i mod VSMLOG_SIZE)) = es ! i)"

definition empty_ring :: "(nat \<Rightarrow> vsmlog) \<Rightarrow> vsmlog_ring" where
  "empty_ring a = \<lparr>vsmlog = a, ring_idx = 0, loop = False\<rparr>"

lemma empty_ring_holds: "holds_events (empty_ring a) []"
  by (simp add: holds_events_def empty_ring_def VSMLOG_SIZE_def)

lemma log_line_text [simp]: "log_line (vl\<lparr>vl_msg := Some (msg_text (vl_msg vl))\<rparr>) = log_line vl"
  by (simp add: log_line_def msg_text_def)

lemma mod_close: "(i :: nat) mod m = j mod m \<Longrightarrow> i < j \<Longrightarrow> j < i + m \<Longrightarrow> False"
proof -
  assume a: "i mod m = j mod m" "i < j" "j < i + m"
  then have "(j - i) mod m = 0" by (metis mod_eq_dvd_iff_nat less_imp_le dvd_imp_mod_0)
  then show False using a(2,3) by simp
qed

lemma logging_holds:
  assumes "holds_events r es"
  shows "holds_events (vsm_logging cpu fl ty a c ipa m r)
    (es @ [log_line \<lparr>vl_type = ty, vl_from_node = a, vl_to_node = c, vl_cpu = cpu, vl_ipa = ipa, vl_msg = m, vl_daif = fl\<rparr>])"
proof -
  have idx: "ring_idx r = length es mod VSMLOG_SIZE" "loop r = (VSMLOG_SIZE \<le> length es)" using assms by (auto simp: holds_events_def)
  have "i mod VSMLOG_SIZE \<noteq> length es mod VSMLOG_SIZE" if "i < length es" "Suc (length es) \<le> i + VSMLOG_SIZE" for i
    using mod_close [of i VSMLOG_SIZE "length es"] that by auto
  moreover have "log_line (vsmlog r (i mod VSMLOG_SIZE)) = es ! i" if "i < length es" "Suc (length es) \<le> i + VSMLOG_SIZE" for i
    using assms that by (auto simp: holds_events_def)
  moreover have "(loop r \<or> Suc (length es) mod VSMLOG_SIZE = 0) = (VSMLOG_SIZE \<le> Suc (length es))"
  proof (cases "VSMLOG_SIZE \<le> length es")
    case False
    then show ?thesis using idx(2) by (cases "Suc (length es) = VSMLOG_SIZE") auto
  qed (use idx(2) in simp)
  ultimately show ?thesis using idx(1)
    by (auto simp: holds_events_def vsm_logging_def Let_def nth_append mod_Suc_eq less_Suc_eq)
qed

lemma dump_loop_keeps: "log_line (snd (dump_loop n start ring) k) = log_line (ring k)"
  by (induction n arbitrary: start ring) (auto simp: Let_def split_beta fun_upd_def)

lemma dump_loop_lines:
  "start < VSMLOG_SIZE \<Longrightarrow> fst (dump_loop n start ring) = map (\<lambda>j. log_line (ring ((start + j) mod VSMLOG_SIZE))) [0..<n]"
proof (induction n arbitrary: start ring)
  case (Suc n)
  let ?vl = "(ring start)\<lparr>vl_msg := Some (msg_text (vl_msg (ring start)))\<rparr>"
  have same: "log_line ((ring(start := ?vl)) k) = log_line (ring k)" for k by simp
  have "fst (dump_loop (Suc n) start ring) = log_line ?vl # fst (dump_loop n ((start + 1) mod VSMLOG_SIZE) (ring(start := ?vl)))"
    by (simp add: Let_def split_beta)
  also have "... = log_line (ring start) # map (\<lambda>j. log_line (ring (((start + 1) mod VSMLOG_SIZE + j) mod VSMLOG_SIZE))) [0..<n]"
    by (subst Suc.IH) (simp_all only: same log_line_text, simp_all add: VSMLOG_SIZE_def)
  also have "... = map (\<lambda>j. log_line (ring ((start + j) mod VSMLOG_SIZE))) [0..<Suc n]"
    using Suc.prems by (subst upt_conv_Cons) (simp_all add: map_Suc_upt [symmetric] comp_def mod_simps del: upt_Suc)
  finally show ?case .
qed simp

lemma dump_start:
  assumes "ring_idx r = m mod VSMLOG_SIZE" "loop r = (VSMLOG_SIZE \<le> m)" "n < VSMLOG_SIZE"
  shows "(if ring_idx r < n then if loop r then (ring_idx r + VSMLOG_SIZE - n, n) else (0, ring_idx r) else (ring_idx r - n, n)) =
    ((m - min n m) mod VSMLOG_SIZE, min n m)"
proof (cases "VSMLOG_SIZE \<le> m")
  case True
  have "(m - n) mod VSMLOG_SIZE = (if m mod VSMLOG_SIZE < n then m mod VSMLOG_SIZE + VSMLOG_SIZE - n else m mod VSMLOG_SIZE - n)"
  proof -
    obtain q t where m: "m = q * VSMLOG_SIZE + t" "t < VSMLOG_SIZE" "0 < q"
      using True div_mult_mod_eq [of m VSMLOG_SIZE] mod_less_divisor [of VSMLOG_SIZE m]
      by (metis VSMLOG_SIZE_def div_greater_zero_iff zero_less_numeral)
    show ?thesis
    proof (cases "t < n")
      case True
      then have "m - n = (q - 1) * VSMLOG_SIZE + (t + VSMLOG_SIZE - n)" using m assms(3) by (cases q) auto
      then have "(m - n) mod VSMLOG_SIZE = (t + VSMLOG_SIZE - n) mod VSMLOG_SIZE" by (simp only: mod_mult_self3)
      then show ?thesis using True m assms(3) by simp
    next
      case False
      then have "m - n = q * VSMLOG_SIZE + (t - n)" using m by simp
      then have "(m - n) mod VSMLOG_SIZE = (t - n) mod VSMLOG_SIZE" by (simp only: mod_mult_self3)
      then show ?thesis using False m by simp
    qed
  qed
  then show ?thesis using True assms by auto
next
  case False
  then show ?thesis using assms by (auto simp: min_def)
qed

text \<open>A dump prints the last events, in order, and changes nothing that a later dump would print.\<close>

lemma vsm_logdump_last:
  assumes "holds_events r es" and "n < VSMLOG_SIZE"
  shows "\<exists>r'. vsm_logdump n r = Inr (drop (length es - n) es, r') \<and> holds_events r' es"
proof -
  let ?m = "length es" and ?k = "min n (length es)"
  have r: "ring_idx r = ?m mod VSMLOG_SIZE" "loop r = (VSMLOG_SIZE \<le> ?m)"
    "\<And>i. i < ?m \<Longrightarrow> ?m \<le> i + VSMLOG_SIZE \<Longrightarrow> log_line (vsmlog r (i mod VSMLOG_SIZE)) = es ! i"
    using assms(1) by (auto simp: holds_events_def)
  have "map (\<lambda>j. log_line (vsmlog r (((?m - ?k) mod VSMLOG_SIZE + j) mod VSMLOG_SIZE))) [0..<?k] = drop (?m - n) es"
  proof (rule nth_equalityI)
    fix i assume "i < length (map (\<lambda>j. log_line (vsmlog r (((?m - ?k) mod VSMLOG_SIZE + j) mod VSMLOG_SIZE))) [0..<?k])"
    then have i: "i < ?k" by simp
    then have "log_line (vsmlog r ((?m - ?k + i) mod VSMLOG_SIZE)) = es ! (?m - ?k + i)" using assms(2) by (intro r(3)) auto
    moreover have "?m - ?k = ?m - n" by simp
    ultimately show "map (\<lambda>j. log_line (vsmlog r (((?m - ?k) mod VSMLOG_SIZE + j) mod VSMLOG_SIZE))) [0..<?k] ! i = drop (?m - n) es ! i"
      using i by (simp add: mod_simps)
  qed simp
  moreover have "(?m - ?k) mod VSMLOG_SIZE < VSMLOG_SIZE" by (simp add: VSMLOG_SIZE_def)
  ultimately have "vsm_logdump n r = Inr (drop (?m - n) es, r\<lparr>vsmlog := snd (dump_loop ?k ((?m - ?k) mod VSMLOG_SIZE) (vsmlog r))\<rparr>)"
    using assms(2) dump_loop_lines [of "(?m - ?k) mod VSMLOG_SIZE" ?k "vsmlog r"]
    unfolding vsm_logdump_def dump_start [OF r(1,2) assms(2)] by (simp add: Let_def split_beta)
  then show ?thesis using assms(1) by (auto simp: holds_events_def dump_loop_keeps)
qed

end
