(* ===== verification/Vm_Start.thy ===== *)
theory Vm_Start
  imports Vgic_V3 Stage2
begin

text \<open>
  The start of the virtual machine on a node: \<^verbatim>\<open>core/localnode.c\<close>, the initialisation of vCPUs in
  \<^verbatim>\<open>core/vcpu.c\<close>, and the controllers of node 0 and of the other nodes, \<^verbatim>\<open>main/node.c\<close> and \<^verbatim>\<open>sub/node.c\<close>.
  vCPU \<open>i\<close> of a node runs on processor \<open>i\<close>, so that \<^verbatim>\<open>current\<close> is the vCPU with the number of the processor and
  \<^verbatim>\<open>vcpu0\<close> the one of processor 0.  The guest images are given by their address and size in memory.
  The part that talks to other nodes is the theory of the cluster's start-up.
\<close>

section \<open>The node\<close>

definition MEM_PER_NODE_SIZE :: u64 where "MEM_PER_NODE_SIZE = 512 * 1024 * 1024"
definition NCPU_LIMIT :: int where "NCPU_LIMIT = 8"
definition PSR_EL1H :: u64 where "PSR_EL1H = 5"

definition vcpu_preinit :: "'c machine \<Rightarrow> 'c machine" where
  "vcpu_preinit m = m\<lparr>lvcpus := map (\<lambda>i. (lvcpus m ! i)\<lparr>pcpu := i\<rparr>) [0..<VCPU_PER_NODE_MAX]\<rparr>"

definition vcpu_init_core :: "nat \<Rightarrow> 'c machine \<Rightarrow> 'c machine res" where
  "vcpu_init_core cpu m =
     (if cpu \<ge> length (lvcpus m) then Inl (Undefined ''localvm.vcpus'')
      else
        let m1 = vgic_cpu_init cpu m
        in Inr (set_vcpu cpu ((lvcpus m1 ! cpu)\<lparr>spsr := PSR_EL1H, sctlr_el1 := 0xc50838, initialized := True\<rparr>) m1))"

definition localvm_initcore :: "nat \<Rightarrow> 'c machine \<Rightarrow> 'c machine res" where
  "localvm_initcore cpu m = bind_res (vcpu_init_core cpu m) (vgic_connect_hwirq cpu 27 27)"

text \<open>
  \<open>mmfr0\<close> and \<open>host_vbase\<close> are what \<^verbatim>\<open>s2mmu_init\<close> and \<^verbatim>\<open>vgic_init\<close> read from the hardware and the driver,
  \<open>vmio\<close> the mapping that the virtual GICv2 asks for.
\<close>

definition localvm_init ::
    "u64 \<Rightarrow> u64 \<Rightarrow> 'c gic_irqchip \<Rightarrow> bool \<Rightarrow> u64 option \<Rightarrow> (u64 \<Rightarrow> u64 \<Rightarrow> u64 \<Rightarrow> 'c machine \<Rightarrow> 'c machine) \<Rightarrow> int \<Rightarrow> u64 \<Rightarrow>
       'c machine \<Rightarrow> mstate \<Rightarrow> ('c machine \<times> s2mmu \<times> u64 \<times> mstate) res" where
  "localvm_init pv mmfr0 ops nomem host_vbase vmio n nalloc m s =
     (if n > NCPU_LIMIT then Inl (Panic ''too vcpu'')
      else if nalloc \<noteq> MEM_PER_NODE_SIZE then Inl (Panic ''localvm.nalloc != MEM_PER_NODE'')
      else
        let m1 = vcpu_preinit (m\<lparr>lnvcpu := nat n, pmap := []\<rparr>)
        in bind_res (s2mmu_init pv mmfr0 s) (\<lambda>(e, vtcr, s1).
           bind_res (map_guest_peripherals e s1) (\<lambda>s2.
           bind_res (vgic_init ops nomem host_vbase vmio m1) (\<lambda>m2.
           bind_res (vgic_connect_hwirq 0 33 33 m2) (\<lambda>m3. Inr (m3, e, vtcr, s2))))))"

section \<open>The guest\<close>

text \<open>A \<^verbatim>\<open>struct guest\<close> without its name.\<close>

record guest =
  g_start :: u64
  g_size :: nat

record vm_desc =
  os_img :: "guest option"
  fdt_img :: "guest option"
  initrd_img :: "guest option"
  nallocate :: u64
  entrypoint :: u64
  fdt_base :: u64
  initrd_base :: u64

definition main_vm_desc :: "guest \<Rightarrow> guest \<Rightarrow> guest \<Rightarrow> vm_desc" where
  "main_vm_desc linux_img virt_dtb rootfs_img = \<lparr>os_img = Some linux_img, fdt_img = Some virt_dtb, initrd_img = Some rootfs_img,
     nallocate = 512 * 1024 * 1024, entrypoint = 0x40200000, fdt_base = 0x4d400000, initrd_base = 0x48000000\<rparr>"

definition map_optional :: "s2mmu \<Rightarrow> guest option \<Rightarrow> u64 \<Rightarrow> mstate \<Rightarrow> mstate res" where
  "map_optional e g base s = (case g of None \<Rightarrow> Inr s | Some i \<Rightarrow> map_guest_image e s (g_start i) (g_size i) base)"

definition initvm :: "s2mmu \<Rightarrow> vm_desc \<Rightarrow> mstate \<Rightarrow> mstate res" where
  "initvm e desc s =
     (case os_img desc of
        None \<Rightarrow> Inl (Panic ''guest-os img is required'')
      | Some os \<Rightarrow>
          if nallocate desc mod of_nat PAGESIZE \<noteq> 0 then Inl (Panic ''invalid mem size'')
          else bind_res (map_guest_image e s (g_start os) (g_size os) (entrypoint desc)) (\<lambda>s1.
               bind_res (map_optional e (fdt_img desc) (fdt_base desc) s1) (\<lambda>s2.
                 map_optional e (initrd_img desc) (initrd_base desc) s2)))"

definition node0_init_vcpu0 :: "u64 \<Rightarrow> u64 \<Rightarrow> 'c machine \<Rightarrow> 'c machine" where
  "node0_init_vcpu0 ep fdt m =
     (let c = lvcpus m ! 0 in set_vcpu 0 (c\<lparr>elr := ep, xregs := (xregs c)[0 := fdt], online := True\<rparr>) m)"

text \<open>
  What a processor does before it waits for its vCPU to be started, on node 0 and on the others.
\<close>

definition node0_start :: "vm_desc \<Rightarrow> nat \<Rightarrow> 'c machine \<Rightarrow> 'c machine res" where
  "node0_start desc cpu m =
     bind_res (localvm_initcore cpu m) (\<lambda>m1.
       Inr (if cpu = 0 then node0_init_vcpu0 (entrypoint desc) (fdt_base desc) m1 else m1))"

definition sub_start :: "nat \<Rightarrow> 'c machine \<Rightarrow> 'c machine res" where
  "sub_start cpu m = localvm_initcore cpu m"

text \<open>The condition under which \<^verbatim>\<open>wait_for_current_vcpu_online\<close> returns.\<close>

definition wait_is_over :: "nat \<Rightarrow> 'c machine \<Rightarrow> bool" where
  "wait_is_over cpu m = online (lvcpus m ! cpu)"

text \<open>
  Entering the guest: the registers that are written before the switch, in order.  \<open>midr\<close> is the value of \<^verbatim>\<open>midr_el1\<close>.
\<close>

definition vcpu_entry :: "nat \<Rightarrow> u64 \<Rightarrow> u64 \<Rightarrow> u64 \<Rightarrow> s2mmu \<Rightarrow> 'c machine \<Rightarrow> (string \<times> u64) list res" where
  "vcpu_entry cpu midr bootclk vtcr e m =
     (let c = lvcpus m ! cpu
      in if \<not> initialized c then Inl (Panic ''maybe current vcpu uninitalized'')
         else Inr [(''vmpidr_el2'', vmpidr c), (''vpidr_el2'', midr), (''cntvoff_el2'', bootclk), (''vtcr_el2'', vtcr),
                   (''vttbr_el2'', virt2phys (pvoff e) (vttbr e)), (''sctlr_el1'', sctlr_el1 c)])"

section \<open>vCPUs that are ready to run\<close>

definition vcpu_ready :: "vcpu \<Rightarrow> bool" where
  "vcpu_ready c \<longleftrightarrow> initialized c \<and> spsr c = PSR_EL1H \<and> sctlr_el1 c = 0xc50838 \<and>
     length (sgis c) = GIC_NSGI \<and> length (ppis c) = GIC_NPPI \<and>
     (\<forall>i < GIC_NSGI. vintid (sgis c ! i) = of_nat i \<and> enabled (sgis c ! i)) \<and>
     (\<forall>i < GIC_NPPI. vintid (ppis c ! i) = of_nat (i + 16) \<and> \<not> enabled (ppis c ! i)) \<and>
     hw (ppis c ! 11) \<and> hwirq (ppis c ! 11) = 27"

lemma vgic_cpu_init_form:
  "\<exists>sg pp. vgic_cpu_init cpu m = set_vcpu cpu ((lvcpus m ! cpu)\<lparr>sgis := sg, ppis := pp\<rparr>) m \<and>
     length sg = GIC_NSGI \<and> length pp = GIC_NPPI \<and> (\<forall>i < GIC_NSGI. vintid (sg ! i) = of_nat i \<and> enabled (sg ! i)) \<and>
     (\<forall>i < GIC_NPPI. vintid (pp ! i) = of_nat (i + 16) \<and> \<not> enabled (pp ! i))"
  unfolding vgic_cpu_init_def Let_def by (rule exI, rule exI, rule conjI, rule refl) (auto simp: set_irq_targets_def)

lemma initcore_ready:
  assumes "cpu < length (lvcpus m)"
  shows "\<exists>c. localvm_initcore cpu m = Inr (set_vcpu cpu c m) \<and> vcpu_ready c \<and> elr c = elr (lvcpus m ! cpu) \<and>
    xregs c = xregs (lvcpus m ! cpu) \<and> online c = online (lvcpus m ! cpu) \<and> vcpuid c = vcpuid (lvcpus m ! cpu) \<and>
    vmpidr c = vmpidr (lvcpus m ! cpu) \<and> pcpu c = pcpu (lvcpus m ! cpu)"
proof -
  obtain sg pp where v: "vgic_cpu_init cpu m = set_vcpu cpu ((lvcpus m ! cpu)\<lparr>sgis := sg, ppis := pp\<rparr>) m"
      "length sg = GIC_NSGI" "length pp = GIC_NPPI" "\<forall>i < GIC_NSGI. vintid (sg ! i) = of_nat i \<and> enabled (sg ! i)"
      "\<forall>i < GIC_NPPI. vintid (pp ! i) = of_nat (i + 16) \<and> \<not> enabled (pp ! i)"
    using vgic_cpu_init_form [of cpu m] by blast
  let ?c = "(lvcpus m ! cpu)\<lparr>sgis := sg, spsr := PSR_EL1H, sctlr_el1 := 0xc50838, initialized := True,
    ppis := pp[11 := (pp ! 11)\<lparr>hw := True, hwirq := 27\<rparr>]\<rparr>"
  have "vcpu_ready ?c" using v(2-5) by (auto simp: vcpu_ready_def GIC_NPPI_def nth_list_update)
  moreover have "localvm_initcore cpu m = Inr (set_vcpu cpu ?c m)"
    using assms v(1,3)
    by (simp add: localvm_initcore_def vcpu_init_core_def Let_def vgic_connect_hwirq_def vgic_get_irq_def intid_defs set_vcpu_def)
  ultimately show ?thesis by (intro exI [of _ ?c]) simp
qed

text \<open>
  The processors of node 0 start in any order.  Each finds its vCPU ready and enters the guest without a panic once its
  wait is over; only vCPU 0 does not wait, and it starts at the entry point with the device tree in its first register.
\<close>

lemma node0_start_step:
  assumes "cpu < length (lvcpus m)"
  shows "\<exists>c. node0_start desc cpu m = Inr (set_vcpu cpu c m) \<and> vcpu_ready c \<and> vcpuid c = vcpuid (lvcpus m ! cpu) \<and> pcpu c = pcpu (lvcpus m ! cpu) \<and>
    (if cpu = 0 then online c \<and> elr c = entrypoint desc \<and> xregs c = (xregs (lvcpus m ! 0))[0 := fdt_base desc]
     else online c = online (lvcpus m ! cpu))"
proof -
  obtain c where c: "localvm_initcore cpu m = Inr (set_vcpu cpu c m)" "vcpu_ready c" "elr c = elr (lvcpus m ! cpu)"
      "xregs c = xregs (lvcpus m ! cpu)" "online c = online (lvcpus m ! cpu)" "vcpuid c = vcpuid (lvcpus m ! cpu)" "pcpu c = pcpu (lvcpus m ! cpu)"
    using initcore_ready [OF assms] by blast
  show ?thesis
  proof (cases "cpu = 0")
    case True
    let ?c = "c\<lparr>elr := entrypoint desc, xregs := (xregs c)[0 := fdt_base desc], online := True\<rparr>"
    have "vcpu_ready ?c" using c(2) by (simp add: vcpu_ready_def)
    moreover have "node0_start desc cpu m = Inr (set_vcpu cpu ?c m)"
      using True c(1) assms by (simp add: node0_start_def node0_init_vcpu0_def Let_def set_vcpu_def)
    ultimately show ?thesis using True c by (intro exI [of _ ?c]) simp
  next
    case False
    then show ?thesis using c by (intro exI [of _ c]) (simp add: node0_start_def)
  qed
qed

lemma ready_enters: "vcpu_ready (lvcpus m ! cpu) \<Longrightarrow> \<exists>ws. vcpu_entry cpu midr bootclk vtcr e m = Inr ws"
  by (simp add: vcpu_entry_def vcpu_ready_def Let_def)

lemma node0_start_all:
  assumes "distinct cpus" "set cpus \<subseteq> {..<length (lvcpus m)}" "\<forall>c \<in> set (lvcpus m). \<not> online c"
  shows "\<exists>m'. fold_res (node0_start desc) cpus m = Inr m' \<and> length (lvcpus m') = length (lvcpus m) \<and>
    (\<forall>cpu \<in> set cpus. vcpu_ready (lvcpus m' ! cpu) \<and> (wait_is_over cpu m' \<longleftrightarrow> cpu = 0) \<and>
       (\<exists>ws. vcpu_entry cpu midr bootclk vtcr e m' = Inr ws)) \<and>
    (0 \<in> set cpus \<longrightarrow> elr (lvcpus m' ! 0) = entrypoint desc \<and> xregs (lvcpus m' ! 0) = (xregs (lvcpus m ! 0))[0 := fdt_base desc]) \<and>
    (\<forall>cpu < length (lvcpus m). cpu \<notin> set cpus \<longrightarrow> lvcpus m' ! cpu = lvcpus m ! cpu)"
  using assms(1,2)
proof (induction cpus rule: rev_induct)
  case Nil
  then show ?case by simp
next
  case (snoc cpu cpus)
  obtain m1 where m1: "fold_res (node0_start desc) cpus m = Inr m1" "length (lvcpus m1) = length (lvcpus m)"
      "\<forall>cpu \<in> set cpus. vcpu_ready (lvcpus m1 ! cpu) \<and> (wait_is_over cpu m1 \<longleftrightarrow> cpu = 0) \<and> (\<exists>ws. vcpu_entry cpu midr bootclk vtcr e m1 = Inr ws)"
      "0 \<in> set cpus \<longrightarrow> elr (lvcpus m1 ! 0) = entrypoint desc \<and> xregs (lvcpus m1 ! 0) = (xregs (lvcpus m ! 0))[0 := fdt_base desc]"
      "\<forall>cpu < length (lvcpus m). cpu \<notin> set cpus \<longrightarrow> lvcpus m1 ! cpu = lvcpus m ! cpu"
    using snoc by auto
  have lt: "cpu < length (lvcpus m1)" using snoc.prems m1(2) by simp
  have old: "lvcpus m1 ! cpu = lvcpus m ! cpu" using snoc.prems m1(5) by simp
  have off: "\<not> online (lvcpus m ! cpu)" using assms(3) snoc.prems by simp
  obtain c where c: "node0_start desc cpu m1 = Inr (set_vcpu cpu c m1)" "vcpu_ready c"
      "if cpu = 0 then online c \<and> elr c = entrypoint desc \<and> xregs c = (xregs (lvcpus m1 ! 0))[0 := fdt_base desc] else online c = online (lvcpus m1 ! cpu)"
    using node0_start_step [OF lt] by blast
  have "fold_res (node0_start desc) (cpus @ [cpu]) m = Inr (set_vcpu cpu c m1)"
    using m1(1) c(1) by (simp add: fold_res_append)
  moreover have "vcpu_ready (lvcpus (set_vcpu cpu c m1) ! k) \<and> (wait_is_over k (set_vcpu cpu c m1) \<longleftrightarrow> k = 0) \<and>
      (\<exists>ws. vcpu_entry k midr bootclk vtcr e (set_vcpu cpu c m1) = Inr ws)" if "k \<in> set (cpus @ [cpu])" for k
    using that m1(3) c(2,3) lt old off
    by (cases "k = cpu") (auto simp: set_vcpu_def wait_is_over_def intro!: ready_enters split: if_splits)
  ultimately show ?case using m1(2,4,5) c(3) lt old
    by (intro exI [of _ "set_vcpu cpu c m1"]) (auto simp: set_vcpu_def nth_list_update)
qed

end
