(* ===== verification/Spec2Isabelle.thy ===== *)
theory Spec2Isabelle
  imports Prelude Memory_Model System_Memory Alloc_Page Page_Table Stage2 Cluster Msg_Queue Msg Vsm Vsm_Protocol Local_Vm Gic_Drivers Vsm_Cluster Vgic Vmmio Vgic_V2 Vgic_V3 Irq_Path Vpsci Vm_Trap C_String Device_Tree Flat_Tree Emul Malloc Heap_View Virtq Net Printf Bring_Up Boot_Map Cpu_Boot Device_Bus Virtio_Mmio Gic_Init Vsm_Log Vm_Start
begin

text \<open>
  A verification development for Pilevisor, a hypervisor that runs one virtual machine on several machines:
  every machine is a node of a cluster, gives some of its memory and processors to the guest, and the nodes
  keep the guest's memory coherent by exchanging messages over Ethernet.

  \<^bold>\<open>Parts and how they interact.\<close>  At start-up a node parses the device tree (\<^verbatim>\<open>core/fdt.c\<close>, \<^verbatim>\<open>core/device.c\<close>),
  registers its memory (\<^verbatim>\<open>core/memory.c\<close>), builds its own page tables (\<^verbatim>\<open>core/mm.c\<close>, \<^verbatim>\<open>core/iomem.c\<close>) and hands the rest of
  the memory to the page allocator (\<^verbatim>\<open>core/allocpage.c\<close>), on which the allocator of small objects (\<^verbatim>\<open>core/malloc.c\<close>)
  is built.  Node 0 then discovers the other nodes and distributes guest memory and vCPUs (\<^verbatim>\<open>core/node.c\<close>).  While the guest
  runs, its exceptions (\<^verbatim>\<open>core/trap.c\<close>) are page faults, which the shared memory (\<^verbatim>\<open>core/vsm.c\<close>) answers with stage-2
  mappings (\<^verbatim>\<open>core/s2mm.c\<close>), accesses to emulated devices (\<^verbatim>\<open>core/vmmio.c\<close>), of which the interrupt controller is the
  main one (\<^verbatim>\<open>core/vgic.c\<close>, \<^verbatim>\<open>core/vgic-v2.c\<close>, \<^verbatim>\<open>core/vgic-v3.c\<close>), system registers (\<^verbatim>\<open>core/vsysreg.c\<close>) and power-state
  calls (\<^verbatim>\<open>core/vpsci.c\<close>).  Physical interrupts (\<^verbatim>\<open>core/irq.c\<close>, \<^verbatim>\<open>drivers/gicv2.c\<close>, \<^verbatim>\<open>drivers/gicv3.c\<close>) are handled or passed to
  the guest.  All parts that reach other nodes use messages (\<^verbatim>\<open>core/msg.c\<close>), which the network path (\<^verbatim>\<open>drivers/net.c\<close>,
  \<^verbatim>\<open>drivers/ethernet.c\<close>, \<^verbatim>\<open>drivers/virtio\<close>) carries.

  \<^bold>\<open>Conventions.\<close>  A C function is a HOL function on an explicit state; one that may panic, fail an assertion, run into
  behaviour that C does not define or wait forever returns \<^verbatim>\<open>error + 'a\<close> (theory \<open>Prelude\<close>).  Machine integers are words
  of their width.  Memory is a map from addresses to 8-byte cells (\<open>Memory_Model\<close>), shared by page tables, free lists,
  the contents of pages and buffers; structures that are only reached through typed pointers are records.  Locks are
  left out where the code between lock and unlock is one step of the model; the locks of the shared memory, which
  queue work for other CPUs, are modelled.

  \<^bold>\<open>Memory.\<close>
  \<^item> \<open>Memory_Model\<close>, \<open>C_String\<close>: \<^verbatim>\<open>core/lib.c\<close> and the address layout of \<^verbatim>\<open>include/memlayout.h\<close>.  Copies are correct also when
    source and destination overlap; the string routines agree with their specifications on terminated strings.
  \<^item> \<open>System_Memory\<close>, \<open>Alloc_Page\<close>: the registry of memory and the buddy allocator without coalescing, with its free lists
    in memory.  The invariant \<open>zone_inv\<close> says that the lists hold disjoint aligned blocks; allocation, release and
    initialisation keep it and have their contracts.  The locale \<open>page_allocator\<close> is what clients rely on.
  \<^item> \<open>Malloc\<close>, \<open>Heap_View\<close>: size classes, frames and free lists.  \<open>heap_ok\<close> is kept by every call; the locale \<open>object_heap\<close>
    gives clients blocks and pages of their own and is interpreted by the two allocators together.
  \<^item> \<open>Page_Table\<close>: stage-1 tables.  \<open>ptree\<close> is the tree of tables in memory, \<open>pt_lookup\<close> the translation it stands for;
    walking and mapping change the translation only where they should.
  \<^item> \<open>Stage2\<close>: the guest's tables, whose entries also carry the copyset.  Every operation refines an update of an abstract
    map from pages to entries (locale \<open>entry_store\<close>).

  \<^bold>\<open>Shared memory.\<close>
  \<^item> \<open>Vsm\<close>: one node with its server processes, fault handlers, message handlers and per-page queues.
  \<^item> \<open>Vsm_Protocol\<close>: the protocol of one page without the data structures; \<open>Vsm_Cluster\<close>: nodes and network, where a step is
    a fault or the delivery of a message.  In reachable states no handler panics, a writable page is mapped on one node only, and a
    waiting vCPU is answered.  The cluster is bounded to four nodes, because the copyset has four bits: with more, the code
    loses track of readers (\<open>Stage2\<close> proves this).

  \<^bold>\<open>Cluster and messages.\<close>
  \<^item> \<open>Cluster\<close>: ids, memory slices and vCPU ids that node 0 assigns, and the lookups on them.
  \<^item> \<open>Bring_Up\<close>: the protocol by which the cluster comes up.  In whatever order messages arrive, no handler panics, every run ends
    with all nodes booted, and then all agree on who manages which page and runs which vCPU.  There are as many machines as
    \<^verbatim>\<open>NR_NODE\<close> says, each with a network address of its own, and no frame is lost; the code has no retransmission.
  \<^item> \<open>Msg_Queue\<close>, \<open>Msg\<close>: the intrusive queue (a first-in first-out queue, locale \<open>fifo\<close>), message types, connection ids, dispatch.
  \<^item> \<open>Virtq\<close>, \<open>Net\<close>: virtqueues, buffers, frames and the virtio network driver.  A message that one node sends is received by
    another with the same header and body.

  \<^bold>\<open>Virtual machine.\<close>
  \<^item> \<open>Local_Vm\<close>: the state of the vCPUs and interrupts of a node.  \<open>Gic_Drivers\<close>, \<open>Irq_Path\<close>: the drivers of the physical
    controllers, with the injection of interrupts as the locale \<open>guest_injection\<close>, and the path of an interrupt.
  \<^item> \<open>Vgic\<close>, \<open>Vgic_V2\<close>, \<open>Vgic_V3\<close>, \<open>Vmmio\<close>: the emulated controllers and the dispatch of device accesses, also to other nodes.
    The ring of pending interrupts has four entries, one of which stays free, as in the code.
  \<^item> \<open>Vpsci\<close>, \<open>Vm_Trap\<close>, \<open>Emul\<close>: power-state calls, exceptions of the guest and the instruction emulator.

  \<^bold>\<open>Start-up and output.\<close>
  \<^item> \<open>Device_Tree\<close>, \<open>Flat_Tree\<close>: the parser and all lookups; a flattened tree is parsed into the table of its nodes, and
    searches of a parsed tree end.
  \<^item> \<open>Boot_Map\<close>: the hypervisor's address space at start-up and the areas for device registers (\<^verbatim>\<open>core/mm.c\<close>, \<^verbatim>\<open>core/iomem.c\<close>).  All
    of memory ends up at its linear address, and no page of it is both writable and executable; areas do not overlap.
  \<^item> \<open>Cpu_Boot\<close>: processors, PSCI and spin tables (\<^verbatim>\<open>core/pcpu.c\<close>, \<^verbatim>\<open>drivers/psci.c\<close>, \<^verbatim>\<open>drivers/spin-table.c\<close>).  When initialisation
    returns, each of several processors can be started; the call into the firmware is an argument.
  \<^item> \<open>Device_Bus\<close>: a device as an argument, with what reads and writes of its registers do; waiting for a device.
  \<^item> \<open>Gic_Init\<close>: the start of the interrupt controllers and the choice of one (\<^verbatim>\<open>drivers/gicv2.c\<close>, \<^verbatim>\<open>drivers/gicv3.c\<close>,
    \<^verbatim>\<open>drivers/irqchip.c\<close>).  The start of the distributor returns; the exact stores it makes show that it enables interrupts it should not.
  \<^item> \<open>Virtio_Mmio\<close>: the virtio transport and the probe of the network card (\<^verbatim>\<open>drivers/virtio/virtio-mmio.c\<close>).  For every device
    that follows the virtio standard, the probe ends with the queues, features and buffers in place.
  \<^item> \<open>Vsm_Log\<close>: the trace of the shared memory (\<^verbatim>\<open>core/vsm-log.c\<close>); a dump prints the last events in order.
  \<^item> \<open>Vm_Start\<close>: the start of the virtual machine on a node (\<^verbatim>\<open>core/localnode.c\<close>, \<^verbatim>\<open>core/vcpu.c\<close>, \<^verbatim>\<open>main/node.c\<close>, \<^verbatim>\<open>sub/node.c\<close>).
    Processors find their vCPUs ready in whatever order they start, and only vCPU 0 of node 0 runs without being woken.
  \<^item> \<open>Printf\<close>: formatted output; printed numbers read back.

  \<^bold>\<open>Fuel and bounds.\<close>  The searches of the device tree have the number of its nodes plus one as fuel, which is enough for
  every tree the parser builds (\<open>Flat_Tree\<close>).  The retry of \<^verbatim>\<open>malloc\<close> is bounded by one, which is enough because a new frame has a
  free block (\<open>Malloc\<close>).  Flushing the log takes at most as many steps as the log has characters.  Waits for a
  device are given a number of reads (\<open>Device_Bus\<close>); they return if the device is ready within it.  All other loops are
  structural, have a termination proof, or are \<^theory_text>\<open>partial_function (option)\<close>, where not to return is a value.

  \<^bold>\<open>Not modelled.\<close>  Assembly (boot code, exception vectors, cache maintenance): it has no counterpart in a model of C values.
  The Broadcom Ethernet driver, the PCI code, the mailbox, GPIO and serial port drivers: sequences of device register accesses
  whose meaning is that of hardware not described in the repository.  Timers, counters and delays: time is not part of the state.
  The order of the initialisation calls in \<^verbatim>\<open>core/init.c\<close>, each of which is modelled on its own; the switch into the guest, which
  is assembly; the panic signal, which stops processors.  Dumps, stack traces and
  the panic screen only print.  Guests and tests are separate programs.  The memory model is sequentially consistent:
  barriers and cache maintenance are no-ops.
\<close>

end
